(* ===== verification/Prelude.thy ===== *)
theory Prelude
  imports Main "HOL-Library.Word"
begin

text \<open>
  Shared vocabulary of the development: the C integer types as machine words, the
  kernel's error numbers, the collections of hints the component theories fill, and
  the generic facts on lists, words and loops that several components use.
\<close>

unbundle bit_operations_syntax

section \<open>Integer types and error numbers\<close>

type_synonym u8 = "8 word"
type_synonym u16 = "16 word"
type_synonym u32 = "32 word"
type_synonym u64 = "64 word"

text \<open>Kernel functions return a negative error number in an \<open>int\<close>.\<close>

abbreviation EIO :: int where "EIO \<equiv> 5"
abbreviation ENOMEM :: int where "ENOMEM \<equiv> 12"
abbreviation ENODEV :: int where "ENODEV \<equiv> 19"
abbreviation EINVAL :: int where "EINVAL \<equiv> 22"
abbreviation ENOSPC :: int where "ENOSPC \<equiv> 28"
abbreviation EBADMSG :: int where "EBADMSG \<equiv> 74"
abbreviation EUCLEAN :: int where "EUCLEAN \<equiv> 117"

section \<open>Hint collections\<close>

named_theorems frame_simps \<open>fields that an operation leaves unchanged\<close>
named_theorems step_simps \<open>one unfolding of a loop\<close>

text \<open>The bytes of a C string literal.\<close>

abbreviation cstr :: "string \<Rightarrow> u8 list" where
  "cstr \<equiv> map of_char"

section \<open>Words\<close>

lemma unat_add_one_less:
  fixes a b :: "'a::len word"
  assumes "a < b"
  shows "unat (a + 1) = Suc (unat a)"
proof -
  have "unat a < unat b" using assms by (simp add: word_less_nat_alt)
  moreover have "unat b < 2 ^ LENGTH('a)" by (rule unsigned_less)
  ultimately have "unat a + 1 < 2 ^ LENGTH('a)" by linarith
  then show ?thesis by (simp add: unat_word_ariths(1))
qed

lemma unat_minus_one_greater:
  fixes a b :: "'a::len word"
  assumes "b < a"
  shows "Suc (unat (a - 1)) = unat a"
proof -
  have "a \<noteq> 0" using assms by auto
  then show ?thesis by (simp add: unat_minus_one unat_gt_0)
qed

lemma unat_of_nat_small [simp]:
  "i < 2 ^ LENGTH('a) \<Longrightarrow> unat (of_nat i :: 'a::len word) = i"
  by (simp add: unsigned_of_nat take_bit_nat_eq_self)

lemma unat_of_int_small:
  "0 \<le> i \<Longrightarrow> i < 2 ^ LENGTH('a) \<Longrightarrow> unat (word_of_int i :: 'a::len word) = nat i"
  by (simp add: unsigned_of_int take_bit_int_eq_self)

lemma uint_of_int_small:
  "0 \<le> i \<Longrightarrow> i < 2 ^ LENGTH('a) \<Longrightarrow> uint (word_of_int i :: 'a::len word) = i"
  by (simp add: unsigned_of_int take_bit_int_eq_self)

lemma div_mod_add_in_block:
  assumes "(x :: nat) mod m + i < m"
  shows "(x + i) div m = x div m \<and> (x + i) mod m = x mod m + i"
proof -
  have "i < m" using assms by linarith
  then have "(x + i) div m = x div m" using assms by (simp add: div_add1_eq [of x i m])
  moreover have "(x + i) mod m = x mod m + i"
    using assms \<open>i < m\<close> by (metis mod_add_left_eq mod_less)
  ultimately show ?thesis ..
qed

text \<open>An address stays in its block when an offset below the end of the block is added.\<close>

lemma unat_add_in_block:
  fixes a :: "'a::len word"
  assumes k: "k \<le> LENGTH('a)" and low: "unat a mod 2 ^ k + i < 2 ^ k"
  shows "unat (a + of_nat i) = unat a + i"
proof -
  have "unat a div 2 ^ k < 2 ^ (LENGTH('a) - k)"
    using unsigned_less [of a, where 'a = nat] k
    by (simp add: less_mult_imp_div_less flip: power_add)
  then have "Suc (unat a div 2 ^ k) * 2 ^ k \<le> 2 ^ (LENGTH('a) - k) * 2 ^ k"
    by (intro mult_le_mono1) simp
  also have "\<dots> = 2 ^ LENGTH('a)" using k by (simp flip: power_add)
  finally have "unat a div 2 ^ k * 2 ^ k + 2 ^ k \<le> 2 ^ LENGTH('a)" by simp
  then have "unat a + i < 2 ^ LENGTH('a)"
    using low div_mult_mod_eq [of "unat a" "2 ^ k"] by linarith
  moreover from this have "i < 2 ^ LENGTH('a)" by linarith
  ultimately show ?thesis by (simp add: unat_word_ariths(1))
qed

lemma unat_drop_bit: "unat (drop_bit k a) = unat a div 2 ^ k"
  by (metis drop_bit_eq_div unat_drop_bit_eq)

lemma unat_take_bit: "unat (take_bit k a) = unat a mod 2 ^ k"
  by (simp only: unsigned_take_bit_eq take_bit_nat_def)

lemma unat_ucast_small:
  fixes a :: "'a::len word"
  shows "unat a < 2 ^ LENGTH('b) \<Longrightarrow> unat (ucast a :: 'b::len word) = unat a"
  by (simp add: unsigned_ucast_eq take_bit_nat_eq_self)

text \<open>Clearing the low bits, as \<open>ALIGN\<close> does.\<close>

lemma and_not_mask_push_drop: "w AND NOT (mask k) = push_bit k (drop_bit k w)"
  for w :: "'a::len word"
  by (rule bit_word_eqI) (auto simp: bit_simps)

section \<open>Lists\<close>

lemma filter_upt_split:
  assumes "a \<le> i" and "i < b"
  shows "filter P [a..<b] = filter P [a..<i] @ (if P i then [i] else []) @ filter P [Suc i..<b]"
proof -
  have "[a..<b] = [a..<i] @ i # [Suc i..<b]"
    using assms upt_add_eq_append [of a i "b - i"] by (simp add: upt_conv_Cons)
  then show ?thesis by simp
qed

text \<open>The \<open>n\<close>-th element of a filtered interval has \<open>n\<close> predecessors that pass the filter.\<close>

lemma length_filter_upto_nth:
  "n < length (filter P [a..b]) \<Longrightarrow> length (filter P [a..filter P [a..b] ! n - 1]) = n"
proof (induction a b arbitrary: n rule: upto.induct)
  case (1 a b)
  then have "a \<le> b" by (cases "a \<le> b") auto
  then have up: "[a..b] = a # [a + 1..b]" by (rule upto_rec1)
  let ?F = "filter P [a + 1..b]"
  have next_: "length (filter P [a..?F ! m - 1]) = (if P a then Suc m else m)" if "m < length ?F" for m
  proof -
    have "?F ! m \<in> set ?F" using that by (rule nth_mem)
    then have "a \<le> ?F ! m - 1" by auto
    then have "[a..?F ! m - 1] = a # [a + 1..?F ! m - 1]" by (rule upto_rec1)
    then show ?thesis using "1.IH" [OF \<open>a \<le> b\<close> that] by simp
  qed
  show ?case using "1.prems" next_ up by (cases n) (auto split: if_splits)
qed

lemma filter_neq_nth:
  assumes "distinct xs" and "n < length xs"
  shows "filter (\<lambda>c. c \<noteq> xs ! n) xs = take n xs @ drop (Suc n) xs"
proof -
  have xs: "xs = take n xs @ xs ! n # drop (Suc n) xs" using assms(2) by (rule id_take_nth_drop)
  then have "distinct (take n xs @ xs ! n # drop (Suc n) xs)" using assms(1) by simp
  then have "xs ! n \<notin> set (take n xs)" "xs ! n \<notin> set (drop (Suc n) xs)" by auto
  then have "filter (\<lambda>c. c \<noteq> xs ! n) (take n xs) = take n xs"
    "filter (\<lambda>c. c \<noteq> xs ! n) (drop (Suc n) xs) = drop (Suc n) xs"
    unfolding filter_id_conv by metis+
  then have "filter (\<lambda>c. c \<noteq> xs ! n) (take n xs @ xs ! n # drop (Suc n) xs)
      = take n xs @ drop (Suc n) xs"
    by simp
  then show ?thesis using xs by simp
qed

lemma filter_upt_after_nth:
  "k < length (filter P [a..<n]) \<Longrightarrow>
    filter P [Suc (filter P [a..<n] ! k)..<n] = drop (Suc k) (filter P [a..<n])"
proof (induction "n - a" arbitrary: a k)
  case 0
  then show ?case by simp
next
  case (Suc m)
  then have up: "[a..<n] = a # [Suc a..<n]" by (simp add: upt_conv_Cons)
  have IH: "j < length (filter P [Suc a..<n]) \<Longrightarrow>
      filter P [Suc (filter P [Suc a..<n] ! j)..<n] = drop (Suc j) (filter P [Suc a..<n])" for j
    using Suc.hyps by simp
  show ?case using Suc.prems IH by (cases k) (auto simp: up)
qed

text \<open>
  A buffer with a run of bytes replaced, as \<open>memcpy\<close> into it leaves it. A write past the
  end is undefined in C; here it leaves the buffer unchanged, as \<open>xs[i := v]\<close> does.
\<close>

definition buf_put :: "'a list \<Rightarrow> nat \<Rightarrow> 'a list \<Rightarrow> 'a list" where
  "buf_put buf off xs =
     (if off + length xs \<le> length buf then take off buf @ xs @ drop (off + length xs) buf else buf)"

lemma length_buf_put [simp]: "length (buf_put buf off xs) = length buf"
  by (simp add: buf_put_def)

lemma buf_put_slice [simp]:
  "off + length xs \<le> length buf \<Longrightarrow> take (length xs) (drop off (buf_put buf off xs)) = xs"
  by (simp add: buf_put_def)

text \<open>The kernel's \<open>round_up\<close>, for a power of two \<open>y\<close>.\<close>

definition round_up :: "u32 \<Rightarrow> u32 \<Rightarrow> u32" where
  "round_up x y = ((x - 1) OR (y - 1)) + 1"

end
