(* ===== verification/Bmt_Desc.thy ===== *)
theory Bmt_Desc
  imports Prelude
begin

text \<open>
  The shared descriptor of the MediaTek bad block management layer: the state of
  \<^verbatim>\<open>drivers/mtd/nand/mtk_bmt.h\<close> (\<open>struct bmt_desc\<close>) and the accesses to the
  lower MTD device that every backend goes through (\<open>bbt_nand_read\<close>,
  \<open>bbt_nand_erase\<close>, \<open>write_bmt\<close>, \<open>bbt_nand_copy\<close>), with the lookup of the
  remap range of a block (\<open>mapping_block_in_range\<close>).

  The MTD driver below is not part of the repository. Its functions, saved in
  \<open>struct bmt_desc\<close> as function pointers, are the fields of the record
  \<open>mtd_ops\<close>, over an abstract device state \<open>'d\<close>. A read takes the address, the
  length, the OOB offset and the OOB length of \<open>struct mtd_oob_ops\<close>, and gives the
  return value, the \<open>retlen\<close> bytes read, the \<open>oobretlen\<close> OOB bytes and the next
  device state. A write takes the address, the bytes, the OOB offset and the OOB
  bytes, and gives the return value, \<open>retlen\<close>, \<open>oobretlen\<close> and the next state.
\<close>

section \<open>The lower device and the descriptor\<close>

record 'd mtd_ops =
  op_read_oob :: "'d \<Rightarrow> u64 \<Rightarrow> u64 \<Rightarrow> u32 \<Rightarrow> u64 \<Rightarrow> int \<times> u8 list \<times> u8 list \<times> 'd"
  op_write_oob :: "'d \<Rightarrow> u64 \<Rightarrow> u8 list \<Rightarrow> u32 \<Rightarrow> u8 list \<Rightarrow> int \<times> nat \<times> nat \<times> 'd"
  op_erase :: "'d \<Rightarrow> u64 \<Rightarrow> u64 \<Rightarrow> int \<times> 'd"
  op_block_isbad :: "'d \<Rightarrow> u64 \<Rightarrow> int \<times> 'd"
  op_block_markbad :: "'d \<Rightarrow> u64 \<Rightarrow> int \<times> 'd"

record 'd bmtd =
  lower_ops :: "'d mtd_ops"
  lower :: 'd
  mtd_size :: u64
  erasesize :: u32
  oobsize :: u32
  bitflip_threshold :: u32
  ecc_strength :: u32
  bbt_buf :: "u8 list"
  data_buf :: "u8 list"
  table_size :: u32
  pg_size :: u32
  blk_size :: u32
  pg_shift :: u16
  blk_shift :: u16
  pool_lba :: u16
  pool_pba :: u16
  bb_max :: u16
  total_blks :: u16
  bmt_blk_idx :: u16
  bmt_pgs :: u32
  remap_range :: "(u32 \<times> u32) list option"
  oob_offset :: u8

text \<open>
  The backend operations (\<open>struct mtk_bmt_ops\<close>). The union of backend data at the
  end of \<open>struct bmt_desc\<close> is the extension field of the record, so a backend's state
  is a record that extends \<open>'d bmtd\<close>. A remap or an unmap that does not return is \<open>None\<close>.
\<close>

record 's mtk_bmt_ops =
  remap_block :: "'s \<Rightarrow> u16 \<Rightarrow> u16 \<Rightarrow> int \<Rightarrow> (bool \<times> 's) option"
  unmap_block :: "'s \<Rightarrow> u16 \<Rightarrow> 's option"
  get_mapping_block :: "'s \<Rightarrow> int \<Rightarrow> int"

abbreviation bshift :: "('d, 'z) bmtd_scheme \<Rightarrow> nat" where
  "bshift s \<equiv> unat (blk_shift s)"

definition mtd_is_bitflip :: "int \<Rightarrow> bool" where
  "mtd_is_bitflip ret \<longleftrightarrow> ret = - EUCLEAN"

section \<open>Accesses to the lower device\<close>

definition lower_read ::
  "('d, 'z) bmtd_scheme \<Rightarrow> u64 \<Rightarrow> u64 \<Rightarrow> u32 \<Rightarrow> u64
    \<Rightarrow> int \<times> u8 list \<times> u8 list \<times> ('d, 'z) bmtd_scheme" where
  "lower_read s from len ooboffs ooblen =
     (case op_read_oob (lower_ops s) (lower s) from len ooboffs ooblen of
        (ret, dat, oob, d) \<Rightarrow> (ret, dat, oob, s\<lparr>lower := d\<rparr>))"

definition lower_write ::
  "('d, 'z) bmtd_scheme \<Rightarrow> u64 \<Rightarrow> u8 list \<Rightarrow> u32 \<Rightarrow> u8 list
    \<Rightarrow> int \<times> nat \<times> nat \<times> ('d, 'z) bmtd_scheme" where
  "lower_write s to dat ooboffs oob =
     (case op_write_oob (lower_ops s) (lower s) to dat ooboffs oob of
        (ret, n, m, d) \<Rightarrow> (ret, n, m, s\<lparr>lower := d\<rparr>))"

definition lower_erase ::
  "('d, 'z) bmtd_scheme \<Rightarrow> u64 \<Rightarrow> u64 \<Rightarrow> int \<times> ('d, 'z) bmtd_scheme" where
  "lower_erase s addr len =
     (case op_erase (lower_ops s) (lower s) addr len of (ret, d) \<Rightarrow> (ret, s\<lparr>lower := d\<rparr>))"

definition lower_isbad ::
  "('d, 'z) bmtd_scheme \<Rightarrow> u64 \<Rightarrow> int \<times> ('d, 'z) bmtd_scheme" where
  "lower_isbad s addr =
     (case op_block_isbad (lower_ops s) (lower s) addr of (ret, d) \<Rightarrow> (ret, s\<lparr>lower := d\<rparr>))"

definition lower_markbad ::
  "('d, 'z) bmtd_scheme \<Rightarrow> u64 \<Rightarrow> int \<times> ('d, 'z) bmtd_scheme" where
  "lower_markbad s addr =
     (case op_block_markbad (lower_ops s) (lower s) addr of (ret, d) \<Rightarrow> (ret, s\<lparr>lower := d\<rparr>))"

definition blk_addr :: "('d, 'z) bmtd_scheme \<Rightarrow> u16 \<Rightarrow> u64" where
  "blk_addr s block = push_bit (bshift s) (ucast block)"

definition blk_pg :: "('d, 'z) bmtd_scheme \<Rightarrow> u16 \<Rightarrow> u32" where
  "blk_pg s block = push_bit (nat (uint (blk_shift s) - uint (pg_shift s))) (ucast block)"

text \<open>
  \<open>bbt_nand_read\<close> returns the data into \<open>dat\<close> and the OOB bytes into \<open>fdm\<close>. The
  page address is shifted as a \<open>u32\<close>, before it is widened to an address.
\<close>

definition bbt_nand_read ::
  "('d, 'z) bmtd_scheme \<Rightarrow> u32 \<Rightarrow> u64 \<Rightarrow> u64
    \<Rightarrow> int \<times> u8 list \<times> u8 list \<times> ('d, 'z) bmtd_scheme" where
  "bbt_nand_read s page dat_len fdm_len =
     (case lower_read s (ucast (push_bit (unat (pg_shift s)) page :: u32)) dat_len
             (ucast (oob_offset s)) fdm_len of
        (ret, dat, fdm, s') \<Rightarrow> (if ret < 0 then (ret, dat, fdm, s') else (0, dat, fdm, s')))"

definition bbt_nand_erase ::
  "('d, 'z) bmtd_scheme \<Rightarrow> u16 \<Rightarrow> int \<times> ('d, 'z) bmtd_scheme" where
  "bbt_nand_erase s block = lower_erase s (blk_addr s block) (ucast (blk_size s))"

definition write_bmt ::
  "u8 list \<Rightarrow> ('d, 'z) bmtd_scheme \<Rightarrow> u16 \<Rightarrow> u8 list \<Rightarrow> int \<times> ('d, 'z) bmtd_scheme" where
  "write_bmt sig s block dat =
     (case lower_write s (blk_addr s block)
             (take (unat (push_bit (unat (pg_shift s)) (bmt_pgs s) :: u32)) dat)
             (1 + ucast (oob_offset s)) sig of
        (ret, _, _, s') \<Rightarrow> (ret, s'))"

text \<open>
  One page of \<open>bbt_nand_copy\<close>. The write descriptor is built with \<open>ooblen\<close> zero and
  only gets the OOB length after the write, so each write carries no OOB bytes.
\<close>

fun bbt_nand_copy_loop ::
  "nat \<Rightarrow> ('d, 'z) bmtd_scheme \<Rightarrow> u64 \<Rightarrow> u64 \<Rightarrow> nat \<Rightarrow> u64 \<Rightarrow> int
    \<Rightarrow> int \<times> ('d, 'z) bmtd_scheme" where
  "bbt_nand_copy_loop 0 s src dest ooblen offset max_offset = (0, s)"
| "bbt_nand_copy_loop (Suc n) s src dest ooblen offset max_offset =
     (if sint offset \<ge> max_offset then (0, s)
      else case lower_read s (src + offset) (ucast (pg_size s)) 0 (of_nat ooblen) of
        (ret, dat, oob, s1) \<Rightarrow>
          let s1 = s1\<lparr>data_buf := buf_put (data_buf s1) 0 dat\<rparr> in
          if ret < 0 \<and> \<not> mtd_is_bitflip ret then (ret, s1)
          else if dat = [] then (0, s1)
          else case lower_write s1 (dest + offset) (take (unat (pg_size s1)) (data_buf s1)) 0 [] of
            (ret2, _, _, s2) \<Rightarrow>
              if ret2 < 0 then (ret2, s2)
              else bbt_nand_copy_loop n s2 src dest ooblen (offset + of_nat (length dat)) max_offset)"

definition bbt_nand_copy ::
  "('d, 'z) bmtd_scheme \<Rightarrow> u16 \<Rightarrow> u16 \<Rightarrow> int \<Rightarrow> int \<times> ('d, 'z) bmtd_scheme" where
  "bbt_nand_copy s dest_blk src_blk max_offset =
     (let pages = unat (drop_bit (unat (pg_shift s)) (blk_size s)) in
      bbt_nand_copy_loop pages s (blk_addr s src_blk) (blk_addr s dest_blk)
        (min (unat (oobsize s) div pages) 64) 0 max_offset)"

section \<open>Remap ranges\<close>

text \<open>
  The range of a block: the bounds are byte addresses where the device tree gives remap
  ranges, and block numbers where it gives none.
\<close>

definition mapping_block_in_range :: "('d, 'z) bmtd_scheme \<Rightarrow> int \<Rightarrow> (int \<times> int) option" where
  "mapping_block_in_range s block =
     (let addr = push_bit (bshift s) (word_of_int block) :: u32;
          whole = Some (0, uint (total_blks s)) in
      case remap_range s of
        None \<Rightarrow> whole
      | Some [] \<Rightarrow> whole
      | Some cur \<Rightarrow>
          map_option (\<lambda>(a, b). (sint a, sint b)) (find (\<lambda>(a, b). \<not> (addr < a \<or> addr \<ge> b)) cur))"

section \<open>What the accesses leave alone\<close>

text \<open>
  An access to the lower device changes the device state and the page buffer, and
  nothing else of the descriptor.
\<close>

definition device_step :: "('d, 'z) bmtd_scheme \<Rightarrow> ('d, 'z) bmtd_scheme \<Rightarrow> bool" where
  "device_step s t \<longleftrightarrow> t = s\<lparr>lower := lower t, data_buf := data_buf t\<rparr>"

lemma device_step_refl [simp, intro]: "device_step s s"
  by (simp add: device_step_def)

lemma device_step_trans [trans]: "device_step s t \<Longrightarrow> device_step t u \<Longrightarrow> device_step s u"
  by (cases s; cases t; cases u) (simp add: device_step_def)

lemma device_step_lower [simp]: "device_step s (t\<lparr>lower := d\<rparr>) = device_step s t"
  by (cases s; cases t) (simp add: device_step_def)

lemma device_step_data_buf [simp]: "device_step s (t\<lparr>data_buf := b\<rparr>) = device_step s t"
  by (cases s; cases t) (simp add: device_step_def)

lemma device_step_fields:
  assumes "device_step s t"
  shows "lower_ops t = lower_ops s" "mtd_size t = mtd_size s" "erasesize t = erasesize s"
    "oobsize t = oobsize s" "bitflip_threshold t = bitflip_threshold s"
    "ecc_strength t = ecc_strength s" "bbt_buf t = bbt_buf s" "table_size t = table_size s"
    "pg_size t = pg_size s" "blk_size t = blk_size s" "pg_shift t = pg_shift s"
    "blk_shift t = blk_shift s" "pool_lba t = pool_lba s" "pool_pba t = pool_pba s"
    "bb_max t = bb_max s" "total_blks t = total_blks s" "bmt_blk_idx t = bmt_blk_idx s"
    "bmt_pgs t = bmt_pgs s" "remap_range t = remap_range s" "oob_offset t = oob_offset s"
    "bmtd.more t = bmtd.more s"
  using assms by (cases s; cases t; simp add: device_step_def)+

lemma lower_read_step: "lower_read s from n off m = (r, dat, oob, t) \<Longrightarrow> device_step s t"
  by (auto simp: lower_read_def split: prod.splits)

lemma lower_write_step: "lower_write s to dat off oob = (r, n, m, t) \<Longrightarrow> device_step s t"
  by (auto simp: lower_write_def split: prod.splits)

lemma lower_erase_step: "lower_erase s addr n = (r, t) \<Longrightarrow> device_step s t"
  by (auto simp: lower_erase_def split: prod.splits)

lemma lower_isbad_step: "lower_isbad s addr = (r, t) \<Longrightarrow> device_step s t"
  by (auto simp: lower_isbad_def split: prod.splits)

lemma lower_markbad_step: "lower_markbad s addr = (r, t) \<Longrightarrow> device_step s t"
  by (auto simp: lower_markbad_def split: prod.splits)

lemma bbt_nand_read_step: "bbt_nand_read s page n m = (r, dat, fdm, t) \<Longrightarrow> device_step s t"
  by (auto simp: bbt_nand_read_def dest: lower_read_step split: prod.splits if_splits)

lemma bbt_nand_erase_step: "bbt_nand_erase s block = (r, t) \<Longrightarrow> device_step s t"
  by (auto simp: bbt_nand_erase_def dest: lower_erase_step)

lemma write_bmt_step: "write_bmt sig s block dat = (r, t) \<Longrightarrow> device_step s t"
  by (auto simp: write_bmt_def dest: lower_write_step split: prod.splits)

lemma bbt_nand_copy_loop_step:
  "bbt_nand_copy_loop n s src dest ol off mx = (r, t) \<Longrightarrow> device_step s t"
proof (induction n arbitrary: s off)
  case 0
  then show ?case by simp
next
  case (Suc n)
  obtain ret dat oob s1 where rd: "lower_read s (src + off) (ucast (pg_size s)) 0 (of_nat ol)
      = (ret, dat, oob, s1)" by (metis prod_cases4)
  let ?s1 = "s1\<lparr>data_buf := buf_put (data_buf s1) 0 dat\<rparr>"
  obtain ret2 n2 m2 s2 where wr: "lower_write ?s1 (dest + off)
      (take (unat (pg_size ?s1)) (data_buf ?s1)) 0 [] = (ret2, n2, m2, s2)" by (metis prod_cases4)
  have s1: "device_step s ?s1" using lower_read_step [OF rd] by simp
  have s2: "device_step s s2" using s1 lower_write_step [OF wr] by (rule device_step_trans)
  from Suc.prems Suc.IH [of s2] s1 s2 show ?case
    by (auto simp: rd wr [simplified] Let_def split: if_splits intro: device_step_trans)
qed

lemma bbt_nand_copy_step: "bbt_nand_copy s dest src mx = (r, t) \<Longrightarrow> device_step s t"
  by (auto simp: bbt_nand_copy_def Let_def dest: bbt_nand_copy_loop_step)

lemmas access_steps = lower_read_step lower_write_step lower_erase_step lower_isbad_step
  lower_markbad_step bbt_nand_read_step bbt_nand_erase_step write_bmt_step bbt_nand_copy_step

lemma mapping_block_in_range_cong:
  "remap_range t = remap_range s \<Longrightarrow> blk_shift t = blk_shift s \<Longrightarrow> total_blks t = total_blks s
    \<Longrightarrow> mapping_block_in_range t block = mapping_block_in_range s block"
  by (simp add: mapping_block_in_range_def)

end
