(* ===== verification/Demo_Device.thy ===== *)
theory Demo_Device
  imports Bmt_Desc
begin

text \<open>
  Concrete lower devices, for the examples that show that the hypotheses of the
  properties can hold: a device that answers every access with success and empty flash,
  and a small flash held in memory, with the page programming and block erasure of NAND.
\<close>

section \<open>A device that always succeeds\<close>

definition quiet_ops :: "unit mtd_ops" where
  "quiet_ops =
     \<lparr>op_read_oob = (\<lambda>d from len off m. (0, replicate (unat len) 0xff, replicate (unat m) 0xff, d)),
      op_write_oob = (\<lambda>d to dat off oob. (0, length dat, length oob, d)),
      op_erase = (\<lambda>d addr len. (0, d)),
      op_block_isbad = (\<lambda>d addr. (0, d)),
      op_block_markbad = (\<lambda>d addr. (0, d))\<rparr>"

text \<open>The same, with bad block marks in the OOB bytes of some blocks of sixteen bytes.\<close>

definition marked_ops :: "nat list \<Rightarrow> unit mtd_ops" where
  "marked_ops bad = quiet_ops
     \<lparr>op_read_oob := \<lambda>d from len off m.
        (0, replicate (unat len) 0xff, replicate (unat m) (if unat from div 16 \<in> set bad then 0 else 0xff), d)\<rparr>"

lemma u16_below_8: "(b :: u16) < 8 \<Longrightarrow> b \<in> {0, 1, 2, 3, 4, 5, 6, 7}"
proof -
  assume "b < 8"
  then have "unat b < 8" by (simp add: word_less_nat_alt)
  then have "unat b \<in> unat ` {0 :: u16, 1, 2, 3, 4, 5, 6, 7}" by auto
  then show ?thesis by (auto simp: word_unat_eq_iff)
qed

text \<open>Eight blocks of four pages of four bytes, with one remap range, blocks 1 to 6.\<close>

definition demo_bmtd :: "'d mtd_ops \<Rightarrow> 'd \<Rightarrow> 'd bmtd" where
  "demo_bmtd ops d =
     \<lparr>lower_ops = ops, lower = d, mtd_size = 128, erasesize = 16, oobsize = 16,
      bitflip_threshold = 0, ecc_strength = 1,
      bbt_buf = [0, 0], data_buf = replicate 20 0xff, table_size = 8,
      pg_size = 4, blk_size = 16, pg_shift = 2, blk_shift = 4,
      pool_lba = 6, pool_pba = 6, bb_max = 2, total_blks = 8, bmt_blk_idx = 7, bmt_pgs = 1,
      remap_range = Some [(16, 112)], oob_offset = 0\<rparr>"

end
