(* ===== verification/Bmt_Core.thy ===== *)
theory Bmt_Core
  imports Demo_Device
begin

text \<open>
  The MTD operations that the layer installs in place of the driver's,
  \<^verbatim>\<open>drivers/mtd/nand/mtk_bmt.c\<close>: reads, writes and erasures of logical blocks, each
  sent to the physical block of the backend, with a remap and a new attempt when the
  driver fails. The backend is the argument \<open>ops\<close> of every definition. The loops take a
  fuel argument, and give \<open>None\<close> when it runs out.
\<close>

definition mtk_bmt_remap_block ::
  "('d, 'z) bmtd_scheme mtk_bmt_ops \<Rightarrow> ('d, 'z) bmtd_scheme \<Rightarrow> u32 \<Rightarrow> u32 \<Rightarrow> int
    \<Rightarrow> (bool \<times> ('d, 'z) bmtd_scheme) option" where
  "mtk_bmt_remap_block ops s block mapped_block copy_len =
     (case mapping_block_in_range s (sint block) of
        None \<Rightarrow> Some (False, s)
      | Some _ \<Rightarrow> remap_block ops s (ucast block) (ucast mapped_block) copy_len)"

section \<open>Read\<close>

text \<open>
  The variables of the read loop: \<open>rl_data\<close> and \<open>rl_oob\<close> are the bytes stored so far,
  whose lengths are \<open>ops->retlen\<close> and \<open>ops->oobretlen\<close>.
\<close>

record read_loop =
  rl_from :: u64
  rl_data :: "u8 list"
  rl_oob :: "u8 list"
  rl_ooboffs :: u32
  rl_ooblen :: u64
  rl_retry :: nat
  rl_ret :: int
  rl_bitflips :: int

definition blk_offset :: "('d, 'z) bmtd_scheme \<Rightarrow> u64 \<Rightarrow> u32" where
  "blk_offset s from = ucast (from AND ucast (blk_size s - 1))"

definition blk_number :: "('d, 'z) bmtd_scheme \<Rightarrow> u64 \<Rightarrow> u32" where
  "blk_number s from = ucast (drop_bit (bshift s) from)"

definition read_result :: "read_loop \<Rightarrow> int" where
  "read_result l = (if rl_ret l < 0 then rl_ret l else rl_bitflips l)"

fun mtk_bmt_read_loop ::
  "nat \<Rightarrow> ('d, 'z) bmtd_scheme mtk_bmt_ops \<Rightarrow> u64 \<Rightarrow> u64 \<Rightarrow> read_loop \<Rightarrow> ('d, 'z) bmtd_scheme
    \<Rightarrow> (int \<times> u8 list \<times> u8 list \<times> ('d, 'z) bmtd_scheme) option" where
  "mtk_bmt_read_loop 0 ops len ooblen l s = None"
| "mtk_bmt_read_loop (Suc fuel) ops len ooblen l s =
     (if \<not> (of_nat (length (rl_data l)) < len \<or> of_nat (length (rl_oob l)) < ooblen)
      then Some (read_result l, rl_data l, rl_oob l, s)
      else
        let offset = blk_offset s (rl_from l);
            block = blk_number s (rl_from l);
            cur_block = get_mapping_block ops s (sint block)
        in if cur_block < 0 then Some (- EIO, rl_data l, rl_oob l, s)
        else
          let cur_from = push_bit (bshift s) (word_of_int cur_block) + ucast offset;
              cur_len = ucast (min (erasesize s - offset)
                                   (ucast (len - of_nat (length (rl_data l))))) :: u64
          in case lower_read s cur_from cur_len (rl_ooboffs l) (rl_ooblen l) of
            (cur_ret, dat, oob, s1) \<Rightarrow>
              let l1 = (if cur_ret < 0 then l\<lparr>rl_ret := cur_ret\<rparr>
                        else l\<lparr>rl_bitflips := max (rl_bitflips l) cur_ret\<rparr>)
              in if cur_ret < 0 \<and> \<not> mtd_is_bitflip cur_ret then
                case mtk_bmt_remap_block ops s1 block (word_of_int cur_block) (sint (erasesize s1)) of
                  None \<Rightarrow> None
                | Some (ok, s2) \<Rightarrow>
                    if ok \<and> rl_retry l1 < 10
                    then mtk_bmt_read_loop fuel ops len ooblen (l1\<lparr>rl_retry := Suc (rl_retry l1)\<rparr>) s2
                    else Some (read_result l1, rl_data l1, rl_oob l1, s2)
              else
                case (if bitflip_threshold s1 \<noteq> 0 \<and> word_of_int cur_ret \<ge> bitflip_threshold s1
                      then mtk_bmt_remap_block ops s1 block (word_of_int cur_block) (sint (erasesize s1))
                      else Some (False, s1)) of
                  None \<Rightarrow> None
                | Some (_, s2) \<Rightarrow>
                let adv = (if cur_len = 0 then ucast (erasesize s2 - offset) else cur_len)
                in mtk_bmt_read_loop fuel ops len ooblen
                     (l1\<lparr>rl_from := rl_from l1 + adv, rl_data := rl_data l1 @ dat,
                         rl_oob := rl_oob l1 @ oob, rl_ooboffs := 0,
                         rl_ooblen := rl_ooblen l1 - of_nat (length oob), rl_retry := 0\<rparr>) s2)"

definition mtk_bmt_read ::
  "nat \<Rightarrow> ('d, 'z) bmtd_scheme mtk_bmt_ops \<Rightarrow> ('d, 'z) bmtd_scheme \<Rightarrow> u64 \<Rightarrow> u64 \<Rightarrow> u32 \<Rightarrow> u64
    \<Rightarrow> (int \<times> u8 list \<times> u8 list \<times> ('d, 'z) bmtd_scheme) option" where
  "mtk_bmt_read fuel ops s from len ooboffs ooblen =
     mtk_bmt_read_loop fuel ops len ooblen
       \<lparr>rl_from = from, rl_data = [], rl_oob = [], rl_ooboffs = ooboffs, rl_ooblen = ooblen,
        rl_retry = 0, rl_ret = 0, rl_bitflips = 0\<rparr> s"

section \<open>Write\<close>

text \<open>
  The variables of the write loop: \<open>wl_data\<close> and \<open>wl_oob\<close> are the bytes still to be
  written, \<open>wl_retlen\<close> and \<open>wl_oobretlen\<close> the bytes written.
\<close>

record write_loop =
  wl_to :: u64
  wl_data :: "u8 list"
  wl_oob :: "u8 list"
  wl_ooboffs :: u32
  wl_retlen :: u64
  wl_oobretlen :: u64
  wl_retry :: nat

fun mtk_bmt_write_loop ::
  "nat \<Rightarrow> ('d, 'z) bmtd_scheme mtk_bmt_ops \<Rightarrow> u64 \<Rightarrow> u64 \<Rightarrow> write_loop \<Rightarrow> ('d, 'z) bmtd_scheme
    \<Rightarrow> (int \<times> u64 \<times> u64 \<times> ('d, 'z) bmtd_scheme) option" where
  "mtk_bmt_write_loop 0 ops len ooblen l s = None"
| "mtk_bmt_write_loop (Suc fuel) ops len ooblen l s =
     (if \<not> (wl_retlen l < len \<or> wl_oobretlen l < ooblen)
      then Some (0, wl_retlen l, wl_oobretlen l, s)
      else
        let offset = blk_offset s (wl_to l);
            block = blk_number s (wl_to l);
            cur_block = get_mapping_block ops s (sint block)
        in if cur_block < 0 then Some (- EIO, wl_retlen l, wl_oobretlen l, s)
        else
          let cur_to = push_bit (bshift s) (word_of_int cur_block) + ucast offset;
              cur_len = ucast (min (blk_size s - offset) (ucast (len - wl_retlen l))) :: u64
          in case lower_write s cur_to (take (unat cur_len) (wl_data l)) (wl_ooboffs l) (wl_oob l) of
            (ret, n, m, s1) \<Rightarrow>
              if ret < 0 then
                case mtk_bmt_remap_block ops s1 block (word_of_int cur_block) (sint offset) of
                  None \<Rightarrow> None
                | Some (ok, s2) \<Rightarrow>
                    if ok \<and> wl_retry l < 10
                    then mtk_bmt_write_loop fuel ops len ooblen (l\<lparr>wl_retry := Suc (wl_retry l)\<rparr>) s2
                    else Some (ret, wl_retlen l, wl_oobretlen l, s2)
              else
                let adv = (if cur_len = 0 then ucast (erasesize s1 - offset) else cur_len)
                in mtk_bmt_write_loop fuel ops len ooblen
                     (l\<lparr>wl_to := wl_to l + adv, wl_data := drop n (wl_data l),
                        wl_oob := drop m (wl_oob l), wl_ooboffs := 0,
                        wl_retlen := wl_retlen l + of_nat n,
                        wl_oobretlen := wl_oobretlen l + of_nat m, wl_retry := 0\<rparr>) s1)"

definition mtk_bmt_write ::
  "nat \<Rightarrow> ('d, 'z) bmtd_scheme mtk_bmt_ops \<Rightarrow> ('d, 'z) bmtd_scheme \<Rightarrow> u64 \<Rightarrow> u8 list \<Rightarrow> u32 \<Rightarrow> u8 list
    \<Rightarrow> (int \<times> u64 \<times> u64 \<times> ('d, 'z) bmtd_scheme) option" where
  "mtk_bmt_write fuel ops s to dat ooboffs oob =
     mtk_bmt_write_loop fuel ops (of_nat (length dat)) (of_nat (length oob))
       \<lparr>wl_to = to, wl_data = dat, wl_oob = oob, wl_ooboffs = ooboffs,
        wl_retlen = 0, wl_oobretlen = 0, wl_retry = 0\<rparr> s"

section \<open>Erase, bad block queries\<close>

text \<open>
  The result of the erase loop starts uninitialised, which is \<open>None\<close> here; the second
  component is \<open>fail_addr\<close> where the loop sets it.
\<close>

fun mtk_bmt_erase_loop ::
  "nat \<Rightarrow> ('d, 'z) bmtd_scheme mtk_bmt_ops \<Rightarrow> u64 \<Rightarrow> u64 \<Rightarrow> nat \<Rightarrow> int option \<Rightarrow> ('d, 'z) bmtd_scheme
    \<Rightarrow> (int option \<times> u64 option \<times> ('d, 'z) bmtd_scheme) option" where
  "mtk_bmt_erase_loop 0 ops start_addr end_addr retry ret s = None"
| "mtk_bmt_erase_loop (Suc fuel) ops start_addr end_addr retry ret s =
     (if \<not> start_addr < end_addr then Some (ret, None, s)
      else
        let orig_block = ucast (drop_bit (bshift s) start_addr) :: u16;
            block = get_mapping_block ops s (uint orig_block)
        in if block < 0 then Some (Some (- EIO), None, s)
        else case lower_erase s (push_bit (bshift s) (word_of_int block)) (ucast (blk_size s)) of
          (r, s1) \<Rightarrow>
            if r \<noteq> 0 then
              case mtk_bmt_remap_block ops s1 (ucast orig_block) (word_of_int block) 0 of
                None \<Rightarrow> None
              | Some (ok, s2) \<Rightarrow>
                  if ok \<and> retry < 10
                  then mtk_bmt_erase_loop fuel ops start_addr end_addr (Suc retry) (Some r) s2
                  else Some (Some r, Some start_addr, s2)
            else mtk_bmt_erase_loop fuel ops (start_addr + ucast (erasesize s1)) end_addr 0 (Some r) s1)"

definition erase_start :: "u32 \<Rightarrow> u64 \<Rightarrow> u64" where
  "erase_start erasesize_mask addr = addr AND ucast (NOT erasesize_mask)"

definition mtk_bmt_mtd_erase ::
  "nat \<Rightarrow> ('d, 'z) bmtd_scheme mtk_bmt_ops \<Rightarrow> ('d, 'z) bmtd_scheme \<Rightarrow> u64 \<Rightarrow> u64
    \<Rightarrow> (int option \<times> u64 option \<times> ('d, 'z) bmtd_scheme) option" where
  "mtk_bmt_mtd_erase fuel ops s addr len =
     mtk_bmt_erase_loop fuel ops (erase_start (erasesize s - 1) addr) (addr + len) 0 None s"

text \<open>The argument \<open>n\<close> counts the attempts that \<open>retry_count\<close> still allows.\<close>

fun mtk_bmt_isbad_loop ::
  "nat \<Rightarrow> ('d, 'z) bmtd_scheme mtk_bmt_ops \<Rightarrow> u16 \<Rightarrow> ('d, 'z) bmtd_scheme
    \<Rightarrow> (int \<times> ('d, 'z) bmtd_scheme) option" where
  "mtk_bmt_isbad_loop n ops orig_block s =
     (let block = word_of_int (get_mapping_block ops s (uint orig_block)) :: u16 in
      case lower_isbad s (blk_addr s block) of
        (ret, s1) \<Rightarrow>
          if ret \<noteq> 0 then
            case mtk_bmt_remap_block ops s1 (ucast orig_block) (ucast block) (sint (blk_size s1)) of
              None \<Rightarrow> None
            | Some (ok, s2) \<Rightarrow>
                (case n of
                   0 \<Rightarrow> Some (ret, s2)
                 | Suc m \<Rightarrow> if ok then mtk_bmt_isbad_loop m ops orig_block s2 else Some (ret, s2))
          else Some (ret, s1))"

declare mtk_bmt_isbad_loop.simps [simp del]

definition mtk_bmt_block_isbad ::
  "('d, 'z) bmtd_scheme mtk_bmt_ops \<Rightarrow> ('d, 'z) bmtd_scheme \<Rightarrow> u64
    \<Rightarrow> (int \<times> ('d, 'z) bmtd_scheme) option" where
  "mtk_bmt_block_isbad ops s ofs =
     mtk_bmt_isbad_loop 10 ops (ucast (drop_bit (bshift s) ofs)) s"

definition mtk_bmt_block_markbad ::
  "('d, 'z) bmtd_scheme mtk_bmt_ops \<Rightarrow> ('d, 'z) bmtd_scheme \<Rightarrow> u64
    \<Rightarrow> (int \<times> ('d, 'z) bmtd_scheme) option" where
  "mtk_bmt_block_markbad ops s ofs =
     (let orig_block = ucast (drop_bit (bshift s) ofs) :: u16;
          block = get_mapping_block ops s (uint orig_block)
      in if block < 0 then Some (- EIO, s)
      else case mtk_bmt_remap_block ops s (ucast orig_block) (word_of_int block) (sint (blk_size s)) of
        None \<Rightarrow> None
      | Some (_, s1) \<Rightarrow> Some (lower_markbad s1 (push_bit (bshift s1) (word_of_int block))))"

section \<open>The debug files\<close>

definition mtk_bmt_debug_repair ::
  "('d, 'z) bmtd_scheme mtk_bmt_ops \<Rightarrow> ('d, 'z) bmtd_scheme \<Rightarrow> u64
    \<Rightarrow> (int \<times> ('d, 'z) bmtd_scheme) option" where
  "mtk_bmt_debug_repair ops s val =
     (let block = sint (ucast (drop_bit (bshift s) val) :: u32);
          prev_block = get_mapping_block ops s block
      in if prev_block < 0 then Some (- EIO, s)
      else case unmap_block ops s (word_of_int block) of
        None \<Rightarrow> None
      | Some s1 \<Rightarrow>
          let new_block = get_mapping_block ops s1 block
          in if new_block < 0 then Some (- EIO, s1)
          else if prev_block = new_block then Some (0, s1)
          else
            let s2 = snd (bbt_nand_erase s1 (word_of_int new_block));
                s3 = snd (bbt_nand_copy s2 (word_of_int new_block) (word_of_int prev_block)
                            (uint (blk_size s2)))
            in Some (0, s3))"

definition mtk_bmt_debug_mark_good ::
  "('d, 'z) bmtd_scheme mtk_bmt_ops \<Rightarrow> ('d, 'z) bmtd_scheme \<Rightarrow> u64
    \<Rightarrow> (int \<times> ('d, 'z) bmtd_scheme) option" where
  "mtk_bmt_debug_mark_good ops s val =
     map_option (\<lambda>t. (0, t)) (unmap_block ops s (ucast (drop_bit (bshift s) val)))"

definition mtk_bmt_debug_mark_bad ::
  "('d, 'z) bmtd_scheme mtk_bmt_ops \<Rightarrow> ('d, 'z) bmtd_scheme \<Rightarrow> u64
    \<Rightarrow> (int \<times> ('d, 'z) bmtd_scheme) option" where
  "mtk_bmt_debug_mark_bad ops s val =
     (let block = ucast (drop_bit (bshift s) val) :: u32;
          cur_block = get_mapping_block ops s (sint block)
      in if cur_block < 0 then Some (- EIO, s)
      else map_option (\<lambda>(_, t). (0, t))
             (mtk_bmt_remap_block ops s block (word_of_int cur_block) (sint (blk_size s))))"

section \<open>Offsets and lengths\<close>

text \<open>The block size is a power of two, below 4 GiB, and it is the erase size of the device.\<close>

definition block_geometry :: "('d, 'z) bmtd_scheme \<Rightarrow> bool" where
  "block_geometry s \<longleftrightarrow> bshift s < 32 \<and> blk_size s = 2 ^ bshift s \<and> erasesize s = blk_size s"

lemma unat_pow2_u32: "k < 32 \<Longrightarrow> unat (2 ^ k :: u32) = 2 ^ k"
proof -
  assume "k < 32"
  then have "(2 :: nat) ^ k < 2 ^ 32" by (intro power_strict_increasing) auto
  then have "unat (of_nat (2 ^ k) :: u32) = 2 ^ k" by (intro unat_of_nat_small) simp
  then show ?thesis by simp
qed

lemma unat_blk_size: "block_geometry s \<Longrightarrow> unat (blk_size s) = 2 ^ bshift s"
  by (simp add: block_geometry_def unat_pow2_u32)

lemma unat_blk_offset:
  assumes "block_geometry s"
  shows "unat (blk_offset s from) = unat from mod 2 ^ bshift s"
proof -
  have k: "bshift s < 32" using assms by (simp add: block_geometry_def)
  have "ucast (2 ^ bshift s - 1 :: u32) = (mask (bshift s) :: u64)"
    using k by (intro bit_word_eqI) (auto simp: mask_eq_exp_minus_1 [symmetric] bit_unsigned_iff bit_mask_iff)
  then have "blk_offset s from = ucast (take_bit (bshift s) from)"
    using assms by (simp add: blk_offset_def block_geometry_def take_bit_eq_mask)
  moreover have "(2 :: nat) ^ bshift s \<le> 2 ^ 32" using k by (intro power_increasing) auto
  then have "unat from mod 2 ^ bshift s < 2 ^ 32"
    by (rule less_le_trans [rotated]) simp
  ultimately show ?thesis by (simp add: unat_ucast_small unat_take_bit del: take_bit_of_nat)
qed

lemma unat_min: "unat (min a b) = min (unat a) (unat b)"
  by (simp add: min_def word_le_nat_alt)

lemma unat_read_chunk:
  assumes g: "block_geometry s" and n: "n \<le> unat len" and len: "unat len < 2 ^ 32"
  shows "unat (ucast (min (erasesize s - blk_offset s from) (ucast (len - of_nat n :: u64) :: u32)) :: u64)
       = min (2 ^ bshift s - unat from mod 2 ^ bshift s) (unat len - n)"
proof -
  have "blk_offset s from \<le> erasesize s"
    using g by (simp add: word_le_nat_alt unat_blk_offset unat_blk_size block_geometry_def unat_pow2_u32)
  then have 1: "unat (erasesize s - blk_offset s from) = 2 ^ bshift s - unat from mod 2 ^ bshift s"
    using g by (simp add: unat_sub unat_blk_offset block_geometry_def unat_pow2_u32)
  have "unat (of_nat n :: u64) = n" using n len by simp
  then have "unat (len - of_nat n) = unat len - n" using n by (simp add: unat_sub word_le_nat_alt)
  then have 2: "unat (ucast (len - of_nat n :: u64) :: u32) = unat len - n"
    using len by (simp add: unsigned_ucast_eq take_bit_nat_eq_self)
  let ?x = "min (erasesize s - blk_offset s from) (ucast (len - of_nat n :: u64) :: u32)"
  have "unat ?x < 2 ^ 64" using unsigned_less [of ?x, where 'a = nat] by simp
  then have "unat (ucast ?x :: u64) = unat ?x" by (simp add: unsigned_ucast_eq take_bit_nat_eq_self)
  then show ?thesis using 1 2 by (simp add: unat_min)
qed

section \<open>Reading a healthy flash\<close>

text \<open>
  The physical address of a logical address, and a driver whose reads succeed with few
  bitflips, leave the device as it is and give the bytes \<open>content\<close>.
\<close>

definition phys_addr :: "('d, 'z) bmtd_scheme mtk_bmt_ops \<Rightarrow> ('d, 'z) bmtd_scheme \<Rightarrow> u64 \<Rightarrow> u64" where
  "phys_addr ops s a =
     push_bit (bshift s) (word_of_int (get_mapping_block ops s (sint (blk_number s a))))
       + ucast (blk_offset s a)"

definition healthy_reads :: "('d, 'z) bmtd_scheme \<Rightarrow> (u64 \<Rightarrow> u8) \<Rightarrow> bool" where
  "healthy_reads s content \<longleftrightarrow> (\<forall>from n off. \<exists>r.
     op_read_oob (lower_ops s) (lower s) from n off 0
       = (r, map (\<lambda>i. content (from + of_nat i)) [0..<unat n], [], lower s)
     \<and> 0 \<le> r \<and> (bitflip_threshold s = 0 \<or> word_of_int r < bitflip_threshold s))"

lemma phys_addr_add:
  assumes g: "block_geometry s" and low: "unat a mod 2 ^ bshift s + i < 2 ^ bshift s"
  shows "phys_addr ops s (a + of_nat i) = phys_addr ops s a + of_nat i"
proof -
  have k: "bshift s \<le> LENGTH(64)" using g by (simp add: block_geometry_def)
  have add: "unat (a + of_nat i) = unat a + i" using k low by (rule unat_add_in_block)
  have "(unat a + i) div 2 ^ bshift s = unat a div 2 ^ bshift s"
    using low by (simp add: div_mod_add_in_block)
  then have num: "blk_number s (a + of_nat i) = blk_number s a"
    by (simp add: blk_number_def word_unat_eq_iff unat_drop_bit add unsigned_ucast_eq)
  have "(unat a + i) mod 2 ^ bshift s = unat a mod 2 ^ bshift s + i"
    using low by (simp add: div_mod_add_in_block)
  then have "unat (blk_offset s (a + of_nat i)) = unat (blk_offset s a) + i"
    by (simp add: unat_blk_offset [OF g] add)
  then have "(ucast (blk_offset s (a + of_nat i)) :: u64) = ucast (blk_offset s a) + of_nat i"
    by (metis of_nat_add of_nat_unat)
  then show ?thesis by (simp add: phys_addr_def num)
qed

lemma healthy_lower_read:
  assumes "healthy_reads s content"
  shows "\<exists>r. lower_read s from n off 0
      = (r, map (\<lambda>i. content (from + of_nat i)) [0..<unat n], [], s)
    \<and> 0 \<le> r \<and> (bitflip_threshold s = 0 \<or> word_of_int r < bitflip_threshold s)"
proof -
  obtain r where "op_read_oob (lower_ops s) (lower s) from n off 0
       = (r, map (\<lambda>i. content (from + of_nat i)) [0..<unat n], [], lower s)"
    "0 \<le> r" "bitflip_threshold s = 0 \<or> word_of_int r < bitflip_threshold s"
    using assms unfolding healthy_reads_def by metis
  then show ?thesis by (simp add: lower_read_def)
qed

lemma read_loop_flat:
  assumes "healthy_reads s content" and "block_geometry s" and "unat len < 2 ^ 32"
    and "\<And>i. i < unat len \<Longrightarrow> 0 \<le> get_mapping_block ops s (sint (blk_number s (from + of_nat i)))"
    and "rl_ooblen l = 0" and "rl_oob l = []" and "0 \<le> rl_ret l"
    and "rl_from l = from + of_nat n" and "n \<le> unat len"
    and "rl_data l = map (\<lambda>i. content (phys_addr ops s (from + of_nat i))) [0..<n]"
    and "unat len - n < fuel"
  shows "\<exists>r. mtk_bmt_read_loop fuel ops len 0 l s
      = Some (r, map (\<lambda>i. content (phys_addr ops s (from + of_nat i))) [0..<unat len], [], s)
      \<and> rl_bitflips l \<le> r"
  using assms
proof (induction fuel arbitrary: l n)
  case 0
  then show ?case by simp
next
  case (Suc fuel)
  let ?off = "blk_offset s (rl_from l)"
  let ?cb = "get_mapping_block ops s (sint (blk_number s (rl_from l)))"
  let ?len = "ucast (min (erasesize s - ?off) (ucast (len - of_nat n))) :: u64"
  let ?k = "bshift s"
  have n: "length (rl_data l) = n" using Suc.prems(10) by simp
  have n64: "unat (of_nat n :: u64) = n" using Suc.prems(3,9) by simp
  show ?case
  proof (cases "n < unat len")
    case False
    then have "n = unat len" using Suc.prems(9) by simp
    then show ?thesis using Suc.prems(5,6,7,10) by (simp add: read_result_def)
  next
    case True
    then have lt: "of_nat n < len" using n64 by (simp add: word_less_nat_alt)
    have cb: "0 \<le> ?cb" using Suc.prems(4) [OF True] Suc.prems(8) by simp
    have chunk: "unat ?len = min (2 ^ ?k - unat (rl_from l) mod 2 ^ ?k) (unat len - n)"
      using Suc.prems(2,3,9) by (intro unat_read_chunk) auto
    then have pos: "0 < unat ?len" "n + unat ?len \<le> unat len" using True by auto
    have nz: "?len \<noteq> 0" using pos(1) by (simp add: unat_gt_0)
    obtain r where rd: "lower_read s (push_bit ?k (word_of_int ?cb) + ucast ?off) ?len (rl_ooboffs l) 0
        = (r, map (\<lambda>i. content (push_bit ?k (word_of_int ?cb) + ucast ?off + of_nat i))
            [0..<unat ?len], [], s)"
      and r: "0 \<le> r" "bitflip_threshold s = 0 \<or> word_of_int r < bitflip_threshold s"
      using healthy_lower_read [OF Suc.prems(1)] by blast
    have same: "phys_addr ops s (from + of_nat (n + i))
        = push_bit ?k (word_of_int ?cb) + ucast ?off + of_nat i" if "i < unat ?len" for i
    proof -
      have "unat (rl_from l) mod 2 ^ ?k + i < 2 ^ ?k" using that chunk by linarith
      then have "phys_addr ops s (rl_from l + of_nat i) = phys_addr ops s (rl_from l) + of_nat i"
        by (rule phys_addr_add [OF Suc.prems(2)])
      then show ?thesis using Suc.prems(8) by (simp add: phys_addr_def add.assoc)
    qed
    have dat: "rl_data l @ map (\<lambda>i. content (push_bit ?k (word_of_int ?cb) + ucast ?off + of_nat i))
          [0..<unat ?len]
        = map (\<lambda>i. content (phys_addr ops s (from + of_nat i))) [0..<n + unat ?len]"
      by (rule nth_equalityI) (auto simp: Suc.prems(10) nth_append same [symmetric])
    have thr: "\<not> (bitflip_threshold s \<noteq> 0 \<and> bitflip_threshold s \<le> word_of_int r)"
      using r(2) by auto
    have from_: "rl_from l + ?len = from + of_nat (n + unat ?len)"
      using Suc.prems(8) by (simp add: add.assoc)
    let ?l = "l\<lparr>rl_bitflips := max (rl_bitflips l) r, rl_from := rl_from l + ?len,
      rl_data := map (\<lambda>i. content (phys_addr ops s (from + of_nat i))) [0..<n + unat ?len],
      rl_oob := [], rl_ooboffs := 0, rl_ooblen := 0, rl_retry := 0\<rparr>"
    have "\<exists>r'. mtk_bmt_read_loop fuel ops len 0 ?l s
      = Some (r', map (\<lambda>i. content (phys_addr ops s (from + of_nat i))) [0..<unat len], [], s)
      \<and> rl_bitflips ?l \<le> r'"
      using Suc.prems pos from_ by (intro Suc.IH [where n = "n + unat ?len"]) auto
    then obtain r' where r': "mtk_bmt_read_loop fuel ops len 0 ?l s
      = Some (r', map (\<lambda>i. content (phys_addr ops s (from + of_nat i))) [0..<unat len], [], s)"
      "max (rl_bitflips l) r \<le> r'" by auto
    have "mtk_bmt_read_loop (Suc fuel) ops len 0 l s = mtk_bmt_read_loop fuel ops len 0 ?l s"
      using lt cb r(1) thr nz Suc.prems(5,6)
      by (auto simp: n rd Let_def dat)
    then show ?thesis using r' by auto
  qed
qed

text \<open>
  C17. On a healthy flash, a read through the layer gives the bytes of a flat device: the
  byte at each logical address is the byte of the flash at the physical address that the
  backend's mapping gives, whatever the blocks the read crosses. The read ends after at
  most one turn per byte, with a non-negative result, and changes nothing.
\<close>

theorem mtk_bmt_read_flat:
  assumes "healthy_reads s content" and "block_geometry s" and "unat len < 2 ^ 32"
    and "\<And>i. i < unat len \<Longrightarrow> 0 \<le> get_mapping_block ops s (sint (blk_number s (from + of_nat i)))"
    and "unat len < fuel"
  shows "\<exists>r \<ge> 0. mtk_bmt_read fuel ops s from len ooboffs 0
      = Some (r, map (\<lambda>i. content (phys_addr ops s (from + of_nat i))) [0..<unat len], [], s)"
proof -
  have "\<exists>r. mtk_bmt_read_loop fuel ops len 0
       \<lparr>rl_from = from, rl_data = [], rl_oob = [], rl_ooboffs = ooboffs, rl_ooblen = 0,
        rl_retry = 0, rl_ret = 0, rl_bitflips = 0\<rparr> s
      = Some (r, map (\<lambda>i. content (phys_addr ops s (from + of_nat i))) [0..<unat len], [], s)
      \<and> rl_bitflips \<lparr>rl_from = from, rl_data = [], rl_oob = [], rl_ooboffs = ooboffs, rl_ooblen = 0,
        rl_retry = 0, rl_ret = 0, rl_bitflips = 0\<rparr> \<le> r"
    using assms by (intro read_loop_flat [where n = 0]) auto
  then show ?thesis unfolding mtk_bmt_read_def by auto
qed

theorem mtk_bmt_read_flat_witness:
  "\<exists>r \<ge> 0. mtk_bmt_read 10
      \<lparr>remap_block = \<lambda>s b m n. Some (False, s), unmap_block = \<lambda>s b. Some s, get_mapping_block = \<lambda>s b. 7 - b\<rparr>
      (demo_bmtd quiet_ops ()) 14 4 0 0
    = Some (r, [0xff, 0xff, 0xff, 0xff], [], demo_bmtd quiet_ops ())"
proof -
  let ?ops = "\<lparr>remap_block = \<lambda>s b m n. Some (False, s), unmap_block = \<lambda>s b. Some s,
    get_mapping_block = \<lambda>s b. 7 - b\<rparr> :: unit bmtd mtk_bmt_ops"
  let ?s = "demo_bmtd quiet_ops ()"
  have h: "healthy_reads ?s (\<lambda>_. 0xff)"
    by (simp add: healthy_reads_def demo_bmtd_def quiet_ops_def map_replicate_const)
  have g: "block_geometry ?s" by code_simp
  have m: "0 \<le> get_mapping_block ?ops ?s (sint (blk_number ?s (14 + of_nat i)))"
    if "i < unat (4 :: u64)" for i
  proof -
    have "i \<in> {0, 1, 2, 3}" using that by auto
    then show ?thesis by (elim insertE emptyE) (simp, code_simp)+
  qed
  have v: "map (\<lambda>i. (\<lambda>_. 0xff) (phys_addr ?ops ?s (14 + of_nat i))) [0..<unat (4 :: u64)]
      = [0xff :: u8, 0xff, 0xff, 0xff]"
    by code_simp
  show ?thesis
    unfolding v [symmetric] by (rule mtk_bmt_read_flat [OF h g _ m]) simp_all
qed

text \<open>A driver that reports success has read all that was asked for.\<close>

definition honest_reads :: "'d mtd_ops \<Rightarrow> bool" where
  "honest_reads drv \<longleftrightarrow> (\<forall>d from n off. case op_read_oob drv d from n off 0 of
      (r, dat, oob, d') \<Rightarrow> (0 \<le> r \<or> mtd_is_bitflip r) \<longrightarrow> length dat = unat n \<and> oob = [])"

lemma honest_lower_read:
  assumes "honest_reads (lower_ops s)" and "lower_read s from n off 0 = (r, dat, oob, t)"
    and "0 \<le> r \<or> mtd_is_bitflip r"
  shows "length dat = unat n \<and> oob = []"
proof -
  obtain d' where "op_read_oob (lower_ops s) (lower s) from n off 0 = (r, dat, oob, d')"
    using assms(2) by (auto simp: lower_read_def split: prod.splits)
  then show ?thesis using assms(1,3) unfolding honest_reads_def by (metis (mono_tags) case_prod_conv)
qed

section \<open>The contract of a backend\<close>

text \<open>The fields that no operation of a backend changes.\<close>

definition geometry :: "('d, 'z) bmtd_scheme
    \<Rightarrow> 'd mtd_ops \<times> u32 \<times> u32 \<times> u32 \<times> u32 \<times> u16 \<times> u16 \<times> u16 \<times> (u32 \<times> u32) list option" where
  "geometry s = (lower_ops s, erasesize s, bitflip_threshold s, pg_size s, blk_size s, pg_shift s,
     blk_shift s, total_blks s, remap_range s)"

lemma geometry_device_step: "device_step s t \<Longrightarrow> geometry t = geometry s"
  by (simp add: geometry_def device_step_fields)

lemma geometry_fields:
  assumes "geometry t = geometry s"
  shows "lower_ops t = lower_ops s" "erasesize t = erasesize s" "blk_size t = blk_size s"
    "bitflip_threshold t = bitflip_threshold s" "blk_shift t = blk_shift s"
    "total_blks t = total_blks s" "remap_range t = remap_range s" "pg_size t = pg_size s"
  using assms by (simp_all add: geometry_def)

locale bmt_backend =
  fixes ops :: "('d, 'z) bmtd_scheme mtk_bmt_ops"
    and inv :: "('d, 'z) bmtd_scheme \<Rightarrow> bool"
  assumes remap_geometry: "inv s \<Longrightarrow> remap_block ops s b m n = Some (ok, t) \<Longrightarrow> geometry t = geometry s"
    and map_device: "device_step s t \<Longrightarrow> get_mapping_block ops t = get_mapping_block ops s"
    and inv_device: "device_step s t \<Longrightarrow> inv s \<Longrightarrow> inv t"
    and inv_remap: "inv s \<Longrightarrow> remap_block ops s b m n = Some (ok, t) \<Longrightarrow> inv t"
    and remap_returns: "inv s \<Longrightarrow> remap_block ops s b m n \<noteq> None"
begin

lemma remap_step:
  assumes "mtk_bmt_remap_block ops s b m n = Some (ok, t)"
  shows "inv s \<longrightarrow> geometry t = geometry s \<and> inv t"
  using assms
  by (auto simp: mtk_bmt_remap_block_def split: option.splits dest: remap_geometry inv_remap)

lemma remap_result:
  assumes "inv s"
  obtains ok t where "mtk_bmt_remap_block ops s b m n = Some (ok, t)" "geometry t = geometry s" "inv t"
proof -
  have "mtk_bmt_remap_block ops s b m n \<noteq> None"
    using remap_returns [OF assms] by (auto simp: mtk_bmt_remap_block_def split: option.split)
  then show ?thesis using that remap_step [of s b m n] assms by fast
qed

lemma access_step:
  assumes "device_step s t"
  shows "geometry t = geometry s \<and> (inv s \<longrightarrow> inv t)"
  using assms by (blast dest: geometry_device_step inv_device)

text \<open>The loops keep the geometry and the invariant.\<close>

lemma read_loop_frame:
  "mtk_bmt_read_loop fuel ops len ol l s = Some (r, d, ob, t)
    \<Longrightarrow> inv s \<longrightarrow> geometry t = geometry s \<and> inv t"
proof (induction fuel arbitrary: l s)
  case 0
  then show ?case by simp
next
  case (Suc fuel)
  let ?off = "blk_offset s (rl_from l)"
  let ?cb = "get_mapping_block ops s (sint (blk_number s (rl_from l)))"
  let ?len = "ucast (min (erasesize s - ?off) (ucast (len - of_nat (length (rl_data l))))) :: u64"
  obtain cr dat oob s1 where rd: "lower_read s (push_bit (bshift s) (word_of_int ?cb) + ucast ?off)
      ?len (rl_ooboffs l) (rl_ooblen l) = (cr, dat, oob, s1)" by (metis prod_cases4)
  note rm = remap_step [of s1]
  have s1: "geometry s1 = geometry s \<and> (inv s \<longrightarrow> inv s1)"
    using lower_read_step [OF rd] by (rule access_step)
  show ?case
    using Suc.prems s1 by (auto simp: rd Let_def split: if_splits option.splits dest!: Suc.IH rm)
qed

lemma write_loop_frame:
  "mtk_bmt_write_loop fuel ops len ol l s = Some (r, n, m, t)
    \<Longrightarrow> inv s \<longrightarrow> geometry t = geometry s \<and> inv t"
proof (induction fuel arbitrary: l s)
  case 0
  then show ?case by simp
next
  case (Suc fuel)
  let ?off = "blk_offset s (wl_to l)"
  let ?cb = "get_mapping_block ops s (sint (blk_number s (wl_to l)))"
  let ?len = "ucast (min (blk_size s - ?off) (ucast (len - wl_retlen l))) :: u64"
  obtain ret i j s1 where wr: "lower_write s (push_bit (bshift s) (word_of_int ?cb) + ucast ?off)
      (take (unat ?len) (wl_data l)) (wl_ooboffs l) (wl_oob l) = (ret, i, j, s1)"
    by (metis prod_cases4)
  note rm = remap_step [of s1]
  have s1: "geometry s1 = geometry s \<and> (inv s \<longrightarrow> inv s1)"
    using lower_write_step [OF wr] by (rule access_step)
  show ?case
    using Suc.prems s1 by (auto simp: wr Let_def split: if_splits option.splits dest!: Suc.IH rm)
qed

lemma erase_loop_frame:
  "mtk_bmt_erase_loop fuel ops a e n ret s = Some (r, f, t)
    \<Longrightarrow> inv s \<longrightarrow> geometry t = geometry s \<and> inv t"
proof (induction fuel arbitrary: a n ret s)
  case 0
  then show ?case by simp
next
  case (Suc fuel)
  let ?ob = "ucast (drop_bit (bshift s) a) :: u16"
  let ?cb = "get_mapping_block ops s (uint ?ob)"
  obtain r1 s1 where er: "lower_erase s (push_bit (bshift s) (word_of_int ?cb)) (ucast (blk_size s))
      = (r1, s1)" by fastforce
  note rm = remap_step [of s1]
  have s1: "geometry s1 = geometry s \<and> (inv s \<longrightarrow> inv s1)"
    using lower_erase_step [OF er] by (rule access_step)
  show ?case
    using Suc.prems s1 by (auto simp: er Let_def split: if_splits option.splits dest!: Suc.IH rm)
qed

lemma isbad_loop_frame:
  "mtk_bmt_isbad_loop n ops b s = Some (r, t) \<Longrightarrow> inv s \<longrightarrow> geometry t = geometry s \<and> inv t"
proof (induction n arbitrary: s)
  case 0
  then show ?case
    by (auto simp: mtk_bmt_isbad_loop.simps [of 0] Let_def split: if_splits prod.splits option.splits
        dest!: remap_step lower_isbad_step [THEN access_step])
next
  case (Suc n)
  show ?case
    using Suc.prems
    by (auto simp: mtk_bmt_isbad_loop.simps [of "Suc n"] Let_def split: if_splits prod.splits option.splits
        dest!: remap_step lower_isbad_step [THEN access_step] Suc.IH)
qed

text \<open>
  With an honest driver the read loop ends, whatever the driver's failures and the backend's remaps are: each turn
  reads something or uses up one of the eleven attempts at a block.
\<close>

lemma read_loop_terminates:
  assumes "inv s" and "honest_reads (lower_ops s)" and "block_geometry s" and "unat len < 2 ^ 32"
    and "rl_ooblen l = 0" and "rl_oob l = []" and "length (rl_data l) \<le> unat len"
    and "rl_retry l \<le> 10"
    and "11 * (unat len - length (rl_data l)) + (10 - rl_retry l) < fuel"
  shows "mtk_bmt_read_loop fuel ops len 0 l s \<noteq> None"
  using assms
proof (induction fuel arbitrary: l s)
  case 0
  then show ?case by simp
next
  case (Suc fuel)
  let ?n = "length (rl_data l)"
  let ?off = "blk_offset s (rl_from l)"
  let ?cb = "get_mapping_block ops s (sint (blk_number s (rl_from l)))"
  let ?len = "ucast (min (erasesize s - ?off) (ucast (len - of_nat ?n))) :: u64"
  obtain cr dat oob s1 where rd: "lower_read s (push_bit (bshift s) (word_of_int ?cb) + ucast ?off)
      ?len (rl_ooboffs l) (rl_ooblen l) = (cr, dat, oob, s1)" by (metis prod_cases4)
  have s1: "geometry s1 = geometry s" "inv s1"
    using access_step [OF lower_read_step [OF rd]] Suc.prems(1) by simp_all
  obtain ok s2 where rm: "mtk_bmt_remap_block ops s1 (blk_number s (rl_from l)) (word_of_int ?cb)
      (sint (erasesize s1)) = Some (ok, s2)" and "geometry s2 = geometry s1" "inv s2"
    using s1(2) by (rule remap_result)
  then have s2: "geometry s2 = geometry s" "inv s2" using s1 by simp_all
  have keep: "block_geometry t" "lower_ops t = lower_ops s" if "geometry t = geometry s" for t
    using Suc.prems(3) by (simp_all add: block_geometry_def geometry_fields [OF that])
  have chunk: "unat ?len = min (2 ^ bshift s - unat (rl_from l) mod 2 ^ bshift s) (unat len - ?n)"
    using Suc.prems by (intro unat_read_chunk) auto
  have read: "length dat = unat ?len \<and> oob = []" if "0 \<le> cr \<or> mtd_is_bitflip cr"
    using rd that unfolding Suc.prems(5) by (rule honest_lower_read [OF Suc.prems(2)])
  have n64: "unat (of_nat ?n :: u64) = ?n" using Suc.prems(4,7) by simp
  show ?case
  proof (cases "of_nat ?n < len")
    case False
    then show ?thesis using Suc.prems(6) by simp
  next
    case True
    then have "?n < unat len" using n64 by (simp add: word_less_nat_alt)
    then have pos: "0 < unat ?len" "?n + unat ?len \<le> unat len" using chunk by simp_all
    let ?fail = "cr < 0 \<and> \<not> mtd_is_bitflip cr"
    show ?thesis
    proof (cases ?fail)
      case fail: True
      have "mtk_bmt_read_loop fuel ops len 0 (l\<lparr>rl_ret := cr, rl_retry := Suc (rl_retry l)\<rparr>) s2 \<noteq> None"
        if "rl_retry l < 10"
        using Suc.prems that keep [OF s2(1)] s2(2) by (intro Suc.IH) auto
      then show ?thesis using fail True by (auto simp: rd rm Let_def)
    next
      case ok: False
      then have dat: "length dat = unat ?len" "oob = []" using read by auto
      have "mtk_bmt_read_loop fuel ops len 0 l' t \<noteq> None"
        if "geometry t = geometry s" "inv t" "rl_ooblen l' = 0" "rl_oob l' = []"
          "length (rl_data l') = ?n + unat ?len" "rl_retry l' = 0" for l' t
        using Suc.prems keep [OF that(1)] that pos by (intro Suc.IH) auto
      then show ?thesis
        using ok True dat s1 s2 Suc.prems(5,6)
        by (auto simp: rd [unfolded Suc.prems(5)] rm Let_def simp del: not_None_eq)
    qed
  qed
qed

end

end
