(* ===== verification/Block_Marks.thy ===== *)
theory Block_Marks
  imports Prelude
begin

text \<open>
  The interface of a table that records bad blocks, as the bitmap of the BBT backend and
  the state table of NMBM implement it: a mark changes the answer for one block only.
  What follows for a client (counting the good blocks, marking several blocks) is proved
  once, here.
\<close>

locale block_marks =
  fixes is_bad :: "'s \<Rightarrow> 'b \<Rightarrow> bool"
    and mark_bad :: "'s \<Rightarrow> 'b \<Rightarrow> 's"
    and covers :: "'s \<Rightarrow> 'b \<Rightarrow> bool"
  assumes mark_same: "covers s b \<Longrightarrow> is_bad (mark_bad s b) b"
    and mark_other: "covers s b \<Longrightarrow> covers s c \<Longrightarrow> c \<noteq> b \<Longrightarrow> is_bad (mark_bad s b) c = is_bad s c"
    and mark_covers: "covers (mark_bad s b) c = covers s c"
begin

definition good_blocks :: "'s \<Rightarrow> 'b list \<Rightarrow> 'b list" where
  "good_blocks s bs = filter (\<lambda>b. \<not> is_bad s b) bs"

lemma is_bad_mark_iff:
  "covers s b \<Longrightarrow> covers s c \<Longrightarrow> is_bad (mark_bad s b) c \<longleftrightarrow> c = b \<or> is_bad s c"
  using mark_same mark_other by blast

lemma good_blocks_mark:
  assumes "covers s b" and "\<forall>c \<in> set bs. covers s c"
  shows "good_blocks (mark_bad s b) bs = filter (\<lambda>c. c \<noteq> b) (good_blocks s bs)"
  using assms by (induction bs) (auto simp: good_blocks_def is_bad_mark_iff)

lemma good_blocks_mark_count:
  assumes "covers s b" and "\<forall>c \<in> set bs. covers s c" and "distinct bs"
    and "b \<in> set bs" and "\<not> is_bad s b"
  shows "Suc (length (good_blocks (mark_bad s b) bs)) = length (good_blocks s bs)"
proof -
  have d: "distinct (good_blocks s bs)" and m: "b \<in> set (good_blocks s bs)"
    using assms(3,4,5) by (auto simp: good_blocks_def)
  have "filter (\<lambda>c. c \<noteq> b) (good_blocks s bs) = remove1 b (good_blocks s bs)"
    using d by (simp add: distinct_remove1_removeAll removeAll_filter_not_eq eq_commute [of b])
  then show ?thesis
    using m length_pos_if_in_set [OF m]
    by (simp add: good_blocks_mark [OF assms(1,2)] length_remove1)
qed

lemma good_blocks_mark_bad_again:
  assumes "covers s b" and "\<forall>c \<in> set bs. covers s c" and "is_bad s b"
  shows "good_blocks (mark_bad s b) bs = good_blocks s bs"
  unfolding good_blocks_def using assms by (intro filter_cong) (auto simp: is_bad_mark_iff)

lemma is_bad_marks:
  assumes "\<forall>b \<in> set bs. covers s b" and "covers s c"
  shows "is_bad (foldl mark_bad s bs) c \<longleftrightarrow> c \<in> set bs \<or> is_bad s c"
  using assms by (induction bs arbitrary: s) (auto simp: is_bad_mark_iff mark_covers)

end

end
