(* ===== verification/Bmt_Bbt.thy ===== *)
theory Bmt_Bbt
  imports Bmt_Core Block_Marks
begin

text \<open>
  The bitmap backend, \<^verbatim>\<open>drivers/mtd/nand/mtk_bmt_bbt.c\<close>. Two bits per block in
  \<open>bbt_buf\<close> say whether a block is bad; the mapping of a block is computed from the
  bitmap on every access, by skipping the bad blocks of the block's remap range.
\<close>

section \<open>The bitmap\<close>

definition bbt_sig :: "u8 list" where
  "bbt_sig = cstr ''mtknand''"

definition bbt_mask :: "u16 \<Rightarrow> u8" where
  "bbt_mask block = push_bit (unat (block mod 4) * 2) 3"

definition bbt_block_is_bad :: "('d, 'z) bmtd_scheme \<Rightarrow> u16 \<Rightarrow> bool" where
  "bbt_block_is_bad s block =
     (let cur = bbt_buf s ! unat (block div 4) in cur AND bbt_mask block \<noteq> 0)"

definition bbt_set_block_state :: "('d, 'z) bmtd_scheme \<Rightarrow> u16 \<Rightarrow> bool \<Rightarrow> ('d, 'z) bmtd_scheme" where
  "bbt_set_block_state s block bad =
     (let i = unat (block div 4);
          cur = bbt_buf s ! i;
          new = (if bad then cur OR bbt_mask block else cur AND NOT (bbt_mask block));
          s1 = s\<lparr>bbt_buf := (bbt_buf s)[i := new]\<rparr>;
          (r, s2) = bbt_nand_erase s1 (bmt_blk_idx s1);
          (r', s3) = write_bmt bbt_sig s2 (bmt_blk_idx s2) (bbt_buf s2)
      in s3)"

section \<open>The mapping\<close>

text \<open>
  The loop that skips bad blocks: it gives the index where it stopped, what is left of
  \<open>ofs\<close>, and the bad blocks it met.
\<close>

function bbt_skip ::
  "('d, 'z) bmtd_scheme \<Rightarrow> int \<Rightarrow> int \<Rightarrow> int \<Rightarrow> int \<Rightarrow> int \<times> int \<times> int" where
  "bbt_skip s e i ofs bad =
     (if i < e then
        if bbt_block_is_bad s (word_of_int i) then bbt_skip s e (i + 1) ofs (bad + 1)
        else if ofs \<noteq> 0 then bbt_skip s e (i + 1) (ofs - 1) bad
        else (i, ofs, bad)
      else (i, ofs, bad))"
  by pat_completeness auto
termination
  by (relation "measure (\<lambda>(s, e, i, ofs, bad). nat (e - i))") auto

declare bbt_skip.simps [simp del]

text \<open>
  The loop that gives the bad blocks to the blocks that overflow. \<open>None\<close> means that the
  fuel ran out, \<open>Some None\<close> that the loop ended, \<open>Some (Some i)\<close> that it returned \<open>i\<close>.
\<close>

fun bbt_overflow ::
  "nat \<Rightarrow> ('d, 'z) bmtd_scheme \<Rightarrow> int \<Rightarrow> int \<Rightarrow> int \<Rightarrow> int option option" where
  "bbt_overflow 0 s i ofs bad = None"
| "bbt_overflow (Suc n) s i ofs bad =
     (if bad \<le> 0 then Some None
      else if \<not> bbt_block_is_bad s (word_of_int i) then bbt_overflow n s (i - 1) ofs bad
      else if bad - 1 \<le> ofs then Some (Some i)
      else bbt_overflow n s (i - 1) ofs (bad - 1))"

definition get_mapping_block_index_bbt :: "('d, 'z) bmtd_scheme \<Rightarrow> int \<Rightarrow> int" where
  "get_mapping_block_index_bbt s block =
     (case mapping_block_in_range s block of
        None \<Rightarrow> block
      | Some (a, b) \<Rightarrow>
          let start = drop_bit (bshift s) a;
              e = drop_bit (bshift s) b;
              (i, ofs, bad) = bbt_skip s e start (block - start) 0
          in if i < e then i
             else case bbt_overflow (Suc (nat (e - start))) s (e - 1) ofs bad of
                    Some (Some j) \<Rightarrow> j
                  | _ \<Rightarrow> block)"

section \<open>The operations\<close>

definition remap_block_bbt ::
  "('d, 'z) bmtd_scheme \<Rightarrow> u16 \<Rightarrow> u16 \<Rightarrow> int \<Rightarrow> bool \<times> ('d, 'z) bmtd_scheme" where
  "remap_block_bbt s block mapped_blk copy_len =
     (case mapping_block_in_range s (uint block) of
        None \<Rightarrow> (False, s)
      | Some _ \<Rightarrow>
          let s1 = bbt_set_block_state s mapped_blk True;
              new_blk = word_of_int (get_mapping_block_index_bbt s1 (uint block)) :: u16;
              (r, s2) = bbt_nand_erase s1 new_blk;
              s3 = (if copy_len > 0 then snd (bbt_nand_copy s2 new_blk mapped_blk copy_len) else s2)
          in (True, s3))"

definition unmap_block_bbt :: "('d, 'z) bmtd_scheme \<Rightarrow> u16 \<Rightarrow> ('d, 'z) bmtd_scheme" where
  "unmap_block_bbt s block = bbt_set_block_state s block False"

text \<open>The five last blocks are searched for the table, from the end.\<close>

fun mtk_bmt_read_bbt_loop ::
  "nat \<Rightarrow> ('d, 'z) bmtd_scheme \<Rightarrow> int \<Rightarrow> int \<times> ('d, 'z) bmtd_scheme" where
  "mtk_bmt_read_bbt_loop 0 s i = (- EIO, s)"
| "mtk_bmt_read_bbt_loop (Suc n) s i =
     (let page = push_bit (nat (uint (blk_shift s) - uint (pg_shift s))) (word_of_int i) :: u32 in
      case bbt_nand_read s page (ucast (pg_size s)) 8 of
        (ret, dat, oob, s1) \<Rightarrow>
          let s1 = s1\<lparr>bbt_buf := buf_put (bbt_buf s1) 0 dat\<rparr> in
          if ret \<noteq> 0 then mtk_bmt_read_bbt_loop n s1 (i - 1)
          else if oob ! 0 \<noteq> 0xff then mtk_bmt_read_bbt_loop n s1 (i - 1)
          else if take 7 (drop 1 oob) \<noteq> bbt_sig then mtk_bmt_read_bbt_loop n s1 (i - 1)
          else (0, s1\<lparr>bmt_blk_idx := word_of_int i\<rparr>))"

definition mtk_bmt_read_bbt :: "('d, 'z) bmtd_scheme \<Rightarrow> int \<times> ('d, 'z) bmtd_scheme" where
  "mtk_bmt_read_bbt s = mtk_bmt_read_bbt_loop 5 s (uint (total_blks s) - 1)"

definition mtk_bmt_init_bbt :: "bool \<Rightarrow> ('d, 'z) bmtd_scheme \<Rightarrow> int \<times> ('d, 'z) bmtd_scheme" where
  "mtk_bmt_init_bbt kmalloc_ok s =
     (let buf_size = round_up (ucast (drop_bit 2 (total_blks s))) (blk_size s) in
      if \<not> kmalloc_ok then (- ENOMEM, s)
      else
        let s1 = s\<lparr>bbt_buf := replicate (unat buf_size) 0xff,
                   mtd_size := mtd_size s - ucast (4 * erasesize s)\<rparr>;
            (ret, s2) = mtk_bmt_read_bbt s1
        in if ret \<noteq> 0 then (ret, s2)
           else (0, s2\<lparr>bmt_pgs := buf_size div pg_size s2\<rparr>))"

definition mtk_bmt_debug_bbt :: "('d, 'z) bmtd_scheme \<Rightarrow> u64 \<Rightarrow> int \<times> ('d, 'z) bmtd_scheme" where
  "mtk_bmt_debug_bbt s val =
     (if val = 100 then
        let s1 = s\<lparr>bmt_blk_idx := total_blks s - 1\<rparr>;
            (r, s2) = bbt_nand_erase s1 (bmt_blk_idx s1);
            (r', s3) = write_bmt bbt_sig s2 (bmt_blk_idx s2) (bbt_buf s2)
        in (0, s3)
      else (0, s))"

definition mtk_bmt_bbt_ops :: "('d, 'z) bmtd_scheme mtk_bmt_ops" where
  "mtk_bmt_bbt_ops =
     \<lparr>remap_block = (\<lambda>s b m n. Some (remap_block_bbt s b m n)), unmap_block = (\<lambda>s b. Some (unmap_block_bbt s b)),
      get_mapping_block = get_mapping_block_index_bbt\<rparr>"

section \<open>Properties of the bitmap\<close>

text \<open>The table has a byte for every block number.\<close>

definition bbt_covers :: "('d, 'z) bmtd_scheme \<Rightarrow> u16 \<Rightarrow> bool" where
  "bbt_covers s block \<longleftrightarrow> unat (block div 4) < length (bbt_buf s)"

lemma bbt_mask_values:
  "unat (block mod 4) = 0 \<and> bbt_mask block = 3 \<or> unat (block mod 4) = 1 \<and> bbt_mask block = 12
   \<or> unat (block mod 4) = 2 \<and> bbt_mask block = 48 \<or> unat (block mod 4) = 3 \<and> bbt_mask block = 192"
proof -
  have "unat (block mod 4) < 4" by (simp add: unat_mod)
  then consider "unat (block mod 4) = 0" | "unat (block mod 4) = 1"
    | "unat (block mod 4) = 2" | "unat (block mod 4) = 3" by linarith
  then show ?thesis by cases (simp_all add: bbt_mask_def push_bit_eq_mult)
qed

lemma bbt_mask_nonzero: "bbt_mask block \<noteq> 0"
  using bbt_mask_values [of block] by auto

lemma u16_div_mod_4_eq:
  fixes a b :: u16
  assumes "a div 4 = b div 4" and "unat (a mod 4) = unat (b mod 4)"
  shows "a = b"
proof -
  have "a mod 4 = b mod 4" using assms(2) by (rule word_unat_eq_iff [THEN iffD2])
  then show ?thesis using assms(1) by (metis word_mod_div_equality)
qed

lemma bbt_mask_disjoint:
  assumes "a div 4 = b div 4" and "a \<noteq> b"
  shows "bbt_mask a AND bbt_mask b = 0"
proof -
  have "unat (a mod 4) \<noteq> unat (b mod 4)" using assms u16_div_mod_4_eq by blast
  then show ?thesis using bbt_mask_values [of a] bbt_mask_values [of b] by auto
qed

lemma and_or_disjoint:
  "(a :: 'a::len word) AND b = 0 \<Longrightarrow> (c OR a) AND b = c AND b"
  by (simp add: bit.conj_disj_distrib2)

lemma and_not_disjoint:
  assumes "(a :: 'a::len word) AND b = 0"
  shows "(c AND NOT a) AND b = c AND b"
proof (rule bit_word_eqI)
  fix n assume n: "n < LENGTH('a)"
  have "\<not> (bit a n \<and> bit b n)" using assms by (metis bit_and_iff bit_0_eq bot_apply bot_bool_def)
  then show "bit ((c AND NOT a) AND b) n = bit (c AND b) n"
    using n by (auto simp: bit_and_iff bit_not_iff)
qed

text \<open>The bitmap after \<open>bbt_set_block_state\<close>; the device accesses do not change it.\<close>

lemma bbt_set_block_state_buf:
  "bbt_buf (bbt_set_block_state s block bad) =
     (bbt_buf s)[unat (block div 4) :=
       (if bad then bbt_buf s ! unat (block div 4) OR bbt_mask block
        else bbt_buf s ! unat (block div 4) AND NOT (bbt_mask block))]"
proof -
  let ?s1 = "s\<lparr>bbt_buf := (bbt_buf s)[unat (block div 4) :=
       (if bad then bbt_buf s ! unat (block div 4) OR bbt_mask block
        else bbt_buf s ! unat (block div 4) AND NOT (bbt_mask block))]\<rparr>"
  obtain r s2 where er: "bbt_nand_erase ?s1 (bmt_blk_idx ?s1) = (r, s2)" by fastforce
  obtain r' s3 where wr: "write_bmt bbt_sig s2 (bmt_blk_idx s2) (bbt_buf s2) = (r', s3)" by fastforce
  have "device_step ?s1 s3"
    using er wr by (blast dest: bbt_nand_erase_step write_bmt_step intro: device_step_trans)
  moreover have "bbt_set_block_state s block bad = s3"
    using er wr by (simp add: bbt_set_block_state_def)
  ultimately show ?thesis by (simp add: device_step_fields)
qed

lemma bbt_set_block_state_fields [frame_simps]:
  "blk_shift (bbt_set_block_state s block bad) = blk_shift s"
  "remap_range (bbt_set_block_state s block bad) = remap_range s"
  "total_blks (bbt_set_block_state s block bad) = total_blks s"
  "bmt_blk_idx (bbt_set_block_state s block bad) = bmt_blk_idx s"
  "lower_ops (bbt_set_block_state s block bad) = lower_ops s"
  "length (bbt_buf (bbt_set_block_state s block bad)) = length (bbt_buf s)"
  by (auto simp: bbt_set_block_state_def Let_def device_step_fields split: prod.splits
      dest!: bbt_nand_erase_step write_bmt_step)

lemma bbt_is_bad_set_same:
  "bbt_covers s b \<Longrightarrow> bbt_block_is_bad (bbt_set_block_state s b bad) b = bad"
  using bbt_mask_nonzero [of b]
  by (auto simp: bbt_block_is_bad_def bbt_covers_def bbt_set_block_state_buf Let_def
      bit.conj_disj_distrib2 and.assoc)

lemma bbt_is_bad_set_other:
  assumes "bbt_covers s b" and "c \<noteq> b"
  shows "bbt_block_is_bad (bbt_set_block_state s b bad) c = bbt_block_is_bad s c"
proof (cases "c div 4 = b div 4")
  case True
  then have "bbt_mask b AND bbt_mask c = 0" using assms(2) bbt_mask_disjoint by metis
  then show ?thesis
    using assms(1) True
    by (simp add: bbt_block_is_bad_def bbt_covers_def bbt_set_block_state_buf Let_def
        and_or_disjoint and_not_disjoint)
next
  case False
  then have "unat (c div 4) \<noteq> unat (b div 4)" by (simp add: word_unat_eq_iff)
  then show ?thesis by (simp add: bbt_block_is_bad_def bbt_set_block_state_buf Let_def)
qed

lemma bbt_covers_set [simp]: "bbt_covers (bbt_set_block_state s b bad) c = bbt_covers s c"
  by (simp add: bbt_covers_def frame_simps)

interpretation bbt_marks: block_marks bbt_block_is_bad
  "\<lambda>s b. bbt_set_block_state s b True" bbt_covers
  by unfold_locales (simp_all add: bbt_is_bad_set_same bbt_is_bad_set_other)

section \<open>What the mapping computes\<close>

abbreviation bad_int :: "('d, 'z) bmtd_scheme \<Rightarrow> int \<Rightarrow> bool" where
  "bad_int s i \<equiv> bbt_block_is_bad s (word_of_int i)"

text \<open>
  The specification: the good blocks of the range in order, then its bad blocks in order.
\<close>

definition bbt_order :: "('d, 'z) bmtd_scheme \<Rightarrow> int \<Rightarrow> int \<Rightarrow> int list" where
  "bbt_order s start e =
     filter (\<lambda>i. \<not> bad_int s i) [start..e - 1] @ filter (bad_int s) [start..e - 1]"

lemma bbt_skip_spec:
  assumes "0 \<le> ofs" and "i \<le> e"
  shows "bbt_skip s e i ofs bad =
    (let G = filter (\<lambda>j. \<not> bad_int s j) [i..e - 1] in
     if nat ofs < length G
     then (G ! nat ofs, 0, bad + int (length (filter (bad_int s) [i..G ! nat ofs - 1])))
     else (e, ofs - int (length G), bad + int (length (filter (bad_int s) [i..e - 1]))))"
  using assms
proof (induction s e i ofs bad rule: bbt_skip.induct)
  case (1 s e i ofs bad)
  show ?case
  proof (cases "i < e")
    case False
    then show ?thesis using "1.prems" by (simp add: bbt_skip.simps)
  next
    case True
    then have up: "[i..e - 1] = i # [i + 1..e - 1]" by (simp add: upto_rec1)
    let ?G = "filter (\<lambda>j. \<not> bad_int s j) [i + 1..e - 1]"
    have head: "[i..?G ! n - 1] = i # [i + 1..?G ! n - 1]" if "n < length ?G" for n
    proof -
      have "?G ! n \<in> set ?G" using that by (rule nth_mem)
      then have "i \<le> ?G ! n - 1" by auto
      then show ?thesis by (rule upto_rec1)
    qed
    show ?thesis
    proof (cases "bad_int s i")
      case bad: True
      then show ?thesis
        using True "1.prems" "1.IH"(1) head
        by (simp add: bbt_skip.simps [of s e i ofs bad] up Let_def)
    next
      case good: False
      show ?thesis
      proof (cases "ofs = 0")
        case True
        then show ?thesis
          using \<open>i < e\<close> good bbt_skip.simps [of s e i ofs bad] by (simp add: up)
      next
        case False
        then have "0 \<le> ofs - 1" and n: "nat ofs = Suc (nat (ofs - 1))" using "1.prems" by auto
        then show ?thesis
          using True good False "1.IH"(2) head
          by (simp add: bbt_skip.simps [of s e i ofs bad] up Let_def)
      qed
    qed
  qed
qed

lemma bbt_overflow_spec:
  assumes "bad = int (length (filter (bad_int s) [start..i]))"
    and "0 \<le> ofs" and "ofs < bad" and "nat (i - start) + 1 < n"
  shows "bbt_overflow n s i ofs bad = Some (Some (filter (bad_int s) [start..i] ! nat ofs))"
  using assms
proof (induction n s i ofs bad rule: bbt_overflow.induct)
  case (1 s i ofs bad)
  then show ?case by simp
next
  case (2 n s i ofs bad)
  have "start \<le> i" using "2.prems"(1,2,3) by (cases "start \<le> i") auto
  then have up: "[start..i] = [start..i - 1] @ [i]" by (simp add: upto_rec2)
  have fuel: "start \<le> i - 1 \<Longrightarrow> nat (i - 1 - start) + 1 < n" using "2.prems"(4) \<open>start \<le> i\<close> by simp
  let ?F = "filter (bad_int s) [start..i - 1]"
  have F: "?F \<noteq> [] \<Longrightarrow> start \<le> i - 1" by (cases "start \<le> i - 1") auto
  show ?case
  proof (cases "bad_int s i")
    case False
    then have "bad = int (length ?F)" using "2.prems"(1) up by simp
    moreover have "?F \<noteq> []" using calculation "2.prems"(2,3) by auto
    ultimately show ?thesis
      using False "2.prems"(2,3) "2.IH"(1) fuel F up by simp
  next
    case True
    then have len: "bad - 1 = int (length ?F)" using "2.prems"(1) up by simp
    show ?thesis
    proof (cases "bad - 1 \<le> ofs")
      case last: True
      then have "nat ofs = length ?F" using len "2.prems"(3) by linarith
      then show ?thesis using True last "2.prems"(2,3) up by (simp add: nth_append)
    next
      case False
      then have lt: "nat ofs < length ?F" using len "2.prems"(2) by linarith
      then have "?F \<noteq> []" by auto
      then show ?thesis
        using True False "2.prems"(2,3) "2.IH"(2) len fuel F up lt by (simp add: nth_append)
    qed
  qed
qed

text \<open>
  A remap range of whole blocks: every block from \<open>a\<close> to \<open>b\<close> (byte addresses) finds
  exactly this range in the device tree's list.
\<close>

definition remap_zone :: "('d, 'z) bmtd_scheme \<Rightarrow> int \<Rightarrow> int \<Rightarrow> bool" where
  "remap_zone s a b \<longleftrightarrow>
     list_all (\<lambda>block. mapping_block_in_range s block = Some (a, b))
       [drop_bit (bshift s) a..drop_bit (bshift s) b - 1]"

lemma remap_zoneD:
  "remap_zone s a b \<Longrightarrow> drop_bit (bshift s) a \<le> block \<Longrightarrow> block < drop_bit (bshift s) b
    \<Longrightarrow> mapping_block_in_range s block = Some (a, b)"
  by (simp add: remap_zone_def list_all_iff)

lemma length_bbt_order: "start \<le> e \<Longrightarrow> length (bbt_order s start e) = nat (e - start)"
  by (simp add: bbt_order_def sum_length_filter_compl add.commute)

lemma set_bbt_order: "set (bbt_order s start e) = {start..<e}"
  by (auto simp: bbt_order_def)

lemma distinct_bbt_order: "distinct (bbt_order s start e)"
  by (auto simp: bbt_order_def)

lemma get_mapping_bbt_order:
  assumes "remap_zone s a b"
    and start: "start = drop_bit (bshift s) a" and e: "e = drop_bit (bshift s) b"
    and "start \<le> block" and "block < e"
  shows "get_mapping_block_index_bbt s block = bbt_order s start e ! nat (block - start)"
proof -
  have rng: "mapping_block_in_range s block = Some (a, b)"
    using assms by (blast intro: remap_zoneD)
  let ?G = "filter (\<lambda>j. \<not> bad_int s j) [start..e - 1]"
  let ?B = "filter (bad_int s) [start..e - 1]"
  have total: "length ?G + length ?B = nat (e - start)"
    using assms(4,5) by (simp add: sum_length_filter_compl add.commute)
  note skip = bbt_skip_spec [of "block - start" start e s 0]
  show ?thesis
  proof (cases "nat (block - start) < length ?G")
    case True
    then have "?G ! nat (block - start) \<in> set ?G" by (rule nth_mem)
    then have "?G ! nat (block - start) < e" by auto
    then show ?thesis
      using True skip assms(4,5) rng
      by (simp add: get_mapping_block_index_bbt_def Let_def bbt_order_def nth_append
          flip: start e)
  next
    case False
    let ?ofs = "block - start - int (length ?G)"
    have ofs: "0 \<le> ?ofs" "?ofs < int (length ?B)" using False total assms(4,5) by linarith+
    have "bbt_overflow (Suc (nat (e - start))) s (e - 1) ?ofs (int (length ?B))
        = Some (Some (?B ! nat ?ofs))"
      using ofs assms(4,5) by (intro bbt_overflow_spec) auto
    moreover have "nat ?ofs = nat (block - start) - length ?G" using assms(4) by linarith
    ultimately show ?thesis
      using False skip assms(4,5) rng
      by (simp add: get_mapping_block_index_bbt_def Let_def bbt_order_def nth_append
          flip: start e)
  qed
qed

text \<open>
  C1. Inside a remap range, the mapping of the BBT backend is a permutation of the blocks
  of the range, whatever the bitmap says: the logical blocks use each physical block of
  the range exactly once, so no two logical blocks ever share a physical block.
\<close>

theorem bbt_mapping_permutes_range:
  assumes "remap_zone s a b"
  shows "bij_betw (get_mapping_block_index_bbt s)
           {drop_bit (bshift s) a..<drop_bit (bshift s) b}
           {drop_bit (bshift s) a..<drop_bit (bshift s) b}"
proof (cases "drop_bit (bshift s) a \<le> drop_bit (bshift s) b")
  case True
  let ?st = "drop_bit (bshift s) a" and ?e = "drop_bit (bshift s) b"
  have 1: "bij_betw (\<lambda>block. nat (block - ?st)) {?st..<?e} {..<nat (?e - ?st)}"
    by (rule bij_betw_byWitness [where f' = "\<lambda>n. int n + ?st"]) auto
  have 2: "bij_betw ((!) (bbt_order s ?st ?e)) {..<nat (?e - ?st)} {?st..<?e}"
    using True
    by (intro bij_betw_nth) (simp_all add: distinct_bbt_order length_bbt_order set_bbt_order)
  have 3: "bij_betw ((!) (bbt_order s ?st ?e) \<circ> (\<lambda>block. nat (block - ?st))) {?st..<?e} {?st..<?e}"
    using 1 2 by (rule bij_betw_trans)
  show ?thesis
    by (rule bij_betw_cong [THEN iffD2, OF _ 3]) (simp add: get_mapping_bbt_order [OF assms refl refl])
next
  case False
  then show ?thesis by (simp add: bij_betw_def)
qed

theorem bbt_mapping_permutes_range_witness:
  "remap_zone (demo_bmtd quiet_ops () \<lparr>bbt_buf := [0x30, 0]\<rparr>) 16 112 \<and>
   bij_betw (get_mapping_block_index_bbt (demo_bmtd quiet_ops () \<lparr>bbt_buf := [0x30, 0]\<rparr>))
     {1..<7} {1..<7}"
proof -
  let ?s = "demo_bmtd quiet_ops () \<lparr>bbt_buf := [0x30, 0]\<rparr>"
  have z: "remap_zone ?s 16 112" by code_simp
  have "drop_bit (bshift ?s) (16 :: int) = 1" "drop_bit (bshift ?s) (112 :: int) = 7" by code_simp+
  then show ?thesis using z bbt_mapping_permutes_range [OF z] by simp
qed

text \<open>
  As long as the range has enough good blocks, a logical block is mapped to a good
  block, the one that follows as many good blocks as the logical block has predecessors
  in the range.
\<close>

theorem bbt_mapping_good:
  assumes "remap_zone s a b"
    and "drop_bit (bshift s) a \<le> block" and "block < drop_bit (bshift s) b"
    and "block - drop_bit (bshift s) a
           < int (length (filter (\<lambda>i. \<not> bad_int s i) [drop_bit (bshift s) a..drop_bit (bshift s) b - 1]))"
  shows "\<not> bad_int s (get_mapping_block_index_bbt s block)
       \<and> int (length (filter (\<lambda>i. \<not> bad_int s i)
              [drop_bit (bshift s) a..get_mapping_block_index_bbt s block - 1]))
           = block - drop_bit (bshift s) a"
proof -
  let ?G = "filter (\<lambda>i. \<not> bad_int s i) [drop_bit (bshift s) a..drop_bit (bshift s) b - 1]"
  let ?n = "nat (block - drop_bit (bshift s) a)"
  have n: "?n < length ?G" using assms(2,4) by linarith
  have m: "get_mapping_block_index_bbt s block = ?G ! ?n"
    using n get_mapping_bbt_order [OF assms(1) refl refl assms(2,3)]
    by (simp add: bbt_order_def nth_append)
  have "?G ! ?n \<in> set ?G" using n by (rule nth_mem)
  then have "\<not> bad_int s (?G ! ?n)" by simp
  moreover have "length (filter (\<lambda>i. \<not> bad_int s i) [drop_bit (bshift s) a..?G ! ?n - 1]) = ?n"
    using n by (rule length_filter_upto_nth)
  ultimately show ?thesis using m assms(2) by simp
qed

theorem bbt_mapping_good_witness:
  "\<not> bad_int (demo_bmtd quiet_ops () \<lparr>bbt_buf := [0x30, 0]\<rparr>)
       (get_mapping_block_index_bbt (demo_bmtd quiet_ops () \<lparr>bbt_buf := [0x30, 0]\<rparr>) 2) \<and>
   get_mapping_block_index_bbt (demo_bmtd quiet_ops () \<lparr>bbt_buf := [0x30, 0]\<rparr>) 2 = 3"
proof -
  let ?s = "demo_bmtd quiet_ops () \<lparr>bbt_buf := [0x30, 0]\<rparr>"
  have z: "remap_zone ?s 16 112" by code_simp
  have h: "drop_bit (bshift ?s) 16 \<le> (2 :: int)" "(2 :: int) < drop_bit (bshift ?s) 112"
    "2 - drop_bit (bshift ?s) 16 < int (length (filter (\<lambda>i. \<not> bad_int ?s i)
       [drop_bit (bshift ?s) 16..drop_bit (bshift ?s) 112 - 1]))" by code_simp+
  have "get_mapping_block_index_bbt ?s 2 = 3" by code_simp
  then show ?thesis using bbt_mapping_good [OF z h] by simp
qed

text \<open>
  Without remap ranges in the device tree, the bounds of the range are block numbers
  that the mapping shifts as if they were addresses, so the range is empty on any chip
  with fewer blocks than a block has bytes: no block is ever remapped, and a bad block is
  used as it is. A remap then erases the very block it goes on to copy from.
\<close>

theorem bbt_without_ranges_is_identity:
  assumes "remap_range s = None" and "uint (total_blks s) < 2 ^ bshift s"
  shows "get_mapping_block_index_bbt s block = block
       \<and> remap_block_bbt s blk blk copy_len =
          (True, (let s2 = snd (bbt_nand_erase (bbt_set_block_state s blk True) blk) in
                  if copy_len > 0 then snd (bbt_nand_copy s2 blk blk copy_len) else s2))"
proof -
  have id: "get_mapping_block_index_bbt t i = i"
    if "remap_range t = None" and "uint (total_blks t) < 2 ^ bshift t" for t :: "('a, 'b) bmtd_scheme" and i
  proof -
    have "drop_bit (bshift t) (uint (total_blks t)) = 0"
      using that(2) by (simp add: drop_bit_eq_div)
    then show ?thesis
      using that(1)
      by (simp add: get_mapping_block_index_bbt_def mapping_block_in_range_def bbt_skip.simps)
  qed
  have rng: "mapping_block_in_range s (uint blk) = Some (0, uint (total_blks s))"
    using assms(1) by (simp add: mapping_block_in_range_def)
  let ?s1 = "bbt_set_block_state s blk True"
  have "get_mapping_block_index_bbt ?s1 (uint blk) = uint blk"
    using assms by (intro id) (simp_all add: frame_simps)
  then show ?thesis
    using id [OF assms] rng
    by (auto simp: remap_block_bbt_def Let_def split: prod.splits)
qed

theorem bbt_without_ranges_is_identity_witness:
  "bad_int (demo_bmtd quiet_ops () \<lparr>bbt_buf := [0x30, 0], remap_range := None\<rparr>) 2 \<and>
   get_mapping_block_index_bbt
     (demo_bmtd quiet_ops () \<lparr>bbt_buf := [0x30, 0], remap_range := None\<rparr>) 2 = 2"
proof -
  let ?s = "demo_bmtd quiet_ops () \<lparr>bbt_buf := [0x30, 0], remap_range := None\<rparr>"
  have h: "remap_range ?s = None" "uint (total_blks ?s) < 2 ^ bshift ?s" by code_simp+
  have "bad_int ?s 2" by code_simp
  then show ?thesis using bbt_without_ranges_is_identity [OF h, of 2] by blast
qed

section \<open>What a remap does to the mapping\<close>

lemma remap_zone_cong:
  "blk_shift t = blk_shift s \<Longrightarrow> remap_range t = remap_range s \<Longrightarrow> total_blks t = total_blks s
    \<Longrightarrow> remap_zone t a b = remap_zone s a b"
  by (simp add: remap_zone_def mapping_block_in_range_cong [of t s])

lemma bbt_order_cong: "bbt_buf t = bbt_buf s \<Longrightarrow> bbt_order t start e = bbt_order s start e"
  by (simp add: bbt_order_def bbt_block_is_bad_def)

text \<open>The table covers the blocks of the range, and their numbers fit in a \<open>u16\<close>.\<close>

definition bbt_table_ok :: "('d, 'z) bmtd_scheme \<Rightarrow> int \<Rightarrow> int \<Rightarrow> bool" where
  "bbt_table_ok s start e \<longleftrightarrow>
     0 \<le> start \<and> e \<le> 65536 \<and> list_all (\<lambda>i. bbt_covers s (word_of_int i)) [start..e - 1]"

lemma bad_int_mark:
  assumes "bbt_table_ok s start e" and "i \<in> {start..<e}" and "p \<in> {start..<e}"
  shows "bad_int (bbt_set_block_state s (word_of_int p) True) i \<longleftrightarrow> i = p \<or> bad_int s i"
proof -
  have range: "0 \<le> start" "e \<le> 65536" using assms(1) by (simp_all add: bbt_table_ok_def)
  have "uint (word_of_int i :: u16) = i" "uint (word_of_int p :: u16) = p"
    using range assms(2,3) by (auto intro: uint_of_int_small)
  then have "(word_of_int i :: u16) = word_of_int p \<longleftrightarrow> i = p" by metis
  moreover have "bbt_covers s (word_of_int p)" "bbt_covers s (word_of_int i)"
    using assms by (simp_all add: bbt_table_ok_def list_all_iff)
  ultimately show ?thesis by (simp add: bbt_marks.is_bad_mark_iff)
qed

lemma goods_after_mark:
  assumes "bbt_table_ok s start e" and "p \<in> {start..<e}"
  shows "filter (\<lambda>i. \<not> bad_int (bbt_set_block_state s (word_of_int p) True) i) [start..e - 1]
       = filter (\<lambda>i. i \<noteq> p) (filter (\<lambda>i. \<not> bad_int s i) [start..e - 1])"
  unfolding filter_filter using assms by (intro filter_cong) (auto simp: bad_int_mark)

lemma remap_block_bbt_shape:
  assumes "mapping_block_in_range s (uint blk) = Some r"
  shows "fst (remap_block_bbt s blk mapped n)
       \<and> device_step (bbt_set_block_state s mapped True) (snd (remap_block_bbt s blk mapped n))"
proof -
  let ?s1 = "bbt_set_block_state s mapped True"
  let ?nb = "word_of_int (get_mapping_block_index_bbt ?s1 (uint blk)) :: u16"
  obtain r2 s2 where er: "bbt_nand_erase ?s1 ?nb = (r2, s2)" by fastforce
  obtain r3 s3 where cp: "bbt_nand_copy s2 ?nb mapped n = (r3, s3)" by fastforce
  have "device_step ?s1 s2" using er by (rule bbt_nand_erase_step)
  moreover from this have "device_step ?s1 s3"
    using bbt_nand_copy_step [OF cp] by (rule device_step_trans)
  ultimately show ?thesis using assms er cp by (simp add: remap_block_bbt_def Let_def)
qed

text \<open>
  Remapping the block that a logical block \<open>blk\<close> uses moves every later logical block
  of the range to the physical block of its successor, as long as good blocks are left;
  the earlier logical blocks stay where they are. (The code copies the contents of the
  one block that failed only.)
\<close>

theorem remap_block_bbt_shifts:
  assumes zone: "remap_zone s a b" and ok: "bbt_table_ok s start e"
    and start: "start = drop_bit (bshift s) a" and e: "e = drop_bit (bshift s) b"
    and blk: "start \<le> uint blk" "uint blk < e" and other: "start \<le> other" "other < e"
    and goods: "G = filter (\<lambda>i. \<not> bad_int s i) [start..e - 1]"
    and left: "uint blk - start < int (length G)" "other - start + 1 < int (length G)"
    and run: "remap_block_bbt s blk (word_of_int (get_mapping_block_index_bbt s (uint blk))) n = (r, t)"
  shows "r \<and> get_mapping_block_index_bbt t other =
           get_mapping_block_index_bbt s (if other < uint blk then other else other + 1)"
proof -
  let ?k = "nat (uint blk - start)" and ?m = "nat (other - start)"
  define p where "p = G ! ?k"
  have k: "?k < length G" using left blk(1) by linarith
  have p: "get_mapping_block_index_bbt s (uint blk) = p"
    using get_mapping_bbt_order [OF zone start e blk] k
    by (simp add: p_def bbt_order_def nth_append flip: goods)
  have "p \<in> set G" using k by (simp add: p_def)
  then have pin: "p \<in> {start..<e}" using goods by auto
  let ?u = "bbt_set_block_state s (word_of_int p) True"
  have shape: "r" "device_step ?u t"
    using remap_block_bbt_shape [of s blk _ "word_of_int p" n] remap_zoneD [OF zone, of "uint blk"] blk
      run start e p by auto
  have zt: "remap_zone t a b" and sh: "blk_shift t = blk_shift s"
    using zone shape(2) remap_zone_cong [of t s a b] by (simp_all add: device_step_fields frame_simps)
  have "get_mapping_block_index_bbt t other = bbt_order t start e ! ?m"
    using get_mapping_bbt_order [OF zt _ _ other] start e by (simp add: sh)
  also have "bbt_order t start e = bbt_order ?u start e"
    using shape(2) by (intro bbt_order_cong) (simp add: device_step_fields)
  also have "bbt_order ?u start e ! ?m = (take ?k G @ drop (Suc ?k) G) ! ?m"
  proof -
    have "distinct G" using goods by simp
    then have "filter (\<lambda>i. i \<noteq> p) G = take ?k G @ drop (Suc ?k) G"
      unfolding p_def using k by (rule filter_neq_nth)
    moreover have "?m < length (take ?k G @ drop (Suc ?k) G)" using left other k by simp
    moreover have "bbt_order ?u start e
        = filter (\<lambda>i. i \<noteq> p) G @ filter (bad_int ?u) [start..e - 1]"
      by (simp only: bbt_order_def goods_after_mark [OF ok pin] flip: goods)
    ultimately show ?thesis by (simp only: nth_append if_True)
  qed
  also have "\<dots> = G ! (if other < uint blk then ?m else Suc ?m)"
    using k left other blk by (auto simp: nth_append min_def)
  also have "\<dots> = get_mapping_block_index_bbt s (if other < uint blk then other else other + 1)"
  proof -
    have len: "int (length G) \<le> e - start"
      using length_filter_le [of "\<lambda>i. \<not> bad_int s i" "[start..e - 1]"] goods other by simp
    have "nat (other + 1 - start) = Suc ?m" "Suc ?m < length G" "?m < length G"
      using other left by linarith+
    then show ?thesis
      using get_mapping_bbt_order [OF zone start e other] left other len
        get_mapping_bbt_order [OF zone start e, of "other + 1"]
      by (simp add: bbt_order_def nth_append flip: goods)
  qed
  finally show ?thesis using shape(1) by simp
qed

theorem remap_block_bbt_shifts_witness:
  "fst (remap_block_bbt (demo_bmtd quiet_ops () \<lparr>bbt_buf := [0x30, 0]\<rparr>) 2 3 16) \<and>
   get_mapping_block_index_bbt
     (snd (remap_block_bbt (demo_bmtd quiet_ops () \<lparr>bbt_buf := [0x30, 0]\<rparr>) 2 3 16)) 4 = 6"
proof -
  let ?s = "demo_bmtd quiet_ops () \<lparr>bbt_buf := [0x30, 0]\<rparr>"
  let ?p = "word_of_int (get_mapping_block_index_bbt ?s (uint (2 :: u16))) :: u16"
  have z: "remap_zone ?s 16 112" and ok: "bbt_table_ok ?s 1 7" by code_simp+
  have st: "1 = drop_bit (bshift ?s) (16 :: int)" "7 = drop_bit (bshift ?s) (112 :: int)"
    by code_simp+
  have left: "uint (2 :: u16) - 1 < int (length (filter (\<lambda>i. \<not> bad_int ?s i) [1..7 - 1]))"
    "4 - 1 + 1 < int (length (filter (\<lambda>i. \<not> bad_int ?s i) [1..7 - 1]))" by code_simp+
  have p: "?p = 3" and m: "get_mapping_block_index_bbt ?s 5 = 6" by code_simp+
  have "fst (remap_block_bbt ?s 2 ?p 16) \<and>
      get_mapping_block_index_bbt (snd (remap_block_bbt ?s 2 ?p 16)) 4 =
        get_mapping_block_index_bbt ?s (if 4 < uint (2 :: u16) then 4 else 4 + 1)"
    by (rule remap_block_bbt_shifts [OF z ok st _ _ _ _ refl left prod.collapse [symmetric]]) simp_all
  then show ?thesis using m unfolding p by simp
qed

section \<open>The backend contract\<close>

lemma bbt_skip_cong: "bbt_buf t = bbt_buf s \<Longrightarrow> bbt_skip t e i ofs bad = bbt_skip s e i ofs bad"
proof (induction s e i ofs bad rule: bbt_skip.induct)
  case (1 s e i ofs bad)
  have "bbt_block_is_bad t b = bbt_block_is_bad s b" for b
    using "1.prems" by (simp add: bbt_block_is_bad_def)
  then show ?case
    using "1.IH" "1.prems"
    by (simp add: bbt_skip.simps [of t e i ofs bad] bbt_skip.simps [of s e i ofs bad])
qed

lemma bbt_overflow_cong: "bbt_buf t = bbt_buf s \<Longrightarrow> bbt_overflow n t i ofs bad = bbt_overflow n s i ofs bad"
  by (induction n s i ofs bad rule: bbt_overflow.induct) (simp_all add: bbt_block_is_bad_def)

lemma get_mapping_bbt_device_step:
  assumes "device_step s t"
  shows "get_mapping_block_index_bbt t = get_mapping_block_index_bbt s"
proof
  fix block
  note f = device_step_fields [OF assms]
  show "get_mapping_block_index_bbt t block = get_mapping_block_index_bbt s block"
    by (simp add: get_mapping_block_index_bbt_def mapping_block_in_range_cong [OF f(19,12,16)]
        bbt_skip_cong [OF f(7)] bbt_overflow_cong [OF f(7)] f(12) Let_def
        split: option.split prod.split cong: if_cong)
qed

lemma bbt_set_block_state_geometry: "geometry (bbt_set_block_state s b bad) = geometry s"
proof -
  let ?s1 = "s\<lparr>bbt_buf := bbt_buf (bbt_set_block_state s b bad)\<rparr>"
  obtain r s2 where er: "bbt_nand_erase ?s1 (bmt_blk_idx ?s1) = (r, s2)" by fastforce
  obtain r' s3 where wr: "write_bmt bbt_sig s2 (bmt_blk_idx s2) (bbt_buf s2) = (r', s3)" by fastforce
  have "bbt_set_block_state s b bad = s3"
    using er wr by (simp add: bbt_set_block_state_buf) (simp add: bbt_set_block_state_def Let_def cong: if_cong)
  moreover have "geometry s3 = geometry ?s1"
    using er wr geometry_device_step by (metis bbt_nand_erase_step write_bmt_step)
  ultimately show ?thesis by (simp add: geometry_def)
qed

lemma remap_block_bbt_frame:
  assumes "remap_block_bbt s b m n = (ok, t)"
  shows "geometry t = geometry s \<and> length (bbt_buf t) = length (bbt_buf s)"
proof (cases "mapping_block_in_range s (uint b)")
  case None
  then show ?thesis using assms by (simp add: remap_block_bbt_def)
next
  case (Some r)
  then have "device_step (bbt_set_block_state s m True) t"
    using remap_block_bbt_shape [of s b r m n] assms by simp
  then show ?thesis
    by (simp add: geometry_device_step bbt_set_block_state_geometry device_step_fields(7) frame_simps)
qed

interpretation bbt: bmt_backend mtk_bmt_bbt_ops "\<lambda>s. 16384 \<le> length (bbt_buf s)"
proof unfold_locales
  fix s t :: "('a, 'b) bmtd_scheme" and b m :: u16 and n :: int and ok
  show "geometry t = geometry s" if "16384 \<le> length (bbt_buf s)" and "remap_block mtk_bmt_bbt_ops s b m n = Some (ok, t)"
    using that remap_block_bbt_frame by (fastforce simp: mtk_bmt_bbt_ops_def)
  show "get_mapping_block mtk_bmt_bbt_ops t = get_mapping_block mtk_bmt_bbt_ops s" if "device_step s t"
    using that by (simp add: mtk_bmt_bbt_ops_def get_mapping_bbt_device_step)
  show "16384 \<le> length (bbt_buf t)" if "device_step s t" "16384 \<le> length (bbt_buf s)"
    using that by (simp add: device_step_fields(7) [OF that(1)])
  show "16384 \<le> length (bbt_buf t)"
    if "16384 \<le> length (bbt_buf s)" "remap_block mtk_bmt_bbt_ops s b m n = Some (ok, t)"
    using that remap_block_bbt_frame [of s b m n ok t] by (simp add: mtk_bmt_bbt_ops_def)
  show "remap_block mtk_bmt_bbt_ops s b m n \<noteq> None" by (simp add: mtk_bmt_bbt_ops_def)
qed

text \<open>
  With the bitmap backend and a driver that reads all the bytes it reports as read,
  \<open>mtk_bmt_read\<close> returns, whatever errors the driver gives and however often blocks are
  remapped: each turn of its loop reads something, or uses up one of the eleven attempts
  at a block. The geometry of the descriptor is unchanged, and the bitmap stays large enough
  for every block number.
\<close>

theorem bbt_read_returns:
  assumes "16384 \<le> length (bbt_buf s)" and "honest_reads (lower_ops s)" and "block_geometry s" and "unat len < 2 ^ 32"
    and "11 * unat len + 10 < fuel"
  shows "\<exists>r dat oob t. mtk_bmt_read fuel mtk_bmt_bbt_ops s from len ooboffs 0 = Some (r, dat, oob, t)
    \<and> geometry t = geometry s \<and> 16384 \<le> length (bbt_buf t)"
proof -
  let ?l = "\<lparr>rl_from = from, rl_data = [], rl_oob = [], rl_ooboffs = ooboffs, rl_ooblen = 0,
    rl_retry = 0, rl_ret = 0, rl_bitflips = 0\<rparr>"
  have "mtk_bmt_read_loop fuel mtk_bmt_bbt_ops len 0 ?l s \<noteq> None"
    using assms by (intro bbt.read_loop_terminates) auto
  then obtain r dat oob t where
    ret: "mtk_bmt_read_loop fuel mtk_bmt_bbt_ops len 0 ?l s = Some (r, dat, oob, t)" by auto
  then show ?thesis using bbt.read_loop_frame [OF ret] assms(1) by (simp add: mtk_bmt_read_def)
qed

theorem bbt_read_returns_witness:
  "\<exists>r dat oob t. mtk_bmt_read 200 mtk_bmt_bbt_ops
      (demo_bmtd quiet_ops () \<lparr>bbt_buf := replicate 16384 0\<rparr>) 20 16 0 0 = Some (r, dat, oob, t)"
proof -
  let ?s = "demo_bmtd quiet_ops () \<lparr>bbt_buf := replicate 16384 0\<rparr>"
  have h: "honest_reads (lower_ops ?s)"
    by (simp add: honest_reads_def demo_bmtd_def quiet_ops_def)
  have "block_geometry (demo_bmtd quiet_ops ())" by code_simp
  then have g: "block_geometry ?s" by (simp add: block_geometry_def)
  have "16384 \<le> length (bbt_buf ?s)" by simp
  from bbt_read_returns [OF this h g, of 16 200 20 0] show ?thesis by auto
qed

end
