(* ===== verification/Le_Bytes.thy ===== *)
theory Le_Bytes
  imports Prelude
begin

text \<open>
  Little-endian values in byte buffers. The drivers modelled here overlay C structures on
  buffers and read them in the byte order of the CPU; the model takes the little-endian
  order of the ARM and MIPSel targets that use them. A read past the end of the buffer is
  outside the model: \<open>!\<close> is then unspecified, and the lemmas ask for the bound.
\<close>

section \<open>Encoding and decoding\<close>

fun le_bytes :: "nat \<Rightarrow> 'a::len word \<Rightarrow> u8 list" where
  "le_bytes 0 w = []"
| "le_bytes (Suc n) w = ucast w # le_bytes n (drop_bit 8 w)"

fun le_val :: "u8 list \<Rightarrow> 'a::len word" where
  "le_val [] = 0"
| "le_val (b # bs) = ucast b OR push_bit 8 (le_val bs)"

lemma length_le_bytes [simp]: "length (le_bytes n w) = n"
  by (induction n arbitrary: w) auto

lemma bit_le_val: "bit (le_val bs :: 'a::len word) n \<longleftrightarrow>
    n < LENGTH('a) \<and> n div 8 < length bs \<and> bit (bs ! (n div 8)) (n mod 8)"
proof (induction bs arbitrary: n)
  case Nil
  then show ?case by simp
next
  case (Cons b bs)
  show ?case
  proof (cases "n < 8")
    case True
    then show ?thesis
      by (auto simp: bit_or_iff bit_push_bit_iff bit_unsigned_iff possible_bit_def)
  next
    case False
    then have d: "n div 8 = Suc ((n - 8) div 8)" and m: "n mod 8 = (n - 8) mod 8"
      by (simp_all add: le_div_geq le_mod_geq)
    have "\<not> bit (ucast b :: 'a word) n"
      using False bit_imp_le_length [of b n] by (auto simp: bit_unsigned_iff)
    then show ?thesis
      using False Cons.IH [of "n - 8"] d m
      by (auto simp: bit_or_iff bit_push_bit_iff possible_bit_def)
  qed
qed

lemma le_bytes_nth:
  "i < n \<Longrightarrow> le_bytes n w ! i = ucast (drop_bit (8 * i) w)"
proof (induction n arbitrary: w i)
  case 0
  then show ?case by simp
next
  case (Suc n)
  then show ?case by (cases i) (simp_all add: drop_bit_drop_bit ac_simps)
qed

lemma le_val_le_bytes:
  fixes w :: "'a::len word"
  assumes "LENGTH('a) \<le> 8 * n"
  shows "le_val (le_bytes n w) = w"
proof (rule bit_word_eqI)
  fix i assume i: "i < LENGTH('a)"
  then have d: "i div 8 < n" using assms by linarith
  have "bit (le_bytes n w ! (i div 8)) (i mod 8) = bit w i"
    using d by (simp add: le_bytes_nth bit_unsigned_iff bit_drop_bit_eq)
  then show "bit (le_val (le_bytes n w) :: 'a word) i = bit w i"
    using i d by (simp add: bit_le_val)
qed

lemma le_bytes_le_val:
  assumes "8 * length bs \<le> LENGTH('a)"
  shows "le_bytes (length bs) (le_val bs :: 'a::len word) = bs"
proof (rule nth_equalityI)
  fix i assume "i < length (le_bytes (length bs) (le_val bs :: 'a word))"
  then have i: "i < length bs" by simp
  show "le_bytes (length bs) (le_val bs :: 'a word) ! i = bs ! i"
  proof (rule bit_word_eqI)
    fix j assume "j < LENGTH(8)"
    then have j: "j < 8" by simp
    have "8 * i + j < LENGTH('a)" using i j assms by simp
    then show "bit (le_bytes (length bs) (le_val bs :: 'a word) ! i) j = bit (bs ! i) j"
      using i j by (simp add: le_bytes_nth bit_unsigned_iff bit_drop_bit_eq bit_le_val)
  qed
qed simp

section \<open>Values inside a buffer\<close>

definition rd_bytes :: "u8 list \<Rightarrow> nat \<Rightarrow> nat \<Rightarrow> u8 list" where
  "rd_bytes buf off n = map (\<lambda>i. buf ! (off + i)) [0..<n]"

definition rd16 :: "u8 list \<Rightarrow> nat \<Rightarrow> u16" where
  "rd16 buf off = le_val (rd_bytes buf off 2)"

definition rd32 :: "u8 list \<Rightarrow> nat \<Rightarrow> u32" where
  "rd32 buf off = le_val (rd_bytes buf off 4)"

definition rd64 :: "u8 list \<Rightarrow> nat \<Rightarrow> u64" where
  "rd64 buf off = le_val (rd_bytes buf off 8)"

definition wr16 :: "u8 list \<Rightarrow> nat \<Rightarrow> u16 \<Rightarrow> u8 list" where
  "wr16 buf off v = buf_put buf off (le_bytes 2 v)"

definition wr32 :: "u8 list \<Rightarrow> nat \<Rightarrow> u32 \<Rightarrow> u8 list" where
  "wr32 buf off v = buf_put buf off (le_bytes 4 v)"

lemma nth_buf_put:
  assumes "off + length xs \<le> length buf" and "i < length buf"
  shows "buf_put buf off xs ! i = (if off \<le> i \<and> i < off + length xs then xs ! (i - off) else buf ! i)"
  using assms by (auto simp: buf_put_def nth_append min_def)

lemma rd_bytes_put_same:
  assumes "off + length xs \<le> length buf"
  shows "rd_bytes (buf_put buf off xs) off (length xs) = xs"
  using assms by (intro nth_equalityI) (auto simp: rd_bytes_def nth_buf_put)

lemma rd_bytes_put_other:
  assumes "off + length xs \<le> length buf" and "o2 + n \<le> length buf"
    and "o2 + n \<le> off \<or> off + length xs \<le> o2"
  shows "rd_bytes (buf_put buf off xs) o2 n = rd_bytes buf o2 n"
  using assms by (intro nth_equalityI) (auto simp: rd_bytes_def nth_buf_put)

lemma buf_put_outside: "length buf < off + length xs \<Longrightarrow> buf_put buf off xs = buf"
  by (simp add: buf_put_def)

lemma rd_bytes_take_drop: "off + n \<le> length buf \<Longrightarrow> rd_bytes buf off n = take n (drop off buf)"
  by (intro nth_equalityI) (auto simp: rd_bytes_def)

lemma length_wr16 [simp]: "length (wr16 buf off v) = length buf"
  by (simp add: wr16_def)

lemma length_wr32 [simp]: "length (wr32 buf off v) = length buf"
  by (simp add: wr32_def)

lemma rd16_wr16_same: "off + 2 \<le> length buf \<Longrightarrow> rd16 (wr16 buf off v) off = v"
  using rd_bytes_put_same [of off "le_bytes 2 v" buf] by (simp add: rd16_def wr16_def le_val_le_bytes)

lemma rd16_wr16_other:
  "o2 + 2 \<le> length buf \<Longrightarrow> o2 + 2 \<le> off \<or> off + 2 \<le> o2
    \<Longrightarrow> rd16 (wr16 buf off v) o2 = rd16 buf o2"
  by (cases "off + 2 \<le> length buf") (auto simp: rd16_def wr16_def rd_bytes_put_other buf_put_outside)

lemma rd32_wr32_same: "off + 4 \<le> length buf \<Longrightarrow> rd32 (wr32 buf off v) off = v"
  using rd_bytes_put_same [of off "le_bytes 4 v" buf] by (simp add: rd32_def wr32_def le_val_le_bytes)

lemma rd32_wr32_other:
  "o2 + 4 \<le> length buf \<Longrightarrow> o2 + 4 \<le> off \<or> off + 4 \<le> o2
    \<Longrightarrow> rd32 (wr32 buf off v) o2 = rd32 buf o2"
  by (cases "off + 4 \<le> length buf") (auto simp: rd32_def wr32_def rd_bytes_put_other buf_put_outside)

lemma wr32_wr32: "wr32 (wr32 buf off v) off w = wr32 buf off w"
  by (simp add: wr32_def buf_put_def)

lemma wr32_rd32: "off + 4 \<le> length buf \<Longrightarrow> wr32 buf off (rd32 buf off) = buf"
proof -
  assume off: "off + 4 \<le> length buf"
  have "le_bytes 4 (rd32 buf off) = rd_bytes buf off 4"
    using le_bytes_le_val [of "rd_bytes buf off 4", where 'a = 32] by (simp add: rd32_def rd_bytes_def)
  then have "le_bytes 4 (rd32 buf off) = take 4 (drop off buf)" using off by (simp add: rd_bytes_take_drop)
  then show ?thesis using off
    by (simp add: wr32_def buf_put_def) (metis add.commute append_take_drop_id drop_drop)
qed

lemma nth_wr32_other:
  "k < length buf \<Longrightarrow> \<not> (off \<le> k \<and> k < off + 4) \<Longrightarrow> wr32 buf off v ! k = buf ! k"
  by (cases "off + 4 \<le> length buf") (auto simp: wr32_def nth_buf_put buf_put_outside)

section \<open>Values at the front and the back of a buffer\<close>

lemma rd_bytes_append1:
  "off + n \<le> length xs \<Longrightarrow> rd_bytes (xs @ ys) off n = rd_bytes xs off n"
  by (auto simp: rd_bytes_def nth_append)

lemma rd_bytes_append2:
  "length xs \<le> off \<Longrightarrow> rd_bytes (xs @ ys) off n = rd_bytes ys (off - length xs) n"
  by (auto simp: rd_bytes_def nth_append)

lemma rd_bytes_Cons: "rd_bytes (x # xs) (Suc off) n = rd_bytes xs off n"
  by (simp add: rd_bytes_def)

lemma rd_bytes_all: "length xs = n \<Longrightarrow> rd_bytes xs 0 n = xs"
  by (simp add: rd_bytes_take_drop)

lemma rd_bytes_head: "length xs = n \<Longrightarrow> rd_bytes (xs @ ys) 0 n = xs"
  by (simp add: rd_bytes_append1 rd_bytes_all)

lemmas rd_codec = rd32_def rd64_def rd_bytes_append2 rd_bytes_Cons rd_bytes_head rd_bytes_all le_val_le_bytes

lemma rd32_at: "rd32 (pre @ le_bytes 4 w @ xs) (length pre) = w"
  by (simp add: rd_codec)

end
