(* ===== verification/Bmt_V2.thy ===== *)
theory Bmt_V2
  imports Bmt_Core Le_Bytes
begin

text \<open>
  The table backend, \<^verbatim>\<open>drivers/mtd/nand/mtk_bmt_v2.c\<close>. One buffer holds a header, the
  table \<open>bb_tbl\<close> that maps each block, and the table \<open>bmt_tbl\<close> of the spare blocks of the
  pool; the buffer is written to the last good block of the pool. The model keeps the
  bytes of the buffer, \<open>bbt_buf\<close>, and reads and writes the entries in it, as the C
  structures laid over the buffer do.
\<close>

section \<open>The buffer and its tables\<close>

abbreviation (input) NO_MAPPED :: u16 where "NO_MAPPED \<equiv> 0"
abbreviation (input) NORMAL_MAPPED :: u16 where "NORMAL_MAPPED \<equiv> 1"
abbreviation (input) BMT_MAPPED :: u16 where "BMT_MAPPED \<equiv> 2"

definition bb_tbl :: "('d, 'z) bmtd_scheme \<Rightarrow> nat \<Rightarrow> u16" where
  "bb_tbl s i = rd16 (bbt_buf s) (4 + 2 * i)"

definition set_bb_tbl :: "('d, 'z) bmtd_scheme \<Rightarrow> nat \<Rightarrow> u16 \<Rightarrow> ('d, 'z) bmtd_scheme" where
  "set_bb_tbl s i v = s\<lparr>bbt_buf := wr16 (bbt_buf s) (4 + 2 * i) v\<rparr>"

definition bmt_tbl :: "('d, 'z) bmtd_scheme \<Rightarrow> nat \<Rightarrow> nat" where
  "bmt_tbl s i = 4 + 2 * unat (table_size s) + 4 * i"

definition bmt_block :: "('d, 'z) bmtd_scheme \<Rightarrow> nat \<Rightarrow> u16" where
  "bmt_block s i = rd16 (bbt_buf s) (bmt_tbl s i)"

definition bmt_mapped :: "('d, 'z) bmtd_scheme \<Rightarrow> nat \<Rightarrow> u16" where
  "bmt_mapped s i = rd16 (bbt_buf s) (bmt_tbl s i + 2)"

definition set_bmt_block :: "('d, 'z) bmtd_scheme \<Rightarrow> nat \<Rightarrow> u16 \<Rightarrow> ('d, 'z) bmtd_scheme" where
  "set_bmt_block s i v = s\<lparr>bbt_buf := wr16 (bbt_buf s) (bmt_tbl s i) v\<rparr>"

definition set_bmt_mapped :: "('d, 'z) bmtd_scheme \<Rightarrow> nat \<Rightarrow> u16 \<Rightarrow> ('d, 'z) bmtd_scheme" where
  "set_bmt_mapped s i v = s\<lparr>bbt_buf := wr16 (bbt_buf s) (bmt_tbl s i + 2) v\<rparr>"

section \<open>The scan\<close>

text \<open>The argument \<open>n\<close> counts the bad blocks that \<open>loop\<close> still allows.\<close>

fun find_valid_block_loop ::
  "nat \<Rightarrow> ('d, 'z) bmtd_scheme \<Rightarrow> u16 \<Rightarrow> u16 \<times> ('d, 'z) bmtd_scheme" where
  "find_valid_block_loop n s block =
     (if block \<ge> total_blks s then (0, s)
      else case bbt_nand_read s (blk_pg s block) (ucast (pg_size s)) 4 of
        (ret, dat, fdm, s1) \<Rightarrow>
          let s1 = s1\<lparr>data_buf := buf_put (data_buf s1) 0 dat\<rparr> in
          if ret \<noteq> 0 \<or> fdm ! 0 \<noteq> 0xff then
            (case n of 0 \<Rightarrow> (0, s1) | Suc m \<Rightarrow> find_valid_block_loop m s1 (block + 1))
          else (block, s1))"

declare find_valid_block_loop.simps [simp del]

definition find_valid_block :: "('d, 'z) bmtd_scheme \<Rightarrow> u16 \<Rightarrow> u16 \<times> ('d, 'z) bmtd_scheme" where
  "find_valid_block s block = find_valid_block_loop (unat (bb_max s)) s block"

fun scan_main_loop ::
  "nat \<Rightarrow> nat \<Rightarrow> ('d, 'z) bmtd_scheme \<Rightarrow> bool \<times> ('d, 'z) bmtd_scheme" where
  "scan_main_loop 0 i s = (True, s)"
| "scan_main_loop (Suc n) i s =
     (case find_valid_block s (bb_tbl s (i - 1) + 1) of
        (b, s1) \<Rightarrow>
          let s2 = set_bb_tbl s1 i b in
          if b = 0 then (False, s2) else scan_main_loop n (Suc i) s2)"

text \<open>The loop over the pool gives the number of good blocks it has put into \<open>bmt_tbl\<close>.\<close>

fun scan_pool_loop ::
  "nat \<Rightarrow> ('d, 'z) bmtd_scheme \<Rightarrow> nat \<Rightarrow> u16 \<Rightarrow> (nat \<times> ('d, 'z) bmtd_scheme) option" where
  "scan_pool_loop 0 s i block = None"
| "scan_pool_loop (Suc fuel) s i block =
     (case find_valid_block s block of
        (b, s1) \<Rightarrow>
          if b = 0 then Some (i, s1)
          else scan_pool_loop fuel (set_bmt_mapped (set_bmt_block s1 i b) i NO_MAPPED) (Suc i) (b + 1))"

definition scan_bad_blocks ::
  "nat \<Rightarrow> ('d, 'z) bmtd_scheme \<Rightarrow> (int \<times> ('d, 'z) bmtd_scheme) option" where
  "scan_bad_blocks fuel s =
     (case scan_main_loop (unat (pool_lba s) - 1) 1 (set_bb_tbl s 0 0) of
        (False, s1) \<Rightarrow> Some (- 1, s1)
      | (True, s1) \<Rightarrow>
          let s2 = s1\<lparr>pool_pba := bb_tbl s1 (max 1 (unat (pool_lba s1)) - 1) + 1\<rparr> in
          if uint (pool_pba s2) \<ge> uint (total_blks s2) - 2 then Some (- 1, s2)
          else case scan_pool_loop fuel s2 0 (pool_pba s2) of
            None \<Rightarrow> None
          | Some (i, s3) \<Rightarrow>
              let s4 = s3\<lparr>bmt_blk_idx := of_nat i - 1\<rparr>;
                  s5 = set_bmt_mapped s4 (unat (bmt_blk_idx s4)) BMT_MAPPED
              in Some (if i < 1 then - 1 else 0, s5))"

section \<open>The stored table\<close>

definition is_valid_bmt :: "u8 list \<Rightarrow> u8 list \<Rightarrow> bool" where
  "is_valid_bmt buf fdm \<longleftrightarrow>
     rd_bytes buf 0 3 = cstr ''BMT'' \<and> rd_bytes fdm 1 3 = cstr ''bmt'' \<and> buf ! 3 = 2"

text \<open>\<open>None\<close> stands for a search that runs past the end of the buffer.\<close>

function get_bmt_index_from :: "('d, 'z) bmtd_scheme \<Rightarrow> nat \<Rightarrow> u16 option" where
  "get_bmt_index_from s i =
     (if bmt_tbl s i + 4 > length (bbt_buf s) then None
      else if bmt_block s i = 0 then Some 0
      else if bmt_mapped s i = BMT_MAPPED then Some (of_nat i)
      else get_bmt_index_from s (Suc i))"
  by pat_completeness auto
termination
  by (relation "measure (\<lambda>(s, i). Suc (length (bbt_buf s)) - i)") (auto simp: bmt_tbl_def)

declare get_bmt_index_from.simps [simp del]

definition get_bmt_index :: "('d, 'z) bmtd_scheme \<Rightarrow> u16 option" where
  "get_bmt_index s = get_bmt_index_from s 0"

definition bmt_sig :: "u8 list" where
  "bmt_sig = cstr ''bmt''"

definition put_bmt_header :: "('d, 'z) bmtd_scheme \<Rightarrow> ('d, 'z) bmtd_scheme" where
  "put_bmt_header s = s\<lparr>bbt_buf := buf_put (bbt_buf s) 0 (cstr ''BMT'' @ [2])\<rparr>"

function upload_bmt :: "('d, 'z) bmtd_scheme \<Rightarrow> int \<Rightarrow> u16 \<times> ('d, 'z) bmtd_scheme" where
  "upload_bmt s n =
     (if n < 0 \<or> bmt_mapped s (nat n) = NORMAL_MAPPED then (- 1, s)
      else
        let block = bmt_block s (nat n) in
        case bbt_nand_erase s block of
          (r, s1) \<Rightarrow>
            if r \<noteq> 0 then upload_bmt (set_bmt_block s1 (nat n) 0) (n - 1)
            else
              let s2 = put_bmt_header s1 in
              case write_bmt bmt_sig s2 block (bbt_buf s2) of
                (r', s3) \<Rightarrow>
                  if r' \<noteq> 0 then upload_bmt (set_bmt_block s3 (nat n) 0) (n - 1)
                  else (word_of_int n, s3))"
  by pat_completeness auto
termination
  by (relation "measure (\<lambda>(s, n). nat (n + 1))") auto

declare upload_bmt.simps [simp del]

section \<open>The operations\<close>

definition find_valid_block_in_pool :: "('d, 'z) bmtd_scheme \<Rightarrow> u16 \<times> ('d, 'z) bmtd_scheme" where
  "find_valid_block_in_pool s =
     (case find (\<lambda>i. bmt_block s i \<noteq> 0 \<and> bmt_mapped s i = NO_MAPPED) [0..<unat (bmt_blk_idx s)] of
        None \<Rightarrow> (0, s)
      | Some i \<Rightarrow> let s1 = set_bmt_mapped s i NORMAL_MAPPED in (bmt_block s1 i, s1))"

definition remap_block_v2 ::
  "('d, 'z) bmtd_scheme \<Rightarrow> u16 \<Rightarrow> u16 \<Rightarrow> int \<Rightarrow> bool \<times> ('d, 'z) bmtd_scheme" where
  "remap_block_v2 s block mapped_block copy_len =
     (case find_valid_block_in_pool s of
        (new_block, s1) \<Rightarrow>
          if new_block = 0 then (False, s1)
          else
            let s2 = set_bb_tbl s1 (unat block) new_block;
                s3 = snd (bbt_nand_erase s2 new_block);
                s4 = (if copy_len > 0 then snd (bbt_nand_copy s3 new_block mapped_block copy_len) else s3)
            in case upload_bmt s4 (uint (bmt_blk_idx s4)) of
              (n, s5) \<Rightarrow> (True, s5\<lparr>bmt_blk_idx := n\<rparr>))"

definition get_mapping_block_index_v2 :: "('d, 'z) bmtd_scheme \<Rightarrow> int \<Rightarrow> int" where
  "get_mapping_block_index_v2 s block =
     (if block \<ge> uint (pool_lba s) then block
      else case mapping_block_in_range s block of
        None \<Rightarrow> block
      | Some _ \<Rightarrow> uint (bb_tbl s (nat block)))"

definition unmap_block_v2 :: "('d, 'z) bmtd_scheme \<Rightarrow> u16 \<Rightarrow> ('d, 'z) bmtd_scheme" where
  "unmap_block_v2 s block =
     (let s1 = set_bb_tbl s (unat block) block in
      case upload_bmt s1 (uint (bmt_blk_idx s1)) of (n, s2) \<Rightarrow> s2\<lparr>bmt_blk_idx := n\<rparr>)"

definition mtk_bmt_v2_ops :: "('d, 'z) bmtd_scheme mtk_bmt_ops" where
  "mtk_bmt_v2_ops =
     \<lparr>remap_block = (\<lambda>s b m n. Some (remap_block_v2 s b m n)), unmap_block = (\<lambda>s b. Some (unmap_block_v2 s b)),
      get_mapping_block = get_mapping_block_index_v2\<rparr>"

section \<open>The debug file\<close>

definition main_blocks :: "('d, 'z) bmtd_scheme \<Rightarrow> nat" where
  "main_blocks s = nat (sint (ucast (drop_bit (bshift s) (mtd_size s)) :: u32))"

text \<open>The bit mask of the pool blocks that some block of the main area is mapped to.\<close>

definition mtk_bmt_get_mapping_mask :: "('d, 'z) bmtd_scheme \<Rightarrow> bool list" where
  "mtk_bmt_get_mapping_mask s =
     fold (\<lambda>i used.
         if unat (bb_tbl s i) = i then used
         else case find (\<lambda>k. bb_tbl s i = bmt_block s k) [0..<unat (bmt_blk_idx s)] of
           None \<Rightarrow> used
         | Some k \<Rightarrow> used[k := True])
       [1..<main_blocks s]
       (replicate (64 * (unat (bmt_blk_idx s) div 64 + 1)) False)"

definition mtk_bmt_free_unused ::
  "bool list \<Rightarrow> ('d, 'z) bmtd_scheme \<Rightarrow> nat \<times> ('d, 'z) bmtd_scheme" where
  "mtk_bmt_free_unused used s =
     fold (\<lambda>i (n, s). if bmt_mapped s i \<noteq> NORMAL_MAPPED \<or> used ! i then (n, s)
                       else (Suc n, set_bmt_mapped s i NO_MAPPED))
       [0..<Suc (unat (bmt_blk_idx s))] (0, s)"

definition mtk_bmt_debug_v2 ::
  "bool \<Rightarrow> ('d, 'z) bmtd_scheme \<Rightarrow> u64 \<Rightarrow> int \<times> ('d, 'z) bmtd_scheme" where
  "mtk_bmt_debug_v2 kcalloc_ok s val =
     (if \<not> kcalloc_ok then (- ENOMEM, s)
      else if val = 100 then
        (case mtk_bmt_free_unused (mtk_bmt_get_mapping_mask s) s of
          (n_remap, s1) \<Rightarrow>
            if n_remap = 0 then (0, s1)
            else case upload_bmt s1 (uint (bmt_blk_idx s1)) of
              (n, s2) \<Rightarrow> (0, s2\<lparr>bmt_blk_idx := n\<rparr>))
      else (0, s))"

section \<open>Start-up\<close>

text \<open>
  The search for a stored table, from the last block down to the pool. The result says
  whether one was found. \<open>None\<close> stands for a search that does not end within the fuel or
  reads past the buffer.
\<close>

fun find_bmt ::
  "nat \<Rightarrow> u32 \<Rightarrow> ('d, 'z) bmtd_scheme \<Rightarrow> u16 \<Rightarrow> (bool \<times> ('d, 'z) bmtd_scheme) option" where
  "find_bmt 0 bufsz s block = None"
| "find_bmt (Suc fuel) bufsz s block =
     (if \<not> block \<ge> pool_lba s then Some (False, s)
      else case bbt_nand_read s (blk_pg s block) (ucast bufsz) 4 of
        (ret, dat, fdm, s1) \<Rightarrow>
          let s1 = s1\<lparr>bbt_buf := buf_put (bbt_buf s1) 0 dat\<rparr> in
          if ret \<noteq> 0 then find_bmt fuel bufsz s1 (block - 1)
          else if \<not> is_valid_bmt (bbt_buf s1) fdm then find_bmt fuel bufsz s1 (block - 1)
          else case get_bmt_index s1 of
            None \<Rightarrow> None
          | Some idx \<Rightarrow> Some (idx \<noteq> 0, s1\<lparr>bmt_blk_idx := idx\<rparr>))"

text \<open>
  The properties of the device tree node are optional arguments. \<open>None\<close> stands, besides
  what it stands for in the search, for a \<open>memset\<close> that runs past the allocated buffer.
\<close>

definition v2_bufsz :: "u32 \<Rightarrow> ('d, 'z) bmtd_scheme \<Rightarrow> u32" where
  "v2_bufsz bmt_table_size s = round_up (4 + bmt_table_size * 4) (pg_size s)"

text \<open>The descriptor when the buffer is about to be filled from the flash.\<close>

definition mtk_bmt_v2_setup ::
  "u32 option \<Rightarrow> u8 option \<Rightarrow> u32 option \<Rightarrow> ('d, 'z) bmtd_scheme \<Rightarrow> ('d, 'z) bmtd_scheme" where
  "mtk_bmt_v2_setup dt_pool_size dt_oob_offset dt_table_size s =
     (let bmt_pool_size = (case dt_pool_size of None \<Rightarrow> 80 | Some v \<Rightarrow> v);
          bmt_table_size = (case dt_table_size of None \<Rightarrow> 0x2000 | Some v \<Rightarrow> v);
          pmt_block = ucast (ucast (total_blks s) - bmt_pool_size - 2) :: u16
      in s\<lparr>oob_offset := (case dt_oob_offset of None \<Rightarrow> 0 | Some v \<Rightarrow> v),
           table_size := bmt_table_size,
           mtd_size := scast (push_bit (bshift s) (ucast pmt_block) :: u32),
           pool_lba := pmt_block + 2,
           bb_max := of_nat (unat (total_blks s) * 2 div 100),
           bmt_pgs := drop_bit (unat (pg_shift s)) (v2_bufsz bmt_table_size s)\<rparr>)"

definition mtk_bmt_init_v2 ::
  "nat \<Rightarrow> u32 option \<Rightarrow> u8 option \<Rightarrow> u32 option \<Rightarrow> bool \<Rightarrow> ('d, 'z) bmtd_scheme
    \<Rightarrow> (int \<times> ('d, 'z) bmtd_scheme) option" where
  "mtk_bmt_init_v2 fuel dt_pool_size dt_oob_offset dt_table_size kzalloc_ok s =
     (let s1 = mtk_bmt_v2_setup dt_pool_size dt_oob_offset dt_table_size s;
          bufsz = v2_bufsz (table_size s1) s
      in if \<not> kzalloc_ok then Some (- ENOMEM, s1)
      else case find_bmt fuel bufsz (s1\<lparr>bbt_buf := replicate (unat bufsz) 0xff\<rparr>) (total_blks s1 - 1) of
        None \<Rightarrow> None
      | Some (True, s2) \<Rightarrow> Some (0, s2)
      | Some (False, s2) \<Rightarrow>
          if ucast (total_blks s2) > table_size s2 + table_size s2 * 2 div 100 then Some (- 1, s2)
          else if bmt_tbl s2 (unat (table_size s2)) > length (bbt_buf s2) then None
          else
            let s3 = s2\<lparr>bbt_buf := buf_put (bbt_buf s2) (bmt_tbl s2 0)
                                     (replicate (4 * unat (table_size s2)) 0)\<rparr>
            in case scan_bad_blocks fuel s3 of
              None \<Rightarrow> None
            | Some (r, s4) \<Rightarrow>
                if r \<noteq> 0 then Some (- 1, s4)
                else case upload_bmt s4 (uint (bmt_blk_idx s4)) of
                  (n, s5) \<Rightarrow> Some (if n = - 1 then - 1 else 0, s5\<lparr>bmt_blk_idx := n\<rparr>))"

section \<open>Entries and their updates\<close>

definition bb_in :: "('d, 'z) bmtd_scheme \<Rightarrow> nat \<Rightarrow> bool" where
  "bb_in s i \<longleftrightarrow> i < unat (table_size s) \<and> bmt_tbl s 0 \<le> length (bbt_buf s)"

definition bmt_in :: "('d, 'z) bmtd_scheme \<Rightarrow> nat \<Rightarrow> bool" where
  "bmt_in s i \<longleftrightarrow> bmt_tbl s (Suc i) \<le> length (bbt_buf s)"

lemma bb_tbl_set [simp]:
  "bb_in s j \<Longrightarrow> bb_tbl (set_bb_tbl s i v) j = (if i = j then v else bb_tbl s j)"
  "bb_in s j \<Longrightarrow> bb_tbl (set_bmt_block s i v) j = bb_tbl s j"
  "bb_in s j \<Longrightarrow> bb_tbl (set_bmt_mapped s i v) j = bb_tbl s j"
  by (cases i j rule: linorder_cases;
      simp add: bb_tbl_def set_bb_tbl_def set_bmt_block_def set_bmt_mapped_def bb_in_def
        bmt_tbl_def rd16_wr16_same rd16_wr16_other)+

lemma bmt_entry_set [simp]:
  "bmt_in s j \<Longrightarrow> bmt_block (set_bmt_block s i v) j = (if i = j then v else bmt_block s j)"
  "bmt_in s j \<Longrightarrow> bmt_block (set_bmt_mapped s i v) j = bmt_block s j"
  "bmt_in s j \<Longrightarrow> bmt_mapped (set_bmt_mapped s i v) j = (if i = j then v else bmt_mapped s j)"
  "bmt_in s j \<Longrightarrow> bmt_mapped (set_bmt_block s i v) j = bmt_mapped s j"
  by (cases i j rule: linorder_cases;
      simp add: bmt_block_def bmt_mapped_def set_bmt_block_def set_bmt_mapped_def bmt_in_def
        bmt_tbl_def rd16_wr16_same rd16_wr16_other)+

lemma bmt_entry_set_bb [simp]:
  assumes "bmt_in s j" and "i < unat (table_size s)"
  shows "bmt_block (set_bb_tbl s i v) j = bmt_block s j"
    and "bmt_mapped (set_bb_tbl s i v) j = bmt_mapped s j"
  using assms
  by (simp_all add: bmt_block_def bmt_mapped_def set_bb_tbl_def bmt_in_def bmt_tbl_def rd16_wr16_other)

lemma table_update_fields [frame_simps]:
  "table_size (set_bb_tbl s i v) = table_size s" "table_size (set_bmt_block s i v) = table_size s"
  "table_size (set_bmt_mapped s i v) = table_size s" "table_size (put_bmt_header s) = table_size s"
  "length (bbt_buf (set_bb_tbl s i v)) = length (bbt_buf s)"
  "length (bbt_buf (set_bmt_block s i v)) = length (bbt_buf s)"
  "length (bbt_buf (set_bmt_mapped s i v)) = length (bbt_buf s)"
  "length (bbt_buf (put_bmt_header s)) = length (bbt_buf s)"
  "geometry (set_bb_tbl s i v) = geometry s" "geometry (set_bmt_block s i v) = geometry s"
  "geometry (set_bmt_mapped s i v) = geometry s" "geometry (put_bmt_header s) = geometry s"
  "pool_lba (set_bb_tbl s i v) = pool_lba s" "pool_lba (set_bmt_block s i v) = pool_lba s"
  "pool_lba (set_bmt_mapped s i v) = pool_lba s" "pool_lba (put_bmt_header s) = pool_lba s"
  "bmt_blk_idx (set_bb_tbl s i v) = bmt_blk_idx s" "bmt_blk_idx (set_bmt_block s i v) = bmt_blk_idx s"
  "bmt_blk_idx (set_bmt_mapped s i v) = bmt_blk_idx s" "bmt_blk_idx (put_bmt_header s) = bmt_blk_idx s"
  by (simp_all add: set_bb_tbl_def set_bmt_block_def set_bmt_mapped_def put_bmt_header_def geometry_def)

lemma entries_in_cong:
  assumes "table_size t = table_size s" and "length (bbt_buf t) = length (bbt_buf s)"
  shows "bb_in t i = bb_in s i" and "bmt_in t i = bmt_in s i"
  using assms by (simp_all add: bb_in_def bmt_in_def bmt_tbl_def)

lemmas entries_in_set [simp] =
  entries_in_cong [OF table_update_fields(1,5)] entries_in_cong [OF table_update_fields(2,6)]
  entries_in_cong [OF table_update_fields(3,7)] entries_in_cong [OF table_update_fields(4,8)]

text \<open>The header lies before the tables, and the device accesses leave the buffer alone.\<close>

lemma entries_header [simp]:
  "bb_in s j \<Longrightarrow> bb_tbl (put_bmt_header s) j = bb_tbl s j"
  "bmt_in s j \<Longrightarrow> bmt_block (put_bmt_header s) j = bmt_block s j"
  "bmt_in s j \<Longrightarrow> bmt_mapped (put_bmt_header s) j = bmt_mapped s j"
  by (simp_all add: bb_tbl_def bmt_block_def bmt_mapped_def put_bmt_header_def bb_in_def bmt_in_def
      bmt_tbl_def rd16_def rd_bytes_put_other)

lemma entries_device:
  assumes "device_step s t"
  shows "bb_tbl t j = bb_tbl s j" "bmt_block t j = bmt_block s j" "bmt_mapped t j = bmt_mapped s j"
    "bb_in t j = bb_in s j" "bmt_in t j = bmt_in s j"
  by (simp_all add: bb_tbl_def bmt_block_def bmt_mapped_def bmt_tbl_def bb_in_def bmt_in_def
      device_step_fields [OF assms])

lemma bmt_in_mono: "bmt_in s n \<Longrightarrow> m \<le> n \<Longrightarrow> bmt_in s m"
  by (simp add: bmt_in_def bmt_tbl_def)

section \<open>The upload\<close>

text \<open>
  What an upload leaves alone: everything but the header of the buffer and the block
  numbers of the pool entries that it has tried and given up.
\<close>

definition same_tables :: "('d, 'z) bmtd_scheme \<Rightarrow> ('d, 'z) bmtd_scheme \<Rightarrow> bool" where
  "same_tables s t \<longleftrightarrow> geometry t = geometry s \<and> table_size t = table_size s
     \<and> pool_lba t = pool_lba s \<and> length (bbt_buf t) = length (bbt_buf s)
     \<and> bmt_blk_idx t = bmt_blk_idx s
     \<and> (\<forall>j. bb_in s j \<longrightarrow> bb_tbl t j = bb_tbl s j)
     \<and> (\<forall>j. bmt_in s j \<longrightarrow> bmt_mapped t j = bmt_mapped s j
                        \<and> (bmt_block t j = bmt_block s j \<or> bmt_block t j = 0))"

lemma same_tables_refl [simp]: "same_tables s s"
  by (simp add: same_tables_def)

lemma same_tables_trans:
  assumes st: "same_tables s t" and tu: "same_tables t u"
  shows "same_tables s u"
proof -
  have "bb_in t j = bb_in s j" "bmt_in t j = bmt_in s j" for j
    using st by (simp_all add: same_tables_def entries_in_cong [of t s])
  note same = st [unfolded same_tables_def] tu [unfolded same_tables_def this]
  show ?thesis unfolding same_tables_def
  proof (intro conjI allI impI)
    fix j assume "bmt_in s j"
    then have "bmt_block t j = bmt_block s j \<or> bmt_block t j = 0"
      "bmt_block u j = bmt_block t j \<or> bmt_block u j = 0" using same by blast+
    then show "bmt_block u j = bmt_block s j \<or> bmt_block u j = 0" by auto
  qed (use same in simp_all)
qed

lemma same_tables_device: "device_step s t \<Longrightarrow> same_tables s t"
  by (simp add: same_tables_def entries_device geometry_device_step device_step_fields(7,8,13,17))

lemma same_tables_header: "same_tables s (put_bmt_header s)"
  by (simp add: same_tables_def frame_simps)

lemma same_tables_give_up: "same_tables s (set_bmt_block s n 0)"
  by (simp add: same_tables_def frame_simps)

text \<open>One turn: the entry is written, or given up after an error of the driver.\<close>

lemma upload_bmt_step:
  "upload_bmt s n =
     (if n < 0 \<or> bmt_mapped s (nat n) = NORMAL_MAPPED then (- 1, s)
      else case bbt_nand_erase s (bmt_block s (nat n)) of
        (r, s1) \<Rightarrow> case write_bmt bmt_sig (put_bmt_header s1) (bmt_block s (nat n))
                          (bbt_buf (put_bmt_header s1)) of
          (r', s2) \<Rightarrow>
            if r = 0 \<and> r' = 0 then (word_of_int n, s2)
            else upload_bmt (set_bmt_block (if r = 0 then s2 else s1) (nat n) 0) (n - 1))"
  by (subst upload_bmt.simps) (simp add: Let_def split: prod.split)

lemma upload_attempt_same:
  assumes "bbt_nand_erase s b = (r, s1)"
    and "write_bmt sig (put_bmt_header s1) b dat = (r', s2)"
  shows "same_tables s s1" and "same_tables s s2"
proof -
  show s1: "same_tables s s1" using bbt_nand_erase_step [OF assms(1)] by (rule same_tables_device)
  have "same_tables s1 s2"
    using same_tables_header same_tables_device [OF write_bmt_step [OF assms(2)]]
    by (rule same_tables_trans)
  then show "same_tables s s2" by (rule same_tables_trans [OF s1])
qed

lemma upload_bmt_same: "upload_bmt s n = (m, t) \<Longrightarrow> same_tables s t"
proof (induction "nat (n + 1)" arbitrary: s n)
  case 0
  then show ?case by (simp add: upload_bmt_step [of s n])
next
  case (Suc k)
  obtain r s1 where er: "bbt_nand_erase s (bmt_block s (nat n)) = (r, s1)" by fastforce
  obtain r' s2 where wr: "write_bmt bmt_sig (put_bmt_header s1) (bmt_block s (nat n))
      (bbt_buf (put_bmt_header s1)) = (r', s2)" by fastforce
  note same = upload_attempt_same [OF er wr]
  have again: "same_tables s t"
    if "same_tables s u" "upload_bmt (set_bmt_block u (nat n) 0) (n - 1) = (m, t)" for u
  proof -
    have "k = nat (n - 1 + 1)" using Suc.hyps(2) by simp
    then have "same_tables (set_bmt_block u (nat n) 0) t" using that(2) by (rule Suc.hyps(1))
    then show ?thesis using that(1) same_tables_give_up same_tables_trans by metis
  qed
  show ?case
    using Suc.prems same again by (auto simp: upload_bmt_step [of s n] er wr split: if_splits)
qed

text \<open>
  Where an upload that succeeds has put the table: in an entry at or below the one asked for
  that is in use for no block, with every entry above it given up.
\<close>

lemma upload_bmt_place:
  assumes "upload_bmt s n = (m, t)" and "n < 65535" and "m \<noteq> - 1" and "bmt_in s (nat n)"
  shows "int (unat m) \<le> n \<and> bmt_mapped s (unat m) \<noteq> NORMAL_MAPPED
    \<and> (\<forall>j. bmt_in s j \<longrightarrow>
          bmt_block t j = (if unat m < j \<and> int j \<le> n then 0 else bmt_block s j))"
  using assms
proof (induction "nat (n + 1)" arbitrary: s n)
  case 0
  then show ?case by (simp add: upload_bmt_step [of s n])
next
  case (Suc k)
  have n: "0 \<le> n" using Suc.hyps(2) by simp
  have small: "unat (word_of_int n :: u16) = nat n" using n Suc.prems(2) by (simp add: unat_of_int_small)
  obtain r s1 where er: "bbt_nand_erase s (bmt_block s (nat n)) = (r, s1)" by fastforce
  obtain r' s2 where wr: "write_bmt bmt_sig (put_bmt_header s1) (bmt_block s (nat n))
      (bbt_buf (put_bmt_header s1)) = (r', s2)" by fastforce
  note d1 = bbt_nand_erase_step [OF er] and d2 = write_bmt_step [OF wr]
  have keep: "bmt_in u j = bmt_in s j \<and> (bmt_in s j \<longrightarrow> bmt_block u j = bmt_block s j
      \<and> bmt_mapped u j = bmt_mapped s j)" if "u = s1 \<or> u = s2" for u j
    using that by (auto simp: entries_device [OF d1] entries_device [OF d2])
  show ?case
  proof (cases "r = 0 \<and> r' = 0")
    case True
    then have m: "m = word_of_int n" and t: "t = s2" and "bmt_mapped s (nat n) \<noteq> NORMAL_MAPPED"
      using Suc.prems(1,3) n by (simp_all add: upload_bmt_step [of s n] er wr split: if_splits)
    then show ?thesis using n keep [of s2] unfolding m t small by auto
  next
    case False
    define u where "u = set_bmt_block (if r = 0 then s2 else s1) (nat n) 0"
    have up: "upload_bmt u (n - 1) = (m, t)" "bmt_mapped s (nat n) \<noteq> NORMAL_MAPPED"
      using Suc.prems(1,3) False n unfolding u_def
      by (auto simp: upload_bmt_step [of s n] er wr split: if_splits)
    have uin: "bmt_in u j = bmt_in s j" for j by (auto simp: u_def keep)
    have ub: "bmt_block u j = (if j = nat n then 0 else bmt_block s j)"
      and um: "bmt_mapped u j = bmt_mapped s j" if "bmt_in s j" for j
      using that by (auto simp: u_def keep)
    have "k = nat (n - 1 + 1)" "bmt_in u (nat (n - 1))"
      using Suc.hyps(2) bmt_in_mono [OF Suc.prems(4), of "nat (n - 1)"] by (auto simp: uin)
    then have IH: "int (unat m) \<le> n - 1" "bmt_mapped u (unat m) \<noteq> NORMAL_MAPPED"
      "\<And>j. bmt_in u j \<Longrightarrow> bmt_block t j
        = (if unat m < j \<and> int j \<le> n - 1 then 0 else bmt_block u j)"
      using Suc.hyps(1) [OF _ up(1) _ Suc.prems(3)] Suc.prems(2) by auto
    have "unat m \<le> nat n" using IH(1) by linarith
    then have "bmt_in s (unat m)" by (rule bmt_in_mono [OF Suc.prems(4)])
    then have "bmt_mapped s (unat m) \<noteq> NORMAL_MAPPED" using IH(2) by (simp add: um)
    moreover have "unat m < nat n" "int (unat m) \<le> n" using IH(1) n by linarith+
    ultimately show ?thesis using IH(3) n by (auto simp: uin ub)
  qed
qed

section \<open>The mapping stays one to one\<close>

text \<open>
  The tables of a device with \<open>K\<close> pool entries: no two blocks are mapped to the same
  physical block, no two pool entries name the same block, and a pool block that is marked
  free is the target of no block.
\<close>

definition v2_ok :: "nat \<Rightarrow> ('d, 'z) bmtd_scheme \<Rightarrow> bool" where
  "v2_ok K s \<longleftrightarrow> (\<forall>i < unat (pool_lba s). bb_in s i) \<and> (\<forall>k < K. bmt_in s k)
     \<and> inj_on (bb_tbl s) {..<unat (pool_lba s)}
     \<and> (\<forall>p < K. \<forall>q < K. bmt_block s p \<noteq> 0 \<and> bmt_block s p = bmt_block s q \<longrightarrow> p = q)
     \<and> (\<forall>p < K. bmt_block s p \<noteq> 0 \<and> bmt_mapped s p = NO_MAPPED
            \<longrightarrow> (\<forall>i < unat (pool_lba s). bb_tbl s i \<noteq> bmt_block s p))"

lemma v2_ok_same_tables:
  assumes ok: "v2_ok K s" and st: "same_tables s t"
  shows "v2_ok K t"
proof -
  have "bb_in t j = bb_in s j" "bmt_in t j = bmt_in s j" for j
    using st by (simp_all add: same_tables_def entries_in_cong [of t s])
  moreover have "bmt_block t p = bmt_block s p \<or> bmt_block t p = 0" "bmt_mapped t p = bmt_mapped s p"
    if "p < K" for p
    using ok st that by (auto simp: v2_ok_def same_tables_def)
  moreover have "bb_tbl t i = bb_tbl s i" if "i < unat (pool_lba s)" for i
    using ok st that by (auto simp: v2_ok_def same_tables_def)
  moreover have "pool_lba t = pool_lba s" using st by (simp add: same_tables_def)
  ultimately show ?thesis
    using ok unfolding v2_ok_def inj_on_def by simp metis
qed

lemma find_valid_block_in_pool_cases:
  obtains "find_valid_block_in_pool s = (0, s)"
    and "\<And>i. i < unat (bmt_blk_idx s) \<Longrightarrow> bmt_block s i = 0 \<or> bmt_mapped s i \<noteq> NO_MAPPED"
  | p where "p < unat (bmt_blk_idx s)" and "bmt_block s p \<noteq> 0" and "bmt_mapped s p = NO_MAPPED"
    and "find_valid_block_in_pool s
      = (bmt_block (set_bmt_mapped s p NORMAL_MAPPED) p, set_bmt_mapped s p NORMAL_MAPPED)"
proof (cases "find (\<lambda>i. bmt_block s i \<noteq> 0 \<and> bmt_mapped s i = NO_MAPPED) [0..<unat (bmt_blk_idx s)]")
  case None
  then have "find_valid_block_in_pool s = (0, s)" by (simp add: find_valid_block_in_pool_def)
  then show ?thesis using that(1) None by (simp add: find_None_iff)
next
  case (Some p)
  then have "find_valid_block_in_pool s
      = (bmt_block (set_bmt_mapped s p NORMAL_MAPPED) p, set_bmt_mapped s p NORMAL_MAPPED)"
    by (simp add: find_valid_block_in_pool_def Let_def)
  then show ?thesis using that(2) [of p] Some by (auto simp: find_Some_iff)
qed

text \<open>The tables right after the pool block is taken and the block is mapped to it.\<close>

lemma v2_ok_take:
  assumes ok: "v2_ok K s" and p: "p < K" "bmt_block s p \<noteq> 0" "bmt_mapped s p = NO_MAPPED"
    and b: "b < unat (pool_lba s)"
  shows "v2_ok K (set_bb_tbl (set_bmt_mapped s p NORMAL_MAPPED) b (bmt_block s p))"
proof -
  let ?t = "set_bb_tbl (set_bmt_mapped s p NORMAL_MAPPED) b (bmt_block s p)"
  have bT: "b < unat (table_size s)" using ok b by (auto simp: v2_ok_def bb_in_def)
  have bb: "bb_tbl ?t i = (if b = i then bmt_block s p else bb_tbl s i)"
    if "i < unat (pool_lba s)" for i
    using ok that by (auto simp: v2_ok_def)
  have pool: "bmt_block ?t q = bmt_block s q"
    "bmt_mapped ?t q = (if p = q then NORMAL_MAPPED else bmt_mapped s q)" if "q < K" for q
    using ok that bT by (auto simp: v2_ok_def frame_simps)
  have free: "bb_tbl s i \<noteq> bmt_block s p" if "i < unat (pool_lba s)" for i
    using ok p that by (auto simp: v2_ok_def)
  have inj: "inj_on (bb_tbl ?t) {..<unat (pool_lba s)}"
    using ok free free [symmetric] by (auto simp: v2_ok_def inj_on_def bb)
  have other: "bb_tbl ?t i \<noteq> bmt_block s q"
    if "q < K" "bmt_block s q \<noteq> 0" "bmt_mapped s q = NO_MAPPED" "q \<noteq> p" "i < unat (pool_lba s)" for i q
  proof -
    have "bmt_block s q \<noteq> bmt_block s p" using ok p(1) that(1,2,4) by (auto simp: v2_ok_def)
    moreover have "bb_tbl s i \<noteq> bmt_block s q" using ok that by (auto simp: v2_ok_def)
    ultimately show ?thesis using that(5) by (auto simp: bb)
  qed
  have ins: "\<forall>i<unat (pool_lba s). bb_in s i" "\<forall>k<K. bmt_in s k"
    and dis: "\<forall>p<K. \<forall>q<K. bmt_block s p \<noteq> 0 \<and> bmt_block s p = bmt_block s q \<longrightarrow> p = q"
    using ok unfolding v2_ok_def by blast+
  show ?thesis
    unfolding v2_ok_def using inj ins dis other by (auto simp: frame_simps pool)
qed

text \<open>
  C3. A remap keeps the mapping one to one, whatever the driver's erasures, copies and
  uploads answer: on success exactly the remapped block changes, to a pool block that was
  the target of no block and is now marked as used; on failure nothing changes, and no pool
  entry below the one of the table is free.
\<close>

theorem remap_block_v2_injective:
  assumes ok: "v2_ok K s" and idx: "unat (bmt_blk_idx s) \<le> K"
    and b: "unat block < unat (pool_lba s)"
    and re: "remap_block_v2 s block mapped n = (success, t)"
  shows "v2_ok K t \<and>
    (if success then
       (\<exists>p < unat (bmt_blk_idx s). bmt_mapped s p = NO_MAPPED \<and> bmt_mapped t p = NORMAL_MAPPED
          \<and> (\<forall>i < unat (pool_lba s). bb_tbl s i \<noteq> bmt_block s p)
          \<and> (\<forall>i < unat (pool_lba s). bb_tbl t i = (if i = unat block then bmt_block s p else bb_tbl s i)))
     else t = s \<and> (\<forall>p < unat (bmt_blk_idx s). bmt_block s p = 0 \<or> bmt_mapped s p \<noteq> NO_MAPPED))"
proof (cases rule: find_valid_block_in_pool_cases [of s])
  case 1
  then show ?thesis using re ok by (auto simp: remap_block_v2_def)
next
  case (2 p)
  then have p: "p < K" using idx by simp
  let ?s2 = "set_bb_tbl (set_bmt_mapped s p NORMAL_MAPPED) (unat block) (bmt_block s p)"
  have new: "bmt_block (set_bmt_mapped s p NORMAL_MAPPED) p = bmt_block s p"
    using ok p by (simp add: v2_ok_def)
  obtain r s3 where er: "bbt_nand_erase ?s2 (bmt_block s p) = (r, s3)" by fastforce
  obtain r' s4 where cp: "(if n > 0 then bbt_nand_copy s3 (bmt_block s p) mapped n else (0, s3)) = (r', s4)"
    by fastforce
  obtain m s5 where up: "upload_bmt s4 (uint (bmt_blk_idx s4)) = (m, s5)" by fastforce
  have st: "success" "t = s5\<lparr>bmt_blk_idx := m\<rparr>"
    using re 2(2,4) er cp up by (auto simp: remap_block_v2_def new Let_def split: if_splits)
  have d: "device_step ?s2 s4"
    using bbt_nand_erase_step [OF er] cp
    by (auto split: if_splits dest: bbt_nand_copy_step intro: device_step_trans)
  have same: "same_tables ?s2 s5"
    using same_tables_device [OF d] upload_bmt_same [OF up] by (rule same_tables_trans)
  have ok2: "v2_ok K ?s2" using ok p 2(2,3) b by (rule v2_ok_take)
  have ok5: "v2_ok K s5" using ok2 same by (rule v2_ok_same_tables)
  have view: "bb_tbl t = bb_tbl s5" "bmt_block t = bmt_block s5" "bmt_mapped t = bmt_mapped s5"
    "bb_in t = bb_in s5" "bmt_in t = bmt_in s5" "pool_lba t = pool_lba s5"
    by (auto simp: st(2) fun_eq_iff bb_tbl_def bmt_block_def bmt_mapped_def bmt_tbl_def bb_in_def bmt_in_def)
  have "v2_ok K t" using ok5 unfolding v2_ok_def view .
  moreover have "bb_tbl t i = (if i = unat block then bmt_block s p else bb_tbl s i)"
    if "i < unat (pool_lba s)" for i
    using ok that same by (auto simp: view same_tables_def v2_ok_def)
  moreover have "bmt_mapped t p = NORMAL_MAPPED"
    using ok p same b by (auto simp: view same_tables_def v2_ok_def bb_in_def frame_simps)
  moreover have "bb_tbl s i \<noteq> bmt_block s p" if "i < unat (pool_lba s)" for i
    using ok p 2 that by (auto simp: v2_ok_def)
  ultimately show ?thesis using st(1) 2 by auto
qed

text \<open>
  Tables for the examples: blocks 0 to 5 mapped to themselves, a pool of block 6, free, and
  block 7, which holds the table.
\<close>

definition demo_v2 :: "'d mtd_ops \<Rightarrow> 'd \<Rightarrow> 'd bmtd" where
  "demo_v2 drv d = (demo_bmtd drv d)
     \<lparr>bbt_buf := cstr ''BMT'' @ [2] @ concat (map (le_bytes 2) [0, 1, 2, 3, 4, 5, 0, 0 :: u16])
                @ concat (map (le_bytes 2) [6, 0, 7, 2 :: u16]) @ replicate 28 0,
      bmt_blk_idx := 1\<rparr>"

lemma demo_v2_ok: "v2_ok 2 (demo_v2 quiet_ops ())"
proof -
  let ?s = "demo_v2 quiet_ops ()"
  have lba: "unat (pool_lba ?s) = 6" by code_simp
  have ins: "list_all (bb_in ?s) [0..<6]" "bmt_in ?s 0" "bmt_in ?s 1" by code_simp+
  have "distinct (map (bb_tbl ?s) [0..<6])" by code_simp
  then have inj: "inj_on (bb_tbl ?s) {..<6}" by (simp add: distinct_map lessThan_atLeast0)
  have pool: "bmt_block ?s 0 = 6" "bmt_block ?s 1 = 7" "bmt_mapped ?s 1 = 2" by code_simp+
  have free: "list_all (\<lambda>i. bb_tbl ?s i \<noteq> 6) [0..<6]" by code_simp
  show ?thesis
    unfolding v2_ok_def lba
    using ins inj pool free by (auto simp: list_all_iff less_2_cases_iff)
qed

theorem remap_block_v2_injective_witness:
  "v2_ok 2 (snd (remap_block_v2 (demo_v2 quiet_ops ()) 3 3 16))"
proof -
  have "unat (bmt_blk_idx (demo_v2 quiet_ops ())) \<le> 2"
    "unat (3 :: u16) < unat (pool_lba (demo_v2 quiet_ops ()))" by code_simp+
  from remap_block_v2_injective [OF demo_v2_ok this prod.collapse [symmetric]]
  show ?thesis by simp
qed

section \<open>What the scan finds\<close>

text \<open>
  A flash whose bad block marks do not change while it is scanned: the driver stays in the
  states \<open>D\<close>, and the read of the first page of a block gives the mark of the block.
\<close>

definition steady_marks ::
  "('d, 'z) bmtd_scheme \<Rightarrow> ('d \<Rightarrow> bool) \<Rightarrow> (u16 \<Rightarrow> bool) \<Rightarrow> bool" where
  "steady_marks s D good \<longleftrightarrow> D (lower s) \<and> (\<forall>d b. D d \<longrightarrow> b < total_blks s \<longrightarrow>
     (case op_read_oob (lower_ops s) d (ucast (push_bit (unat (pg_shift s)) (blk_pg s b) :: u32))
             (ucast (pg_size s)) (ucast (oob_offset s)) 4 of
        (ret, dat, fdm, d') \<Rightarrow> D d' \<and> (good b \<longleftrightarrow> 0 \<le> ret \<and> fdm ! 0 = 0xff)))"

definition scan_env :: "('d, 'z) bmtd_scheme \<Rightarrow> ('d, 'z) bmtd_scheme \<Rightarrow> bool" where
  "scan_env s t \<longleftrightarrow> geometry t = geometry s \<and> table_size t = table_size s
     \<and> pool_lba t = pool_lba s \<and> length (bbt_buf t) = length (bbt_buf s)
     \<and> bb_max t = bb_max s \<and> oob_offset t = oob_offset s"

lemma scan_env_trans: "scan_env s t \<Longrightarrow> scan_env t u \<Longrightarrow> scan_env s u"
  by (simp add: scan_env_def)

lemma scan_env_device: "device_step s t \<Longrightarrow> scan_env s t"
  by (simp add: scan_env_def geometry_device_step device_step_fields(7,8,13,15,20))

lemma scan_env_set [simp]:
  "scan_env s (set_bb_tbl s i v)" "scan_env s (set_bmt_block s i v)" "scan_env s (set_bmt_mapped s i v)"
  by (simp_all add: scan_env_def frame_simps) (simp_all add: set_bb_tbl_def set_bmt_block_def set_bmt_mapped_def)

lemma lower_set [simp]:
  "lower (set_bb_tbl s i v) = lower s" "lower (set_bmt_block s i v) = lower s"
  "lower (set_bmt_mapped s i v) = lower s"
  by (simp_all add: set_bb_tbl_def set_bmt_block_def set_bmt_mapped_def)

lemma entries_in_env:
  assumes "scan_env s t"
  shows "bb_in t i = bb_in s i" and "bmt_in t i = bmt_in s i"
  using assms by (simp_all add: scan_env_def entries_in_cong [of t s])

lemma steady_marks_env:
  assumes "steady_marks s D good" and "scan_env s t" and "D (lower t)"
  shows "steady_marks t D good"
  using assms by (simp add: steady_marks_def scan_env_def geometry_def blk_pg_def)

definition good_from :: "('d, 'z) bmtd_scheme \<Rightarrow> (u16 \<Rightarrow> bool) \<Rightarrow> nat \<Rightarrow> nat list" where
  "good_from s good a = filter (\<lambda>b. good (of_nat b)) [a..<unat (total_blks s)]"

lemma good_from_env: "scan_env s t \<Longrightarrow> good_from t good a = good_from s good a"
  by (simp add: good_from_def scan_env_def geometry_def)

lemma find_valid_block_turn:
  assumes m: "steady_marks s D good" and b: "block < total_blks s"
  obtains s1 where "device_step s s1" and "steady_marks s1 D good"
    and "find_valid_block_loop n s block =
      (if good block then (block, s1)
       else case n of 0 \<Rightarrow> (0, s1) | Suc m \<Rightarrow> find_valid_block_loop m s1 (block + 1))"
proof -
  obtain ret dat fdm d' where rd: "op_read_oob (lower_ops s) (lower s)
      (ucast (push_bit (unat (pg_shift s)) (blk_pg s block) :: u32)) (ucast (pg_size s))
      (ucast (oob_offset s)) 4 = (ret, dat, fdm, d')" by (metis prod_cases4)
  have D: "D d'" and g: "good block \<longleftrightarrow> 0 \<le> ret \<and> fdm ! 0 = 0xff"
    using m b rd unfolding steady_marks_def by fastforce+
  let ?s1 = "s\<lparr>lower := d', data_buf := buf_put (data_buf s) 0 dat\<rparr>"
  have step: "device_step s ?s1" by simp
  have "steady_marks ?s1 D good"
    using m scan_env_device [OF step] by (rule steady_marks_env) (simp add: D)
  moreover have "find_valid_block_loop n s block =
      (if good block then (block, ?s1)
       else case n of 0 \<Rightarrow> (0, ?s1) | Suc m \<Rightarrow> find_valid_block_loop m ?s1 (block + 1))"
    using b g
    by (subst find_valid_block_loop.simps)
      (auto simp: bbt_nand_read_def lower_read_def rd Let_def not_le split: nat.split)
  ultimately show ?thesis using that step by blast
qed

lemma good_from_Cons:
  "a < unat (total_blks s) \<Longrightarrow>
    good_from s good a = (if good (of_nat a) then [a] else []) @ good_from s good (Suc a)"
  by (simp add: good_from_def upt_conv_Cons)

lemma good_from_Nil: "unat (total_blks s) \<le> a \<Longrightarrow> good_from s good a = []"
  by (simp add: good_from_def)

lemma good_from_ge: "g \<in> set (good_from s good a) \<Longrightarrow> a \<le> g \<and> g < unat (total_blks s)"
  by (simp add: good_from_def)

lemma find_valid_block_loop_spec:
  assumes "steady_marks s D good"
  shows "\<exists>t. find_valid_block_loop n s block =
      (case good_from s good (unat block) of
         [] \<Rightarrow> 0 | g # gs \<Rightarrow> if g \<le> unat block + n then of_nat g else 0, t)
    \<and> device_step s t \<and> steady_marks t D good"
  using assms
proof (induction n arbitrary: s block)
  case 0
  show ?case
  proof (cases "block < total_blks s")
    case True
    then have lt: "unat block < unat (total_blks s)" by (simp add: word_less_nat_alt)
    have far: "\<not> g \<le> unat block" if "good_from s good (Suc (unat block)) = g # gs" for g gs
      using good_from_ge [of g s good "Suc (unat block)"] that by simp
    from "0" True show ?thesis
      by (rule find_valid_block_turn [of s D good block 0])
        (auto simp: good_from_Cons [OF lt] far split: list.split)
  next
    case False
    then show ?thesis
      using "0" by (auto simp: find_valid_block_loop.simps good_from_Nil word_less_nat_alt word_le_nat_alt)
  qed
next
  case (Suc n)
  show ?case
  proof (cases "block < total_blks s")
    case True
    then have lt: "unat block < unat (total_blks s)" by (simp add: word_less_nat_alt)
    have next_: "unat (block + 1) = Suc (unat block)" using True by (rule unat_add_one_less)
    from Suc.prems True obtain s1 where s1: "device_step s s1" "steady_marks s1 D good"
      and eq: "find_valid_block_loop (Suc n) s block =
        (if good block then (block, s1) else find_valid_block_loop n s1 (block + 1))"
      by (rule find_valid_block_turn [where n = "Suc n"]) simp
    show ?thesis
    proof (cases "good block")
      case True
      then show ?thesis using s1 eq by (auto simp: good_from_Cons [OF lt])
    next
      case False
      obtain t where "find_valid_block_loop n s1 (block + 1) =
          (case good_from s1 good (unat (block + 1)) of
             [] \<Rightarrow> 0 | g # gs \<Rightarrow> if g \<le> unat (block + 1) + n then of_nat g else 0, t)"
        "device_step s1 t" "steady_marks t D good"
        using Suc.IH [OF s1(2), of "block + 1"] by blast
      then show ?thesis
        using False eq s1(1)
        by (auto simp: good_from_Cons [OF lt] next_ good_from_env [OF scan_env_device [OF s1(1)]]
            intro: device_step_trans split: list.split)
    qed
  next
    case False
    then show ?thesis
      using Suc.prems
      by (auto simp: find_valid_block_loop.simps good_from_Nil word_less_nat_alt word_le_nat_alt)
  qed
qed

text \<open>No more bad blocks than the vendor guarantees.\<close>

definition few_bad :: "('d, 'z) bmtd_scheme \<Rightarrow> (u16 \<Rightarrow> bool) \<Rightarrow> bool" where
  "few_bad s good \<longleftrightarrow>
     length (filter (\<lambda>b. \<not> good (of_nat b)) [0..<unat (total_blks s)]) \<le> unat (bb_max s)"

lemma few_bad_near:
  assumes "few_bad s good" and "good_from s good a = g # gs"
  shows "g \<le> a + unat (bb_max s)"
proof -
  have g: "a \<le> g" "g < unat (total_blks s)" using good_from_ge [of g s good a] assms(2) by auto
  have split_: "[a..<unat (total_blks s)] = [a..<g] @ [g..<unat (total_blks s)]"
    using g by (metis le_add_diff_inverse less_imp_le upt_add_eq_append)
  have "filter (\<lambda>b. good (of_nat b)) [a..<g] = []"
  proof (rule ccontr)
    assume "\<not> ?thesis"
    then obtain h hs where h: "filter (\<lambda>b. good (of_nat b)) [a..<g] = h # hs" by (meson list.exhaust)
    then have "h \<in> set [a..<g]" by (metis filter_is_subset list.set_intros(1) subsetD)
    moreover have "h = g" using assms(2) h by (simp add: good_from_def split_)
    ultimately show False by simp
  qed
  then have "filter (\<lambda>b. \<not> good (of_nat b)) [a..<g] = [a..<g]"
    by (simp add: filter_empty_conv filter_id_conv)
  moreover have "[0..<unat (total_blks s)] = [0..<a] @ [a..<g] @ [g..<unat (total_blks s)]"
    using g split_ by (metis le0 le_add_diff_inverse less_imp_le order_trans upt_add_eq_append plus_nat.add_0)
  ultimately have "g - a \<le> unat (bb_max s)"
    using assms(1) by (simp add: few_bad_def)
  then show ?thesis by simp
qed

lemma find_valid_block_spec:
  assumes "steady_marks s D good" and "few_bad s good"
  obtains t where "find_valid_block s block =
      (case good_from s good (unat block) of [] \<Rightarrow> 0 | g # gs \<Rightarrow> of_nat g, t)"
    and "device_step s t" and "steady_marks t D good"
proof -
  have "(case good_from s good (unat block) of
         [] \<Rightarrow> 0 | g # gs \<Rightarrow> if g \<le> unat block + unat (bb_max s) then of_nat g else 0)
    = (case good_from s good (unat block) of [] \<Rightarrow> 0 | g # gs \<Rightarrow> (of_nat g :: u16))"
    using few_bad_near [OF assms(2), of "unat block"] by (simp split: list.split)
  then show ?thesis
    using find_valid_block_loop_spec [OF assms(1), of "unat (bb_max s)" block] that
    by (auto simp: find_valid_block_def)
qed

text \<open>The blocks that the tables list: block 0, taken to be good, and the good blocks after it.\<close>

definition scan_order :: "('d, 'z) bmtd_scheme \<Rightarrow> (u16 \<Rightarrow> bool) \<Rightarrow> nat list" where
  "scan_order s good = 0 # good_from s good 1"

lemma scan_order_env: "scan_env s t \<Longrightarrow> scan_order t good = scan_order s good"
  by (simp add: scan_order_def good_from_env)

lemma good_from_after:
  "k < length (good_from s good a) \<Longrightarrow>
    good_from s good (Suc (good_from s good a ! k)) = drop (Suc k) (good_from s good a)"
  unfolding good_from_def by (rule filter_upt_after_nth)

lemma scan_order_after:
  assumes "k < length (scan_order s good)"
  shows "good_from s good (Suc (scan_order s good ! k)) = drop (Suc k) (scan_order s good)"
  using assms good_from_after [of "k - 1" s good 1] by (cases k) (auto simp: scan_order_def)

lemma scan_order_less:
  assumes "k < length (scan_order s good)" and "0 < unat (total_blks s)"
  shows "scan_order s good ! k < unat (total_blks s)"
proof (cases k)
  case 0
  then show ?thesis using assms(2) by (simp add: scan_order_def)
next
  case (Suc j)
  then have "good_from s good 1 ! j \<in> set (good_from s good 1)"
    using assms(1) by (intro nth_mem) (simp add: scan_order_def)
  then show ?thesis using good_from_ge Suc by (simp add: scan_order_def) blast
qed

lemma scan_order_pos:
  assumes "0 < k" and "k < length (scan_order s good)"
  shows "0 < scan_order s good ! k"
  using assms nth_mem [of "k - 1" "good_from s good 1"] good_from_ge [of _ s good 1]
  by (cases k) (fastforce simp: scan_order_def)+

lemma unat_block_small: "b < unat (total_blks s) \<Longrightarrow> unat (of_nat b :: u16) = b"
  using unsigned_less [of "total_blks s", where 'a = nat] by (intro unat_of_nat_small) simp

text \<open>The next block of the order, searched for from the block after the last one listed.\<close>

lemma find_valid_block_next:
  assumes m: "steady_marks s D good" and f: "few_bad s good"
    and k: "k < length (scan_order s good)" and t: "0 < unat (total_blks s)"
  obtains u where "find_valid_block s (of_nat (scan_order s good ! k) + 1) =
      (if Suc k < length (scan_order s good) then of_nat (scan_order s good ! Suc k) else 0, u)"
    and "device_step s u" and "steady_marks u D good"
proof -
  have lt: "scan_order s good ! k < unat (total_blks s)" using scan_order_less [OF k t] .
  then have "unat (of_nat (scan_order s good ! k) + 1 :: u16) = Suc (scan_order s good ! k)"
    using unat_add_one_less [of "of_nat (scan_order s good ! k) :: u16" "total_blks s"]
    by (simp add: word_less_nat_alt unat_block_small)
  then have g: "good_from s good (unat (of_nat (scan_order s good ! k) + 1 :: u16))
      = drop (Suc k) (scan_order s good)"
    using scan_order_after [OF k] by simp
  have "(case drop (Suc k) (scan_order s good) of [] \<Rightarrow> 0 | g # gs \<Rightarrow> (of_nat g :: u16))
      = (if Suc k < length (scan_order s good) then of_nat (scan_order s good ! Suc k) else 0)"
    by (cases "Suc k < length (scan_order s good)") (simp_all add: Cons_nth_drop_Suc [symmetric])
  moreover obtain u where "find_valid_block s (of_nat (scan_order s good ! k) + 1) =
      (case drop (Suc k) (scan_order s good) of [] \<Rightarrow> 0 | g # gs \<Rightarrow> of_nat g, u)"
    and u: "device_step s u" "steady_marks u D good"
    using find_valid_block_spec [OF m f, of "of_nat (scan_order s good ! k) + 1"] unfolding g by blast
  ultimately show ?thesis using that [OF _ u] by simp
qed

lemma few_bad_env: "scan_env s t \<Longrightarrow> few_bad t good = few_bad s good"
  by (simp add: few_bad_def scan_env_def geometry_def)

lemma total_blks_env: "scan_env s t \<Longrightarrow> total_blks t = total_blks s"
  by (simp add: scan_env_def geometry_def)

lemma scan_main_loop_spec:
  assumes "steady_marks s D good" and "few_bad s good" and "0 < unat (total_blks s)"
    and "0 < i" and "i \<le> length (scan_order s good)" and "\<forall>j < i + n. bb_in s j"
    and "\<forall>j < i. bb_tbl s j = of_nat (scan_order s good ! j)"
  shows "\<exists>t. scan_main_loop n i s = (i + n \<le> length (scan_order s good), t)
    \<and> scan_env s t \<and> steady_marks t D good
    \<and> (i + n \<le> length (scan_order s good)
        \<longrightarrow> (\<forall>j < i + n. bb_tbl t j = of_nat (scan_order s good ! j)))"
  using assms
proof (induction n arbitrary: i s)
  case 0
  then show ?case by (auto simp: scan_env_def)
next
  case (Suc n)
  let ?F = "scan_order s good"
  have k: "i - 1 < length ?F" and i: "Suc (i - 1) = i" using Suc.prems(4,5) by simp_all
  obtain u where u: "find_valid_block s (of_nat (?F ! (i - 1)) + 1) =
      (if i < length ?F then of_nat (?F ! i) else 0, u)"
    "device_step s u" "steady_marks u D good"
    using find_valid_block_next [OF Suc.prems(1,2) k Suc.prems(3)] unfolding i by blast
  have prev: "bb_tbl s (i - 1) = of_nat (?F ! (i - 1))" using Suc.prems(4,7) by simp
  define v where "v = set_bb_tbl u i (if i < length ?F then of_nat (?F ! i) else 0)"
  have turn: "scan_main_loop (Suc n) i s =
    (if (if i < length ?F then of_nat (?F ! i) else 0) = (0 :: u16) then (False, v)
     else scan_main_loop n (Suc i) v)"
    unfolding scan_main_loop.simps prev u(1) by (simp add: v_def Let_def)
  have env: "scan_env s v"
    using scan_env_device [OF u(2)] scan_env_set(1) unfolding v_def by (rule scan_env_trans)
  have marks: "steady_marks v D good"
    using Suc.prems(1) env by (rule steady_marks_env) (use u(3) in \<open>simp add: steady_marks_def v_def\<close>)
  show ?case
  proof (cases "i < length ?F")
    case True
    have lt: "?F ! i < unat (total_blks s)" using scan_order_less [OF True Suc.prems(3)] .
    have "unat (of_nat (?F ! i) :: u16) = ?F ! i" using lt by (rule unat_block_small)
    then have nz: "of_nat (?F ! i) \<noteq> (0 :: u16)"
      using scan_order_pos [OF Suc.prems(4) True] by (metis neq0_conv unat_0)
    have F: "scan_order v good = ?F" using env by (rule scan_order_env)
    have "bb_in s i" using Suc.prems(6) by simp
    then have bb: "\<forall>j < Suc i. bb_tbl v j = of_nat (?F ! j)"
      using Suc.prems(6,7) True by (auto simp: v_def entries_device [OF u(2)] less_Suc_eq)
    have "\<exists>t. scan_main_loop n (Suc i) v = (Suc i + n \<le> length ?F, t)
      \<and> scan_env v t \<and> steady_marks t D good
      \<and> (Suc i + n \<le> length ?F \<longrightarrow> (\<forall>j < Suc i + n. bb_tbl t j = of_nat (?F ! j)))"
      by (rule Suc.IH [of v "Suc i", unfolded F])
        (use Suc.prems True marks bb in
          \<open>simp_all add: entries_in_env [OF env] few_bad_env [OF env] total_blks_env [OF env]\<close>)
    then show ?thesis using True nz env unfolding turn by (auto intro: scan_env_trans)
  next
    case False
    then show ?thesis using env marks Suc.prems(5) unfolding turn by auto
  qed
qed

lemma scan_pool_loop_spec:
  assumes "steady_marks s D good" and "few_bad s good" and "0 < unat (total_blks s)"
    and "0 < L" and "L + i \<le> length (scan_order s good)"
    and "block = of_nat (scan_order s good ! (L + i - 1)) + 1"
    and "\<forall>j < length (scan_order s good) - L. bmt_in s j"
    and "\<forall>j < i. bmt_block s j = of_nat (scan_order s good ! (L + j)) \<and> bmt_mapped s j = NO_MAPPED"
    and "length (scan_order s good) - (L + i) < fuel"
  shows "\<exists>t. scan_pool_loop fuel s i block = Some (length (scan_order s good) - L, t)
    \<and> scan_env s t \<and> steady_marks t D good
    \<and> (\<forall>j. bb_in s j \<longrightarrow> bb_tbl t j = bb_tbl s j)
    \<and> (\<forall>j < length (scan_order s good) - L.
         bmt_block t j = of_nat (scan_order s good ! (L + j)) \<and> bmt_mapped t j = NO_MAPPED)"
  using assms
proof (induction fuel arbitrary: i s block)
  case 0
  then show ?case by simp
next
  case (Suc fuel)
  let ?F = "scan_order s good"
  have k: "L + i - 1 < length ?F" and i: "Suc (L + i - 1) = L + i" using Suc.prems(4,5) by simp_all
  obtain u where u: "find_valid_block s block = (if L + i < length ?F then of_nat (?F ! (L + i)) else 0, u)"
    "device_step s u" "steady_marks u D good"
    using find_valid_block_next [OF Suc.prems(1,2) k Suc.prems(3)] unfolding i Suc.prems(6) by blast
  have env_u: "scan_env s u" using u(2) by (rule scan_env_device)
  show ?case
  proof (cases "L + i < length ?F")
    case False
    then have "i = length ?F - L" using Suc.prems(5) by simp
    then show ?thesis
      using False u Suc.prems(8) env_u by (auto simp: entries_device [OF u(2)])
  next
    case True
    have lt: "?F ! (L + i) < unat (total_blks s)" using scan_order_less [OF True Suc.prems(3)] .
    have "unat (of_nat (?F ! (L + i)) :: u16) = ?F ! (L + i)" using lt by (rule unat_block_small)
    moreover have "0 < ?F ! (L + i)" using Suc.prems(4) by (intro scan_order_pos True) simp
    ultimately have nz: "of_nat (?F ! (L + i)) \<noteq> (0 :: u16)" by (metis neq0_conv unat_0)
    define v where "v = set_bmt_mapped (set_bmt_block u i (of_nat (?F ! (L + i)))) i NO_MAPPED"
    have turn: "scan_pool_loop (Suc fuel) s i block
        = scan_pool_loop fuel v (Suc i) (of_nat (?F ! (L + i)) + 1)"
      using True nz u(1) by (simp add: v_def)
    have env: "scan_env s v"
      using env_u scan_env_set(2,3) unfolding v_def by (blast intro: scan_env_trans)
    have marks: "steady_marks v D good"
      using Suc.prems(1) env by (rule steady_marks_env) (use u(3) in \<open>simp add: steady_marks_def v_def\<close>)
    have F: "scan_order v good = ?F" using env by (rule scan_order_env)
    have bin: "bmt_in u j = bmt_in s j" "bb_in u j = bb_in s j" for j
      using entries_in_env [OF env_u] by simp_all
    have done_: "bmt_block v j = of_nat (?F ! (L + j)) \<and> bmt_mapped v j = NO_MAPPED" if "j < Suc i" for j
      using Suc.prems(7,8) True that by (auto simp: v_def bin entries_device [OF u(2)] less_Suc_eq)
    have bb: "bb_tbl v j = bb_tbl s j" if "bb_in s j" for j
      using that by (simp add: v_def bin entries_device [OF u(2)])
    have "\<exists>t. scan_pool_loop fuel v (Suc i) (of_nat (?F ! (L + i)) + 1) = Some (length ?F - L, t)
      \<and> scan_env v t \<and> steady_marks t D good \<and> (\<forall>j. bb_in v j \<longrightarrow> bb_tbl t j = bb_tbl v j)
      \<and> (\<forall>j < length ?F - L. bmt_block t j = of_nat (?F ! (L + j)) \<and> bmt_mapped t j = NO_MAPPED)"
      by (rule Suc.IH [of v "Suc i", unfolded F])
        (use Suc.prems True marks done_ in
          \<open>simp_all add: entries_in_env [OF env] few_bad_env [OF env] total_blks_env [OF env]\<close>)
    then show ?thesis using env bb unfolding turn by (auto simp: entries_in_env [OF env] intro: scan_env_trans)
  qed
qed

lemma inj_on_scan_order:
  assumes "0 < unat (total_blks s)"
  shows "inj_on (\<lambda>j. of_nat (scan_order s good ! j) :: u16) {..<length (scan_order s good)}"
proof (rule inj_onI)
  fix i j assume ij: "i \<in> {..<length (scan_order s good)}" "j \<in> {..<length (scan_order s good)}"
    and eq: "of_nat (scan_order s good ! i) = (of_nat (scan_order s good ! j) :: u16)"
  have "distinct (scan_order s good)"
    using good_from_ge [of 0 s good 1] by (auto simp: scan_order_def good_from_def)
  moreover have "scan_order s good ! i = scan_order s good ! j"
    using eq ij scan_order_less [OF _ assms] unat_block_small [of _ s] by (metis lessThan_iff)
  ultimately show "i = j" using ij nth_eq_iff_index_eq by blast
qed

lemma scan_bad_blocks_after_main:
  assumes "scan_main_loop (unat (pool_lba s) - 1) 1 (set_bb_tbl s 0 0) = (True, s1)"
    and "s1\<lparr>pool_pba := bb_tbl s1 (max 1 (unat (pool_lba s1)) - 1) + 1\<rparr> = s2"
  shows "scan_bad_blocks fuel s =
      (if uint (pool_pba s2) \<ge> uint (total_blks s2) - 2 then Some (- 1, s2)
       else case scan_pool_loop fuel s2 0 (pool_pba s2) of
            None \<Rightarrow> None
          | Some (i, s3) \<Rightarrow>
              let s4 = s3\<lparr>bmt_blk_idx := of_nat i - 1\<rparr>;
                  s5 = set_bmt_mapped s4 (unat (bmt_blk_idx s4)) BMT_MAPPED
              in Some (if i < 1 then - 1 else 0, s5))"
  unfolding scan_bad_blocks_def assms(1) prod.case bool.case assms(2) Let_def ..

lemma v2_ok_listed:
  assumes "\<And>j. j < unat (pool_lba t) \<Longrightarrow> bb_in t j \<and> bb_tbl t j = f j"
    and "\<And>j. j < K \<Longrightarrow> bmt_in t j \<and> bmt_block t j = f (unat (pool_lba t) + j)"
    and inj: "inj_on f {..<unat (pool_lba t) + K}"
  shows "v2_ok K t"
proof -
  have eq: "f i = f j \<longleftrightarrow> i = j" if "i < unat (pool_lba t) + K" "j < unat (pool_lba t) + K" for i j
    using inj that by (auto simp: inj_on_def)
  show ?thesis using assms(1,2) by (auto simp: v2_ok_def inj_on_def eq)
qed

text \<open>The three parts of the scan: the main table, the pool, and the place of the table.\<close>

lemma scan_main_part:
  fixes good :: "u16 \<Rightarrow> bool"
  assumes m: "steady_marks s D good" and few: "few_bad s good" and tot: "0 < unat (total_blks s)"
    and lba: "1 \<le> unat (pool_lba s)" and bb: "\<forall>j < unat (pool_lba s). bb_in s j"
  defines "F \<equiv> scan_order s good" and "L \<equiv> unat (pool_lba s)"
  shows "\<exists>t. scan_main_loop (L - 1) 1 (set_bb_tbl s 0 0) = (L \<le> length F, t)
    \<and> scan_env s t \<and> steady_marks t D good \<and> (L \<le> length F \<longrightarrow> (\<forall>j < L. bb_tbl t j = of_nat (F ! j)))"
proof -
  let ?s0 = "set_bb_tbl s 0 0"
  have env0: "scan_env s ?s0" by simp
  have F0: "scan_order ?s0 good = F" unfolding F_def using env0 by (rule scan_order_env)
  have m0: "steady_marks ?s0 D good"
    using m env0 by (rule steady_marks_env) (use m in \<open>simp add: steady_marks_def\<close>)
  have "\<exists>t. scan_main_loop (L - 1) 1 ?s0 = (1 + (L - 1) \<le> length F, t)
    \<and> scan_env ?s0 t \<and> steady_marks t D good
    \<and> (1 + (L - 1) \<le> length F \<longrightarrow> (\<forall>j < 1 + (L - 1). bb_tbl t j = of_nat (F ! j)))"
    by (rule scan_main_loop_spec [OF m0, of 1, unfolded F0])
      (use few tot lba bb in \<open>auto simp: few_bad_env [OF env0] total_blks_env [OF env0] entries_in_env [OF env0]
        F_def L_def scan_order_def\<close>)
  then show ?thesis using lba by (auto simp: L_def dest: scan_env_trans [OF env0])
qed

lemma scan_order_length:
  "0 < unat (total_blks s) \<Longrightarrow> length (scan_order s good) \<le> unat (total_blks s)"
  using length_filter_le [of "\<lambda>b. good (of_nat b)" "[1..<unat (total_blks s)]"]
  by (simp add: scan_order_def good_from_def)

lemma scan_pool_part:
  fixes good :: "u16 \<Rightarrow> bool"
  assumes m: "steady_marks s2 D good" and env: "scan_env s s2" and few: "few_bad s good"
    and tot: "0 < unat (total_blks s)" and lba: "1 \<le> unat (pool_lba s)"
    and pool: "\<forall>j < unat (total_blks s). bmt_in s j" and fuel: "unat (total_blks s) < fuel"
    and long: "unat (pool_lba s) \<le> length (scan_order s good)"
    and pba: "pool_pba s2 = of_nat (scan_order s good ! (unat (pool_lba s) - 1)) + 1"
    and room: "scan_order s good ! (unat (pool_lba s) - 1) + 3 < unat (total_blks s)"
  defines "F \<equiv> scan_order s good" and "L \<equiv> unat (pool_lba s)"
  shows "\<exists>t. scan_pool_loop fuel s2 0 (pool_pba s2) = Some (length F - L, t) \<and> scan_env s t
    \<and> (\<forall>j. bb_in s j \<longrightarrow> bb_tbl t j = bb_tbl s2 j)
    \<and> (\<forall>j < length F - L. bmt_block t j = of_nat (F ! (L + j)) \<and> bmt_mapped t j = NO_MAPPED)"
proof -
  have F2: "scan_order s2 good = F" unfolding F_def using env by (rule scan_order_env)
  have "\<exists>t. scan_pool_loop fuel s2 0 (pool_pba s2) = Some (length F - L, t)
    \<and> scan_env s2 t \<and> steady_marks t D good
    \<and> (\<forall>j. bb_in s2 j \<longrightarrow> bb_tbl t j = bb_tbl s2 j)
    \<and> (\<forall>j < length F - L. bmt_block t j = of_nat (F ! (L + j)) \<and> bmt_mapped t j = NO_MAPPED)"
    by (rule scan_pool_loop_spec [OF m, of L 0, unfolded F2])
      (use few tot lba pool fuel long scan_order_length [OF tot, of good] room in
        \<open>auto simp: few_bad_env [OF env] total_blks_env [OF env] entries_in_env [OF env] pba F_def L_def\<close>)
  then show ?thesis by (auto dest: scan_env_trans [OF env] simp: entries_in_env [OF env])
qed

lemma scan_placed:
  fixes good :: "u16 \<Rightarrow> bool"
  assumes tot: "0 < unat (total_blks s)" and bb: "\<forall>j < unat (pool_lba s). bb_in s j"
    and pool: "\<forall>j < unat (total_blks s). bmt_in s j" and env: "scan_env s s3"
  defines "F \<equiv> scan_order s good" and "L \<equiv> unat (pool_lba s)"
  assumes long: "L \<le> length F" and bb3: "\<And>j. j < L \<Longrightarrow> bb_tbl s3 j = of_nat (F ! j)"
    and bmt3: "\<And>j. j < length F - L \<Longrightarrow> bmt_block s3 j = of_nat (F ! (L + j)) \<and> bmt_mapped s3 j = NO_MAPPED"
    and K: "K = length F - L" "K \<noteq> 0"
    and t: "t = set_bmt_mapped (s3\<lparr>bmt_blk_idx := of_nat K - 1\<rparr>) (K - 1) BMT_MAPPED"
  shows "v2_ok K t \<and> (\<forall>j < L. bb_tbl t j = of_nat (F ! j))
    \<and> (\<forall>j < K. bmt_block t j = of_nat (F ! (L + j)) \<and> bmt_mapped t j = (if j = K - 1 then BMT_MAPPED else NO_MAPPED))"
proof -
  have lenF: "length F \<le> unat (total_blks s)" unfolding F_def by (rule scan_order_length [OF tot])
  have view: "bb_tbl (s3\<lparr>bmt_blk_idx := x\<rparr>) = bb_tbl s3" "bmt_block (s3\<lparr>bmt_blk_idx := x\<rparr>) = bmt_block s3"
    "bmt_mapped (s3\<lparr>bmt_blk_idx := x\<rparr>) = bmt_mapped s3" "bb_in (s3\<lparr>bmt_blk_idx := x\<rparr>) = bb_in s3"
    "bmt_in (s3\<lparr>bmt_blk_idx := x\<rparr>) = bmt_in s3" for x
    by (auto simp: fun_eq_iff bb_tbl_def bmt_block_def bmt_mapped_def bmt_tbl_def bb_in_def bmt_in_def)
  have ins: "bb_in s3 j" if "j < L" for j using bb that by (simp add: entries_in_env [OF env] L_def)
  have inp: "bmt_in s3 j" if "j < K" for j
    using pool that lenF by (simp add: entries_in_env [OF env] K)
  have tb: "bb_tbl t j = of_nat (F ! j)" if "j < L" for j
    using bb3 [OF that] ins [OF that] that by (simp add: t view)
  have tp: "bmt_block t j = of_nat (F ! (L + j))"
    "bmt_mapped t j = (if j = K - 1 then BMT_MAPPED else NO_MAPPED)" if "j < K" for j
    using bmt3 inp [OF that] that by (auto simp: t view K)
  have lba_t: "unat (pool_lba t) = L" using env by (simp add: t frame_simps scan_env_def L_def)
  have "v2_ok K t"
    by (rule v2_ok_listed [where f = "\<lambda>j. of_nat (F ! j)"])
      (use ins inp tb tp inj_on_scan_order [OF tot, of good] long in
        \<open>simp_all add: lba_t K F_def, simp_all add: t view K F_def\<close>)
  then show ?thesis using tb tp by simp
qed

lemma scan_bad_blocks_listed:
  fixes good :: "u16 \<Rightarrow> bool"
  assumes tot: "0 < unat (total_blks s)" and lba: "1 \<le> unat (pool_lba s)"
    and long: "unat (pool_lba s) \<le> length (scan_order s good)"
    and main: "scan_main_loop (unat (pool_lba s) - 1) 1 (set_bb_tbl s 0 0) = (True, s1)
      \<and> bb_tbl s1 (unat (pool_lba s) - 1) = of_nat (scan_order s good ! (unat (pool_lba s) - 1))"
    and L1: "unat (pool_lba s1) = unat (pool_lba s)" and env1: "scan_env s s1"
  defines "b \<equiv> scan_order s good ! (unat (pool_lba s) - 1)"
  shows "scan_bad_blocks fuel s =
      (if \<not> b + 3 < unat (total_blks s) then Some (- 1, s1\<lparr>pool_pba := of_nat b + 1\<rparr>)
       else case scan_pool_loop fuel (s1\<lparr>pool_pba := of_nat b + 1\<rparr>) 0 (pool_pba (s1\<lparr>pool_pba := of_nat b + 1\<rparr>)) of
            None \<Rightarrow> None
          | Some (i, s3) \<Rightarrow>
              let s4 = s3\<lparr>bmt_blk_idx := of_nat i - 1\<rparr>;
                  s5 = set_bmt_mapped s4 (unat (bmt_blk_idx s4)) BMT_MAPPED
              in Some (if i < 1 then - 1 else 0, s5))"
proof -
  define s2 where "s2 = s1\<lparr>pool_pba := of_nat b + 1\<rparr>"
  have env2: "scan_env s s2" using env1 by (simp add: s2_def scan_env_def geometry_def)
  have lt: "b < unat (total_blks s)" unfolding b_def using long lba tot by (intro scan_order_less) auto
  have "unat (of_nat b + 1 :: u16) = Suc b"
    using unat_add_one_less [of "of_nat b :: u16" "total_blks s"] lt
    by (simp add: word_less_nat_alt unat_block_small)
  then have "unat (pool_pba s2) = Suc b" by (simp add: s2_def)
  then have full: "uint (pool_pba s2) \<ge> uint (total_blks s2) - 2 \<longleftrightarrow> \<not> b + 3 < unat (total_blks s)"
    unfolding uint_nat total_blks_env [OF env2] by linarith
  have "s1\<lparr>pool_pba := bb_tbl s1 (max 1 (unat (pool_lba s1)) - 1) + 1\<rparr> = s2"
    using main lba by (simp add: s2_def L1 max_def b_def)
  then show ?thesis unfolding s2_def [symmetric] using main by (simp only: scan_bad_blocks_after_main full)
qed

text \<open>
  C25. On a flash whose marks are steady, with no more bad blocks than the vendor guarantees,
  the scan ends and finds what the comment in the source draws: the table of the main area
  lists block 0 and the good blocks after it, in order, and the pool entries list the good
  blocks that remain, all free but the last, which is the place of the table. It fails
  exactly when the good blocks do not reach two blocks past the main area, or none is left
  for the pool. The tables then satisfy the invariant of the remaps.
\<close>

theorem scan_bad_blocks_orders_good_blocks:
  assumes m: "steady_marks s D good" and few: "few_bad s good" and tot: "0 < unat (total_blks s)"
    and lba: "1 \<le> unat (pool_lba s)" and bb: "\<forall>j < unat (pool_lba s). bb_in s j"
    and pool: "\<forall>j < unat (total_blks s). bmt_in s j" and fuel: "unat (total_blks s) < fuel"
  shows "\<exists>r t. scan_bad_blocks fuel s = Some (r, t) \<and>
    (let F = scan_order s good; L = unat (pool_lba s) in
      (r = 0 \<longleftrightarrow> L < length F \<and> F ! (L - 1) + 3 < unat (total_blks s)) \<and>
      (r = 0 \<longrightarrow> v2_ok (length F - L) t
        \<and> (\<forall>j < L. bb_tbl t j = of_nat (F ! j))
        \<and> unat (bmt_blk_idx t) = length F - L - 1
        \<and> (\<forall>j < length F - L. bmt_block t j = of_nat (F ! (L + j))
             \<and> bmt_mapped t j = (if j = length F - L - 1 then BMT_MAPPED else NO_MAPPED))))"
proof -
  let ?F = "scan_order s good" and ?L = "unat (pool_lba s)"
  obtain s1 where main: "scan_main_loop (?L - 1) 1 (set_bb_tbl s 0 0) = (?L \<le> length ?F, s1)"
    and env1: "scan_env s s1" and m1: "steady_marks s1 D good"
    and bb1: "?L \<le> length ?F \<Longrightarrow> \<forall>j < ?L. bb_tbl s1 j = of_nat (?F ! j)"
    using scan_main_part [OF m few tot lba bb] by auto
  have L1: "unat (pool_lba s1) = ?L" using env1 by (simp add: scan_env_def)
  show ?thesis
  proof (cases "?L \<le> length ?F")
    case False
    then show ?thesis using main by (simp add: scan_bad_blocks_def)
  next
    case long: True
    define s2 where "s2 = s1\<lparr>pool_pba := of_nat (?F ! (?L - 1)) + 1\<rparr>"
    have env2: "scan_env s s2" using env1 by (simp add: s2_def scan_env_def geometry_def)
    have unfold: "scan_bad_blocks fuel s =
      (if \<not> ?F ! (?L - 1) + 3 < unat (total_blks s) then Some (- 1, s2)
       else case scan_pool_loop fuel s2 0 (pool_pba s2) of
            None \<Rightarrow> None
          | Some (i, s3) \<Rightarrow>
              let s4 = s3\<lparr>bmt_blk_idx := of_nat i - 1\<rparr>;
                  s5 = set_bmt_mapped s4 (unat (bmt_blk_idx s4)) BMT_MAPPED
              in Some (if i < 1 then - 1 else 0, s5))"
      unfolding s2_def by (rule scan_bad_blocks_listed [OF tot lba long _ L1 env1]) (use main long bb1 lba in auto)
    show ?thesis
    proof (cases "?F ! (?L - 1) + 3 < unat (total_blks s)")
      case False
      then show ?thesis by (simp add: unfold)
    next
      case room: True
      have m2: "steady_marks s2 D good"
        using m env2 by (rule steady_marks_env) (use m1 in \<open>simp add: s2_def steady_marks_def\<close>)
      have pba2: "pool_pba s2 = of_nat (?F ! (?L - 1)) + 1" by (simp add: s2_def)
      have bb2: "bb_tbl s2 j = bb_tbl s1 j" for j by (simp add: s2_def bb_tbl_def)
      obtain s3 where pool3: "scan_pool_loop fuel s2 0 (pool_pba s2) = Some (length ?F - ?L, s3)"
        and env3: "scan_env s s3" and bb3: "\<And>j. bb_in s j \<Longrightarrow> bb_tbl s3 j = bb_tbl s1 j"
        and bmt3: "\<And>j. j < length ?F - ?L \<Longrightarrow> bmt_block s3 j = of_nat (?F ! (?L + j)) \<and> bmt_mapped s3 j = NO_MAPPED"
        using scan_pool_part [OF m2 env2 few tot lba pool fuel long pba2 room] bb2 by auto
      define K where "K = length ?F - ?L"
      show ?thesis
      proof (cases "K = 0")
        case True
        then show ?thesis using room pool3 by (simp add: unfold K_def Let_def)
      next
        case False
        have "unat (of_nat K :: u16) = K"
          using scan_order_length [OF tot, of good] unsigned_less [of "total_blks s", where 'a = nat]
          by (intro unat_of_nat_small) (simp add: K_def)
        moreover from this have "of_nat K \<noteq> (0 :: u16)" using False by (metis unat_0)
        ultimately have idx: "unat (of_nat K - 1 :: u16) = K - 1" by (simp add: unat_minus_one)
        define t where "t = set_bmt_mapped (s3\<lparr>bmt_blk_idx := of_nat K - 1\<rparr>) (K - 1) BMT_MAPPED"
        have ret: "scan_bad_blocks fuel s = Some (0, t)"
          using room pool3 False idx by (simp add: unfold t_def K_def [symmetric] Let_def)
        have "unat (bmt_blk_idx t) = K - 1" using idx by (simp add: t_def frame_simps)
        moreover have "v2_ok K t \<and> (\<forall>j < ?L. bb_tbl t j = of_nat (?F ! j))
            \<and> (\<forall>j < K. bmt_block t j = of_nat (?F ! (?L + j))
              \<and> bmt_mapped t j = (if j = K - 1 then BMT_MAPPED else NO_MAPPED))"
          by (rule scan_placed [OF tot bb pool env3 long _ _ K_def False t_def]) (use bb1 [OF long] bb3 bb bmt3 in auto)
        ultimately show ?thesis using room False by (auto simp: ret K_def)
      qed
    qed
  qed
qed

theorem scan_bad_blocks_orders_good_blocks_witness:
  "\<exists>t. scan_bad_blocks 9 (demo_v2 (marked_ops [2]) () \<lparr>pool_lba := 4\<rparr>) = Some (0, t)
    \<and> v2_ok 3 t \<and> bb_tbl t 2 = 3 \<and> bmt_block t 0 = 5"
proof -
  let ?s = "demo_v2 (marked_ops [2]) () \<lparr>pool_lba := 4\<rparr>" and ?good = "\<lambda>b :: u16. b \<noteq> 2"
  have tot: "total_blks ?s = 8" by code_simp
  have m: "steady_marks ?s (\<lambda>_. True) ?good"
    unfolding steady_marks_def tot
  proof (intro conjI allI impI TrueI)
    fix d :: unit and b :: u16
    assume "b < 8"
    then have "b \<in> {0, 1, 2, 3, 4, 5, 6, 7}" by (rule u16_below_8)
    then show "case op_read_oob (lower_ops ?s) d (ucast (push_bit (unat (pg_shift ?s)) (blk_pg ?s b) :: u32))
        (ucast (pg_size ?s)) (ucast (oob_offset ?s)) 4 of
      (ret, dat, fdm, d') \<Rightarrow> True \<and> (b \<noteq> 2 \<longleftrightarrow> 0 \<le> ret \<and> fdm ! 0 = 0xff)"
      by (elim insertE emptyE; simp; code_simp)
  qed
  have few: "few_bad ?s ?good" and F: "scan_order ?s ?good = [0, 1, 3, 4, 5, 6, 7]" by code_simp+
  have lba: "unat (pool_lba ?s) = 4" by code_simp
  have bb: "list_all (bb_in ?s) [0..<4]" and bm: "list_all (bmt_in ?s) [0..<8]" by code_simp+
  have "\<exists>r t. scan_bad_blocks 9 ?s = Some (r, t) \<and>
    (let F = scan_order ?s ?good; L = unat (pool_lba ?s) in
      (r = 0 \<longleftrightarrow> L < length F \<and> F ! (L - 1) + 3 < unat (total_blks ?s)) \<and>
      (r = 0 \<longrightarrow> v2_ok (length F - L) t
        \<and> (\<forall>j < L. bb_tbl t j = of_nat (F ! j))
        \<and> unat (bmt_blk_idx t) = length F - L - 1
        \<and> (\<forall>j < length F - L. bmt_block t j = of_nat (F ! (L + j))
             \<and> bmt_mapped t j = (if j = length F - L - 1 then BMT_MAPPED else NO_MAPPED))))"
    by (rule scan_bad_blocks_orders_good_blocks [OF m few])
      (use bb bm in \<open>simp_all add: tot lba list_all_iff\<close>)
  then obtain r t where rt: "scan_bad_blocks 9 ?s = Some (r, t)" "r = 0" "v2_ok 3 t"
    "\<forall>j < 4. bb_tbl t j = of_nat ([0, 1, 3, 4, 5, 6, 7] ! j)"
    "\<forall>j < 3. bmt_block t j = of_nat ([0, 1, 3, 4, 5, 6, 7] ! (4 + j))"
    unfolding F lba tot Let_def by (auto simp flip: numeral_3_eq_3)
  then have "bb_tbl t 2 = of_nat ([0, 1, 3, 4, 5, 6, 7] ! 2)"
    "bmt_block t 0 = of_nat ([0, 1, 3, 4, 5, 6, 7] ! (4 + 0))" by simp_all
  then show ?thesis using rt by auto
qed

section \<open>The stored table at the next start\<close>

lemma rd_header:
  "4 \<le> length (bbt_buf s) \<Longrightarrow> rd_bytes (bbt_buf (put_bmt_header s)) 0 4 = cstr ''BMT'' @ [2]"
  using rd_bytes_put_same [of 0 "cstr ''BMT'' @ [2]" "bbt_buf s"] by (simp add: put_bmt_header_def eval_nat_numeral)

lemma upload_bmt_header:
  assumes "upload_bmt s n = (m, t)" and "m \<noteq> - 1" and "4 \<le> length (bbt_buf s)"
  shows "rd_bytes (bbt_buf t) 0 4 = cstr ''BMT'' @ [2]"
  using assms
proof (induction "nat (n + 1)" arbitrary: s n)
  case 0
  then show ?case by (simp add: upload_bmt_step [of s n])
next
  case (Suc k)
  obtain r s1 where er: "bbt_nand_erase s (bmt_block s (nat n)) = (r, s1)" by fastforce
  obtain r' s2 where wr: "write_bmt bmt_sig (put_bmt_header s1) (bmt_block s (nat n))
      (bbt_buf (put_bmt_header s1)) = (r', s2)" by fastforce
  have b: "bbt_buf s1 = bbt_buf s" "bbt_buf s2 = bbt_buf (put_bmt_header s1)"
    using device_step_fields(7) [OF bbt_nand_erase_step [OF er]]
      device_step_fields(7) [OF write_bmt_step [OF wr]] by simp_all
  show ?case
  proof (cases "r = 0 \<and> r' = 0")
    case True
    then have "t = s2" using Suc.prems(1,2) Suc.hyps(2)
      by (simp add: upload_bmt_step [of s n] er wr split: if_splits)
    then show ?thesis using b Suc.prems(3) by (simp add: rd_header)
  next
    case False
    define u where "u = set_bmt_block (if r = 0 then s2 else s1) (nat n) 0"
    have "upload_bmt u (n - 1) = (m, t)"
      using Suc.prems(1,2) False unfolding u_def
      by (auto simp: upload_bmt_step [of s n] er wr split: if_splits)
    moreover have "4 \<le> length (bbt_buf u)" using Suc.prems(3) b by (simp add: u_def frame_simps)
    ultimately show ?thesis using Suc.hyps(1) [of "n - 1" u] Suc.hyps(2) Suc.prems(2) by simp
  qed
qed

lemma get_bmt_index_skip:
  assumes "i \<le> k"
    and "\<And>j. i \<le> j \<Longrightarrow> j < k \<Longrightarrow> bmt_in s j \<and> bmt_block s j \<noteq> 0 \<and> bmt_mapped s j \<noteq> BMT_MAPPED"
  shows "get_bmt_index_from s i = get_bmt_index_from s k"
  using assms
proof (induction rule: inc_induct)
  case base
  then show ?case by simp
next
  case (step i)
  have "bmt_in s i" "bmt_block s i \<noteq> 0" "bmt_mapped s i \<noteq> BMT_MAPPED"
    using step.prems [of i] step.hyps by auto
  then have "get_bmt_index_from s i = get_bmt_index_from s (Suc i)"
    by (subst get_bmt_index_from.simps) (simp add: bmt_in_def bmt_tbl_def)
  also have "\<dots> = get_bmt_index_from s k" using step by simp
  finally show ?case .
qed


text \<open>A device on which one block cannot be erased.\<close>

definition stuck_ops :: "nat \<Rightarrow> unit mtd_ops" where
  "stuck_ops blk = quiet_ops \<lparr>op_erase := \<lambda>d addr len. (if unat addr div 16 = blk then - EIO else 0, d)\<rparr>"


section \<open>Dropping a mapping\<close>

text \<open>
  \<open>unmap_block_v2\<close> maps a block to itself. After a scan that has skipped bad blocks, the
  physical block of that number can already be in use for an earlier block: then the two
  blocks share it.
\<close>

theorem unmap_block_v2_collides:
  assumes "\<forall>j < unat (pool_lba s). bb_in s j"
    and "i < unat (pool_lba s)" and "unat b < unat (pool_lba s)" and "i \<noteq> unat b"
    and "bb_tbl s i = b"
    and "mapping_block_in_range s (int i) \<noteq> None" and "mapping_block_in_range s (uint b) \<noteq> None"
  shows "get_mapping_block_index_v2 (unmap_block_v2 s b) (int i)
       = get_mapping_block_index_v2 (unmap_block_v2 s b) (uint b)"
proof -
  let ?s1 = "set_bb_tbl s (unat b) b"
  obtain n t where up: "upload_bmt ?s1 (uint (bmt_blk_idx ?s1)) = (n, t)" by fastforce
  have same: "same_tables ?s1 t" using up by (rule upload_bmt_same)
  have bb: "bb_tbl t j = bb_tbl ?s1 j" if "j < unat (pool_lba s)" for j
    using same assms(1) that by (simp add: same_tables_def)
  have geo: "geometry t = geometry s" "pool_lba t = pool_lba s"
    using same by (simp_all add: same_tables_def frame_simps)
  have range: "mapping_block_in_range (t\<lparr>bmt_blk_idx := n\<rparr>) x = mapping_block_in_range s x" for x
    using geo(1) by (intro mapping_block_in_range_cong) (simp_all add: geometry_def)
  have view: "bb_tbl (t\<lparr>bmt_blk_idx := n\<rparr>) = bb_tbl t" by (simp add: fun_eq_iff bb_tbl_def)
  have t: "unmap_block_v2 s b = t\<lparr>bmt_blk_idx := n\<rparr>"
    using up by (simp add: unmap_block_v2_def Let_def)
  have map: "get_mapping_block_index_v2 (unmap_block_v2 s b) (int j) = uint (bb_tbl t j)"
    if j: "j < unat (pool_lba s)" and x: "mapping_block_in_range s (int j) \<noteq> None" for j
  proof -
    have "\<not> int j \<ge> uint (pool_lba s)" using j by (simp add: uint_nat del: of_nat_unat)
    moreover obtain x where "mapping_block_in_range s (int j) = Some x" using x by auto
    ultimately show ?thesis by (simp add: get_mapping_block_index_v2_def t range geo view)
  qed
  have b: "uint b = int (unat b)" by (rule uint_nat)
  have "bb_tbl t i = b" "bb_tbl t (unat b) = b"
    using assms(1-5) bb [of i] bb [of "unat b"] by simp_all
  then show ?thesis
    using map [OF assms(2,6)] map [OF assms(3) assms(7) [unfolded b]] by (simp only: b)
qed

section \<open>Collecting unused pool blocks\<close>

lemma nth_mark: "p < length used \<Longrightarrow> used[k := True] ! p \<longleftrightarrow> k = p \<or> used ! p"
  by (cases "k = p") auto

lemma fold_mark:
  "p < length used \<Longrightarrow>
    fold (\<lambda>i used. case g i of None \<Rightarrow> used | Some k \<Rightarrow> used[k := True]) is used ! p
      \<longleftrightarrow> used ! p \<or> (\<exists>i \<in> set is. g i = Some p)"
  by (induction "is" arbitrary: used) (auto simp: nth_mark split: option.split)

lemma mapping_mask_spec:
  assumes p: "p \<le> unat (bmt_blk_idx s)" and nz: "bmt_block s p \<noteq> 0"
    and dis: "\<And>q. q < p \<Longrightarrow> bmt_block s q \<noteq> bmt_block s p"
  shows "mtk_bmt_get_mapping_mask s ! p \<longleftrightarrow> p < unat (bmt_blk_idx s)
    \<and> (\<exists>i. 1 \<le> i \<and> i < main_blocks s \<and> unat (bb_tbl s i) \<noteq> i \<and> bb_tbl s i = bmt_block s p)"
proof -
  let ?K = "unat (bmt_blk_idx s)"
  let ?g = "\<lambda>i. if unat (bb_tbl s i) = i then None
    else find (\<lambda>k. bb_tbl s i = bmt_block s k) [0..<?K]"
  have g: "?g i = Some p \<longleftrightarrow> p < ?K \<and> unat (bb_tbl s i) \<noteq> i \<and> bb_tbl s i = bmt_block s p" for i
    using dis by (auto simp: find_Some_iff)
  have len: "p < 64 * (?K div 64 + 1)" using p by (simp add: div_mult_mod_eq)
  have mask: "mtk_bmt_get_mapping_mask s = fold (\<lambda>i used. case ?g i of None \<Rightarrow> used | Some k \<Rightarrow> used[k := True])
      [1..<main_blocks s] (replicate (64 * (?K div 64 + 1)) False)"
    unfolding mtk_bmt_get_mapping_mask_def by (intro fold_cong) auto
  show ?thesis
    unfolding mask using len by (subst fold_mark) (auto simp: g)
qed

text \<open>One pass over the pool entries.\<close>

lemma free_unused_fold:
  assumes "fold (\<lambda>i (n, s). if bmt_mapped s i \<noteq> NORMAL_MAPPED \<or> used ! i then (n, s)
                       else (Suc n, set_bmt_mapped s i NO_MAPPED)) [0..<m] (0, s) = (n, t)"
  shows "scan_env s t \<and> bmt_blk_idx t = bmt_blk_idx s \<and> (n = 0 \<longrightarrow> t = s)
    \<and> (\<forall>j. bb_in s j \<longrightarrow> bb_tbl t j = bb_tbl s j)
    \<and> (\<forall>p. bmt_in s p \<longrightarrow> bmt_block t p = bmt_block s p \<and> bmt_mapped t p =
          (if p < m \<and> bmt_mapped s p = NORMAL_MAPPED \<and> \<not> used ! p then NO_MAPPED else bmt_mapped s p))"
  using assms
proof (induction m arbitrary: n t)
  case 0
  then show ?case by (simp add: scan_env_def)
next
  case (Suc m)
  let ?f = "\<lambda>i (n, s). if bmt_mapped s i \<noteq> NORMAL_MAPPED \<or> used ! i then (n, s)
                       else (Suc n, set_bmt_mapped s i NO_MAPPED)"
  obtain k u where u: "fold ?f [0..<m] (0, s) = (k, u)" by fastforce
  note IH = Suc.IH [OF u]
  have ins: "bb_in u j = bb_in s j" "bmt_in u j = bmt_in s j" for j
    using entries_in_env [of s u j] IH by simp_all
  show ?case
  proof (cases "bmt_mapped u m \<noteq> NORMAL_MAPPED \<or> used ! m")
    case True
    then have "(n, t) = (k, u)" using Suc.prems u by simp
    then show ?thesis using IH True by (auto simp: less_Suc_eq)
  next
    case False
    then have t: "n = Suc k" "t = set_bmt_mapped u m NO_MAPPED" using Suc.prems u by simp_all
    have "scan_env s t" using IH t(2) by (auto intro: scan_env_trans)
    then show ?thesis using IH False by (auto simp: t ins frame_simps less_Suc_eq)
  qed
qed

text \<open>
  The garbage collection of the debug file marks as free exactly the used pool entries
  that no block of the main area from block 1 on is mapped to. Block 0 and the blocks past
  the main area are not looked at.
\<close>

theorem mtk_bmt_debug_v2_collects:
  assumes ok: "v2_ok K s" and idx: "unat (bmt_blk_idx s) < K"
    and run: "mtk_bmt_debug_v2 True s 100 = (r, t)"
  shows "r = 0 \<and> (\<forall>i < unat (pool_lba s). bb_tbl t i = bb_tbl s i) \<and>
    (\<forall>p \<le> unat (bmt_blk_idx s). bmt_block s p \<noteq> 0 \<longrightarrow>
       bmt_mapped t p =
        (if bmt_mapped s p = NORMAL_MAPPED \<and> \<not> (p < unat (bmt_blk_idx s) \<and>
              (\<exists>i. 1 \<le> i \<and> i < main_blocks s \<and> unat (bb_tbl s i) \<noteq> i \<and> bb_tbl s i = bmt_block s p))
         then NO_MAPPED else bmt_mapped s p))"
proof -
  let ?used = "mtk_bmt_get_mapping_mask s"
  obtain n u where fr: "mtk_bmt_free_unused ?used s = (n, u)" by fastforce
  note freed = free_unused_fold [OF fr [unfolded mtk_bmt_free_unused_def]]
  obtain m v where up: "upload_bmt u (uint (bmt_blk_idx u)) = (m, v)" by fastforce
  have uv: "same_tables u v" using up by (rule upload_bmt_same)
  have t: "r = 0" "t = (if n = 0 then u else v\<lparr>bmt_blk_idx := m\<rparr>)"
    using run fr up by (auto simp: mtk_bmt_debug_v2_def split: if_splits)
  have ins: "bb_in u j = bb_in s j" "bmt_in u j = bmt_in s j" for j
    using entries_in_env [of s u j] freed by simp_all
  have bb: "bb_tbl t i = bb_tbl u i" if "bb_in s i" for i
    using uv that ins by (simp add: t same_tables_def bb_tbl_def)
  have mp: "bmt_mapped t p = bmt_mapped u p" if "bmt_in s p" for p
  proof -
    have "bmt_mapped (v\<lparr>bmt_blk_idx := m\<rparr>) p = bmt_mapped v p" by (simp add: bmt_mapped_def bmt_tbl_def)
    then show ?thesis using uv that ins by (simp add: t same_tables_def)
  qed
  have mask: "?used ! p \<longleftrightarrow> p < unat (bmt_blk_idx s) \<and>
      (\<exists>i. 1 \<le> i \<and> i < main_blocks s \<and> unat (bb_tbl s i) \<noteq> i \<and> bb_tbl s i = bmt_block s p)"
    if "p \<le> unat (bmt_blk_idx s)" "bmt_block s p \<noteq> 0" for p
  proof (rule mapping_mask_spec [OF that])
    fix q assume "q < p"
    then show "bmt_block s q \<noteq> bmt_block s p"
      using ok idx that unfolding v2_ok_def by (metis less_irrefl order_le_less_trans order_less_trans)
  qed
  have ok_in: "bmt_in s p" if "p \<le> unat (bmt_blk_idx s)" for p
    using ok idx that by (auto simp: v2_ok_def)
  show ?thesis
  proof (intro conjI allI impI)
    show "bb_tbl t i = bb_tbl s i" if "i < unat (pool_lba s)" for i
      using ok freed bb that by (auto simp: v2_ok_def)
  next
    fix p assume p: "p \<le> unat (bmt_blk_idx s)" "bmt_block s p \<noteq> 0"
    show "bmt_mapped t p = (if bmt_mapped s p = NORMAL_MAPPED \<and> \<not> (p < unat (bmt_blk_idx s) \<and>
              (\<exists>i. 1 \<le> i \<and> i < main_blocks s \<and> unat (bb_tbl s i) \<noteq> i \<and> bb_tbl s i = bmt_block s p))
         then NO_MAPPED else bmt_mapped s p)"
      unfolding mask [OF p, symmetric] using freed ok_in [OF p(1)] p(1) by (simp add: mp less_Suc_eq_le)
  qed (rule t(1))
qed

lemma mtk_bmt_debug_v2_blocks:
  assumes "v2_ok K s" and "mtk_bmt_debug_v2 True s 100 = (r, t)"
  shows "pool_lba t = pool_lba s \<and> (\<forall>i < unat (pool_lba s). bb_in t i) \<and> (\<forall>k < K. bmt_in t k
    \<and> (bmt_block t k = bmt_block s k \<or> bmt_block t k = 0))
    \<and> (\<forall>k < K. unat (bmt_blk_idx s) < k \<longrightarrow> bmt_mapped t k = bmt_mapped s k)"
proof -
  let ?used = "mtk_bmt_get_mapping_mask s"
  obtain n u where fr: "mtk_bmt_free_unused ?used s = (n, u)" by fastforce
  note freed = free_unused_fold [OF fr [unfolded mtk_bmt_free_unused_def]]
  obtain m v where up: "upload_bmt u (uint (bmt_blk_idx u)) = (m, v)" by fastforce
  have uv: "same_tables u v" using up by (rule upload_bmt_same)
  have t: "t = (if n = 0 then u else v\<lparr>bmt_blk_idx := m\<rparr>)"
    using assms(2) fr up by (auto simp: mtk_bmt_debug_v2_def split: if_splits)
  have view: "bmt_block (v\<lparr>bmt_blk_idx := m\<rparr>) = bmt_block v" "bmt_mapped (v\<lparr>bmt_blk_idx := m\<rparr>) = bmt_mapped v"
    "bb_in (v\<lparr>bmt_blk_idx := m\<rparr>) = bb_in v" "bmt_in (v\<lparr>bmt_blk_idx := m\<rparr>) = bmt_in v"
    by (auto simp: fun_eq_iff bmt_block_def bmt_mapped_def bmt_tbl_def bb_in_def bmt_in_def)
  have ins: "bb_in u j = bb_in s j" "bmt_in u j = bmt_in s j" "bb_in v j = bb_in s j"
    "bmt_in v j = bmt_in s j" for j
    using entries_in_env [of s u j] freed entries_in_cong [of v u j] uv by (simp_all add: same_tables_def)
  have "pool_lba u = pool_lba s" using freed by (simp add: scan_env_def)
  then show ?thesis
    using assms(1) uv freed by (auto simp: t view ins v2_ok_def same_tables_def)
qed

text \<open>
  The collection keeps the mapping one to one, if block 0 and the blocks past the main
  area use no pool block, no pool block lies in the main area, and the entry of the table
  itself is not in use.
\<close>

theorem mtk_bmt_debug_v2_keeps_injective:
  assumes ok: "v2_ok K s" and idx: "unat (bmt_blk_idx s) < K"
    and tbl: "bmt_mapped s (unat (bmt_blk_idx s)) \<noteq> NORMAL_MAPPED"
    and ends: "\<forall>i < unat (pool_lba s). \<forall>p < K.
      i = 0 \<or> main_blocks s \<le> i \<longrightarrow> bmt_block s p \<noteq> 0 \<longrightarrow> bb_tbl s i \<noteq> bmt_block s p"
    and pool: "\<forall>p < K. bmt_block s p \<noteq> 0 \<longrightarrow> main_blocks s \<le> unat (bmt_block s p)"
    and run: "mtk_bmt_debug_v2 True s 100 = (r, t)"
  shows "v2_ok K t"
proof -
  note spec = mtk_bmt_debug_v2_collects [OF ok idx run]
  note blocks = mtk_bmt_debug_v2_blocks [OF ok run]
  have free: "bb_tbl s i \<noteq> bmt_block s p"
    if p: "p < K" "bmt_block s p \<noteq> 0" "bmt_mapped t p = NO_MAPPED" and i: "i < unat (pool_lba s)" for p i
  proof (cases "bmt_mapped s p = NO_MAPPED")
    case True
    then show ?thesis using ok p i by (auto simp: v2_ok_def)
  next
    case False
    then have "p \<le> unat (bmt_blk_idx s)" using blocks p by (metis not_le)
    then have unused: "bmt_mapped s p = NORMAL_MAPPED" "\<not> (p < unat (bmt_blk_idx s) \<and>
        (\<exists>i. 1 \<le> i \<and> i < main_blocks s \<and> unat (bb_tbl s i) \<noteq> i \<and> bb_tbl s i = bmt_block s p))"
      using spec p False by (metis (no_types, lifting))+
    then have "p < unat (bmt_blk_idx s)"
      using tbl \<open>p \<le> unat (bmt_blk_idx s)\<close> by (cases "p = unat (bmt_blk_idx s)") auto
    then have "\<not> (1 \<le> i \<and> i < main_blocks s \<and> unat (bb_tbl s i) \<noteq> i \<and> bb_tbl s i = bmt_block s p)"
      using unused(2) by blast
    moreover have "main_blocks s \<le> unat (bmt_block s p)" using pool p by blast
    ultimately show ?thesis using ends p(1,2) i by (auto simp: not_le Suc_le_eq)
  qed
  have bb: "bb_tbl t i = bb_tbl s i" if "i < unat (pool_lba s)" for i using spec that by blast
  have dis: "\<forall>p<K. \<forall>q<K. bmt_block s p \<noteq> 0 \<and> bmt_block s p = bmt_block s q \<longrightarrow> p = q"
    and inj: "inj_on (bb_tbl s) {..<unat (pool_lba s)}" using ok unfolding v2_ok_def by blast+
  show ?thesis
    unfolding v2_ok_def using blocks dis
  proof (intro conjI allI impI)
    show "inj_on (bb_tbl t) {..<unat (pool_lba t)}"
      using inj blocks bb by (auto simp: inj_on_def)
    fix p q assume "p < K" "q < K" "bmt_block t p \<noteq> 0 \<and> bmt_block t p = bmt_block t q"
    then show "p = q" using blocks dis by metis
  next
    fix p i assume "p < K" "bmt_block t p \<noteq> 0 \<and> bmt_mapped t p = NO_MAPPED" "i < unat (pool_lba t)"
    then show "bb_tbl t i \<noteq> bmt_block t p" using blocks bb free by metis
  qed (use blocks in auto)
qed

theorem unmap_block_v2_collides_witness:
  "get_mapping_block_index_v2 (unmap_block_v2 (set_bb_tbl (demo_v2 quiet_ops ()) 2 3) 3) (int 2)
 = get_mapping_block_index_v2 (unmap_block_v2 (set_bb_tbl (demo_v2 quiet_ops ()) 2 3) 3) (uint (3 :: u16))"
proof -
  let ?s = "set_bb_tbl (demo_v2 quiet_ops ()) 2 3"
  have lba: "unat (pool_lba ?s) = 6" by code_simp
  have bb: "list_all (bb_in ?s) [0..<6]" by code_simp
  have m: "mapping_block_in_range ?s (int 2) \<noteq> None" "mapping_block_in_range ?s (uint (3 :: u16)) \<noteq> None"
    "bb_tbl ?s 2 = 3" by code_simp+
  show ?thesis
    by (rule unmap_block_v2_collides [OF _ _ _ _ m(3,1,2)]) (use bb lba in \<open>simp_all add: list_all_iff\<close>)
qed

text \<open>
  The tables of the example after block \<open>b\<close> was given the pool block, on a main area of
  four blocks.
\<close>

definition demo_v2_used :: "nat \<Rightarrow> unit bmtd" where
  "demo_v2_used b = set_bb_tbl (set_bmt_mapped (demo_v2 quiet_ops () \<lparr>mtd_size := 64\<rparr>) 0 NORMAL_MAPPED) b 6"

lemma demo_v2_used_ok:
  assumes "b < 6"
  shows "v2_ok 2 (demo_v2_used b)"
proof -
  let ?s = "demo_v2 quiet_ops () \<lparr>mtd_size := 64\<rparr>"
  have view: "bb_tbl ?s = bb_tbl (demo_v2 quiet_ops ())" "bmt_block ?s = bmt_block (demo_v2 quiet_ops ())"
    "bmt_mapped ?s = bmt_mapped (demo_v2 quiet_ops ())" "bb_in ?s = bb_in (demo_v2 quiet_ops ())"
    "bmt_in ?s = bmt_in (demo_v2 quiet_ops ())" "pool_lba ?s = pool_lba (demo_v2 quiet_ops ())"
    by (auto simp: fun_eq_iff bb_tbl_def bmt_block_def bmt_mapped_def bmt_tbl_def bb_in_def bmt_in_def)
  have v: "v2_ok 2 ?s" using demo_v2_ok unfolding v2_ok_def view .
  have p: "bmt_block ?s 0 = 6" "bmt_mapped ?s 0 = 0" by code_simp+
  have lba: "b < unat (pool_lba ?s)" using assms by (simp add: demo_v2_def demo_bmtd_def)
  show ?thesis using v2_ok_take [OF v _ _ p(2) lba] by (simp add: demo_v2_used_def p(1))
qed

text \<open>Block 0 was remapped: the collection takes its block for free.\<close>

theorem mtk_bmt_debug_v2_collects_witness:
  "bb_tbl (snd (mtk_bmt_debug_v2 True (demo_v2_used 0) 100)) 0 = bmt_block (demo_v2_used 0) 0
 \<and> bmt_mapped (snd (mtk_bmt_debug_v2 True (demo_v2_used 0) 100)) 0 = NO_MAPPED"
proof -
  let ?s = "demo_v2_used 0"
  have ok: "v2_ok 2 ?s" by (rule demo_v2_used_ok) simp
  have s: "unat (bmt_blk_idx ?s) = 1" "bmt_block ?s 0 = 6" "bmt_mapped ?s 0 = NORMAL_MAPPED"
    "bb_tbl ?s 0 = 6" "main_blocks ?s = 4" "unat (pool_lba ?s) = 6" by code_simp+
  have bb: "list_all (\<lambda>i. bb_tbl ?s i \<noteq> 6) [1..<4]" by code_simp
  then have unused: "\<not> (\<exists>i. 1 \<le> i \<and> i < 4 \<and> unat (bb_tbl ?s i) \<noteq> i \<and> bb_tbl ?s i = 6)"
    by (auto simp: list_all_iff)
  have "unat (bmt_blk_idx ?s) < 2" using s(1) by simp
  note c = mtk_bmt_debug_v2_collects [OF ok this prod.collapse [symmetric]]
  show ?thesis using c unused by (auto simp: s)
qed

theorem mtk_bmt_debug_v2_keeps_injective_witness:
  "v2_ok 2 (snd (mtk_bmt_debug_v2 True (demo_v2_used 3) 100))"
proof -
  let ?s = "demo_v2_used 3"
  have ok: "v2_ok 2 ?s" by (rule demo_v2_used_ok) simp
  have s: "unat (bmt_blk_idx ?s) = 1" "bmt_mapped ?s 1 \<noteq> NORMAL_MAPPED"
    "bmt_block ?s 0 = 6" "bmt_block ?s 1 = 7"
    "bb_tbl ?s 0 = 0" "bb_tbl ?s 4 = 4" "bb_tbl ?s 5 = 5"
    "main_blocks ?s = 4" "unat (pool_lba ?s) = 6" by code_simp+
  have "bb_tbl ?s i \<noteq> bmt_block ?s p" if "i < 6" "p < 2" "i = 0 \<or> 4 \<le> i" for i p
  proof -
    have "i = 0 \<or> i = 4 \<or> i = 5" using that(1,3) by linarith
    then show ?thesis using that(2) s by (auto simp: less_2_cases_iff)
  qed
  then show ?thesis
    using s by (intro mtk_bmt_debug_v2_keeps_injective [OF ok _ _ _ _ prod.collapse [symmetric]])
      (auto simp: less_2_cases_iff)
qed

section \<open>Start-up with the default table size\<close>

lemma find_bmt_frame:
  "find_bmt fuel bufsz s b = Some (r, t) \<Longrightarrow>
    table_size t = table_size s \<and> length (bbt_buf t) = length (bbt_buf s) \<and> total_blks t = total_blks s"
proof (induction fuel arbitrary: s b)
  case 0
  then show ?case by simp
next
  case (Suc fuel)
  obtain ret dat fdm s1 where rd: "bbt_nand_read s (blk_pg s b) (ucast bufsz) 4 = (ret, dat, fdm, s1)"
    by (metis prod_cases4)
  let ?s1 = "s1\<lparr>bbt_buf := buf_put (bbt_buf s1) 0 dat\<rparr>"
  have "table_size ?s1 = table_size s" "length (bbt_buf ?s1) = length (bbt_buf s)"
    "total_blks ?s1 = total_blks s"
    using device_step_fields(7,8,16) [OF bbt_nand_read_step [OF rd]] by simp_all
  then show ?case
    using Suc.prems Suc.IH [of ?s1 "b - 1"] by (auto simp: rd Let_def split: if_splits option.splits)
qed

text \<open>
  With the default table size, on every NAND page size up to 16 KiB, the buffer that
  \<open>mtk_bmt_init_v2\<close> allocates is smaller than its tables: when no stored table is found, the
  \<open>memset\<close> of the pool table runs past the allocation, and the model's start-up has no
  result.
\<close>

theorem mtk_bmt_init_v2_overruns:
  assumes pg: "pg_size s \<in> {512, 1024, 2048, 4096, 8192, 16384}"
    and blks: "unat (total_blks s) \<le> 0x2000"
    and none: "find_bmt fuel (v2_bufsz 0x2000 s)
        (mtk_bmt_v2_setup dt_pool_size dt_oob_offset None s
           \<lparr>bbt_buf := replicate (unat (v2_bufsz 0x2000 s)) 0xff\<rparr>)
        (total_blks s - 1) = Some (False, t)"
  shows "unat (v2_bufsz 0x2000 s) < 4 + 0x2000 * 2 + 0x2000 * 4
    \<and> mtk_bmt_init_v2 fuel dt_pool_size dt_oob_offset None True s = None"
proof
  show small: "unat (v2_bufsz 0x2000 s) < 4 + 0x2000 * 2 + 0x2000 * 4"
    using pg unfolding v2_bufsz_def round_up_def by (elim insertE emptyE) simp_all
  let ?s1 = "mtk_bmt_v2_setup dt_pool_size dt_oob_offset None s"
  have s1: "table_size ?s1 = 0x2000" "total_blks ?s1 = total_blks s"
    by (simp_all add: mtk_bmt_v2_setup_def Let_def)
  have t: "table_size t = 0x2000" "length (bbt_buf t) = unat (v2_bufsz 0x2000 s)" "total_blks t = total_blks s"
    using find_bmt_frame [OF none] s1 by simp_all
  have "unat (ucast (total_blks s) :: u32) = unat (total_blks s)"
    using blks by (intro unat_ucast_small) simp
  then have few: "\<not> ucast (total_blks s) > (0x2000 + 0x2000 * 2 div 100 :: u32)"
    using blks by (simp add: word_less_nat_alt)
  show "mtk_bmt_init_v2 fuel dt_pool_size dt_oob_offset None True s = None"
    using none few small by (simp add: mtk_bmt_init_v2_def s1 t bmt_tbl_def Let_def)
qed

text \<open>A device on which every read fails.\<close>

definition dead_ops :: "unit mtd_ops" where
  "dead_ops = quiet_ops \<lparr>op_read_oob := \<lambda>d from len off m. (- EIO, [], [], d)\<rparr>"

theorem mtk_bmt_init_v2_overruns_witness:
  "mtk_bmt_init_v2 (Suc (Suc 0)) (Some 1) None None True
     (demo_bmtd dead_ops () \<lparr>pg_size := 2048, total_blks := 84\<rparr>) = None"
proof -
  let ?s = "demo_bmtd dead_ops () \<lparr>pg_size := 2048, total_blks := 84\<rparr>"
  let ?s1 = "mtk_bmt_v2_setup (Some 1) None None ?s \<lparr>bbt_buf := replicate (unat (v2_bufsz 0x2000 ?s)) 0xff\<rparr>"
  have lba: "pool_lba ?s1 = 83" by (simp add: mtk_bmt_v2_setup_def Let_def demo_bmtd_def)
  have tot: "total_blks ?s - 1 = 83" by code_simp
  have rd: "bbt_nand_read ?s1 p n m = (- EIO, [], [], ?s1)" for p n m
    by (simp add: bbt_nand_read_def lower_read_def mtk_bmt_v2_setup_def Let_def demo_bmtd_def dead_ops_def
        quiet_ops_def)
  have "buf_put b 0 [] = b" for b :: "u8 list" by (simp add: buf_put_def)
  then have "find_bmt (Suc (Suc 0)) (v2_bufsz 0x2000 ?s) ?s1 (total_blks ?s - 1) = Some (False, ?s1)"
    unfolding tot by (simp add: lba rd Let_def)
  note o = mtk_bmt_init_v2_overruns [OF _ _ this]
  show ?thesis
  proof (rule conjunct2 [OF o])
    have "pg_size ?s = 2048" "total_blks ?s = 84" by code_simp+
    then show "pg_size ?s \<in> {512, 1024, 2048, 4096, 8192, 16384}" "unat (total_blks ?s) \<le> 0x2000"
      by simp_all
  qed
qed

section \<open>The backend contract\<close>

lemma get_mapping_v2_device_step:
  assumes "device_step s t"
  shows "get_mapping_block_index_v2 t = get_mapping_block_index_v2 s"
proof
  fix block
  note f = device_step_fields [OF assms]
  show "get_mapping_block_index_v2 t block = get_mapping_block_index_v2 s block"
    by (simp add: get_mapping_block_index_v2_def mapping_block_in_range_cong [OF f(19,12,16)]
        entries_device [OF assms] f(13) split: option.split)
qed

lemma remap_block_v2_frame:
  assumes "remap_block_v2 s b m n = (ok, t)"
  shows "geometry t = geometry s \<and> length (bbt_buf t) = length (bbt_buf s)"
proof (cases rule: find_valid_block_in_pool_cases [of s])
  case 1
  then show ?thesis using assms by (simp add: remap_block_v2_def)
next
  case (2 p)
  let ?s1 = "set_bmt_mapped s p NORMAL_MAPPED"
  show ?thesis
  proof (cases "bmt_block ?s1 p = 0")
    case True
    then show ?thesis using assms 2(4) by (auto simp: remap_block_v2_def frame_simps)
  next
    case False
    let ?s2 = "set_bb_tbl ?s1 (unat b) (bmt_block ?s1 p)"
    obtain r s3 where er: "bbt_nand_erase ?s2 (bmt_block ?s1 p) = (r, s3)" by fastforce
    obtain r' s4 where cp: "(if n > 0 then bbt_nand_copy s3 (bmt_block ?s1 p) m n else (0, s3)) = (r', s4)"
      by fastforce
    obtain k s5 where up: "upload_bmt s4 (uint (bmt_blk_idx s4)) = (k, s5)" by fastforce
    have t: "t = s5\<lparr>bmt_blk_idx := k\<rparr>"
      using assms 2(4) False er cp up by (auto simp: remap_block_v2_def Let_def split: if_splits)
    have "device_step ?s2 s4"
      using bbt_nand_erase_step [OF er] cp
      by (auto split: if_splits dest: bbt_nand_copy_step intro: device_step_trans)
    then have "same_tables ?s2 s5"
      using upload_bmt_same [OF up] same_tables_device same_tables_trans by metis
    moreover have "geometry t = geometry s5" "bbt_buf t = bbt_buf s5" by (simp_all add: t geometry_def)
    ultimately show ?thesis by (simp add: same_tables_def frame_simps)
  qed
qed

interpretation v2: bmt_backend mtk_bmt_v2_ops "\<lambda>s. length (bbt_buf s) = L" for L
proof unfold_locales
  fix s t :: "('a, 'b) bmtd_scheme" and b m :: u16 and n :: int and ok
  show "geometry t = geometry s" if "length (bbt_buf s) = L" and "remap_block mtk_bmt_v2_ops s b m n = Some (ok, t)"
    using that remap_block_v2_frame by (fastforce simp: mtk_bmt_v2_ops_def)
  show "get_mapping_block mtk_bmt_v2_ops t = get_mapping_block mtk_bmt_v2_ops s" if "device_step s t"
    using that by (simp add: mtk_bmt_v2_ops_def get_mapping_v2_device_step)
  show "length (bbt_buf t) = L" if "device_step s t" "length (bbt_buf s) = L"
    using that by (simp add: device_step_fields(7) [OF that(1)])
  show "length (bbt_buf t) = L"
    if "length (bbt_buf s) = L" "remap_block mtk_bmt_v2_ops s b m n = Some (ok, t)"
    using that remap_block_v2_frame [of s b m n ok t] by (simp add: mtk_bmt_v2_ops_def)
  show "remap_block mtk_bmt_v2_ops s b m n \<noteq> None" by (simp add: mtk_bmt_v2_ops_def)
qed

end
