(* ===== verification/Nmbm_State.thy ===== *)
theory Nmbm_State
  imports Bmt_Core Block_Marks Le_Bytes
begin

text \<open>
  The state of the NMBM backend, \<^verbatim>\<open>drivers/mtd/nand/mtk_bmt_nmbm.c\<close>, and its lowest layers:
  the on-flash structures with their checksum, the page and block accesses with retries,
  the table of block states, and the walks over good blocks.

  The kernel's \<open>crc32_le\<close> is not part of the repository. It is the argument \<open>crc\<close> of the
  definitions that use it.
\<close>

section \<open>Structures\<close>

type_synonym crc32 = "u32 \<Rightarrow> u8 list \<Rightarrow> u32"

abbreviation (input) NMBM_MAGIC_SIGNATURE :: u32 where "NMBM_MAGIC_SIGNATURE \<equiv> 0x304d4d4e"
abbreviation (input) NMBM_MAGIC_INFO_TABLE :: u32 where "NMBM_MAGIC_INFO_TABLE \<equiv> 0x314d4d4e"
abbreviation (input) NMBM_VER :: u32 where "NMBM_VER \<equiv> 1"
abbreviation (input) NMBM_TRY_COUNT :: nat where "NMBM_TRY_COUNT \<equiv> 3"
abbreviation (input) NMBM_MGMT_DIV :: u32 where "NMBM_MGMT_DIV \<equiv> 16"

abbreviation (input) BLOCK_ST_BAD :: u32 where "BLOCK_ST_BAD \<equiv> 0"
abbreviation (input) BLOCK_ST_NEED_REMAP :: u32 where "BLOCK_ST_NEED_REMAP \<equiv> 2"
abbreviation (input) BLOCK_ST_GOOD :: u32 where "BLOCK_ST_GOOD \<equiv> 3"

record nmbm_header =
  h_magic :: u32
  h_version :: u32
  h_size :: u32
  h_checksum :: u32

text \<open>The last seven bytes are the array \<open>padding\<close> and the alignment at the end.\<close>

record nmbm_signature =
  sg_header :: nmbm_header
  sg_nand_size :: u64
  sg_block_size :: u32
  sg_page_size :: u32
  sg_spare_size :: u32
  sg_mgmt_start_pb :: u32
  sg_max_try_count :: u8
  sg_padding :: "u8 list"

record nmbm_info_table_header =
  it_header :: nmbm_header
  it_write_count :: u32
  it_state_table_off :: u32
  it_mapping_table_off :: u32
  it_padding :: u32

text \<open>
  \<open>struct nmbm_instance\<close>, as the backend data of the descriptor. \<open>page_cache\<close> is the
  descriptor's \<open>data_buf\<close>, as the code sets it; the entries of \<open>block_mapping\<close>, signed in C,
  are words that are read with \<open>sint\<close> where the code compares them as signed.
\<close>

record 'd nmbm = "'d bmtd" +
  rawpage_size :: u32
  rawblock_size :: u32
  rawchip_size :: u32
  signature :: nmbm_signature
  info_table_cache :: "u8 list"
  info_table_size :: u32
  info_table_spare_blocks :: u32
  info_table :: nmbm_info_table_header
  block_state :: "u32 list"
  block_state_changed :: u32
  state_table_size :: u32
  block_mapping :: "u32 list"
  block_mapping_changed :: u32
  mapping_table_size :: u32
  protected :: bool
  block_count :: u32
  data_block_count :: u32
  mgmt_start_ba :: u32
  main_table_ba :: u32
  backup_table_ba :: u32
  mapping_blocks_ba :: u32
  mapping_blocks_top_ba :: u32
  signature_ba :: u32
  max_ratio :: u32
  max_reserved_blocks :: u32
  empty_page_ecc_ok :: bool
  force_create :: bool

definition header_bytes :: "nmbm_header \<Rightarrow> u8 list" where
  "header_bytes h = le_bytes 4 (h_magic h) @ le_bytes 4 (h_version h) @ le_bytes 4 (h_size h)
     @ le_bytes 4 (h_checksum h)"

definition header_of_bytes :: "u8 list \<Rightarrow> nmbm_header" where
  "header_of_bytes b =
     \<lparr>h_magic = rd32 b 0, h_version = rd32 b 4, h_size = rd32 b 8, h_checksum = rd32 b 12\<rparr>"

definition signature_bytes :: "nmbm_signature \<Rightarrow> u8 list" where
  "signature_bytes sg = header_bytes (sg_header sg) @ le_bytes 8 (sg_nand_size sg)
     @ le_bytes 4 (sg_block_size sg) @ le_bytes 4 (sg_page_size sg) @ le_bytes 4 (sg_spare_size sg)
     @ le_bytes 4 (sg_mgmt_start_pb sg) @ [sg_max_try_count sg] @ sg_padding sg"

definition signature_of_bytes :: "u8 list \<Rightarrow> nmbm_signature" where
  "signature_of_bytes b =
     \<lparr>sg_header = header_of_bytes b, sg_nand_size = rd64 b 16, sg_block_size = rd32 b 24,
      sg_page_size = rd32 b 28, sg_spare_size = rd32 b 32, sg_mgmt_start_pb = rd32 b 36,
      sg_max_try_count = b ! 40, sg_padding = rd_bytes b 41 7\<rparr>"

definition info_header_bytes :: "nmbm_info_table_header \<Rightarrow> u8 list" where
  "info_header_bytes it = header_bytes (it_header it) @ le_bytes 4 (it_write_count it)
     @ le_bytes 4 (it_state_table_off it) @ le_bytes 4 (it_mapping_table_off it)
     @ le_bytes 4 (it_padding it)"

definition info_header_of_bytes :: "u8 list \<Rightarrow> nmbm_info_table_header" where
  "info_header_of_bytes b =
     \<lparr>it_header = header_of_bytes b, it_write_count = rd32 b 16, it_state_table_off = rd32 b 20,
      it_mapping_table_off = rd32 b 24, it_padding = rd32 b 28\<rparr>"

abbreviation (input) sizeof_header :: u32 where "sizeof_header \<equiv> 16"
abbreviation (input) sizeof_signature :: u32 where "sizeof_signature \<equiv> 48"
abbreviation (input) sizeof_info_table :: u32 where "sizeof_info_table \<equiv> 32"

section \<open>Checksums\<close>

text \<open>The buffer is passed to \<open>crc32_le\<close> in pieces of at most \<open>UINT_MAX\<close> bytes.\<close>

function nmbm_crc32 :: "crc32 \<Rightarrow> u32 \<Rightarrow> u8 list \<Rightarrow> u32" where
  "nmbm_crc32 crc crcval buf =
     (if buf = [] then crcval
      else nmbm_crc32 crc (crc crcval (take 4294967295 buf)) (drop 4294967295 buf))"
  by pat_completeness auto
termination
  by (relation "measure (\<lambda>(crc, v, buf). length buf)") auto

declare nmbm_crc32.simps [simp del]

definition nmbm_check_header :: "crc32 \<Rightarrow> u8 list \<Rightarrow> u32 \<Rightarrow> bool" where
  "nmbm_check_header crc dat sz \<longleftrightarrow>
     (let hsize = rd32 dat 8 in
      if hsize > sz then False
      else
        let nhdr = wr32 (take 16 dat) 12 0;
            sum1 = nmbm_crc32 crc 0 nhdr;
            sum2 = (if hsize > sizeof_header
                    then nmbm_crc32 crc sum1 (take (unat (hsize - sizeof_header)) (drop 16 dat))
                    else sum1)
        in rd32 dat 12 = sum2)"

definition nmbm_update_checksum :: "crc32 \<Rightarrow> u8 list \<Rightarrow> u8 list" where
  "nmbm_update_checksum crc dat =
     (let d0 = wr32 dat 12 0
      in wr32 d0 12 (nmbm_crc32 crc 0 (take (unat (rd32 d0 8)) d0)))"

section \<open>Addresses and sizes\<close>

definition ba2addr :: "('d, 'z) bmtd_scheme \<Rightarrow> u32 \<Rightarrow> u64" where
  "ba2addr s ba = push_bit (bshift s) (ucast ba)"

definition size2blk :: "('d, 'z) bmtd_scheme \<Rightarrow> u64 \<Rightarrow> u32" where
  "size2blk s sz = ucast (drop_bit (bshift s) (sz + ucast (blk_size s) - 1))"

definition nmbm_get_spare_block_count :: "u32 \<Rightarrow> u32" where
  "nmbm_get_spare_block_count n = max ((n + 2 div 2) div 2 * 1) 2"

section \<open>Page and block accesses with retries\<close>

text \<open>
  The page accesses are only used without OOB data. A read gives the return value and the
  contents of the buffer \<open>buf\<close> that it was asked to fill.
\<close>

fun nmbm_read_tries ::
  "nat \<Rightarrow> ('d, 'z) bmtd_scheme \<Rightarrow> u64 \<Rightarrow> u8 list \<Rightarrow> int \<Rightarrow> int \<times> u8 list \<times> ('d, 'z) bmtd_scheme" where
  "nmbm_read_tries 0 s addr buf ret = (ret, buf, s)"
| "nmbm_read_tries (Suc n) s addr buf ret =
     (case lower_read s addr (ucast (pg_size s)) 0 0 of
        (r, dat, _, s1) \<Rightarrow>
          let buf1 = buf_put buf 0 dat in
          if r = - EUCLEAN then (sint (min (bitflip_threshold s1 + 1) (ecc_strength s1)), buf1, s1)
          else if r \<ge> 0 then (0, buf1, s1)
          else nmbm_read_tries n s1 addr buf1 r)"

definition nmbm_read_phys_page ::
  "('d, 'z) bmtd_scheme \<Rightarrow> u64 \<Rightarrow> u8 list \<Rightarrow> int \<times> u8 list \<times> ('d, 'z) bmtd_scheme" where
  "nmbm_read_phys_page s addr buf = nmbm_read_tries NMBM_TRY_COUNT s addr buf 0"

fun nmbm_write_tries ::
  "nat \<Rightarrow> ('d, 'z) bmtd_scheme \<Rightarrow> u64 \<Rightarrow> u8 list \<Rightarrow> bool \<times> ('d, 'z) bmtd_scheme" where
  "nmbm_write_tries 0 s addr dat = (False, s)"
| "nmbm_write_tries (Suc n) s addr dat =
     (case lower_write s addr (take (unat (pg_size s)) dat) 0 [] of
        (r, _, _, s1) \<Rightarrow> if r = 0 then (True, s1) else nmbm_write_tries n s1 addr dat)"

definition nmbm_write_phys_page ::
  "('d, 'z) bmtd_scheme \<Rightarrow> u64 \<Rightarrow> u8 list \<Rightarrow> bool \<times> ('d, 'z) bmtd_scheme" where
  "nmbm_write_phys_page s addr dat = nmbm_write_tries NMBM_TRY_COUNT s addr dat"

fun nmbm_erase_tries :: "nat \<Rightarrow> ('d, 'z) bmtd_scheme \<Rightarrow> u64 \<Rightarrow> bool \<times> ('d, 'z) bmtd_scheme" where
  "nmbm_erase_tries 0 s addr = (False, s)"
| "nmbm_erase_tries (Suc n) s addr =
     (case lower_erase s addr (ucast (erasesize s)) of
        (r, s1) \<Rightarrow> if r = 0 then (True, s1) else nmbm_erase_tries n s1 addr)"

definition nmbm_erase_phys_block ::
  "('d, 'z) bmtd_scheme \<Rightarrow> u64 \<Rightarrow> bool \<times> ('d, 'z) bmtd_scheme" where
  "nmbm_erase_phys_block s addr = nmbm_erase_tries NMBM_TRY_COUNT s addr"

definition nmbm_check_bad_phys_block ::
  "('d, 'z) bmtd_scheme \<Rightarrow> u32 \<Rightarrow> bool \<times> ('d, 'z) bmtd_scheme" where
  "nmbm_check_bad_phys_block s ba = (case lower_isbad s (ba2addr s ba) of (r, s1) \<Rightarrow> (r \<noteq> 0, s1))"

definition nmbm_mark_phys_bad_block ::
  "('d, 'z) bmtd_scheme \<Rightarrow> u32 \<Rightarrow> int \<times> ('d, 'z) bmtd_scheme" where
  "nmbm_mark_phys_bad_block s ba = lower_markbad s (ba2addr s ba)"

section \<open>Block states\<close>

definition state_shift :: "u32 \<Rightarrow> nat" where
  "state_shift ba = unat (ba mod 16) * 2"

definition nmbm_get_block_state_raw :: "u32 list \<Rightarrow> u32 \<Rightarrow> u32" where
  "nmbm_get_block_state_raw tbl ba = drop_bit (state_shift ba) (tbl ! unat (ba div 16)) AND 3"

definition nmbm_get_block_state :: "('d, 'z) nmbm_scheme \<Rightarrow> u32 \<Rightarrow> u32" where
  "nmbm_get_block_state s ba = nmbm_get_block_state_raw (block_state s) ba"

definition nmbm_set_block_state ::
  "('d, 'z) nmbm_scheme \<Rightarrow> u32 \<Rightarrow> u32 \<Rightarrow> bool \<times> ('d, 'z) nmbm_scheme" where
  "nmbm_set_block_state s ba st =
     (let i = unat (ba div 16);
          shift = state_shift ba;
          orig = drop_bit shift (block_state s ! i) AND 3;
          st = st AND 3;
          uv = block_state s ! i AND NOT (push_bit shift 3) OR push_bit shift st;
          s1 = s\<lparr>block_state := (block_state s)[i := uv]\<rparr>
      in if orig \<noteq> st then (True, s1\<lparr>block_state_changed := block_state_changed s1 + 1\<rparr>)
         else (False, s1))"

section \<open>Walks over good blocks\<close>

function walk_asc_loop :: "('d, 'z) nmbm_scheme \<Rightarrow> u32 \<Rightarrow> int \<Rightarrow> u32 \<Rightarrow> u32 option" where
  "walk_asc_loop s ba nblock limit =
     (if ba < limit then
        let nblock = (if nmbm_get_block_state s ba = BLOCK_ST_GOOD then nblock - 1 else nblock)
        in if nblock < 0 then Some ba else walk_asc_loop s (ba + 1) nblock limit
      else None)"
  by pat_completeness auto
termination
  by (relation "measure (\<lambda>(s, ba, nblock, limit). unat limit - unat ba)")
    (auto simp: unat_add_one_less word_less_nat_alt)

declare walk_asc_loop.simps [simp del]

definition nmbm_block_walk_asc :: "('d, 'z) nmbm_scheme \<Rightarrow> u32 \<Rightarrow> u32 \<Rightarrow> u32 \<Rightarrow> u32 option" where
  "nmbm_block_walk_asc s ba n limit =
     walk_asc_loop s ba (sint n) (if limit \<ge> block_count s then block_count s - 1 else limit)"

function walk_desc_loop :: "('d, 'z) nmbm_scheme \<Rightarrow> u32 \<Rightarrow> int \<Rightarrow> u32 \<Rightarrow> u32 option" where
  "walk_desc_loop s ba nblock limit =
     (if ba > limit then
        let nblock = (if nmbm_get_block_state s ba = BLOCK_ST_GOOD then nblock - 1 else nblock)
        in if nblock < 0 then Some ba else walk_desc_loop s (ba - 1) nblock limit
      else None)"
  by pat_completeness auto
termination
proof (relation "measure (\<lambda>(s, ba, nblock, limit). unat ba)")
  fix ba limit :: u32 assume "ba > limit"
  then show "((s, ba - 1, n, limit), (s, ba, m, limit)) \<in> measure (\<lambda>(s, ba, nblock, limit). unat ba)"
    for s :: "('d, 'z) nmbm_scheme" and n m
    using unat_minus_one_greater [of limit ba] by simp
qed simp

declare walk_desc_loop.simps [simp del]

definition nmbm_block_walk_desc :: "('d, 'z) nmbm_scheme \<Rightarrow> u32 \<Rightarrow> u32 \<Rightarrow> u32 \<Rightarrow> u32 option" where
  "nmbm_block_walk_desc s ba n limit =
     walk_desc_loop s ba (sint n) (if limit \<ge> block_count s then block_count s - 1 else limit)"

definition nmbm_block_walk :: "('d, 'z) nmbm_scheme \<Rightarrow> bool \<Rightarrow> u32 \<Rightarrow> u32 \<Rightarrow> u32 \<Rightarrow> u32 option" where
  "nmbm_block_walk s ascending ba n limit =
     (if ascending then nmbm_block_walk_asc s ba n limit else nmbm_block_walk_desc s ba n limit)"

function try_reserve_loop ::
  "('d, 'z) nmbm_scheme \<Rightarrow> u32 \<Rightarrow> int \<Rightarrow> int \<Rightarrow> u32 \<Rightarrow> u32 option" where
  "try_reserve_loop s ba nblocks min_count limit =
     (if nblocks \<ge> min_count then
        case nmbm_block_walk s True ba (word_of_int nblocks) limit of
          Some nba \<Rightarrow> Some nba
        | None \<Rightarrow> try_reserve_loop s ba (nblocks - 1) min_count limit
      else None)"
  by pat_completeness auto
termination
  by (relation "measure (\<lambda>(s, ba, n, m, limit). nat (n - m + 1))") auto

declare try_reserve_loop.simps [simp del]

definition nmbm_try_reserve_blocks ::
  "('d, 'z) nmbm_scheme \<Rightarrow> u32 \<Rightarrow> u32 \<Rightarrow> int \<Rightarrow> u32 \<Rightarrow> u32 option" where
  "nmbm_try_reserve_blocks s ba n min_count limit = try_reserve_loop s ba (sint n) min_count limit"

section \<open>What the accesses leave alone\<close>

lemma nmbm_device_step:
  assumes "device_step s (t :: ('d, 'z) nmbm_scheme)"
  shows "rawpage_size t = rawpage_size s" "signature t = signature s"
    "info_table_cache t = info_table_cache s" "info_table_size t = info_table_size s"
    "info_table_spare_blocks t = info_table_spare_blocks s" "info_table t = info_table s"
    "block_state t = block_state s" "block_state_changed t = block_state_changed s"
    "state_table_size t = state_table_size s" "block_mapping t = block_mapping s"
    "block_mapping_changed t = block_mapping_changed s" "mapping_table_size t = mapping_table_size s"
    "protected t = protected s" "block_count t = block_count s"
    "data_block_count t = data_block_count s" "mgmt_start_ba t = mgmt_start_ba s"
    "main_table_ba t = main_table_ba s" "backup_table_ba t = backup_table_ba s"
    "mapping_blocks_ba t = mapping_blocks_ba s" "mapping_blocks_top_ba t = mapping_blocks_top_ba s"
    "signature_ba t = signature_ba s" "max_ratio t = max_ratio s"
    "max_reserved_blocks t = max_reserved_blocks s" "empty_page_ecc_ok t = empty_page_ecc_ok s"
    "force_create t = force_create s"
  using assms by (cases s; cases t; simp add: device_step_def)+

lemma nmbm_read_tries_step: "nmbm_read_tries n s addr buf r0 = (r, b, t) \<Longrightarrow> device_step s t"
proof (induction n arbitrary: s buf r0)
  case 0
  then show ?case by simp
next
  case (Suc n)
  obtain r1 dat oob s1 where rd: "lower_read s addr (ucast (pg_size s)) 0 0 = (r1, dat, oob, s1)"
    by (metis prod_cases4)
  from Suc.prems Suc.IH [of s1] lower_read_step [OF rd] show ?case
    by (auto simp: rd Let_def split: if_splits intro: device_step_trans)
qed

lemma nmbm_read_phys_page_step: "nmbm_read_phys_page s addr buf = (r, b, t) \<Longrightarrow> device_step s t"
  by (auto simp: nmbm_read_phys_page_def dest: nmbm_read_tries_step)

lemma length_nmbm_read_tries: "nmbm_read_tries n s addr buf r0 = (r, b, t) \<Longrightarrow> length b = length buf"
  by (induction n arbitrary: s buf r0) (auto simp: Let_def split: prod.splits if_splits)

lemma nmbm_write_tries_step: "nmbm_write_tries n s addr dat = (ok, t) \<Longrightarrow> device_step s t"
proof (induction n arbitrary: s)
  case 0
  then show ?case by simp
next
  case (Suc n)
  obtain r i j s1 where wr: "lower_write s addr (take (unat (pg_size s)) dat) 0 [] = (r, i, j, s1)"
    by (metis prod_cases4)
  from Suc.prems Suc.IH [of s1] lower_write_step [OF wr] show ?case
    by (auto simp: wr split: if_splits intro: device_step_trans)
qed

lemma nmbm_write_phys_page_step: "nmbm_write_phys_page s addr dat = (ok, t) \<Longrightarrow> device_step s t"
  by (auto simp: nmbm_write_phys_page_def dest: nmbm_write_tries_step)

lemma nmbm_erase_tries_step: "nmbm_erase_tries n s addr = (ok, t) \<Longrightarrow> device_step s t"
proof (induction n arbitrary: s)
  case 0
  then show ?case by simp
next
  case (Suc n)
  obtain r s1 where er: "lower_erase s addr (ucast (erasesize s)) = (r, s1)" by fastforce
  from Suc.prems Suc.IH [of s1] lower_erase_step [OF er] show ?case
    by (auto simp: er split: if_splits intro: device_step_trans)
qed

lemma nmbm_erase_phys_block_step: "nmbm_erase_phys_block s addr = (ok, t) \<Longrightarrow> device_step s t"
  by (auto simp: nmbm_erase_phys_block_def dest: nmbm_erase_tries_step)

lemma nmbm_check_bad_step: "nmbm_check_bad_phys_block s ba = (b, t) \<Longrightarrow> device_step s t"
  by (auto simp: nmbm_check_bad_phys_block_def split: prod.splits dest: lower_isbad_step)

lemma nmbm_mark_bad_step: "nmbm_mark_phys_bad_block s ba = (r, t) \<Longrightarrow> device_step s t"
  by (auto simp: nmbm_mark_phys_bad_block_def dest: lower_markbad_step)

section \<open>The table of block states\<close>

definition state_covers :: "('d, 'z) nmbm_scheme \<Rightarrow> u32 \<Rightarrow> bool" where
  "state_covers s ba \<longleftrightarrow> unat (ba div 16) < length (block_state s)"

lemma state_shift_less: "state_shift ba \<le> 30"
proof -
  have "unat (ba mod 16) < 16" by (simp add: unat_mod)
  then show ?thesis by (simp add: state_shift_def)
qed

lemma state_shift_diff:
  assumes "a div 16 = b div 16" and "(a :: u32) \<noteq> b"
  shows "state_shift a + 2 \<le> state_shift b \<or> state_shift b + 2 \<le> state_shift a"
proof -
  have "a mod 16 \<noteq> b mod 16" using assms by (metis word_mod_div_equality)
  then have "unat (a mod 16) \<noteq> unat (b mod 16)" by (simp add: word_unat_eq_iff)
  then show ?thesis by (auto simp: state_shift_def)
qed

lemma bit_3_int: "bit (3 :: int) n \<longleftrightarrow> n < 2"
proof -
  have "(3 :: int) = mask 2" by (simp add: mask_eq_exp_minus_1)
  then show ?thesis by (simp only: bit_mask_iff possible_bit_int simp_thms)
qed

text \<open>A two-bit field after one has been replaced.\<close>

lemma field_set_same:
  assumes "k \<le> (30 :: nat)"
  shows "drop_bit k ((w :: u32) AND NOT (push_bit k 3) OR push_bit k (v AND 3)) AND 3 = v AND 3"
proof (rule bit_word_eqI)
  fix n assume "n < LENGTH(32)"
  show "bit (drop_bit k (w AND NOT (push_bit k 3) OR push_bit k (v AND 3)) AND 3) n = bit (v AND 3) n"
    using assms
    by (cases "n < 2")
      (auto simp: bit_and_iff bit_or_iff bit_not_iff bit_drop_bit_eq bit_push_bit_iff bit_3_int possible_bit_def)
qed

lemma field_set_other:
  assumes "k + 2 \<le> j \<or> j + 2 \<le> k"
  shows "drop_bit j ((w :: u32) AND NOT (push_bit k 3) OR push_bit k (v AND 3)) AND 3 = drop_bit j w AND 3"
proof (rule bit_word_eqI)
  fix n assume "n < LENGTH(32)"
  have out: "\<not> (k \<le> j + n \<and> j + n - k < 2)" if "n < 2" using assms that by linarith
  show "bit (drop_bit j (w AND NOT (push_bit k 3) OR push_bit k (v AND 3)) AND 3) n
      = bit (drop_bit j w AND 3) n"
  proof (cases "n < 2 \<and> j + n < 32")
    case True
    then show ?thesis
      using out
      by (auto simp: bit_and_iff bit_or_iff bit_not_iff bit_drop_bit_eq bit_push_bit_iff bit_3_int possible_bit_def)
  next
    case False
    then show ?thesis
      by (auto simp: bit_and_iff bit_or_iff bit_drop_bit_eq bit_push_bit_iff bit_3_int possible_bit_def
          dest: bit_imp_le_length)
  qed
qed

lemma block_state_set:
  "block_state (snd (nmbm_set_block_state s ba st)) =
     (block_state s)[unat (ba div 16) :=
       block_state s ! unat (ba div 16) AND NOT (push_bit (state_shift ba) 3)
       OR push_bit (state_shift ba) (st AND 3)]"
  by (simp add: nmbm_set_block_state_def Let_def)

lemma get_set_block_state_same:
  "state_covers s ba \<Longrightarrow> nmbm_get_block_state (snd (nmbm_set_block_state s ba st)) ba = st AND 3"
  unfolding nmbm_get_block_state_def nmbm_get_block_state_raw_def block_state_set state_covers_def
  by (simp only: nth_list_update_eq field_set_same [OF state_shift_less])

lemma get_set_block_state_other:
  assumes "state_covers s ba" and "c \<noteq> ba"
  shows "nmbm_get_block_state (snd (nmbm_set_block_state s ba st)) c = nmbm_get_block_state s c"
proof (cases "c div 16 = ba div 16")
  case True
  then have "state_shift ba + 2 \<le> state_shift c \<or> state_shift c + 2 \<le> state_shift ba"
    using state_shift_diff [OF _ assms(2)] by auto
  then show ?thesis
    using assms(1)
    unfolding nmbm_get_block_state_def nmbm_get_block_state_raw_def block_state_set state_covers_def True
    by (simp only: nth_list_update_eq field_set_other)
next
  case False
  then have "unat (c div 16) \<noteq> unat (ba div 16)" by (simp add: word_unat_eq_iff)
  then show ?thesis
    by (simp add: nmbm_get_block_state_def nmbm_get_block_state_raw_def block_state_set)
qed

lemma state_covers_set [simp]:
  "state_covers (snd (nmbm_set_block_state s ba st)) c = state_covers s c"
  by (simp add: state_covers_def block_state_set)

interpretation nmbm_marks: block_marks "\<lambda>s ba. nmbm_get_block_state s ba = BLOCK_ST_BAD"
  "\<lambda>s ba. snd (nmbm_set_block_state s ba BLOCK_ST_BAD)" state_covers
  by unfold_locales (simp_all add: get_set_block_state_same get_set_block_state_other)

lemma set_block_state_props:
  assumes "state_covers s ba" and "nmbm_set_block_state s ba st = (changed, t)"
  shows "nmbm_get_block_state t ba = st AND 3
    \<and> (\<forall>c. c \<noteq> ba \<longrightarrow> nmbm_get_block_state t c = nmbm_get_block_state s c)
    \<and> (changed \<longleftrightarrow> nmbm_get_block_state s ba \<noteq> st AND 3)
    \<and> block_state_changed t = block_state_changed s + (if changed then 1 else 0)
    \<and> length (block_state t) = length (block_state s)"
proof -
  have t: "t = snd (nmbm_set_block_state s ba st)" using assms(2) by simp
  have "changed \<longleftrightarrow> nmbm_get_block_state s ba \<noteq> st AND 3"
    "block_state_changed t = block_state_changed s + (if changed then 1 else 0)"
    using assms(2)
    by (auto simp: nmbm_set_block_state_def nmbm_get_block_state_def nmbm_get_block_state_raw_def Let_def
        split: if_splits)
  then show ?thesis
    using assms(1) get_set_block_state_same get_set_block_state_other
    by (auto simp: t block_state_set)
qed

text \<open>
  The table of block states behaves as an array of two-bit values: setting the state of
  a block gives that state, leaves every other block's state, and counts one change exactly
  when the state was a different one.
\<close>

theorem nmbm_set_block_state_spec:
  assumes "state_covers s ba" and "nmbm_set_block_state s ba st = (changed, t)"
  shows "nmbm_get_block_state t ba = st AND 3
    \<and> (\<forall>c. c \<noteq> ba \<longrightarrow> nmbm_get_block_state t c = nmbm_get_block_state s c)
    \<and> (changed \<longleftrightarrow> nmbm_get_block_state s ba \<noteq> st AND 3)
    \<and> block_state_changed t = block_state_changed s + (if changed then 1 else 0)
    \<and> length (block_state t) = length (block_state s)"
  using assms by (rule set_block_state_props)

text \<open>A chip for the examples: sixteen blocks of four pages of sixteen bytes.\<close>

definition demo_nmbm :: "'d mtd_ops \<Rightarrow> 'd \<Rightarrow> 'd nmbm" where
  "demo_nmbm drv d =
     \<lparr>lower_ops = drv, lower = d, mtd_size = 1024, erasesize = 64, oobsize = 4,
      bitflip_threshold = 0, ecc_strength = 1,
      bbt_buf = [], data_buf = replicate 20 0xff, table_size = 0,
      pg_size = 16, blk_size = 64, pg_shift = 4, blk_shift = 6,
      pool_lba = 0, pool_pba = 0, bb_max = 0, total_blks = 16, bmt_blk_idx = 0, bmt_pgs = 1,
      remap_range = None, oob_offset = 0,
      rawpage_size = 20, rawblock_size = 80, rawchip_size = 1280,
      signature = \<lparr>sg_header = \<lparr>h_magic = 0, h_version = 0, h_size = 0, h_checksum = 0\<rparr>,
                   sg_nand_size = 0, sg_block_size = 0, sg_page_size = 0, sg_spare_size = 0,
                   sg_mgmt_start_pb = 0, sg_max_try_count = 0, sg_padding = replicate 7 0\<rparr>,
      info_table_cache = replicate 112 0xff, info_table_size = 112, info_table_spare_blocks = 2,
      info_table = \<lparr>it_header = \<lparr>h_magic = 0, h_version = 0, h_size = 0, h_checksum = 0\<rparr>, it_write_count = 0,
                    it_state_table_off = 32, it_mapping_table_off = 48, it_padding = 0\<rparr>,
      block_state = [0xffffffff], block_state_changed = 0, state_table_size = 4,
      block_mapping = replicate 16 0xffffffff, block_mapping_changed = 0, mapping_table_size = 64,
      protected = False, block_count = 16, data_block_count = 6, mgmt_start_ba = 6,
      main_table_ba = 0, backup_table_ba = 0, mapping_blocks_ba = 10, mapping_blocks_top_ba = 14,
      signature_ba = 15, max_ratio = 1, max_reserved_blocks = 256, empty_page_ecc_ok = False,
      force_create = True\<rparr>"

theorem nmbm_set_block_state_spec_witness:
  "nmbm_get_block_state (snd (nmbm_set_block_state (demo_nmbm quiet_ops ()) 5 BLOCK_ST_BAD)) 5 = 0
   \<and> nmbm_get_block_state (snd (nmbm_set_block_state (demo_nmbm quiet_ops ()) 5 BLOCK_ST_BAD)) 4 = 3"
proof -
  let ?s = "demo_nmbm quiet_ops ()"
  have c: "state_covers ?s 5" by code_simp
  have g: "nmbm_get_block_state ?s 4 = 3"
    by (simp add: nmbm_get_block_state_def nmbm_get_block_state_raw_def demo_nmbm_def state_shift_def)
  note spec = nmbm_set_block_state_spec [OF c prod.collapse [symmetric], of BLOCK_ST_BAD]
  show ?thesis
  proof
    show "nmbm_get_block_state (snd (nmbm_set_block_state ?s 5 BLOCK_ST_BAD)) 5 = 0"
      using conjunct1 [OF spec] by (simp only: and_zero_eq zero_and_eq)
    have "nmbm_get_block_state (snd (nmbm_set_block_state ?s 5 BLOCK_ST_BAD)) 4 = nmbm_get_block_state ?s 4"
      using conjunct1 [OF conjunct2 [OF spec]] by simp
    then show "nmbm_get_block_state (snd (nmbm_set_block_state ?s 5 BLOCK_ST_BAD)) 4 = 3" using g by simp
  qed
qed

lemma sint_eq_uint_nonneg:
  fixes w :: "'a::len word"
  assumes "0 \<le> sint w"
  shows "sint w = uint w"
proof -
  have "(2 :: int) ^ (LENGTH('a) - 1) \<le> 2 ^ LENGTH('a)" by (intro power_increasing) auto
  then have "sint w < 2 ^ LENGTH('a)" using sint_lt [of w] by linarith
  then show ?thesis using assms uint_sint [of w] by (simp add: take_bit_int_eq_self)
qed

lemma sint_small:
  fixes w :: "'a::len word"
  assumes "unat w < 2 ^ (LENGTH('a) - 1)"
  shows "sint w = int (unat w)"
proof -
  have "int (unat w) < int (2 ^ (LENGTH('a) - 1))" using assms by (simp only: of_nat_less_iff)
  then have u: "uint w < 2 ^ (LENGTH('a) - 1)" unfolding uint_nat by simp
  have "- (2 ^ (LENGTH('a) - 1)) \<le> (0 :: int)" by simp
  then have "- (2 ^ (LENGTH('a) - 1)) \<le> uint w" using uint_ge_0 by (rule order_trans)
  then have "signed_take_bit (LENGTH('a) - 1) (uint w) = uint w"
    using u by (rule signed_take_bit_int_eq_self)
  then show ?thesis unfolding uint_nat [symmetric] by (simp add: sint_uint)
qed

section \<open>The walks as searches in a list\<close>

definition is_good :: "('d, 'z) nmbm_scheme \<Rightarrow> nat \<Rightarrow> bool" where
  "is_good s b \<longleftrightarrow> nmbm_get_block_state s (of_nat b) = BLOCK_ST_GOOD"

lemma walk_asc_loop_spec:
  assumes "0 \<le> n"
  shows "walk_asc_loop s ba n limit =
    (let L = filter (is_good s) [unat ba..<unat limit]
     in if nat n < length L then Some (of_nat (L ! nat n)) else None)"
  using assms
proof (induction s ba n limit rule: walk_asc_loop.induct)
  case (1 s ba n limit)
  show ?case
  proof (cases "ba < limit")
    case False
    then show ?thesis by (simp add: walk_asc_loop.simps [of s ba] word_less_nat_alt)
  next
    case True
    then have up: "[unat ba..<unat limit] = unat ba # [unat (ba + 1)..<unat limit]"
      using unat_add_one_less [OF True] by (simp add: upt_conv_Cons word_less_nat_alt)
    show ?thesis
    proof (cases "is_good s (unat ba)")
      case good: True
      then have g: "nmbm_get_block_state s ba = 3" by (simp add: is_good_def)
      show ?thesis
      proof (cases "n = 0")
        case True
        then show ?thesis using g good \<open>ba < limit\<close> by (simp add: walk_asc_loop.simps [of s ba] up)
      next
        case False
        then have "nat n = Suc (nat (n - 1))" using "1.prems" by simp
        then show ?thesis
          using g good True False "1.prems" "1.IH" [OF True refl]
          by (simp add: walk_asc_loop.simps [of s ba] up Let_def)
      qed
    next
      case False
      then have "nmbm_get_block_state s ba \<noteq> 3" by (simp add: is_good_def)
      then show ?thesis
        using True False "1.prems" "1.IH" [OF True refl]
        by (simp add: walk_asc_loop.simps [of s ba] up Let_def)
    qed
  qed
qed

lemma walk_desc_loop_spec:
  assumes "0 \<le> n"
  shows "walk_desc_loop s ba n limit =
    (let L = filter (is_good s) (rev [Suc (unat limit)..<Suc (unat ba)])
     in if nat n < length L then Some (of_nat (L ! nat n)) else None)"
  using assms
proof (induction s ba n limit rule: walk_desc_loop.induct)
  case (1 s ba n limit)
  show ?case
  proof (cases "limit < ba")
    case False
    then show ?thesis by (simp add: walk_desc_loop.simps [of s ba] word_less_nat_alt)
  next
    case True
    then have down: "rev [Suc (unat limit)..<Suc (unat ba)]
        = unat ba # rev [Suc (unat limit)..<Suc (unat (ba - 1))]"
      using unat_minus_one_greater [OF True] by (simp add: word_less_nat_alt)
    show ?thesis
    proof (cases "is_good s (unat ba)")
      case good: True
      then have g: "nmbm_get_block_state s ba = 3" by (simp add: is_good_def)
      show ?thesis
      proof (cases "n = 0")
        case True
        then show ?thesis using g good \<open>limit < ba\<close> unfolding down by (simp add: walk_desc_loop.simps [of s ba])
      next
        case False
        then have "nat n = Suc (nat (n - 1))" using "1.prems" by simp
        then show ?thesis
          using g good True False "1.prems" "1.IH" [OF True refl] unfolding down
          by (simp add: walk_desc_loop.simps [of s ba] Let_def del: upt_Suc)
      qed
    next
      case False
      then have "nmbm_get_block_state s ba \<noteq> 3" by (simp add: is_good_def)
      then show ?thesis
        using True False "1.prems" "1.IH" [OF True refl] unfolding down
        by (simp add: walk_desc_loop.simps [of s ba] Let_def del: upt_Suc)
    qed
  qed
qed

text \<open>The bound of a walk: at most the last block of the chip, which is not visited.\<close>

definition walk_limit :: "('d, 'z) nmbm_scheme \<Rightarrow> u32 \<Rightarrow> nat" where
  "walk_limit s limit = unat (if limit \<ge> block_count s then block_count s - 1 else limit)"

lemma block_walk_props:
  assumes "0 \<le> sint n"
  shows "nmbm_block_walk s ascending ba n limit =
    (let L = (if ascending then filter (is_good s) [unat ba..<walk_limit s limit]
              else filter (is_good s) (rev [Suc (walk_limit s limit)..<Suc (unat ba)]))
     in if unat n < length L then Some (of_nat (L ! unat n)) else None)"
proof -
  have n: "nat (sint n) = unat n"
    using sint_eq_uint_nonneg [OF assms] by simp
  show ?thesis
    by (cases ascending)
      (simp_all only: nmbm_block_walk_def nmbm_block_walk_asc_def nmbm_block_walk_desc_def walk_limit_def
        walk_asc_loop_spec [OF assms] walk_desc_loop_spec [OF assms] n if_True if_False)
qed

text \<open>
  An ascending walk finds the good block with index \<open>n\<close> among the good blocks from the
  start up to, not including, the limit; a descending walk the same among the good blocks
  from the start down to, not including, the limit. Without so many good blocks they fail.
\<close>

theorem nmbm_block_walk_spec:
  assumes "0 \<le> sint n"
  shows "nmbm_block_walk s ascending ba n limit =
    (let L = (if ascending then filter (is_good s) [unat ba..<walk_limit s limit]
              else filter (is_good s) (rev [Suc (walk_limit s limit)..<Suc (unat ba)]))
     in if unat n < length L then Some (of_nat (L ! unat n)) else None)"
  using assms by (rule block_walk_props)

theorem nmbm_block_walk_spec_witness:
  "nmbm_block_walk (demo_nmbm quiet_ops () \<lparr>block_state := [0xffffcfff]\<rparr>) False 7 1 2 = Some 5"
proof -
  let ?s = "demo_nmbm quiet_ops () \<lparr>block_state := [0xffffcfff]\<rparr>"
  have n: "0 \<le> sint (1 :: u32)" by code_simp
  have "nmbm_block_walk ?s False 7 1 2 =
    (let L = filter (is_good ?s) (rev [Suc (walk_limit ?s 2)..<Suc (unat (7 :: u32))])
     in if unat (1 :: u32) < length L then Some (of_nat (L ! unat (1 :: u32))) else None)"
    using nmbm_block_walk_spec [OF n, of ?s False 7 2] by (simp only: if_False)
  also have "\<dots> = Some 5" by code_simp
  finally show ?thesis .
qed

text \<open>
  A reservation of at most \<open>n\<close> good blocks succeeds whenever there is one good block
  before the limit, and gives the block with index \<open>n\<close>, or the last good block when there
  are fewer.
\<close>

theorem nmbm_try_reserve_blocks_spec:
  assumes "0 \<le> sint n"
  shows "nmbm_try_reserve_blocks s ba n 0 limit =
    (let L = filter (is_good s) [unat ba..<walk_limit s limit]
     in if L = [] then None else Some (of_nat (L ! min (unat n) (length L - 1))))"
proof -
  let ?L = "filter (is_good s) [unat ba..<walk_limit s limit]"
  have "try_reserve_loop s ba (int k) 0 limit =
      (if ?L = [] then None else Some (of_nat (?L ! min k (length ?L - 1))))"
    if "k < 2 ^ 31" for k
    using that
  proof (induction k)
    case 0
    have "nmbm_block_walk s True ba 0 limit = (if 0 < length ?L then Some (of_nat (?L ! 0)) else None)"
      using block_walk_props [of 0 s True ba limit] by (simp add: Let_def)
    then show ?case
      by (simp add: try_reserve_loop.simps [of s ba 0] try_reserve_loop.simps [of s ba "- 1"])
  next
    case (Suc k)
    have u: "unat (word_of_int (int (Suc k)) :: u32) = Suc k"
      using Suc.prems by (subst unat_of_int_small) auto
    have "sint (word_of_int (int (Suc k)) :: u32) = int (unat (word_of_int (int (Suc k)) :: u32))"
      unfolding u using Suc.prems u by (subst sint_small) simp_all
    then have "nmbm_block_walk s True ba (word_of_int (int (Suc k))) limit =
        (if Suc k < length ?L then Some (of_nat (?L ! Suc k)) else None)"
      using block_walk_props [of "word_of_int (int (Suc k))" s True ba limit] u by (simp add: Let_def)
    moreover have "min (Suc k) (length ?L - 1) = (if Suc k < length ?L then Suc k else min k (length ?L - 1))"
      by auto
    ultimately show ?case
      using Suc by (subst try_reserve_loop.simps) auto
  qed
  note reserve = this
  have si: "sint n = int (unat n)" using sint_eq_uint_nonneg [OF assms] unfolding uint_nat .
  then have "int (unat n) < int (2 ^ 31)" using sint_lt [of n] by simp
  then have "unat n < 2 ^ 31" by (simp only: of_nat_less_iff)
  then show ?thesis unfolding nmbm_try_reserve_blocks_def Let_def si by (rule reserve)
qed

theorem nmbm_try_reserve_blocks_spec_witness:
  "nmbm_try_reserve_blocks (demo_nmbm quiet_ops ()) 12 5 0 14 = Some 13"
proof -
  have n: "0 \<le> sint (5 :: u32)" by code_simp
  show ?thesis
    unfolding nmbm_try_reserve_blocks_spec [OF n] by code_simp
qed

section \<open>Structures and checksums round trip\<close>

lemma length_header_bytes [simp]: "length (header_bytes h) = 16"
  by (simp add: header_bytes_def)

lemma header_round_trip: "header_of_bytes (header_bytes h @ rest) = h"
  by (cases h) (simp add: header_of_bytes_def header_bytes_def rd_codec)

lemma signature_round_trip:
  "length (sg_padding sg) = 7 \<Longrightarrow> signature_of_bytes (signature_bytes sg @ rest) = sg"
  by (cases sg)
    (simp add: signature_of_bytes_def signature_bytes_def header_round_trip rd_codec nth_append)

lemma info_header_round_trip: "info_header_of_bytes (info_header_bytes it @ rest) = it"
  by (cases it) (simp add: info_header_of_bytes_def info_header_bytes_def header_round_trip rd_codec)

lemma length_signature_bytes: "length (sg_padding sg) = 7 \<Longrightarrow> length (signature_bytes sg) = 48"
  by (simp add: signature_bytes_def)

lemma length_info_header_bytes [simp]: "length (info_header_bytes it) = 32"
  by (simp add: info_header_bytes_def)

text \<open>What the code relies on of \<open>crc32_le\<close>: a checksum continues over the next piece.\<close>

definition crc_streams :: "crc32 \<Rightarrow> bool" where
  "crc_streams crc \<longleftrightarrow> (\<forall>v xs ys. crc (crc v xs) ys = crc v (xs @ ys))"

lemma nmbm_crc32_eq:
  assumes "crc_streams crc"
  shows "nmbm_crc32 crc v buf = (if buf = [] then v else crc v buf)"
  using assms
proof (induction crc v buf rule: nmbm_crc32.induct)
  case (1 crc v buf)
  define n :: nat where "n = 4294967295"
  have step: "nmbm_crc32 crc v buf
      = (if buf = [] then v else nmbm_crc32 crc (crc v (take n buf)) (drop n buf))"
    unfolding n_def by (subst nmbm_crc32.simps) (rule refl)
  show ?case
  proof (cases "buf = []")
    case True
    then show ?thesis using step by simp
  next
    case False
    have "nmbm_crc32 crc (crc v (take n buf)) (drop n buf)
        = (if drop n buf = [] then crc v (take n buf) else crc (crc v (take n buf)) (drop n buf))"
      using "1.IH" [OF False "1.prems"] unfolding n_def .
    also have "\<dots> = crc v (take n buf @ drop n buf)"
      using "1.prems" by (auto simp: crc_streams_def)
    finally show ?thesis using False by (simp add: step)
  qed
qed

lemma wr32_split: "off + 4 \<le> length b \<Longrightarrow> wr32 b off v = take off b @ le_bytes 4 v @ drop (off + 4) b"
  by (simp add: wr32_def buf_put_def)

lemma take_wr32: "off + 4 \<le> n \<Longrightarrow> n \<le> length b \<Longrightarrow> take n (wr32 b off v) = wr32 (take n b) off v"
  by (simp add: wr32_split min_def take_drop)

lemma drop_wr32: "off + 4 \<le> n \<Longrightarrow> n \<le> length b \<Longrightarrow> drop n (wr32 b off v) = drop n b"
  by (simp add: wr32_split min_def)

lemma update_checksum_passes:
  assumes crc: "crc_streams crc" and size: "16 \<le> unat (rd32 dat 8)" "unat (rd32 dat 8) \<le> length dat"
    and sz: "rd32 dat 8 \<le> sz"
  shows "nmbm_check_header crc (nmbm_update_checksum crc dat) sz
    \<and> take 12 (nmbm_update_checksum crc dat) = take 12 dat
    \<and> drop 16 (nmbm_update_checksum crc dat) = drop 16 dat
    \<and> length (nmbm_update_checksum crc dat) = length dat"
proof -
  let ?n = "unat (rd32 dat 8)" and ?d0 = "wr32 dat 12 0"
  have len: "16 \<le> length dat" using size by simp
  have hs: "rd32 (wr32 dat 12 v) 8 = rd32 dat 8" for v
    using len by (intro rd32_wr32_other) auto
  define c where "c = nmbm_crc32 crc 0 (take ?n ?d0)"
  have up: "nmbm_update_checksum crc dat = wr32 dat 12 c"
    using len by (simp add: nmbm_update_checksum_def hs c_def wr32_wr32)
  have head: "wr32 (take 16 (wr32 dat 12 c)) 12 0 = take 16 ?d0"
    using len by (simp add: take_wr32 wr32_wr32)
  have n: "unat (rd32 dat 8 - 16) = ?n - 16"
    using size(1) by (simp add: unat_sub word_le_nat_alt)
  have big: "rd32 dat 8 > 16 \<longleftrightarrow> ?n > 16" by (simp add: word_less_nat_alt)
  have split_: "take ?n ?d0 = take 16 ?d0 @ take (?n - 16) (drop 16 dat)"
  proof -
    have "take ?n ?d0 = take (16 + (?n - 16)) ?d0" using size(1) by simp
    also have "\<dots> = take 16 ?d0 @ take (?n - 16) (drop 16 ?d0)" by (rule take_add)
    finally show ?thesis using len by (simp add: drop_wr32)
  qed
  have "length (take 16 ?d0) = 16" using len by simp
  then have ne: "take 16 ?d0 \<noteq> []" by (metis list.size(3) zero_neq_numeral)
  have sum: "c = (if ?n > 16 then nmbm_crc32 crc (nmbm_crc32 crc 0 (take 16 ?d0))
      (take (?n - 16) (drop 16 dat)) else nmbm_crc32 crc 0 (take 16 ?d0))"
    using crc ne size unfolding c_def split_
    by (auto simp: nmbm_crc32_eq [OF crc] crc_streams_def)
  have "nmbm_check_header crc (wr32 dat 12 c) sz \<longleftrightarrow> c = (if ?n > 16
      then nmbm_crc32 crc (nmbm_crc32 crc 0 (take 16 ?d0)) (take (?n - 16) (drop 16 dat))
      else nmbm_crc32 crc 0 (take 16 ?d0))"
    using len
    by (simp add: nmbm_check_header_def hs head drop_wr32 n big rd32_wr32_same Let_def leD [OF sz])
  with sum have "nmbm_check_header crc (wr32 dat 12 c) sz" by (rule iffD2 [rotated])
  then show ?thesis using len by (simp add: up take_wr32 drop_wr32) (simp add: wr32_split)
qed

text \<open>
  A structure whose checksum has been updated passes the check of its header, and the
  update changes nothing but the checksum.
\<close>

theorem nmbm_checksum_round_trip:
  assumes crc: "crc_streams crc" and size: "16 \<le> unat (rd32 dat 8)" "unat (rd32 dat 8) \<le> length dat"
    and sz: "rd32 dat 8 \<le> sz"
  shows "nmbm_check_header crc (nmbm_update_checksum crc dat) sz
    \<and> take 12 (nmbm_update_checksum crc dat) = take 12 dat
    \<and> drop 16 (nmbm_update_checksum crc dat) = drop 16 dat
    \<and> length (nmbm_update_checksum crc dat) = length dat"
  using assms by (rule update_checksum_passes)

theorem nmbm_checksum_round_trip_witness:
  "nmbm_check_header (\<lambda>v xs. foldl (\<lambda>a b. a + ucast b) v xs)
     (nmbm_update_checksum (\<lambda>v xs. foldl (\<lambda>a b. a + ucast b) v xs) (0 # 0 # 0 # 0 # 0 # 0 # 0 # 0 # 17 # replicate 8 0))
     17"
proof -
  let ?crc = "\<lambda>v xs. foldl (\<lambda>a b. a + ucast b) v xs"
  let ?d = "0 # 0 # 0 # 0 # 0 # 0 # 0 # 0 # 17 # replicate 8 0 :: u8 list"
  have c: "crc_streams ?crc" by (simp add: crc_streams_def)
  have r: "rd32 ?d 8 = 17" by code_simp
  show ?thesis
    by (rule conjunct1 [OF nmbm_checksum_round_trip [OF c]]) (simp_all add: r)
qed

end
