(* ===== verification/Nmbm_Write.thy ===== *)
theory Nmbm_Write
  imports Nmbm_State
begin

text \<open>
  The middle layer of the NMBM backend, \<^verbatim>\<open>drivers/mtd/nand/mtk_bmt_nmbm.c\<close>: the scan for bad
  blocks and the initial mapping, erasures and verified writes that mark the blocks that
  fail, and the image of the information table.

  The page size is positive, as the driver sets it. The loops over pages, which in C do not
  end with a page size of zero, visit no page then.
\<close>

section \<open>Scan and initial mapping\<close>

definition scan_badblock :: "('d, 'z) nmbm_scheme \<Rightarrow> nat \<Rightarrow> ('d, 'z) nmbm_scheme" where
  "scan_badblock s ba =
     (case nmbm_check_bad_phys_block s (of_nat ba) of
        (bad, s1) \<Rightarrow> if bad then snd (nmbm_set_block_state s1 (of_nat ba) BLOCK_ST_BAD) else s1)"

definition nmbm_scan_badblocks :: "('d, 'z) nmbm_scheme \<Rightarrow> ('d, 'z) nmbm_scheme" where
  "nmbm_scan_badblocks s = foldl scan_badblock s [0..<unat (block_count s)]"

definition map_good_block ::
  "('d, 'z) nmbm_scheme \<Rightarrow> u32 list \<times> nat \<Rightarrow> nat \<Rightarrow> u32 list \<times> nat" where
  "map_good_block s = (\<lambda>(m, lb) pb.
     if nmbm_get_block_state s (of_nat pb) = BLOCK_ST_BAD then (m, lb)
     else (m[lb := of_nat pb], Suc lb))"

definition nmbm_build_mapping_table :: "('d, 'z) nmbm_scheme \<Rightarrow> ('d, 'z) nmbm_scheme" where
  "nmbm_build_mapping_table s =
     (case foldl (map_good_block s) (block_mapping s, 0) [0..<unat (mgmt_start_ba s)] of
        (m, lb) \<Rightarrow>
          s\<lparr>data_block_count := of_nat lb,
            block_mapping := foldl (\<lambda>m pb. m[pb := - 1]) m [lb..<unat (block_count s)]\<rparr>)"

section \<open>Erasure\<close>

text \<open>The offsets of the pages of a block.\<close>

definition page_offs :: "('d, 'z) bmtd_scheme \<Rightarrow> u64 list" where
  "page_offs s = map (\<lambda>i. of_nat i * ucast (pg_size s))
     [0..<(unat (blk_size s) + unat (pg_size s) - 1) div unat (pg_size s)]"

fun check_pages :: "u64 list \<Rightarrow> ('d, 'z) nmbm_scheme \<Rightarrow> u64 \<Rightarrow> bool \<times> ('d, 'z) nmbm_scheme" where
  "check_pages [] s addr = (True, s)"
| "check_pages (off # offs) s addr =
     (case nmbm_read_phys_page s (addr + off) (data_buf s) of
        (ret, buf, s1) \<Rightarrow>
          let s2 = s1\<lparr>data_buf := buf\<rparr>
          in if ret = - EBADMSG then (False, s2) else check_pages offs s2 addr)"

definition nmbm_erase_block_and_check ::
  "('d, 'z) nmbm_scheme \<Rightarrow> u32 \<Rightarrow> bool \<times> ('d, 'z) nmbm_scheme" where
  "nmbm_erase_block_and_check s ba =
     (case nmbm_erase_phys_block s (ba2addr s ba) of
        (success, s1) \<Rightarrow>
          if \<not> success then (False, s1)
          else if \<not> empty_page_ecc_ok s1 then (True, s1)
          else check_pages (page_offs s1) s1 (ba2addr s1 ba))"

text \<open>A block that failed is marked bad on the chip, if it can be, and in the table.\<close>

definition mark_bad_everywhere :: "('d, 'z) nmbm_scheme \<Rightarrow> u32 \<Rightarrow> ('d, 'z) nmbm_scheme" where
  "mark_bad_everywhere s ba =
     snd (nmbm_set_block_state (snd (nmbm_mark_phys_bad_block s ba)) ba BLOCK_ST_BAD)"

definition erase_range_block :: "('d, 'z) nmbm_scheme \<Rightarrow> u32 \<Rightarrow> ('d, 'z) nmbm_scheme" where
  "erase_range_block s ba =
     (if nmbm_get_block_state s ba \<noteq> BLOCK_ST_GOOD then s
      else case nmbm_check_bad_phys_block s ba of
        (bad, s1) \<Rightarrow>
          if bad then snd (nmbm_set_block_state s1 ba BLOCK_ST_BAD)
          else case nmbm_erase_block_and_check s1 ba of
            (success, s2) \<Rightarrow> if success then s2 else mark_bad_everywhere s2 ba)"

function nmbm_erase_range :: "('d, 'z) nmbm_scheme \<Rightarrow> u32 \<Rightarrow> u32 \<Rightarrow> ('d, 'z) nmbm_scheme" where
  "nmbm_erase_range s ba limit =
     (if ba < limit then nmbm_erase_range (erase_range_block s ba) (ba + 1) limit else s)"
  by pat_completeness auto
termination
  by (relation "measure (\<lambda>(s, ba, limit). unat limit - unat ba)")
    (auto simp: unat_add_one_less word_less_nat_alt)

declare nmbm_erase_range.simps [simp del]

section \<open>The signature\<close>

fun write_repeated_pages ::
  "u64 list \<Rightarrow> ('d, 'z) nmbm_scheme \<Rightarrow> u64 \<Rightarrow> u8 list \<Rightarrow> bool \<times> ('d, 'z) nmbm_scheme" where
  "write_repeated_pages [] s addr dat = (True, s)"
| "write_repeated_pages (off # offs) s addr dat =
     (let n = length dat;
          s1 = s\<lparr>data_buf := buf_put (buf_put (data_buf s) 0 dat) n
                              (replicate (unat (rawpage_size s) - n) 0xff)\<rparr>
      in case nmbm_write_phys_page s1 (addr + off) (data_buf s1) of
        (success, s2) \<Rightarrow>
          if \<not> success then (False, s2)
          else case nmbm_read_phys_page s2 (addr + off) (data_buf s2) of
            (ret, buf, s3) \<Rightarrow>
              let s4 = s3\<lparr>data_buf := buf\<rparr>
              in if ret < 0 then (False, s4)
                 else if take n (data_buf s4) \<noteq> dat then (False, s4)
                 else write_repeated_pages offs s4 addr dat)"

definition nmbm_write_repeated_data ::
  "('d, 'z) nmbm_scheme \<Rightarrow> u32 \<Rightarrow> u8 list \<Rightarrow> bool \<times> ('d, 'z) nmbm_scheme" where
  "nmbm_write_repeated_data s ba dat =
     (if length dat > unat (pg_size s) then (False, s)
      else write_repeated_pages (page_offs s) s (ba2addr s ba) dat)"

text \<open>One block that is tried for the signature: \<open>True\<close> when it has been written.\<close>

definition write_signature_block ::
  "('d, 'z) nmbm_scheme \<Rightarrow> u32 \<Rightarrow> u8 list \<Rightarrow> bool \<times> ('d, 'z) nmbm_scheme" where
  "write_signature_block s ba dat =
     (if nmbm_get_block_state s ba \<noteq> BLOCK_ST_GOOD then (False, s)
      else case nmbm_check_bad_phys_block s ba of
        (bad, s1) \<Rightarrow>
          if bad then (False, snd (nmbm_set_block_state s1 ba BLOCK_ST_BAD))
          else case nmbm_erase_block_and_check s1 ba of
            (erased, s2) \<Rightarrow>
              if \<not> erased then (False, mark_bad_everywhere s2 ba)
              else case nmbm_write_repeated_data s2 ba dat of
                (written, s3) \<Rightarrow>
                  if written then (True, s3) else (False, mark_bad_everywhere s3 ba))"

lemma unat_dec_less: "limit < (ba :: 'a::len word) \<Longrightarrow> unat (ba - 1) < unat ba"
  using unat_minus_one_greater [of limit ba] by simp

function write_signature_loop ::
  "('d, 'z) nmbm_scheme \<Rightarrow> u32 \<Rightarrow> u32 \<Rightarrow> u8 list \<Rightarrow> u32 option \<times> ('d, 'z) nmbm_scheme" where
  "write_signature_loop s ba limit dat =
     (if ba > limit then
        case write_signature_block s ba dat of
          (done, s1) \<Rightarrow> if done then (Some ba, s1) else write_signature_loop s1 (ba - 1) limit dat
      else (None, s))"
  by pat_completeness auto
termination
  by (relation "measure (\<lambda>(s, ba, limit, dat). unat ba)") (auto dest: unat_dec_less)

declare write_signature_loop.simps [simp del]

definition nmbm_write_signature ::
  "('d, 'z) nmbm_scheme \<Rightarrow> u32 \<Rightarrow> nmbm_signature \<Rightarrow> u32 option \<times> ('d, 'z) nmbm_scheme" where
  "nmbm_write_signature s limit sg =
     write_signature_loop s (block_count s - 1) limit (signature_bytes sg)"

section \<open>Reading and writing management data\<close>

definition page_leading :: "('d, 'z) bmtd_scheme \<Rightarrow> u64 \<Rightarrow> u32" where
  "page_leading s off = ucast (off AND ucast (pg_size s - 1))"

definition page_chunk :: "('d, 'z) bmtd_scheme \<Rightarrow> u64 \<Rightarrow> u32 \<Rightarrow> u32" where
  "page_chunk s off sizeremain = min (pg_size s - page_leading s off) sizeremain"

lemma page_chunk_pos:
  assumes "pg_size s \<noteq> 0" and "n \<noteq> 0"
  shows "0 < unat (page_chunk s off n) \<and> unat (page_chunk s off n) \<le> unat n"
proof -
  have "unat (page_leading s off) \<le> unat (pg_size s - 1)"
  proof -
    have "unat (off AND ucast (pg_size s - 1)) \<le> unat (ucast (pg_size s - 1) :: u64)"
      by (simp add: word_and_le1 flip: word_le_nat_alt)
    also have "\<dots> = unat (pg_size s - 1)"
      using unsigned_less [of "pg_size s - 1", where 'a = nat] by (intro unat_ucast_small) simp
    finally have le: "unat (off AND ucast (pg_size s - 1)) \<le> unat (pg_size s - 1)" .
    then have "unat (off AND ucast (pg_size s - 1)) < 2 ^ 32"
      using unsigned_less [of "pg_size s - 1", where 'a = nat] by simp
    then show ?thesis using le by (simp add: page_leading_def unat_ucast_small)
  qed
  also have "\<dots> < unat (pg_size s)" using assms(1) by (simp add: unat_minus_one unat_gt_0)
  finally have "0 < unat (pg_size s - page_leading s off)"
    by (simp add: unat_sub word_le_nat_alt)
  moreover have "0 < unat n" using assms(2) by (simp add: unat_gt_0)
  ultimately show ?thesis by (auto simp: page_chunk_def unat_min)
qed

lemma page_rest_less:
  "n \<noteq> 0 \<Longrightarrow> pg_size s \<noteq> 0 \<Longrightarrow> unat (n - page_chunk s off n) < unat n"
  using page_chunk_pos [of s n off] by (simp add: unat_sub word_le_nat_alt)

text \<open>The \<open>size\<close> bytes at \<open>addr\<close> are read into the buffer \<open>dst\<close>, from its index \<open>pos\<close> on.\<close>

function nmbn_read_data ::
  "('d, 'z) nmbm_scheme \<Rightarrow> u64 \<Rightarrow> u8 list \<Rightarrow> nat \<Rightarrow> u32 \<Rightarrow> int \<times> u8 list \<times> ('d, 'z) nmbm_scheme" where
  "nmbn_read_data s off dst pos sizeremain =
     (if sizeremain = 0 \<or> pg_size s = 0 then (0, dst, s)
      else
        let leading = page_leading s off;
            chunksize = page_chunk s off sizeremain;
            n = unat chunksize
        in if chunksize = pg_size s then
             case nmbm_read_phys_page s (off - ucast leading) (take n (drop pos dst)) of
               (ret, buf, s1) \<Rightarrow>
                 let dst1 = buf_put dst pos buf
                 in if ret < 0 then (ret, dst1, s1)
                    else nmbn_read_data s1 (off + ucast chunksize) dst1 (pos + n) (sizeremain - chunksize)
           else
             case nmbm_read_phys_page s (off - ucast leading) (data_buf s) of
               (ret, buf, s1) \<Rightarrow>
                 let s2 = s1\<lparr>data_buf := buf\<rparr>
                 in if ret < 0 then (ret, dst, s2)
                    else nmbn_read_data s2 (off + ucast chunksize)
                           (buf_put dst pos (take n (drop (unat leading) (data_buf s2)))) (pos + n)
                           (sizeremain - chunksize))"
  by pat_completeness auto
termination
  by (relation "measure (\<lambda>(s, off, dst, pos, n). unat n)") (auto simp: page_rest_less)

declare nmbn_read_data.simps [simp del]

text \<open>\<open>ptr\<close> is the data still to be written.\<close>

function nmbn_write_verify_data ::
  "('d, 'z) nmbm_scheme \<Rightarrow> u64 \<Rightarrow> u8 list \<Rightarrow> u32 \<Rightarrow> bool \<times> ('d, 'z) nmbm_scheme" where
  "nmbn_write_verify_data s off ptr sizeremain =
     (if sizeremain = 0 \<or> pg_size s = 0 then (True, s)
      else
        let leading = page_leading s off;
            chunksize = page_chunk s off sizeremain;
            chunk = take (unat chunksize) ptr;
            s1 = s\<lparr>data_buf := buf_put (buf_put (data_buf s) 0 (replicate (unat (rawpage_size s)) 0xff))
                                 (unat leading) chunk\<rparr>
        in case nmbm_write_phys_page s1 (off - ucast leading) (data_buf s1) of
          (success, s2) \<Rightarrow>
            if \<not> success then (False, s2)
            else case nmbm_read_phys_page s2 (off - ucast leading) (data_buf s2) of
              (ret, buf, s3) \<Rightarrow>
                let s4 = s3\<lparr>data_buf := buf\<rparr>
                in if ret < 0 then (False, s4)
                   else if take (unat chunksize) (drop (unat leading) (data_buf s4)) \<noteq> chunk then (False, s4)
                   else nmbn_write_verify_data s4 (off + ucast chunksize) (drop (unat chunksize) ptr)
                          (sizeremain - chunksize))"
  by pat_completeness auto
termination
  by (relation "measure (\<lambda>(s, off, ptr, n). unat n)") (auto simp: page_rest_less)

declare nmbn_write_verify_data.simps [simp del]

text \<open>One block that is tried for a piece of the data: \<open>True\<close> when it has been written.\<close>

definition write_mgmt_block ::
  "('d, 'z) nmbm_scheme \<Rightarrow> u32 \<Rightarrow> u8 list \<Rightarrow> u32 \<Rightarrow> bool \<times> ('d, 'z) nmbm_scheme" where
  "write_mgmt_block s ba ptr chunksize =
     (if nmbm_get_block_state s ba \<noteq> BLOCK_ST_GOOD then (False, s)
      else case nmbm_check_bad_phys_block s ba of
        (bad, s1) \<Rightarrow>
          if bad then (False, snd (nmbm_set_block_state s1 ba BLOCK_ST_BAD))
          else case nmbm_erase_block_and_check s1 ba of
            (erased, s2) \<Rightarrow>
              if \<not> erased then (False, mark_bad_everywhere s2 ba)
              else case nmbn_write_verify_data s2 (ba2addr s2 ba) ptr chunksize of
                (written, s3) \<Rightarrow>
                  if written then (True, s3) else (False, mark_bad_everywhere s3 ba))"

text \<open>
  The result is the start and the end of the blocks used, when all was written. \<open>start\<close> is the
  variable that \<open>actual_start_ba\<close> points to.
\<close>

function write_mgmt_loop ::
  "('d, 'z) nmbm_scheme \<Rightarrow> u32 \<Rightarrow> u32 \<Rightarrow> u8 list \<Rightarrow> u32 \<Rightarrow> u32 \<Rightarrow> u32
    \<Rightarrow> (u32 \<times> u32) option \<times> ('d, 'z) nmbm_scheme" where
  "write_mgmt_loop s ba limit ptr sizeremain sz start =
     (if sizeremain \<noteq> 0 \<and> ba < limit then
        let chunksize = min sizeremain (blk_size s) in
        case write_mgmt_block s ba ptr chunksize of
          (written, s1) \<Rightarrow>
            if written then
              write_mgmt_loop s1 (ba + 1) limit (drop (unat chunksize) ptr) (sizeremain - chunksize) sz
                (if sizeremain = sz then ba else start)
            else write_mgmt_loop s1 (ba + 1) limit ptr sizeremain sz start
      else if sizeremain \<noteq> 0 then (None, s)
      else (Some (start, ba), s))"
  by pat_completeness auto
termination
  by (relation "measure (\<lambda>(s, ba, limit, ptr, r, sz, start). unat limit - unat ba)")
    (auto simp: unat_add_one_less word_less_nat_alt)

declare write_mgmt_loop.simps [simp del]

definition nmbm_write_mgmt_range ::
  "('d, 'z) nmbm_scheme \<Rightarrow> u32 \<Rightarrow> u32 \<Rightarrow> u8 list \<Rightarrow> u32 \<Rightarrow> (u32 \<times> u32) option \<times> ('d, 'z) nmbm_scheme" where
  "nmbm_write_mgmt_range s ba limit dat sz = write_mgmt_loop s ba limit dat sz sz 0"

section \<open>The information table\<close>

definition words_bytes :: "u32 list \<Rightarrow> u8 list" where
  "words_bytes ws = concat (map (le_bytes 4) ws)"

definition bytes_words :: "u8 list \<Rightarrow> u32 list" where
  "bytes_words bs = map (\<lambda>i. rd32 bs (4 * i)) [0..<length bs div 4]"

definition nmbm_generate_info_table_cache ::
  "crc32 \<Rightarrow> ('d, 'z) nmbm_scheme \<Rightarrow> bool \<times> ('d, 'z) nmbm_scheme" where
  "nmbm_generate_info_table_cache crc s =
     (let c0 = replicate (unat (info_table_size s)) 0xff;
          c1 = buf_put c0 (unat (it_state_table_off (info_table s)))
                 (take (unat (state_table_size s)) (words_bytes (block_state s)));
          c2 = buf_put c1 (unat (it_mapping_table_off (info_table s)))
                 (take (unat (mapping_table_size s)) (words_bytes (block_mapping s)));
          hdr = (it_header (info_table s))\<lparr>h_magic := NMBM_MAGIC_INFO_TABLE, h_version := NMBM_VER,
                                          h_size := info_table_size s\<rparr>;
          changed = (block_state_changed s \<noteq> 0 \<or> block_mapping_changed s \<noteq> 0);
          it = (info_table s)\<lparr>it_header := hdr,
                 it_write_count := it_write_count (info_table s) + (if changed then 1 else 0)\<rparr>;
          c3 = nmbm_update_checksum crc (buf_put c2 0 (info_header_bytes it))
      in (changed, s\<lparr>info_table := it, info_table_cache := c3\<rparr>))"

definition nmbm_write_info_table ::
  "('d, 'z) nmbm_scheme \<Rightarrow> u32 \<Rightarrow> u32 \<Rightarrow> (u32 \<times> u32) option \<times> ('d, 'z) nmbm_scheme" where
  "nmbm_write_info_table s ba limit =
     nmbm_write_mgmt_range s ba limit (info_table_cache s) (info_table_size s)"

definition nmbm_mark_tables_clean :: "('d, 'z) nmbm_scheme \<Rightarrow> ('d, 'z) nmbm_scheme" where
  "nmbm_mark_tables_clean s = s\<lparr>block_state_changed := 0, block_mapping_changed := 0\<rparr>"

section \<open>Wear: what the accesses can change\<close>

text \<open>The blocks of the chip that are not marked bad in the table.\<close>

definition all_blocks :: "('d, 'z) nmbm_scheme \<Rightarrow> u32 list" where
  "all_blocks s = map of_nat [0..<unat (block_count s)]"

definition usable :: "('d, 'z) nmbm_scheme \<Rightarrow> nat" where
  "usable s = length (filter (\<lambda>ba. nmbm_get_block_state s ba \<noteq> BLOCK_ST_BAD) (all_blocks s))"

text \<open>The table of states has an entry for every block.\<close>

definition states_cover :: "('d, 'z) nmbm_scheme \<Rightarrow> bool" where
  "states_cover s \<longleftrightarrow> (\<forall>ba < block_count s. state_covers s ba)"

text \<open>
  Erasing and writing wears a chip: besides the device and the page buffer, only the states
  of blocks change, from any state to bad, and the counter of changes grows by the number
  of blocks that were lost.
\<close>

definition wear_frame :: "('d, 'z) nmbm_scheme \<Rightarrow> ('d, 'z) nmbm_scheme \<Rightarrow> bool" where
  "wear_frame s t \<longleftrightarrow>
     t = s\<lparr>lower := lower t, data_buf := data_buf t, block_state := block_state t,
           block_state_changed := block_state_changed t\<rparr>"

definition wear :: "('d, 'z) nmbm_scheme \<Rightarrow> ('d, 'z) nmbm_scheme \<Rightarrow> bool" where
  "wear s t \<longleftrightarrow>
     wear_frame s t \<and> length (block_state t) = length (block_state s)
     \<and> (\<forall>ba < block_count s. nmbm_get_block_state t ba = nmbm_get_block_state s ba
                           \<or> nmbm_get_block_state t ba = BLOCK_ST_BAD)
     \<and> usable t \<le> usable s
     \<and> block_state_changed t = block_state_changed s + of_nat (usable s - usable t)"

lemma wear_fields:
  assumes "wear s t"
  shows "lower_ops t = lower_ops s" "pg_size t = pg_size s" "blk_size t = blk_size s"
    "blk_shift t = blk_shift s" "total_blks t = total_blks s" "erasesize t = erasesize s"
    "oobsize t = oobsize s"
    "info_table_cache t = info_table_cache s" "info_table_size t = info_table_size s"
    "info_table_spare_blocks t = info_table_spare_blocks s" "info_table t = info_table s"
    "state_table_size t = state_table_size s" "block_mapping t = block_mapping s"
    "block_mapping_changed t = block_mapping_changed s" "mapping_table_size t = mapping_table_size s"
    "protected t = protected s" "block_count t = block_count s"
    "data_block_count t = data_block_count s" "mgmt_start_ba t = mgmt_start_ba s"
    "main_table_ba t = main_table_ba s" "backup_table_ba t = backup_table_ba s"
    "mapping_blocks_ba t = mapping_blocks_ba s" "mapping_blocks_top_ba t = mapping_blocks_top_ba s"
    "signature_ba t = signature_ba s" "signature t = signature s"
    "geometry t = geometry s"
proof -
  have "wear_frame s t" using assms by (simp add: wear_def)
  then obtain l d b c where t: "t = s\<lparr>lower := l, data_buf := d, block_state := b, block_state_changed := c\<rparr>"
    unfolding wear_frame_def by blast
  show "lower_ops t = lower_ops s" "pg_size t = pg_size s" "blk_size t = blk_size s"
    "blk_shift t = blk_shift s" "total_blks t = total_blks s" "erasesize t = erasesize s"
    "oobsize t = oobsize s"
    "info_table_cache t = info_table_cache s" "info_table_size t = info_table_size s"
    "info_table_spare_blocks t = info_table_spare_blocks s" "info_table t = info_table s"
    "state_table_size t = state_table_size s" "block_mapping t = block_mapping s"
    "block_mapping_changed t = block_mapping_changed s" "mapping_table_size t = mapping_table_size s"
    "protected t = protected s" "block_count t = block_count s"
    "data_block_count t = data_block_count s" "mgmt_start_ba t = mgmt_start_ba s"
    "main_table_ba t = main_table_ba s" "backup_table_ba t = backup_table_ba s"
    "mapping_blocks_ba t = mapping_blocks_ba s" "mapping_blocks_top_ba t = mapping_blocks_top_ba s"
    "signature_ba t = signature_ba s" "signature t = signature s"
    "geometry t = geometry s"
    by (simp_all add: t geometry_def)
qed

lemma wear_refl [simp, intro]: "wear s s"
  by (simp add: wear_def wear_frame_def)

lemma wear_frame_trans: "wear_frame s t \<Longrightarrow> wear_frame t u \<Longrightarrow> wear_frame s u"
  unfolding wear_frame_def by (cases s; cases t; cases u) simp

lemma wear_trans [trans]:
  assumes st: "wear s t" and tu: "wear t u"
  shows "wear s u"
proof -
  have frame: "wear_frame s u" using st tu wear_frame_trans unfolding wear_def by blast
  have bc: "block_count t = block_count s" using st by (rule wear_fields)
  have "usable s - usable u = (usable s - usable t) + (usable t - usable u)"
    using st tu by (simp add: wear_def)
  then have cnt: "block_state_changed u = block_state_changed s + of_nat (usable s - usable u)"
    using st tu by (simp add: wear_def)
  have "nmbm_get_block_state u ba = nmbm_get_block_state s ba \<or> nmbm_get_block_state u ba = 0"
    if "ba < block_count s" for ba
    using st tu that bc unfolding wear_def by metis
  then show ?thesis using frame cnt st tu by (simp add: wear_def)
qed

lemma usable_cong:
  "block_state t = block_state s \<Longrightarrow> block_count t = block_count s \<Longrightarrow> usable t = usable s"
  by (simp add: usable_def all_blocks_def nmbm_get_block_state_def)

lemma wear_device:
  assumes "device_step s t"
  shows "wear s t"
proof -
  note f = nmbm_device_step(7,8,14) [OF assms]
  have "wear_frame s t"
    using assms unfolding wear_frame_def by (cases s; cases t) (simp add: device_step_def)
  moreover have "usable t = usable s" using f by (intro usable_cong) simp_all
  ultimately show ?thesis
    using f by (simp add: wear_def nmbm_get_block_state_def)
qed

lemma wear_page_cache: "wear s (t\<lparr>data_buf := b\<rparr>) \<longleftrightarrow> wear s t"
proof -
  have "usable (t\<lparr>data_buf := b\<rparr>) = usable t" by (rule usable_cong) simp_all
  moreover have "wear_frame s (t\<lparr>data_buf := b\<rparr>) \<longleftrightarrow> wear_frame s t"
    by (cases s; cases t) (simp add: wear_frame_def)
  ultimately show ?thesis by (simp add: wear_def nmbm_get_block_state_def)
qed

lemma states_cover_wear: "wear s t \<Longrightarrow> states_cover t = states_cover s"
  by (simp add: states_cover_def wear_fields state_covers_def) (simp add: wear_def)

lemma all_blocks_set: "ba < block_count s \<Longrightarrow> ba \<in> set (all_blocks s)"
  unfolding all_blocks_def
  by (auto simp: word_less_nat_alt intro!: image_eqI [of _ _ "unat ba"])

lemma distinct_all_blocks: "distinct (all_blocks s)"
proof -
  have "inj_on (of_nat :: nat \<Rightarrow> u32) (set [0..<unat (block_count s)])"
  proof (rule inj_onI)
    fix i j assume "i \<in> set [0..<unat (block_count s)]" "j \<in> set [0..<unat (block_count s)]"
      and eq: "(of_nat i :: u32) = of_nat j"
    then have "i < 2 ^ LENGTH(32)" "j < 2 ^ LENGTH(32)"
      using unsigned_less [of "block_count s", where 'a = nat] by auto
    then show "i = j" using eq by (metis unat_of_nat_small)
  qed
  then show ?thesis by (simp add: all_blocks_def distinct_map)
qed

lemma in_all_blocks: "ba \<in> set (all_blocks s) \<Longrightarrow> ba < block_count s"
proof -
  assume "ba \<in> set (all_blocks s)"
  then obtain i where i: "i < unat (block_count s)" "ba = of_nat i" by (auto simp: all_blocks_def)
  then have "i < 2 ^ LENGTH(32)" using unsigned_less [of "block_count s", where 'a = nat] by simp
  then show ?thesis using i by (simp add: word_less_nat_alt)
qed

text \<open>Marking one block bad in the table, counted with the interface of the marks.\<close>

lemma wear_set_bad:
  assumes cov: "states_cover s" and ba: "ba < block_count s"
  shows "wear s (snd (nmbm_set_block_state s ba BLOCK_ST_BAD))"
proof -
  let ?t = "snd (nmbm_set_block_state s ba BLOCK_ST_BAD)"
  have c: "state_covers s ba" and all: "\<forall>c \<in> set (all_blocks s). state_covers s c"
    using cov ba by (auto simp: states_cover_def dest: in_all_blocks)
  have frame: "wear_frame s ?t"
    unfolding wear_frame_def by (cases s) (simp add: nmbm_set_block_state_def Let_def)
  have bc: "block_count ?t = block_count s" by (simp add: nmbm_set_block_state_def Let_def)
  have us: "usable s = length (nmbm_marks.good_blocks s (all_blocks s))"
    "usable ?t = length (nmbm_marks.good_blocks ?t (all_blocks s))"
    by (simp_all add: usable_def nmbm_marks.good_blocks_def all_blocks_def bc)
  note set = set_block_state_props [OF c prod.collapse [symmetric], of BLOCK_ST_BAD]
  have state: "nmbm_get_block_state ?t d = nmbm_get_block_state s d \<or> nmbm_get_block_state ?t d = 0" for d
    using set by (cases "d = ba") auto
  have "usable ?t \<le> usable s \<and> block_state_changed ?t = block_state_changed s + of_nat (usable s - usable ?t)"
  proof (cases "nmbm_get_block_state s ba = 0")
    case True
    then have "usable ?t = usable s"
      unfolding us using nmbm_marks.good_blocks_mark_bad_again [OF c all] by simp
    then show ?thesis using set True by simp
  next
    case False
    then have "Suc (usable ?t) = usable s"
      unfolding us using nmbm_marks.good_blocks_mark_count [OF c all distinct_all_blocks all_blocks_set [OF ba]]
      by simp
    then have "usable s - usable ?t = 1" "usable ?t \<le> usable s" by simp_all
    then show ?thesis using set False by simp
  qed
  then show ?thesis using frame state set unfolding wear_def by blast
qed

section \<open>The operations only wear the chip\<close>

lemma check_pages_step: "check_pages offs s addr = (r, t) \<Longrightarrow> device_step s t"
proof (induction offs arbitrary: s)
  case Nil
  then show ?case by simp
next
  case (Cons off offs)
  obtain ret buf s1 where rd: "nmbm_read_phys_page s (addr + off) (data_buf s) = (ret, buf, s1)"
    by (metis prod_cases3)
  define s2 where "s2 = s1\<lparr>data_buf := buf\<rparr>"
  have s2: "device_step s s2" using nmbm_read_phys_page_step [OF rd] by (simp add: s2_def)
  have "t = s2 \<or> check_pages offs s2 addr = (r, t)"
    using Cons.prems by (auto simp: rd Let_def s2_def split: if_splits)
  then show ?case using s2 Cons.IH device_step_trans by blast
qed

lemma nmbm_erase_block_and_check_step:
  assumes "nmbm_erase_block_and_check s ba = (r, t)"
  shows "device_step s t"
proof -
  obtain ok s1 where er: "nmbm_erase_phys_block s (ba2addr s ba) = (ok, s1)" by fastforce
  from assms nmbm_erase_phys_block_step [OF er] show ?thesis
    by (auto simp: nmbm_erase_block_and_check_def er split: if_splits
        dest: check_pages_step intro: device_step_trans)
qed

lemma write_repeated_pages_step: "write_repeated_pages offs s addr dat = (r, t) \<Longrightarrow> device_step s t"
proof (induction offs arbitrary: s)
  case Nil
  then show ?case by simp
next
  case (Cons off offs)
  let ?s1 = "s\<lparr>data_buf := buf_put (buf_put (data_buf s) 0 dat) (length dat)
    (replicate (unat (rawpage_size s) - length dat) 0xff)\<rparr>"
  obtain ok s2 where wr: "nmbm_write_phys_page ?s1 (addr + off) (data_buf ?s1) = (ok, s2)" by fastforce
  obtain ret buf s3 where rd: "nmbm_read_phys_page s2 (addr + off) (data_buf s2) = (ret, buf, s3)"
    by (metis prod_cases3)
  have s2: "device_step s s2" using nmbm_write_phys_page_step [OF wr] by (rule device_step_trans [rotated]) simp
  then have s4: "device_step s (s3\<lparr>data_buf := buf\<rparr>)"
    using nmbm_read_phys_page_step [OF rd] device_step_trans by simp blast
  have "device_step (s3\<lparr>data_buf := buf\<rparr>) t"
    if "write_repeated_pages offs (s3\<lparr>data_buf := buf\<rparr>) addr dat = (r, t)"
    using that by (rule Cons.IH)
  then have "device_step s t"
    if "write_repeated_pages offs (s3\<lparr>data_buf := buf\<rparr>) addr dat = (r, t)"
    using s4 that device_step_trans by blast
  with Cons.prems s2 s4 show ?case by (auto simp: wr [simplified] rd Let_def split: if_splits)
qed

lemma nmbm_write_repeated_data_step: "nmbm_write_repeated_data s ba dat = (r, t) \<Longrightarrow> device_step s t"
  by (auto simp: nmbm_write_repeated_data_def split: if_splits dest: write_repeated_pages_step)

lemma nmbn_read_data_step: "nmbn_read_data s off dst pos n = (r, d, t) \<Longrightarrow> device_step s t"
proof (induction "unat n" arbitrary: s off dst pos n rule: less_induct)
  case less
  show ?case
  proof (cases "n = 0 \<or> pg_size s = 0")
    case True
    then show ?thesis using less.prems by (simp add: nmbn_read_data.simps [of s])
  next
    case False
    let ?l = "page_leading s off" and ?c = "page_chunk s off n"
    have smaller: "unat (n - ?c) < unat n" using False page_rest_less [of n s off] by simp
    obtain r1 b1 u1 where a: "nmbm_read_phys_page s (off - ucast ?l) (take (unat ?c) (drop pos dst)) = (r1, b1, u1)"
      by (metis prod_cases3)
    obtain r2 b2 u2 where b: "nmbm_read_phys_page s (off - ucast ?l) (data_buf s) = (r2, b2, u2)"
      by (metis prod_cases3)
    define w2 where "w2 = u2\<lparr>data_buf := b2\<rparr>"
    have steps: "device_step s u1" "device_step s w2"
      using nmbm_read_phys_page_step [OF a] nmbm_read_phys_page_step [OF b] by (simp_all add: w2_def)
    note prems = less.prems [unfolded nmbn_read_data.simps [of s off] Let_def a b prod.case w2_def [symmetric]]
    have "t = u1 \<or> t = w2 \<or> (\<exists>off' dst' pos'. nmbn_read_data u1 off' dst' pos' (n - ?c) = (r, d, t))
        \<or> (\<exists>off' dst' pos'. nmbn_read_data w2 off' dst' pos' (n - ?c) = (r, d, t))"
      using prems False by (auto split: if_splits)
    then show ?thesis using steps less.hyps [OF smaller] device_step_trans by blast
  qed
qed

lemma nmbn_write_verify_step: "nmbn_write_verify_data s off ptr n = (r, t) \<Longrightarrow> device_step s t"
proof (induction "unat n" arbitrary: s off ptr n rule: less_induct)
  case less
  show ?case
  proof (cases "n = 0 \<or> pg_size s = 0")
    case True
    then show ?thesis using less.prems by (simp add: nmbn_write_verify_data.simps [of s])
  next
    case False
    let ?l = "page_leading s off" and ?c = "page_chunk s off n"
    have smaller: "unat (n - ?c) < unat n" using False page_rest_less [of n s off] by simp
    define s1 where "s1 = s\<lparr>data_buf := buf_put (buf_put (data_buf s) 0 (replicate (unat (rawpage_size s)) 0xff))
                                 (unat ?l) (take (unat ?c) ptr)\<rparr>"
    obtain ok s2 where wr: "nmbm_write_phys_page s1 (off - ucast ?l) (data_buf s1) = (ok, s2)" by fastforce
    obtain ret buf s3 where rd: "nmbm_read_phys_page s2 (off - ucast ?l) (data_buf s2) = (ret, buf, s3)"
      by (metis prod_cases3)
    have "device_step s s1" by (simp add: s1_def)
    then have s2: "device_step s s2" using nmbm_write_phys_page_step [OF wr] by (rule device_step_trans)
    then have s4: "device_step s (s3\<lparr>data_buf := buf\<rparr>)"
      using nmbm_read_phys_page_step [OF rd] device_step_trans by simp blast
    note prems = less.prems [unfolded nmbn_write_verify_data.simps [of s off] Let_def s1_def [symmetric]
        wr rd prod.case]
    have "device_step s t" if "nmbn_write_verify_data (s3\<lparr>data_buf := buf\<rparr>) (off + ucast ?c)
        (drop (unat ?c) ptr) (n - ?c) = (r, t)"
      using s4 less.hyps [OF smaller that] by (rule device_step_trans)
    then show ?thesis using prems False s2 s4 by (auto split: if_splits)
  qed
qed

text \<open>Every operation on the chip wears it.\<close>

lemma states_cover_at: "states_cover s \<Longrightarrow> ba < block_count s \<Longrightarrow> state_covers s ba"
  by (simp add: states_cover_def)

lemma mark_bad_everywhere_wear:
  assumes "states_cover s" and "ba < block_count s"
  shows "wear s (mark_bad_everywhere s ba)"
proof -
  let ?u = "snd (nmbm_mark_phys_bad_block s ba)"
  have su: "wear s ?u" by (rule wear_device [OF nmbm_mark_bad_step [OF prod.collapse [symmetric]]])
  then have "wear ?u (snd (nmbm_set_block_state ?u ba BLOCK_ST_BAD))"
    using assms by (intro wear_set_bad) (simp_all add: states_cover_wear wear_fields)
  with su show ?thesis unfolding mark_bad_everywhere_def by (rule wear_trans)
qed

text \<open>A wear step can be followed by marking a block bad.\<close>

lemma wear_then_mark:
  assumes "wear s t" and "states_cover s" and "ba < block_count s"
  shows "wear s (mark_bad_everywhere t ba)"
    "wear s (snd (nmbm_set_block_state t ba BLOCK_ST_BAD))"
proof -
  have "states_cover t" "ba < block_count t" using assms by (simp_all add: states_cover_wear wear_fields)
  then show "wear s (mark_bad_everywhere t ba)" "wear s (snd (nmbm_set_block_state t ba BLOCK_ST_BAD))"
    using assms(1) mark_bad_everywhere_wear wear_set_bad wear_trans by blast+
qed

lemma erase_and_check_wear: "nmbm_erase_block_and_check s ba = (r, t) \<Longrightarrow> wear s t"
  by (rule wear_device) (rule nmbm_erase_block_and_check_step)

lemma check_bad_wear: "nmbm_check_bad_phys_block s ba = (b, t) \<Longrightarrow> wear s t"
  by (rule wear_device) (rule nmbm_check_bad_step)

lemma erase_range_block_wear:
  assumes "states_cover s" and "ba < block_count s"
  shows "wear s (erase_range_block s ba)"
proof -
  obtain bad s1 where cb: "nmbm_check_bad_phys_block s ba = (bad, s1)" by fastforce
  obtain ok s2 where er: "nmbm_erase_block_and_check s1 ba = (ok, s2)" by fastforce
  have s1: "wear s s1" using cb by (rule check_bad_wear)
  then have s2: "wear s s2" using erase_and_check_wear [OF er] by (rule wear_trans)
  show ?thesis
    using wear_then_mark [OF s1 assms] wear_then_mark [OF s2 assms] s2
    by (simp add: erase_range_block_def cb er)
qed

lemma nmbm_erase_range_wear:
  "states_cover s \<Longrightarrow> limit \<le> block_count s \<Longrightarrow> wear s (nmbm_erase_range s ba limit)"
proof (induction s ba limit rule: nmbm_erase_range.induct)
  case (1 s ba limit)
  show ?case
  proof (cases "ba < limit")
    case False
    then show ?thesis by (simp add: nmbm_erase_range.simps [of s])
  next
    case True
    then have w: "wear s (erase_range_block s ba)"
      using "1.prems" by (intro erase_range_block_wear) simp_all
    then have "wear (erase_range_block s ba) (nmbm_erase_range (erase_range_block s ba) (ba + 1) limit)"
      using "1.prems" by (intro "1.IH" [OF True]) (simp_all add: states_cover_wear wear_fields)
    with w show ?thesis using True by (subst nmbm_erase_range.simps) (simp add: wear_trans)
  qed
qed

lemma write_signature_block_wear:
  assumes "states_cover s" and "ba < block_count s" and "write_signature_block s ba dat = (r, t)"
  shows "wear s t"
proof -
  obtain bad s1 where cb: "nmbm_check_bad_phys_block s ba = (bad, s1)" by fastforce
  obtain ok s2 where er: "nmbm_erase_block_and_check s1 ba = (ok, s2)" by fastforce
  obtain wr s3 where w: "nmbm_write_repeated_data s2 ba dat = (wr, s3)" by fastforce
  have s1: "wear s s1" using cb by (rule check_bad_wear)
  then have s2: "wear s s2" using erase_and_check_wear [OF er] by (rule wear_trans)
  then have s3: "wear s s3" using wear_device [OF nmbm_write_repeated_data_step [OF w]] by (rule wear_trans)
  show ?thesis
    using wear_then_mark [OF s1 assms(1,2)] wear_then_mark [OF s2 assms(1,2)]
      wear_then_mark [OF s3 assms(1,2)] s3 assms(3)
    by (auto simp: write_signature_block_def cb er w split: if_splits)
qed

lemma write_signature_loop_wear:
  "states_cover s \<Longrightarrow> ba < block_count s \<Longrightarrow> write_signature_loop s ba limit dat = (r, t) \<Longrightarrow>
   wear s t \<and> (case r of Some a \<Rightarrow> limit < a \<and> a \<le> ba | None \<Rightarrow> True)"
proof (induction s ba limit dat rule: write_signature_loop.induct)
  case (1 s ba limit dat)
  show ?case
  proof (cases "ba > limit")
    case False
    then show ?thesis using "1.prems" by (simp add: write_signature_loop.simps [of s])
  next
    case True
    obtain ok s1 where b: "write_signature_block s ba dat = (ok, s1)" by fastforce
    have w: "wear s s1" using "1.prems"(1,2) b by (rule write_signature_block_wear)
    have less: "ba - 1 < ba" using True by (simp add: word_less_nat_alt unat_dec_less)
    then have bc: "ba - 1 < block_count s1" using "1.prems"(2) w by (simp add: wear_fields)
    show ?thesis
    proof (cases ok)
      case True
      then show ?thesis using "1.prems"(3) \<open>ba > limit\<close> b w by (auto simp: write_signature_loop.simps [of s])
    next
      case False
      then have "write_signature_loop s1 (ba - 1) limit dat = (r, t)"
        using "1.prems"(3) True b by (simp add: write_signature_loop.simps [of s])
      then have "wear s1 t \<and> (case r of Some a \<Rightarrow> limit < a \<and> a \<le> ba - 1 | None \<Rightarrow> True)"
        using "1.IH" [OF True b [symmetric] False] "1.prems"(1) w bc by (simp add: states_cover_wear)
      then show ?thesis using w less wear_trans by (auto split: option.splits intro: order_trans less_imp_le)
    qed
  qed
qed

lemma write_mgmt_block_wear:
  assumes "states_cover s" and "ba < block_count s" and "write_mgmt_block s ba ptr n = (r, t)"
  shows "wear s t"
proof -
  obtain bad s1 where cb: "nmbm_check_bad_phys_block s ba = (bad, s1)" by fastforce
  obtain ok s2 where er: "nmbm_erase_block_and_check s1 ba = (ok, s2)" by fastforce
  obtain wr s3 where w: "nmbn_write_verify_data s2 (ba2addr s2 ba) ptr n = (wr, s3)" by fastforce
  have s1: "wear s s1" using cb by (rule check_bad_wear)
  then have s2: "wear s s2" using erase_and_check_wear [OF er] by (rule wear_trans)
  then have s3: "wear s s3" using wear_device [OF nmbn_write_verify_step [OF w]] by (rule wear_trans)
  show ?thesis
    using wear_then_mark [OF s1 assms(1,2)] wear_then_mark [OF s2 assms(1,2)]
      wear_then_mark [OF s3 assms(1,2)] s3 assms(3)
    by (auto simp: write_mgmt_block_def cb er w split: if_splits)
qed

text \<open>
  A management write: it wears the chip, its blocks lie between the start and the limit, and
  it only fails or succeeds as a whole. The parameter \<open>start\<close> is returned as it is unless the
  first piece is still to be written.
\<close>

lemma write_mgmt_loop_wear:
  assumes "states_cover s" and "limit \<le> block_count s" and "0 < blk_size s"
    and "write_mgmt_loop s ba limit ptr r sz start = (res, t)" and "r \<le> sz"
  shows "wear s t \<and> (case res of None \<Rightarrow> r \<noteq> 0
    | Some (a, e) \<Rightarrow> (r \<noteq> 0 \<longrightarrow> ba < e \<and> e \<le> limit) \<and> (r = 0 \<longrightarrow> e = ba)
        \<and> (if r = sz \<and> r \<noteq> 0 then ba \<le> a \<and> a < e else a = start))"
  using assms
proof (induction s ba limit ptr r sz start rule: write_mgmt_loop.induct)
  case (1 s ba limit ptr r sz start)
  note p = "1.prems"
  show ?case
  proof (cases "r \<noteq> 0 \<and> ba < limit")
    case False
    then show ?thesis using p(4) by (auto simp: write_mgmt_loop.simps [of s] split: if_splits)
  next
    case True
    define c where "c = min r (blk_size s)"
    obtain ok s1 where b: "write_mgmt_block s ba ptr c = (ok, s1)" by fastforce
    have "ba < block_count s" using True p(2) by (auto intro: less_le_trans)
    with p(1) have w: "wear s s1" using b by (rule write_mgmt_block_wear)
    have inv: "states_cover s1" "limit \<le> block_count s1" "0 < blk_size s1"
      using p(1-3) w by (simp_all add: states_cover_wear wear_fields)
    have up: "ba < ba + 1" "\<And>e. ba + 1 \<le> e \<Longrightarrow> ba < e"
      using unat_add_one_less [of ba limit] True by (auto simp: word_less_nat_alt word_le_nat_alt)
    have c: "0 < c" "c \<le> r" using True p(3) by (auto simp: c_def min_def word_neq_0_conv)
    show ?thesis
    proof (cases ok)
      case True
      have rec: "write_mgmt_loop s1 (ba + 1) limit (drop (unat c) ptr) (r - c) sz
          (if r = sz then ba else start) = (res, t)"
        using p(4) True \<open>r \<noteq> 0 \<and> ba < limit\<close> b by (simp add: write_mgmt_loop.simps [of s] c_def [symmetric])
      have less: "r - c < r" using c by (simp add: word_less_nat_alt word_le_nat_alt unat_sub)
      then have "r - c \<le> sz" "r - c \<noteq> sz" using p(5) by auto
      with "1.IH" (1) [OF \<open>r \<noteq> 0 \<and> ba < limit\<close> c_def b [symmetric] True inv rec]
      have "wear s1 t \<and> (case res of None \<Rightarrow> r - c \<noteq> 0
        | Some (a, e) \<Rightarrow> (r - c \<noteq> 0 \<longrightarrow> ba + 1 < e \<and> e \<le> limit) \<and> (r - c = 0 \<longrightarrow> e = ba + 1)
            \<and> a = (if r = sz then ba else start))"
        by (auto split: option.splits)
      moreover have "ba + 1 \<le> limit" using \<open>r \<noteq> 0 \<and> ba < limit\<close> unat_add_one_less [of ba limit]
        by (simp add: word_less_nat_alt word_le_nat_alt)
      ultimately show ?thesis
        using w up \<open>r \<noteq> 0 \<and> ba < limit\<close> wear_trans [OF w]
        by (cases "r - c = 0") (auto split: option.splits if_splits)
    next
      case False
      have rec: "write_mgmt_loop s1 (ba + 1) limit ptr r sz start = (res, t)"
        using p(4) False \<open>r \<noteq> 0 \<and> ba < limit\<close> b by (simp add: write_mgmt_loop.simps [of s] c_def [symmetric])
      from "1.IH" (2) [OF \<open>r \<noteq> 0 \<and> ba < limit\<close> c_def b [symmetric] False inv rec p(5)]
      show ?thesis
        using up \<open>r \<noteq> 0 \<and> ba < limit\<close> wear_trans [OF w]
        by (auto split: option.splits if_splits intro: less_imp_le)
    qed
  qed
qed

section \<open>What the scan and the mapping give\<close>

lemma map_good_block_fold:
  assumes "n \<le> length m0"
  shows "foldl (map_good_block s) (m0, 0) [0..<n] =
    (let G = filter (\<lambda>pb. nmbm_get_block_state s (of_nat pb) \<noteq> BLOCK_ST_BAD) [0..<n]
     in (map of_nat G @ drop (length G) m0, length G))"
  using assms
proof (induction n)
  case 0
  then show ?case by (simp add: Let_def)
next
  case (Suc n)
  let ?G = "filter (\<lambda>pb. nmbm_get_block_state s (of_nat pb) \<noteq> BLOCK_ST_BAD) [0..<n]"
  have "length ?G \<le> n" using length_filter_le [of _ "[0..<n]"] by (simp del: length_filter_le)
  then have d: "drop (length ?G) m0 = m0 ! length ?G # drop (Suc (length ?G)) m0"
    using Suc.prems by (intro Cons_nth_drop_Suc [symmetric]) simp
  have IH: "foldl (map_good_block s) (m0, 0) [0..<n] = (map of_nat ?G @ drop (length ?G) m0, length ?G)"
    using Suc by (simp add: Let_def)
  show ?case
    unfolding upt_Suc_append [OF le0] foldl_append IH
    using d by (simp add: map_good_block_def Let_def list_update_append)
qed

lemma foldl_fill: "j \<le> length m \<Longrightarrow> foldl (\<lambda>m pb. m[pb := v]) m [i..<j] = take i m @ replicate (j - i) v @ drop (max i j) m"
proof (induction j)
  case 0
  then show ?case by simp
next
  case (Suc j)
  show ?case
  proof (cases "i \<le> j")
    case True
    have "drop j m = m ! j # drop (Suc j) m" using Suc.prems by (intro Cons_nth_drop_Suc [symmetric]) simp
    moreover have "replicate (Suc j - i) v = replicate (j - i) v @ [v]"
      using True by (simp add: Suc_diff_le replicate_append_same)
    ultimately show ?thesis
      using Suc True by (simp add: list_update_append max_def min_def)
  next
    case False
    then show ?thesis by (cases "i = Suc j") (simp_all add: max_def)
  qed
qed

text \<open>
  The initial mapping enumerates the blocks below the management area that are not
  marked bad: the logical block \<open>lb\<close> is the one with index \<open>lb\<close> among them, and all the
  remaining entries are \<open>-1\<close>.
\<close>

theorem nmbm_build_mapping_table_spec:
  assumes "length (block_mapping s) = unat (block_count s)" and "mgmt_start_ba s \<le> block_count s"
  shows "let G = filter (\<lambda>pb. nmbm_get_block_state s (of_nat pb) \<noteq> BLOCK_ST_BAD) [0..<unat (mgmt_start_ba s)];
             t = nmbm_build_mapping_table s
         in block_mapping t = map of_nat G @ replicate (unat (block_count s) - length G) (- 1)
            \<and> unat (data_block_count t) = length G"
proof -
  let ?G = "filter (\<lambda>pb. nmbm_get_block_state s (of_nat pb) \<noteq> BLOCK_ST_BAD) [0..<unat (mgmt_start_ba s)]"
  have le: "unat (mgmt_start_ba s) \<le> unat (block_count s)" using assms(2) by (simp add: word_le_nat_alt)
  moreover have g: "length ?G \<le> unat (mgmt_start_ba s)"
    using length_filter_le [of _ "[0..<unat (mgmt_start_ba s)]"] by (simp del: length_filter_le)
  ultimately have "length ?G \<le> unat (block_count s)" by simp
  moreover have "length ?G < 2 ^ LENGTH(32)"
    using g unsigned_less [of "mgmt_start_ba s", where 'a = nat] by simp
  ultimately show ?thesis
    using le assms(1)
    by (simp add: nmbm_build_mapping_table_def map_good_block_fold foldl_fill Let_def max_def)
qed

theorem nmbm_build_mapping_table_spec_witness:
  "block_mapping (nmbm_build_mapping_table (demo_nmbm quiet_ops () \<lparr>block_state := [0xfffffcff]\<rparr>))
     = [0, 1, 2, 3, 5] @ replicate 11 0xffffffff"
proof -
  let ?s = "demo_nmbm quiet_ops () \<lparr>block_state := [0xfffffcff]\<rparr>"
  have h: "length (block_mapping ?s) = unat (block_count ?s)" "mgmt_start_ba ?s \<le> block_count ?s"
    by (simp_all add: demo_nmbm_def)
  have g: "filter (\<lambda>pb. nmbm_get_block_state ?s (of_nat pb) \<noteq> 0) [0..<unat (mgmt_start_ba ?s)]
      = [0, 1, 2, 3, 5]" by code_simp
  have c: "unat (block_count ?s) = 16" by (simp add: demo_nmbm_def)
  show ?thesis
    using nmbm_build_mapping_table_spec [OF h] unfolding g Let_def c by simp
qed

lemma scan_badblock_state:
  assumes pure: "\<And>d a. op_block_isbad (lower_ops s) d a = (bad a, d)"
    and c: "states_cover s" "of_nat ba < block_count s" "x < block_count s"
  shows "nmbm_get_block_state (scan_badblock s ba) x =
    (if x = of_nat ba \<and> bad (ba2addr s x) \<noteq> 0 then BLOCK_ST_BAD else nmbm_get_block_state s x)"
proof -
  have cov: "state_covers s (of_nat ba)" using c(1,2) by (rule states_cover_at)
  have s1: "scan_badblock s ba =
      (if bad (ba2addr s (of_nat ba)) \<noteq> 0 then snd (nmbm_set_block_state s (of_nat ba) BLOCK_ST_BAD) else s)"
    by (simp add: scan_badblock_def nmbm_check_bad_phys_block_def lower_isbad_def pure)
  show ?thesis
    using cov by (auto simp: s1 get_set_block_state_same get_set_block_state_other)
qed

lemma scan_badblock_frame:
  "states_cover s \<Longrightarrow> of_nat ba < block_count s \<Longrightarrow> wear s (scan_badblock s ba)"
  using check_bad_wear [of s "of_nat ba"] wear_then_mark(2) [of s _ "of_nat ba"]
  by (auto simp: scan_badblock_def split: prod.splits)

lemma ba2addr_wear: "wear s t \<Longrightarrow> ba2addr t x = ba2addr s x"
  by (simp add: ba2addr_def wear_fields)

lemma scan_fold:
  assumes pure: "\<And>d a. op_block_isbad (lower_ops s) d a = (bad a, d)"
    and c: "states_cover s" and n: "n \<le> unat (block_count s)"
  shows "wear s (foldl scan_badblock s [0..<n])
    \<and> (\<forall>x < block_count s. nmbm_get_block_state (foldl scan_badblock s [0..<n]) x =
        (if unat x < n \<and> bad (ba2addr s x) \<noteq> 0 then BLOCK_ST_BAD else nmbm_get_block_state s x))"
  using n
proof (induction n)
  case 0
  then show ?case by simp
next
  case (Suc n)
  let ?t = "foldl scan_badblock s [0..<n]"
  have IH: "wear s ?t" "\<And>x. x < block_count s \<Longrightarrow> nmbm_get_block_state ?t x =
      (if unat x < n \<and> bad (ba2addr s x) \<noteq> 0 then 0 else nmbm_get_block_state s x)"
    using Suc by simp_all
  have small: "n < 2 ^ LENGTH(32)"
    using Suc.prems unsigned_less [of "block_count s", where 'a = nat] by simp
  have u: "unat (of_nat n :: u32) = n" using small by (rule unat_of_nat_small)
  then have nb: "of_nat n < block_count ?t"
    using Suc.prems IH(1) by (simp add: wear_fields word_less_nat_alt)
  have eq: "x = of_nat n \<longleftrightarrow> unat x = n" for x :: u32 using u by auto
  have ct: "states_cover ?t" using c IH(1) by (simp add: states_cover_wear)
  have pt: "\<And>d a. op_block_isbad (lower_ops ?t) d a = (bad a, d)"
    using pure IH(1) by (simp add: wear_fields)
  have "nmbm_get_block_state (scan_badblock ?t n) x =
      (if unat x < Suc n \<and> bad (ba2addr s x) \<noteq> 0 then 0 else nmbm_get_block_state s x)"
    if "x < block_count s" for x
    using scan_badblock_state [OF pt ct nb, of x] IH that
    by (auto simp: wear_fields ba2addr_wear eq less_Suc_eq)
  moreover have "wear s (scan_badblock ?t n)"
    using IH(1) scan_badblock_frame [OF ct nb] by (rule wear_trans)
  ultimately show ?case by simp
qed

text \<open>
  The scan marks exactly the blocks that the chip reports as bad, and leaves the states
  of the others. Here the chip's answer is a function of the address.
\<close>

theorem nmbm_scan_badblocks_spec:
  assumes "\<And>d a. op_block_isbad (lower_ops s) d a = (bad a, d)"
    and "states_cover s" and "x < block_count s"
  shows "nmbm_get_block_state (nmbm_scan_badblocks s) x =
    (if bad (ba2addr s x) \<noteq> 0 then BLOCK_ST_BAD else nmbm_get_block_state s x)"
  using conjunct2 [OF scan_fold [OF assms(1,2), where n = "unat (block_count s)", simplified]] assms(3)
  by (simp add: nmbm_scan_badblocks_def word_less_nat_alt)

lemma demo_states_cover: "states_cover (demo_nmbm drv d)"
proof -
  have "unat (ba div 16) < 1" if "ba < 16" for ba :: u32
    using that by (simp add: word_less_nat_alt unat_div)
  then show ?thesis by (simp add: states_cover_def state_covers_def demo_nmbm_def)
qed

theorem nmbm_scan_badblocks_spec_witness:
  "nmbm_get_block_state (nmbm_scan_badblocks
     (demo_nmbm (quiet_ops \<lparr>op_block_isbad := \<lambda>d a. (if a = 320 then 1 else 0, d)\<rparr>) ())) 5 = 0"
proof -
  let ?s = "demo_nmbm (quiet_ops \<lparr>op_block_isbad := \<lambda>d a. (if a = 320 then 1 else 0, d)\<rparr>) ()"
  have p: "op_block_isbad (lower_ops ?s) d a = ((if a = 320 then 1 else 0), d)" for d a
    by (simp add: demo_nmbm_def)
  have b: "(5 :: u32) < block_count ?s" and a: "ba2addr ?s 5 = 320"
    by (simp_all add: demo_nmbm_def ba2addr_def)
  show ?thesis using nmbm_scan_badblocks_spec [OF p demo_states_cover b] unfolding a by simp
qed

section \<open>The image of the information table\<close>

lemma length_words_bytes [simp]: "length (words_bytes ws) = 4 * length ws"
  by (induction ws) (simp_all add: words_bytes_def)

lemma rd32_words_bytes: "i < length ws \<Longrightarrow> rd32 (words_bytes ws) (4 * i) = ws ! i"
proof (induction ws arbitrary: i)
  case Nil
  then show ?case by simp
next
  case (Cons w ws)
  have wb: "words_bytes (w # ws) = le_bytes 4 w @ words_bytes ws" by (simp add: words_bytes_def)
  show ?case
  proof (cases i)
    case 0
    then show ?thesis by (simp add: wb rd32_def rd_bytes_head le_val_le_bytes)
  next
    case (Suc j)
    then have "rd32 (words_bytes (w # ws)) (4 * i) = rd32 (words_bytes ws) (4 * j)"
      by (simp add: wb rd32_def rd_bytes_append2)
    then show ?thesis using Cons Suc by simp
  qed
qed

lemma bytes_words_round_trip: "bytes_words (words_bytes ws) = ws"
  by (intro nth_equalityI) (simp_all add: bytes_words_def rd32_words_bytes)

lemma rd_bytes_drop: "n \<le> off \<Longrightarrow> off + k \<le> length b \<Longrightarrow> drop n b = drop n c \<Longrightarrow> length c = length b
    \<Longrightarrow> rd_bytes b off k = rd_bytes c off k"
  by (simp add: rd_bytes_take_drop) (metis add_diff_inverse_nat drop_drop not_le add.commute)

lemma table_images:
  assumes "c = buf_put (buf_put (buf_put (replicate n x) so ws) mo wm) 0 hdr"
    and "length hdr \<le> so" and "so + length ws \<le> mo" and "mo + length wm \<le> n"
  shows "rd_bytes c so (length ws) = ws \<and> rd_bytes c mo (length wm) = wm"
proof -
  let ?c1 = "buf_put (replicate n x) so ws"
  have "rd_bytes c so (length ws) = rd_bytes (buf_put ?c1 mo wm) so (length ws)"
    unfolding assms(1) using assms(2-4) by (intro rd_bytes_put_other) auto
  also have "\<dots> = rd_bytes ?c1 so (length ws)"
    using assms(3,4) by (intro rd_bytes_put_other) auto
  also have "\<dots> = ws" using assms(3,4) by (intro rd_bytes_put_same) simp
  finally have "rd_bytes c so (length ws) = ws" .
  moreover have "rd_bytes c mo (length wm) = rd_bytes (buf_put ?c1 mo wm) mo (length wm)"
    unfolding assms(1) using assms(2-4) by (intro rd_bytes_put_other) auto
  moreover have "rd_bytes (buf_put ?c1 mo wm) mo (length wm) = wm"
    using assms(4) by (intro rd_bytes_put_same) simp
  ultimately show ?thesis by simp
qed

text \<open>
  C27. The image of the information table is one that the code accepts: its header has the
  magic number, its checksum passes, and the two tables and the number of writes decode from
  it as they are in memory.
\<close>

theorem nmbm_info_table_image:
  assumes crc: "crc_streams crc"
    and st: "unat (state_table_size s) = 4 * length (block_state s)"
    and mt: "unat (mapping_table_size s) = 4 * length (block_mapping s)"
    and lo: "32 \<le> unat (it_state_table_off (info_table s))"
    and mid: "unat (it_state_table_off (info_table s)) + unat (state_table_size s)
      \<le> unat (it_mapping_table_off (info_table s))"
    and hi: "unat (it_mapping_table_off (info_table s)) + unat (mapping_table_size s) \<le> unat (info_table_size s)"
    and gen: "nmbm_generate_info_table_cache crc s = (changed, t)"
  shows "nmbm_check_header crc (info_table_cache t) (info_table_size t)
    \<and> rd32 (info_table_cache t) 0 = NMBM_MAGIC_INFO_TABLE
    \<and> bytes_words (rd_bytes (info_table_cache t) (unat (it_state_table_off (info_table s)))
        (unat (state_table_size s))) = block_state s
    \<and> bytes_words (rd_bytes (info_table_cache t) (unat (it_mapping_table_off (info_table s)))
        (unat (mapping_table_size s))) = block_mapping s
    \<and> rd32 (info_table_cache t) 16 = it_write_count (info_table t)"
proof -
  let ?so = "unat (it_state_table_off (info_table s))" and ?mo = "unat (it_mapping_table_off (info_table s))"
  let ?n = "unat (info_table_size s)"
  define c2 where "c2 = buf_put (buf_put (replicate ?n 0xff) ?so (words_bytes (block_state s))) ?mo
    (words_bytes (block_mapping s))"
  define it where "it = info_table t"
  have it: "h_magic (it_header it) = 0x314d4d4e" "h_size (it_header it) = info_table_size s"
    using gen by (auto simp: it_def nmbm_generate_info_table_cache_def Let_def)
  define c3 where "c3 = buf_put c2 0 (info_header_bytes it)"
  have len: "length c3 = ?n" "length c2 = ?n" by (simp_all add: c3_def c2_def)
  have cache: "info_table_cache t = nmbm_update_checksum crc c3" and sz: "info_table_size t = info_table_size s"
    using gen st mt by (auto simp: c3_def c2_def it_def nmbm_generate_info_table_cache_def Let_def)
  have big: "32 \<le> ?n" using lo mid hi by simp
  have head: "rd32 c3 off = rd32 (info_header_bytes it) off" if "off + 4 \<le> 32" for off
  proof -
    have "c3 = info_header_bytes it @ drop 32 c2" using big len by (simp add: c3_def buf_put_def)
    then show ?thesis using that by (simp add: rd32_def rd_bytes_append1)
  qed
  have fields: "rd32 c3 0 = h_magic (it_header it)" "rd32 c3 8 = h_size (it_header it)" "rd32 c3 16 = it_write_count it"
    by (simp_all add: head) (simp_all add: info_header_bytes_def header_bytes_def rd_codec)
  have hs: "unat (rd32 c3 8) = ?n" using fields it by simp
  have u: "nmbm_check_header crc (nmbm_update_checksum crc c3) (info_table_size s)"
    "take 12 (nmbm_update_checksum crc c3) = take 12 c3"
    "drop 16 (nmbm_update_checksum crc c3) = drop 16 c3"
    "length (nmbm_update_checksum crc c3) = length c3"
    using update_checksum_passes [OF crc, of c3 "info_table_size s"] hs big len fields it by simp_all
  have images: "rd_bytes c3 ?so (4 * length (block_state s)) = words_bytes (block_state s)
      \<and> rd_bytes c3 ?mo (4 * length (block_mapping s)) = words_bytes (block_mapping s)"
    using table_images [OF c3_def [unfolded c2_def]] lo mid hi st mt by simp
  have state: "rd_bytes (info_table_cache t) ?so (4 * length (block_state s)) = words_bytes (block_state s)"
    unfolding cache images [THEN conjunct1, symmetric] using u lo mid hi st len by (intro rd_bytes_drop [of 16]) auto
  have map_: "rd_bytes (info_table_cache t) ?mo (4 * length (block_mapping s)) = words_bytes (block_mapping s)"
    unfolding cache images [THEN conjunct2, symmetric] using u lo mid hi mt len by (intro rd_bytes_drop [of 16]) auto
  have "rd32 (info_table_cache t) 0 = rd32 c3 0"
  proof -
    have "take 4 (info_table_cache t) = take 4 c3"
      using arg_cong [OF u(2), of "take 4"] by (simp add: cache)
    then show ?thesis using u(4) len big by (simp add: rd32_def rd_bytes_take_drop cache)
  qed
  moreover have "rd32 (info_table_cache t) 16 = rd32 c3 16"
    using rd_bytes_drop [of 16 16 4 "nmbm_update_checksum crc c3" c3] u len big by (simp add: rd32_def cache)
  ultimately show ?thesis
    using u(1) state map_ fields it
    by (simp add: st mt bytes_words_round_trip sz flip: cache) (simp add: it_def)
qed

theorem nmbm_info_table_image_witness:
  "let crc = \<lambda>v xs. foldl (\<lambda>a b. a + ucast b) v xs; s = demo_nmbm quiet_ops ();
       cache = info_table_cache (snd (nmbm_generate_info_table_cache crc s))
   in bytes_words (rd_bytes cache 32 4) = [0xffffffff]
      \<and> bytes_words (rd_bytes cache 48 64) = replicate 16 0xffffffff"
proof -
  let ?crc = "\<lambda>v xs. foldl (\<lambda>a b. a + ucast b) v xs" and ?s = "demo_nmbm quiet_ops ()"
  have c: "crc_streams ?crc" by (simp add: crc_streams_def)
  have f: "unat (it_state_table_off (info_table ?s)) = 32" "unat (it_mapping_table_off (info_table ?s)) = 48"
    "unat (state_table_size ?s) = 4" "unat (mapping_table_size ?s) = 64" "unat (info_table_size ?s) = 112"
    "block_state ?s = [0xffffffff]" "block_mapping ?s = replicate 16 0xffffffff"
    by (simp_all add: demo_nmbm_def)
  have h: "unat (state_table_size ?s) = 4 * length (block_state ?s)"
    "unat (mapping_table_size ?s) = 4 * length (block_mapping ?s)"
    "32 \<le> unat (it_state_table_off (info_table ?s))"
    "unat (it_state_table_off (info_table ?s)) + unat (state_table_size ?s)
      \<le> unat (it_mapping_table_off (info_table ?s))"
    "unat (it_mapping_table_off (info_table ?s)) + unat (mapping_table_size ?s) \<le> unat (info_table_size ?s)"
    by (simp_all only: f) simp_all
  show ?thesis
    using nmbm_info_table_image [OF c h prod.collapse [symmetric]] unfolding f Let_def by blast
qed

text \<open>
  A management write that succeeds has used blocks between its start and its limit; in
  every case it only wears the chip: no block that was bad becomes good again, and the
  number of changes to be written back is the number of blocks that were lost.
\<close>

theorem nmbm_write_mgmt_range_bounds:
  assumes "states_cover s" and "limit \<le> block_count s" and "0 < blk_size s" and "sz \<noteq> 0"
    and "nmbm_write_mgmt_range s ba limit dat sz = (res, t)"
  shows "wear s t \<and> (\<forall>a e. res = Some (a, e) \<longrightarrow> ba \<le> a \<and> a < e \<and> e \<le> limit)"
  using write_mgmt_loop_wear [OF assms(1-3), of ba dat sz sz 0 res t] assms(4,5)
  by (auto simp: nmbm_write_mgmt_range_def split: option.splits)

lemma demo_nmbm_fields:
  "block_count (demo_nmbm drv d) = 16" "blk_size (demo_nmbm drv d) = 64"
  "info_table_size (demo_nmbm drv d) = 112" "mapping_blocks_top_ba (demo_nmbm drv d) = 14"
  "mgmt_start_ba (demo_nmbm drv d) = 6" "lower_ops (demo_nmbm drv d) = drv"
  by (simp_all add: demo_nmbm_def)

theorem nmbm_write_mgmt_range_bounds_witness:
  "wear (demo_nmbm quiet_ops ()) (snd (nmbm_write_mgmt_range (demo_nmbm quiet_ops ()) 6 14 (replicate 100 0xff) 100))"
  by (rule conjunct1 [OF nmbm_write_mgmt_range_bounds [OF demo_states_cover _ _ _ prod.collapse [symmetric]]])
    (simp_all add: demo_nmbm_fields)

end
