(* ===== verification/Nmbm_Tables.thy ===== *)
theory Nmbm_Tables
  imports Nmbm_Write
begin

text \<open>
  The information tables of the NMBM backend, \<^verbatim>\<open>drivers/mtd/nand/mtk_bmt_nmbm.c\<close>: how the main
  and the backup table are built, updated and rescued, and how a spare block is mapped.

  The C loops that try one block after another below a start do not end when their lower
  bound is block 0 and every write fails, because the block number wraps around. These loops,
  and the loop that repeats an update until it found no new bad block, have a result of type
  \<open>option\<close>: \<open>None\<close> is a loop that does not return.
\<close>

section \<open>The operations\<close>

text \<open>The limit of the reservation of spare blocks: there is room for one table after it.\<close>

definition table_room :: "('d, 'z) nmbm_scheme \<Rightarrow> u32" where
  "table_room s = mapping_blocks_top_ba s - size2blk s (ucast (info_table_size s))"

text \<open>The second half of a rebuild, after the main table: the backup table, when there is room.\<close>

definition rebuild_backup_table :: "('d, 'z) nmbm_scheme \<Rightarrow> u32 \<Rightarrow> ('d, 'z) nmbm_scheme" where
  "rebuild_backup_table s main_table_end =
     (case nmbm_try_reserve_blocks s main_table_end (info_table_spare_blocks s) 0 (table_room s) of
        None \<Rightarrow> s
      | Some next_start \<Rightarrow>
          case nmbm_write_info_table s next_start (mapping_blocks_top_ba s) of
            (None, s1) \<Rightarrow> s1
          | (Some (start, end_ba), s1) \<Rightarrow>
              nmbm_erase_range (s1\<lparr>backup_table_ba := start, mapping_blocks_ba := end_ba\<rparr>)
                main_table_end start)"

definition nmbm_rebuild_info_table :: "('d, 'z) nmbm_scheme \<Rightarrow> bool \<times> ('d, 'z) nmbm_scheme" where
  "nmbm_rebuild_info_table s =
     (let s0 = s\<lparr>main_table_ba := 0, backup_table_ba := 0, mapping_blocks_ba := mapping_blocks_top_ba s\<rparr>
      in case nmbm_write_info_table s0 (mgmt_start_ba s0) (mapping_blocks_top_ba s0) of
        (None, s1) \<Rightarrow> (False, s1\<lparr>protected := True\<rparr>)
      | (Some (start, end_ba), s1) \<Rightarrow>
          (True, rebuild_backup_table
                   (nmbm_mark_tables_clean (s1\<lparr>main_table_ba := start, mapping_blocks_ba := end_ba\<rparr>)) end_ba))"

text \<open>
  The loop that writes the table at \<open>write_ba\<close>, or below it, but not below \<open>low\<close>. It is only
  entered with \<open>low \<le> write_ba\<close>, as \<open>nmbm_try_reserve_blocks\<close> gives it.
\<close>

partial_function (option) write_table_down ::
  "('d, 'z) nmbm_scheme \<Rightarrow> u32 \<Rightarrow> u32 \<Rightarrow> ((u32 \<times> u32) option \<times> ('d, 'z) nmbm_scheme) option" where
  "write_table_down s write_ba low =
     (if write_ba \<ge> low then
        case nmbm_write_info_table s write_ba (mapping_blocks_top_ba s) of
          (res, s1) \<Rightarrow>
            if res = None then write_table_down s1 (write_ba - 1) low else Some (res, s1)
      else Some (None, s))"

definition nmbm_rescue_single_info_table ::
  "('d, 'z) nmbm_scheme \<Rightarrow> (bool \<times> ('d, 'z) nmbm_scheme) option" where
  "nmbm_rescue_single_info_table s =
     (case nmbm_write_info_table s (mgmt_start_ba s) (main_table_ba s) of
        (Some (start, end_ba), s1) \<Rightarrow>
          let s2 = nmbm_mark_tables_clean (s1\<lparr>backup_table_ba := main_table_ba s1, main_table_ba := start\<rparr>)
          in Some (True, nmbm_erase_range s2 end_ba (backup_table_ba s2))
      | (None, s1) \<Rightarrow>
          case nmbm_try_reserve_blocks s1 (mapping_blocks_ba s1) (info_table_spare_blocks s1) 0 (table_room s1) of
            None \<Rightarrow> Some (False, s1)
          | Some write_ba \<Rightarrow>
              map_option (\<lambda>(res, s2).
                  case res of
                    Some (start, end_ba) \<Rightarrow>
                      (True, nmbm_mark_tables_clean
                         ((nmbm_erase_range s2 (mapping_blocks_ba s2) start)
                            \<lparr>backup_table_ba := start, mapping_blocks_ba := end_ba\<rparr>))
                  | None \<Rightarrow> (False, s2))
                (write_table_down s1 write_ba (mapping_blocks_ba s1)))"

definition nmbm_update_single_info_table ::
  "('d, 'z) nmbm_scheme \<Rightarrow> bool \<Rightarrow> (bool \<times> ('d, 'z) nmbm_scheme) option" where
  "nmbm_update_single_info_table s update_main_table =
     (let write_start_ba = (if update_main_table then main_table_ba s else backup_table_ba s);
          write_limit = (if update_main_table then backup_table_ba s else mapping_blocks_top_ba s)
      in case nmbm_write_info_table s write_start_ba write_limit of
        (Some (start, end_ba), s1) \<Rightarrow>
          Some (True, nmbm_mark_tables_clean
            (if update_main_table then s1\<lparr>main_table_ba := start\<rparr>
             else s1\<lparr>backup_table_ba := start, mapping_blocks_ba := end_ba\<rparr>))
      | (None, s1) \<Rightarrow>
          if update_main_table then
            nmbm_rescue_single_info_table (s1\<lparr>main_table_ba := backup_table_ba s1, backup_table_ba := 0\<rparr>)
          else Some (False, s1\<lparr>mapping_blocks_ba := backup_table_ba s1, backup_table_ba := 0\<rparr>))"

text \<open>The rest of the rescue, when the new main table runs into the temporary one.\<close>

definition rescue_main_overwritten ::
  "('d, 'z) nmbm_scheme \<Rightarrow> u32 \<Rightarrow> (bool \<times> ('d, 'z) nmbm_scheme) option" where
  "rescue_main_overwritten s main_end =
     (let s1 = s\<lparr>mapping_blocks_ba := main_end\<rparr>
      in case nmbm_try_reserve_blocks s1 main_end (info_table_spare_blocks s1) 0 (table_room s1) of
        None \<Rightarrow> Some (True, s1\<lparr>backup_table_ba := 0\<rparr>)
      | Some write_ba \<Rightarrow>
          map_option (\<lambda>(res, s2).
              case res of
                None \<Rightarrow> (True, s2\<lparr>backup_table_ba := 0\<rparr>)
              | Some (start, end_ba) \<Rightarrow>
                  (True, nmbm_erase_range (s2\<lparr>backup_table_ba := start, mapping_blocks_ba := end_ba\<rparr>)
                           main_end start))
            (write_table_down s1 write_ba main_end))"

definition nmbm_rescue_main_info_table ::
  "('d, 'z) nmbm_scheme \<Rightarrow> (bool \<times> ('d, 'z) nmbm_scheme) option" where
  "nmbm_rescue_main_info_table s =
     (case nmbm_try_reserve_blocks s (mapping_blocks_ba s) (info_table_spare_blocks s) 0 (table_room s) of
        None \<Rightarrow> Some (True, s\<lparr>main_table_ba := backup_table_ba s, backup_table_ba := 0\<rparr>)
      | Some write_ba \<Rightarrow>
          Option.bind (write_table_down s write_ba (mapping_blocks_ba s)) (\<lambda>(res, s1).
            case res of
              None \<Rightarrow> Some (True, s1\<lparr>main_table_ba := backup_table_ba s1, backup_table_ba := 0\<rparr>)
            | Some (tmp_start, tmp_end) \<Rightarrow>
                let s2 = s1\<lparr>mapping_blocks_ba := tmp_end\<rparr>
                in case nmbm_write_info_table s2 (mgmt_start_ba s2) tmp_start of
                  (None, s3) \<Rightarrow>
                    Some (True, nmbm_mark_tables_clean (s3\<lparr>main_table_ba := tmp_start, backup_table_ba := 0\<rparr>))
                | (Some (main_start, main_end), s3) \<Rightarrow>
                    let s4 = nmbm_mark_tables_clean (s3\<lparr>main_table_ba := main_start\<rparr>)
                    in if main_end \<le> tmp_start then Some (True, s4\<lparr>backup_table_ba := tmp_start\<rparr>)
                       else rescue_main_overwritten s4 main_end))"

text \<open>The label \<open>write_main_table\<close>.\<close>

definition update_main_table ::
  "('d, 'z) nmbm_scheme \<Rightarrow> u32 \<Rightarrow> (bool \<times> ('d, 'z) nmbm_scheme) option" where
  "update_main_table s main_table_limit =
     (if main_table_ba s = 0 then Some (nmbm_rebuild_info_table s)
      else case nmbm_write_info_table s (main_table_ba s) main_table_limit of
        (None, s1) \<Rightarrow>
          if backup_table_ba s1 = 0 then Some (nmbm_rebuild_info_table s1)
          else nmbm_rescue_main_info_table s1
      | (Some (start, end_ba), s1) \<Rightarrow>
          let s2 = s1\<lparr>main_table_ba := start\<rparr>;
              s3 = (if backup_table_ba s2 = 0 then s2\<lparr>mapping_blocks_ba := end_ba\<rparr> else s2)
          in Some (True, nmbm_mark_tables_clean s3))"

definition nmbm_update_info_table_once ::
  "crc32 \<Rightarrow> ('d, 'z) nmbm_scheme \<Rightarrow> bool \<Rightarrow> (bool \<times> ('d, 'z) nmbm_scheme) option" where
  "nmbm_update_info_table_once crc s force =
     (case nmbm_generate_info_table_cache crc s of
        (changed, s0) \<Rightarrow>
          if \<not> changed \<and> \<not> force then Some (True, s0)
          else if backup_table_ba s0 = 0 then update_main_table s0 (mapping_blocks_top_ba s0)
          else case nmbm_write_info_table s0 (backup_table_ba s0) (mapping_blocks_top_ba s0) of
            (None, s1) \<Rightarrow>
              update_main_table (s1\<lparr>mapping_blocks_ba := backup_table_ba s1, backup_table_ba := 0\<rparr>)
                (mapping_blocks_top_ba s1)
          | (Some (start, end_ba), s1) \<Rightarrow>
              update_main_table
                (nmbm_mark_tables_clean (s1\<lparr>backup_table_ba := start, mapping_blocks_ba := end_ba\<rparr>)) start)"

partial_function (option) nmbm_update_loop ::
  "crc32 \<Rightarrow> ('d, 'z) nmbm_scheme \<Rightarrow> (bool \<times> ('d, 'z) nmbm_scheme) option" where
  "nmbm_update_loop crc s =
     (if block_state_changed s \<noteq> 0 \<or> block_mapping_changed s \<noteq> 0 then
        Option.bind (nmbm_update_info_table_once crc s False) (\<lambda>r.
          if fst r then nmbm_update_loop crc (snd r) else Some (False, snd r))
      else Some (True, s))"

definition nmbm_update_info_table ::
  "crc32 \<Rightarrow> ('d, 'z) nmbm_scheme \<Rightarrow> (bool \<times> ('d, 'z) nmbm_scheme) option" where
  "nmbm_update_info_table crc s = (if protected s then Some (True, s) else nmbm_update_loop crc s)"

definition nmbm_map_block ::
  "crc32 \<Rightarrow> ('d, 'z) nmbm_scheme \<Rightarrow> u32 \<Rightarrow> (bool \<times> ('d, 'z) nmbm_scheme) option" where
  "nmbm_map_block crc s lb =
     (if mapping_blocks_ba s = mapping_blocks_top_ba s then Some (False, s)
      else case nmbm_block_walk s False (mapping_blocks_top_ba s) 0 (mapping_blocks_ba s) of
        None \<Rightarrow>
          map_option (\<lambda>(_, s1). (False, s1\<lparr>mapping_blocks_top_ba := mapping_blocks_ba s1\<rparr>))
            (nmbm_update_info_table crc s)
      | Some pb \<Rightarrow>
          Some (True, s\<lparr>block_mapping := (block_mapping s)[unat lb := pb],
                        mapping_blocks_top_ba := mapping_blocks_top_ba s - 1,
                        block_mapping_changed := block_mapping_changed s + 1\<rparr>))"

section \<open>What every update keeps\<close>

text \<open>The conditions on a chip: the table of states covers it, and the sizes are not zero.\<close>

definition chip_ok :: "('d, 'z) nmbm_scheme \<Rightarrow> bool" where
  "chip_ok s \<longleftrightarrow> states_cover s \<and> mapping_blocks_top_ba s \<le> block_count s
     \<and> 0 < blk_size s \<and> info_table_size s \<noteq> 0"

text \<open>
  An update may move the tables and wear the chip, and changes nothing else: the block
  mapping and the geometry stay.
\<close>

definition worn :: "('d, 'z) nmbm_scheme \<Rightarrow> ('d, 'z) nmbm_scheme \<Rightarrow> bool" where
  "worn s t \<longleftrightarrow>
     length (block_state t) = length (block_state s) \<and> block_count t = block_count s
     \<and> mapping_blocks_top_ba t = mapping_blocks_top_ba s \<and> mgmt_start_ba t = mgmt_start_ba s
     \<and> blk_size t = blk_size s \<and> info_table_size t = info_table_size s
     \<and> block_mapping t = block_mapping s \<and> data_block_count t = data_block_count s
     \<and> signature_ba t = signature_ba s \<and> geometry t = geometry s
     \<and> (\<forall>ba < block_count s. nmbm_get_block_state t ba = nmbm_get_block_state s ba
                           \<or> nmbm_get_block_state t ba = BLOCK_ST_BAD)
     \<and> usable t \<le> usable s"

text \<open>
  The tables lie in the management area, in order, below the spare blocks that can still be
  mapped. Block 0 as the place of a table means that there is no such table.
\<close>

definition placed :: "('d, 'z) nmbm_scheme \<Rightarrow> bool" where
  "placed s \<longleftrightarrow> mgmt_start_ba s \<le> main_table_ba s \<and> main_table_ba s < mapping_blocks_ba s
     \<and> mapping_blocks_ba s \<le> mapping_blocks_top_ba s
     \<and> (backup_table_ba s \<noteq> 0 \<longrightarrow> main_table_ba s < backup_table_ba s \<and> backup_table_ba s < mapping_blocks_ba s)"

text \<open>
  The changes that are still to be written are exactly the blocks lost since the last write
  of a table, and these are fewer than the blocks lost since \<open>s\<close>.
\<close>

definition synced :: "('d, 'z) nmbm_scheme \<Rightarrow> ('d, 'z) nmbm_scheme \<Rightarrow> bool" where
  "synced s t \<longleftrightarrow> (\<exists>n. usable t + n \<le> usable s \<and> block_state_changed t = of_nat n)
     \<and> block_mapping_changed t = 0"

lemma usable_updates [simp]:
  "usable (t\<lparr>main_table_ba := x\<rparr>) = usable t" "usable (t\<lparr>backup_table_ba := x\<rparr>) = usable t"
  "usable (t\<lparr>mapping_blocks_ba := x\<rparr>) = usable t" "usable (t\<lparr>protected := b\<rparr>) = usable t"
  "usable (nmbm_mark_tables_clean t) = usable t"
  "usable (t\<lparr>info_table := i, info_table_cache := c\<rparr>) = usable t"
  by (rule usable_cong; simp add: nmbm_mark_tables_clean_def)+

lemma get_block_state_cong: "block_state t = block_state s \<Longrightarrow> nmbm_get_block_state t ba = nmbm_get_block_state s ba"
  by (simp add: nmbm_get_block_state_def)

lemma get_block_state_updates [simp]:
  "nmbm_get_block_state (t\<lparr>main_table_ba := x\<rparr>) ba = nmbm_get_block_state t ba"
  "nmbm_get_block_state (t\<lparr>backup_table_ba := x\<rparr>) ba = nmbm_get_block_state t ba"
  "nmbm_get_block_state (t\<lparr>mapping_blocks_ba := x\<rparr>) ba = nmbm_get_block_state t ba"
  "nmbm_get_block_state (t\<lparr>protected := b\<rparr>) ba = nmbm_get_block_state t ba"
  "nmbm_get_block_state (nmbm_mark_tables_clean t) ba = nmbm_get_block_state t ba"
  "nmbm_get_block_state (t\<lparr>info_table := i, info_table_cache := c\<rparr>) ba = nmbm_get_block_state t ba"
  by (rule get_block_state_cong; simp add: nmbm_mark_tables_clean_def)+

lemma clean_fields [simp]:
  "mgmt_start_ba (nmbm_mark_tables_clean t) = mgmt_start_ba t"
  "main_table_ba (nmbm_mark_tables_clean t) = main_table_ba t"
  "backup_table_ba (nmbm_mark_tables_clean t) = backup_table_ba t"
  "mapping_blocks_ba (nmbm_mark_tables_clean t) = mapping_blocks_ba t"
  "mapping_blocks_top_ba (nmbm_mark_tables_clean t) = mapping_blocks_top_ba t"
  "block_count (nmbm_mark_tables_clean t) = block_count t"
  "block_state (nmbm_mark_tables_clean t) = block_state t"
  "info_table_size (nmbm_mark_tables_clean t) = info_table_size t"
  "info_table_spare_blocks (nmbm_mark_tables_clean t) = info_table_spare_blocks t"
  "block_mapping (nmbm_mark_tables_clean t) = block_mapping t"
  "protected (nmbm_mark_tables_clean t) = protected t"
  "block_state_changed (nmbm_mark_tables_clean t) = 0"
  "block_mapping_changed (nmbm_mark_tables_clean t) = 0"
  by (simp_all add: nmbm_mark_tables_clean_def)

lemma worn_updates [simp]:
  "worn s (t\<lparr>main_table_ba := x\<rparr>) = worn s t" "worn s (t\<lparr>backup_table_ba := x\<rparr>) = worn s t"
  "worn s (t\<lparr>mapping_blocks_ba := x\<rparr>) = worn s t" "worn s (t\<lparr>protected := b\<rparr>) = worn s t"
  "worn s (nmbm_mark_tables_clean t) = worn s t"
  "worn s (t\<lparr>info_table := i, info_table_cache := c\<rparr>) = worn s t"
  by (simp_all add: worn_def geometry_def) (simp_all add: nmbm_mark_tables_clean_def)

lemma synced_updates [simp]:
  "synced s (t\<lparr>main_table_ba := x\<rparr>) = synced s t" "synced s (t\<lparr>backup_table_ba := x\<rparr>) = synced s t"
  "synced s (t\<lparr>mapping_blocks_ba := x\<rparr>) = synced s t" "synced s (t\<lparr>protected := b\<rparr>) = synced s t"
  by (simp_all add: synced_def)

lemma worn_refl [simp, intro]: "worn s s"
  by (simp add: worn_def)

lemma worn_trans [trans]: "worn s t \<Longrightarrow> worn t u \<Longrightarrow> worn s u"
  unfolding worn_def by (metis order_trans)

lemma wear_worn: "wear s t \<Longrightarrow> worn s t"
  unfolding worn_def by (simp add: wear_fields) (simp add: wear_def)

lemma worn_wear: "worn s t \<Longrightarrow> wear t u \<Longrightarrow> worn s u"
  by (blast intro: worn_trans wear_worn)

lemma synced_clean: "worn s t \<Longrightarrow> synced s (nmbm_mark_tables_clean t)"
  by (auto simp: synced_def worn_def intro: exI [of _ 0])

lemma synced_wear:
  assumes "synced s t" and "wear t u"
  shows "synced s u"
proof -
  obtain n where n: "usable t + n \<le> usable s" "block_state_changed t = of_nat n" "block_mapping_changed t = 0"
    using assms(1) by (auto simp: synced_def)
  have w: "usable u \<le> usable t" "block_state_changed u = block_state_changed t + of_nat (usable t - usable u)"
    using assms(2) by (simp_all add: wear_def)
  then have "usable u + (n + (usable t - usable u)) \<le> usable s"
    "block_state_changed u = of_nat (n + (usable t - usable u))"
    using n by simp_all
  then show ?thesis using n(3) wear_fields(14) [OF assms(2)] unfolding synced_def by metis
qed

lemma chip_ok_worn: "chip_ok s \<Longrightarrow> worn s t \<Longrightarrow> chip_ok t"
  by (simp add: chip_ok_def worn_def states_cover_def state_covers_def)

lemma chip_ok_updates [simp]:
  "chip_ok (t\<lparr>main_table_ba := x\<rparr>) = chip_ok t" "chip_ok (t\<lparr>backup_table_ba := x\<rparr>) = chip_ok t"
  "chip_ok (t\<lparr>mapping_blocks_ba := x\<rparr>) = chip_ok t"
  "chip_ok (nmbm_mark_tables_clean t) = chip_ok t"
  "chip_ok (t\<lparr>info_table := i, info_table_cache := c\<rparr>) = chip_ok t"
  by (simp_all add: chip_ok_def states_cover_def state_covers_def) (simp_all add: nmbm_mark_tables_clean_def)

text \<open>A write of the table: it wears the chip and uses blocks below its limit.\<close>

lemma write_table_bounds:
  assumes "chip_ok s" and "limit \<le> mapping_blocks_top_ba s" and "nmbm_write_info_table s ba limit = (res, t)"
  shows "wear s t \<and> (\<forall>a e. res = Some (a, e) \<longrightarrow> ba \<le> a \<and> a < e \<and> e \<le> limit)"
  using write_mgmt_loop_wear [of s limit ba "info_table_cache s" "info_table_size s" "info_table_size s" 0 res t] assms
  by (auto simp: nmbm_write_info_table_def nmbm_write_mgmt_range_def chip_ok_def split: option.splits)

lemma erase_range_wear_ok:
  "chip_ok s \<Longrightarrow> limit \<le> mapping_blocks_top_ba s \<Longrightarrow> wear s (nmbm_erase_range s ba limit)"
  by (rule nmbm_erase_range_wear) (auto simp: chip_ok_def)

lemma write_table_down_returns:
  assumes "chip_ok s" and "low \<noteq> 0"
  shows "\<exists>res t. write_table_down s write_ba low = Some (res, t) \<and> wear s t
    \<and> (\<forall>a e. res = Some (a, e) \<longrightarrow> low \<le> a \<and> a < e \<and> e \<le> mapping_blocks_top_ba s)"
  using assms
proof (induction "unat write_ba" arbitrary: s write_ba rule: less_induct)
  case less
  show ?case
  proof (cases "low \<le> write_ba")
    case False
    then show ?thesis by (simp add: write_table_down.simps)
  next
    case True
    obtain res t where w: "nmbm_write_info_table s write_ba (mapping_blocks_top_ba s) = (res, t)" by fastforce
    note b = write_table_bounds [OF less.prems(1) order_refl w]
    show ?thesis
    proof (cases res)
      case (Some r)
      then show ?thesis using True w b order_trans
        by (cases r) (auto simp: write_table_down.simps [of s])
    next
      case None
      have "0 < write_ba" using True less.prems(2) by (simp add: word_neq_0_conv order_less_le_trans)
      then have "unat (write_ba - 1) < unat write_ba" by (rule unat_dec_less)
      moreover have "chip_ok t" using less.prems(1) b by (simp add: chip_ok_worn wear_worn)
      ultimately obtain res' u where u: "write_table_down t (write_ba - 1) low = Some (res', u)" "wear t u"
        "\<forall>a e. res' = Some (a, e) \<longrightarrow> low \<le> a \<and> a < e \<and> e \<le> mapping_blocks_top_ba t"
        using less.hyps less.prems(2) by blast
      then show ?thesis
        using None True w b wear_trans by (simp add: write_table_down.simps [of s] wear_fields)
    qed
  qed
qed

lemma walk_asc_loop_ge: "walk_asc_loop s ba n limit = Some x \<Longrightarrow> ba \<le> x"
proof (induction s ba n limit rule: walk_asc_loop.induct)
  case (1 s ba n limit)
  show ?case
  proof (cases "ba < limit")
    case True
    then have "ba \<le> ba + 1" using unat_add_one_less [OF True] by (simp add: word_le_nat_alt)
    then show ?thesis
      using "1.prems" "1.IH" [OF True refl] True order_trans
      by (auto simp: walk_asc_loop.simps [of s ba] Let_def split: if_splits)
  next
    case False
    then show ?thesis using "1.prems" by (simp add: walk_asc_loop.simps [of s ba])
  qed
qed

lemma try_reserve_loop_ge: "try_reserve_loop s ba n m limit = Some x \<Longrightarrow> ba \<le> x"
proof (induction s ba n m limit rule: try_reserve_loop.induct)
  case (1 s ba n m limit)
  then show ?case
    by (subst (asm) (2) try_reserve_loop.simps)
      (auto simp: nmbm_block_walk_def nmbm_block_walk_asc_def split: if_splits option.splits dest: walk_asc_loop_ge)
qed

lemma try_reserve_ge: "nmbm_try_reserve_blocks s ba n m limit = Some x \<Longrightarrow> ba \<le> x"
  by (auto simp: nmbm_try_reserve_blocks_def dest: try_reserve_loop_ge)

section \<open>The updates keep the tables in order\<close>

text \<open>The result of an update: when it succeeded, the tables are placed and written back,
  and when it failed there is no table.\<close>

definition updated :: "('d, 'z) nmbm_scheme \<Rightarrow> bool \<times> ('d, 'z) nmbm_scheme \<Rightarrow> bool" where
  "updated s r \<longleftrightarrow> worn s (snd r)
     \<and> (if fst r then synced s (snd r) \<and> placed (snd r)
        else main_table_ba (snd r) = 0 \<and> mapping_blocks_ba (snd r) \<le> mapping_blocks_top_ba (snd r))"

text \<open>What holds of the tables at all times: there may be none, after a failed rebuild.\<close>

definition tables_ok :: "('d, 'z) nmbm_scheme \<Rightarrow> bool" where
  "tables_ok s \<longleftrightarrow> mapping_blocks_ba s \<le> mapping_blocks_top_ba s \<and> (main_table_ba s \<noteq> 0 \<longrightarrow> placed s)"

lemma updated_tables_ok: "updated s r \<Longrightarrow> tables_ok (snd r)"
  by (auto simp: updated_def tables_ok_def placed_def split: if_splits)

lemma updatedI: "worn s t \<Longrightarrow> synced s t \<Longrightarrow> placed t \<Longrightarrow> updated s (True, t)"
  by (simp add: updated_def)

lemma synced_mono:
  assumes "worn s t" and "synced t u"
  shows "synced s u"
proof -
  have "usable t \<le> usable s" using assms(1) by (simp add: worn_def)
  then show ?thesis using assms(2) unfolding synced_def by (meson order_trans)
qed

lemma updated_worn: "worn s t \<Longrightarrow> updated t r \<Longrightarrow> updated s r"
  unfolding updated_def using worn_trans synced_mono by (auto split: if_splits)

lemma placed_wear: "wear s t \<Longrightarrow> placed t = placed s"
  by (simp add: placed_def wear_fields)

text \<open>The same for an operation after the changes have been marked clean.\<close>

definition settled :: "('d, 'z) nmbm_scheme \<Rightarrow> ('d, 'z) nmbm_scheme \<Rightarrow> bool" where
  "settled s t \<longleftrightarrow> worn s t \<and> (\<forall>r. synced r s \<longrightarrow> synced r t) \<and> placed t"

lemma settled_wear: "settled s t \<Longrightarrow> wear t u \<Longrightarrow> settled s u"
  unfolding settled_def using worn_wear synced_wear placed_wear by blast

lemma settled_updated: "worn s t \<Longrightarrow> synced s t \<Longrightarrow> settled t u \<Longrightarrow> updated s (True, u)"
  unfolding settled_def updated_def by (auto intro: worn_trans)

lemma rebuild_backup_settled:
  assumes ok: "chip_ok s" and p: "placed s" and "mapping_blocks_ba s = end_ba"
  shows "settled s (rebuild_backup_table s end_ba)"
proof (cases "nmbm_try_reserve_blocks s end_ba (info_table_spare_blocks s) 0 (table_room s)")
  case None
  then show ?thesis using p by (simp add: rebuild_backup_table_def settled_def)
next
  case (Some next_start)
  note ge = try_reserve_ge [OF this]
  obtain res s1 where w: "nmbm_write_info_table s next_start (mapping_blocks_top_ba s) = (res, s1)" by fastforce
  note b = write_table_bounds [OF ok order_refl w]
  have "settled s s" using p by (simp add: settled_def)
  then have s1: "settled s s1" using conjunct1 [OF b] by (rule settled_wear)
  show ?thesis
  proof (cases res)
    case None
    then show ?thesis using s1 Some w by (simp add: rebuild_backup_table_def)
  next
    case (Some r)
    then obtain start e where r: "res = Some (start, e)" by (cases r) auto
    define s2 where "s2 = s1\<lparr>backup_table_ba := start, mapping_blocks_ba := e\<rparr>"
    have ends: "end_ba \<le> start" "start < e" "e \<le> mapping_blocks_top_ba s" using b r ge by auto
    have "main_table_ba s < end_ba" using p assms(3) by (simp add: placed_def)
    then have "main_table_ba s < start" using ends(1) by (rule less_le_trans)
    moreover from this have "main_table_ba s < e" using ends(2) by (rule less_trans)
    ultimately have "placed s2" using ends p
      by (simp add: placed_def s2_def wear_fields [OF conjunct1 [OF b]])
    then have s2: "settled s s2" using s1 by (simp add: settled_def s2_def)
    have "chip_ok s2" using s1 chip_ok_worn [OF ok] by (simp add: s2_def settled_def)
    moreover have "mapping_blocks_top_ba s2 = mapping_blocks_top_ba s"
      by (simp add: s2_def wear_fields [OF conjunct1 [OF b]])
    ultimately have "wear s2 (nmbm_erase_range s2 end_ba start)"
      using ends by (intro erase_range_wear_ok) simp_all
    with s2 have "settled s (nmbm_erase_range s2 end_ba start)" by (rule settled_wear)
    then show ?thesis
      using r w s2_def \<open>nmbm_try_reserve_blocks s end_ba (info_table_spare_blocks s) 0 (table_room s) = Some next_start\<close>
      by (simp add: rebuild_backup_table_def)
  qed
qed

lemma rebuild_updated:
  assumes ok: "chip_ok s"
  shows "updated s (nmbm_rebuild_info_table s)"
proof -
  define s0 where "s0 = s\<lparr>main_table_ba := 0, backup_table_ba := 0, mapping_blocks_ba := mapping_blocks_top_ba s\<rparr>"
  have s0: "worn s s0" "chip_ok s0" "backup_table_ba s0 = 0"
    using ok by (simp_all add: s0_def)
  obtain res s1 where w: "nmbm_write_info_table s0 (mgmt_start_ba s0) (mapping_blocks_top_ba s0) = (res, s1)"
    by fastforce
  note b = write_table_bounds [OF s0(2) order_refl w]
  have s1: "worn s s1" using s0(1) b by (blast intro: worn_wear)
  show ?thesis
  proof (cases res)
    case None
    moreover have "main_table_ba s1 = 0" "mapping_blocks_ba s1 = mapping_blocks_top_ba s1"
      by (simp_all add: wear_fields [OF conjunct1 [OF b]]) (simp_all add: s0_def)
    ultimately show ?thesis using s1 w by (simp add: nmbm_rebuild_info_table_def s0_def Let_def updated_def)
  next
    case (Some r)
    then obtain start end_ba where r: "res = Some (start, end_ba)" by (cases r) auto
    define s2 where "s2 = nmbm_mark_tables_clean (s1\<lparr>main_table_ba := start, mapping_blocks_ba := end_ba\<rparr>)"
    have s2: "worn s s2" "synced s s2" "chip_ok s2"
      using s1 by (simp_all add: s2_def synced_clean chip_ok_worn [OF ok])
    have "placed s2" "mapping_blocks_ba s2 = end_ba"
      using b r s0(3) by (simp_all add: placed_def s2_def wear_fields [OF conjunct1 [OF b]])
    with s2(3) have "settled s2 (rebuild_backup_table s2 end_ba)" by (rule rebuild_backup_settled)
    with s2(1,2) have "updated s (True, rebuild_backup_table s2 end_ba)" by (rule settled_updated)
    then show ?thesis using r w by (simp add: nmbm_rebuild_info_table_def s0_def s2_def Let_def)
  qed
qed

lemma placed_clean [simp]: "placed (nmbm_mark_tables_clean t) = placed t"
  by (simp add: placed_def)

lemma synced_clean_usable: "usable t \<le> usable r \<Longrightarrow> synced r (nmbm_mark_tables_clean t)"
  by (auto simp: synced_def intro: exI [of _ 0])

lemma settled_clean:
  assumes "settled s t"
  shows "settled s (nmbm_mark_tables_clean t)"
proof -
  have "synced r (nmbm_mark_tables_clean t)" if "synced r s" for r
  proof (rule synced_clean_usable)
    have "usable t \<le> usable s" using assms by (simp add: settled_def worn_def)
    also have "\<dots> \<le> usable r" using that by (auto simp: synced_def)
    finally show "usable t \<le> usable r" .
  qed
  with assms show ?thesis by (simp add: settled_def)
qed

lemma settled_refl: "placed s \<Longrightarrow> settled s s"
  by (simp add: settled_def)

text \<open>
  The rescue of the main table always returns. Its last part, for a new main table that
  runs into the temporary one, is never reached: the write is limited by that table.
\<close>

lemma rescue_main_settled:
  assumes ok: "chip_ok s" and p: "placed s" and bk: "backup_table_ba s \<noteq> 0"
  shows "\<exists>t. nmbm_rescue_main_info_table s = Some (True, t) \<and> settled s t"
proof -
  have order: "mgmt_start_ba s \<le> main_table_ba s" "main_table_ba s < backup_table_ba s"
    "backup_table_ba s < mapping_blocks_ba s" "mapping_blocks_ba s \<le> mapping_blocks_top_ba s"
    using p bk by (simp_all add: placed_def)
  have mb: "mgmt_start_ba s \<le> backup_table_ba s"
    using order(1) less_imp_le [OF order(2)] by (rule order_trans)
  have only_backup: "settled s (t\<lparr>main_table_ba := backup_table_ba t, backup_table_ba := 0\<rparr>)" if w: "wear s t" for t
    using settled_wear [OF settled_refl [OF p] w] order mb by (simp add: settled_def placed_def wear_fields [OF w])
  show ?thesis
  proof (cases "nmbm_try_reserve_blocks s (mapping_blocks_ba s) (info_table_spare_blocks s) 0 (table_room s)")
    case None
    then show ?thesis using only_backup [OF wear_refl] by (simp add: nmbm_rescue_main_info_table_def)
  next
    case (Some write_ba)
    have "mapping_blocks_ba s \<noteq> 0" using order(3) by auto
    then obtain res s1 where d: "write_table_down s write_ba (mapping_blocks_ba s) = Some (res, s1)" "wear s s1"
      "\<forall>a e. res = Some (a, e) \<longrightarrow> mapping_blocks_ba s \<le> a \<and> a < e \<and> e \<le> mapping_blocks_top_ba s"
      using write_table_down_returns [OF ok] by blast
    show ?thesis
    proof (cases res)
      case None
      then show ?thesis using only_backup [OF d(2)] d(1) Some by (simp add: nmbm_rescue_main_info_table_def)
    next
      case some_res: (Some r)
      then obtain a e where r: "res = Some (a, e)" by (cases r) auto
      have tmp: "mapping_blocks_ba s \<le> a" "a < e" "e \<le> mapping_blocks_top_ba s" using d(3) r by auto
      define s2 where "s2 = s1\<lparr>mapping_blocks_ba := e\<rparr>"
      have s2: "chip_ok s2" "mgmt_start_ba s2 = mgmt_start_ba s"
        "mapping_blocks_top_ba s2 = mapping_blocks_top_ba s" "main_table_ba s2 = main_table_ba s"
        "backup_table_ba s2 = backup_table_ba s" "mapping_blocks_ba s2 = e"
        using chip_ok_worn [OF ok wear_worn [OF d(2)]] by (simp_all add: s2_def wear_fields [OF d(2)])
      have ba: "backup_table_ba s < a" using order(3) tmp(1) by (rule less_le_trans)
      have be: "backup_table_ba s < e" using ba tmp(2) by (rule less_trans)
      have "main_table_ba s < e" using order(2) be by (rule less_trans)
      then have "settled s s2"
        using settled_wear [OF settled_refl [OF p] d(2)] s2 order tmp be by (simp add: settled_def s2_def placed_def)
      obtain res3 s3 where w: "nmbm_write_info_table s2 (mgmt_start_ba s2) a = (res3, s3)" by fastforce
      have "a \<le> mapping_blocks_top_ba s2" using less_imp_le [OF tmp(2)] tmp(3) s2(3) by simp
      note b = write_table_bounds [OF s2(1) this w]
      have s3: "settled s s3" using \<open>settled s s2\<close> conjunct1 [OF b] by (rule settled_wear)
      note f3 = wear_fields [OF conjunct1 [OF b]]
      have ma: "mgmt_start_ba s \<le> a" using mb less_imp_le [OF ba] by (rule order_trans)
      show ?thesis
      proof (cases res3)
        case None
        have "settled s (s3\<lparr>main_table_ba := a, backup_table_ba := 0\<rparr>)"
          using s3 s2 ma tmp by (simp add: settled_def placed_def f3)
        then show ?thesis
          using None d(1) Some r w settled_clean
          by (simp add: nmbm_rescue_main_info_table_def s2_def Let_def)
      next
        case res3: (Some r3)
        then obtain a3 e3 where r3: "res3 = Some (a3, e3)" by (cases r3) auto
        have main: "mgmt_start_ba s \<le> a3" "a3 < e3" "e3 \<le> a" using b r3 s2(2) by auto
        have "a3 < a" using main(2,3) by (rule less_le_trans)
        moreover from this have "a3 < e" using tmp(2) by (rule less_trans)
        ultimately have "settled s ((nmbm_mark_tables_clean (s3\<lparr>main_table_ba := a3\<rparr>))\<lparr>backup_table_ba := a\<rparr>)"
          using settled_clean [OF s3] s2 main tmp by (simp add: settled_def placed_def f3) (simp add: synced_def)
        then show ?thesis
          using d(1) Some r r3 w main(3) by (simp add: nmbm_rescue_main_info_table_def s2_def Let_def)
      qed
    qed
  qed
qed

text \<open>The end of an update: the main table, below the backup table when there is one.\<close>

lemma update_main_table_updated:
  assumes ok: "chip_ok s" and p: "main_table_ba s \<noteq> 0 \<longrightarrow> placed s" and r: "worn r s"
    and lim: "limit = (if backup_table_ba s = 0 then mapping_blocks_top_ba s else backup_table_ba s)"
    and sy: "backup_table_ba s \<noteq> 0 \<longrightarrow> synced r s"
  shows "\<exists>res. update_main_table s limit = Some res \<and> updated r res"
proof (cases "main_table_ba s = 0")
  case True
  then show ?thesis
    using updated_worn [OF r rebuild_updated [OF ok]] by (simp add: update_main_table_def)
next
  case False
  then have pl: "placed s" using p by simp
  then have "backup_table_ba s \<noteq> 0 \<Longrightarrow> backup_table_ba s \<le> mapping_blocks_top_ba s"
    by (auto simp: placed_def intro: less_imp_le less_le_trans)
  then have top: "limit \<le> mapping_blocks_top_ba s" using lim by simp
  obtain w s1 where w: "nmbm_write_info_table s (main_table_ba s) limit = (w, s1)" by fastforce
  note b = write_table_bounds [OF ok top w]
  note f1 = wear_fields [OF conjunct1 [OF b]]
  have s1: "worn r s1" "chip_ok s1" "placed s1"
    using worn_wear [OF r conjunct1 [OF b]] chip_ok_worn [OF ok wear_worn [OF conjunct1 [OF b]]]
      placed_wear [OF conjunct1 [OF b]] pl by simp_all
  show ?thesis
  proof (cases w)
    case None
    show ?thesis
    proof (cases "backup_table_ba s = 0")
      case True
      then show ?thesis
        using False None w updated_worn [OF s1(1) rebuild_updated [OF s1(2)]]
        by (simp add: update_main_table_def f1)
    next
      case bk: False
      then obtain t where t: "nmbm_rescue_main_info_table s1 = Some (True, t)" "settled s1 t"
        using rescue_main_settled [OF s1(2,3)] by (auto simp: f1)
      have "synced r s1" using sy bk synced_wear conjunct1 [OF b] by blast
      then have "updated r (True, t)" using s1(1) t(2) by (intro settled_updated)
      then show ?thesis using False None w bk t(1) by (simp add: update_main_table_def f1)
    qed
  next
    case (Some x)
    then obtain a e where x: "w = Some (a, e)" by (cases x) auto
    have ae: "main_table_ba s \<le> a" "a < e" "e \<le> limit" using b x by auto
    have ma: "mgmt_start_ba s \<le> a"
      using pl ae(1) by (auto simp: placed_def intro: order_trans)
    have lt: "a < limit" using ae(2,3) by (rule less_le_trans)
    define s3 where "s3 = (if backup_table_ba s = 0 then s1\<lparr>main_table_ba := a, mapping_blocks_ba := e\<rparr>
      else s1\<lparr>main_table_ba := a\<rparr>)"
    have "placed s3"
      using pl ma ae lt lim by (auto simp: placed_def s3_def f1 intro: less_trans)
    moreover have "worn r s3" using s1(1) by (simp add: s3_def)
    ultimately have "updated r (True, nmbm_mark_tables_clean s3)"
      by (intro updatedI) (simp_all add: synced_clean)
    moreover have "update_main_table s limit = Some (True, nmbm_mark_tables_clean s3)"
      using False w x by (simp add: update_main_table_def s3_def f1)
    ultimately show ?thesis by blast
  qed
qed

lemma update_once_updated:
  assumes ok: "chip_ok s" and p: "main_table_ba s \<noteq> 0 \<longrightarrow> placed s"
    and ch: "block_state_changed s \<noteq> 0 \<or> block_mapping_changed s \<noteq> 0 \<or> force"
  shows "\<exists>res. nmbm_update_info_table_once crc s force = Some res \<and> updated s res"
proof -
  obtain changed s0 where g: "nmbm_generate_info_table_cache crc s = (changed, s0)" by fastforce
  then obtain i c where s0: "s0 = s\<lparr>info_table := i, info_table_cache := c\<rparr>"
    and ch0: "changed \<longleftrightarrow> block_state_changed s \<noteq> 0 \<or> block_mapping_changed s \<noteq> 0"
    by (auto simp: nmbm_generate_info_table_cache_def Let_def)
  have w0: "worn s s0" and ok0: "chip_ok s0" using ok by (simp_all add: s0)
  have p0: "main_table_ba s0 \<noteq> 0 \<longrightarrow> placed s0" using p by (simp add: s0 placed_def)
  have go: "changed \<or> force" using ch ch0 by blast
  show ?thesis
  proof (cases "backup_table_ba s0 = 0")
    case True
    then have "\<exists>res. update_main_table s0 (mapping_blocks_top_ba s0) = Some res \<and> updated s res"
      by (intro update_main_table_updated [OF ok0 p0 w0]) simp_all
    then show ?thesis using True go by (auto simp: nmbm_update_info_table_once_def g)
  next
    case False
    obtain res s1 where w: "nmbm_write_info_table s0 (backup_table_ba s0) (mapping_blocks_top_ba s0) = (res, s1)"
      by fastforce
    note b = write_table_bounds [OF ok0 order_refl w]
    note f1 = wear_fields [OF conjunct1 [OF b]]
    have s1: "worn s s1" using w0 conjunct1 [OF b] by (rule worn_wear)
    show ?thesis
    proof (cases res)
      case None
      define s2 where "s2 = s1\<lparr>mapping_blocks_ba := backup_table_ba s1, backup_table_ba := 0\<rparr>"
      have "worn s s2" "chip_ok s2" using s1 chip_ok_worn [OF ok s1] by (simp_all add: s2_def)
      moreover have "main_table_ba s2 \<noteq> 0 \<longrightarrow> placed s2"
        using p0 False by (auto simp: s2_def placed_def f1)
      moreover have "mapping_blocks_top_ba s1 = mapping_blocks_top_ba s2" "backup_table_ba s2 = 0"
        by (simp_all add: s2_def)
      ultimately have "\<exists>res. update_main_table s2 (mapping_blocks_top_ba s1) = Some res \<and> updated s res"
        by (intro update_main_table_updated) simp_all
      then show ?thesis using False go None w by (auto simp: nmbm_update_info_table_once_def g s2_def)
    next
      case (Some x)
      then obtain a e where x: "res = Some (a, e)" by (cases x) auto
      have ae: "backup_table_ba s0 \<le> a" "a < e" "e \<le> mapping_blocks_top_ba s0" using b x by auto
      define s2 where "s2 = nmbm_mark_tables_clean (s1\<lparr>backup_table_ba := a, mapping_blocks_ba := e\<rparr>)"
      have a0: "a \<noteq> 0" using False ae(1) by (auto simp: word_neq_0_conv)
      have s2: "worn s s2" "chip_ok s2" "synced s s2"
        using s1 chip_ok_worn [OF ok s1] by (simp_all add: s2_def synced_clean)
      have pl2: "placed s2" if "main_table_ba s2 \<noteq> 0"
      proof -
        have pl: "placed s0" using p0 that by (simp add: s2_def f1)
        then have "main_table_ba s0 < a" using False ae(1) by (auto simp: placed_def intro: less_le_trans)
        moreover from this have "main_table_ba s0 < e" using ae(2) by (rule less_trans)
        ultimately show ?thesis using pl ae by (simp add: placed_def s2_def f1)
      qed
      have "a = (if backup_table_ba s2 = 0 then mapping_blocks_top_ba s2 else backup_table_ba s2)"
        using a0 by (simp add: s2_def)
      then have "\<exists>res. update_main_table s2 a = Some res \<and> updated s res"
        using pl2 s2 by (intro update_main_table_updated) simp_all
      then show ?thesis using False go x w by (auto simp: nmbm_update_info_table_once_def g s2_def)
    qed
  qed
qed

section \<open>The update loop\<close>

lemma update_loop_returns:
  assumes "chip_ok s" and "tables_ok s"
  shows "\<exists>ok t. nmbm_update_loop crc s = Some (ok, t) \<and> worn s t \<and> tables_ok t
    \<and> (ok \<longrightarrow> block_state_changed t = 0 \<and> block_mapping_changed t = 0)"
  using assms
proof (induction "usable s" arbitrary: s rule: less_induct)
  case less
  show ?case
  proof (cases "block_state_changed s \<noteq> 0 \<or> block_mapping_changed s \<noteq> 0")
    case False
    then show ?thesis using less.prems by (auto simp: nmbm_update_loop.simps [of crc s])
  next
    case True
    obtain ok t where t: "nmbm_update_info_table_once crc s False = Some (ok, t)" "updated s (ok, t)"
      using update_once_updated [of s False crc] less.prems True by (force simp: tables_ok_def)
    have tok: "tables_ok t" using updated_tables_ok [OF t(2)] by simp
    show ?thesis
    proof (cases ok)
      case False
      then show ?thesis using True t tok by (auto simp: nmbm_update_loop.simps [of crc s] updated_def)
    next
      case ok: True
      then have w: "worn s t" and sy: "synced s t" using t(2) by (simp_all add: updated_def)
      have loop: "nmbm_update_loop crc s = nmbm_update_loop crc t"
        using True ok t(1) by (simp add: nmbm_update_loop.simps [of crc s])
      show ?thesis
      proof (cases "block_state_changed t = 0")
        case True
        then have "nmbm_update_loop crc t = Some (True, t)"
          using sy by (simp add: nmbm_update_loop.simps [of crc t] synced_def)
        then show ?thesis using loop w sy tok True by (auto simp: synced_def)
      next
        case False
        obtain n where "usable t + n \<le> usable s" "block_state_changed t = of_nat n"
          using sy by (auto simp: synced_def)
        then have "usable t < usable s" using False by (cases n) auto
        then obtain ok' u where "nmbm_update_loop crc t = Some (ok', u)" "worn t u" "tables_ok u"
          "ok' \<longrightarrow> block_state_changed u = 0 \<and> block_mapping_changed u = 0"
          using less.hyps [OF _ chip_ok_worn [OF less.prems(1) w] tok] by blast
        then show ?thesis using loop worn_trans [OF w] by auto
      qed
    qed
  qed
qed

text \<open>
  C16. An update of the information table returns, whatever fails on the chip: each round that
  leaves changes behind has lost a block. When it succeeds, no change is left to be written;
  the block mapping is as before, no block that was bad is good again, and the tables lie in
  the management area in their order.
\<close>

theorem nmbm_update_info_table_returns:
  assumes "chip_ok s" and "tables_ok s" and "\<not> protected s"
  shows "\<exists>ok t. nmbm_update_info_table crc s = Some (ok, t) \<and> worn s t \<and> tables_ok t
    \<and> (ok \<longrightarrow> block_state_changed t = 0 \<and> block_mapping_changed t = 0)"
  using update_loop_returns [OF assms(1,2)] assms(3) by (simp add: nmbm_update_info_table_def)

lemma demo_chip_ok: "chip_ok (demo_nmbm drv d \<lparr>block_mapping_changed := n\<rparr>)"
proof -
  have "states_cover (demo_nmbm drv d \<lparr>block_mapping_changed := n\<rparr>)"
    using demo_states_cover [of drv d] by (simp add: states_cover_def state_covers_def)
  then show ?thesis by (simp add: chip_ok_def demo_nmbm_fields)
qed

theorem nmbm_update_info_table_returns_witness:
  "\<exists>ok t. nmbm_update_info_table (\<lambda>v xs. v) (demo_nmbm quiet_ops () \<lparr>block_mapping_changed := 1\<rparr>) = Some (ok, t)
     \<and> block_mapping t = replicate 16 0xffffffff"
proof -
  let ?s = "demo_nmbm quiet_ops () \<lparr>block_mapping_changed := 1\<rparr>"
  have h: "tables_ok ?s" "\<not> protected ?s" by (simp_all add: demo_nmbm_def tables_ok_def)
  have m: "block_mapping ?s = replicate 16 0xffffffff" by (simp add: demo_nmbm_def)
  show ?thesis
    using nmbm_update_info_table_returns [OF demo_chip_ok h, of "\<lambda>v xs. v"] unfolding worn_def m by blast
qed

section \<open>Mapping spare blocks\<close>

text \<open>
  The mapping is one to one on the entries that are set, and the spare blocks that can still
  be taken are not in use.
\<close>

definition mapping_inj :: "u32 list \<Rightarrow> bool" where
  "mapping_inj m \<longleftrightarrow> (\<forall>i < length m. \<forall>j < length m. m ! i \<noteq> - 1 \<longrightarrow> m ! i = m ! j \<longrightarrow> i = j)"

definition spares_free :: "('d, 'z) nmbm_scheme \<Rightarrow> bool" where
  "spares_free s \<longleftrightarrow> (\<forall>pb \<in> set (block_mapping s). \<not> (mapping_blocks_ba s < pb \<and> pb \<le> mapping_blocks_top_ba s))"

lemma mapping_inj_update:
  assumes "mapping_inj m" and "v \<notin> set m"
  shows "mapping_inj (m[k := v])"
  unfolding mapping_inj_def
proof (intro allI impI)
  fix i j assume ij: "i < length (m[k := v])" "j < length (m[k := v])" "m[k := v] ! i \<noteq> - 1"
    "m[k := v] ! i = m[k := v] ! j"
  then have "m ! i \<noteq> v" "m ! j \<noteq> v" using assms(2) nth_mem by auto
  then show "i = j"
    using ij assms(1) by (cases "i = k"; cases "j = k") (auto simp: mapping_inj_def)
qed

lemma walk_desc_top_good:
  assumes "limit < ba" and "nmbm_get_block_state s ba = BLOCK_ST_GOOD"
  shows "walk_desc_loop s ba 0 limit = Some ba"
  using assms by (simp add: walk_desc_loop.simps [of s ba])

lemma spare_walk:
  assumes "mapping_blocks_ba s < block_count s"
  shows "nmbm_block_walk s False (mapping_blocks_top_ba s) 0 (mapping_blocks_ba s)
    = walk_desc_loop s (mapping_blocks_top_ba s) 0 (mapping_blocks_ba s)"
  using assms by (simp add: nmbm_block_walk_def nmbm_block_walk_desc_def linorder_not_le [symmetric])



lemma walk_desc_cong: "block_state t = block_state s \<Longrightarrow> walk_desc_loop t ba n limit = walk_desc_loop s ba n limit"
proof (induction s ba n limit rule: walk_desc_loop.induct)
  case (1 s ba n limit)
  have g: "nmbm_get_block_state t ba = nmbm_get_block_state s ba" using "1.prems" by (rule get_block_state_cong)
  show ?case
    using "1.IH" "1.prems" by (simp add: walk_desc_loop.simps [of t ba] walk_desc_loop.simps [of s ba] Let_def g)
qed

text \<open>
  When the topmost spare block is not good, the block below it that is taken stays a spare
  block: the next block to be mapped gets the same one, and two logical blocks share it.
\<close>

theorem nmbm_map_block_duplicates:
  assumes "nmbm_block_walk s False (mapping_blocks_top_ba s) 0 (mapping_blocks_ba s) = Some pb"
    and "pb \<noteq> mapping_blocks_top_ba s" and "mapping_blocks_ba s < block_count s"
    and "unat lb < length (block_mapping s)" and "unat lb2 < length (block_mapping s)" and "lb \<noteq> lb2"
  shows "\<exists>t u. nmbm_map_block crc s lb = Some (True, t) \<and> nmbm_map_block crc t lb2 = Some (True, u)
    \<and> block_mapping u ! unat lb = pb \<and> block_mapping u ! unat lb2 = pb"
proof -
  let ?top = "mapping_blocks_top_ba s" and ?lim = "mapping_blocks_ba s"
  have w: "walk_desc_loop s ?top 0 ?lim = Some pb" using assms(1) spare_walk [OF assms(3)] by simp
  then have gt: "?lim < ?top" and w2: "walk_desc_loop s (?top - 1) 0 ?lim = Some pb"
    using assms(2) by (auto simp: walk_desc_loop.simps [of s ?top] Let_def split: if_splits)
  then have gt2: "?lim < ?top - 1"
    by (auto simp: walk_desc_loop.simps [of s "?top - 1"] split: if_splits)
  define t where "t = s\<lparr>block_mapping := (block_mapping s)[unat lb := pb],
    mapping_blocks_top_ba := ?top - 1, block_mapping_changed := block_mapping_changed s + 1\<rparr>"
  have f: "mapping_blocks_ba t = ?lim" "mapping_blocks_top_ba t = ?top - 1" "block_count t = block_count s"
    "block_mapping t = (block_mapping s)[unat lb := pb]"
    by (simp_all add: t_def)
  have t: "nmbm_map_block crc s lb = Some (True, t)"
    using assms(1) gt by (simp add: nmbm_map_block_def t_def)
  have "walk_desc_loop t (?top - 1) 0 ?lim = Some pb"
    using w2 walk_desc_cong [of t s] by (simp add: t_def)
  then have wt: "nmbm_block_walk t False (mapping_blocks_top_ba t) 0 (mapping_blocks_ba t) = Some pb"
    using spare_walk [of t] assms(3) by (simp add: f)
  have "mapping_blocks_ba t \<noteq> mapping_blocks_top_ba t" using gt2 by (simp add: f)
  then have "nmbm_map_block crc t lb2 = Some (True, t\<lparr>block_mapping := (block_mapping t)[unat lb2 := pb],
      mapping_blocks_top_ba := mapping_blocks_top_ba t - 1, block_mapping_changed := block_mapping_changed t + 1\<rparr>)"
    using wt by (simp add: nmbm_map_block_def)
  moreover have "unat lb \<noteq> unat lb2" using assms(6) by (simp add: word_unat_eq_iff)
  ultimately show ?thesis using t assms(4,5) by (auto simp: f)
qed

theorem nmbm_map_block_duplicates_witness:
  "\<exists>t u. nmbm_map_block (\<lambda>v xs. v) (demo_nmbm quiet_ops () \<lparr>block_state := [0xcfffffff]\<rparr>) 6 = Some (True, t)
    \<and> nmbm_map_block (\<lambda>v xs. v) t 7 = Some (True, u) \<and> block_mapping u ! 6 = 13 \<and> block_mapping u ! 7 = 13"
proof -
  let ?s = "demo_nmbm quiet_ops () \<lparr>block_state := [0xcfffffff]\<rparr>"
  have w: "nmbm_block_walk ?s False (mapping_blocks_top_ba ?s) 0 (mapping_blocks_ba ?s) = Some 13" by code_simp
  have h: "(13 :: u32) \<noteq> mapping_blocks_top_ba ?s" "mapping_blocks_ba ?s < block_count ?s"
    "unat (6 :: u32) < length (block_mapping ?s)" "unat (7 :: u32) < length (block_mapping ?s)" "(6 :: u32) \<noteq> 7"
    by (simp_all add: demo_nmbm_def)
  show ?thesis using nmbm_map_block_duplicates [OF w h, of "\<lambda>v xs. v"] by simp
qed

section \<open>What mapping a block keeps\<close>

lemma update_info_table_keeps:
  assumes "chip_ok s" and "tables_ok s"
  obtains ok t where "nmbm_update_info_table crc s = Some (ok, t)" "worn s t" "tables_ok t" "chip_ok t"
proof (cases "protected s")
  case True
  then show ?thesis using that [of True s] assms by (simp add: nmbm_update_info_table_def)
next
  case False
  then obtain ok t where "nmbm_update_info_table crc s = Some (ok, t)" "worn s t" "tables_ok t"
    using update_loop_returns [OF assms, of crc] by (auto simp: nmbm_update_info_table_def)
  then show ?thesis using that chip_ok_worn [OF assms(1)] by blast
qed

text \<open>The part of the state that is fixed once a chip has been attached.\<close>

definition same_chip :: "('d, 'z) nmbm_scheme \<Rightarrow> ('d, 'z) nmbm_scheme \<Rightarrow> bool" where
  "same_chip s t \<longleftrightarrow> geometry t = geometry s \<and> block_count t = block_count s
     \<and> data_block_count t = data_block_count s \<and> mgmt_start_ba t = mgmt_start_ba s
     \<and> signature_ba t = signature_ba s \<and> length (block_state t) = length (block_state s)
     \<and> length (block_mapping t) = length (block_mapping s)"

lemma same_chip_trans: "same_chip s t \<Longrightarrow> same_chip t u \<Longrightarrow> same_chip s u"
  by (simp add: same_chip_def)

lemma same_chip_refl: "same_chip s s"
  by (simp add: same_chip_def)

lemma worn_same_chip: "worn s t \<Longrightarrow> same_chip s t"
  by (simp add: worn_def same_chip_def)

lemma walk_desc_loop_bounds:
  "walk_desc_loop s ba n limit = Some x \<Longrightarrow> 0 \<le> n \<Longrightarrow>
    limit < x \<and> x \<le> ba \<and> nmbm_get_block_state s x = BLOCK_ST_GOOD"
proof (induction s ba n limit rule: walk_desc_loop.induct)
  case (1 s ba n limit)
  show ?case
  proof (cases "limit < ba")
    case True
    have "ba - 1 < ba" using True by (simp add: word_less_nat_alt unat_dec_less)
    then have le: "x \<le> ba - 1 \<Longrightarrow> x \<le> ba" by simp
    show ?thesis
      using "1.prems" "1.IH" [OF True refl] True le
      by (auto simp: walk_desc_loop.simps [of s ba] Let_def split: if_splits)
  next
    case False
    then show ?thesis using "1.prems" by (simp add: walk_desc_loop.simps [of s ba])
  qed
qed

lemma map_block_keeps:
  assumes ok: "chip_ok s" and tab: "tables_ok s"
  shows "\<exists>success t. nmbm_map_block crc s lb = Some (success, t) \<and> chip_ok t \<and> tables_ok t \<and> same_chip s t
    \<and> (success \<longrightarrow> block_state t = block_state s \<and> protected t = protected s
        \<and> (\<exists>pb. block_mapping t = (block_mapping s)[unat lb := pb]
          \<and> pb \<le> mapping_blocks_top_ba s \<and> nmbm_get_block_state s pb = BLOCK_ST_GOOD))"
proof (cases "mapping_blocks_ba s = mapping_blocks_top_ba s")
  case True
  then show ?thesis using assms by (auto simp: nmbm_map_block_def same_chip_refl)
next
  case False
  let ?w = "nmbm_block_walk s False (mapping_blocks_top_ba s) 0 (mapping_blocks_ba s)"
  have top_ba: "mapping_blocks_top_ba s \<le> block_count s" using ok by (simp add: chip_ok_def)
  show ?thesis
  proof (cases ?w)
    case None
    obtain r t where t: "nmbm_update_info_table crc s = Some (r, t)" "worn s t" "tables_ok t" "chip_ok t"
      using assms by (rule update_info_table_keeps)
    define u where "u = t\<lparr>mapping_blocks_top_ba := mapping_blocks_ba t\<rparr>"
    have le: "mapping_blocks_ba t \<le> mapping_blocks_top_ba t" using t(3) by (simp add: tables_ok_def)
    have "mapping_blocks_top_ba t \<le> block_count t" using t(4) by (simp add: chip_ok_def)
    with le have "mapping_blocks_ba t \<le> block_count t" by (rule order_trans)
    then have "chip_ok u" using t(4) by (simp add: chip_ok_def u_def states_cover_def state_covers_def)
    moreover have "tables_ok u" using t(3) by (simp add: tables_ok_def placed_def u_def)
    moreover have "same_chip s u"
      using worn_same_chip [OF t(2)] by (simp add: same_chip_def u_def geometry_def)
    ultimately show ?thesis using None False t(1) by (auto simp: nmbm_map_block_def u_def)
  next
    case (Some pb)
    define t where "t = s\<lparr>block_mapping := (block_mapping s)[unat lb := pb],
      mapping_blocks_top_ba := mapping_blocks_top_ba s - 1, block_mapping_changed := block_mapping_changed s + 1\<rparr>"
    have less: "mapping_blocks_ba s < mapping_blocks_top_ba s" using False tab by (auto simp: tables_ok_def intro: le_neq_trans)
    then have dec: "mapping_blocks_top_ba s - 1 < mapping_blocks_top_ba s"
      by (simp add: word_less_nat_alt unat_dec_less)
    have le: "mapping_blocks_ba s \<le> mapping_blocks_top_ba s - 1"
      using less unat_minus_one_greater [OF less] by (simp add: word_less_nat_alt word_le_nat_alt)
    have "mapping_blocks_top_ba s - 1 \<le> block_count s" using dec top_ba by simp
    then have "chip_ok t" using ok by (simp add: chip_ok_def t_def states_cover_def state_covers_def)
    moreover have "tables_ok t" using tab le by (simp add: tables_ok_def placed_def t_def)
    moreover have "same_chip s t" by (simp add: same_chip_def t_def geometry_def)
    moreover have "pb \<le> mapping_blocks_top_ba s \<and> nmbm_get_block_state s pb = BLOCK_ST_GOOD"
      using Some walk_desc_loop_bounds [of s "mapping_blocks_top_ba s" 0]
      by (auto simp: nmbm_block_walk_def nmbm_block_walk_desc_def split: if_splits)
    moreover have "nmbm_map_block crc s lb = Some (True, t)"
      using Some False by (simp add: nmbm_map_block_def t_def)
    moreover have "block_state t = block_state s" "protected t = protected s"
      "block_mapping t = (block_mapping s)[unat lb := pb]" by (simp_all add: t_def)
    ultimately show ?thesis by blast
  qed
qed

end
