(* ===== verification/Nmbm_Attach.thy ===== *)
theory Nmbm_Attach
  imports Nmbm_Tables
begin

text \<open>
  Attaching the NMBM backend to a chip, \<^verbatim>\<open>drivers/mtd/nand/mtk_bmt_nmbm.c\<close>: the signature and the
  information tables are looked for and loaded, or created; and the operations that the core
  calls (\<open>mtk_bmt_nmbm_ops\<close>).

  As in the theory of the tables, \<open>None\<close> is a loop that does not return. The log messages are not
  modelled, apart from the list of blocks that the debug file prints.
\<close>

section \<open>Creating the tables\<close>

text \<open>The loop over the logical blocks at the end of the data area that have no block yet.\<close>

function map_rest ::
  "crc32 \<Rightarrow> ('d, 'z) nmbm_scheme \<Rightarrow> u32 \<Rightarrow> u32 \<Rightarrow> ('d, 'z) nmbm_scheme option" where
  "map_rest crc s lb limit =
     (if lb < limit then
        case nmbm_map_block crc s lb of
          None \<Rightarrow> None
        | Some (success, s1) \<Rightarrow>
            if success then map_rest crc (s1\<lparr>data_block_count := data_block_count s1 + 1\<rparr>) (lb + 1) limit
            else Some s1
      else Some s)"
  by pat_completeness auto
termination
  by (relation "measure (\<lambda>(crc, s, lb, limit). unat limit - unat lb)")
    (auto simp: unat_add_one_less word_less_nat_alt)

declare map_rest.simps [simp del]

definition nmbm_create_info_table ::
  "crc32 \<Rightarrow> ('d, 'z) nmbm_scheme \<Rightarrow> (bool \<times> ('d, 'z) nmbm_scheme) option" where
  "nmbm_create_info_table crc s =
     (case nmbm_block_walk s False (signature_ba s) 1 (mgmt_start_ba s) of
        None \<Rightarrow> Some (False, s)
      | Some top_ba \<Rightarrow>
          let s1 = snd (nmbm_generate_info_table_cache crc (s\<lparr>mapping_blocks_top_ba := top_ba\<rparr>))
          in case nmbm_rebuild_info_table s1 of
            (success, s2) \<Rightarrow>
              if \<not> success then Some (False, s2)
              else Option.bind (map_rest crc s2 (data_block_count s2) (mgmt_start_ba s2))
                     (nmbm_update_info_table crc))"

text \<open>The first block of the management area.\<close>

definition mgmt_boundary :: "('d, 'z) nmbm_scheme \<Rightarrow> u32" where
  "mgmt_boundary s =
     (let ba = block_count s * (NMBM_MGMT_DIV - max_ratio s) div NMBM_MGMT_DIV
      in if max_reserved_blocks s \<noteq> 0 \<and> block_count s - ba > max_reserved_blocks s
         then block_count s - max_reserved_blocks s else ba)"

text \<open>
  The size of the chip, as the code computes it: a shift of an \<open>int\<close>, which is converted to
  a 64-bit value.
\<close>

definition chip_size :: "('d, 'z) bmtd_scheme \<Rightarrow> u64" where
  "chip_size s = scast (push_bit (bshift s) (ucast (total_blks s)) :: u32)"

definition new_signature :: "crc32 \<Rightarrow> ('d, 'z) nmbm_scheme \<Rightarrow> nmbm_signature" where
  "new_signature crc s =
     signature_of_bytes (nmbm_update_checksum crc (signature_bytes
       ((signature s)\<lparr>sg_header := (sg_header (signature s))
            \<lparr>h_magic := NMBM_MAGIC_SIGNATURE, h_version := NMBM_VER, h_size := sizeof_signature\<rparr>,
          sg_nand_size := chip_size s, sg_block_size := blk_size s, sg_page_size := pg_size s,
          sg_spare_size := oobsize s, sg_mgmt_start_pb := mgmt_start_ba s,
          sg_max_try_count := of_nat NMBM_TRY_COUNT\<rparr>)))"

definition nmbm_create_new ::
  "crc32 \<Rightarrow> ('d, 'z) nmbm_scheme \<Rightarrow> (bool \<times> ('d, 'z) nmbm_scheme) option" where
  "nmbm_create_new crc s =
     (let s1 = s\<lparr>mgmt_start_ba := mgmt_boundary s\<rparr>;
          s2 = nmbm_build_mapping_table (nmbm_scan_badblocks s1);
          s3 = s2\<lparr>signature := new_signature crc s2\<rparr>
      in case nmbm_write_signature s3 (mgmt_start_ba s3) (signature s3) of
        (None, s4) \<Rightarrow> Some (False, s4)
      | (Some ba, s4) \<Rightarrow> nmbm_create_info_table crc (s4\<lparr>signature_ba := ba\<rparr>))"

section \<open>Loading the tables\<close>

text \<open>The checks of a table on the chip. The table \<open>dat\<close> is read at the offsets its header gives.\<close>

definition nmbm_check_info_table_header :: "('d, 'z) nmbm_scheme \<Rightarrow> u8 list \<Rightarrow> bool" where
  "nmbm_check_info_table_header s dat \<longleftrightarrow>
     (let it = info_header_of_bytes dat in
      h_magic (it_header it) = NMBM_MAGIC_INFO_TABLE
      \<and> h_size (it_header it) = info_table_size s
      \<and> \<not> it_mapping_table_off it - it_state_table_off it < state_table_size s
      \<and> \<not> info_table_size s - it_mapping_table_off it < mapping_table_size s)"

definition table_mapping :: "u8 list \<Rightarrow> u32 \<Rightarrow> u32" where
  "table_mapping dat ba = rd32 dat (unat (it_mapping_table_off (info_header_of_bytes dat)) + 4 * unat ba)"

definition table_state :: "u8 list \<Rightarrow> u32 \<Rightarrow> u32" where
  "table_state dat ba =
     drop_bit (state_shift ba)
       (rd32 dat (unat (it_state_table_off (info_header_of_bytes dat)) + 4 * unat (ba div 16))) AND 3"

text \<open>
  One turn of the first loop of \<open>nmbm_check_info_table\<close>: \<open>None\<close> is the early return. The
  comparisons of an \<open>int32_t\<close> with a \<open>uint32_t\<close> are unsigned in C.
\<close>

definition check_mapping_entry ::
  "('d, 'z) nmbm_scheme \<Rightarrow> u32 \<Rightarrow> u8 list \<Rightarrow> u32 option \<Rightarrow> nat \<Rightarrow> u32 option" where
  "check_mapping_entry s end_ba dat min_pb ba =
     Option.bind min_pb (\<lambda>m.
       let pb = table_mapping dat (of_nat ba) in
       if (pb \<ge> data_block_count s \<and> pb < end_ba) \<or> pb = signature_ba s then None
       else if pb \<ge> end_ba \<and> pb < m then Some pb else Some m)"

definition nmbm_check_info_table ::
  "('d, 'z) nmbm_scheme \<Rightarrow> u32 \<Rightarrow> u32 \<Rightarrow> u8 list \<Rightarrow> u32 option" where
  "nmbm_check_info_table s start_ba end_ba dat =
     Option.bind (foldl (check_mapping_entry s end_ba dat) (Some (signature_ba s)) [0..<unat (data_block_count s)])
       (\<lambda>min_pb.
          if \<forall>ba \<in> set [unat start_ba..<unat end_ba].
               nmbm_get_block_state s (of_nat ba) = BLOCK_ST_GOOD \<longrightarrow> table_state dat (of_nat ba) = BLOCK_ST_GOOD
          then Some (min_pb - 1) else None)"

text \<open>
  The loop that reads the blocks of a table. It gives the block after the last one, the first
  block that was read, and what remains to be read; \<open>None\<close> is an early return.
\<close>

function try_load_loop ::
  "('d, 'z) nmbm_scheme \<Rightarrow> u32 \<Rightarrow> u32 \<Rightarrow> nat \<Rightarrow> u32 \<Rightarrow> u32 \<Rightarrow> bool
    \<Rightarrow> (u32 \<times> u32 \<times> u32) option \<times> ('d, 'z) nmbm_scheme" where
  "try_load_loop s ba limit pos sizeremain start checkhdr =
     (if sizeremain \<noteq> 0 \<and> ba < limit then
        if nmbm_get_block_state s ba \<noteq> BLOCK_ST_GOOD then
          try_load_loop s (ba + 1) limit pos sizeremain start checkhdr
        else case nmbm_check_bad_phys_block s ba of
          (bad, s1) \<Rightarrow>
            if bad then
              try_load_loop (snd (nmbm_set_block_state s1 ba BLOCK_ST_BAD)) (ba + 1) limit pos sizeremain start checkhdr
            else
              let chunksize = min sizeremain (blk_size s1)
              in case nmbn_read_data s1 (ba2addr s1 ba) (info_table_cache s1) pos chunksize of
                (ret, cache, s2) \<Rightarrow>
                  let s3 = s2\<lparr>info_table_cache := cache\<rparr>
                  in if ret < 0 then
                       try_load_loop (snd (nmbm_set_block_state s3 ba BLOCK_ST_BAD)) (ba + 1) limit pos
                         sizeremain start checkhdr
                     else if ret > 0 then (None, s3)
                     else if checkhdr \<and> \<not> nmbm_check_info_table_header s3 (drop pos cache) then (None, s3)
                     else try_load_loop s3 (ba + 1) limit (pos + unat chunksize) (sizeremain - chunksize)
                            (if checkhdr then ba else start) False
      else (Some (ba, start, sizeremain), s))"
  by pat_completeness auto
termination
  by (relation "measure (\<lambda>(s, ba, limit, pos, r, start, c). unat limit - unat ba)")
    (auto simp: unat_add_one_less word_less_nat_alt)

declare try_load_loop.simps [simp del]

text \<open>The tables in memory are replaced by those of the image \<open>dat\<close>.\<close>

definition take_info_table :: "('d, 'z) nmbm_scheme \<Rightarrow> u8 list \<Rightarrow> ('d, 'z) nmbm_scheme" where
  "take_info_table s dat =
     (let it = info_header_of_bytes dat in
      s\<lparr>info_table := it,
        block_state := bytes_words (rd_bytes dat (unat (it_state_table_off it)) (unat (state_table_size s))),
        block_mapping := bytes_words (rd_bytes dat (unat (it_mapping_table_off it)) (unat (mapping_table_size s)))\<rparr>)"

text \<open>The result is the end of the table, its write count and the top spare block.\<close>

definition nmbm_try_load_info_table ::
  "crc32 \<Rightarrow> ('d, 'z) nmbm_scheme \<Rightarrow> u32 \<Rightarrow> bool \<Rightarrow> (u32 \<times> u32 \<times> u32) option \<times> ('d, 'z) nmbm_scheme" where
  "nmbm_try_load_info_table crc s ba table_loaded =
     (case try_load_loop s ba (ba + size2blk s (ucast (info_table_size s))) 0 (info_table_size s) 0 True of
        (None, s1) \<Rightarrow> (None, s1)
      | (Some (eba, start, sizeremain), s1) \<Rightarrow>
          let dat = info_table_cache s1; wc = it_write_count (info_header_of_bytes dat)
          in if sizeremain \<noteq> 0 then (None, s1)
             else if \<not> nmbm_check_header crc dat (info_table_size s1) then (None, s1)
             else case nmbm_check_info_table s1 start eba dat of
               None \<Rightarrow> (None, s1)
             | Some top_ba \<Rightarrow>
                 (Some (eba, wc, top_ba),
                  if \<not> table_loaded \<or> wc > it_write_count (info_table s1) then take_info_table s1 dat else s1))"

text \<open>The result is the block at which the search succeeded, and the result of the load.\<close>

function search_info_table_loop ::
  "crc32 \<Rightarrow> ('d, 'z) nmbm_scheme \<Rightarrow> u32 \<Rightarrow> u32 \<Rightarrow> bool
    \<Rightarrow> (u32 \<times> u32 \<times> u32 \<times> u32) option \<times> ('d, 'z) nmbm_scheme" where
  "search_info_table_loop crc s ba limit table_loaded =
     (if ba < limit then
        case nmbm_try_load_info_table crc s ba table_loaded of
          (Some r, s1) \<Rightarrow> (Some (ba, r), s1)
        | (None, s1) \<Rightarrow> search_info_table_loop crc s1 (ba + 1) limit table_loaded
      else (None, s))"
  by pat_completeness auto
termination
  by (relation "measure (\<lambda>(crc, s, ba, limit, l). unat limit - unat ba)")
    (auto simp: unat_add_one_less word_less_nat_alt)

declare search_info_table_loop.simps [simp del]

definition nmbm_search_info_table ::
  "crc32 \<Rightarrow> ('d, 'z) nmbm_scheme \<Rightarrow> u32 \<Rightarrow> u32 \<Rightarrow> bool
    \<Rightarrow> (u32 \<times> u32 \<times> u32 \<times> u32) option \<times> ('d, 'z) nmbm_scheme" where
  "nmbm_search_info_table crc s ba limit table_loaded =
     search_info_table_loop crc s ba (limit - size2blk s (ucast (info_table_size s))) table_loaded"

text \<open>The number of logical blocks up to the last one that has a block.\<close>

definition last_mapped :: "u32 list \<Rightarrow> u32 \<Rightarrow> u32 \<Rightarrow> u32" where
  "last_mapped mapping limit dflt =
     (case find (\<lambda>i. sint (mapping ! (i - 1)) \<ge> 0) (rev [1..<unat limit + 1]) of
        Some i \<Rightarrow> of_nat i | None \<Rightarrow> dflt)"

text \<open>What \<open>nmbm_load_info_table\<close> does with the tables that were found.\<close>

definition load_found_tables ::
  "crc32 \<Rightarrow> ('d, 'z) nmbm_scheme \<Rightarrow> u32 \<times> u32 \<times> u32 \<Rightarrow> (u32 \<times> u32 \<times> u32 \<times> u32) option
    \<Rightarrow> ('d, 'z) nmbm_scheme option" where
  "load_found_tables crc s main_table backup =
     (case main_table of (main_end, main_wc, main_top) \<Rightarrow>
      let s1 = (case backup of
                  None \<Rightarrow> s\<lparr>mapping_blocks_ba := main_end\<rparr>
                | Some (start, end_ba, wc, top_ba) \<Rightarrow> s\<lparr>backup_table_ba := start, mapping_blocks_ba := end_ba\<rparr>);
          top_ba = (case backup of
                   None \<Rightarrow> main_top
                 | Some (start, end_ba, wc, top_ba) \<Rightarrow>
                     if backup_table_ba s1 = 0 \<or> main_wc \<ge> wc then main_top else top_ba);
          s2 = s1\<lparr>mapping_blocks_top_ba := top_ba,
                  data_block_count := last_mapped (block_mapping s1) (sg_mgmt_start_pb (signature s1)) (data_block_count s1)\<rparr>;
          s3 = snd (nmbm_generate_info_table_cache crc s2);
          r = (case backup of
                 None \<Rightarrow> nmbm_rescue_single_info_table s3
               | Some (start, end_ba, wc, top_ba) \<Rightarrow>
                   if backup_table_ba s3 = 0 then nmbm_rescue_single_info_table s3
                   else if main_wc \<noteq> wc then
                     nmbm_update_single_info_table (s3\<lparr>block_state_changed := 1, block_mapping_changed := 1\<rparr>) (main_wc < wc)
                   else Some (True, s3))
      in map_option (\<lambda>(success, s4).
           if mapping_blocks_ba s4 = mapping_blocks_top_ba s4 \<or> \<not> success then s4\<lparr>protected := True\<rparr> else s4) r)"

definition nmbm_load_info_table ::
  "crc32 \<Rightarrow> ('d, 'z) nmbm_scheme \<Rightarrow> u32 \<Rightarrow> u32 \<Rightarrow> (bool \<times> ('d, 'z) nmbm_scheme) option" where
  "nmbm_load_info_table crc s ba limit =
     (let s0 = s\<lparr>main_table_ba := 0, backup_table_ba := 0,
                 info_table := (info_table s)\<lparr>it_write_count := 0\<rparr>,
                 mapping_blocks_top_ba := signature_ba s - 1,
                 data_block_count := sg_mgmt_start_pb (signature s)\<rparr>
      in case nmbm_search_info_table crc s0 ba limit False of
        (None, s1) \<Rightarrow> Some (False, s1)
      | (Some (start, main_end, main_wc, main_top), s1) \<Rightarrow>
          case nmbm_search_info_table crc (s1\<lparr>main_table_ba := start\<rparr>) main_end limit True of
            (backup, s2) \<Rightarrow>
              map_option (Pair True) (load_found_tables crc s2 (main_end, main_wc, main_top) backup))"

definition nmbm_load_existing ::
  "crc32 \<Rightarrow> ('d, 'z) nmbm_scheme \<Rightarrow> (bool \<times> ('d, 'z) nmbm_scheme) option" where
  "nmbm_load_existing crc s =
     (let s1 = s\<lparr>mgmt_start_ba := sg_mgmt_start_pb (signature s)\<rparr>
      in Option.bind (nmbm_load_info_table crc s1 (mgmt_start_ba s1) (signature_ba s1)) (\<lambda>(success, s2).
           if success then Some (True, s2)
           else if \<not> force_create s2 then Some (False, s2)
           else nmbm_create_info_table crc (nmbm_build_mapping_table (nmbm_scan_badblocks s2))))"

section \<open>Attaching\<close>

text \<open>The pages of a block that are tried for a signature. \<open>sig_buf\<close> is the buffer they are read into.\<close>

fun find_signature_pages ::
  "crc32 \<Rightarrow> u64 list \<Rightarrow> ('d, 'z) nmbm_scheme \<Rightarrow> u64 \<Rightarrow> u8 list \<Rightarrow> bool \<times> u8 list \<times> ('d, 'z) nmbm_scheme" where
  "find_signature_pages crc [] s addr sig_buf = (False, sig_buf, s)"
| "find_signature_pages crc (off # offs) s addr sig_buf =
     (case nmbn_read_data s (addr + off) sig_buf 0 sizeof_signature of
        (ret, sig_buf1, s1) \<Rightarrow>
          if ret = 0 \<and> nmbm_check_header crc sig_buf1 sizeof_signature \<and> rd32 sig_buf1 0 = NMBM_MAGIC_SIGNATURE
          then (True, sig_buf1, s1)
          else find_signature_pages crc offs s1 addr sig_buf1)"

definition signature_search_limit :: "('d, 'z) nmbm_scheme \<Rightarrow> u32" where
  "signature_search_limit s =
     (let n = ucast (total_blks s); limit = n div NMBM_MGMT_DIV * (NMBM_MGMT_DIV - max_ratio s)
      in if max_reserved_blocks s \<noteq> 0 \<and> n - limit > max_reserved_blocks s
         then n - max_reserved_blocks s else limit)"

text \<open>
  The loop goes down from the block after \<open>ba\<close> and visits \<open>limit - 1\<close> as the last block. With a
  limit of 0 the block number wraps around.
\<close>

partial_function (option) find_signature_loop ::
  "crc32 \<Rightarrow> ('d, 'z) nmbm_scheme \<Rightarrow> u8 list \<Rightarrow> u32 \<Rightarrow> u32
    \<Rightarrow> ((nmbm_signature \<times> u32) option \<times> ('d, 'z) nmbm_scheme) option" where
  "find_signature_loop crc s sig_buf ba limit =
     (if ba \<ge> limit then
        case nmbm_check_bad_phys_block s (ba - 1) of
          (bad, s1) \<Rightarrow>
            if bad then find_signature_loop crc s1 sig_buf (ba - 1) limit
            else case find_signature_pages crc (page_offs s1) s1 (ba2addr s1 (ba - 1)) sig_buf of
              (found, sig_buf1, s2) \<Rightarrow>
                if found then Some (Some (signature_of_bytes sig_buf1, ba - 1), s2)
                else find_signature_loop crc s2 sig_buf1 (ba - 1) limit
      else Some (None, s))"

definition nmbm_find_signature ::
  "crc32 \<Rightarrow> ('d, 'z) nmbm_scheme \<Rightarrow> ((nmbm_signature \<times> u32) option \<times> ('d, 'z) nmbm_scheme) option" where
  "nmbm_find_signature crc s =
     find_signature_loop crc s (replicate 48 0) (ucast (total_blks s)) (signature_search_limit s)"

text \<open>The kernel's \<open>ALIGN\<close>, for a power of two \<open>a\<close>.\<close>

definition align_up :: "u32 \<Rightarrow> u32 \<Rightarrow> u32" where
  "align_up x a = (x + (a - 1)) AND NOT (a - 1)"

definition nmbm_state_table_size :: "u32 \<Rightarrow> u32" where
  "nmbm_state_table_size n = (n + 16 - 1) div 16 * 4"

text \<open>
  \<open>nmbm_calc_structure_size\<close> without the size of the structure itself: the bytes for the tables
  that follow it.
\<close>

definition nmbm_calc_structure_size :: "('d, 'z) bmtd_scheme \<Rightarrow> u32" where
  "nmbm_calc_structure_size s =
     (let n = ucast (total_blks s); st = nmbm_state_table_size n; mt = n * 4
      in align_up sizeof_info_table (pg_size s) + align_up st (pg_size s) + align_up mt (pg_size s) + st + mt)"

text \<open>The memory comes from \<open>kzalloc\<close>: the tables that are not filled here are zero.\<close>

definition nmbm_init_structure :: "('d, 'z) nmbm_scheme \<Rightarrow> ('d, 'z) nmbm_scheme" where
  "nmbm_init_structure s =
     (let raw = pg_size s + oobsize s;
          rawblock = (blk_size s div pg_size s) * raw;
          n = ucast (total_blks s);
          st = nmbm_state_table_size n;
          mt = n * 4;
          so = align_up sizeof_info_table (pg_size s);
          mo = so + align_up st (pg_size s);
          total = mo + align_up mt (pg_size s)
      in s\<lparr>rawpage_size := raw, rawblock_size := rawblock, rawchip_size := n * rawblock,
           block_count := n, state_table_size := st, mapping_table_size := mt,
           info_table := (info_table s)\<lparr>it_state_table_off := so, it_mapping_table_off := mo\<rparr>,
           info_table_size := total,
           info_table_spare_blocks := nmbm_get_spare_block_count (size2blk s (ucast total)),
           info_table_cache := replicate (unat total) 0,
           block_state_changed := 0, block_state := replicate (unat st div 4) 0xffffffff,
           block_mapping := replicate (unat mt div 4) 0, block_mapping_changed := 0\<rparr>)"

definition nmbm_attach :: "crc32 \<Rightarrow> ('d, 'z) nmbm_scheme \<Rightarrow> (int \<times> ('d, 'z) nmbm_scheme) option" where
  "nmbm_attach crc s =
     Option.bind (nmbm_find_signature crc (nmbm_init_structure s)) (\<lambda>(found, s1).
       case found of
         None \<Rightarrow>
           if \<not> force_create s1 then Some (- ENODEV, s1)
           else map_option (\<lambda>(success, s2). (if success then 0 else - ENODEV, s2)) (nmbm_create_new crc s1)
       | Some (sg, ba) \<Rightarrow>
           let s2 = s1\<lparr>signature := sg, signature_ba := ba\<rparr>
           in if h_version (sg_header sg) \<noteq> NMBM_VER then Some (- EINVAL, s2)
              else if sg_nand_size sg \<noteq> chip_size s2 \<or> sg_block_size sg \<noteq> blk_size s2
                \<or> sg_page_size sg \<noteq> pg_size s2 \<or> sg_spare_size sg \<noteq> oobsize s2 then Some (- EINVAL, s2)
              else map_option (\<lambda>(success, s3). (if success then 0 else - ENODEV, s3)) (nmbm_load_existing crc s2))"

section \<open>The operations of the backend\<close>

definition remap_block_nmbm ::
  "crc32 \<Rightarrow> ('d, 'z) nmbm_scheme \<Rightarrow> u16 \<Rightarrow> u16 \<Rightarrow> int \<Rightarrow> (bool \<times> ('d, 'z) nmbm_scheme) option" where
  "remap_block_nmbm crc s block mapped_block copy_len =
     (if ucast block \<ge> data_block_count s then Some (False, s)
      else Option.bind (nmbm_map_block crc (snd (nmbm_set_block_state s (ucast mapped_block) BLOCK_ST_BAD)) (ucast block))
        (\<lambda>(success, s1).
          if \<not> success then Some (False, s1)
          else
            let new_block = ucast (block_mapping s1 ! unat block);
                s2 = snd (bbt_nand_erase s1 new_block);
                s3 = (if copy_len > 0 then snd (bbt_nand_copy s2 new_block mapped_block copy_len) else s2)
            in map_option (\<lambda>(_, s4). (True, s4)) (nmbm_update_info_table crc s3)))"

definition get_mapping_block_index_nmbm :: "('d, 'z) nmbm_scheme \<Rightarrow> int \<Rightarrow> int" where
  "get_mapping_block_index_nmbm s block =
     (if (word_of_int block :: u32) \<ge> data_block_count s then - 1
      else sint (block_mapping s ! unat (word_of_int block :: u32)))"

text \<open>The loop that goes down to a logical block with its original physical block.\<close>

function unmap_start :: "('d, 'z) nmbm_scheme \<Rightarrow> nat \<Rightarrow> nat \<Rightarrow> (nat \<times> nat) option" where
  "unmap_start s start offset =
     (if block_mapping s ! start \<ge> mapping_blocks_ba s then
        if start = 0 then None else unmap_start s (start - 1) (Suc offset)
      else Some (start, offset))"
  by pat_completeness auto
termination
  by (relation "measure (\<lambda>(s, start, offset). start)") auto

declare unmap_start.simps [simp del]

text \<open>
  The loop that finds the top spare block, with an \<open>int\<close> \<open>new_block\<close>. The loop variable is a
  \<open>u16\<close>, which is enough for a count of at most \<open>0xffff\<close> blocks.
\<close>

definition lowest_spare :: "('d, 'z) nmbm_scheme \<Rightarrow> int" where
  "lowest_spare s =
     foldl (\<lambda>new_block block.
         let cur = block_mapping s ! block in
         if cur < mapping_blocks_ba s then new_block
         else if sint cur \<le> new_block then sint cur - 1 else new_block)
       (sint (signature_ba s - 1)) [0..<unat (data_block_count s)]"

definition unmap_block_nmbm :: "crc32 \<Rightarrow> ('d, 'z) nmbm_scheme \<Rightarrow> u16 \<Rightarrow> ('d, 'z) nmbm_scheme option" where
  "unmap_block_nmbm crc s block =
     (if ucast block \<ge> data_block_count s then Some s
      else case unmap_start s (unat block) 0 of
        None \<Rightarrow> Some s
      | Some (start, offset) \<Rightarrow>
          if offset = 0 then Some s
          else
            let new_block = block_mapping s ! start + of_nat offset;
                s1 = snd (nmbm_set_block_state s new_block BLOCK_ST_GOOD);
                s2 = s1\<lparr>block_mapping := (block_mapping s1)[unat block := new_block],
                        block_mapping_changed := block_mapping_changed s1 + 1\<rparr>;
                s3 = s2\<lparr>mapping_blocks_top_ba := word_of_int (lowest_spare s2)\<rparr>
            in map_option snd (nmbm_update_info_table crc s3))"

text \<open>The debug file prints the blocks that are mapped to spare blocks, from block 1 on.\<close>

definition mtk_bmt_debug_nmbm :: "('d, 'z) nmbm_scheme \<Rightarrow> u64 \<Rightarrow> int \<times> (nat \<times> u32) list" where
  "mtk_bmt_debug_nmbm s val =
     (0, if val = 0
         then map (\<lambda>i. (i, block_mapping s ! i))
                (filter (\<lambda>i. \<not> block_mapping s ! i < mapping_blocks_ba s) [1..<unat (data_block_count s)])
         else [])"

text \<open>The descriptor with a new instance, all zero.\<close>

definition zero_header :: nmbm_header where
  "zero_header = \<lparr>h_magic = 0, h_version = 0, h_size = 0, h_checksum = 0\<rparr>"

definition nmbm_new_instance :: "'d bmtd \<Rightarrow> 'd nmbm" where
  "nmbm_new_instance b = bmtd.extend b
     (nmbm.fields 0 0 0
        \<lparr>sg_header = zero_header, sg_nand_size = 0, sg_block_size = 0, sg_page_size = 0, sg_spare_size = 0,
         sg_mgmt_start_pb = 0, sg_max_try_count = 0, sg_padding = replicate 7 0\<rparr>
        [] 0 0
        \<lparr>it_header = zero_header, it_write_count = 0, it_state_table_off = 0, it_mapping_table_off = 0, it_padding = 0\<rparr>
        [] 0 0 [] 0 0 False 0 0 0 0 0 0 0 0 0 0 False False)"

text \<open>
  The properties of the device tree: the two numbers are optional, the other two are flags.
  \<open>alloc\<close> says whether the instance can be allocated.
\<close>

record nmbm_dt =
  dt_max_ratio :: "u32 option"
  dt_max_reserved :: "u32 option"
  dt_empty_page_ecc :: bool
  dt_force_create :: bool

definition nmbm_configure :: "nmbm_dt \<Rightarrow> ('d, 'z) nmbm_scheme \<Rightarrow> ('d, 'z) nmbm_scheme" where
  "nmbm_configure dt s =
     s\<lparr>max_ratio := case_option 1 id (dt_max_ratio dt),
       max_reserved_blocks := case_option 256 id (dt_max_reserved dt),
       empty_page_ecc_ok := dt_empty_page_ecc dt, force_create := dt_force_create dt\<rparr>"

definition mtk_bmt_init_nmbm ::
  "crc32 \<Rightarrow> bool \<Rightarrow> nmbm_dt \<Rightarrow> 'd bmtd \<Rightarrow> (int \<times> 'd bmtd \<times> 'd nmbm option) option" where
  "mtk_bmt_init_nmbm crc alloc dt b =
     (if \<not> alloc then Some (- ENOMEM, b, None)
      else map_option (\<lambda>(ret, s).
             if ret \<noteq> 0 then (ret, bmtd.truncate s, None)
             else
               let s1 = s\<lparr>mtd_size := ucast (push_bit (bshift s) (data_block_count s))\<rparr>
               in (0, bmtd.truncate s1, Some s1))
           (nmbm_attach crc (nmbm_configure dt (nmbm_new_instance b))))"

definition mtk_bmt_nmbm_ops :: "crc32 \<Rightarrow> ('d, 'z) nmbm_scheme mtk_bmt_ops" where
  "mtk_bmt_nmbm_ops crc =
     \<lparr>remap_block = remap_block_nmbm crc, unmap_block = unmap_block_nmbm crc,
      get_mapping_block = get_mapping_block_index_nmbm\<rparr>"

section \<open>Remapping under the core\<close>

definition nmbm_ok :: "('d, 'z) nmbm_scheme \<Rightarrow> bool" where
  "nmbm_ok s \<longleftrightarrow> chip_ok s \<and> tables_ok s"

lemma nmbm_ok_device:
  assumes "device_step s t"
  shows "nmbm_ok t = nmbm_ok s"
proof -
  have "chip_ok t = chip_ok s"
    using wear_device [OF assms] by (simp add: chip_ok_def wear_fields states_cover_wear)
  moreover have "tables_ok t = tables_ok s"
    using wear_device [OF assms] by (simp add: tables_ok_def wear_fields placed_wear)
  ultimately show ?thesis by (simp add: nmbm_ok_def)
qed

lemma nmbm_ok_set_state: "nmbm_ok (snd (nmbm_set_block_state s ba st)) = nmbm_ok s"
  by (simp add: nmbm_ok_def chip_ok_def tables_ok_def placed_def states_cover_def nmbm_set_block_state_def
      Let_def state_covers_def)

lemma same_chip_set_state: "same_chip s (snd (nmbm_set_block_state s ba st))"
  by (simp add: same_chip_def nmbm_set_block_state_def Let_def geometry_def)

lemma set_state_fields:
  "block_mapping (snd (nmbm_set_block_state s ba st)) = block_mapping s"
  "mapping_blocks_top_ba (snd (nmbm_set_block_state s ba st)) = mapping_blocks_top_ba s"
  "protected (snd (nmbm_set_block_state s ba st)) = protected s"
  by (simp_all add: nmbm_set_block_state_def Let_def)

lemma same_chip_device: "device_step s t \<Longrightarrow> same_chip s t"
  by (rule worn_same_chip, rule wear_worn, rule wear_device)

text \<open>
  What a successful remap promises: the block that failed is marked bad, and the logical block
  gets a spare block that was good after that; every other logical block keeps its block,
  and a state changes only to bad.
\<close>

definition block_replaced ::
  "('d, 'z) nmbm_scheme \<Rightarrow> u16 \<Rightarrow> u16 \<Rightarrow> ('d, 'z) nmbm_scheme \<Rightarrow> bool" where
  "block_replaced s block mapped t \<longleftrightarrow>
     (let s0 = snd (nmbm_set_block_state s (ucast mapped) BLOCK_ST_BAD) in
      unat block < unat (data_block_count s)
      \<and> (\<exists>pb \<le> mapping_blocks_top_ba s. block_mapping t = (block_mapping s)[unat block := pb]
           \<and> nmbm_get_block_state s0 pb = BLOCK_ST_GOOD)
      \<and> (\<forall>ba < block_count s. nmbm_get_block_state t ba = BLOCK_ST_BAD
           \<or> nmbm_get_block_state t ba = nmbm_get_block_state s0 ba))"

text \<open>A remap always returns; the chip and the tables stay as they have to be.\<close>

lemma remap_block_nmbm_returns:
  assumes "nmbm_ok s"
  shows "\<exists>success t. remap_block_nmbm crc s block mapped copy_len = Some (success, t)
    \<and> nmbm_ok t \<and> same_chip s t
    \<and> (success \<longrightarrow> block_replaced s block mapped t)"
proof (cases "ucast block \<ge> data_block_count s")
  case True
  then show ?thesis using assms by (auto simp: remap_block_nmbm_def same_chip_refl)
next
  case False
  define s0 where "s0 = snd (nmbm_set_block_state s (ucast mapped) BLOCK_ST_BAD)"
  have s0: "nmbm_ok s0" "same_chip s s0"
    using assms by (simp_all add: s0_def nmbm_ok_set_state same_chip_set_state)
  have ub: "unat (ucast block :: u32) = unat block"
    using unsigned_less [of block, where 'a = nat] by (intro unat_ucast_small) simp
  obtain ok s1 where m: "nmbm_map_block crc s0 (ucast block) = Some (ok, s1)" "nmbm_ok s1" "same_chip s0 s1"
    and new: "ok \<longrightarrow> block_state s1 = block_state s0 \<and> (\<exists>pb. block_mapping s1 = (block_mapping s0)[unat block := pb]
      \<and> pb \<le> mapping_blocks_top_ba s0 \<and> nmbm_get_block_state s0 pb = BLOCK_ST_GOOD)"
    using map_block_keeps [of s0 crc "ucast block"] s0(1) ub unfolding nmbm_ok_def by metis
  show ?thesis
  proof (cases ok)
    case False
    then show ?thesis
      using m s0(2) \<open>\<not> data_block_count s \<le> ucast block\<close> same_chip_trans
      by (auto simp: remap_block_nmbm_def s0_def [symmetric])
  next
    case True
    define nb where "nb = (ucast (block_mapping s1 ! unat block) :: u16)"
    define s2 where "s2 = snd (bbt_nand_erase s1 nb)"
    define s3 where "s3 = (if copy_len > 0 then snd (bbt_nand_copy s2 nb mapped copy_len) else s2)"
    have "device_step s1 s2" by (simp add: s2_def bbt_nand_erase_step [OF prod.collapse [symmetric]])
    moreover have "device_step s2 s3"
      by (simp add: s3_def bbt_nand_copy_step [OF prod.collapse [symmetric]])
    ultimately have d: "device_step s1 s3" by (rule device_step_trans)
    have s3: "nmbm_ok s3" using m(2) nmbm_ok_device [OF d] by simp
    then obtain r t where t: "nmbm_update_info_table crc s3 = Some (r, t)" "worn s3 t" "tables_ok t" "chip_ok t"
      using update_info_table_keeps [of s3 crc] by (auto simp: nmbm_ok_def)
    have same: "same_chip s t"
      using s0(2) m(3) same_chip_device [OF d] worn_same_chip [OF t(2)] same_chip_trans by blast
    obtain pb where pb: "block_mapping s1 = (block_mapping s0)[unat block := pb]" "pb \<le> mapping_blocks_top_ba s0"
      "nmbm_get_block_state s0 pb = BLOCK_ST_GOOD" "block_state s1 = block_state s0"
      using new True by blast
    have f0: "block_mapping s0 = block_mapping s" "mapping_blocks_top_ba s0 = mapping_blocks_top_ba s"
      by (simp_all add: s0_def set_state_fields)
    have bm: "block_mapping t = (block_mapping s)[unat block := pb]"
      using t(2) pb(1) nmbm_device_step(10) [OF d] f0 by (simp add: worn_def)
    have st: "nmbm_get_block_state t ba = BLOCK_ST_BAD \<or> nmbm_get_block_state t ba = nmbm_get_block_state s0 ba"
      if "ba < block_count s" for ba
    proof -
      have "ba < block_count s3" using that s0(2) m(3) same_chip_device [OF d] by (simp add: same_chip_def)
      then have "nmbm_get_block_state t ba = nmbm_get_block_state s3 ba \<or> nmbm_get_block_state t ba = 0"
        using t(2) by (simp add: worn_def)
      moreover have "nmbm_get_block_state s3 ba = nmbm_get_block_state s0 ba"
        using nmbm_device_step(7) [OF d] pb(4) by (intro get_block_state_cong) simp
      ultimately show ?thesis by auto
    qed
    have less: "unat block < unat (data_block_count s)"
      using \<open>\<not> data_block_count s \<le> ucast block\<close> ub by (simp add: word_le_nat_alt)
    have "remap_block_nmbm crc s block mapped copy_len
        = map_option (\<lambda>(_, s4). (True, s4)) (nmbm_update_info_table crc s3)"
      using True m(1) \<open>\<not> data_block_count s \<le> ucast block\<close>
      by (simp add: remap_block_nmbm_def s0_def [symmetric] s3_def s2_def nb_def Let_def)
    then have "remap_block_nmbm crc s block mapped copy_len = Some (True, t)" by (simp add: t(1))
    then show ?thesis
      using same less bm pb st t f0 by (auto simp: block_replaced_def Let_def s0_def [symmetric] nmbm_ok_def)
  qed
qed

text \<open>NMBM is a backend of the core.\<close>

interpretation nmbm: bmt_backend "mtk_bmt_nmbm_ops crc" nmbm_ok for crc
proof unfold_locales
  fix s t :: "('a, 'b) nmbm_scheme" and b m :: u16 and n :: int and ok
  note r = remap_block_nmbm_returns [of s crc b m n]
  show "geometry t = geometry s" if "nmbm_ok s" "remap_block (mtk_bmt_nmbm_ops crc) s b m n = Some (ok, t)"
    using that r by (auto simp: mtk_bmt_nmbm_ops_def same_chip_def)
  show "get_mapping_block (mtk_bmt_nmbm_ops crc) t = get_mapping_block (mtk_bmt_nmbm_ops crc) s"
    if "device_step s t"
    using nmbm_device_step [OF that]
    by (simp add: mtk_bmt_nmbm_ops_def get_mapping_block_index_nmbm_def fun_eq_iff)
  show "nmbm_ok t" if "device_step s t" "nmbm_ok s"
    using that nmbm_ok_device by blast
  show "nmbm_ok t" if "nmbm_ok s" "remap_block (mtk_bmt_nmbm_ops crc) s b m n = Some (ok, t)"
    using that r by (auto simp: mtk_bmt_nmbm_ops_def)
  show "remap_block (mtk_bmt_nmbm_ops crc) s b m n \<noteq> None" if "nmbm_ok s"
    using that r by (auto simp: mtk_bmt_nmbm_ops_def)
qed


lemma demo_nmbm_ok: "chip_ok (demo_nmbm drv d)" "tables_ok (demo_nmbm drv d)"
  by (simp_all add: chip_ok_def tables_ok_def demo_states_cover demo_nmbm_fields) (simp_all add: demo_nmbm_def)


text \<open>
  With the NMBM backend and a driver that reads all the bytes it reports as read, a read
  through the core returns, whatever errors the driver gives and however many blocks are
  remapped meanwhile.
\<close>

theorem nmbm_read_returns:
  assumes "chip_ok s" and "tables_ok s" and "honest_reads (lower_ops s)" and "block_geometry s"
    and "unat len < 2 ^ 32" and "11 * unat len + 10 < fuel"
  shows "\<exists>r dat oob t. mtk_bmt_read fuel (mtk_bmt_nmbm_ops crc) s from len ooboffs 0 = Some (r, dat, oob, t)
    \<and> geometry t = geometry s \<and> chip_ok t \<and> tables_ok t"
proof -
  let ?l = "\<lparr>rl_from = from, rl_data = [], rl_oob = [], rl_ooboffs = ooboffs, rl_ooblen = 0,
    rl_retry = 0, rl_ret = 0, rl_bitflips = 0\<rparr>"
  have ok: "nmbm_ok s" using assms(1,2) by (simp add: nmbm_ok_def)
  have "mtk_bmt_read_loop fuel (mtk_bmt_nmbm_ops crc) len 0 ?l s \<noteq> None"
    using assms ok by (intro nmbm.read_loop_terminates) auto
  then obtain r dat oob t where
    ret: "mtk_bmt_read_loop fuel (mtk_bmt_nmbm_ops crc) len 0 ?l s = Some (r, dat, oob, t)" by auto
  then show ?thesis using nmbm.read_loop_frame [OF ret] ok by (simp add: mtk_bmt_read_def nmbm_ok_def)
qed

theorem nmbm_read_returns_witness:
  "\<exists>r dat oob t. mtk_bmt_read 400 (mtk_bmt_nmbm_ops (\<lambda>v xs. v)) (demo_nmbm quiet_ops ()) 20 32 0 0 = Some (r, dat, oob, t)"
proof -
  have h: "honest_reads (lower_ops (demo_nmbm quiet_ops ()))"
    by (simp add: honest_reads_def demo_nmbm_def quiet_ops_def)
  have g: "block_geometry (demo_nmbm quiet_ops ())" by code_simp
  from nmbm_read_returns [OF demo_nmbm_ok h g, of 32 400 "\<lambda>v xs. v" 20 0] show ?thesis by auto
qed

section \<open>The signature is found again\<close>

lemma div_times_less_eq_times_div: "(a :: nat) div k * b \<le> a * b div k"
proof (cases "k = 0")
  case False
  have "a div k * b * k = a div k * k * b" by simp
  also have "\<dots> \<le> a * b" by (intro mult_le_mono1 div_times_less_eq_dividend)
  finally show ?thesis using False by (simp add: less_eq_div_iff_mult_less_eq)
qed simp

lemma max_reserve_mono:
  fixes l ba n r :: u32
  assumes "l \<le> ba" and "ba \<le> n"
  shows "(if r \<noteq> 0 \<and> n - l > r then n - r else l) \<le> (if r \<noteq> 0 \<and> n - ba > r then n - r else ba)"
proof -
  have u: "unat (n - l) = unat n - unat l" "unat (n - ba) = unat n - unat ba"
    using assms by (simp_all add: unat_sub order_trans [OF assms])
  have n: "unat l \<le> unat ba" "unat ba \<le> unat n" using assms by (simp_all add: word_le_nat_alt)
  have r: "unat (n - r) = unat n - unat r" if "unat r < unat n"
    using that by (simp add: unat_sub word_le_nat_alt)
  show ?thesis
    using u n r by (auto simp: word_less_nat_alt word_le_nat_alt)
qed

text \<open>
  Every block above the boundary at which a new chip places its management area is
  visited when the signature is looked for: the search does not stop before the boundary,
  though it rounds the number of blocks differently.
\<close>

theorem signature_search_covers:
  assumes "block_count s = ucast (total_blks s)" and "max_ratio s \<le> 16"
  shows "signature_search_limit s \<le> mgmt_boundary s \<and> mgmt_boundary s \<le> block_count s"
proof -
  let ?n = "ucast (total_blks s) :: u32" and ?r = "16 - max_ratio s"
  have r: "unat ?r \<le> 16" using assms(2) by (simp add: unat_sub word_le_nat_alt)
  have n: "unat ?n < 65536"
    using unsigned_less [of "total_blks s", where 'a = nat] by (simp add: unat_ucast_small)
  have "unat ?n * unat ?r \<le> 65536 * 16" using r n by (intro mult_le_mono) auto
  then have "unat ?n * unat ?r < 2 ^ 32" by simp
  then have ba: "unat (?n * ?r div 16) = unat ?n * unat ?r div 16"
    by (simp add: unat_div unat_word_ariths)
  have "unat ?n div 16 * unat ?r \<le> unat ?n * unat ?r div 16"
    by (rule div_times_less_eq_times_div)
  moreover from this div_le_dividend have "unat ?n div 16 * unat ?r \<le> unat ?n * unat ?r" by (rule order_trans)
  then have "unat ?n div 16 * unat ?r < 2 ^ 32" using \<open>unat ?n * unat ?r < 2 ^ 32\<close> by (rule le_less_trans)
  then have l: "unat (?n div 16 * ?r) = unat ?n div 16 * unat ?r"
    by (simp add: unat_div unat_word_ariths)
  ultimately have le: "?n div 16 * ?r \<le> ?n * ?r div 16" by (simp add: word_le_nat_alt ba l)
  have "unat ?n * unat ?r div 16 \<le> unat ?n * 16 div 16" using r by (intro div_le_mono mult_le_mono) auto
  then have top_ba: "?n * ?r div 16 \<le> ?n" by (simp add: word_le_nat_alt ba)
  have "mgmt_boundary s \<le> ?n"
  proof (cases "max_reserved_blocks s \<noteq> 0 \<and> ?n - ?n * ?r div 16 > max_reserved_blocks s")
    case True
    then have "unat (max_reserved_blocks s) < unat ?n - unat (?n * ?r div 16)"
      using unat_sub [OF top_ba] by (simp add: word_less_nat_alt)
    then have "unat (max_reserved_blocks s) \<le> unat ?n" by linarith
    then show ?thesis
      using True by (simp add: mgmt_boundary_def Let_def assms(1) word_le_nat_alt unat_sub)
  next
    case False
    then show ?thesis using top_ba by (auto simp: mgmt_boundary_def Let_def assms(1))
  qed
  moreover have "signature_search_limit s \<le> mgmt_boundary s"
    using max_reserve_mono [OF le top_ba, of "max_reserved_blocks s"]
    unfolding signature_search_limit_def mgmt_boundary_def Let_def assms(1) .
  ultimately show ?thesis by (simp add: assms(1))
qed

theorem signature_search_covers_witness:
  "signature_search_limit (demo_nmbm quiet_ops () \<lparr>total_blks := 1000, block_count := 1000\<rparr>) = 930
   \<and> signature_search_limit (demo_nmbm quiet_ops () \<lparr>total_blks := 1000, block_count := 1000\<rparr>)
     \<le> mgmt_boundary (demo_nmbm quiet_ops () \<lparr>total_blks := 1000, block_count := 1000\<rparr>)"
proof -
  let ?s = "demo_nmbm quiet_ops () \<lparr>total_blks := 1000, block_count := 1000\<rparr>"
  have h: "block_count ?s = ucast (total_blks ?s)" "max_ratio ?s \<le> 16" by (simp_all add: demo_nmbm_def)
  have "signature_search_limit ?s = 930" by code_simp
  then show ?thesis using signature_search_covers [OF h] by blast
qed

lemma find_signature_pages_step:
  "find_signature_pages crc offs s addr b = (r, b2, t) \<Longrightarrow> device_step s t"
proof (induction offs arbitrary: s b)
  case Nil
  then show ?case by simp
next
  case (Cons off offs)
  obtain ret b1 s1 where rd: "nmbn_read_data s (addr + off) b 0 48 = (ret, b1, s1)" by (metis prod_cases3)
  have "t = s1 \<or> find_signature_pages crc offs s1 addr b1 = (r, b2, t)"
    using Cons.prems by (auto simp: rd split: if_splits)
  then show ?case using nmbn_read_data_step [OF rd] Cons.IH device_step_trans by blast
qed

lemma find_signature_loop_returns:
  "limit \<noteq> 0 \<Longrightarrow> \<exists>r t. find_signature_loop crc s b ba limit = Some (r, t) \<and> device_step s t
    \<and> (\<forall>sg x. r = Some (sg, x) \<longrightarrow> limit - 1 \<le> x \<and> x < ba)"
proof (induction "unat ba" arbitrary: s b ba rule: less_induct)
  case less
  show ?case
  proof (cases "limit \<le> ba")
    case False
    then show ?thesis by (simp add: find_signature_loop.simps [of crc s])
  next
    case True
    have pos: "0 < ba" using True less.prems by (simp add: word_neq_0_conv order_less_le_trans)
    then have dec: "unat (ba - 1) < unat ba" by (rule unat_dec_less)
    have bounds: "limit - 1 \<le> ba - 1" "ba - 1 < ba"
      using True less.prems dec unat_minus_one_greater [OF pos]
      by (simp_all add: word_le_nat_alt word_less_nat_alt unat_minus_one unat_gt_0)
    obtain bad s1 where cb: "nmbm_check_bad_phys_block s (ba - 1) = (bad, s1)" by fastforce
    obtain found b2 s2 where p: "find_signature_pages crc (page_offs s1) s1 (ba2addr s1 (ba - 1)) b = (found, b2, s2)"
      by (metis prod_cases3)
    have s1: "device_step s s1" using cb by (rule nmbm_check_bad_step)
    have s2: "device_step s s2" using s1 find_signature_pages_step [OF p] by (rule device_step_trans)
    have IH: "\<exists>r t. find_signature_loop crc u c (ba - 1) limit = Some (r, t) \<and> device_step s t
        \<and> (\<forall>sg x. r = Some (sg, x) \<longrightarrow> limit - 1 \<le> x \<and> x < ba)" if u: "device_step s u" for u c
    proof -
      obtain r t where "find_signature_loop crc u c (ba - 1) limit = Some (r, t)" "device_step u t"
        "\<forall>sg x. r = Some (sg, x) \<longrightarrow> limit - 1 \<le> x \<and> x < ba - 1"
        using less.hyps [OF dec less.prems] by blast
      then show ?thesis using u bounds(2) device_step_trans less_trans by blast
    qed
    show ?thesis
      using True IH [OF s1, of b] IH [OF s2, of b2] s2 bounds
      by (cases bad; cases found) (auto simp: find_signature_loop.simps [of crc s] cb p)
  qed
qed

text \<open>
  The search for the signature ends when its limit is not block 0, changes nothing but the
  state of the device, and finds a signature only in a block that exists, at the earliest in the
  block before the limit.
\<close>

theorem nmbm_find_signature_returns:
  assumes "signature_search_limit s \<noteq> 0"
  shows "\<exists>r t. nmbm_find_signature crc s = Some (r, t) \<and> device_step s t
    \<and> (\<forall>sg x. r = Some (sg, x) \<longrightarrow> signature_search_limit s - 1 \<le> x \<and> x < ucast (total_blks s))"
  using find_signature_loop_returns [OF assms] by (simp add: nmbm_find_signature_def)

theorem nmbm_find_signature_returns_witness:
  "\<exists>r t. nmbm_find_signature (\<lambda>v xs. v) (demo_nmbm quiet_ops ()) = Some (r, t) \<and> block_state t = [0xffffffff]"
proof -
  have l: "signature_search_limit (demo_nmbm quiet_ops ()) \<noteq> 0" by code_simp
  have b: "block_state (demo_nmbm quiet_ops ()) = [0xffffffff]" by (simp add: demo_nmbm_def)
  obtain r t where "nmbm_find_signature (\<lambda>v xs. v) (demo_nmbm quiet_ops ()) = Some (r, t)"
    "device_step (demo_nmbm quiet_ops ()) t"
    using nmbm_find_signature_returns [OF l] by blast
  then show ?thesis using nmbm_device_step(7) b by metis
qed

section \<open>What the checks of a stored table ensure\<close>

text \<open>
  A table header that is accepted describes a mapping table inside the information table
  only when its offset is not beyond the end: the subtraction in the check wraps around, so a
  larger offset can pass. The state table ends before the mapping table when it begins before it.
\<close>

theorem nmbm_check_info_table_header_bounds:
  assumes "nmbm_check_info_table_header s dat"
  shows "let so = it_state_table_off (info_header_of_bytes dat); mo = it_mapping_table_off (info_header_of_bytes dat) in
    (unat mo + unat (mapping_table_size s) \<le> unat (info_table_size s) \<longleftrightarrow> mo \<le> info_table_size s)
    \<and> (so \<le> mo \<longrightarrow> unat so + unat (state_table_size s) \<le> unat mo)"
proof -
  define so mo where "so = it_state_table_off (info_header_of_bytes dat)"
    and "mo = it_mapping_table_off (info_header_of_bytes dat)"
  have h: "state_table_size s \<le> mo - so" "mapping_table_size s \<le> info_table_size s - mo"
    using assms by (simp_all add: nmbm_check_info_table_header_def so_def mo_def Let_def linorder_not_less)
  have "unat so + unat (state_table_size s) \<le> unat mo" if "so \<le> mo"
  proof -
    have "unat so \<le> unat mo" using that by (simp add: word_le_nat_alt)
    then show ?thesis using h(1) unat_sub [OF that] by (simp add: word_le_nat_alt)
  qed
  moreover have "unat mo + unat (mapping_table_size s) \<le> unat (info_table_size s)" if "mo \<le> info_table_size s"
  proof -
    have "unat mo \<le> unat (info_table_size s)" using that by (simp add: word_le_nat_alt)
    then show ?thesis using h(2) unat_sub [OF that] by (simp add: word_le_nat_alt)
  qed
  moreover have "mo \<le> info_table_size s" if "unat mo + unat (mapping_table_size s) \<le> unat (info_table_size s)"
    using that by (simp add: word_le_nat_alt)
  ultimately show ?thesis unfolding Let_def so_def [symmetric] mo_def [symmetric] by blast
qed

lemma unat_numeral_112: "unat (112 :: u32) = 112"
  by simp

text \<open>The instance: an accepted header whose mapping table begins at \<open>0xfffffff0\<close>.\<close>

definition wrapped_header :: nmbm_info_table_header where
  "wrapped_header = \<lparr>it_header = \<lparr>h_magic = NMBM_MAGIC_INFO_TABLE, h_version = NMBM_VER, h_size = 112, h_checksum = 0\<rparr>,
     it_write_count = 1, it_state_table_off = 32, it_mapping_table_off = 0xfffffff0, it_padding = 0\<rparr>"

theorem nmbm_check_info_table_header_bounds_witness:
  "nmbm_check_info_table_header (demo_nmbm quiet_ops ()) (info_header_bytes wrapped_header)
   \<and> \<not> unat (0xfffffff0 :: u32) + unat (mapping_table_size (demo_nmbm quiet_ops ())) \<le> 112"
proof -
  let ?s = "demo_nmbm quiet_ops ()" and ?d = "info_header_bytes wrapped_header"
  have i: "info_header_of_bytes ?d = wrapped_header"
    using info_header_round_trip [of wrapped_header "[]"] by simp
  have a: "nmbm_check_info_table_header ?s ?d"
    unfolding nmbm_check_info_table_header_def i by code_simp
  have "\<not> (0xfffffff0 :: u32) \<le> 112" by code_simp
  then have "\<not> it_mapping_table_off wrapped_header \<le> info_table_size ?s"
    by (simp only: demo_nmbm_fields wrapped_header_def nmbm_info_table_header.simps simp_thms)
  then have "\<not> unat (it_mapping_table_off wrapped_header) + unat (mapping_table_size ?s) \<le> unat (info_table_size ?s)"
    using conjunct1 [OF nmbm_check_info_table_header_bounds [OF a, unfolded Let_def]] unfolding i by blast
  moreover have "it_mapping_table_off wrapped_header = 0xfffffff0" "unat (info_table_size ?s) = 112"
    by (simp_all only: wrapped_header_def demo_nmbm_fields nmbm_info_table_header.simps unat_numeral_112)
  ultimately show ?thesis using a by (simp only: simp_thms)
qed

lemma check_mapping_fold:
  "foldl (check_mapping_entry s e dat) (Some m0) [0..<n] = Some m \<Longrightarrow>
    m \<le> m0 \<and> (\<forall>ba < n. table_mapping dat (of_nat ba) \<noteq> signature_ba s
      \<and> (table_mapping dat (of_nat ba) < data_block_count s \<or> e \<le> table_mapping dat (of_nat ba))
      \<and> (e \<le> table_mapping dat (of_nat ba) \<longrightarrow> m \<le> table_mapping dat (of_nat ba)))"
proof (induction n arbitrary: m)
  case 0
  then show ?case by simp
next
  case (Suc n)
  define p where "p = foldl (check_mapping_entry s e dat) (Some m0) [0..<n]"
  have p: "check_mapping_entry s e dat p n = Some m" using Suc.prems by (simp add: p_def)
  then obtain k where k0: "p = Some k" by (cases p) (simp_all add: check_mapping_entry_def)
  then have k: "foldl (check_mapping_entry s e dat) (Some m0) [0..<n] = Some k" by (simp add: p_def)
  have m: "check_mapping_entry s e dat (Some k) n = Some m" using p k0 by simp
  note IH = Suc.IH [OF k]
  have mk: "m \<le> k" using m by (auto simp: check_mapping_entry_def Let_def split: if_splits)
  have now: "table_mapping dat (of_nat n) \<noteq> signature_ba s"
    "table_mapping dat (of_nat n) < data_block_count s \<or> e \<le> table_mapping dat (of_nat n)"
    "e \<le> table_mapping dat (of_nat n) \<longrightarrow> m \<le> table_mapping dat (of_nat n)"
    using m by (auto simp: check_mapping_entry_def Let_def not_le not_less split: if_splits)
  show ?case
  proof (intro conjI allI impI)
    show "m \<le> m0" using mk conjunct1 [OF IH] by (rule order_trans)
    fix ba assume ba: "ba < Suc n"
    show "table_mapping dat (of_nat ba) \<noteq> signature_ba s"
      "table_mapping dat (of_nat ba) < data_block_count s \<or> e \<le> table_mapping dat (of_nat ba)"
      using IH now ba by (cases "ba = n"; simp)+
    show "m \<le> table_mapping dat (of_nat ba)" if "e \<le> table_mapping dat (of_nat ba)"
    proof (cases "ba = n")
      case True
      then show ?thesis using now that by simp
    next
      case False
      then have "k \<le> table_mapping dat (of_nat ba)" using IH ba that by simp
      with mk show ?thesis by (rule order_trans)
    qed
  qed
qed

text \<open>
  A stored table that is accepted maps no data block to the signature or into the tables, each
  entry is a block below the number of data blocks or above the table, and the top spare block
  that is taken from it lies below every spare block in use and below the signature.
\<close>

theorem nmbm_check_info_table_accepts:
  assumes "nmbm_check_info_table s start e dat = Some t" and "ba < unat (data_block_count s)"
  shows "table_mapping dat (of_nat ba) \<noteq> signature_ba s
    \<and> (table_mapping dat (of_nat ba) < data_block_count s \<or> e \<le> table_mapping dat (of_nat ba))
    \<and> (e \<le> table_mapping dat (of_nat ba) \<longrightarrow> t + 1 \<le> table_mapping dat (of_nat ba))
    \<and> t + 1 \<le> signature_ba s"
proof -
  obtain m where m: "foldl (check_mapping_entry s e dat) (Some (signature_ba s)) [0..<unat (data_block_count s)] = Some m"
    and t: "t = m - 1"
    using assms(1) by (auto simp: nmbm_check_info_table_def bind_eq_Some_conv split: if_splits)
  show ?thesis using check_mapping_fold [OF m] assms(2) by (simp add: t)
qed

theorem nmbm_check_info_table_accepts_witness:
  "nmbm_check_info_table (demo_nmbm quiet_ops () \<lparr>data_block_count := 2\<rparr>) 6 8
     (info_header_bytes (info_table (demo_nmbm quiet_ops ())) @ replicate 16 0xff @ words_bytes [0, 12]) = Some 11
   \<and> (11 :: u32) + 1 \<le> 15"
proof -
  let ?s = "demo_nmbm quiet_ops () \<lparr>data_block_count := 2\<rparr>"
  let ?d = "info_header_bytes (info_table (demo_nmbm quiet_ops ())) @ replicate 16 0xff @ words_bytes [0, 12]"
  have c: "nmbm_check_info_table ?s 6 8 ?d = Some 11" by code_simp
  have "(0 :: nat) < unat (data_block_count ?s)" by simp
  from nmbm_check_info_table_accepts [OF c this] c show ?thesis by (simp add: demo_nmbm_def)
qed

section \<open>The layout of the tables\<close>

lemma unat_align_up:
  assumes "unat x + 2 ^ k \<le> 2 ^ 31" and "a = 2 ^ k" and "k < 32"
  shows "unat (align_up x a) = (unat x + 2 ^ k - 1) div 2 ^ k * 2 ^ k"
proof -
  have m: "a - 1 = mask k" by (simp add: assms(2) mask_eq_exp_minus_1)
  have um: "unat (mask k :: u32) = 2 ^ k - 1"
    using assms(3) by (simp add: mask_eq_exp_minus_1 unat_minus_one unat_pow2_u32)
  have "(2 :: nat) ^ k \<ge> 1" by simp
  then have w: "unat (x + mask k) = unat x + 2 ^ k - 1"
    using assms(1) um by (simp add: unat_word_ariths)
  have "align_up x a = push_bit k (drop_bit k (x + mask k))"
    unfolding align_up_def m by (rule and_not_mask_push_drop)
  moreover have "unat (push_bit k (drop_bit k (x + mask k))) = unat (x + mask k) div 2 ^ k * 2 ^ k"
  proof -
    have "unat (drop_bit k (x + mask k)) * 2 ^ k \<le> unat (x + mask k)" by (simp add: unat_drop_bit)
    also have "\<dots> < 2 ^ 32" using assms(1) w by simp
    finally show ?thesis
      by (simp add: push_bit_eq_mult unat_word_ariths unat_drop_bit assms(3) unat_pow2_u32)
  qed
  ultimately show ?thesis by (simp add: w)
qed

lemma align_up_ge:
  assumes "unat x + 2 ^ k \<le> 2 ^ 31" and "a = 2 ^ k" and "k < 32"
  shows "unat x \<le> unat (align_up x a)" "unat (align_up x a) < unat x + 2 ^ k"
proof -
  have dm: "(unat x + 2 ^ k - 1) div 2 ^ k * 2 ^ k + (unat x + 2 ^ k - 1) mod 2 ^ k = unat x + 2 ^ k - 1"
    by (rule div_mult_mod_eq)
  have "(unat x + 2 ^ k - 1) mod 2 ^ k < 2 ^ k" by simp
  then show "unat x \<le> unat (align_up x a)" "unat (align_up x a) < unat x + 2 ^ k"
    unfolding unat_align_up [OF assms] using dm by linarith+
qed

lemma state_table_size_le:
  assumes "unat n < 65536"
  shows "unat (nmbm_state_table_size n) = (unat n + 15) div 16 * 4"
proof -
  have "unat (n + 15) = unat n + 15" using assms by (simp add: unat_word_ariths(1))
  moreover have "n + 16 - 1 = n + 15" by simp
  ultimately have "unat (n + 16 - 1) = unat n + 15" by (simp only:)
  then have "unat ((n + 16 - 1) div 16) = (unat n + 15) div 16" by (simp add: unat_div)
  moreover have "(unat n + 15) div 16 * 4 < 4294967296" using assms by linarith
  ultimately show ?thesis by (simp only: nmbm_state_table_size_def unat_word_ariths(2)) simp
qed

text \<open>
  C39. The instance structure is laid out without overlap: the header, the table of states and
  the block mapping follow each other inside the information table, the two tables have an
  entry for every block, and the memory that is allocated for the three buffers is their total
  size.
\<close>

theorem nmbm_init_structure_layout:
  assumes "pg_size s = 2 ^ k" and "k \<le> 20" and "t = nmbm_init_structure s"
  shows "32 \<le> unat (it_state_table_off (info_table t))
    \<and> unat (it_state_table_off (info_table t)) + unat (state_table_size t) \<le> unat (it_mapping_table_off (info_table t))
    \<and> unat (it_mapping_table_off (info_table t)) + unat (mapping_table_size t) \<le> unat (info_table_size t)
    \<and> unat (state_table_size t) = 4 * length (block_state t)
    \<and> unat (mapping_table_size t) = 4 * length (block_mapping t)
    \<and> length (block_mapping t) = unat (block_count t) \<and> states_cover t
    \<and> unat (nmbm_calc_structure_size s)
      = length (info_table_cache t) + 4 * length (block_state t) + 4 * length (block_mapping t)"
proof -
  define n where "n = (ucast (total_blks s) :: u32)"
  define st where "st = nmbm_state_table_size n"
  define so where "so = align_up 32 (pg_size s)"
  define sa where "sa = align_up st (pg_size s)"
  define ma where "ma = align_up (n * 4) (pg_size s)"
  have n: "unat n < 65536"
    using unsigned_less [of "total_blks s", where 'a = nat] by (simp add: n_def unat_ucast_small)
  have mt: "unat (n * 4) = 4 * unat n" using n by (simp add: unat_word_ariths)
  have st: "unat st = (unat n + 15) div 16 * 4" using n by (simp add: st_def state_table_size_le)
  have st_le: "unat st \<le> 16384 + 4" unfolding st using n by linarith
  have k: "(2 :: nat) ^ k \<le> 2 ^ 20" using assms(2) by (intro power_increasing) auto
  have b1: "32 \<le> unat so" "unat so < 32 + 2 ^ 20"
    using align_up_ge [of 32 k "pg_size s"] k assms(1,2) by (simp_all add: so_def)
  have b2: "unat st \<le> unat sa" "unat sa < 20000 + 2 ^ 20"
    using align_up_ge [of st k "pg_size s"] k assms(1,2) st_le by (simp_all add: sa_def)
  have b3: "unat (n * 4) \<le> unat ma" "unat ma < 262144 + 2 ^ 20"
    using align_up_ge [of "n * 4" k "pg_size s"] k assms(1,2) n mt by (simp_all add: ma_def)
  have u1: "unat (so + sa) = unat so + unat sa" using b1 b2 by (simp add: unat_word_ariths)
  have u2: "unat (so + sa + ma) = unat so + unat sa + unat ma"
    using b1 b2 b3 u1 by (simp add: unat_word_ariths)
  have u3: "unat (so + sa + ma + st + n * 4) = unat so + unat sa + unat ma + unat st + unat (n * 4)"
    using b1 b2 b3 u2 st_le n mt by (simp add: unat_word_ariths)
  have f: "it_state_table_off (info_table t) = so" "it_mapping_table_off (info_table t) = so + sa"
    "info_table_size t = so + sa + ma" "state_table_size t = st" "mapping_table_size t = n * 4"
    "block_count t = n" "block_state t = replicate (unat st div 4) 0xffffffff"
    "block_mapping t = replicate (unat (n * 4) div 4) 0" "info_table_cache t = replicate (unat (so + sa + ma)) 0"
    by (simp_all add: assms(3) nmbm_init_structure_def so_def sa_def ma_def st_def n_def Let_def)
  have "states_cover t"
    unfolding states_cover_def state_covers_def f
  proof (intro allI impI)
    fix ba :: u32 assume "ba < n"
    then have "unat ba < unat n" by (simp add: word_less_nat_alt)
    then have "unat ba div 16 < (unat n + 15) div 16" by linarith
    then show "unat (ba div 16) < length (replicate (unat st div 4) (0xffffffff :: u32))"
      by (simp add: unat_div st)
  qed
  moreover have "nmbm_calc_structure_size s = so + sa + ma + st + n * 4"
    by (simp add: nmbm_calc_structure_size_def so_def sa_def ma_def st_def n_def Let_def)
  ultimately show ?thesis
    unfolding f u1 u2 using b1(1) b2(1) b3(1) u3 st mt by (simp add: u2)
qed

theorem nmbm_init_structure_layout_witness:
  "states_cover (nmbm_init_structure (demo_nmbm quiet_ops ()))"
proof -
  have "pg_size (demo_nmbm quiet_ops ()) = 2 ^ 4" by (simp add: demo_nmbm_def)
  from nmbm_init_structure_layout [OF this _ refl] show ?thesis by simp
qed

section \<open>Creating the tables returns\<close>

lemma map_rest_returns:
  "chip_ok s \<Longrightarrow> tables_ok s \<Longrightarrow> \<exists>t. map_rest crc s lb limit = Some t \<and> chip_ok t \<and> tables_ok t
    \<and> block_count t = block_count s \<and> signature_ba t = signature_ba s \<and> mgmt_start_ba t = mgmt_start_ba s"
proof (induction crc s lb limit rule: map_rest.induct)
  case (1 crc s lb limit)
  show ?case
  proof (cases "lb < limit")
    case False
    then show ?thesis using "1.prems" by (simp add: map_rest.simps [of crc s])
  next
    case True
    obtain ok s1 where m: "nmbm_map_block crc s lb = Some (ok, s1)" "chip_ok s1" "tables_ok s1" "same_chip s s1"
      using map_block_keeps [OF "1.prems", of crc lb] by blast
    define s2 where "s2 = s1\<lparr>data_block_count := data_block_count s1 + 1\<rparr>"
    have s2: "chip_ok s2" "tables_ok s2"
      using m(2,3) by (simp_all add: s2_def chip_ok_def tables_ok_def placed_def states_cover_def state_covers_def)
    show ?thesis
    proof (cases ok)
      case False
      then show ?thesis using True m by (simp add: map_rest.simps [of crc s] same_chip_def)
    next
      case ok: True
      then show ?thesis
        using True m(1,4) "1.IH" [OF True m(1) refl ok] s2
        by (simp add: map_rest.simps [of crc s lb] same_chip_def s2_def [symmetric]) (simp add: s2_def)
    qed
  qed
qed

lemma create_info_table_returns:
  assumes c: "states_cover s" "0 < blk_size s" "info_table_size s \<noteq> 0" and sg: "signature_ba s < block_count s"
  shows "\<exists>ok t. nmbm_create_info_table crc s = Some (ok, t) \<and> (ok \<longrightarrow> chip_ok t \<and> tables_ok t
    \<and> signature_ba t = signature_ba s \<and> block_count t = block_count s \<and> mgmt_start_ba t = mgmt_start_ba s)"
proof (cases "nmbm_block_walk s False (signature_ba s) 1 (mgmt_start_ba s)")
  case None
  then show ?thesis by (auto simp: nmbm_create_info_table_def)
next
  case (Some top_ba)
  have "sint (1 :: u32) = 1" by simp
  then have "top_ba \<le> signature_ba s"
    using Some walk_desc_loop_bounds [of s "signature_ba s" 1]
    by (simp add: nmbm_block_walk_def nmbm_block_walk_desc_def)
  then have top_ba: "top_ba \<le> block_count s" using sg by simp
  define s1 where "s1 = snd (nmbm_generate_info_table_cache crc (s\<lparr>mapping_blocks_top_ba := top_ba\<rparr>))"
  have s1: "chip_ok s1" "signature_ba s1 = signature_ba s" "block_count s1 = block_count s"
    "mgmt_start_ba s1 = mgmt_start_ba s"
    using c top_ba
    by (simp_all add: s1_def nmbm_generate_info_table_cache_def Let_def chip_ok_def states_cover_def state_covers_def)
  obtain ok s2 where r: "nmbm_rebuild_info_table s1 = (ok, s2)" by fastforce
  have u: "updated s1 (ok, s2)" using rebuild_updated [OF s1(1)] by (simp add: r)
  have w2: "worn s1 s2" using u by (simp add: updated_def)
  have s2: "chip_ok s2" "tables_ok s2" using chip_ok_worn [OF s1(1) w2] updated_tables_ok [OF u] by simp_all
  show ?thesis
  proof (cases ok)
    case False
    then show ?thesis using Some r by (auto simp: nmbm_create_info_table_def s1_def)
  next
    case True
    obtain s3 where s3: "map_rest crc s2 (data_block_count s2) (mgmt_start_ba s2) = Some s3" "chip_ok s3" "tables_ok s3"
      "block_count s3 = block_count s2" "signature_ba s3 = signature_ba s2" "mgmt_start_ba s3 = mgmt_start_ba s2"
      using map_rest_returns [OF s2] by blast
    obtain ok2 t where t: "nmbm_update_info_table crc s3 = Some (ok2, t)" "worn s3 t" "tables_ok t" "chip_ok t"
      using s3(2,3) by (rule update_info_table_keeps)
    have "nmbm_create_info_table crc s = Some (ok2, t)"
      using Some r True s3(1) t(1) by (simp add: nmbm_create_info_table_def s1_def)
    then show ?thesis using t s3 w2 s1 by (simp add: worn_def)
  qed
qed

lemma scan_wear:
  assumes c: "states_cover s" and n: "n \<le> unat (block_count s)"
  shows "wear s (foldl scan_badblock s [0..<n])"
  using n
proof (induction n)
  case 0
  then show ?case by simp
next
  case (Suc n)
  let ?t = "foldl scan_badblock s [0..<n]"
  have w: "wear s ?t" using Suc by simp
  have "n < 2 ^ LENGTH(32)" using Suc.prems unsigned_less [of "block_count s", where 'a = nat] by simp
  then have "of_nat n < block_count ?t" using Suc.prems w by (simp add: wear_fields word_less_nat_alt)
  moreover have "states_cover ?t" using c w by (simp add: states_cover_wear)
  ultimately have "wear ?t (scan_badblock ?t n)" by (intro scan_badblock_frame)
  with w have "wear s (scan_badblock ?t n)" by (rule wear_trans)
  then show ?case by simp
qed

lemma build_mapping_fields:
  "states_cover (nmbm_build_mapping_table s) = states_cover s"
  "block_count (nmbm_build_mapping_table s) = block_count s"
  "blk_size (nmbm_build_mapping_table s) = blk_size s"
  "info_table_size (nmbm_build_mapping_table s) = info_table_size s"
  "mgmt_start_ba (nmbm_build_mapping_table s) = mgmt_start_ba s"
  by (simp_all add: nmbm_build_mapping_table_def states_cover_def state_covers_def split: prod.split)



section \<open>Unmapping\<close>

text \<open>
  The spare blocks in use lie above the tables and below the signature, and block numbers are
  below \<open>2^31\<close>, so that they are not negative as an \<open>int\<close>.
\<close>

definition spares_above :: "('d, 'z) nmbm_scheme \<Rightarrow> bool" where
  "spares_above s \<longleftrightarrow>
     (\<forall>lb < unat (data_block_count s). mapping_blocks_ba s \<le> block_mapping s ! lb \<longrightarrow>
        mapping_blocks_ba s < block_mapping s ! lb \<and> unat (block_mapping s ! lb) < 2 ^ 31)
     \<and> mapping_blocks_ba s < signature_ba s \<and> signature_ba s \<le> block_count s \<and> unat (signature_ba s) < 2 ^ 31"

lemma lowest_spare_bounds:
  assumes "spares_above s"
  shows "uint (mapping_blocks_ba s) \<le> lowest_spare s \<and> lowest_spare s < uint (signature_ba s)"
proof -
  define step where "step = (\<lambda>new_block block.
    let cur = block_mapping s ! block in
    if cur < mapping_blocks_ba s then new_block else if sint cur \<le> new_block then sint cur - 1 else new_block)"
  have sg: "mapping_blocks_ba s < signature_ba s" "unat (signature_ba s) < 2 ^ 31"
    using assms by (simp_all add: spares_above_def)
  have u: "Suc (unat (signature_ba s - 1)) = unat (signature_ba s)" using sg(1) by (rule unat_minus_one_greater)
  then have u1: "uint (signature_ba s - 1) + 1 = uint (signature_ba s)"
    using arg_cong [OF u, of int] by simp
  have si: "sint (signature_ba s - 1) = uint (signature_ba s - 1)"
    using sg(2) u sint_small [of "signature_ba s - 1"] by simp
  have "uint (mapping_blocks_ba s) \<le> foldl step (sint (signature_ba s - 1)) [0..<n]
      \<and> foldl step (sint (signature_ba s - 1)) [0..<n] < uint (signature_ba s)"
    if "n \<le> unat (data_block_count s)" for n
    using that
  proof (induction n)
    case 0
    then show ?case using u1 si sg(1) by (simp add: word_less_def)
  next
    case (Suc n)
    let ?cur = "block_mapping s ! n" and ?v = "foldl step (sint (signature_ba s - 1)) [0..<n]"
    have IH: "uint (mapping_blocks_ba s) \<le> ?v" "?v < uint (signature_ba s)" using Suc by simp_all
    show ?case
    proof (cases "?cur < mapping_blocks_ba s")
      case True
      then show ?thesis using IH by (simp add: step_def)
    next
      case False
      then have c: "mapping_blocks_ba s < ?cur" "unat ?cur < 2 ^ 31"
        using assms Suc.prems by (auto simp: spares_above_def not_less)
      have "sint ?cur = uint ?cur" using c(2) sint_small [of ?cur] by simp
      then have "step ?v n = (if uint ?cur \<le> ?v then uint ?cur - 1 else ?v)"
        using False by (simp add: step_def Let_def)
      moreover have "uint (mapping_blocks_ba s) < uint ?cur" using c(1) by (simp add: word_less_def)
      ultimately show ?thesis using IH by simp
    qed
  qed
  then show ?thesis unfolding lowest_spare_def step_def by blast
qed

lemma set_state_ok:
  "length (block_state (snd (nmbm_set_block_state s ba st))) = length (block_state s)"
  "block_count (snd (nmbm_set_block_state s ba st)) = block_count s"
  "blk_size (snd (nmbm_set_block_state s ba st)) = blk_size s"
  "info_table_size (snd (nmbm_set_block_state s ba st)) = info_table_size s"
  "mapping_blocks_top_ba (snd (nmbm_set_block_state s ba st)) = mapping_blocks_top_ba s"
  "mapping_blocks_ba (snd (nmbm_set_block_state s ba st)) = mapping_blocks_ba s"
  "main_table_ba (snd (nmbm_set_block_state s ba st)) = main_table_ba s"
  "backup_table_ba (snd (nmbm_set_block_state s ba st)) = backup_table_ba s"
  "mgmt_start_ba (snd (nmbm_set_block_state s ba st)) = mgmt_start_ba s"
  by (simp_all add: nmbm_set_block_state_def Let_def)

lemma spares_above_update:
  assumes "spares_above s" and "b < mapping_blocks_ba s"
    and "mapping_blocks_ba t = mapping_blocks_ba s" "signature_ba t = signature_ba s"
      "data_block_count t = data_block_count s" "block_count t = block_count s"
      "block_mapping t = (block_mapping s)[i := b]" and "i < length (block_mapping s)"
  shows "spares_above t"
proof -
  have "mapping_blocks_ba s < (block_mapping s)[i := b] ! lb \<and> unat ((block_mapping s)[i := b] ! lb) < 2 ^ 31"
    if "lb < unat (data_block_count s)" "mapping_blocks_ba s \<le> (block_mapping s)[i := b] ! lb" for lb
  proof -
    have "lb \<noteq> i" using that assms(2,8) by (auto simp: linorder_not_le [symmetric])
    then show ?thesis using that assms(1) by (simp add: spares_above_def)
  qed
  then show ?thesis using assms(1) by (simp add: spares_above_def assms(3-7))
qed

lemma lowest_spare_place:
  assumes "spares_above s"
  shows "mapping_blocks_ba s \<le> word_of_int (lowest_spare s) \<and> (word_of_int (lowest_spare s) :: u32) \<le> block_count s"
proof -
  note low = lowest_spare_bounds [OF assms]
  have sg: "signature_ba s \<le> block_count s" using assms by (simp add: spares_above_def)
  have "uint (signature_ba s) < 2 ^ LENGTH(32)" by (rule uint_lt2p)
  moreover have "lowest_spare s < uint (signature_ba s)" using low by simp
  ultimately have "lowest_spare s < 2 ^ LENGTH(32)" by (rule less_trans [rotated])
  moreover have "0 \<le> lowest_spare s" using conjunct1 [OF low] uint_ge_0 by (rule order_trans [rotated])
  ultimately have "uint (word_of_int (lowest_spare s) :: u32) = lowest_spare s" by (simp add: uint_of_int_small)
  then show ?thesis using low sg by (simp add: word_le_def)
qed

text \<open>
  Unmapping a logical block whose predecessor has its original block gives it the physical block after the
  predecessor's, marked good, whatever the state of that block was before: with a gap in the
  mapping it is the block that was bad from the start, and not the original block.
\<close>

theorem unmap_block_nmbm_takes_next:
  assumes "chip_ok s" and "tables_ok s" and "spares_above s"
    and "0 < unat block" and "ucast block < data_block_count s" and "unat (data_block_count s) \<le> length (block_mapping s)"
    and "mapping_blocks_ba s \<le> block_mapping s ! unat block"
    and "block_mapping s ! (unat block - 1) + 1 < mapping_blocks_ba s"
    and "block_mapping s ! (unat block - 1) < mapping_blocks_ba s"
  shows "\<exists>t. unmap_block_nmbm crc s block = Some t
    \<and> block_mapping t = (block_mapping s)[unat block := block_mapping s ! (unat block - 1) + 1]
    \<and> tables_ok t"
proof -
  define new_block where "new_block = block_mapping s ! (unat block - 1) + 1"
  define s2 where "s2 = (snd (nmbm_set_block_state s new_block BLOCK_ST_GOOD))
    \<lparr>block_mapping := (block_mapping s)[unat block := new_block],
     block_mapping_changed := block_mapping_changed (snd (nmbm_set_block_state s new_block BLOCK_ST_GOOD)) + 1\<rparr>"
  define s3 where "s3 = s2\<lparr>mapping_blocks_top_ba := word_of_int (lowest_spare s2)\<rparr>"
  have "unmap_start s (unat block - 1) (Suc 0) = Some (unat block - 1, 1)"
    using assms(9) by (subst unmap_start.simps) (simp add: linorder_not_le)
  then have start: "unmap_start s (unat block) 0 = Some (unat block - 1, 1)"
    using assms(4,7) by (subst unmap_start.simps) simp
  have f2: "mapping_blocks_ba s2 = mapping_blocks_ba s" "signature_ba s2 = signature_ba s"
    "data_block_count s2 = data_block_count s" "block_count s2 = block_count s"
    "block_mapping s2 = (block_mapping s)[unat block := new_block]"
    by (simp_all add: s2_def nmbm_set_block_state_def Let_def)
  have above: "spares_above s2"
  proof (rule spares_above_update [OF assms(3) assms(8) [folded new_block_def] f2])
    have "unat (ucast block :: u32) = unat block"
      by (rule unat_ucast_small) (use unsigned_less [of block, where 'a = nat] in simp)
    then show "unat block < length (block_mapping s)" using assms(5,6) by (simp add: word_less_nat_alt)
  qed
  have bounds: "mapping_blocks_ba s \<le> mapping_blocks_top_ba s3" "mapping_blocks_top_ba s3 \<le> block_count s"
    using lowest_spare_place [OF above] f2 by (simp_all add: s3_def)
  have s2: "chip_ok s2" "tables_ok s2"
    using assms(1,2) by (simp_all add: s2_def set_state_ok chip_ok_def tables_ok_def placed_def states_cover_def state_covers_def)
  have "chip_ok s3"
    using s2(1) bounds(2) f2(4) by (simp add: s3_def chip_ok_def states_cover_def state_covers_def)
  moreover have "tables_ok s3"
    using s2(2) bounds(1) f2(1) by (simp add: s3_def tables_ok_def placed_def)
  ultimately obtain ok t where t: "nmbm_update_info_table crc s3 = Some (ok, t)" "worn s3 t" "tables_ok t"
    by (rule update_info_table_keeps)
  have "unmap_block_nmbm crc s block = map_option snd (nmbm_update_info_table crc s3)"
    using start assms(5)
    by (simp add: unmap_block_nmbm_def s3_def s2_def new_block_def Let_def linorder_not_le [symmetric] set_state_fields)
  then show ?thesis using t by (simp add: worn_def) (simp add: s3_def f2 new_block_def)
qed

theorem unmap_block_nmbm_takes_next_witness:
  "\<exists>t. unmap_block_nmbm (\<lambda>v xs. v) (demo_nmbm quiet_ops ()
        \<lparr>data_block_count := 5, block_state := [0xffffff3f], block_mapping := [0, 1, 2, 13, 5]\<rparr>) 3 = Some t
     \<and> block_mapping t = [0, 1, 2, 3, 5]"
proof -
  let ?s = "demo_nmbm quiet_ops () \<lparr>data_block_count := 5, block_state := [0xffffff3f], block_mapping := [0, 1, 2, 13, 5]\<rparr>"
  have "chip_ok ?s" using demo_nmbm_ok(1) [of quiet_ops "()"] by (simp add: chip_ok_def states_cover_def state_covers_def demo_nmbm_def)
  moreover have "tables_ok ?s" using demo_nmbm_ok(2) [of quiet_ops "()"] by (simp add: tables_ok_def placed_def)
  moreover have "spares_above ?s"
  proof -
    have f: "data_block_count ?s = 5" "block_mapping ?s = [0, 1, 2, 13, 5]" "mapping_blocks_ba ?s = 10"
      "signature_ba ?s = 15" "block_count ?s = 16" by (simp_all add: demo_nmbm_def)
    have "(10 :: u32) \<le> [0, 1, 2, 13, 5] ! lb \<longrightarrow> (10 :: u32) < [0, 1, 2, 13, 5] ! lb \<and> unat ([0, 1, 2, 13, 5] ! lb :: u32) < 2 ^ 31"
      if "lb < 5" for lb
    proof -
      have "lb = 0 \<or> lb = 1 \<or> lb = 2 \<or> lb = 3 \<or> lb = 4" using that by linarith
      moreover have "\<not> (10 :: u32) \<le> 1" by code_simp
      ultimately show ?thesis by (elim disjE) simp_all
    qed
    then show ?thesis unfolding spares_above_def f by simp
  qed
  moreover have "0 < unat (3 :: u16)" "ucast (3 :: u16) < data_block_count ?s"
    "unat (data_block_count ?s) \<le> length (block_mapping ?s)"
    "mapping_blocks_ba ?s \<le> block_mapping ?s ! unat (3 :: u16)"
    "block_mapping ?s ! (unat (3 :: u16) - 1) + 1 < mapping_blocks_ba ?s"
    "block_mapping ?s ! (unat (3 :: u16) - 1) < mapping_blocks_ba ?s"
    by (simp_all add: demo_nmbm_def)
  ultimately show ?thesis
    using unmap_block_nmbm_takes_next [of ?s 3 "\<lambda>v xs. v"] by auto
qed

end
