(* ===== verification/Rb_Tags.thy ===== *)
theory Rb_Tags
  imports Le_Bytes
begin

text \<open>
  The common routines of the MikroTik RouterBoot driver, \<^verbatim>\<open>drivers/platform/mikrotik/routerboot.c\<close>:
  the search for a tag in configuration data, the decoder of MikroTik's run-length code, and the
  two functions that print a tag.

  A buffer is a list of bytes, all that may be read. A read past its end is undefined in C: where
  the code does not rule it out, the result is \<open>Overrun\<close>. \<open>Errno\<close> is an error number that the code
  returns. Words are stored in the byte order of the CPU: see \<open>Le_Bytes\<close>. The mtd notifier and the module's init and exit are not modelled.
\<close>

section \<open>Results\<close>

datatype rb_error = Errno int | Overrun

abbreviation ENOENT :: int where "ENOENT \<equiv> 2"
abbreviation EACCES :: int where "EACCES \<equiv> 13"
abbreviation EFBIG :: int where "EFBIG \<equiv> 27"
abbreviation ESPIPE :: int where "ESPIPE \<equiv> 29"
abbreviation ENODATA :: int where "ENODATA \<equiv> 61"
abbreviation EOVERFLOW :: int where "EOVERFLOW \<equiv> 75"
abbreviation EOPNOTSUPP :: int where "EOPNOTSUPP \<equiv> 95"
abbreviation ENOBUFS :: int where "ENOBUFS \<equiv> 105"

section \<open>What the config drivers share\<close>

text \<open>
  The partition as the drivers use it: its size, whether it can be taken by its name, a read of all
  of it into a buffer, its erasure, and a write of all of it. An access gives the error number, the
  bytes moved, for a read the buffer after it, and the device.
\<close>

record 'd rb_mtd =
  mtd_sz :: nat
  mtd_present :: "'d \<Rightarrow> bool"
  mtd_rd :: "'d \<Rightarrow> u8 list \<Rightarrow> int \<times> nat \<times> u8 list \<times> 'd"
  mtd_er :: "'d \<Rightarrow> int \<times> 'd"
  mtd_wr :: "'d \<Rightarrow> u8 list \<Rightarrow> int \<times> nat \<times> 'd"

text \<open>The subtraction of a header's size in a \<open>size_t\<close> (of 32 bits).\<close>

definition size_sub :: "nat \<Rightarrow> nat \<Rightarrow> nat" where
  "size_sub a b = (if b \<le> a then a - b else 2 ^ 32 + a - b)"

section \<open>Tags\<close>

text \<open>\<open>ALIGN(len, 4)\<close> of a \<open>u16\<close>, stored in a \<open>u16\<close>.\<close>

definition align4 :: "u16 \<Rightarrow> u16" where
  "align4 len = (len + 3) AND NOT 3"

function tag_find_from :: "u8 list \<Rightarrow> nat \<Rightarrow> u16 \<Rightarrow> nat \<Rightarrow> rb_error + (u16 \<times> u16)" where
  "tag_find_from buf buflen tag_id pos =
     (if pos < buflen then
        if length buf < pos + 4 then Inl Overrun
        else
          let node = rd32 buf pos;
              tag = ucast (node AND 0xffff);
              len = ucast (drop_bit 16 node)
          in if node = 0 then Inl (Errno (- ENOENT))
             else if tag_id = tag then
               if pos + 4 \<ge> buflen then Inl (Errno (- ENOENT)) else Inr (of_nat (pos + 4), len)
             else tag_find_from buf buflen tag_id (pos + 4 + unat (align4 len) div 4 * 4)
      else Inl (Errno (- ENOENT)))"
  by pat_completeness auto
termination
  by (relation "measure (\<lambda>(buf, buflen, tag_id, pos). buflen - pos)") auto

declare tag_find_from.simps [simp del]

text \<open>\<open>None\<close> is a null pointer.\<close>

definition routerboot_tag_find :: "u8 list option \<Rightarrow> nat \<Rightarrow> u16 \<Rightarrow> rb_error + (u16 \<times> u16)" where
  "routerboot_tag_find bufhead buflen tag_id =
     (case bufhead of
        None \<Rightarrow> Inl (Errno (- EINVAL))
      | Some buf \<Rightarrow> if tag_id = 0 then Inl (Errno (- EINVAL)) else tag_find_from buf buflen tag_id 0)"

section \<open>Run-length decoding\<close>

text \<open>The result is the return value, the final \<open>*outlen\<close> and the bytes written to \<open>out\<close>.\<close>

function rle_loop :: "u8 list \<Rightarrow> nat \<Rightarrow> nat \<Rightarrow> u8 list \<Rightarrow> int \<times> nat \<times> u8 list" where
  "rle_loop inp outlen nbytes out =
     (case inp of
        run # byte # rest \<Rightarrow>
          if bit run 7 then
            let n = unat (NOT run) + 1 in
            if n > length (byte # rest) then (- ENOSPC, nbytes, out)
            else if nbytes + n > outlen then (- ENOSPC, nbytes + n, out)
            else rle_loop (drop n (byte # rest)) outlen (nbytes + n) (out @ take n (byte # rest))
          else
            let n = unat run in
            if nbytes + n > outlen then (- ENOSPC, nbytes + n, out)
            else rle_loop rest outlen (nbytes + n) (out @ replicate n byte)
      | _ \<Rightarrow> (0, nbytes, out))"
  by pat_completeness auto
termination
  by (relation "measure (\<lambda>(inp, outlen, nbytes, out). length inp)") auto

declare rle_loop.simps [simp del]

definition routerboot_rle_decode :: "u8 list option \<Rightarrow> bool \<Rightarrow> nat \<Rightarrow> int \<times> nat \<times> u8 list" where
  "routerboot_rle_decode inp has_out outlen =
     (case inp of
        None \<Rightarrow> (- EINVAL, outlen, [])
      | Some bytes \<Rightarrow>
          if length bytes < 2 \<or> \<not> has_out then (- EINVAL, outlen, []) else rle_loop bytes outlen 0 [])"

section \<open>Printing\<close>

text \<open>
  \<open>scnprintf(buf, pld_len + 1, "%s\n", pld)\<close>: the bytes before the first null byte and a line
  feed, cut after \<open>pld_len\<close> characters. \<open>pld\<close> is all of the buffer from the payload on: the kernel
  prints no more than fits, but goes on to read the string up to its null byte.
\<close>

definition routerboot_tag_show_string :: "u8 list \<Rightarrow> u16 \<Rightarrow> rb_error + u8 list" where
  "routerboot_tag_show_string pld pld_len =
     (if 0 \<in> set pld then Inr (take (unat pld_len) (takeWhile (\<lambda>b. b \<noteq> 0) pld @ [10])) else Inl Overrun)"

definition hex_digit :: "u32 \<Rightarrow> u8" where
  "hex_digit d = (if d < 10 then 48 + ucast d else 87 + ucast d)"

definition u32_line :: "u32 \<Rightarrow> u8 list" where
  "u32_line w = cstr ''0x'' @ map (\<lambda>i. hex_digit (drop_bit (28 - 4 * i) w AND 0xf)) [0..<8] @ [10]"

text \<open>
  The loop runs before it tests, and counts down a \<open>u16\<close>: without a payload it would print
  \<open>16384\<close> values.
\<close>

definition routerboot_tag_show_u32s :: "u8 list \<Rightarrow> u16 \<Rightarrow> rb_error + u8 list" where
  "routerboot_tag_show_u32s pld pld_len =
     (if pld_len mod 4 \<noteq> 0 then Inl (Errno (- EINVAL))
      else
        let n = (if pld_len = 0 then 16384 else unat pld_len div 4)
        in if length pld < 4 * n then Inl Overrun
           else Inr (concat (map (\<lambda>i. u32_line (rd32 pld (4 * i))) [0..<n])))"

section \<open>The search finds what is stored\<close>

text \<open>Configuration data as it is laid out on the flash: tags with an aligned payload, and an end.\<close>

definition tag_node :: "u16 \<Rightarrow> u16 \<Rightarrow> u32" where
  "tag_node tag len = ucast tag OR push_bit 16 (ucast len)"

definition encode_tag :: "u16 \<times> u8 list \<Rightarrow> u8 list" where
  "encode_tag t = le_bytes 4 (tag_node (fst t) (of_nat (length (snd t)))) @ snd t
     @ replicate ((4 - length (snd t) mod 4) mod 4) 0"

definition encode_tags :: "(u16 \<times> u8 list) list \<Rightarrow> u8 list" where
  "encode_tags ts = concat (map encode_tag ts) @ le_bytes 4 (0 :: u32)"

lemma tag_node_id: "ucast (tag_node tag len AND 0xffff) = tag"
proof (rule bit_word_eqI)
  fix n assume n: "n < LENGTH(16)"
  have m: "(0xffff :: u32) = mask 16" by (simp add: mask_eq_exp_minus_1)
  show "bit (ucast (tag_node tag len AND 0xffff) :: u16) n = bit tag n"
    unfolding m using n by (auto simp: tag_node_def bit_simps)
qed

lemma tag_node_len: "ucast (drop_bit 16 (tag_node tag len)) = len"
  by (rule bit_word_eqI) (auto simp: tag_node_def bit_simps dest: bit_imp_le_length)

lemma tag_node_nonzero: "tag \<noteq> 0 \<Longrightarrow> tag_node tag len \<noteq> 0"
  using tag_node_id [of tag len] by auto

lemma unat_align4:
  assumes "unat len \<le> 65532"
  shows "unat (align4 len) = (unat len + 3) div 4 * 4"
proof -
  have m: "(3 :: u16) = mask 2" by (simp add: mask_eq_exp_minus_1)
  have w: "unat (len + mask 2) = unat len + 3"
    using assms by (simp add: unat_word_ariths mask_eq_exp_minus_1)
  have "align4 len = push_bit 2 (drop_bit 2 (len + mask 2))"
    unfolding align4_def m by (rule and_not_mask_push_drop)
  then have a: "align4 len = drop_bit 2 (len + mask 2) * 4" by (simp add: push_bit_eq_mult)
  have "unat (drop_bit 2 (len + mask 2)) = (unat len + 3) div 2 ^ 2" by (simp only: unat_drop_bit w)
  moreover have "(unat len + 3) div 4 * 4 < 65536" using assms by linarith
  ultimately show ?thesis unfolding a by (simp only: unat_word_ariths(2)) simp
qed

lemma length_encode_tag:
  "length (encode_tag t) = 4 + (length (snd t) + 3) div 4 * 4"
proof -
  have "n + (4 - n mod 4) mod 4 = (n + 3) div 4 * 4" for n :: nat
  proof -
    obtain q r where n: "n = r + 4 * q" "r < 4" using that [of "n mod 4" "n div 4"] by simp
    then have "r = 0 \<or> r = 1 \<or> r = 2 \<or> r = 3" by linarith
    moreover have "n mod 4 = r" "(n + 3) div 4 = q + (r + 3) div 4" using n by simp_all
    ultimately show ?thesis using n(1) by (elim disjE) simp_all
  qed
  then show ?thesis by (simp add: encode_tag_def)
qed

definition tag_ok :: "u16 \<times> u8 list \<Rightarrow> bool" where
  "tag_ok t \<longleftrightarrow> fst t \<noteq> 0 \<and> length (snd t) \<le> 65532"

lemma tag_find_from_encode:
  assumes "tag_id \<noteq> 0" and "list_all tag_ok ts" and "buf = pre @ encode_tags ts @ rest"
  shows "tag_find_from buf (length buf) tag_id (length pre) =
      (case find (\<lambda>t. fst t = tag_id) ts of None \<Rightarrow> Inl (Errno (- ENOENT))
       | Some t \<Rightarrow> Inr (of_nat (length pre + 4 + length (concat (map encode_tag (takeWhile (\<lambda>t. fst t \<noteq> tag_id) ts)))),
                      of_nat (length (snd t))))"
  using assms(2,3)
proof (induction ts arbitrary: pre)
  case Nil
  then have "rd32 buf (length pre) = 0" using rd32_at [of pre 0 rest] by (simp add: encode_tags_def)
  then show ?case using Nil.prems by (subst tag_find_from.simps) (simp add: encode_tags_def)
next
  case (Cons t ts)
  obtain i p where t: "t = (i, p)" by (cases t)
  have "tag_ok t" and oks: "list_all tag_ok ts" using Cons.prems(1) by simp_all
  then have ok: "i \<noteq> 0" "length p \<le> 65532" by (simp_all add: tag_ok_def t)
  define node where "node = tag_node i (of_nat (length p))"
  have up: "unat (of_nat (length p) :: u16) = length p" using ok(2) by simp
  define tail where "tail = p @ replicate ((4 - length p mod 4) mod 4) 0 @ encode_tags ts @ rest"
  have buf: "buf = pre @ le_bytes 4 node @ tail"
    using Cons.prems(2) by (simp add: encode_tags_def encode_tag_def t node_def tail_def)
  have node: "rd32 buf (length pre) = node" unfolding buf by (rule rd32_at)
  have len: "length pre < length buf" "\<not> length buf < length pre + 4" "length pre + 4 < length buf"
    by (simp_all add: buf tail_def encode_tags_def)
  have fields: "node \<noteq> 0" "ucast (node AND 0xffff) = i" "ucast (drop_bit 16 node) = (of_nat (length p) :: u16)"
    using ok(1) by (simp_all add: node_def tag_node_nonzero tag_node_id tag_node_len)
  show ?case
  proof (cases "i = tag_id")
    case True
    then show ?thesis
      using node len fields by (simp add: tag_find_from.simps [of buf] t Let_def)
  next
    case False
    have skip: "length pre + 4 + unat (align4 (of_nat (length p))) div 4 * 4 = length (pre @ encode_tag t)"
      using ok(2) up by (simp add: unat_align4 length_encode_tag t)
    have "buf = (pre @ encode_tag t) @ encode_tags ts @ rest"
      using Cons.prems(2) by (simp add: encode_tags_def)
    note IH = Cons.IH [OF oks this]
    have "tag_find_from buf (length buf) tag_id (length pre)
        = tag_find_from buf (length buf) tag_id (length pre + 4 + unat (align4 (of_nat (length p))) div 4 * 4)"
      using node len fields False
      by (subst tag_find_from.simps) (simp add: Let_def)
    also have "\<dots> = tag_find_from buf (length buf) tag_id (length (pre @ encode_tag t))"
      by (simp only: skip)
    also note IH
    finally show ?thesis using False by (simp add: t add.assoc split: option.split)
  qed
qed

lemma find_takeWhile:
  "find P xs = Some x \<Longrightarrow> \<exists>ys. xs = takeWhile (\<lambda>x. \<not> P x) xs @ x # ys"
  by (induction xs) (auto split: if_splits)

lemma tag_find_encoded:
  assumes "tag_id \<noteq> 0" and "list_all tag_ok ts" and "buf = encode_tags ts @ rest"
    and "length (encode_tags ts) \<le> 65536"
  shows "case find (\<lambda>t. fst t = tag_id) ts of
      None \<Rightarrow> routerboot_tag_find (Some buf) (length buf) tag_id = Inl (Errno (- ENOENT))
    | Some (_, p) \<Rightarrow> \<exists>ofs. routerboot_tag_find (Some buf) (length buf) tag_id = Inr (ofs, of_nat (length p))
        \<and> unat ofs + length p \<le> length buf \<and> take (length p) (drop (unat ofs) buf) = p"
proof -
  have f: "routerboot_tag_find (Some buf) (length buf) tag_id = tag_find_from buf (length buf) tag_id (length [])"
    using assms(1) by (simp add: routerboot_tag_find_def)
  have buf: "buf = [] @ encode_tags ts @ rest" using assms(3) by simp
  note r = tag_find_from_encode [OF assms(1,2) buf]
  show ?thesis
  proof (cases "find (\<lambda>t. fst t = tag_id) ts")
    case None
    then show ?thesis using r f by simp
  next
    case (Some t)
    define ofs where "ofs = 4 + length (concat (map encode_tag (takeWhile (\<lambda>t. fst t \<noteq> tag_id) ts)))"
    obtain ys where ys: "ts = takeWhile (\<lambda>t. fst t \<noteq> tag_id) ts @ t # ys"
      using find_takeWhile [OF Some] by blast
    have enc: "encode_tags ts = concat (map encode_tag (takeWhile (\<lambda>t. fst t \<noteq> tag_id) ts)) @ encode_tag t @ encode_tags ys"
      by (subst ys) (simp add: encode_tags_def)
    have "ofs < 65536" using assms(4) arg_cong [OF enc, of length] by (simp add: ofs_def encode_tags_def length_encode_tag)
    then have u: "unat (of_nat ofs :: u16) = ofs" by simp
    have "drop ofs buf = snd t @ drop (ofs + length (snd t)) buf"
      unfolding assms(3) enc by (simp add: ofs_def encode_tag_def)
    then have "take (length (snd t)) (drop ofs buf) = snd t" by (metis append_eq_conv_conj)
    moreover have "ofs + length (snd t) \<le> length buf"
      unfolding assms(3) enc by (simp add: ofs_def encode_tag_def)
    ultimately show ?thesis using Some r f u by (simp add: ofs_def split: prod.split) force
  qed
qed

text \<open>
  A search in well-formed configuration data gives the payload of the first tag with the wanted
  number, at an offset in the buffer, and fails when there is none. Payloads are at most 65532
  bytes, and the data less than 64 KiB.
\<close>

theorem routerboot_tag_find_round_trip:
  assumes "tag_id \<noteq> 0" and "list_all tag_ok ts" and "buf = encode_tags ts @ rest"
    and "length (encode_tags ts) \<le> 65536"
  shows "case find (\<lambda>t. fst t = tag_id) ts of
      None \<Rightarrow> routerboot_tag_find (Some buf) (length buf) tag_id = Inl (Errno (- ENOENT))
    | Some (_, p) \<Rightarrow> \<exists>ofs. routerboot_tag_find (Some buf) (length buf) tag_id = Inr (ofs, of_nat (length p))
        \<and> unat ofs + length p \<le> length buf \<and> take (length p) (drop (unat ofs) buf) = p"
  using assms by (rule tag_find_encoded)

theorem routerboot_tag_find_round_trip_witness:
  "\<exists>ofs. routerboot_tag_find (Some (encode_tags [(3, [1, 2, 3, 4, 5]), (7, [8, 9])]))
       (length (encode_tags [(3, [1, 2, 3, 4, 5]), (7, [8, 9 :: u8])])) 7 = Inr (ofs, 2)"
proof -
  let ?ts = "[(3, [1, 2, 3, 4, 5]), (7, [8, 9])] :: (u16 \<times> u8 list) list"
  have h: "(7 :: u16) \<noteq> 0" "list_all tag_ok ?ts" "encode_tags ?ts = encode_tags ?ts @ []"
    "length (encode_tags ?ts) \<le> 65536"
    by (simp_all add: tag_ok_def encode_tags_def length_encode_tag)
  have f: "find (\<lambda>t. fst t = 7) ?ts = Some (7, [8, 9])" by simp
  show ?thesis using routerboot_tag_find_round_trip [OF h] unfolding f by auto
qed

lemma tag_find_from_bounds:
  "tag_find_from buf buflen tag_id pos = Inr (ofs, len) \<Longrightarrow> buflen \<le> 65536 \<Longrightarrow> pos mod 4 = 0 \<Longrightarrow>
    pos + 4 \<le> unat ofs \<and> unat ofs mod 4 = 0 \<and> unat ofs < buflen
    \<and> rd32 buf (unat ofs - 4) = tag_node tag_id len"
proof (induction buf buflen tag_id pos rule: tag_find_from.induct)
  case (1 buf buflen tag_id pos)
  define node where "node = rd32 buf pos"
  define l where "l = (ucast (drop_bit 16 node) :: u16)"
  have run: "pos < buflen" "\<not> length buf < pos + 4" "node \<noteq> 0"
    using "1.prems"(1) by (auto simp: tag_find_from.simps [of buf buflen tag_id pos] node_def Let_def split: if_splits)
  have nd: "tag_node (ucast (node AND 0xffff)) l = node"
  proof (rule bit_word_eqI)
    fix n assume "n < LENGTH(32)"
    have m: "(0xffff :: u32) = mask 16" by (simp add: mask_eq_exp_minus_1)
    show "bit (tag_node (ucast (node AND 0xffff)) l) n = bit node n"
      unfolding m using \<open>n < LENGTH(32)\<close> by (cases "n < 16") (auto simp: tag_node_def l_def bit_simps)
  qed
  show ?case
  proof (cases "tag_id = ucast (node AND 0xffff)")
    case True
    have "tag_find_from buf buflen tag_id pos =
        (if pos + 4 \<ge> buflen then Inl (Errno (- ENOENT)) else Inr (of_nat (pos + 4), l))"
      by (subst tag_find_from.simps) (use run True in \<open>simp add: node_def l_def Let_def\<close>)
    then have r: "pos + 4 < buflen" "ofs = of_nat (pos + 4)" "len = l"
      using "1.prems"(1) by (auto split: if_splits)
    have "unat (of_nat (pos + 4) :: u16) = pos + 4" using r(1) "1.prems"(2) by (intro unat_of_nat_small) simp
    then have u: "unat ofs = pos + 4" by (simp only: r(2))
    show ?thesis using r(1,3) u "1.prems"(3) nd True by (simp add: node_def mod_add_eq)
  next
    case False
    let ?next = "pos + 4 + unat (align4 l) div 4 * 4"
    have rec: "tag_find_from buf buflen tag_id ?next = Inr (ofs, len)"
      using "1.prems"(1) run False
      by (simp add: tag_find_from.simps [of buf buflen tag_id pos] node_def l_def Let_def)
    have "?next mod 4 = 0" using "1.prems"(3) by (simp add: mod_add_eq)
    then have "?next + 4 \<le> unat ofs \<and> unat ofs mod 4 = 0 \<and> unat ofs < buflen
        \<and> rd32 buf (unat ofs - 4) = tag_node tag_id len"
      using "1.IH" [OF run(1,2) node_def refl l_def run(3) False rec "1.prems"(2)] by simp
    then show ?thesis by simp
  qed
qed

text \<open>
  A tag that is found lies in the buffer, at an aligned offset after its node. Its payload can
  reach beyond the buffer: the length in the node is not compared with the size.
\<close>

theorem routerboot_tag_find_bounds:
  assumes "routerboot_tag_find (Some buf) buflen tag_id = Inr (ofs, len)" and "buflen \<le> 65536"
  shows "4 \<le> unat ofs \<and> unat ofs mod 4 = 0 \<and> unat ofs < buflen
    \<and> rd32 buf (unat ofs - 4) = tag_node tag_id len"
  using tag_find_from_bounds [of buf buflen tag_id 0 ofs len] assms
  by (simp add: routerboot_tag_find_def split: if_splits)

theorem routerboot_tag_find_bounds_witness:
  "routerboot_tag_find (Some [5, 0, 200, 0, 1, 2, 3, 4]) 8 5 = Inr (4, 200) \<and> unat (4 :: u16) < 8
   \<and> \<not> unat (4 :: u16) + unat (200 :: u16) \<le> 8"
proof -
  have f: "routerboot_tag_find (Some [5, 0, 200, 0, 1, 2, 3, 4]) 8 5 = Inr (4, 200)" by code_simp
  then show ?thesis using routerboot_tag_find_bounds [OF f] by simp
qed

section \<open>The run-length code\<close>

text \<open>
  The code word by word: a run of at most 127 equal bytes, or 1 to 128 bytes copied verbatim.
\<close>

datatype rle_run = Repeat nat u8 | Verbatim "u8 list"

fun run_ok :: "rle_run \<Rightarrow> bool" where
  "run_ok (Repeat n b) \<longleftrightarrow> n < 128"
| "run_ok (Verbatim bs) \<longleftrightarrow> 0 < length bs \<and> length bs \<le> 128"

fun run_code :: "rle_run \<Rightarrow> u8 list" where
  "run_code (Repeat n b) = [of_nat n, b]"
| "run_code (Verbatim bs) = - of_nat (length bs) # bs"

fun run_bytes :: "rle_run \<Rightarrow> u8 list" where
  "run_bytes (Repeat n b) = replicate n b"
| "run_bytes (Verbatim bs) = bs"

lemma bit_7_iff: "bit (w :: u8) 7 \<longleftrightarrow> 128 \<le> unat w"
proof -
  have "unat w < 256" using unsigned_less [of w, where 'a = nat] by simp
  then have "unat w div 128 = 0 \<or> unat w div 128 = 1" by linarith
  moreover have "bit w 7 \<longleftrightarrow> bit (unat w) 7" by (simp add: bit_unsigned_iff)
  moreover have "bit (unat w) 7 \<longleftrightarrow> odd (unat w div 128)" by (simp add: bit_iff_odd)
  ultimately show ?thesis by auto
qed

definition expand :: "rle_run list \<Rightarrow> u8 list" where
  "expand rs = concat (map run_bytes rs)"

lemma repeat_head: "n < 128 \<Longrightarrow> \<not> bit (of_nat n :: u8) 7 \<and> unat (of_nat n :: u8) = n"
  by (simp add: bit_7_iff unat_of_nat_small)

lemma verbatim_head:
  assumes "0 < n" "n \<le> 128"
  shows "bit (- of_nat n :: u8) 7 \<and> unat (NOT (- of_nat n :: u8)) + 1 = n"
proof -
  have "NOT (- of_nat n :: u8) = of_nat (n - 1)" using assms(1) by (simp add: not_eq_complement of_nat_diff)
  then have u: "unat (NOT (- of_nat n :: u8)) = n - 1" using assms(2) by (simp add: unat_of_nat_small)
  then have "\<not> bit (NOT (- of_nat n :: u8)) 7" using assms by (simp add: bit_7_iff)
  then show ?thesis using u assms(1) by (simp add: bit_not_iff)
qed

lemma rle_loop_codes:
  "list_all run_ok rs \<Longrightarrow> nbytes + length (expand rs) \<le> outlen \<Longrightarrow>
    rle_loop (concat (map run_code rs)) outlen nbytes out = (0, nbytes + length (expand rs), out @ expand rs)"
proof (induction rs arbitrary: nbytes out)
  case Nil
  then show ?case by (simp add: rle_loop.simps expand_def)
next
  case (Cons r rs)
  note IH = Cons.IH [unfolded expand_def]
  show ?case
  proof (cases r)
    case (Repeat n b)
    then show ?thesis
      using Cons.prems IH repeat_head [of n] by (subst rle_loop.simps) (simp add: expand_def)
  next
    case (Verbatim bs)
    then obtain c cs where bs: "bs = c # cs" using Cons.prems(1) by (cases bs) auto
    have "bit (- of_nat (length bs) :: u8) 7 \<and> unat (NOT (- of_nat (length bs) :: u8)) + 1 = length bs"
      using Cons.prems(1) Verbatim by (intro verbatim_head) auto
    then show ?thesis
      using Cons.prems IH Verbatim
      by (subst rle_loop.simps) (simp add: expand_def bs Let_def)
  qed
qed

lemma rle_decode_codes:
  assumes "rs \<noteq> []" and "list_all run_ok rs" and "length (expand rs) \<le> outlen"
  shows "routerboot_rle_decode (Some (concat (map run_code rs))) True outlen = (0, length (expand rs), expand rs)"
proof -
  have "2 \<le> length (run_code r)" if "run_ok r" for r using that by (cases r) (auto simp: Suc_le_eq)
  then have "2 \<le> length (concat (map run_code rs))" using assms(1,2) by (cases rs) (auto simp: trans_le_add1)
  then show ?thesis using rle_loop_codes [of rs 0 outlen "[]"] assms by (simp add: routerboot_rle_decode_def)
qed

text \<open>
  The decoder inverts the run-length code: the bytes of every sequence of runs come out, as many
  as it says, when they fit the output buffer.
\<close>

theorem routerboot_rle_decode_round_trip:
  assumes "rs \<noteq> []" and "list_all run_ok rs" and "length (expand rs) \<le> outlen"
  shows "routerboot_rle_decode (Some (concat (map run_code rs))) True outlen = (0, length (expand rs), expand rs)"
  using assms by (rule rle_decode_codes)

theorem routerboot_rle_decode_round_trip_witness:
  "routerboot_rle_decode (Some [3, 7, - 2, 1, 2]) True 5 = (0, 5, [7, 7, 7, 1, 2])"
  using routerboot_rle_decode_round_trip [of "[Repeat 3 7, Verbatim [1, 2]]" 5]
  by (simp add: expand_def eval_nat_numeral)

lemma rle_loop_bounds:
  "rle_loop inp outlen nbytes out = (r, n, res) \<Longrightarrow> length out = nbytes \<Longrightarrow> nbytes \<le> outlen \<Longrightarrow>
    length res \<le> outlen \<and> (r = 0 \<longrightarrow> n = length res) \<and> r \<in> {0, - ENOSPC}"
proof (induction inp outlen nbytes out rule: rle_loop.induct)
  case (1 inp outlen nbytes out)
  show ?case
  proof (cases "\<exists>run byte rest. inp = run # byte # rest")
    case False
    then have "rle_loop inp outlen nbytes out = (0, nbytes, out)"
      by (subst rle_loop.simps) (auto split: list.split)
    then show ?thesis using "1.prems" by simp
  next
    case True
    then obtain run byte rest where inp: "inp = run # byte # rest" by blast
    show ?thesis
    proof (cases "bit run 7")
      case T: True
      show ?thesis
        using "1.prems" "1.IH"(1) [OF inp refl T refl]
        by (subst (asm) rle_loop.simps) (auto simp: inp T Let_def split: if_splits)
    next
      case F: False
      show ?thesis
        using "1.prems" "1.IH"(2) [OF inp refl F refl]
        by (subst (asm) rle_loop.simps) (auto simp: inp F Let_def split: if_splits)
    qed
  qed
qed

lemma rle_decode_bounded:
  "case routerboot_rle_decode inp has_out outlen of (r, n, out) \<Rightarrow>
     length out \<le> outlen \<and> (r = 0 \<longrightarrow> n = length out) \<and> r \<in> {0, - EINVAL, - ENOSPC}"
proof -
  obtain r n out where e: "routerboot_rle_decode inp has_out outlen = (r, n, out)" by (rule prod_cases3)
  then show ?thesis
    using rle_loop_bounds [of _ outlen 0 "[]" r n out]
    by (auto simp: routerboot_rle_decode_def split: option.splits if_splits)
qed

text \<open>
  Whatever the input is, the decoder writes no more than the output buffer holds, and the only
  errors are a bad argument and a lack of space.
\<close>

theorem routerboot_rle_decode_bounds:
  "case routerboot_rle_decode inp has_out outlen of (r, n, out) \<Rightarrow>
     length out \<le> outlen \<and> (r = 0 \<longrightarrow> n = length out) \<and> r \<in> {0, - EINVAL, - ENOSPC}"
  by (rule rle_decode_bounded)

theorem routerboot_rle_decode_bounds_witness:
  "length ([7, 7, 7] :: u8 list) \<le> 4 \<and> (0 :: int) \<in> {0, - EINVAL, - ENOSPC}
   \<and> routerboot_rle_decode (Some [3, 7]) True 4 = (0, 3, [7, 7, 7])"
proof -
  have r: "routerboot_rle_decode (Some [3, 7]) True 4 = (0, 3, [7, 7, 7])" by code_simp
  show ?thesis using routerboot_rle_decode_bounds [where inp = "Some [3, 7]" and has_out = True and outlen = 4] unfolding r by simp
qed

end
