(* ===== verification/Rb_Softconfig.thy ===== *)
theory Rb_Softconfig
  imports Rb_Tags
begin

text \<open>
  The RouterBoot soft config driver, \<^verbatim>\<open>drivers/platform/mikrotik/rb_softconfig.c\<close>: the settings of
  the boot loader as sysfs files that are changed in memory and written to the flash by a commit.

  The flash partition (\<open>rb_mtd\<close>, in \<open>Rb_Tags\<close>) and the kernel's library (\<open>sc_lib\<close>) are not part of the repository
  and are arguments. A show function gives the text that it prints, a store function the number of
  bytes it took. \<open>sc_buf\<close> is shared by all: the functions take it and return it changed. The
  read-write lock makes the locked parts of a function atomic: each is one step of the relation
  \<open>sc_step\<close>. The creation of the sysfs files is a result code, the log messages are not modelled.
\<close>

section \<open>The interfaces below\<close>

record sc_lib =
  sysfs_streq :: "u8 list \<Rightarrow> u8 list \<Rightarrow> bool"
  kstrtou32 :: "u8 list \<Rightarrow> int \<times> u32"
  kstrtobool :: "u8 list \<Rightarrow> int \<times> bool"
  crc32 :: "u32 \<Rightarrow> u8 list \<Rightarrow> u32"

text \<open>The variables of the ATH79 platform code; \<open>None\<close> is a kernel without \<open>CONFIG_ATH79\<close>.\<close>

record ath79_soc =
  ath79_soc_ar7161 :: bool
  soc_is_ar71xx :: bool
  soc_is_ar724x :: bool
  soc_is_ar9344 :: bool
  soc_is_qca953x :: bool
  soc_is_qca9556 :: bool
  soc_is_qca9558 :: bool

section \<open>The buffer\<close>

abbreviation RB_MAGIC_SOFT :: u32 where "RB_MAGIC_SOFT \<equiv> 0x74666F53"

definition RB_SC_GETCRC :: "u8 list \<Rightarrow> u32" where
  "RB_SC_GETCRC buf = rd32 buf 4"

definition RB_SC_SETCRC :: "u8 list \<Rightarrow> u32 \<Rightarrow> u8 list" where
  "RB_SC_SETCRC buf c = wr32 buf 4 c"

definition RB_SC_CLRCRC :: "u8 list \<Rightarrow> u8 list" where
  "RB_SC_CLRCRC buf = wr32 buf 4 0"

text \<open>The accesses to a payload. The write also clears the CRC.\<close>

definition pld_get :: "u8 list \<Rightarrow> nat \<Rightarrow> rb_error + u32" where
  "pld_get buf pld = (if pld + 4 \<le> length buf then Inr (rd32 buf pld) else Inl Overrun)"

definition pld_set :: "u8 list \<Rightarrow> nat \<Rightarrow> u32 \<Rightarrow> nat \<Rightarrow> (rb_error + nat) \<times> u8 list" where
  "pld_set buf pld v count =
     (if pld + 4 \<le> length buf \<and> 8 \<le> length buf then (Inr count, RB_SC_CLRCRC (wr32 buf pld v))
      else (Inl Overrun, buf))"

section \<open>Settings with a table of values\<close>

type_synonym sc_u32tvs = "(u32 \<times> string) list"

definition mark_current :: "bool \<Rightarrow> u8 list \<Rightarrow> u8 list" where
  "mark_current current s = (if current then cstr ''['' @ s @ cstr '']'' else s)"

definition sc_tag_show_u32tvs :: "u8 list \<Rightarrow> nat \<Rightarrow> u16 \<Rightarrow> sc_u32tvs \<Rightarrow> int \<Rightarrow> rb_error + u8 list" where
  "sc_tag_show_u32tvs buf pld pld_len tvs tvselmts =
     (if tvselmts < 0 then routerboot_tag_show_u32s (drop pld buf) pld_len
      else if pld_len \<noteq> 4 then Inl (Errno (- EINVAL))
      else case pld_get buf pld of
        Inl e \<Rightarrow> Inl e
      | Inr data \<Rightarrow>
          if length tvs < nat tvselmts then Inl Overrun
          else Inr (concat (map (\<lambda>(val, str). mark_current (val = data) (cstr str) @ cstr '' '')
                 (take (nat tvselmts) tvs)) @ [10]))"

definition sc_tag_store_u32tvs ::
    "sc_lib \<Rightarrow> u8 list \<Rightarrow> nat \<Rightarrow> u16 \<Rightarrow> u8 list \<Rightarrow> nat \<Rightarrow> sc_u32tvs \<Rightarrow> int \<Rightarrow> (rb_error + nat) \<times> u8 list" where
  "sc_tag_store_u32tvs lib buf pld pld_len inp count tvs tvselmts =
     (if tvselmts < 0 then (Inl (Errno tvselmts), buf)
      else if pld_len \<noteq> 4 then (Inl (Errno (- EINVAL)), buf)
      else case find (\<lambda>(val, str). sysfs_streq lib inp (cstr str)) (take (nat tvselmts) tvs) of
        Some (val, str) \<Rightarrow> pld_set buf pld val count
      | None \<Rightarrow> if length tvs < nat tvselmts then (Inl Overrun, buf) else (Inl (Errno (- EINVAL)), buf))"

record sc_boolts =
  strfalse :: string
  strtrue :: string

definition sc_tag_show_boolts :: "u8 list \<Rightarrow> nat \<Rightarrow> u16 \<Rightarrow> sc_boolts \<Rightarrow> rb_error + u8 list" where
  "sc_tag_show_boolts buf pld pld_len bts =
     (if pld_len \<noteq> 4 then Inl (Errno (- EINVAL))
      else case pld_get buf pld of
        Inl e \<Rightarrow> Inl e
      | Inr data \<Rightarrow>
          Inr (mark_current (data = 0) (cstr (strfalse bts)) @ cstr '' ''
            @ mark_current (data \<noteq> 0) (cstr (strtrue bts)) @ [10]))"

definition sc_tag_store_boolts ::
    "sc_lib \<Rightarrow> u8 list \<Rightarrow> nat \<Rightarrow> u16 \<Rightarrow> u8 list \<Rightarrow> nat \<Rightarrow> sc_boolts \<Rightarrow> (rb_error + nat) \<times> u8 list" where
  "sc_tag_store_boolts lib buf pld pld_len inp count bts =
     (if pld_len \<noteq> 4 then (Inl (Errno (- EINVAL)), buf)
      else if sysfs_streq lib inp (cstr (strfalse bts)) then pld_set buf pld 0 count
      else if sysfs_streq lib inp (cstr (strtrue bts)) then pld_set buf pld 1 count
      else (Inl (Errno (- EINVAL)), buf))"

definition sc_uartspeeds :: sc_u32tvs where
  "sc_uartspeeds = [(8, ''off''), (7, ''1200''), (6, ''2400''), (5, ''4800''), (4, ''9600''), (3, ''19200''),
     (2, ''38400''), (1, ''57600''), (0, ''115200'')]"

definition sc_bootdevices :: sc_u32tvs where
  "sc_bootdevices = [(0, ''eth''), (1, ''flasheth''), (3, ''ethonce''), (5, ''flash''), (7, ''cfg''), (8, ''cfgonce'')]"

definition sc_bootkey :: sc_boolts where "sc_bootkey = \<lparr>strfalse = ''any'', strtrue = ''del''\<rparr>"
definition sc_cpumode :: sc_boolts where "sc_cpumode = \<lparr>strfalse = ''powersave'', strtrue = ''regular''\<rparr>"
definition sc_bootproto :: sc_boolts where "sc_bootproto = \<lparr>strfalse = ''bootp'', strtrue = ''dhcp''\<rparr>"
definition sc_booter :: sc_boolts where "sc_booter = \<lparr>strfalse = ''regular'', strtrue = ''backup''\<rparr>"
definition sc_silent_boot :: sc_boolts where "sc_silent_boot = \<lparr>strfalse = ''off'', strtrue = ''on''\<rparr>"

section \<open>The boot delay and the CPU frequency\<close>

definition sc_tag_show_bootdelays :: "u8 list \<Rightarrow> nat \<Rightarrow> u16 \<Rightarrow> rb_error + u8 list" where
  "sc_tag_show_bootdelays buf pld pld_len =
     (if pld_len \<noteq> 4 then Inl (Errno (- EINVAL))
      else case pld_get buf pld of
        Inl e \<Rightarrow> Inl e
      | Inr data \<Rightarrow>
          Inr (concat (map (\<lambda>i. mark_current (of_nat i = data) [48 + of_nat i] @ cstr '' '') [1..<10]) @ [10]))"

definition sc_tag_store_bootdelays ::
    "sc_lib \<Rightarrow> u8 list \<Rightarrow> nat \<Rightarrow> u16 \<Rightarrow> u8 list \<Rightarrow> nat \<Rightarrow> (rb_error + nat) \<times> u8 list" where
  "sc_tag_store_bootdelays lib buf pld pld_len inp count =
     (if pld_len \<noteq> 4 then (Inl (Errno (- EINVAL)), buf)
      else case kstrtou32 lib inp of (ret, data) \<Rightarrow>
        if ret \<noteq> 0 then (Inl (Errno ret), buf)
        else if data < 1 \<or> 9 < data then (Inl (Errno (- EINVAL)), buf)
        else pld_set buf pld data count)"

definition sc_cpufreq_indexes_ath79_9x :: sc_u32tvs where
  "sc_cpufreq_indexes_ath79_9x = [(0, ''a''), (0x8, ''b''), (0x10, ''c''), (0x18, ''d''), (0x20, ''e''), (0x28, ''f'')]"

definition sc_cpufreq_indexes_ath79_7x :: sc_u32tvs where
  "sc_cpufreq_indexes_ath79_7x = [(0, ''a''), (0x90, ''b''), (0x120, ''c''), (0x1b0, ''d''), (0x240, ''e''),
     (0x2d0, ''f''), (0x360, ''g''), (0x3f0, ''h'')]"

definition sc_tag_cpufreq_ath79_arraysize :: "ath79_soc \<Rightarrow> int" where
  "sc_tag_cpufreq_ath79_arraysize soc =
     (if ath79_soc_ar7161 soc then 8
      else if soc_is_ar724x soc then 4
      else if soc_is_ar9344 soc then 6
      else if soc_is_qca953x soc then 5
      else if soc_is_qca9556 soc then 3
      else if soc_is_qca9558 soc then 4
      else - EOPNOTSUPP)"

definition cpufreq_table :: "ath79_soc \<Rightarrow> sc_u32tvs" where
  "cpufreq_table soc = (if soc_is_ar71xx soc \<or> soc_is_ar724x soc then sc_cpufreq_indexes_ath79_7x
     else sc_cpufreq_indexes_ath79_9x)"

definition sc_tag_show_cpufreq_indexes :: "ath79_soc \<Rightarrow> u8 list \<Rightarrow> nat \<Rightarrow> u16 \<Rightarrow> rb_error + u8 list" where
  "sc_tag_show_cpufreq_indexes soc buf pld pld_len =
     sc_tag_show_u32tvs buf pld pld_len (cpufreq_table soc) (sc_tag_cpufreq_ath79_arraysize soc)"

definition sc_tag_store_cpufreq_indexes ::
    "ath79_soc \<Rightarrow> sc_lib \<Rightarrow> u8 list \<Rightarrow> nat \<Rightarrow> u16 \<Rightarrow> u8 list \<Rightarrow> nat \<Rightarrow> (rb_error + nat) \<times> u8 list" where
  "sc_tag_store_cpufreq_indexes soc lib buf pld pld_len inp count =
     sc_tag_store_u32tvs lib buf pld pld_len inp count (cpufreq_table soc) (sc_tag_cpufreq_ath79_arraysize soc)"

section \<open>The attributes\<close>

record sc_attr =
  tag_id :: u16
  tshow :: "u8 list \<Rightarrow> nat \<Rightarrow> u16 \<Rightarrow> rb_error + u8 list"
  tstore :: "(u8 list \<Rightarrow> nat \<Rightarrow> u16 \<Rightarrow> u8 list \<Rightarrow> nat \<Rightarrow> (rb_error + nat) \<times> u8 list) option"

definition u32tvs_attr :: "sc_lib \<Rightarrow> u16 \<Rightarrow> sc_u32tvs \<Rightarrow> sc_attr" where
  "u32tvs_attr lib i tvs =
     \<lparr> tag_id = i,
       tshow = (\<lambda>buf pld len. sc_tag_show_u32tvs buf pld len tvs (int (length tvs))),
       tstore = Some (\<lambda>buf pld len inp count. sc_tag_store_u32tvs lib buf pld len inp count tvs (int (length tvs))) \<rparr>"

definition boolts_attr :: "sc_lib \<Rightarrow> u16 \<Rightarrow> sc_boolts \<Rightarrow> sc_attr" where
  "boolts_attr lib i bts =
     \<lparr> tag_id = i,
       tshow = (\<lambda>buf pld len. sc_tag_show_boolts buf pld len bts),
       tstore = Some (\<lambda>buf pld len inp count. sc_tag_store_boolts lib buf pld len inp count bts) \<rparr>"

definition cpufreq_attr :: "sc_lib \<Rightarrow> ath79_soc option \<Rightarrow> sc_attr" where
  "cpufreq_attr lib ath79 =
     (case ath79 of
        None \<Rightarrow> \<lparr> tag_id = 0xC, tshow = (\<lambda>buf pld len. routerboot_tag_show_u32s (drop pld buf) len), tstore = None \<rparr>
      | Some soc \<Rightarrow> \<lparr> tag_id = 0xC, tshow = sc_tag_show_cpufreq_indexes soc,
                     tstore = Some (sc_tag_store_cpufreq_indexes soc lib) \<rparr>)"

definition sc_attrs :: "sc_lib \<Rightarrow> ath79_soc option \<Rightarrow> sc_attr list" where
  "sc_attrs lib ath79 =
     [u32tvs_attr lib 0x1 sc_uartspeeds,
      \<lparr> tag_id = 0x2, tshow = sc_tag_show_bootdelays, tstore = Some (sc_tag_store_bootdelays lib) \<rparr>,
      u32tvs_attr lib 0x3 sc_bootdevices,
      boolts_attr lib 0x4 sc_bootkey,
      boolts_attr lib 0x5 sc_cpumode,
      \<lparr> tag_id = 0x6, tshow = (\<lambda>buf pld len. routerboot_tag_show_string (drop pld buf) len), tstore = None \<rparr>,
      boolts_attr lib 0x9 sc_bootproto,
      cpufreq_attr lib ath79,
      boolts_attr lib 0xD sc_booter,
      boolts_attr lib 0xF sc_silent_boot]"

text \<open>The buffer, the place of each attribute's payload (a length of 0 is a tag that was not found).\<close>

record sc_state =
  sc_buf :: "u8 list"
  sc_plds :: "(u16 \<times> u16) list"

definition sc_attr_show :: "sc_lib \<Rightarrow> ath79_soc option \<Rightarrow> sc_state \<Rightarrow> nat \<Rightarrow> rb_error + u8 list" where
  "sc_attr_show lib ath79 s i =
     (case sc_plds s ! i of (pld_ofs, pld_len) \<Rightarrow>
        if pld_len = 0 then Inl (Errno (- ENOENT))
        else tshow (sc_attrs lib ath79 ! i) (sc_buf s) (unat pld_ofs) pld_len)"

text \<open>\<open>admin\<close> is \<open>capable(CAP_SYS_ADMIN)\<close>.\<close>

definition sc_attr_store ::
    "sc_lib \<Rightarrow> ath79_soc option \<Rightarrow> bool \<Rightarrow> sc_state \<Rightarrow> nat \<Rightarrow> u8 list \<Rightarrow> nat \<Rightarrow> (rb_error + nat) \<times> sc_state" where
  "sc_attr_store lib ath79 admin s i inp count =
     (if \<not> admin then (Inl (Errno (- EACCES)), s)
      else case tstore (sc_attrs lib ath79 ! i) of
        None \<Rightarrow> (Inl (Errno (- EOPNOTSUPP)), s)
      | Some store \<Rightarrow>
          (case sc_plds s ! i of (pld_ofs, pld_len) \<Rightarrow>
             if pld_len = 0 then (Inl (Errno (- ENOENT)), s)
             else case store (sc_buf s) (unat pld_ofs) pld_len inp count of
               (ret, buf) \<Rightarrow> (ret, s\<lparr>sc_buf := buf\<rparr>)))"

section \<open>The commit\<close>

definition sc_commit_show :: "sc_state \<Rightarrow> u8 list" where
  "sc_commit_show s = cstr (if RB_SC_GETCRC (sc_buf s) \<noteq> 0 then ''clean'' else ''dirty'') @ [10]"

text \<open>
  The two locked parts of \<open>sc_commit_store\<close>. The first ends with a result, or with what was asked
  for, \<open>flush\<close>. The second reads or writes the flash. Another process can run between them.
\<close>

definition sc_commit_begin :: "sc_lib \<Rightarrow> sc_state \<Rightarrow> u8 list \<Rightarrow> nat \<Rightarrow> (rb_error + nat) + bool" where
  "sc_commit_begin lib s inp count =
     (if RB_SC_GETCRC (sc_buf s) \<noteq> 0 then Inl (Inr count)
      else case kstrtobool lib inp of (ret, flush) \<Rightarrow>
        if ret \<noteq> 0 then Inl (Inl (Errno ret)) else Inr flush)"

definition sc_commit_io :: "sc_lib \<Rightarrow> 'd rb_mtd \<Rightarrow> 'd \<Rightarrow> u8 list \<Rightarrow> bool \<Rightarrow> int \<times> nat \<times> u8 list \<times> 'd" where
  "sc_commit_io lib mtd d buf flush =
     (if \<not> flush then mtd_rd mtd d buf
      else
        let buf' = RB_SC_SETCRC buf (NOT (crc32 lib 0xffffffff buf))
        in case mtd_er mtd d of (ret, d1) \<Rightarrow>
          if ret = 0 then (case mtd_wr mtd d1 buf' of (ret', n, d2) \<Rightarrow> (ret', n, buf', d2))
          else (ret, 0, buf', d1))"

definition sc_commit_end ::
    "sc_lib \<Rightarrow> 'd rb_mtd \<Rightarrow> 'd \<Rightarrow> sc_state \<Rightarrow> bool \<Rightarrow> nat \<Rightarrow> (rb_error + nat) \<times> sc_state \<times> 'd" where
  "sc_commit_end lib mtd d s flush count =
     (if \<not> mtd_present mtd d then (Inl (Errno (- ENODEV)), s, d)
      else case sc_commit_io lib mtd d (sc_buf s) flush of (ret, bytes_rw, buf, d1) \<Rightarrow>
        if ret \<noteq> 0 then (Inl (Errno ret), s\<lparr>sc_buf := RB_SC_CLRCRC buf\<rparr>, d1)
        else if bytes_rw \<noteq> length (sc_buf s) then (Inl (Errno (- EIO)), s\<lparr>sc_buf := RB_SC_CLRCRC buf\<rparr>, d1)
        else (Inr count, s\<lparr>sc_buf := buf\<rparr>, d1))"

definition sc_commit_store ::
    "sc_lib \<Rightarrow> 'd rb_mtd \<Rightarrow> 'd \<Rightarrow> sc_state \<Rightarrow> u8 list \<Rightarrow> nat \<Rightarrow> (rb_error + nat) \<times> sc_state \<times> 'd" where
  "sc_commit_store lib mtd d s inp count =
     (case sc_commit_begin lib s inp count of
        Inl r \<Rightarrow> (r, s, d)
      | Inr flush \<Rightarrow> sc_commit_end lib mtd d s flush count)"

section \<open>Start\<close>

primrec find_plds :: "u8 list \<Rightarrow> nat \<Rightarrow> u16 list \<Rightarrow> rb_error + (u16 \<times> u16) list" where
  "find_plds buf buflen [] = Inr []"
| "find_plds buf buflen (i # is) =
     (case routerboot_tag_find (Some buf) buflen i of
        Inl Overrun \<Rightarrow> Inl Overrun
      | Inl (Errno _) \<Rightarrow>
          (case find_plds buf buflen is of Inl e \<Rightarrow> Inl e | Inr plds \<Rightarrow> Inr ((0, 0) # plds))
      | Inr (pld_ofs, pld_len) \<Rightarrow>
          (case find_plds buf buflen is of Inl e \<Rightarrow> Inl e | Inr plds \<Rightarrow> Inr ((pld_ofs + 8, pld_len) # plds)))"

text \<open>
  The arguments are the results of the calls that take the device, allocate the buffer (with what it
  holds at first), create the folder and create the file \<open>commit\<close>.
\<close>

definition rb_softconfig_init ::
    "sc_lib \<Rightarrow> ath79_soc option \<Rightarrow> 'd rb_mtd \<Rightarrow> 'd \<Rightarrow> int \<Rightarrow> u8 list option \<Rightarrow> bool \<Rightarrow> int
      \<Rightarrow> (rb_error + sc_state) \<times> 'd" where
  "rb_softconfig_init lib ath79 mtd d get_ret mem kobj_ok commit_ret =
     (if get_ret \<noteq> 0 then (Inl (Errno (- ENODEV)), d)
      else case mem of
        None \<Rightarrow> (Inl (Errno (- ENOMEM)), d)
      | Some garbage \<Rightarrow>
          (case mtd_rd mtd d garbage of (ret, bytes_read, buf, d1) \<Rightarrow>
             if ret \<noteq> 0 then (Inl (Errno ret), d1)
             else if bytes_read \<noteq> mtd_sz mtd then (Inl (Errno (- EIO)), d1)
             else if length buf < 4 then (Inl Overrun, d1)
             else if rd32 buf 0 \<noteq> RB_MAGIC_SOFT then (Inl (Errno (- EINVAL)), d1)
             else if \<not> kobj_ok then (Inl (Errno (- ENOMEM)), d1)
             else case find_plds (drop 8 buf) (size_sub (mtd_sz mtd) 8) (map tag_id (sc_attrs lib ath79)) of
               Inl e \<Rightarrow> (Inl e, d1)
             | Inr plds \<Rightarrow>
                 if commit_ret \<noteq> 0 then (Inl (Errno commit_ret), d1)
                 else (Inr \<lparr> sc_buf = buf, sc_plds = plds \<rparr>, d1)))"

text \<open>The buffer and the files are gone.\<close>

definition rb_softconfig_exit :: "sc_state option \<Rightarrow> sc_state option" where
  "rb_softconfig_exit s = None"

section \<open>Interleavings\<close>

text \<open>
  The driver, the flash and the commits under way, each between its two locked parts with what it
  asked for.
\<close>

record 'd sc_sys =
  drv :: sc_state
  dev :: 'd
  commits :: "bool list"

inductive sc_step :: "sc_lib \<Rightarrow> ath79_soc option \<Rightarrow> 'd rb_mtd \<Rightarrow> 'd sc_sys \<Rightarrow> 'd sc_sys \<Rightarrow> bool"
  for lib :: sc_lib and ath79 :: "ath79_soc option" and mtd :: "'d rb_mtd" where
  store: "sc_attr_store lib ath79 admin (drv y) i inp count = (r, s) \<Longrightarrow> i < 10
      \<Longrightarrow> sc_step lib ath79 mtd y (y\<lparr>drv := s\<rparr>)"
| begin_commit: "sc_commit_begin lib (drv y) inp count = Inr flush
      \<Longrightarrow> sc_step lib ath79 mtd y (y\<lparr>commits := commits y @ [flush]\<rparr>)"
| end_commit: "commits y = pre @ flush # post \<Longrightarrow> sc_commit_end lib mtd (dev y) (drv y) flush count = (r, s, d)
      \<Longrightarrow> sc_step lib ath79 mtd y (y\<lparr>drv := s, dev := d, commits := pre @ post\<rparr>)"

inductive sc_reachable :: "sc_lib \<Rightarrow> ath79_soc option \<Rightarrow> 'd rb_mtd \<Rightarrow> 'd sc_sys \<Rightarrow> bool"
  for lib :: sc_lib and ath79 :: "ath79_soc option" and mtd :: "'d rb_mtd" where
  started: "rb_softconfig_init lib ath79 mtd d 0 (Some garbage) True 0 = (Inr s, d1) \<Longrightarrow> length garbage = mtd_sz mtd
      \<Longrightarrow> sc_reachable lib ath79 mtd \<lparr> drv = s, dev = d1, commits = [] \<rparr>"
| stepped: "sc_reachable lib ath79 mtd y \<Longrightarrow> sc_step lib ath79 mtd y z \<Longrightarrow> sc_reachable lib ath79 mtd z"

section \<open>What a store changes\<close>

text \<open>The result of a store: the buffer as it was, or a new payload and a cleared CRC.\<close>

definition stored :: "u8 list \<Rightarrow> nat \<Rightarrow> (rb_error + nat) \<times> u8 list \<Rightarrow> bool" where
  "stored buf pld res \<longleftrightarrow>
     (case res of (r, buf') \<Rightarrow>
        (r = Inl Overrun \<longrightarrow> \<not> (pld + 4 \<le> length buf \<and> 8 \<le> length buf)) \<and>
        (buf' = buf \<or> pld + 4 \<le> length buf \<and> 8 \<le> length buf \<and> (\<exists>v. buf' = RB_SC_CLRCRC (wr32 buf pld v))))"

lemma stored_same [simp]: "r \<noteq> Inl Overrun \<Longrightarrow> stored buf pld (r, buf)"
  by (simp add: stored_def)

lemma stored_pld_set [simp]: "stored buf pld (pld_set buf pld v count)"
  by (auto simp: pld_set_def stored_def)

lemma stored_u32tvs:
  "nat n \<le> length tvs \<Longrightarrow> stored buf pld (sc_tag_store_u32tvs lib buf pld len inp count tvs n)"
  by (auto simp: sc_tag_store_u32tvs_def split: option.split)

lemma stored_boolts: "stored buf pld (sc_tag_store_boolts lib buf pld len inp count bts)"
  by (auto simp: sc_tag_store_boolts_def)

lemma stored_bootdelays: "stored buf pld (sc_tag_store_bootdelays lib buf pld len inp count)"
  by (auto simp: sc_tag_store_bootdelays_def split: prod.split)

text \<open>The only processor that needs the longer table has it.\<close>

definition soc_ok :: "ath79_soc option \<Rightarrow> bool" where
  "soc_ok ath79 \<longleftrightarrow> (case ath79 of None \<Rightarrow> True | Some soc \<Rightarrow> ath79_soc_ar7161 soc \<longrightarrow> soc_is_ar71xx soc)"

lemma cpufreq_size:
  "soc_ok (Some soc) \<Longrightarrow> nat (sc_tag_cpufreq_ath79_arraysize soc) \<le> length (cpufreq_table soc)"
  by (auto simp: soc_ok_def sc_tag_cpufreq_ath79_arraysize_def cpufreq_table_def
      sc_cpufreq_indexes_ath79_7x_def sc_cpufreq_indexes_ath79_9x_def)

lemma length_sc_attrs [simp]: "length (sc_attrs lib ath79) = 10"
  by (simp add: sc_attrs_def)

lemma stored_attr:
  assumes "soc_ok ath79" and "a \<in> set (sc_attrs lib ath79)" and "tstore a = Some f"
  shows "stored buf pld (f buf pld len inp count)"
  using assms
  by (auto simp: sc_attrs_def u32tvs_attr_def boolts_attr_def cpufreq_attr_def sc_tag_store_cpufreq_indexes_def
      stored_boolts stored_bootdelays cpufreq_size intro!: stored_u32tvs split: option.splits)

lemma attr_store_result:
  assumes "soc_ok ath79" and "i < 10" and "sc_attr_store lib ath79 admin s i inp count = (r, s')"
  shows "sc_plds s' = sc_plds s \<and>
    (sc_buf s' = sc_buf s \<and> r \<noteq> Inl Overrun
     \<or> snd (sc_plds s ! i) \<noteq> 0 \<and> stored (sc_buf s) (unat (fst (sc_plds s ! i))) (r, sc_buf s'))"
proof -
  have "sc_attrs lib ath79 ! i \<in> set (sc_attrs lib ath79)" using assms(2) by (intro nth_mem) simp
  note st = stored_attr [OF assms(1) this]
  show ?thesis
  proof (cases "tstore (sc_attrs lib ath79 ! i)")
    case None
    then show ?thesis using assms(3) by (auto simp: sc_attr_store_def split: if_splits)
  next
    case (Some f)
    obtain o' l where p: "sc_plds s ! i = (o', l)" by (cases "sc_plds s ! i")
    show ?thesis
      using assms(3) st [OF Some, of "sc_buf s" "unat o'" l inp count] Some p
      by (auto simp: sc_attr_store_def split: if_splits prod.splits)
  qed
qed

lemma RB_SC_GETCRC_CLR: "8 \<le> length buf \<Longrightarrow> RB_SC_GETCRC (RB_SC_CLRCRC buf) = 0"
  by (simp add: RB_SC_GETCRC_def RB_SC_CLRCRC_def rd32_wr32_same)

lemma length_CLRCRC [simp]: "length (RB_SC_CLRCRC buf) = length buf"
  by (simp add: RB_SC_CLRCRC_def)

lemma length_SETCRC [simp]: "length (RB_SC_SETCRC buf c) = length buf"
  by (simp add: RB_SC_SETCRC_def)

lemma stored_effect:
  assumes "stored buf pld (r, buf')"
  shows "length buf' = length buf \<and> (buf' = buf \<or> 8 \<le> length buf \<and> RB_SC_GETCRC buf' = 0)"
  using assms by (auto simp: stored_def RB_SC_GETCRC_CLR)

section \<open>In step with the flash\<close>

text \<open>
  The flash: a read without an error gives its contents, and a write without an error after an
  erasure without an error leaves what was written. Nothing is said of an access that fails, except
  that a read keeps to the buffer.
\<close>

definition faithful_mtd :: "'d rb_mtd \<Rightarrow> ('d \<Rightarrow> u8 list) \<Rightarrow> bool" where
  "faithful_mtd mtd img \<longleftrightarrow>
     (\<forall>d buf ret n buf' d'. length buf = mtd_sz mtd \<longrightarrow> mtd_rd mtd d buf = (ret, n, buf', d') \<longrightarrow>
        length buf' = mtd_sz mtd \<and> img d' = img d \<and> (ret = 0 \<and> n = mtd_sz mtd \<longrightarrow> buf' = img d)) \<and>
     (\<forall>d d1 buf n d2. mtd_er mtd d = (0, d1) \<longrightarrow> mtd_wr mtd d1 buf = (0, n, d2) \<longrightarrow> n = length buf \<longrightarrow>
        img d2 = buf)"

lemma faithful_read:
  "faithful_mtd mtd img \<Longrightarrow> length buf = mtd_sz mtd \<Longrightarrow> mtd_rd mtd d buf = (ret, n, buf', d') \<Longrightarrow>
    length buf' = mtd_sz mtd \<and> img d' = img d \<and> (ret = 0 \<and> n = mtd_sz mtd \<longrightarrow> buf' = img d)"
  unfolding faithful_mtd_def by blast

lemma faithful_write:
  "faithful_mtd mtd img \<Longrightarrow> mtd_er mtd d = (0, d1) \<Longrightarrow> mtd_wr mtd d1 buf = (0, length buf, d2) \<Longrightarrow> img d2 = buf"
  unfolding faithful_mtd_def by blast

definition in_sync :: "'d rb_mtd \<Rightarrow> ('d \<Rightarrow> u8 list) \<Rightarrow> 'd \<Rightarrow> u8 list \<Rightarrow> bool" where
  "in_sync mtd img d buf \<longleftrightarrow> length buf = mtd_sz mtd \<and> 8 \<le> mtd_sz mtd \<and> (RB_SC_GETCRC buf \<noteq> 0 \<longrightarrow> buf = img d)"

lemma in_sync_CLRCRC: "length buf = mtd_sz mtd \<Longrightarrow> 8 \<le> mtd_sz mtd \<Longrightarrow> in_sync mtd img d (RB_SC_CLRCRC buf)"
  by (simp add: in_sync_def RB_SC_GETCRC_CLR)

lemma commit_io_result:
  assumes "faithful_mtd mtd img" and "length buf = mtd_sz mtd" and "sc_commit_io lib mtd d buf flush = (ret, n, buf', d')"
  shows "length buf' = mtd_sz mtd \<and> (ret = 0 \<and> n = mtd_sz mtd \<longrightarrow> buf' = img d')"
proof (cases flush)
  case False
  then show ?thesis using faithful_read [OF assms(1,2)] assms(3) by (simp add: sc_commit_io_def)
next
  case True
  obtain e d1 where e: "mtd_er mtd d = (e, d1)" by (cases "mtd_er mtd d")
  let ?b = "RB_SC_SETCRC buf (NOT (crc32 lib 0xffffffff buf))"
  obtain w m d2 where w: "mtd_wr mtd d1 ?b = (w, m, d2)" by (rule prod_cases3)
  have r: "(ret, n, buf', d') = (if e = 0 then (w, m, ?b, d2) else (e, 0, ?b, d1))"
    using assms(3) True e w by (auto simp: sc_commit_io_def Let_def split: if_splits)
  show ?thesis
    using r e w faithful_write [OF assms(1), of d d1 ?b d2] assms(2) by (auto split: if_splits)
qed

lemma commit_end_sync:
  assumes "faithful_mtd mtd img" and "in_sync mtd img d (sc_buf s)"
    and "sc_commit_end lib mtd d s flush count = (r, s', d')"
  shows "in_sync mtd img d' (sc_buf s') \<and> sc_plds s' = sc_plds s"
proof (cases "mtd_present mtd d")
  case False
  then show ?thesis using assms(2,3) by (simp add: sc_commit_end_def)
next
  case True
  obtain ret n buf d1 where io: "sc_commit_io lib mtd d (sc_buf s) flush = (ret, n, buf, d1)" by (metis prod_cases4)
  have len: "length (sc_buf s) = mtd_sz mtd" "8 \<le> mtd_sz mtd" using assms(2) by (simp_all add: in_sync_def)
  note c = commit_io_result [OF assms(1) len(1) io]
  have failed: "in_sync mtd img d1 (RB_SC_CLRCRC buf)" using c len by (intro in_sync_CLRCRC) simp_all
  show ?thesis
  proof (cases "ret = 0 \<and> n = mtd_sz mtd")
    case ok: True
    then have "s' = s\<lparr>sc_buf := buf\<rparr> \<and> d' = d1"
      using assms(3) io True len by (simp add: sc_commit_end_def)
    then show ?thesis using c ok len by (auto simp: in_sync_def)
  next
    case bad: False
    then have "s' = s\<lparr>sc_buf := RB_SC_CLRCRC buf\<rparr> \<and> d' = d1"
      using assms(3) io True len by (auto simp: sc_commit_end_def split: if_splits)
    then show ?thesis using failed by simp
  qed
qed

lemma tag_find_nothing: "0 < n \<Longrightarrow> i \<noteq> 0 \<Longrightarrow> routerboot_tag_find (Some []) n i = Inl Overrun"
  by (simp add: routerboot_tag_find_def tag_find_from.simps)

lemma init_result:
  assumes "rb_softconfig_init lib ath79 mtd d g (Some mem) k c = (Inr s, d1)"
  shows "\<exists>buf. mtd_rd mtd d mem = (0, mtd_sz mtd, buf, d1) \<and> sc_buf s = buf
    \<and> find_plds (drop 8 buf) (size_sub (mtd_sz mtd) 8) (map tag_id (sc_attrs lib ath79)) = Inr (sc_plds s)
    \<and> rd32 buf 0 = RB_MAGIC_SOFT"
  using assms by (auto simp: rb_softconfig_init_def split: if_splits prod.splits sum.splits)

lemma init_size:
  assumes "find_plds (drop 8 buf) (size_sub (length buf) 8) (map tag_id (sc_attrs lib ath79)) = Inr plds"
  shows "8 \<le> length buf"
proof (rule ccontr)
  assume "\<not> 8 \<le> length buf"
  then have "drop 8 buf = []" "0 < size_sub (length buf) 8" by (simp_all add: size_sub_def)
  then show False using assms by (simp add: sc_attrs_def u32tvs_attr_def tag_find_nothing)
qed

definition sys_ok :: "'d rb_mtd \<Rightarrow> ('d \<Rightarrow> u8 list) \<Rightarrow> 'd sc_sys \<Rightarrow> bool" where
  "sys_ok mtd img y \<longleftrightarrow> in_sync mtd img (dev y) (sc_buf (drv y))"

lemma step_sys_ok:
  assumes "faithful_mtd mtd img" and "soc_ok ath79" and "sc_step lib ath79 mtd y z" and "sys_ok mtd img y"
  shows "sys_ok mtd img z \<and> sc_plds (drv z) = sc_plds (drv y)"
  using assms(3)
proof cases
  case (store admin i inp count r s)
  have "length (sc_buf s) = length (sc_buf (drv y))
      \<and> (sc_buf s = sc_buf (drv y) \<or> RB_SC_GETCRC (sc_buf s) = 0) \<and> sc_plds s = sc_plds (drv y)"
    using attr_store_result [OF assms(2) store(3,2)] stored_effect by metis
  then show ?thesis using store(1) assms(4) by (auto simp: sys_ok_def in_sync_def)
next
  case (begin_commit inp count flush)
  then show ?thesis using assms(4) by (simp add: sys_ok_def)
next
  case (end_commit pre flush post count r s d)
  then show ?thesis
    using commit_end_sync [OF assms(1), of "dev y" "drv y"] assms(4) by (simp add: sys_ok_def)
qed

lemma reachable_sys_ok:
  assumes "faithful_mtd mtd img" and "soc_ok ath79" and "sc_reachable lib ath79 mtd y"
  shows "sys_ok mtd img y"
  using assms(3)
proof induction
  case (started d garbage s d1)
  obtain buf where b: "mtd_rd mtd d garbage = (0, mtd_sz mtd, buf, d1)" "sc_buf s = buf"
      "find_plds (drop 8 buf) (size_sub (mtd_sz mtd) 8) (map tag_id (sc_attrs lib ath79)) = Inr (sc_plds s)"
    using init_result [OF started(1)] by blast
  have l: "length buf = mtd_sz mtd" using faithful_read [OF assms(1) started(2) b(1)] by blast
  have e: "buf = img d1" using faithful_read [OF assms(1) started(2) b(1)] by simp
  have "8 \<le> mtd_sz mtd" using init_size [of buf] b(3) unfolding l by blast
  then show ?case using l e b(2) by (simp add: sys_ok_def in_sync_def)
next
  case (stepped y z)
  then show ?case using step_sys_ok [OF assms(1,2)] by blast
qed


section \<open>Commits\<close>

text \<open>The boot loader's test of the flash: the CRC of all of it with the CRC's own place cleared.\<close>

definition sc_valid :: "sc_lib \<Rightarrow> u8 list \<Rightarrow> bool" where
  "sc_valid lib bytes \<longleftrightarrow> RB_SC_GETCRC bytes = NOT (crc32 lib 0xffffffff (RB_SC_CLRCRC bytes))"

lemma sc_valid_SETCRC:
  "8 \<le> length buf \<Longrightarrow> RB_SC_GETCRC buf = 0 \<Longrightarrow> sc_valid lib (RB_SC_SETCRC buf (NOT (crc32 lib 0xffffffff buf)))"
  using wr32_rd32 [of 4 buf]
  by (simp add: sc_valid_def RB_SC_GETCRC_def RB_SC_SETCRC_def RB_SC_CLRCRC_def rd32_wr32_same wr32_wr32)

lemma commit_end_flush:
  assumes "faithful_mtd mtd img" and "sc_commit_end lib mtd d s True count = (Inr n, s', d')"
  shows "sc_buf s' = RB_SC_SETCRC (sc_buf s) (NOT (crc32 lib 0xffffffff (sc_buf s))) \<and> img d' = sc_buf s'"
proof -
  obtain e d1 where e: "mtd_er mtd d = (e, d1)" by (cases "mtd_er mtd d")
  let ?b = "RB_SC_SETCRC (sc_buf s) (NOT (crc32 lib 0xffffffff (sc_buf s)))"
  obtain w m d2 where w: "mtd_wr mtd d1 ?b = (w, m, d2)" by (rule prod_cases3)
  have "e = 0 \<and> w = 0 \<and> m = length ?b \<and> sc_buf s' = ?b \<and> d' = d2"
    using assms(2) e w by (auto simp: sc_commit_end_def sc_commit_io_def Let_def split: if_splits)
  then show ?thesis using faithful_write [OF assms(1)] e w by auto
qed

text \<open>
  A commit that is not disturbed by another one does what it says: the settings in memory are
  on the flash with a right CRC.
\<close>

theorem sc_commit_store_valid:
  assumes "faithful_mtd mtd img" and "8 \<le> length (sc_buf s)" and "RB_SC_GETCRC (sc_buf s) = 0"
    and "kstrtobool lib inp = (0, True)" and "sc_commit_store lib mtd d s inp count = (Inr n, s', d')"
  shows "sc_valid lib (img d') \<and> img d' = sc_buf s' \<and> RB_SC_CLRCRC (img d') = sc_buf s"
proof -
  have "sc_commit_end lib mtd d s True count = (Inr n, s', d')"
    using assms(3,4,5) by (simp add: sc_commit_store_def sc_commit_begin_def)
  note c = commit_end_flush [OF assms(1) this]
  have "RB_SC_CLRCRC (sc_buf s') = sc_buf s"
    using c wr32_rd32 [of 4 "sc_buf s"] assms(2,3)
    by (simp add: RB_SC_GETCRC_def RB_SC_SETCRC_def RB_SC_CLRCRC_def wr32_wr32)
  then show ?thesis using c sc_valid_SETCRC [OF assms(2,3)] by metis
qed

text \<open>A flash that works, and the part of a CRC that the next property needs.\<close>

definition healthy_mtd :: "'d rb_mtd \<Rightarrow> bool" where
  "healthy_mtd mtd \<longleftrightarrow> (\<forall>d. mtd_present mtd d) \<and> (\<forall>d. fst (mtd_er mtd d) = 0)
     \<and> (\<forall>d buf. fst (mtd_wr mtd d buf) = 0 \<and> fst (snd (mtd_wr mtd d buf)) = length buf)"

definition detects_word :: "sc_lib \<Rightarrow> bool" where
  "detects_word lib \<longleftrightarrow> (\<forall>buf x. 8 \<le> length buf \<longrightarrow> x \<noteq> 0 \<longrightarrow>
     crc32 lib 0xffffffff (RB_SC_SETCRC buf x) \<noteq> crc32 lib 0xffffffff (RB_SC_CLRCRC buf))"

lemma healthy_flush:
  assumes "healthy_mtd mtd"
  shows "\<exists>s' d'. sc_commit_end lib mtd d s True count = (Inr count, s', d')"
proof -
  obtain d1 where "mtd_er mtd d = (0, d1)"
    using assms unfolding healthy_mtd_def by (metis prod.collapse)
  moreover obtain d2 where "mtd_wr mtd d1 b = (0, length b, d2)"
    if "b = RB_SC_SETCRC (sc_buf s) (NOT (crc32 lib 0xffffffff (sc_buf s)))" for b
    using assms unfolding healthy_mtd_def by (metis prod.collapse)
  ultimately show ?thesis
    using assms by (simp add: sc_commit_end_def sc_commit_io_def healthy_mtd_def Let_def)
qed

text \<open>
  Two commits at once can leave a wrong CRC on the flash: both find the buffer dirty before the
  first one runs, and the second computes the CRC of a buffer that holds the CRC of the first. The
  comment in the code says that the CRC is null at that point.
\<close>

theorem sc_commits_race:
  assumes "faithful_mtd mtd img" and "healthy_mtd mtd" and "detects_word lib"
    and "8 \<le> length (sc_buf (drv y))" and "RB_SC_GETCRC (sc_buf (drv y)) = 0" and "commits y = []"
    and "kstrtobool lib inp = (0, True)" and "crc32 lib 0xffffffff (sc_buf (drv y)) \<noteq> 0xffffffff"
  shows "\<exists>z. (sc_step lib ath79 mtd)\<^sup>*\<^sup>* y z \<and> commits z = [] \<and> \<not> sc_valid lib (img (dev z))"
proof -
  define b where "b = sc_buf (drv y)"
  define c where "c = NOT (crc32 lib 0xffffffff b)"
  have "crc32 lib 0xffffffff b = NOT c" by (simp add: c_def)
  moreover have "NOT (0 :: u32) = 0xffffffff" by simp
  ultimately have c0: "c \<noteq> 0" using assms(8) unfolding b_def by metis
  obtain s1 d1 where e1: "sc_commit_end lib mtd (dev y) (drv y) True 1 = (Inr 1, s1, d1)"
    using healthy_flush [OF assms(2)] by blast
  obtain s2 d2 where e2: "sc_commit_end lib mtd d1 s1 True 1 = (Inr 1, s2, d2)"
    using healthy_flush [OF assms(2)] by blast
  have b1: "sc_buf s1 = RB_SC_SETCRC b c" using commit_end_flush [OF assms(1) e1] by (simp add: b_def c_def)
  have b2: "img d2 = RB_SC_SETCRC b (NOT (crc32 lib 0xffffffff (RB_SC_SETCRC b c)))"
    using commit_end_flush [OF assms(1) e2] b1 by (simp add: RB_SC_SETCRC_def wr32_wr32)
  define y1 where "y1 = y\<lparr>commits := [True]\<rparr>"
  define y2 where "y2 = y\<lparr>commits := [True, True]\<rparr>"
  define y3 where "y3 = y\<lparr>drv := s1, dev := d1, commits := [True]\<rparr>"
  define z where "z = y\<lparr>drv := s2, dev := d2, commits := []\<rparr>"
  have started: "sc_commit_begin lib (drv y) inp 1 = Inr True"
    using assms(5,7) by (simp add: sc_commit_begin_def)
  have "sc_step lib ath79 mtd y y1"
    using sc_step.begin_commit [of lib y inp 1 True ath79 mtd] started assms(6) by (simp add: y1_def)
  moreover have "sc_step lib ath79 mtd y1 y2"
    using sc_step.begin_commit [of lib y1 inp 1 True ath79 mtd] started by (simp add: y1_def y2_def)
  moreover have "sc_step lib ath79 mtd y2 y3"
    using sc_step.end_commit [of y2 "[]" True "[True]" lib mtd 1 "Inr 1" s1 d1 ath79] e1
    by (simp add: y2_def y3_def)
  moreover have "sc_step lib ath79 mtd y3 z"
    using sc_step.end_commit [of y3 "[]" True "[]" lib mtd 1 "Inr 1" s2 d2 ath79] e2
    by (simp add: y3_def z_def)
  ultimately have "(sc_step lib ath79 mtd)\<^sup>*\<^sup>* y z" by (meson rtranclp.rtrancl_refl rtranclp.rtrancl_into_rtrancl)
  moreover have "\<not> sc_valid lib (img d2)"
    using assms(3,4) c0 unfolding b2 detects_word_def
    by (auto simp: sc_valid_def RB_SC_GETCRC_def RB_SC_SETCRC_def RB_SC_CLRCRC_def rd32_wr32_same wr32_wr32 b_def)
  ultimately show ?thesis by (intro exI [of _ z]) (simp add: z_def)
qed

section \<open>Where the payloads lie\<close>

definition pld_in :: "nat \<Rightarrow> u16 \<times> u16 \<Rightarrow> bool" where
  "pld_in sz p \<longleftrightarrow> snd p \<noteq> 0 \<longrightarrow> 12 \<le> unat (fst p) \<and> unat (fst p) + 4 \<le> sz"

lemma find_plds_bounds:
  assumes "buflen + 8 \<le> 65536" and "buflen mod 4 = 0"
  shows "find_plds buf buflen ids = Inr plds \<Longrightarrow> length plds = length ids \<and> list_all (pld_in (buflen + 8)) plds"
proof (induction ids arbitrary: plds)
  case (Cons i ids)
  show ?case
  proof (cases "routerboot_tag_find (Some buf) buflen i")
    case (Inl e)
    then show ?thesis using Cons by (auto simp: pld_in_def split: rb_error.splits sum.splits)
  next
    case (Inr p)
    obtain o' l where p: "p = (o', l)" by (cases p)
    then have "tag_find_from buf buflen i 0 = Inr (o', l)"
      using Inr by (simp add: routerboot_tag_find_def split: if_splits)
    then have b: "4 \<le> unat o'" "unat o' mod 4 = 0" "unat o' < buflen"
      using tag_find_from_bounds [of buf buflen i 0 o' l] assms(1) by simp_all
    then have "unat o' + 4 \<le> buflen" using assms(2) by presburger
    moreover have "unat (o' + 8) = unat o' + 8"
      using b(3) assms(1) by (simp add: unat_word_ariths(1))
    ultimately show ?thesis
      using Cons Inr p b(1) by (auto simp: pld_in_def split: sum.splits)
  qed
qed simp

lemma reachable_plds:
  assumes "faithful_mtd mtd img" and "soc_ok ath79" and "mtd_sz mtd mod 4 = 0" and "mtd_sz mtd \<le> 65536"
    and "sc_reachable lib ath79 mtd y"
  shows "length (sc_plds (drv y)) = 10 \<and> list_all (pld_in (mtd_sz mtd)) (sc_plds (drv y))"
  using assms(5)
proof induction
  case (started d garbage s d1)
  obtain buf where b: "mtd_rd mtd d garbage = (0, mtd_sz mtd, buf, d1)"
      "find_plds (drop 8 buf) (size_sub (mtd_sz mtd) 8) (map tag_id (sc_attrs lib ath79)) = Inr (sc_plds s)"
    using init_result [OF started(1)] by blast
  have l: "length buf = mtd_sz mtd" using faithful_read [OF assms(1) started(2) b(1)] by blast
  have s: "8 \<le> mtd_sz mtd" using init_size [of buf] b(2) unfolding l by blast
  then have e: "size_sub (mtd_sz mtd) 8 = mtd_sz mtd - 8" by (simp add: size_sub_def)
  have "(mtd_sz mtd - 8) mod 4 = 0" using assms(3) s by presburger
  then show ?case
    using find_plds_bounds [OF _ _ b(2) [unfolded e]] assms(4) s by simp
next
  case (stepped y z)
  then show ?case
    using step_sys_ok [OF assms(1,2) stepped(2)] reachable_sys_ok [OF assms(1,2) stepped(1)] by simp
qed

text \<open>
  A store through any file, in any reachable state, stays inside the buffer and changes nothing
  but the four bytes of its own payload and the CRC, which it clears. The partition has at most
  64 KiB and a multiple of four bytes.
\<close>

theorem sc_attr_store_frame:
  assumes "faithful_mtd mtd img" and "soc_ok ath79" and "mtd_sz mtd mod 4 = 0" and "mtd_sz mtd \<le> 65536"
    and "sc_reachable lib ath79 mtd y" and "i < 10"
    and "sc_attr_store lib ath79 admin (drv y) i inp count = (r, s)" and "pld = unat (fst (sc_plds (drv y) ! i))"
  shows "r \<noteq> Inl Overrun \<and> length (sc_buf s) = mtd_sz mtd
    \<and> (\<forall>k < mtd_sz mtd. \<not> (4 \<le> k \<and> k < 8) \<longrightarrow> \<not> (pld \<le> k \<and> k < pld + 4) \<longrightarrow> sc_buf s ! k = sc_buf (drv y) ! k)"
proof -
  have len: "length (sc_buf (drv y)) = mtd_sz mtd" "8 \<le> mtd_sz mtd"
    using reachable_sys_ok [OF assms(1,2,5)] by (simp_all add: sys_ok_def in_sync_def)
  have "sc_plds (drv y) ! i \<in> set (sc_plds (drv y))" "list_all (pld_in (mtd_sz mtd)) (sc_plds (drv y))"
    using reachable_plds [OF assms(1,2,3,4,5)] assms(6) by (auto intro: nth_mem)
  then have room: "snd (sc_plds (drv y) ! i) \<noteq> 0 \<Longrightarrow> pld + 4 \<le> mtd_sz mtd"
    by (auto simp: list_all_iff pld_in_def assms(8))
  from attr_store_result [OF assms(2,6,7)] show ?thesis
  proof (elim conjE disjE)
    assume "sc_buf s = sc_buf (drv y)" "r \<noteq> Inl Overrun"
    then show ?thesis using len by simp
  next
    assume st: "snd (sc_plds (drv y) ! i) \<noteq> 0" "stored (sc_buf (drv y)) (unat (fst (sc_plds (drv y) ! i))) (r, sc_buf s)"
    have "r \<noteq> Inl Overrun" using st room len by (auto simp: stored_def assms(8))
    moreover have "sc_buf s = sc_buf (drv y) \<or> (\<exists>v. sc_buf s = RB_SC_CLRCRC (wr32 (sc_buf (drv y)) pld v))"
      using st(2) by (auto simp: stored_def assms(8))
    ultimately show ?thesis using len by (auto simp: RB_SC_CLRCRC_def nth_wr32_other)
  qed
qed

section \<open>What is shown after a store\<close>

lemma find_index:
  "find P xs = Some x \<Longrightarrow> \<exists>k < length xs. xs ! k = x \<and> P x"
  by (induction xs) (auto split: if_splits)

text \<open>
  A setting that was stored by name is the one that is then shown in brackets, and no other, as
  the values of the table differ.
\<close>

theorem sc_u32tvs_round_trip:
  assumes "sc_tag_store_u32tvs lib buf pld 4 inp count tvs n = (Inr c, buf')" and "8 \<le> pld"
    and "distinct (map fst tvs)" and "nat n \<le> length tvs"
  shows "\<exists>k < nat n. sysfs_streq lib inp (cstr (snd (tvs ! k))) \<and> c = count \<and>
    sc_tag_show_u32tvs buf' pld 4 tvs n =
      Inr (concat (map (\<lambda>j. mark_current (j = k) (cstr (snd (tvs ! j))) @ cstr '' '') [0..<nat n]) @ [10])"
proof -
  have n: "\<not> n < 0" using assms(1) by (auto simp: sc_tag_store_u32tvs_def)
  obtain val str where f: "find (\<lambda>(val, str). sysfs_streq lib inp (cstr str)) (take (nat n) tvs) = Some (val, str)"
    using assms(1) n by (auto simp: sc_tag_store_u32tvs_def split: option.splits if_splits)
  then obtain k where k: "k < nat n" "tvs ! k = (val, str)" "sysfs_streq lib inp (cstr str)"
    using find_index [OF f] assms(4) by auto
  have set: "pld_set buf pld val count = (Inr c, buf')"
    using assms(1) n f by (simp add: sc_tag_store_u32tvs_def)
  then have b: "pld + 4 \<le> length buf" "buf' = RB_SC_CLRCRC (wr32 buf pld val)" "c = count"
    by (auto simp: pld_set_def split: if_splits)
  have get: "pld_get buf' pld = Inr val"
    using b(1) assms(2) by (simp add: b(2) pld_get_def RB_SC_CLRCRC_def rd32_wr32_other rd32_wr32_same)
  have cur: "fst (tvs ! j) = val \<longleftrightarrow> j = k" if "j < nat n" for j
    using nth_eq_iff_index_eq [OF assms(3), of j k] that k assms(4) by auto
  have "map (\<lambda>(v, str). mark_current (v = val) (cstr str) @ cstr '' '') (take (nat n) tvs)
      = map (\<lambda>j. mark_current (j = k) (cstr (snd (tvs ! j))) @ cstr '' '') [0..<nat n]"
    using assms(4) cur by (intro nth_equalityI) (auto simp: case_prod_beta)
  then show ?thesis
    using k get n assms(4) b(3) by (intro exI [of _ k]) (simp add: sc_tag_show_u32tvs_def)
qed

section \<open>Examples\<close>

text \<open>A flash held in memory, a library, and 20 bytes of soft config with the UART speed.\<close>

definition ram_mtd :: "nat \<Rightarrow> u8 list rb_mtd" where
  "ram_mtd sz =
     \<lparr> mtd_sz = sz, mtd_present = (\<lambda>d. True),
       mtd_rd = (\<lambda>d buf. if length d = sz then (0, sz, d, d) else (- EIO, 0, buf, d)),
       mtd_er = (\<lambda>d. (0, replicate (length d) 0xff)),
       mtd_wr = (\<lambda>d buf. (0, length buf, buf)) \<rparr>"

definition demo_lib :: sc_lib where
  "demo_lib =
     \<lparr> sysfs_streq = (\<lambda>a b. a = b \<or> a = b @ [10]),
       kstrtou32 = (\<lambda>bs. case bs of [c] \<Rightarrow> (0, ucast c - 48) | _ \<Rightarrow> (- EINVAL, 0)),
       kstrtobool = (\<lambda>bs. if bs = cstr ''1'' then (0, True) else (0, False)),
       crc32 = (\<lambda>seed bs. rd32 bs 4 + 5) \<rparr>"

definition demo_flash :: "u8 list" where
  "demo_flash = [0x53, 0x6F, 0x66, 0x74, 1, 0, 0, 0, 1, 0, 4, 0, 0, 0, 0, 0, 0, 0, 0, 0]"

definition demo_sc :: sc_state where
  "demo_sc = \<lparr> sc_buf = demo_flash, sc_plds = (12, 4) # replicate 9 (0, 0) \<rparr>"

definition demo_sys :: "u8 list sc_sys" where
  "demo_sys = \<lparr> drv = demo_sc, dev = demo_flash, commits = [] \<rparr>"

definition dirty_sc :: sc_state where
  "dirty_sc = demo_sc\<lparr> sc_buf := RB_SC_CLRCRC demo_flash \<rparr>"

lemma ram_faithful: "faithful_mtd (ram_mtd sz) (\<lambda>d. d)"
  by (auto simp: faithful_mtd_def ram_mtd_def split: if_splits)

lemma ram_healthy: "healthy_mtd (ram_mtd sz)"
  by (simp add: healthy_mtd_def ram_mtd_def)

lemma demo_detects: "detects_word demo_lib"
  by (simp add: detects_word_def demo_lib_def RB_SC_SETCRC_def RB_SC_CLRCRC_def rd32_wr32_same)

lemma demo_init:
  "rb_softconfig_init demo_lib None (ram_mtd 20) demo_flash 0 (Some (replicate 20 0)) True 0 = (Inr demo_sc, demo_flash)"
proof -
  have ids: "map tag_id (sc_attrs demo_lib None) = [0x1, 0x2, 0x3, 0x4, 0x5, 0x6, 0x9, 0xC, 0xD, 0xF]"
    by (simp add: sc_attrs_def u32tvs_attr_def boolts_attr_def cpufreq_attr_def)
  have f: "find_plds (drop 8 demo_flash) (size_sub 20 8) [0x1, 0x2, 0x3, 0x4, 0x5, 0x6, 0x9, 0xC, 0xD, 0xF]
      = Inr (sc_plds demo_sc)" by code_simp
  have m: "rd32 demo_flash 0 = RB_MAGIC_SOFT" by code_simp
  have l: "length demo_flash = 20" by (simp add: demo_flash_def)
  show ?thesis
    unfolding rb_softconfig_init_def ids by (simp add: ram_mtd_def l m f demo_sc_def del: find_plds.simps)
qed

lemma demo_reachable: "sc_reachable demo_lib None (ram_mtd 20) demo_sys"
  unfolding demo_sys_def using demo_init
  by (rule sc_reachable.started) (simp add: ram_mtd_def)


theorem sc_commit_store_valid_witness:
  "sc_valid demo_lib (snd (snd (sc_commit_store demo_lib (ram_mtd 20) demo_flash dirty_sc (cstr ''1'') 1)))"
proof -
  have b: "8 \<le> length (sc_buf dirty_sc)" "RB_SC_GETCRC (sc_buf dirty_sc) = 0" by code_simp+
  have k: "kstrtobool demo_lib (cstr ''1'') = (0, True)" by (simp add: demo_lib_def)
  have "fst (sc_commit_store demo_lib (ram_mtd 20) demo_flash dirty_sc (cstr ''1'') 1) = Inr 1" by code_simp
  then obtain s' d' where r: "sc_commit_store demo_lib (ram_mtd 20) demo_flash dirty_sc (cstr ''1'') 1 = (Inr 1, s', d')"
    by (metis prod.collapse)
  show ?thesis using sc_commit_store_valid [OF ram_faithful b k r] unfolding r snd_conv by blast
qed

theorem sc_commits_race_witness:
  "\<exists>z. (sc_step demo_lib None (ram_mtd 20))\<^sup>*\<^sup>* (demo_sys\<lparr>drv := dirty_sc\<rparr>) z \<and> \<not> sc_valid demo_lib (dev z)"
proof -
  let ?y = "demo_sys\<lparr>drv := dirty_sc\<rparr>"
  have b: "8 \<le> length (sc_buf dirty_sc)" "RB_SC_GETCRC (sc_buf dirty_sc) = 0"
    "crc32 demo_lib 0xffffffff (sc_buf dirty_sc) \<noteq> 0xffffffff" by code_simp+
  have k: "kstrtobool demo_lib (cstr ''1'') = (0, True)" by (simp add: demo_lib_def)
  have y: "drv ?y = dirty_sc" "commits ?y = []" by (simp_all add: demo_sys_def)
  show ?thesis
    using sc_commits_race [OF ram_faithful ram_healthy demo_detects _ _ y(2) k, of None 20] b y(1) by auto
qed

theorem sc_attr_store_frame_witness:
  "fst (sc_attr_store demo_lib None True demo_sc 0 (cstr ''1200'') 4) \<noteq> Inl Overrun
   \<and> sc_buf (snd (sc_attr_store demo_lib None True demo_sc 0 (cstr ''1200'') 4)) ! 16 = demo_flash ! 16"
proof -
  obtain r s where r: "sc_attr_store demo_lib None True (drv demo_sys) 0 (cstr ''1200'') 4 = (r, s)"
    by (cases "sc_attr_store demo_lib None True (drv demo_sys) 0 (cstr ''1200'') 4")
  have p: "12 = unat (fst (sc_plds (drv demo_sys) ! 0))" by (simp add: demo_sys_def demo_sc_def)
  have sz: "mtd_sz (ram_mtd 20) = 20" by (simp add: ram_mtd_def)
  show ?thesis
    using sc_attr_store_frame [OF ram_faithful _ _ _ demo_reachable _ r p] r
    by (simp add: soc_ok_def sz demo_sys_def demo_sc_def)
qed

theorem sc_u32tvs_round_trip_witness:
  "\<exists>c buf'. sc_tag_store_u32tvs demo_lib demo_flash 12 4 (cstr ''57600'') 5 sc_uartspeeds 9 = (Inr c, buf')
   \<and> (\<exists>k < 9. sysfs_streq demo_lib (cstr ''57600'') (cstr (snd (sc_uartspeeds ! k))))"
proof -
  have "fst (sc_tag_store_u32tvs demo_lib demo_flash 12 4 (cstr ''57600'') 5 sc_uartspeeds 9) = Inr 5" by code_simp
  then obtain buf' where r: "sc_tag_store_u32tvs demo_lib demo_flash 12 4 (cstr ''57600'') 5 sc_uartspeeds 9 = (Inr 5, buf')"
    by (metis prod.collapse)
  have "distinct (map fst sc_uartspeeds)" "nat 9 \<le> length sc_uartspeeds" by (simp_all add: sc_uartspeeds_def)
  then show ?thesis using sc_u32tvs_round_trip [OF r] r by auto
qed

end
