(* ===== verification/Rb_Lz77.thy ===== *)
theory Rb_Lz77
  imports Rb_Tags
begin

text \<open>
  The decompressor of MikroTik's calibration data, \<^verbatim>\<open>drivers/platform/mikrotik/rb_lz77.c\<close>.

  The input is the list of its bytes, all that may be read; a read past them is \<open>Overrun\<close>. The output
  is the list of the bytes written from \<open>out\<close> on: it is longer than \<open>out_len\<close> when the code writes past
  the buffer. Counters are natural numbers: a count takes at most 27 bits and is below \<open>2 ^ 31\<close> (lemma
  \<open>decode_count_small\<close>), so the conversions between \<open>size_t\<close>, \<open>int\<close> and \<open>u8\<close> are exact. The test
  \<open>in_len * BITS_PER_BYTE > SIZE_MAX\<close> compares a \<open>size_t\<close> with its maximum and never holds. The log
  messages are not modelled.
\<close>

unbundle bit_operations_syntax

abbreviation MIKRO_LZ77_MAX_COUNT_BIT_LEN :: nat where "MIKRO_LZ77_MAX_COUNT_BIT_LEN \<equiv> 27"

section \<open>Bits and counts\<close>

definition rb_lz77_get_bit :: "u8 list \<Rightarrow> nat \<Rightarrow> rb_error + u8" where
  "rb_lz77_get_bit inp in_offset_bit =
     (if in_offset_bit div 8 < length inp
      then Inr (drop_bit (in_offset_bit mod 8) (inp ! (in_offset_bit div 8)) AND 1)
      else Inl Overrun)"

primrec get_byte_loop :: "u8 list \<Rightarrow> nat \<Rightarrow> nat list \<Rightarrow> u8 \<Rightarrow> rb_error + u8" where
  "get_byte_loop inp in_offset_bit [] buf = Inr buf"
| "get_byte_loop inp in_offset_bit (i # is) buf =
     (case rb_lz77_get_bit inp (in_offset_bit + i) of
        Inl e \<Rightarrow> Inl e
      | Inr b \<Rightarrow> get_byte_loop inp in_offset_bit is (buf + push_bit (7 - i) b))"

definition rb_lz77_get_byte :: "u8 list \<Rightarrow> nat \<Rightarrow> rb_error + u8" where
  "rb_lz77_get_byte inp in_offset_bit = get_byte_loop inp in_offset_bit [0..<8] 0"

text \<open>The result is the count and the bits used.\<close>

function decode_count_loop ::
    "u8 list \<Rightarrow> nat \<Rightarrow> nat \<Rightarrow> nat \<Rightarrow> nat \<Rightarrow> nat \<Rightarrow> bool \<Rightarrow> rb_error + (nat \<times> nat)" where
  "decode_count_loop inp max_pos in_offset_bit pos shift count up =
     (if pos \<ge> max_pos then Inl (Errno (- EFBIG))
      else case rb_lz77_get_bit inp pos of
        Inl e \<Rightarrow> Inl e
      | Inr b \<Rightarrow>
          let count' = (if b \<noteq> 0 then count + push_bit shift 1 else count);
              up' = (up \<and> b \<noteq> 0)
          in if up' then decode_count_loop inp max_pos in_offset_bit (pos + 1) (shift + 1) count' up'
             else if shift = 0 then Inr (count', pos - in_offset_bit + 1)
             else decode_count_loop inp max_pos in_offset_bit (pos + 1) (shift - 1) count' up')"
  by pat_completeness auto
termination
  by (relation "measure (\<lambda>(inp, max_pos, ofs, pos, shift, count, up). max_pos - pos)") auto

declare decode_count_loop.simps [simp del]

definition rb_lz77_decode_count :: "u8 list \<Rightarrow> nat \<Rightarrow> nat \<Rightarrow> nat \<Rightarrow> nat \<Rightarrow> rb_error + (nat \<times> nat)" where
  "rb_lz77_decode_count inp in_offset_bit shift count max_bits =
     decode_count_loop inp (min (in_offset_bit + max_bits) (length inp * 8)) in_offset_bit in_offset_bit
       shift count True"

section \<open>Instructions\<close>

datatype rb_lz77_instruction = INSTR_ERROR | INSTR_LITERAL_BYTE | INSTR_PREVIOUS_OFFSET | INSTR_LONG

text \<open>The fields \<open>in\<close> and \<open>in_pos\<close> are written and never read.\<close>

record rb_lz77_instr_opcodes =
  instruction :: rb_lz77_instruction
  op_offset :: nat
  op_length :: nat
  bits_used :: nat

definition rb_lz77_decode_instruction :: "u8 list \<Rightarrow> nat \<Rightarrow> rb_error + (rb_lz77_instruction \<times> nat)" where
  "rb_lz77_decode_instruction inp in_offset_bit =
     (case rb_lz77_get_bit inp in_offset_bit of
        Inl e \<Rightarrow> Inl e
      | Inr b \<Rightarrow>
          if b \<noteq> 0 then
            (case rb_lz77_get_bit inp (in_offset_bit + 1) of
               Inl e \<Rightarrow> Inl e
             | Inr b' \<Rightarrow> Inr (if b' \<noteq> 0 then INSTR_LONG else INSTR_PREVIOUS_OFFSET, 2))
          else Inr (INSTR_LITERAL_BYTE, 1))"

definition rb_lz77_decode_instruction_operators ::
    "u8 list \<Rightarrow> nat \<Rightarrow> nat \<Rightarrow> rb_error + rb_lz77_instr_opcodes" where
  "rb_lz77_decode_instruction_operators inp in_offset_bit previous_offset =
     (case rb_lz77_decode_instruction inp in_offset_bit of
        Inl e \<Rightarrow> Inl e
      | Inr (instr, used) \<Rightarrow>
          (case instr of
             INSTR_LITERAL_BYTE \<Rightarrow>
               Inr \<lparr> instruction = instr, op_offset = 0, op_length = 1, bits_used = used \<rparr>
           | INSTR_PREVIOUS_OFFSET \<Rightarrow>
               (case rb_lz77_decode_count inp (in_offset_bit + used) 0 1 MIKRO_LZ77_MAX_COUNT_BIT_LEN of
                  Inl e \<Rightarrow> Inl e
                | Inr (len, n) \<Rightarrow>
                    Inr \<lparr> instruction = instr, op_offset = previous_offset, op_length = len,
                          bits_used = used + n \<rparr>)
           | INSTR_LONG \<Rightarrow>
               (case rb_lz77_decode_count inp (in_offset_bit + used) 4 0 MIKRO_LZ77_MAX_COUNT_BIT_LEN of
                  Inl e \<Rightarrow> Inl e
                | Inr (ofs, n) \<Rightarrow>
                    (case rb_lz77_decode_count inp (in_offset_bit + (used + n))
                        (if ofs = 0 then 4 else 0) (if ofs = 0 then 12 else 2) MIKRO_LZ77_MAX_COUNT_BIT_LEN of
                       Inl e \<Rightarrow> Inl e
                     | Inr (len, m) \<Rightarrow>
                         Inr \<lparr> instruction = instr, op_offset = ofs, op_length = len,
                               bits_used = used + n + m \<rparr>))
           | INSTR_ERROR \<Rightarrow> Inl (Errno (- EINVAL))))"

section \<open>The decompressor\<close>

text \<open>The loop that copies a non-match group. The result is the next input bit.\<close>

primrec copy_literals :: "u8 list \<Rightarrow> nat \<Rightarrow> nat \<Rightarrow> u8 list \<Rightarrow> (rb_error + nat) \<times> u8 list" where
  "copy_literals inp 0 input_bit out = (Inr input_bit, out)"
| "copy_literals inp (Suc i) input_bit out =
     (case rb_lz77_get_byte inp input_bit of
        Inl e \<Rightarrow> (Inl e, out)
      | Inr b \<Rightarrow> copy_literals inp i (input_bit + 8) (out @ [b]))"

text \<open>
  The copy of a match group, in pieces of \<open>offset\<close> bytes: each \<open>memcpy\<close> reads the \<open>offset\<close> bytes before
  the output pointer. The callers have ruled out \<open>offset = 0\<close>, where the loop would not end.
\<close>

function copy_match :: "nat \<Rightarrow> nat \<Rightarrow> u8 list \<Rightarrow> u8 list" where
  "copy_match offset match_length out =
     (if 0 < offset \<and> offset < match_length
      then copy_match offset (match_length - offset) (out @ take offset (drop (length out - offset) out))
      else out @ take match_length (drop (length out - offset) out))"
  by pat_completeness auto
termination
  by (relation "measure (\<lambda>(offset, match_length, out). match_length)") auto

declare copy_match.simps [simp del]

lemma decode_instruction_used: "rb_lz77_decode_instruction inp pos = Inr (i, n) \<Longrightarrow> 0 < n"
  by (auto simp: rb_lz77_decode_instruction_def split: sum.splits if_splits)

lemma decode_operators_used:
  "rb_lz77_decode_instruction_operators inp pos prev = Inr opc \<Longrightarrow> 0 < bits_used opc"
  using decode_instruction_used
  by (auto simp: rb_lz77_decode_instruction_operators_def split: sum.splits rb_lz77_instruction.splits)

lemma copy_literals_bit: "copy_literals inp n pos out = (Inr pos', out') \<Longrightarrow> pos \<le> pos'"
  by (induction n arbitrary: pos out) (fastforce split: sum.splits)+

function decompress_loop :: "u8 list \<Rightarrow> nat \<Rightarrow> u8 list \<Rightarrow> nat \<Rightarrow> nat \<Rightarrow> (rb_error + nat) \<times> u8 list" where
  "decompress_loop inp out_len out input_bit match_offset =
     (if length out > out_len then (Inl (Errno (- EOVERFLOW)), out)
      else if input_bit > length inp * 8 then (Inl (Errno (- ENODATA)), out)
      else case rb_lz77_decode_instruction_operators inp input_bit match_offset of
        Inl e \<Rightarrow> (Inl e, out)
      | Inr opc \<Rightarrow>
          if instruction opc = INSTR_ERROR then (Inl (Errno (- EINVAL)), out)
          else if instruction opc \<noteq> INSTR_PREVIOUS_OFFSET \<and> op_offset opc = 0 then
            if op_length opc = 0xc \<and> input_bit + bits_used opc + op_length opc * 8 > length inp
            then (Inr (length out), out)
            else
              (case copy_literals inp (op_length opc) (input_bit + bits_used opc) out of
                 (Inl e, out') \<Rightarrow> (Inl e, out')
               | (Inr input_bit', out') \<Rightarrow> decompress_loop inp out_len out' input_bit' match_offset)
          else if op_offset opc = 0 then (Inl (Errno (- EBADMSG)), out)
          else if length out + op_length opc > out_len then (Inl (Errno (- ENOBUFS)), out)
          else if length out < op_offset opc then (Inl (Errno (- ESPIPE)), out)
          else
            decompress_loop inp out_len (copy_match (op_offset opc) (op_length opc) out)
              (input_bit + bits_used opc)
              (if instruction opc = INSTR_PREVIOUS_OFFSET then match_offset else op_offset opc))"
  by pat_completeness auto
termination
proof (relation "measure (\<lambda>(inp, out_len, out, input_bit, match_offset). length inp * 8 + 1 - input_bit)", goal_cases)
  case 1
  then show ?case by simp
next
  case (2 inp out_len out input_bit match_offset opc r out' pos)
  then have "0 < bits_used opc" "input_bit + bits_used opc \<le> pos"
    using decode_operators_used copy_literals_bit by metis+
  then show ?case using 2 by simp
next
  case (3 inp out_len out input_bit match_offset opc)
  then have "0 < bits_used opc" using decode_operators_used by metis
  then show ?case using 3 by simp
qed

declare decompress_loop.simps [simp del]

text \<open>\<open>alloc\<close> is the success of \<open>kmalloc\<close>.\<close>

definition rb_lz77_decompress :: "bool \<Rightarrow> u8 list \<Rightarrow> nat \<Rightarrow> (rb_error + nat) \<times> u8 list" where
  "rb_lz77_decompress alloc inp out_len =
     (if alloc then decompress_loop inp out_len [] 0 0 else (Inl (Errno (- ENOMEM)), []))"

section \<open>The bits of the input\<close>

definition byte_bits :: "u8 \<Rightarrow> bool list" where
  "byte_bits b = map (bit b) [0..<8]"

definition lz_bits :: "u8 list \<Rightarrow> bool list" where
  "lz_bits inp = concat (map byte_bits inp)"

lemma length_byte_bits [simp]: "length (byte_bits b) = 8"
  by (simp add: byte_bits_def)

lemma length_lz_bits [simp]: "length (lz_bits inp) = length inp * 8"
  by (induction inp) (simp_all add: lz_bits_def)

lemma nth_lz_bits:
  "pos < length inp * 8 \<Longrightarrow> lz_bits inp ! pos = bit (inp ! (pos div 8)) (pos mod 8)"
proof (induction inp arbitrary: pos)
  case (Cons b inp)
  show ?case
  proof (cases "pos < 8")
    case True
    then show ?thesis by (simp add: lz_bits_def nth_append byte_bits_def)
  next
    case False
    then obtain p where p: "pos = p + 8" by (metis add.commute le_Suc_ex not_less)
    have "(p + 8) div 8 = Suc (p div 8)" by simp
    then show ?thesis using Cons p by (simp add: lz_bits_def nth_append)
  qed
qed simp

lemma rb_lz77_get_bit_eq:
  "rb_lz77_get_bit inp pos =
     (if pos < length inp * 8 then Inr (of_bool (lz_bits inp ! pos)) else Inl Overrun)"
proof -
  have "drop_bit n w AND 1 = (of_bool (bit w n) :: u8)" for n and w :: u8
    by (simp add: and_one_eq bit_iff_odd_drop_bit mod_2_eq_odd)
  moreover have "pos div 8 < length inp \<longleftrightarrow> pos < length inp * 8" by auto
  ultimately show ?thesis by (simp add: rb_lz77_get_bit_def nth_lz_bits)
qed

text \<open>The input begins with these bits from a position on.\<close>

primrec ahead :: "u8 list \<Rightarrow> nat \<Rightarrow> bool list \<Rightarrow> bool" where
  "ahead inp pos [] \<longleftrightarrow> True"
| "ahead inp pos (b # bs) \<longleftrightarrow> rb_lz77_get_bit inp pos = Inr (of_bool b) \<and> ahead inp (pos + 1) bs"

lemma ahead_append: "ahead inp pos (xs @ ys) \<longleftrightarrow> ahead inp pos xs \<and> ahead inp (pos + length xs) ys"
  by (induction xs arbitrary: pos) auto

lemma ahead_bound: "ahead inp pos code \<Longrightarrow> code \<noteq> [] \<Longrightarrow> pos + length code \<le> length inp * 8"
proof (induction code arbitrary: pos)
  case (Cons b bs)
  have "pos < length inp * 8" using Cons.prems by (auto simp: rb_lz77_get_bit_eq split: if_splits)
  moreover have "bs \<noteq> [] \<Longrightarrow> pos + 1 + length bs \<le> length inp * 8" using Cons.prems by (intro Cons.IH) simp_all
  ultimately show ?case by (cases "bs = []") simp_all
qed simp

lemma aheadI: "lz_bits inp = pre @ code @ rest \<Longrightarrow> ahead inp (length pre) code"
proof (induction code arbitrary: pre)
  case (Cons b bs)
  have "ahead inp (length (pre @ [b])) bs" using Cons.prems by (intro Cons.IH) simp
  moreover have "length pre < length inp * 8" using arg_cong [OF Cons.prems, of length] by simp
  ultimately show ?case using Cons.prems by (simp add: rb_lz77_get_bit_eq)
qed simp

lemma aheadD: "ahead inp pos code \<Longrightarrow> take (length code) (drop pos (lz_bits inp)) = code"
proof (induction code arbitrary: pos)
  case (Cons b bs)
  then have "pos < length (lz_bits inp)" "lz_bits inp ! pos = b"
    by (auto simp: rb_lz77_get_bit_eq split: if_splits)
  then have "drop pos (lz_bits inp) = b # drop (pos + 1) (lz_bits inp)"
    using Cons_nth_drop_Suc [of pos "lz_bits inp"] by simp
  then show ?case using Cons by simp
qed simp

lemma of_bool_u8 [simp]: "(of_bool b \<noteq> (0 :: u8)) = b"
  by simp

lemma get_bit_bool: "rb_lz77_get_bit inp pos = Inr b \<Longrightarrow> b = of_bool (b \<noteq> 0)"
  by (auto simp: rb_lz77_get_bit_eq split: if_splits)

section \<open>Counts\<close>

text \<open>
  The code of a count: ones as long as the rest is at least the weight of the next bit, a zero, and
  the rest in binary.
\<close>

definition binary :: "nat \<Rightarrow> nat \<Rightarrow> bool list" where
  "binary s v = map (bit v) (rev [0..<s])"

function count_code :: "nat \<Rightarrow> nat \<Rightarrow> bool list" where
  "count_code s v = (if v < 2 ^ s then False # binary s v else True # count_code (s + 1) (v - 2 ^ s))"
  by pat_completeness auto
termination
proof (relation "measure snd", goal_cases)
  case (2 s v)
  have "(0 :: nat) < 2 ^ s" by simp
  then show ?case using 2 by (simp only: in_measure snd_conv)
qed simp

declare count_code.simps [simp del]

lemma length_binary [simp]: "length (binary s v) = s"
  by (simp add: binary_def)

lemma binary_Suc: "binary (Suc s) v = bit v s # binary s v"
  by (simp add: binary_def)

lemma binary_cong: "take_bit s v = take_bit s w \<Longrightarrow> binary s v = binary s w"
  unfolding binary_def by (rule map_cong) (auto simp: bit_eq_iff bit_take_bit_iff)

lemma binary_set_bit: "binary s (push_bit s 1 + v) = binary s v"
  by (rule binary_cong) (simp add: take_bit_eq_mod push_bit_eq_mult)

lemma count_down:
  "ahead inp pos (binary (Suc s) v) \<Longrightarrow> pos + s < max_pos \<Longrightarrow> start \<le> pos \<Longrightarrow>
    decode_count_loop inp max_pos start pos s count False
      = Inr (count + take_bit (Suc s) v, pos - start + Suc s)"
proof (induction s arbitrary: pos count)
  case 0
  then show ?case
    by (subst decode_count_loop.simps) (simp add: binary_Suc Let_def take_bit_Suc_from_most)
next
  case (Suc s)
  have "ahead inp (pos + 1) (binary (Suc s) v)" using Suc.prems(1) by (simp add: binary_Suc)
  note IH = Suc.IH [OF this]
  have "rb_lz77_get_bit inp pos = Inr (of_bool (bit v (Suc s)))"
    using Suc.prems(1) by (simp add: binary_Suc [of "Suc s"])
  then show ?case
    using Suc.prems(2,3) IH take_bit_Suc_from_most [of "Suc s" v]
    by (subst decode_count_loop.simps) (simp add: Let_def push_bit_eq_mult Suc_diff_le)
qed

lemma count_down_converse:
  "decode_count_loop inp max_pos start pos s count False = Inr (c, n) \<Longrightarrow> start \<le> pos \<Longrightarrow>
    \<exists>v < 2 ^ Suc s. ahead inp pos (binary (Suc s) v) \<and> c = count + v \<and> n = pos - start + Suc s
      \<and> pos + s < max_pos"
proof (induction s arbitrary: pos count)
  case 0
  then obtain b where b: "pos < max_pos" "rb_lz77_get_bit inp pos = Inr b"
      "c = count + of_bool (b \<noteq> 0)" "n = pos - start + 1"
    by (subst (asm) decode_count_loop.simps) (auto simp: Let_def split: if_splits sum.splits)
  then show ?case
    using get_bit_bool [OF b(2)] 0
    by (intro exI [of _ "of_bool (b \<noteq> 0)"]) (auto simp: binary_Suc binary_def bit_iff_odd)
next
  case (Suc s)
  then obtain b where b: "pos < max_pos" "rb_lz77_get_bit inp pos = Inr b"
      "decode_count_loop inp max_pos start (pos + 1) s (count + (if b \<noteq> 0 then push_bit (Suc s) 1 else 0)) False
         = Inr (c, n)"
    by (subst (asm) decode_count_loop.simps) (auto simp: Let_def split: if_splits sum.splits)
  obtain v where v: "v < 2 ^ Suc s" "ahead inp (pos + 1) (binary (Suc s) v)"
      "c = count + (if b \<noteq> 0 then push_bit (Suc s) 1 else 0) + v" "n = pos + 1 - start + Suc s"
      "pos + 1 + s < max_pos"
    using Suc.IH [OF b(3)] Suc.prems(2) by auto
  have nb: "\<not> bit v (Suc s)" using v(1) by (simp add: bit_iff_odd)
  have sb: "bit (push_bit (Suc s) 1 + v) (Suc s)"
    using v(1) by (simp add: bit_iff_odd push_bit_eq_mult div_add_self1 del: power_Suc)
  show ?case
  proof (cases "b \<noteq> 0")
    case True
    have "push_bit (Suc s) 1 + v < 2 ^ Suc (Suc s)" using v(1) by (simp add: push_bit_eq_mult)
    moreover have "ahead inp pos (binary (Suc (Suc s)) (push_bit (Suc s) 1 + v))"
      using get_bit_bool [OF b(2)] b(2) v(2) sb True
      by (simp only: binary_Suc [of "Suc s"] ahead.simps binary_set_bit) simp
    ultimately show ?thesis using v(3,4,5) True Suc.prems(2) by (intro exI [of _ "push_bit (Suc s) 1 + v"]) simp
  next
    case False
    then have "ahead inp pos (binary (Suc (Suc s)) v)"
      using b(2) v(2) nb by (simp only: binary_Suc [of "Suc s"] ahead.simps) simp
    then show ?thesis using v False Suc.prems(2) by (intro exI [of _ v]) auto
  qed
qed

lemma count_code_length: "length (count_code s v) > s"
proof (induction s v rule: count_code.induct)
  case (1 s v)
  show ?case
  proof (cases "v < 2 ^ s")
    case True
    then show ?thesis by (subst count_code.simps) simp
  next
    case False
    from "1.IH" [OF this] show ?thesis by (subst count_code.simps) (simp add: False)
  qed
qed

lemma count_up:
  "ahead inp pos (count_code s v) \<Longrightarrow> pos + length (count_code s v) \<le> max_pos \<Longrightarrow> start \<le> pos \<Longrightarrow>
    decode_count_loop inp max_pos start pos s count True
      = Inr (count + v, pos - start + length (count_code s v))"
proof (induction s v arbitrary: pos count rule: count_code.induct)
  case (1 s v)
  show ?case
  proof (cases "v < 2 ^ s")
    case True
    have code: "count_code s v = False # binary s v" by (subst count_code.simps) (simp add: True)
    then have b: "rb_lz77_get_bit inp pos = Inr 0" and a: "ahead inp (pos + 1) (binary s v)"
      using "1.prems"(1) by simp_all
    have bound: "pos + Suc s \<le> max_pos" using "1.prems"(2) unfolding code by simp
    show ?thesis
    proof (cases s)
      case 0
      then show ?thesis
        using b "1.prems"(2) unfolding code by (subst decode_count_loop.simps) (use True in simp)
    next
      case (Suc r)
      have "decode_count_loop inp max_pos start (pos + 1) r count False
          = Inr (count + take_bit (Suc r) v, pos + 1 - start + Suc r)"
        using bound "1.prems"(3) a Suc by (intro count_down) simp_all
      moreover have "take_bit (Suc r) v = v" using True Suc by (simp add: take_bit_nat_eq_self)
      ultimately show ?thesis
        using b bound "1.prems"(3) unfolding code
        by (subst decode_count_loop.simps) (simp add: Suc Suc_diff_le)
    qed
  next
    case False
    have code: "count_code s v = True # count_code (s + 1) (v - 2 ^ s)"
      by (subst count_code.simps) (simp add: False)
    have "decode_count_loop inp max_pos start (pos + 1) (s + 1) (count + 2 ^ s) True
        = Inr (count + 2 ^ s + (v - 2 ^ s), pos + 1 - start + length (count_code (s + 1) (v - 2 ^ s)))"
      using "1.prems" by (intro "1.IH" [OF False]) (simp_all add: code)
    moreover have "rb_lz77_get_bit inp pos = Inr 1" "pos < max_pos"
      using "1.prems"(1,2) by (simp_all add: code)
    ultimately show ?thesis
      using False "1.prems"(3) by (subst decode_count_loop.simps) (simp add: code push_bit_eq_mult Suc_diff_le)
  qed
qed

lemma count_up_converse:
  "decode_count_loop inp max_pos start pos s count up = Inr (c, n) \<Longrightarrow> up \<Longrightarrow> start \<le> pos \<Longrightarrow>
    \<exists>v. ahead inp pos (count_code s v) \<and> c = count + v \<and> n = pos - start + length (count_code s v)
      \<and> pos + length (count_code s v) \<le> max_pos"
proof (induction inp max_pos start pos s count up rule: decode_count_loop.induct)
  case (1 inp max_pos start pos s count up)
  then have run: "\<not> max_pos \<le> pos" by (subst (asm) decode_count_loop.simps) (auto split: if_splits)
  then obtain b where b: "rb_lz77_get_bit inp pos = Inr b"
    using "1.prems"(1) by (subst (asm) decode_count_loop.simps) (auto split: sum.splits)
  show ?case
  proof (cases "b \<noteq> 0")
    case True
    have up: "(up \<and> b \<noteq> 0) = True" using True "1.prems"(2) by simp
    have "decode_count_loop inp max_pos start (pos + 1) (s + 1) (count + push_bit s 1) True = Inr (c, n)"
      using "1.prems"(1,2) run b True by (subst (asm) decode_count_loop.simps) (simp add: Let_def)
    then have "\<exists>v. ahead inp (pos + 1) (count_code (s + 1) v) \<and> c = count + push_bit s 1 + v
        \<and> n = pos + 1 - start + length (count_code (s + 1) v) \<and> pos + 1 + length (count_code (s + 1) v) \<le> max_pos"
      using "1.IH"(1) [OF run b refl refl] "1.prems"(3) True up by simp
    then obtain v where v: "ahead inp (pos + 1) (count_code (s + 1) v)" "c = count + push_bit s 1 + v"
        "n = pos + 1 - start + length (count_code (s + 1) v)" "pos + 1 + length (count_code (s + 1) v) \<le> max_pos"
      by blast
    have "count_code s (push_bit s 1 + v) = True # count_code (s + 1) v"
      by (subst count_code.simps) (simp add: push_bit_eq_mult)
    then show ?thesis
      using v b get_bit_bool [OF b] True "1.prems"(3) by (intro exI [of _ "push_bit s 1 + v"]) simp
  next
    case False
    show ?thesis
    proof (cases s)
      case 0
      then have "c = count" "n = pos - start + 1"
        using "1.prems"(1) run b False by (subst (asm) decode_count_loop.simps; simp)+
      moreover have "count_code s 0 = [False]" by (subst count_code.simps) (simp add: 0 binary_def)
      ultimately show ?thesis using b run False by (intro exI [of _ 0]) simp
    next
      case (Suc r)
      have "decode_count_loop inp max_pos start (pos + 1) r count False = Inr (c, n)"
        using "1.prems"(1) run b False Suc by (subst (asm) decode_count_loop.simps) simp
      then obtain v where v: "v < 2 ^ Suc r" "ahead inp (pos + 1) (binary (Suc r) v)" "c = count + v"
          "n = pos + 1 - start + Suc r" "pos + 1 + r < max_pos"
        using count_down_converse "1.prems"(3) by (metis trans_le_add1)
      then have "count_code s v = False # binary s v" by (subst count_code.simps) (simp add: Suc)
      then show ?thesis using v b False Suc "1.prems"(3) by (intro exI [of _ v]) simp
    qed
  qed
qed

lemma rb_count_iff:
  "rb_lz77_decode_count inp pos shift count max_bits = Inr (c, n) \<longleftrightarrow>
     count \<le> c \<and> n = length (count_code shift (c - count)) \<and> n \<le> max_bits
     \<and> ahead inp pos (count_code shift (c - count))"
proof
  assume "rb_lz77_decode_count inp pos shift count max_bits = Inr (c, n)"
  from count_up_converse [OF this [unfolded rb_lz77_decode_count_def]]
  show "count \<le> c \<and> n = length (count_code shift (c - count)) \<and> n \<le> max_bits
     \<and> ahead inp pos (count_code shift (c - count))" by auto
next
  assume a: "count \<le> c \<and> n = length (count_code shift (c - count)) \<and> n \<le> max_bits
     \<and> ahead inp pos (count_code shift (c - count))"
  have "count_code shift (c - count) \<noteq> []" using count_code_length [of shift "c - count"] by auto
  then have "pos + n \<le> length inp * 8" using a ahead_bound by blast
  then show "rb_lz77_decode_count inp pos shift count max_bits = Inr (c, n)"
    using a count_up [of inp pos shift "c - count" "min (pos + max_bits) (length inp * 8)" pos count]
    by (simp add: rb_lz77_decode_count_def)
qed

text \<open>
  The counter code is a prefix code, and the decoder reads exactly it: a count is returned when
  and only when the input goes on with the code of its excess over the initial count, of at most
  \<open>max_bits\<close> bits.
\<close>

theorem rb_lz77_decode_count_iff:
  "rb_lz77_decode_count inp pos shift count max_bits = Inr (c, n) \<longleftrightarrow>
     count \<le> c \<and> n = length (count_code shift (c - count)) \<and> n \<le> max_bits
     \<and> ahead inp pos (count_code shift (c - count))"
  by (rule rb_count_iff)

lemma count_below: "v < 2 ^ length (count_code s v)"
proof (induction s v rule: count_code.induct)
  case (1 s v)
  show ?case
  proof (cases "v < 2 ^ s")
    case True
    then have "length (count_code s v) = Suc s" by (subst count_code.simps) simp
    then show ?thesis using True by simp
  next
    case False
    define n where "n = length (count_code (s + 1) (v - 2 ^ s))"
    have "length (count_code s v) = Suc n" by (subst count_code.simps) (simp add: False n_def)
    moreover have "v - 2 ^ s < 2 ^ n" using "1.IH" [OF False] by (simp add: n_def)
    moreover have "(2 :: nat) ^ s \<le> 2 ^ n"
      using count_code_length [of "s + 1" "v - 2 ^ s"] by (intro power_increasing) (simp_all add: n_def)
    ultimately have "v < 2 ^ n + 2 ^ n" using False by linarith
    then show ?thesis using \<open>length (count_code s v) = Suc n\<close> by simp
  qed
qed

lemma decode_count_small:
  assumes "rb_lz77_decode_count inp pos shift count MIKRO_LZ77_MAX_COUNT_BIT_LEN = Inr (c, n)"
  shows "c < count + 2 ^ 27 \<and> n \<le> 27"
proof -
  have c: "count \<le> c" "length (count_code shift (c - count)) = n" "n \<le> 27"
    using assms rb_count_iff by auto
  have "c - count < 2 ^ n" using count_below [of "c - count" shift] c(2) by simp
  also have "\<dots> \<le> 2 ^ 27" using c(3) by (intro power_increasing) simp_all
  finally show ?thesis using c by linarith
qed

section \<open>Bytes\<close>

definition literal_bits :: "u8 \<Rightarrow> bool list" where
  "literal_bits b = map (bit b) (rev [0..<8])"

lemma length_literal_bits [simp]: "length (literal_bits b) = 8"
  by (simp add: literal_bits_def)

lemma upt8: "[0..<8] = [0, 1, 2, 3, 4, 5, 6, 7 :: nat]"
  by (simp add: upt_rec)

lemma get_byte_of_bits:
  assumes "ahead inp pos [b0, b1, b2, b3, b4, b5, b6, b7]"
  shows "rb_lz77_get_byte inp pos = Inr (horner_sum of_bool 2 [b7, b6, b5, b4, b3, b2, b1, b0])"
proof -
  have g: "rb_lz77_get_bit inp (pos + 0) = Inr (of_bool b0)" "rb_lz77_get_bit inp (pos + 1) = Inr (of_bool b1)"
    "rb_lz77_get_bit inp (pos + 2) = Inr (of_bool b2)" "rb_lz77_get_bit inp (pos + 3) = Inr (of_bool b3)"
    "rb_lz77_get_bit inp (pos + 4) = Inr (of_bool b4)" "rb_lz77_get_bit inp (pos + 5) = Inr (of_bool b5)"
    "rb_lz77_get_bit inp (pos + 6) = Inr (of_bool b6)" "rb_lz77_get_bit inp (pos + 7) = Inr (of_bool b7)"
    using assms by (simp_all add: numeral_eq_Suc)
  show ?thesis
    unfolding rb_lz77_get_byte_def upt8 get_byte_loop.simps g sum.case
    by (simp add: push_bit_eq_mult algebra_simps)
qed

lemma get_byte_bits:
  assumes "rb_lz77_get_byte inp pos = Inr b"
  shows "\<exists>b0 b1 b2 b3 b4 b5 b6 b7. ahead inp pos [b0, b1, b2, b3, b4, b5, b6, b7]"
proof -
  have "pos + 7 < length inp * 8"
    using assms by (auto simp: rb_lz77_get_byte_def upt8 rb_lz77_get_bit_eq split: if_splits)
  define bit_at where "bit_at i = lz_bits inp ! (pos + i)" for i
  have "ahead inp pos [bit_at 0, bit_at 1, bit_at 2, bit_at 3, bit_at 4, bit_at 5, bit_at 6, bit_at 7]"
    using \<open>pos + 7 < length inp * 8\<close> by (simp add: rb_lz77_get_bit_eq bit_at_def numeral_eq_Suc)
  then show ?thesis by blast
qed

lemma get_byte_iff: "rb_lz77_get_byte inp pos = Inr b \<longleftrightarrow> ahead inp pos (literal_bits b)"
proof
  have up: "rev [0..<8] = [7, 6, 5, 4, 3, 2, 1, 0 :: nat]" "[0, 1, 2, 3, 4, 5, 6, 7] = [0..<8 :: nat]"
    by (simp_all add: upt_rec)
  show "ahead inp pos (literal_bits b)" if r: "rb_lz77_get_byte inp pos = Inr b"
  proof -
    obtain b0 b1 b2 b3 b4 b5 b6 b7 where a: "ahead inp pos [b0, b1, b2, b3, b4, b5, b6, b7]"
      using get_byte_bits [OF r] by blast
    have b: "b = horner_sum of_bool 2 [b7, b6, b5, b4, b3, b2, b1, b0]"
      using get_byte_of_bits [OF a] r by simp
    have "literal_bits b = [b0, b1, b2, b3, b4, b5, b6, b7]"
      unfolding b literal_bits_def up by (simp only: list.map bit_horner_sum_bit_iff) simp
    then show ?thesis using a by simp
  qed
  show "rb_lz77_get_byte inp pos = Inr b" if "ahead inp pos (literal_bits b)"
  proof -
    have "rb_lz77_get_byte inp pos = Inr (horner_sum of_bool 2
        [bit b 0, bit b 1, bit b 2, bit b 3, bit b 4, bit b 5, bit b 6, bit b 7])"
      using that unfolding literal_bits_def up list.map by (rule get_byte_of_bits)
    also have "[bit b 0, bit b 1, bit b 2, bit b 3, bit b 4, bit b 5, bit b 6, bit b 7] = map (bit b) [0..<8]"
      by (simp add: upt8)
    finally show ?thesis by (simp add: horner_sum_bit_eq_take_bit take_bit_word_eq_self)
  qed
qed

lemma copy_literals_iff:
  "copy_literals inp n pos out = (Inr pos', out') \<longleftrightarrow>
     (\<exists>bs. length bs = n \<and> ahead inp pos (concat (map literal_bits bs)) \<and> pos' = pos + n * 8 \<and> out' = out @ bs)"
proof (induction n arbitrary: pos out)
  case 0
  then show ?case by auto
next
  case (Suc n)
  show ?case
  proof (cases "rb_lz77_get_byte inp pos")
    case (Inl e)
    then have "\<not> ahead inp pos (literal_bits b)" for b by (simp flip: get_byte_iff)
    then show ?thesis using Inl by (auto simp: length_Suc_conv ahead_append)
  next
    case (Inr b)
    then have "ahead inp pos (literal_bits c) \<longleftrightarrow> c = b" for c by (auto simp flip: get_byte_iff)
    then show ?thesis using Inr Suc by (auto simp: length_Suc_conv ahead_append)
  qed
qed

section \<open>Copies\<close>

text \<open>The copy of LZ77, byte by byte: each byte is the one \<open>offset\<close> back, which may be new itself.\<close>

primrec lz_copy :: "nat \<Rightarrow> nat \<Rightarrow> u8 list \<Rightarrow> u8 list" where
  "lz_copy offset 0 out = out"
| "lz_copy offset (Suc n) out = lz_copy offset n (out @ [out ! (length out - offset)])"

lemma lz_copy_add: "lz_copy offset (m + n) out = lz_copy offset n (lz_copy offset m out)"
  by (induction m arbitrary: out) simp_all

lemma lz_copy_piece:
  "n \<le> offset \<Longrightarrow> offset \<le> length out \<Longrightarrow> lz_copy offset n out = out @ take n (drop (length out - offset) out)"
proof (induction n)
  case (Suc n)
  define ds where "ds = drop (length out - offset) out"
  have len: "length ds = offset" using Suc.prems by (simp add: ds_def)
  have "lz_copy offset (Suc n) out = lz_copy offset 1 (lz_copy offset n out)"
    using lz_copy_add [of offset n 1 out] by simp
  also have "\<dots> = lz_copy offset 1 (out @ take n ds)" using Suc by (simp add: ds_def)
  also have "\<dots> = out @ take n ds @ [(out @ take n ds) ! (length out + n - offset)]"
    using Suc.prems len by simp
  finally have "lz_copy offset (Suc n) out = out @ take n ds @ [(out @ take n ds) ! (length out + n - offset)]" .
  moreover have "(out @ take n ds) ! (length out + n - offset) = ds ! n"
  proof -
    obtain k where k: "length out = k + offset" using Suc.prems by (metis le_Suc_ex add.commute)
    then have "length out + n - offset = k + n" "length out - offset = k" by simp_all
    moreover have "k + n < length out" using k Suc.prems by linarith
    ultimately show ?thesis using k by (simp only: nth_append if_True ds_def) simp
  qed
  moreover have "take (Suc n) ds = take n ds @ [ds ! n]"
    using Suc.prems len by (simp only: take_Suc_conv_app_nth)
  ultimately show ?case unfolding ds_def [symmetric] by simp
qed simp

lemma copy_match_eq:
  "0 < offset \<Longrightarrow> offset \<le> length out \<Longrightarrow> copy_match offset n out = lz_copy offset n out"
proof (induction offset n out rule: copy_match.induct)
  case (1 offset n out)
  show ?case
  proof (cases "offset < n")
    case True
    define piece where "piece = take offset (drop (length out - offset) out)"
    have "copy_match offset n out = copy_match offset (n - offset) (out @ piece)"
      using True 1 by (subst copy_match.simps) (simp add: piece_def)
    also have "\<dots> = lz_copy offset (n - offset) (out @ piece)"
      unfolding piece_def using True "1.prems" by (intro "1.IH") simp_all
    also have "out @ piece = lz_copy offset offset out"
      using "1.prems" by (simp add: piece_def lz_copy_piece)
    finally show ?thesis using True lz_copy_add [of offset offset "n - offset" out] by simp
  next
    case False
    then show ?thesis using "1.prems" by (subst copy_match.simps) (simp add: lz_copy_piece)
  qed
qed

text \<open>
  The copy of a match in pieces, with \<open>memcpy\<close> on ranges that do not overlap, is the copy byte by
  byte of LZ77, also where a match reads bytes that it has itself written.
\<close>

theorem copy_match_is_bytewise:
  assumes "0 < offset" and "offset \<le> length out"
  shows "copy_match offset n out = lz_copy offset n out"
  using assms by (rule copy_match_eq)

theorem copy_match_is_bytewise_witness: "copy_match 2 5 [9, 1, 2] = [9, 1, 2, 1, 2, 1, 2, 1]"
  using copy_match_is_bytewise [of 2 "[9, 1, 2]" 5] by (simp add: eval_nat_numeral)

section \<open>Token streams\<close>

text \<open>An instruction with its operands, as it is written in the input.\<close>

fun head_code :: "rb_lz77_instruction \<Rightarrow> nat \<Rightarrow> nat \<Rightarrow> bool list" where
  "head_code INSTR_LITERAL_BYTE ofs len = [False]"
| "head_code INSTR_PREVIOUS_OFFSET ofs len = [True, False] @ count_code 0 (len - 1)"
| "head_code INSTR_LONG ofs len = [True, True] @ count_code 4 ofs @
     (if ofs = 0 then count_code 4 (len - 12) else count_code 0 (len - 2))"
| "head_code INSTR_ERROR ofs len = []"

definition count_ok :: "nat \<Rightarrow> nat \<Rightarrow> bool" where
  "count_ok shift v \<longleftrightarrow> length (count_code shift v) \<le> MIKRO_LZ77_MAX_COUNT_BIT_LEN"

fun head_ok :: "nat \<Rightarrow> rb_lz77_instruction \<Rightarrow> nat \<Rightarrow> nat \<Rightarrow> bool" where
  "head_ok prev INSTR_LITERAL_BYTE ofs len \<longleftrightarrow> ofs = 0 \<and> len = 1"
| "head_ok prev INSTR_PREVIOUS_OFFSET ofs len \<longleftrightarrow> ofs = prev \<and> 1 \<le> len \<and> count_ok 0 (len - 1)"
| "head_ok prev INSTR_LONG ofs len \<longleftrightarrow> count_ok 4 ofs \<and>
     (if ofs = 0 then 12 \<le> len \<and> count_ok 4 (len - 12) else 2 \<le> len \<and> count_ok 0 (len - 2))"
| "head_ok prev INSTR_ERROR ofs len \<longleftrightarrow> False"

lemma decode_instruction_iff:
  "rb_lz77_decode_instruction inp pos = Inr (i, n) \<longleftrightarrow>
     (i = INSTR_LITERAL_BYTE \<and> n = 1 \<and> ahead inp pos [False] \<or>
      i = INSTR_PREVIOUS_OFFSET \<and> n = 2 \<and> ahead inp pos [True, False] \<or>
      i = INSTR_LONG \<and> n = 2 \<and> ahead inp pos [True, True])"
  by (auto simp: rb_lz77_decode_instruction_def rb_lz77_get_bit_eq split: if_splits)

lemma count_iff:
  "rb_lz77_decode_count inp pos shift count MIKRO_LZ77_MAX_COUNT_BIT_LEN = Inr (c, n) \<longleftrightarrow>
     count \<le> c \<and> n = length (count_code shift (c - count)) \<and> count_ok shift (c - count)
     \<and> ahead inp pos (count_code shift (c - count))"
  unfolding rb_count_iff count_ok_def by auto

lemma operators_iff:
  "rb_lz77_decode_instruction_operators inp pos prev = Inr opc \<longleftrightarrow>
     head_ok prev (instruction opc) (op_offset opc) (op_length opc)
     \<and> ahead inp pos (head_code (instruction opc) (op_offset opc) (op_length opc))
     \<and> bits_used opc = length (head_code (instruction opc) (op_offset opc) (op_length opc))"
  (is "?l \<longleftrightarrow> ?r")
proof -
  obtain i ofs len used where opc:
    "opc = \<lparr> instruction = i, op_offset = ofs, op_length = len, bits_used = used \<rparr>" by (cases opc)
  note D = rb_lz77_decode_instruction_operators_def decode_instruction_iff count_iff
  show ?thesis
  proof
    assume ?l
    then show ?r
      by (auto simp: D ahead_append split: sum.splits rb_lz77_instruction.splits if_splits)
  next
    assume r: ?r
    show ?l
    proof (cases i)
      case INSTR_ERROR
      then show ?thesis using r opc by simp
    next
      case INSTR_LITERAL_BYTE
      then have "rb_lz77_decode_instruction inp pos = Inr (INSTR_LITERAL_BYTE, 1)"
        using r opc by (simp add: decode_instruction_iff)
      then show ?thesis using INSTR_LITERAL_BYTE r opc by (simp add: rb_lz77_decode_instruction_operators_def)
    next
      case INSTR_PREVIOUS_OFFSET
      then have "rb_lz77_decode_instruction inp pos = Inr (INSTR_PREVIOUS_OFFSET, 2)"
        using r opc by (simp add: decode_instruction_iff)
      moreover have "rb_lz77_decode_count inp (pos + 2) 0 1 MIKRO_LZ77_MAX_COUNT_BIT_LEN
          = Inr (len, length (count_code 0 (len - 1)))"
        using r opc INSTR_PREVIOUS_OFFSET by (simp add: count_iff)
      ultimately show ?thesis
        using INSTR_PREVIOUS_OFFSET r opc by (simp add: rb_lz77_decode_instruction_operators_def)
    next
      case INSTR_LONG
      define n where "n = length (count_code 4 ofs)"
      have "rb_lz77_decode_instruction inp pos = Inr (INSTR_LONG, 2)"
        using INSTR_LONG r opc by (simp add: decode_instruction_iff)
      moreover have "rb_lz77_decode_count inp (pos + 2) 4 0 MIKRO_LZ77_MAX_COUNT_BIT_LEN = Inr (ofs, n)"
        using r opc INSTR_LONG by (simp add: count_iff ahead_append n_def)
      moreover have "rb_lz77_decode_count inp (pos + (2 + n)) (if ofs = 0 then 4 else 0)
          (if ofs = 0 then 12 else 2) MIKRO_LZ77_MAX_COUNT_BIT_LEN
          = Inr (len, length (if ofs = 0 then count_code 4 (len - 12) else count_code 0 (len - 2)))"
        using r opc INSTR_LONG by (auto simp add: count_iff ahead_append n_def)
      ultimately show ?thesis
        using INSTR_LONG r opc by (simp add: rb_lz77_decode_instruction_operators_def n_def)
    qed
  qed
qed

text \<open>
  What a stream says: bytes, one or many, and matches, at an offset of their own or at the last one.
  The state is the output and the last offset.
\<close>

datatype lz_token = Literal u8 | Literals "u8 list" | Match nat nat | Again nat

fun token_code :: "lz_token \<Rightarrow> bool list" where
  "token_code (Literal b) = head_code INSTR_LITERAL_BYTE 0 1 @ literal_bits b"
| "token_code (Literals bs) = head_code INSTR_LONG 0 (length bs) @ concat (map literal_bits bs)"
| "token_code (Match ofs len) = head_code INSTR_LONG ofs len"
| "token_code (Again len) = head_code INSTR_PREVIOUS_OFFSET 0 len"

fun token_ok :: "u8 list \<times> nat \<Rightarrow> lz_token \<Rightarrow> bool" where
  "token_ok (out, prev) (Literal b) \<longleftrightarrow> True"
| "token_ok (out, prev) (Literals bs) \<longleftrightarrow> 12 \<le> length bs \<and> count_ok 4 (length bs - 12)"
| "token_ok (out, prev) (Match ofs len) \<longleftrightarrow>
     0 < ofs \<and> ofs \<le> length out \<and> 2 \<le> len \<and> count_ok 4 ofs \<and> count_ok 0 (len - 2)"
| "token_ok (out, prev) (Again len) \<longleftrightarrow> 0 < prev \<and> prev \<le> length out \<and> 1 \<le> len \<and> count_ok 0 (len - 1)"

fun token_apply :: "u8 list \<times> nat \<Rightarrow> lz_token \<Rightarrow> u8 list \<times> nat" where
  "token_apply (out, prev) (Literal b) = (out @ [b], prev)"
| "token_apply (out, prev) (Literals bs) = (out @ bs, prev)"
| "token_apply (out, prev) (Match ofs len) = (lz_copy ofs len out, ofs)"
| "token_apply (out, prev) (Again len) = (lz_copy prev len out, prev)"

primrec tokens_ok :: "u8 list \<times> nat \<Rightarrow> lz_token list \<Rightarrow> bool" where
  "tokens_ok s [] \<longleftrightarrow> True"
| "tokens_ok s (t # ts) \<longleftrightarrow> token_ok s t \<and> tokens_ok (token_apply s t) ts"

definition end_code :: "bool list" where
  "end_code = head_code INSTR_LONG 0 12"

fun twelve :: "lz_token \<Rightarrow> bool" where
  "twelve (Literals bs) \<longleftrightarrow> length bs = 12"
| "twelve _ \<longleftrightarrow> False"

lemma length_lz_copy [simp]: "length (lz_copy ofs n out) = length out + n"
  by (induction n arbitrary: out) simp_all

lemma count_ok_0 [simp]: "count_ok 4 0"
  by (simp add: count_ok_def count_code.simps [of 4 0])

lemma token_apply_longer: "length (fst s) \<le> length (fst (token_apply s t))"
  by (cases s; cases t) simp_all

lemma tokens_longer: "length (fst s) \<le> length (fst (foldl token_apply s ts))"
proof (induction ts arbitrary: s)
  case (Cons t ts)
  show ?case using token_apply_longer [of s t] Cons.IH [of "token_apply s t"] by simp
qed simp

lemma token_code_nonempty: "token_code t \<noteq> []"
  by (cases t) simp_all

lemma step_token:
  assumes ok: "token_ok (out, prev) t" and a: "ahead inp pos (token_code t)" and nt: "\<not> twelve t"
    and ap: "token_apply (out, prev) t = (out', prev')" and room: "length out' \<le> out_len"
  shows "decompress_loop inp out_len out pos prev
    = decompress_loop inp out_len out' (pos + length (token_code t)) prev'"
proof -
  have "length out \<le> length out'" using token_apply_longer [of "(out, prev)" t] ap by simp
  then have lo: "\<not> length out > out_len" using room by simp
  have lp: "\<not> pos > length inp * 8"
    using ahead_bound [OF a token_code_nonempty] by simp
  show ?thesis
  proof (cases t)
    case (Literal b)
    have ops: "rb_lz77_decode_instruction_operators inp pos prev = Inr \<lparr> instruction = INSTR_LITERAL_BYTE,
        op_offset = 0, op_length = 1, bits_used = 1 \<rparr>"
      using a by (simp add: operators_iff Literal)
    have "copy_literals inp 1 (pos + 1) out = (Inr (pos + 1 + 1 * 8), out @ [b])"
      using a unfolding copy_literals_iff by (intro exI [of _ "[b]"]) (simp add: Literal)
    then show ?thesis
      using lo lp ops ap by (subst decompress_loop.simps) (simp add: Literal add.commute)
  next
    case (Literals bs)
    define n where "n = length (head_code INSTR_LONG 0 (length bs))"
    have a': "ahead inp pos (head_code INSTR_LONG 0 (length bs))" "ahead inp (pos + n) (concat (map literal_bits bs))"
      using a by (simp_all only: Literals token_code.simps ahead_append n_def)
    have ops: "rb_lz77_decode_instruction_operators inp pos prev = Inr \<lparr> instruction = INSTR_LONG,
        op_offset = 0, op_length = length bs, bits_used = n \<rparr>"
      using a'(1) ok by (simp add: operators_iff Literals n_def)
    have c: "copy_literals inp (length bs) (pos + n) out = (Inr (pos + n + length bs * 8), out @ bs)"
      using a'(2) unfolding copy_literals_iff by blast
    have l: "length (token_code t) = n + length bs * 8"
      by (simp add: Literals n_def length_concat comp_def sum_list_triv)
    have "length bs \<noteq> 12" using nt Literals by simp
    then show ?thesis
      using lo lp ops c ap l by (subst decompress_loop.simps) (simp add: Literals add.assoc)
  next
    case (Match ofs len)
    have "rb_lz77_decode_instruction_operators inp pos prev = Inr \<lparr> instruction = INSTR_LONG,
        op_offset = ofs, op_length = len, bits_used = length (token_code t) \<rparr>"
      using a ok by (simp add: operators_iff Match)
    then show ?thesis
      using lo lp ok ap room
      by (subst decompress_loop.simps) (auto simp: Match copy_match_eq)
  next
    case (Again len)
    have "rb_lz77_decode_instruction_operators inp pos prev = Inr \<lparr> instruction = INSTR_PREVIOUS_OFFSET,
        op_offset = prev, op_length = len, bits_used = length (token_code t) \<rparr>"
      using a ok by (simp add: operators_iff Again)
    then show ?thesis
      using lo lp ok ap room
      by (subst decompress_loop.simps) (auto simp: Again copy_match_eq)
  qed
qed

lemma steps_tokens:
  "tokens_ok (out, prev) ts \<Longrightarrow> ahead inp pos (concat (map token_code ts)) \<Longrightarrow> \<not> list_ex twelve ts \<Longrightarrow>
    length (fst (foldl token_apply (out, prev) ts)) \<le> out_len \<Longrightarrow>
    \<exists>prev'. decompress_loop inp out_len out pos prev
      = decompress_loop inp out_len (fst (foldl token_apply (out, prev) ts))
          (pos + length (concat (map token_code ts))) prev'"
proof (induction ts arbitrary: out prev pos)
  case (Cons t ts)
  obtain out' prev' where ap: "token_apply (out, prev) t = (out', prev')" by (cases "token_apply (out, prev) t")
  have room: "length out' \<le> out_len"
    using tokens_longer [of "(out', prev')" ts] Cons.prems(4) ap by simp
  have "decompress_loop inp out_len out pos prev
      = decompress_loop inp out_len out' (pos + length (token_code t)) prev'"
    using Cons.prems by (intro step_token [OF _ _ _ ap room]) (simp_all add: ahead_append)
  moreover have "\<exists>q. decompress_loop inp out_len out' (pos + length (token_code t)) prev'
      = decompress_loop inp out_len (fst (foldl token_apply (out', prev') ts))
          (pos + length (token_code t) + length (concat (map token_code ts))) q"
    using Cons.prems ap by (intro Cons.IH) (simp_all add: ahead_append)
  ultimately show ?case using ap by (simp add: add.assoc)
qed auto

lemma end_stops:
  assumes "ahead inp pos end_code" and "length out \<le> out_len"
    and "length inp < pos + length end_code + 96"
  shows "decompress_loop inp out_len out pos prev = (Inr (length out), out)"
proof -
  have "\<not> pos > length inp * 8" using ahead_bound [OF assms(1)] by (simp add: end_code_def)
  moreover have "rb_lz77_decode_instruction_operators inp pos prev = Inr \<lparr> instruction = INSTR_LONG,
      op_offset = 0, op_length = 12, bits_used = length end_code \<rparr>"
    using assms(1) by (simp add: operators_iff end_code_def)
  ultimately show ?thesis using assms(2,3) by (subst decompress_loop.simps) simp
qed


text \<open>The input from \<open>pos\<close> on is a stream that leads from the output so far to this result.\<close>

definition parsed :: "u8 list \<Rightarrow> nat \<Rightarrow> u8 list \<Rightarrow> nat \<Rightarrow> nat \<Rightarrow> nat \<Rightarrow> u8 list \<Rightarrow> bool" where
  "parsed inp out_len out pos prev n res \<longleftrightarrow> n = length res \<and> n \<le> out_len \<and>
     (\<exists>ts. tokens_ok (out, prev) ts \<and> ahead inp pos (concat (map token_code ts) @ end_code)
       \<and> res = fst (foldl token_apply (out, prev) ts))"

lemma parsed_Cons:
  assumes "token_ok (out, prev) t" and "ahead inp pos (token_code t)" and "token_apply (out, prev) t = (out', prev')"
    and "parsed inp out_len out' (pos + length (token_code t)) prev' n res"
  shows "parsed inp out_len out pos prev n res"
proof -
  obtain ts where "n = length res" "n \<le> out_len" "tokens_ok (out', prev') ts"
      "ahead inp (pos + length (token_code t)) (concat (map token_code ts) @ end_code)"
      "res = fst (foldl token_apply (out', prev') ts)"
    using assms(4) unfolding parsed_def by blast
  then show ?thesis
    unfolding parsed_def using assms(1,2,3) by (intro conjI exI [of _ "t # ts"]) (simp_all add: ahead_append)
qed

lemma decompress_loop_parsed:
  "decompress_loop inp out_len out pos prev = (Inr n, res) \<Longrightarrow> parsed inp out_len out pos prev n res"
proof (induction inp out_len out pos prev rule: decompress_loop.induct)
  case (1 inp out_len out pos prev)
  have c1: "\<not> out_len < length out" and c2: "\<not> length inp * 8 < pos"
    using "1.prems" by (auto simp: decompress_loop.simps [of inp out_len out] split: if_splits)
  obtain opc where ops: "rb_lz77_decode_instruction_operators inp pos prev = Inr opc"
    using "1.prems" c1 c2 by (auto simp: decompress_loop.simps [of inp out_len out] split: sum.splits)
  let ?i = "instruction opc" and ?o = "op_offset opc" and ?l = "op_length opc"
  have h: "head_ok prev ?i ?o ?l" "ahead inp pos (head_code ?i ?o ?l)" "bits_used opc = length (head_code ?i ?o ?l)"
    using ops unfolding operators_iff by simp_all
  have ne: "?i \<noteq> INSTR_ERROR" using h(1) by auto
  show ?case
  proof (cases "?i \<noteq> INSTR_PREVIOUS_OFFSET \<and> ?o = 0")
    case plain: True
    show ?thesis
    proof (cases "?l = 0xc \<and> length inp < pos + bits_used opc + ?l * 8")
      case True
      then have "?i = INSTR_LONG" using h(1) plain ne by (cases ?i) simp_all
      then have "ahead inp pos end_code" using h(2) plain True by (simp add: end_code_def)
      moreover have "n = length out \<and> res = out"
        using "1.prems" c1 c2 ops ne plain True by (subst (asm) decompress_loop.simps) auto
      ultimately show ?thesis using c1 unfolding parsed_def by (intro conjI exI [of _ "[]"]) simp_all
    next
      case False
      obtain r out' where cp: "copy_literals inp ?l (pos + bits_used opc) out = (r, out')"
        by (cases "copy_literals inp ?l (pos + bits_used opc) out")
      then obtain pos' where r: "r = Inr pos'"
        using "1.prems" c1 c2 ops ne plain False by (subst (asm) decompress_loop.simps) (cases r; simp)
      have rec: "decompress_loop inp out_len out' pos' prev = (Inr n, res)"
        using "1.prems" c1 c2 ops ne plain False cp r by (subst (asm) decompress_loop.simps) simp
      have p: "parsed inp out_len out' pos' prev n res"
        using "1.IH"(1) [OF c1 c2 ops ne plain False cp [symmetric] r rec] .
      obtain bs where bs: "length bs = ?l" "ahead inp (pos + bits_used opc) (concat (map literal_bits bs))"
          "pos' = pos + bits_used opc + ?l * 8" "out' = out @ bs"
        using copy_literals_iff [THEN iffD1, OF cp [unfolded r]] by blast
      define t where "t = (if ?i = INSTR_LONG then Literals bs else Literal (hd bs))"
      have t: "token_ok (out, prev) t \<and> token_code t = head_code ?i ?o ?l @ concat (map literal_bits bs)
          \<and> token_apply (out, prev) t = (out', prev)"
      proof (cases ?i)
        case INSTR_LITERAL_BYTE
        then obtain b where "bs = [b]" using h(1) bs(1) by (auto simp: length_Suc_conv)
        then show ?thesis using h(1) INSTR_LITERAL_BYTE bs(4) by (simp add: t_def)
      qed (use ne plain h(1) bs in \<open>auto simp: t_def\<close>)
      have "pos' = pos + length (token_code t)"
        using t bs(1,3) h(3) by (simp add: length_concat comp_def sum_list_triv)
      moreover have "ahead inp pos (token_code t)" using t h(2,3) bs(2) by (simp add: ahead_append)
      ultimately show ?thesis using parsed_Cons [of out prev t inp pos out' prev] t p by simp
    qed
  next
    case match: False
    have c3: "?o \<noteq> 0" "\<not> out_len < length out + ?l" "\<not> length out < ?o"
      using "1.prems" c1 c2 ops ne match by (auto simp: decompress_loop.simps [of inp out_len out] split: if_splits)
    define prev' where "prev' = (if ?i = INSTR_PREVIOUS_OFFSET then prev else ?o)"
    have rec: "decompress_loop inp out_len (copy_match ?o ?l out) (pos + bits_used opc) prev' = (Inr n, res)"
      using "1.prems" c1 c2 ops ne match c3 by (subst (asm) decompress_loop.simps) (simp add: prev'_def)
    have p: "parsed inp out_len (copy_match ?o ?l out) (pos + bits_used opc) prev' n res"
      using "1.IH"(2) [OF c1 c2 ops ne match c3] rec unfolding prev'_def by simp
    define t where "t = (if ?i = INSTR_LONG then Match ?o ?l else Again ?l)"
    have t: "token_ok (out, prev) t \<and> token_code t = head_code ?i ?o ?l
        \<and> token_apply (out, prev) t = (copy_match ?o ?l out, prev')"
      using h(1) ne match c3 by (cases ?i) (auto simp: t_def prev'_def copy_match_eq)
    then show ?thesis using parsed_Cons [of out prev t inp pos] h(2,3) p by simp
  qed
qed


section \<open>The decompressor and the format\<close>

definition lz_expand :: "lz_token list \<Rightarrow> u8 list" where
  "lz_expand ts = fst (foldl token_apply ([], 0) ts)"

lemma decompress_until_end:
  assumes "tokens_ok ([], 0) ts" and "\<not> list_ex twelve ts" and "length (lz_expand ts) \<le> out_len"
    and "lz_bits inp = concat (map token_code ts) @ end_code @ rest"
    and "length inp < length (concat (map token_code ts)) + length end_code + 96"
  shows "rb_lz77_decompress True inp out_len = (Inr (length (lz_expand ts)), lz_expand ts)"
proof -
  let ?code = "concat (map token_code ts)"
  have a: "ahead inp 0 ?code" using aheadI [of inp "[]" ?code] assms(4) by simp
  have e: "ahead inp (length ?code) end_code" using aheadI [of inp ?code end_code rest] assms(4) by simp
  obtain prev where "decompress_loop inp out_len [] 0 0
      = decompress_loop inp out_len (lz_expand ts) (0 + length ?code) prev"
    using steps_tokens [OF assms(1) a assms(2)] assms(3) unfolding lz_expand_def by blast
  then show ?thesis
    using end_stops [OF e assms(3,5)] by (simp add: rb_lz77_decompress_def)
qed


text \<open>
  C6. And nothing else does: when the decompressor returns a length, the input begins with a valid
  stream and an end marker, the output is what the stream says, and it fits the buffer.
\<close>

theorem rb_lz77_decompress_sound:
  assumes "rb_lz77_decompress alloc inp out_len = (Inr n, out)"
  shows "n = length out \<and> n \<le> out_len \<and> (\<exists>ts rest. tokens_ok ([], 0) ts \<and> out = lz_expand ts
    \<and> lz_bits inp = concat (map token_code ts) @ end_code @ rest)"
proof -
  have "decompress_loop inp out_len [] 0 0 = (Inr n, out)"
    using assms by (simp add: rb_lz77_decompress_def split: if_splits)
  from decompress_loop_parsed [OF this] obtain ts where
    ts: "n = length out" "n \<le> out_len" "tokens_ok ([], 0) ts"
      "ahead inp 0 (concat (map token_code ts) @ end_code)" "out = lz_expand ts"
    unfolding parsed_def lz_expand_def by blast
  have "take (length (concat (map token_code ts) @ end_code)) (lz_bits inp) = concat (map token_code ts) @ end_code"
    using aheadD [OF ts(4)] by simp
  then have "lz_bits inp = (concat (map token_code ts) @ end_code)
      @ drop (length (concat (map token_code ts) @ end_code)) (lz_bits inp)"
    by (metis append_take_drop_id)
  then show ?thesis using ts by auto
qed

text \<open>
  A group of exactly twelve bytes is taken for the end marker, and it and all that follows is lost
  without an error, unless it stands in the first eighth of the input: the test compares a position
  in bits with the length in bytes. Inputs of less than 108 bytes are always cut.
\<close>

theorem rb_lz77_group_of_twelve_ends:
  assumes "tokens_ok ([], 0) ts" and "\<not> list_ex twelve ts" and "length (lz_expand ts) \<le> out_len"
    and "length bs = 12" and "lz_bits inp = concat (map token_code ts) @ token_code (Literals bs) @ rest"
    and "length inp < length (concat (map token_code ts)) + 108"
  shows "rb_lz77_decompress True inp out_len = (Inr (length (lz_expand ts)), lz_expand ts)"
proof (rule decompress_until_end [OF assms(1,2,3)])
  show "lz_bits inp = concat (map token_code ts) @ end_code @ concat (map literal_bits bs) @ rest"
    using assms(4,5) by (simp add: end_code_def)
  have "length end_code = 12" by (simp add: end_code_def count_code.simps [of 4 0])
  then show "length inp < length (concat (map token_code ts)) + length end_code + 96" using assms(6) by simp
qed


theorem rb_lz77_decompress_sound_witness:
  "\<exists>ts rest. tokens_ok ([], 0) ts \<and> [65, 66, 65, 66, 65, 66, 65, 66] = lz_expand ts
    \<and> lz_bits [4, 9, 141, 230, 0, 0] = concat (map token_code ts) @ end_code @ rest"
proof -
  have r: "rb_lz77_decompress True [4, 9, 141, 230, 0, 0] 8 = (Inr 8, [65, 66, 65, 66, 65, 66, 65, 66])" by code_simp
  show ?thesis using rb_lz77_decompress_sound [OF r] by blast
qed

theorem rb_lz77_group_of_twelve_ends_witness:
  "rb_lz77_decompress True [4, 7, 0, 0, 16, 8, 24, 4, 20, 12, 28, 2, 18, 10, 122, 0, 0] 100 = (Inr 1, [65])"
proof -
  let ?bs = "[0, 1, 2, 3, 4, 5, 6, 7, 8, 9, 10, 11] :: u8 list"
  have b: "lz_bits [4, 7, 0, 0, 16, 8, 24, 4, 20, 12, 28, 2, 18, 10, 122, 0, 0] = concat (map token_code [Literal 65]) @ token_code (Literals ?bs) @ end_code @ replicate 7 False" by code_simp
  have ok: "tokens_ok ([], 0) [Literal 65]" "\<not> list_ex twelve [Literal 65]" by code_simp+
  have e: "lz_expand [Literal 65] = [65]" by code_simp
  show ?thesis using rb_lz77_group_of_twelve_ends [OF ok _ _ b, of 100] unfolding e by simp
qed

section \<open>Errors\<close>

lemma get_bit_error: "rb_lz77_get_bit inp pos = Inl e \<Longrightarrow> e = Overrun"
  by (auto simp: rb_lz77_get_bit_eq split: if_splits)

lemma get_byte_loop_error: "get_byte_loop inp pos is buf = Inl e \<Longrightarrow> e = Overrun"
  by (induction "is" arbitrary: buf) (auto split: sum.splits dest: get_bit_error)

lemma copy_literals_error: "copy_literals inp n pos out = (Inl e, out') \<Longrightarrow> e = Overrun"
  by (induction n arbitrary: pos out)
    (auto simp: rb_lz77_get_byte_def split: sum.splits dest: get_byte_loop_error)

lemma decode_count_loop_error:
  "decode_count_loop inp max_pos start pos s count up = Inl e \<Longrightarrow> e = Overrun \<or> e = Errno (- EFBIG)"
proof (induction inp max_pos start pos s count up rule: decode_count_loop.induct)
  case (1 inp max_pos start pos s count up)
  show ?case
  proof (cases "max_pos \<le> pos")
    case True
    then show ?thesis using "1.prems" by (subst (asm) decode_count_loop.simps) simp
  next
    case run: False
    show ?thesis
    proof (cases "rb_lz77_get_bit inp pos")
      case (Inl d)
      then show ?thesis
        using "1.prems" run get_bit_error [OF Inl] by (subst (asm) decode_count_loop.simps) simp
    next
      case (Inr b)
      show ?thesis
        using "1.prems" run Inr "1.IH"(1) [OF run Inr refl refl] "1.IH"(2) [OF run Inr refl refl]
        by (subst (asm) decode_count_loop.simps) (simp add: Let_def split: if_splits)
    qed
  qed
qed

lemma operators_error:
  "rb_lz77_decode_instruction_operators inp pos prev = Inl e \<Longrightarrow> e = Overrun \<or> e = Errno (- EFBIG)"
proof -
  have c: "rb_lz77_decode_count inp p s k m = Inl d \<Longrightarrow> d = Overrun \<or> d = Errno (- EFBIG)" for p s k m d
    unfolding rb_lz77_decode_count_def by (rule decode_count_loop_error)
  have i: "rb_lz77_decode_instruction inp pos = Inl d \<Longrightarrow> d = Overrun" for d
    by (auto simp: rb_lz77_decode_instruction_def split: sum.splits if_splits dest: get_bit_error)
  assume "rb_lz77_decode_instruction_operators inp pos prev = Inl e"
  then show ?thesis
    by (auto simp: rb_lz77_decode_instruction_operators_def decode_instruction_iff
        split: sum.splits rb_lz77_instruction.splits dest!: c i)
qed

abbreviation lz_errors :: "rb_error set" where
  "lz_errors \<equiv> {Overrun, Errno (- EFBIG), Errno (- EOVERFLOW), Errno (- ENODATA), Errno (- EBADMSG),
     Errno (- ENOBUFS), Errno (- ESPIPE)}"

lemma decompress_loop_errors:
  "decompress_loop inp out_len out pos prev = (Inl e, res) \<Longrightarrow>
    e \<in> lz_errors \<and> (out_len < length res \<longrightarrow> e = Errno (- EOVERFLOW) \<or> e = Overrun)"
proof (induction inp out_len out pos prev rule: decompress_loop.induct)
  case (1 inp out_len out pos prev)
  show ?case
  proof (cases "out_len < length out \<or> length inp * 8 < pos")
    case True
    then show ?thesis using "1.prems" by (subst (asm) decompress_loop.simps) (auto split: if_splits)
  next
    case False
    then have c1: "\<not> out_len < length out" and c2: "\<not> length inp * 8 < pos" by simp_all
    show ?thesis
    proof (cases "rb_lz77_decode_instruction_operators inp pos prev")
      case (Inl d)
      then show ?thesis
        using "1.prems" c1 c2 operators_error [OF Inl] by (subst (asm) decompress_loop.simps) auto
    next
      case ops: (Inr opc)
      then have ne: "instruction opc \<noteq> INSTR_ERROR" unfolding operators_iff by auto
      note IH = "1.IH" [OF c1 c2 ops ne]
      show ?thesis
      proof (cases "instruction opc \<noteq> INSTR_PREVIOUS_OFFSET \<and> op_offset opc = 0")
        case plain: True
        obtain r out' where cp: "copy_literals inp (op_length opc) (pos + bits_used opc) out = (r, out')"
          by (cases "copy_literals inp (op_length opc) (pos + bits_used opc) out")
        show ?thesis
          using "1.prems" c1 c2 ops ne plain cp IH(1) [OF plain _ cp [symmetric]] copy_literals_error
          by (subst (asm) decompress_loop.simps) (auto split: if_splits sum.splits)
      next
        case match: False
        show ?thesis
          using "1.prems" c1 c2 ops ne match IH(2) [OF match]
          by (subst (asm) decompress_loop.simps) (auto split: if_splits)
      qed
    qed
  qed
qed

text \<open>
  The errors of the decompressor, and what they say of the buffer: literals can be written past
  its end (they are compared with it only afterwards), but never without an error: when the code
  wrote more than \<open>out_len\<close> bytes, it reports an overflow, unless it read past its input on the way.
\<close>

theorem rb_lz77_decompress_errors:
  assumes "rb_lz77_decompress alloc inp out_len = (r, out)" and "out_len < length out"
  shows "r = Inl (Errno (- EOVERFLOW)) \<or> r = Inl Overrun"
proof (cases r)
  case (Inl e)
  then show ?thesis
    using assms decompress_loop_errors [of inp out_len "[]" 0 0 e out]
    by (auto simp: rb_lz77_decompress_def split: if_splits)
next
  case (Inr n)
  then show ?thesis
    using assms decompress_loop_parsed [of inp out_len "[]" 0 0 n out]
    by (auto simp: rb_lz77_decompress_def parsed_def split: if_splits)
qed

theorem rb_lz77_decompress_errors_witness:
  "rb_lz77_decompress True [4, 1] 0 = (Inl (Errno (- EOVERFLOW)), [65])"
proof -
  have "rb_lz77_decompress True [4, 1] 0 = (Inl (Errno (- EOVERFLOW)), [65])
      \<and> \<not> (Inl (Errno (- EOVERFLOW)) = (Inl Overrun :: rb_error + nat))" by code_simp
  then show ?thesis using rb_lz77_decompress_errors [of True "[4, 1]" 0 "Inl (Errno (- EOVERFLOW))" "[65]"] by simp
qed

end
