(* ===== verification/Rb_Hardconfig.thy ===== *)
theory Rb_Hardconfig
  imports Rb_Lz77
begin

text \<open>
  The RouterBoot hard config driver, \<^verbatim>\<open>drivers/platform/mikrotik/rb_hardconfig.c\<close>: the tags of the
  factory configuration as sysfs files, and the wireless calibration data, which is packed in one of
  four ways.

  The LZO decompressor of the kernel is not part of the repository: \<open>lzo\<close> takes the input and the room
  for the output, and gives the return value and the bytes written. The buffer \<open>hc_buf\<close> is a list of
  bytes. A function that unpacks also gives the number of its buffers that it did not free. The
  creation of the sysfs files is a result code, the log messages are not modelled.
\<close>

unbundle bit_operations_syntax

section \<open>Constants\<close>

abbreviation RB_MAGIC_HARD :: u32 where "RB_MAGIC_HARD \<equiv> 0x64726148"
abbreviation RB_MAGIC_LZOR :: u32 where "RB_MAGIC_LZOR \<equiv> 0x524F5A4C"
abbreviation RB_MAGIC_LZ77 :: u32 where "RB_MAGIC_LZ77 \<equiv> 0x4C5A3737"
abbreviation RB_MAGIC_ERD :: u32 where "RB_MAGIC_ERD \<equiv> 0x00455244"
abbreviation RB_ART_SIZE :: nat where "RB_ART_SIZE \<equiv> 65536"
abbreviation RB_WLAN_ERD_ID_SOLO :: u16 where "RB_WLAN_ERD_ID_SOLO \<equiv> 0x0001"
abbreviation RB_WLAN_ERD_ID_MULTI_8001 :: u16 where "RB_WLAN_ERD_ID_MULTI_8001 \<equiv> 0x8001"
abbreviation RB_WLAN_ERD_ID_MULTI_8201 :: u16 where "RB_WLAN_ERD_ID_MULTI_8201 \<equiv> 0x8201"
abbreviation LZO_E_INPUT_NOT_CONSUMED :: int where "LZO_E_INPUT_NOT_CONSUMED \<equiv> - 8"
abbreviation RB_ID_WLAN_DATA :: u16 where "RB_ID_WLAN_DATA \<equiv> 0x16"

definition hc_lzor_prefix :: "u8 list" where
  "hc_lzor_prefix = [
    0x00, 0x05, 0x4c, 0x4c, 0x44, 0x00, 0x34, 0xfe, 0xfe, 0x34, 0x11, 0x3c, 0x1e, 0x3c, 0x2e, 0x3c,
    0x4c, 0x34, 0x00, 0x52, 0x62, 0x92, 0xa2, 0xb2, 0xc3, 0x2a, 0x14, 0x00, 0x00, 0x05, 0xfe, 0x6a,
    0x3c, 0x16, 0x32, 0x16, 0x11, 0x1e, 0x12, 0x46, 0x32, 0x46, 0x11, 0x4e, 0x12, 0x36, 0x32, 0x36,
    0x11, 0x3e, 0x12, 0x5a, 0x9a, 0x64, 0x00, 0x04, 0xfe, 0x10, 0x3c, 0x00, 0x01, 0x00, 0x00, 0x28,
    0x0c, 0x00, 0x0f, 0xfe, 0x14, 0x00, 0x24, 0x24, 0x23, 0x24, 0x24, 0x23, 0x25, 0x22, 0x21, 0x21,
    0x23, 0x22, 0x21, 0x22, 0x21, 0x2d, 0x38, 0x00, 0x0c, 0x25, 0x25, 0x24, 0x25, 0x25, 0x24, 0x23,
    0x22, 0x21, 0x20, 0x23, 0x21, 0x21, 0x22, 0x21, 0x2d, 0x38, 0x00, 0x28, 0xb0, 0x00, 0x00, 0x22,
    0x00, 0x00, 0xc0, 0xfe, 0x03, 0x00, 0xc0, 0x00, 0x62, 0xff, 0x62, 0xff, 0xfe, 0x06, 0x00, 0xbb,
    0xff, 0xba, 0xff, 0xfe, 0x08, 0x00, 0x9e, 0xff, 0xfe, 0x0a, 0x00, 0x53, 0xff, 0xfe, 0x02, 0x00,
    0x20, 0xff, 0xb1, 0xfe, 0xfe, 0xb2, 0xfe, 0xfe, 0xed, 0xfe, 0xfe, 0xfe, 0x04, 0x00, 0x3a, 0xff,
    0x3a, 0xff, 0xde, 0xfd, 0x5f, 0x04, 0x33, 0xff, 0x4c, 0x74, 0x03, 0x05, 0x05, 0xff, 0x6d, 0xfe,
    0xfe, 0x6d, 0xfe, 0xfe, 0xaf, 0x08, 0x63, 0xff, 0x64, 0x6f, 0x08, 0xac, 0xff, 0xbf, 0x6d, 0x08,
    0x7a, 0x6d, 0x08, 0x96, 0x74, 0x04, 0x00, 0x08, 0x79, 0xff, 0xda, 0xfe, 0xfe, 0xdb, 0xfe, 0xfe,
    0x56, 0xff, 0xfe, 0x04, 0x00, 0x5e, 0xff, 0x5e, 0xff, 0x6c, 0xfe, 0xfe, 0xfe, 0x06, 0x00, 0x41,
    0xff, 0x7f, 0x74, 0x03, 0x00, 0x11, 0x44, 0xff, 0xa9, 0xfe, 0xfe, 0xa9, 0xfe, 0xfe, 0xa5, 0x8f,
    0x01, 0x00, 0x08, 0x01, 0x01, 0x02, 0x04, 0x08, 0x02, 0x04, 0x08, 0x08, 0x01, 0x01, 0xfe, 0x22,
    0x00, 0x4c, 0x60, 0x64, 0x8c, 0x90, 0xd0, 0xd4, 0xd8, 0x5c, 0x10, 0x09, 0xd8, 0xff, 0xb0, 0xff,
    0x00, 0x00, 0xba, 0xff, 0x14, 0x00, 0xba, 0xff, 0x64, 0x00, 0x00, 0x08, 0xfe, 0x06, 0x00, 0x74,
    0xff, 0x42, 0xff, 0xce, 0xff, 0x60, 0xff, 0x0a, 0x00, 0xb4, 0x00, 0xa0, 0x00, 0xa0, 0xfe, 0x07,
    0x00, 0x0a, 0x00, 0xb0, 0xff, 0x96, 0x4d, 0x00, 0x56, 0x57, 0x18, 0xa6, 0xff, 0x92, 0x70, 0x11,
    0x00, 0x12, 0x90, 0x90, 0x76, 0x5a, 0x54, 0x54, 0x4c, 0x46, 0x38, 0x00, 0x10, 0x10, 0x08, 0xfe,
    0x05, 0x00, 0x38, 0x29, 0x25, 0x23, 0x22, 0x22, 0x1f, 0x00, 0x00, 0x00, 0xf6, 0xe1, 0xdd, 0xf8,
    0xfe, 0x00, 0xfe, 0x15, 0x00, 0x00, 0xd0, 0x02, 0x74, 0x02, 0x08, 0xf8, 0xe5, 0xde, 0x02, 0x04,
    0x04, 0xfd, 0x00, 0x00, 0x00, 0x07, 0x50, 0x2d, 0x01, 0x90, 0x90, 0x76, 0x60, 0xb0, 0x07, 0x07,
    0x0c, 0x0c, 0x04, 0xfe, 0x05, 0x00, 0x66, 0x66, 0x5a, 0x56, 0xbc, 0x01, 0x06, 0xfc, 0xfc, 0xf1,
    0xfe, 0x07, 0x00, 0x24, 0x95, 0x70, 0x64, 0x18, 0x06, 0x2c, 0xff, 0xb5, 0xfe, 0xfe, 0xb5, 0xfe,
    0xfe, 0xe2, 0x8c, 0x24, 0x02, 0x2f, 0xff, 0x2f, 0xff, 0xb4, 0x78, 0x02, 0x05, 0x73, 0xff, 0xed,
    0xfe, 0xfe, 0x4f, 0xff, 0x36, 0x74, 0x1e, 0x09, 0x4f, 0xff, 0x50, 0xff, 0xfe, 0x16, 0x00, 0x70,
    0xac, 0x70, 0x8e, 0xac, 0x40, 0x0e, 0x01, 0x70, 0x7f, 0x8e, 0xac, 0x6c, 0x00, 0x0b, 0xfe, 0x02,
    0x00, 0xfe, 0x0a, 0x2c, 0x2a, 0x2a, 0x28, 0x26, 0x1e, 0x1e, 0xfe, 0x02, 0x20, 0x65, 0x20, 0x00,
    0x00, 0x05, 0x12, 0x00, 0x11, 0x1e, 0x11, 0x11, 0x41, 0x1e, 0x41, 0x11, 0x31, 0x1e, 0x31, 0x11,
    0x70, 0x75, 0x7a, 0x7f, 0x84, 0x89, 0x8e, 0x93, 0x98, 0x30, 0x20, 0x00, 0x02, 0x00, 0xfe, 0x06,
    0x3c, 0xbc, 0x32, 0x0c, 0x00, 0x00, 0x2a, 0x12, 0x1e, 0x12, 0x2e, 0x12, 0xcc, 0x12, 0x11, 0x1a,
    0x1e, 0x1a, 0x2e, 0x1a, 0x4c, 0x10, 0x1e, 0x10, 0x11, 0x18, 0x1e, 0x42, 0x1e, 0x42, 0x2e, 0x42,
    0xcc, 0x42, 0x11, 0x4a, 0x1e, 0x4a, 0x2e, 0x4a, 0x4c, 0x40, 0x1e, 0x40, 0x11, 0x48, 0x1e, 0x32,
    0x1e, 0x32, 0x2e, 0x32, 0xcc, 0x32, 0x11, 0x3a, 0x1e, 0x3a, 0x2e, 0x3a, 0x4c, 0x30, 0x1e, 0x30,
    0x11, 0x38, 0x1e, 0x27, 0x9a, 0x01, 0x9d, 0xa2, 0x2f, 0x28, 0x00, 0x00, 0x46, 0xde, 0xc4, 0xbf,
    0xa6, 0x9d, 0x81, 0x7b, 0x5c, 0x61, 0x40, 0xc7, 0xc0, 0xae, 0xa9, 0x8c, 0x83, 0x6a, 0x62, 0x50,
    0x3e, 0xce, 0xc2, 0xae, 0xa3, 0x8c, 0x7b, 0x6a, 0x5a, 0x50, 0x35, 0xd7, 0xc2, 0xb7, 0xa4, 0x95,
    0x7e, 0x72, 0x5a, 0x59, 0x37, 0xfe, 0x02, 0xf8, 0x8c, 0x95, 0x90, 0x8f, 0x00, 0xd7, 0xc0, 0xb7,
    0xa2, 0x95, 0x7b, 0x72, 0x56, 0x59, 0x32, 0xc7, 0xc3, 0xae, 0xad, 0x8c, 0x85, 0x6a, 0x63, 0x50,
    0x3e, 0xce, 0xc3, 0xae, 0xa4, 0x8c, 0x7c, 0x6a, 0x59, 0x50, 0x34, 0xd7, 0xc2, 0xb7, 0xa5, 0x95,
    0x7e, 0x72, 0x59, 0x59, 0x36, 0xfc, 0x05, 0x00, 0x02, 0xce, 0xc5, 0xae, 0xa5, 0x95, 0x83, 0x72,
    0x5c, 0x59, 0x36, 0xbf, 0xc6, 0xa5, 0xab, 0x8c, 0x8c, 0x6a, 0x67, 0x50, 0x41, 0x64, 0x07, 0x00,
    0x02, 0x95, 0x8c, 0x72, 0x65, 0x59, 0x3f, 0xce, 0xc7, 0xae, 0xa8, 0x95, 0x86, 0x72, 0x5f, 0x59,
    0x39, 0xfe, 0x02, 0xf8, 0x8b, 0x7c, 0x0b, 0x09, 0xb7, 0xc2, 0x9d, 0xa4, 0x83, 0x85, 0x6a, 0x6b,
    0x50, 0x44, 0xb7, 0xc1, 0x64, 0x01, 0x00, 0x06, 0x61, 0x5d, 0x48, 0x3d, 0xae, 0xc4, 0x9d, 0xad,
    0x7b, 0x85, 0x61, 0x66, 0x48, 0x46, 0xae, 0xc3, 0x95, 0xa3, 0x72, 0x7c, 0x59, 0x56, 0x38, 0x31,
    0x7c, 0x0b, 0x00, 0x0c, 0x96, 0x91, 0x8f, 0x00, 0xb7, 0xc0, 0xa5, 0xab, 0x8c, 0x8a, 0x6a, 0x64,
    0x50, 0x3c, 0xb7, 0xc0, 0x9d, 0xa0, 0x83, 0x80, 0x6a, 0x64, 0x50, 0x3d, 0xb7, 0xc5, 0x9d, 0xa5,
    0x83, 0x87, 0x6c, 0x08, 0x07, 0xae, 0xc0, 0x9d, 0xa8, 0x83, 0x88, 0x6a, 0x6d, 0x50, 0x46, 0xfc,
    0x05, 0x00, 0x16, 0xbf, 0xc0, 0xa5, 0xa2, 0x8c, 0x7f, 0x6a, 0x57, 0x50, 0x2f, 0xb7, 0xc7, 0xa5,
    0xb1, 0x8c, 0x8e, 0x72, 0x6d, 0x59, 0x45, 0xbf, 0xc6, 0xa5, 0xa8, 0x8c, 0x87, 0x6a, 0x5f, 0x50,
    0x37, 0xbf, 0xc2, 0xa5, 0xa4, 0x8c, 0x83, 0x6a, 0x5c, 0x50, 0x34, 0xbc, 0x05, 0x00, 0x0e, 0x90,
    0x00, 0xc7, 0xc2, 0xae, 0xaa, 0x95, 0x82, 0x7b, 0x60, 0x61, 0x3f, 0xb7, 0xc6, 0xa5, 0xb1, 0x8c,
    0x8d, 0x72, 0x6b, 0x61, 0x51, 0xbf, 0xc4, 0xa5, 0xa5, 0x8c, 0x82, 0x72, 0x61, 0x59, 0x39, 0x6c,
    0x26, 0x03, 0x95, 0x82, 0x7b, 0x61, 0x61, 0x40, 0xfc, 0x05, 0x00, 0x00, 0x7e, 0xd7, 0xc3, 0xb7,
    0xa8, 0x9d, 0x80, 0x83, 0x5d, 0x6a, 0x3f, 0xbf, 0xc7, 0xa5, 0xa8, 0x8c, 0x84, 0x72, 0x60, 0x61,
    0x46, 0xbf, 0xc2, 0xae, 0xb0, 0x9d, 0x92, 0x83, 0x6f, 0x6a, 0x50, 0xd7, 0xc3, 0xb7, 0xa7, 0x9d,
    0x80, 0x83, 0x5e, 0x6a, 0x40, 0xfe, 0x02, 0xf8, 0x8d, 0x96, 0x90, 0x90, 0xfe, 0x05, 0x00, 0x8a,
    0xc4, 0x63, 0xb8, 0x3c, 0xa6, 0x29, 0x97, 0x16, 0x81, 0x84, 0xb7, 0x5b, 0xa9, 0x33, 0x94, 0x1e,
    0x83, 0x11, 0x70, 0xb8, 0xc2, 0x70, 0xb1, 0x4d, 0xa3, 0x2a, 0x8d, 0x1b, 0x7b, 0xa8, 0xbc, 0x68,
    0xab, 0x47, 0x9d, 0x27, 0x87, 0x18, 0x75, 0xae, 0xc6, 0x7d, 0xbb, 0x4d, 0xaa, 0x1c, 0x84, 0x11,
    0x72, 0xa3, 0xbb, 0x6e, 0xad, 0x3c, 0x97, 0x24, 0x85, 0x16, 0x71, 0x80, 0xb2, 0x57, 0xa4, 0x30,
    0x8e, 0x1c, 0x7c, 0x10, 0x68, 0xbb, 0xbd, 0x75, 0xac, 0x4f, 0x9e, 0x2b, 0x87, 0x1a, 0x76, 0x96,
    0xc5, 0x5e, 0xb5, 0x3e, 0xa5, 0x1f, 0x8c, 0x12, 0x7a, 0xc1, 0xc6, 0x42, 0x9f, 0x27, 0x8c, 0x16,
    0x77, 0x0f, 0x67, 0x9d, 0xbc, 0x68, 0xad, 0x36, 0x95, 0x20, 0x83, 0x11, 0x6d, 0x9b, 0xb8, 0x67,
    0xa8, 0x34, 0x90, 0x1f, 0x7c, 0x10, 0x67, 0x9e, 0xc9, 0x6a, 0xbb, 0x37, 0xa4, 0x20, 0x90, 0x11,
    0x7b, 0xc6, 0xc8, 0x47, 0xa4, 0x2a, 0x90, 0x18, 0x7b, 0x10, 0x6c, 0xae, 0xc4, 0x5d, 0xad, 0x37,
    0x9a, 0x1f, 0x85, 0x13, 0x75, 0x70, 0xad, 0x42, 0x99, 0x25, 0x84, 0x17, 0x74, 0x0b, 0x56, 0x87,
    0xc8, 0x57, 0xb8, 0x2b, 0x9e, 0x19, 0x8a, 0x0d, 0x74, 0xa7, 0xc8, 0x6e, 0xb9, 0x36, 0xa0, 0x1f,
    0x8b, 0x11, 0x75, 0x94, 0xbe, 0x4b, 0xa5, 0x2a, 0x92, 0x18, 0x7c, 0x0f, 0x6b, 0xaf, 0xc0, 0x58,
    0xa8, 0x34, 0x94, 0x1d, 0x7d, 0x12, 0x6d, 0x82, 0xc0, 0x52, 0xb0, 0x25, 0x94, 0x14, 0x7f, 0x0c,
    0x68, 0x84, 0xbf, 0x3e, 0xa4, 0x22, 0x8e, 0x10, 0x76, 0x0b, 0x65, 0x88, 0xb6, 0x42, 0x9b, 0x26,
    0x87, 0x14, 0x70, 0x0c, 0x5f, 0xc5, 0xc2, 0x3e, 0x97, 0x23, 0x83, 0x13, 0x6c, 0x0c, 0x5c, 0xb1,
    0xc9, 0x76, 0xbc, 0x4a, 0xaa, 0x20, 0x8d, 0x12, 0x78, 0x93, 0xbf, 0x46, 0xa3, 0x26, 0x8d, 0x14,
    0x74, 0x0c, 0x62, 0xc8, 0xc4, 0x3b, 0x97, 0x21, 0x82, 0x11, 0x6a, 0x0a, 0x59, 0xa3, 0xb9, 0x68,
    0xa9, 0x30, 0x8d, 0x1a, 0x78, 0x0f, 0x61, 0xa0, 0xc9, 0x73, 0xbe, 0x50, 0xb1, 0x30, 0x9f, 0x14,
    0x80, 0x83, 0xb7, 0x3c, 0x9a, 0x20, 0x84, 0x0e, 0x6a, 0x0a, 0x57, 0xac, 0xc2, 0x68, 0xb0, 0x2e,
    0x92, 0x19, 0x7c, 0x0d, 0x63, 0x93, 0xbe, 0x62, 0xb0, 0x3c, 0x9e, 0x1a, 0x80, 0x0e, 0x6b, 0xbb,
    0x02, 0xa0, 0x02, 0xa0, 0x02, 0x6f, 0x00, 0x75, 0x00, 0x75, 0x00, 0x00, 0x00, 0xad, 0x02, 0xb3,
    0x02, 0x6f, 0x00, 0x87, 0x00, 0x85, 0xfe, 0x03, 0x00, 0xc2, 0x02, 0x82, 0x4d, 0x92, 0x6e, 0x4d,
    0xb1, 0xa8, 0x84, 0x01, 0x00, 0x07, 0x7e, 0x00, 0xa8, 0x02, 0xa4, 0x02, 0xa4, 0x02, 0xa2, 0x00,
    0xa6, 0x00, 0xa6, 0x00, 0x00, 0x00, 0xb4, 0x02, 0xb4, 0x02, 0x92, 0x00, 0x96, 0x00, 0x96, 0x46,
    0x04, 0xb0, 0x02, 0x64, 0x02, 0x0a, 0x8c, 0x00, 0x90, 0x02, 0x98, 0x02, 0x98, 0x02, 0x0e, 0x01,
    0x11, 0x01, 0x11, 0x50, 0xc3, 0x08, 0x88, 0x02, 0x88, 0x02, 0x19, 0x01, 0x02, 0x01, 0x02, 0x01,
    0xf3, 0x2d, 0x00, 0x00]"

section \<open>Printing\<close>

definition hex2 :: "u8 \<Rightarrow> u8 list" where
  "hex2 b = [hex_digit (ucast (drop_bit 4 b)), hex_digit (ucast (b AND 0xf))]"

text \<open>\<open>"%pM"\<close>: six bytes with colons.\<close>

definition hc_tag_show_mac :: "u8 list \<Rightarrow> u16 \<Rightarrow> rb_error + u8 list" where
  "hc_tag_show_mac pld pld_len =
     (if pld_len \<noteq> 8 then Inl (Errno (- EINVAL))
      else if length pld < 6 then Inl Overrun
      else Inr (hex2 (pld ! 0) @ concat (map (\<lambda>i. cstr '':'' @ hex2 (pld ! i)) [1..<6]) @ [10]))"

text \<open>The tabs of the texts are separate, as a character code.\<close>

definition hc_hwopts :: "(nat \<times> u8 list) list" where
  "hc_hwopts =
     [(0, cstr ''no UART'' @ [9, 9]), (1, cstr ''has Vreg'' @ [9]), (2, cstr ''has usb'' @ [9, 9]),
      (3, cstr ''has ATtiny'' @ [9]), (14, cstr ''no NAND'' @ [9, 9]), (15, cstr ''has LCD'' @ [9, 9]),
      (16, cstr ''has POE out'' @ [9]), (17, cstr ''has MicroSD'' @ [9]), (18, cstr ''has SIM'' @ [9, 9]),
      (20, cstr ''has SFP'' @ [9, 9]), (21, cstr ''has WiFi'' @ [9]), (22, cstr ''has TS ADC'' @ [9]),
      (29, cstr ''has PLC'' @ [9, 9])]"

definition hc_tag_show_hwoptions :: "u8 list \<Rightarrow> u16 \<Rightarrow> rb_error + u8 list" where
  "hc_tag_show_hwoptions pld pld_len =
     (if pld_len \<noteq> 4 then Inl (Errno (- EINVAL))
      else if length pld < 4 then Inl Overrun
      else
        let data = rd32 pld 0
        in Inr (cstr ''raw'' @ [9, 9] @ cstr '': '' @ u32_line data @ [10]
             @ concat (map (\<lambda>(n, str). str @ cstr '': '' @ cstr (if bit data n then ''true'' else ''false'') @ [10])
                 hc_hwopts)))"

section \<open>Calibration data\<close>

type_synonym lzo = "u8 list \<Rightarrow> nat \<Rightarrow> int \<times> u8 list"

text \<open>\<open>inbuf\<close> is all that can be read from the input pointer on, \<open>inlen\<close> what the caller says.\<close>

definition hc_wlan_data_unpack_erd :: "lzo \<Rightarrow> u16 \<Rightarrow> u8 list \<Rightarrow> nat \<Rightarrow> nat \<Rightarrow> rb_error + u8 list" where
  "hc_wlan_data_unpack_erd lzo tag_id inbuf inlen outlen =
     (case routerboot_tag_find (Some inbuf) inlen tag_id of
        Inl e \<Rightarrow> Inl e
      | Inr (lzo_ofs, lzo_len) \<Rightarrow>
          if unat lzo_len > inlen then Inl (Errno (- EINVAL))
          else if length inbuf < unat lzo_ofs + unat lzo_len then Inl Overrun
          else case lzo (take (unat lzo_len) (drop (unat lzo_ofs) inbuf)) outlen of
            (ret, out) \<Rightarrow> if ret \<noteq> 0 then Inl (Errno ret) else Inr out)"

text \<open>
  The search for the magic number, word by word: the offset after it. A word that is only in part
  in the decompressed data is one that was not written.
\<close>

function find_erd :: "u8 list \<Rightarrow> nat \<Rightarrow> rb_error + nat" where
  "find_erd temp pos =
     (if length temp < pos + 4 then Inl Overrun
      else if rd32 temp pos = RB_MAGIC_ERD then Inr (pos + 4)
      else if pos + 4 \<ge> length temp then Inl (Errno (- ENODATA))
      else find_erd temp (pos + 4))"
  by pat_completeness auto
termination
  by (relation "measure (\<lambda>(temp, pos). length temp - pos)") auto

declare find_erd.simps [simp del]

text \<open>What follows the decompression, on the decompressed data.\<close>

definition unpack_rle :: "u16 \<Rightarrow> u8 list \<Rightarrow> nat \<Rightarrow> rb_error + u8 list" where
  "unpack_rle tag_id temp outlen =
     (case find_erd temp 0 of
        Inl e \<Rightarrow> Inl e
      | Inr ofs \<Rightarrow>
          let needle = drop ofs temp; templen = length temp - ofs
          in case routerboot_tag_find (Some needle) templen tag_id of
            Inl e \<Rightarrow> Inl e
          | Inr (rle_ofs, rle_len) \<Rightarrow>
              if unat rle_len > templen then Inl (Errno (- EINVAL))
              else if templen < unat rle_ofs + unat rle_len then Inl Overrun
              else case routerboot_rle_decode (Some (take (unat rle_len) (drop (unat rle_ofs) needle))) True outlen of
                (ret, n, out) \<Rightarrow> if ret \<noteq> 0 then Inl (Errno ret) else Inr out)"

text \<open>
  \<open>alloc\<close> and \<open>alloc'\<close> are the success of the two allocations. \<open>lzo_len\<close> is computed in a \<open>size_t\<close>. The
  second component counts the buffers that are not freed.
\<close>

definition hc_wlan_data_unpack_lzor_lz77 ::
    "lzo \<Rightarrow> bool \<Rightarrow> bool \<Rightarrow> u16 \<Rightarrow> u8 list \<Rightarrow> nat \<Rightarrow> nat \<Rightarrow> u32 \<Rightarrow> (rb_error + u8 list) \<times> nat" where
  "hc_wlan_data_unpack_lzor_lz77 lzo alloc alloc' tag_id inbuf inlen outlen magic =
     (if \<not> alloc then (Inl (Errno (- ENOMEM)), 0)
      else
        let lzo_len = (if magic = RB_MAGIC_LZOR then (inlen + length hc_lzor_prefix) mod 2 ^ 32 else inlen)
        in if lzo_len > outlen then (Inl (Errno (- EFBIG)), 1)
           else if magic = RB_MAGIC_LZOR then
             if length inbuf < inlen \<or> outlen < length hc_lzor_prefix + inlen then (Inl Overrun, 1)
             else case lzo (hc_lzor_prefix @ take inlen inbuf) outlen of
               (ret, temp) \<Rightarrow>
                 if ret \<noteq> 0 \<and> ret \<noteq> LZO_E_INPUT_NOT_CONSUMED then (Inl (Errno ret), 0)
                 else (unpack_rle tag_id temp outlen, 0)
           else if magic = RB_MAGIC_LZ77 then
             if length inbuf < inlen then (Inl Overrun, 1)
             else case rb_lz77_decompress alloc' (take inlen inbuf) outlen of
               (Inl e, temp) \<Rightarrow> (Inl e, 0)
             | (Inr n, temp) \<Rightarrow> (unpack_rle tag_id temp outlen, 0)
           else (Inl (Errno (- EINVAL)), 1))"

definition hc_wlan_data_unpack ::
    "lzo \<Rightarrow> bool \<Rightarrow> bool \<Rightarrow> u8 list \<Rightarrow> u16 \<Rightarrow> nat \<Rightarrow> nat \<Rightarrow> nat \<Rightarrow> (rb_error + u8 list) \<times> nat" where
  "hc_wlan_data_unpack lzo alloc alloc' hc_buf tag_id tofs tlen outlen =
     (if tofs + tlen > length hc_buf then (Inl (Errno (- EIO)), 0)
      else if tofs + 4 > length hc_buf then (Inl Overrun, 0)
      else
        let lbuf = drop tofs hc_buf; magic = rd32 hc_buf tofs
        in if magic = RB_MAGIC_LZ77 \<and> tag_id = RB_WLAN_ERD_ID_SOLO then (Inl (Errno (- ENODATA)), 0)
           else if magic = RB_MAGIC_LZ77 \<or> magic = RB_MAGIC_LZOR then
             hc_wlan_data_unpack_lzor_lz77 lzo alloc alloc' tag_id (drop 4 lbuf) (size_sub tlen 4) outlen magic
           else if magic = RB_MAGIC_ERD then
             (hc_wlan_data_unpack_erd lzo tag_id (drop 4 lbuf) (size_sub tlen 4) outlen, 0)
           else if tag_id = RB_WLAN_ERD_ID_SOLO then
             (case routerboot_rle_decode (Some (take tlen lbuf)) True outlen of
                (ret, n, out) \<Rightarrow> (if ret \<noteq> 0 then Inl (Errno ret) else Inr out, 0))
           else (Inl (Errno (- ENODATA)), 0))"

section \<open>Reading the calibration data\<close>

text \<open>The place of a payload, as the attributes keep it: offset and length.\<close>

definition hc_wlan_data_bin_read ::
    "lzo \<Rightarrow> bool \<Rightarrow> bool \<Rightarrow> bool \<Rightarrow> u8 list \<Rightarrow> u16 \<Rightarrow> u16 \<times> u16 \<Rightarrow> nat \<Rightarrow> nat \<Rightarrow> rb_error + u8 list" where
  "hc_wlan_data_bin_read lzo out_ok alloc alloc' hc_buf erd_tag_id pld off count =
     (if snd pld = 0 then Inl (Errno (- ENOENT))
      else if unat (snd pld) > RB_ART_SIZE then Inl (Errno (- EFBIG))
      else if \<not> out_ok then Inl (Errno (- ENOMEM))
      else case fst (hc_wlan_data_unpack lzo alloc alloc' hc_buf erd_tag_id (unat (fst pld)) (unat (snd pld)) RB_ART_SIZE) of
        Inl e \<Rightarrow> Inl e
      | Inr out \<Rightarrow>
          if off \<ge> length out then Inr []
          else
            let count' = (if off + count > length out then length out - off else count)
            in Inr (take count' (drop off out)))"

section \<open>Attributes and start\<close>

record hc_attr =
  hc_tag_id :: u16
  hc_tshow :: "(u8 list \<Rightarrow> u16 \<Rightarrow> rb_error + u8 list) option"

definition hc_attrs :: "hc_attr list" where
  "hc_attrs =
     [\<lparr> hc_tag_id = 0x03, hc_tshow = Some routerboot_tag_show_u32s \<rparr>,
      \<lparr> hc_tag_id = 0x04, hc_tshow = Some hc_tag_show_mac \<rparr>,
      \<lparr> hc_tag_id = 0x05, hc_tshow = Some routerboot_tag_show_string \<rparr>,
      \<lparr> hc_tag_id = 0x06, hc_tshow = Some routerboot_tag_show_string \<rparr>,
      \<lparr> hc_tag_id = 0x0B, hc_tshow = Some routerboot_tag_show_string \<rparr>,
      \<lparr> hc_tag_id = 0x0D, hc_tshow = Some routerboot_tag_show_u32s \<rparr>,
      \<lparr> hc_tag_id = 0x0E, hc_tshow = Some routerboot_tag_show_u32s \<rparr>,
      \<lparr> hc_tag_id = 0x15, hc_tshow = Some hc_tag_show_hwoptions \<rparr>,
      \<lparr> hc_tag_id = RB_ID_WLAN_DATA, hc_tshow = None \<rparr>,
      \<lparr> hc_tag_id = 0x17, hc_tshow = Some routerboot_tag_show_string \<rparr>,
      \<lparr> hc_tag_id = 0x21, hc_tshow = Some routerboot_tag_show_string \<rparr>,
      \<lparr> hc_tag_id = 0x26, hc_tshow = Some routerboot_tag_show_string \<rparr>,
      \<lparr> hc_tag_id = 0x27, hc_tshow = Some routerboot_tag_show_string \<rparr>]"

text \<open>The attributes of the calibration data are static variables: they keep what they were.\<close>

record hc_state =
  hc_buf :: "u8 list"
  hc_plds :: "(u16 \<times> u16) list"
  hc_solo :: "u16 \<times> u16"
  hc_multi :: "(u16 \<times> u16) list"

definition hc_attr_show :: "hc_state \<Rightarrow> nat \<Rightarrow> rb_error + u8 list" where
  "hc_attr_show s i =
     (case hc_plds s ! i of (pld_ofs, pld_len) \<Rightarrow>
        if pld_len = 0 then Inl (Errno (- ENOENT))
        else case hc_tshow (hc_attrs ! i) of
          None \<Rightarrow> Inl Overrun
        | Some show \<Rightarrow> show (drop (unat pld_ofs) (hc_buf s)) pld_len)"

definition hc_multi_ids :: "u16 list" where
  "hc_multi_ids = [RB_WLAN_ERD_ID_MULTI_8001, RB_WLAN_ERD_ID_MULTI_8201]"

primrec hc_try_multi ::
    "(u16 \<Rightarrow> rb_error + u8 list) \<Rightarrow> u16 \<times> u16 \<Rightarrow> u16 list \<Rightarrow> rb_error + (u16 \<times> u16) list" where
  "hc_try_multi unpack pld [] = Inr []"
| "hc_try_multi unpack pld (i # is) =
     (case unpack i of
        Inl Overrun \<Rightarrow> Inl Overrun
      | r \<Rightarrow>
          (case hc_try_multi unpack pld is of
             Inl e \<Rightarrow> Inl e
           | Inr plds \<Rightarrow> Inr ((case r of Inr _ \<Rightarrow> pld | Inl _ \<Rightarrow> (0, 0)) # plds)))"

text \<open>
  The special case of the calibration tag. \<open>unpack\<close> is \<open>hc_wlan_data_unpack\<close> for a number, \<open>kobj_ok\<close> the
  creation of the folder \<open>wlan_data\<close>.
\<close>

definition hc_publish_wlan ::
    "(u16 \<Rightarrow> rb_error + u8 list) \<Rightarrow> bool \<Rightarrow> bool \<Rightarrow> u16 \<times> u16 \<Rightarrow> (u16 \<times> u16) \<times> (u16 \<times> u16) list
      \<Rightarrow> rb_error + ((u16 \<times> u16) \<times> (u16 \<times> u16) list)" where
  "hc_publish_wlan unpack out_ok kobj_ok pld battrs =
     (if \<not> out_ok then Inr battrs
      else case unpack RB_WLAN_ERD_ID_SOLO of
        Inl Overrun \<Rightarrow> Inl Overrun
      | Inr _ \<Rightarrow> Inr (pld, snd battrs)
      | Inl (Errno _) \<Rightarrow>
          if \<not> kobj_ok then Inr battrs
          else case hc_try_multi unpack pld hc_multi_ids of
            Inl e \<Rightarrow> Inl e
          | Inr multi \<Rightarrow> Inr (fst battrs, multi))"

primrec hc_publish ::
    "(u16 \<times> u16 \<Rightarrow> (u16 \<times> u16) \<times> (u16 \<times> u16) list \<Rightarrow> rb_error + ((u16 \<times> u16) \<times> (u16 \<times> u16) list))
      \<Rightarrow> u8 list \<Rightarrow> nat \<Rightarrow> u16 list \<Rightarrow> (u16 \<times> u16) \<times> (u16 \<times> u16) list
      \<Rightarrow> rb_error + ((u16 \<times> u16) list \<times> (u16 \<times> u16) \<times> (u16 \<times> u16) list)" where
  "hc_publish wlan buf buflen [] battrs = Inr ([], battrs)"
| "hc_publish wlan buf buflen (i # is) battrs =
     (case routerboot_tag_find (Some buf) buflen i of
        Inl Overrun \<Rightarrow> Inl Overrun
      | Inl (Errno _) \<Rightarrow>
          (case hc_publish wlan buf buflen is battrs of Inl e \<Rightarrow> Inl e | Inr (plds, b) \<Rightarrow> Inr ((0, 0) # plds, b))
      | Inr (pld_ofs, pld_len) \<Rightarrow>
          let pld = (pld_ofs + 4, pld_len)
          in case (if i = RB_ID_WLAN_DATA \<and> pld_len \<noteq> 0 then wlan pld battrs else Inr battrs) of
            Inl e \<Rightarrow> Inl e
          | Inr battrs' \<Rightarrow>
              (case hc_publish wlan buf buflen is battrs' of
                 Inl e \<Rightarrow> Inl e
               | Inr (plds, b) \<Rightarrow> Inr (pld # plds, b)))"

definition rb_hardconfig_init ::
    "lzo \<Rightarrow> 'd rb_mtd \<Rightarrow> 'd \<Rightarrow> int \<Rightarrow> u8 list option \<Rightarrow> bool \<Rightarrow> bool \<Rightarrow> bool \<Rightarrow> (u16 \<Rightarrow> bool) \<Rightarrow> (u16 \<Rightarrow> bool)
      \<Rightarrow> (u16 \<times> u16) \<times> (u16 \<times> u16) list \<Rightarrow> (rb_error + hc_state) \<times> 'd" where
  "rb_hardconfig_init lzo mtd d get_ret mem kobj_ok out_ok wlan_kobj_ok alloc alloc' battrs =
     (if get_ret \<noteq> 0 then (Inl (Errno (- ENODEV)), d)
      else case mem of
        None \<Rightarrow> (Inl (Errno (- ENOMEM)), d)
      | Some garbage \<Rightarrow>
          (case mtd_rd mtd d garbage of (ret, bytes_read, buf, d1) \<Rightarrow>
             if ret \<noteq> 0 then (Inl (Errno ret), d1)
             else if bytes_read \<noteq> mtd_sz mtd then (Inl (Errno (- EIO)), d1)
             else if length buf < 4 then (Inl Overrun, d1)
             else if rd32 buf 0 \<noteq> RB_MAGIC_HARD then (Inl (Errno (- EINVAL)), d1)
             else if \<not> kobj_ok then (Inl (Errno (- ENOMEM)), d1)
             else
               let wlan = (\<lambda>pld. hc_publish_wlan
                     (\<lambda>i. fst (hc_wlan_data_unpack lzo (alloc i) (alloc' i) buf i (unat (fst pld)) (unat (snd pld))
                       RB_ART_SIZE)) out_ok wlan_kobj_ok pld)
               in case hc_publish wlan (drop 4 buf) (size_sub (mtd_sz mtd) 4) (map hc_tag_id hc_attrs) battrs of
                 Inl e \<Rightarrow> (Inl e, d1)
               | Inr (plds, solo, multi) \<Rightarrow>
                   (Inr \<lparr> hc_buf = buf, hc_plds = plds, hc_solo = solo, hc_multi = multi \<rparr>, d1)))"

definition rb_hardconfig_exit :: "hc_state option \<Rightarrow> hc_state option" where
  "rb_hardconfig_exit s = None"

section \<open>From the flash to the calibration data\<close>

lemma find_erd_at:
  assumes "temp = pre @ le_bytes 4 RB_MAGIC_ERD @ rest" and "length pre = 4 * k"
    and "\<forall>j < k. rd32 temp (4 * j) \<noteq> RB_MAGIC_ERD"
  shows "i \<le> k \<Longrightarrow> find_erd temp (4 * i) = Inr (4 * k + 4)"
proof (induction "k - i" arbitrary: i)
  case 0
  then have "rd32 temp (4 * i) = RB_MAGIC_ERD"
    using rd32_at [of pre RB_MAGIC_ERD rest] assms(1,2) by simp
  then show ?case using 0 assms(1,2) by (subst find_erd.simps) simp
next
  case (Suc m)
  then have lt: "i < k" by simp
  have "find_erd temp (4 * Suc i) = Inr (4 * k + 4)" using Suc lt by (intro Suc.hyps(1)) simp_all
  moreover have "\<not> length temp < 4 * i + 4" "\<not> length temp \<le> 4 * i + 4"
    using assms(1,2) lt by simp_all
  ultimately show ?case using assms(3) lt by (subst find_erd.simps) (simp add: add.commute)
qed

text \<open>The decompressed data of the newer devices: a prefix, a magic number, and tags with a run-length code.\<close>

definition erd_blob :: "u8 list \<Rightarrow> (u16 \<times> u8 list) list \<Rightarrow> u8 list \<Rightarrow> u8 list" where
  "erd_blob pre tags rest = pre @ le_bytes 4 RB_MAGIC_ERD @ encode_tags tags @ rest"

definition erd_ok :: "u8 list \<Rightarrow> (u16 \<times> u8 list) list \<Rightarrow> bool" where
  "erd_ok pre tags \<longleftrightarrow> length pre mod 4 = 0 \<and> (\<forall>j < length pre div 4. rd32 pre (4 * j) \<noteq> RB_MAGIC_ERD)
     \<and> list_all tag_ok tags \<and> length (encode_tags tags) \<le> 65536"

lemma unpack_rle_blob:
  assumes "erd_ok pre tags" and "tag_id \<noteq> 0" and "find (\<lambda>t. fst t = tag_id) tags = Some (tag_id, concat (map run_code runs))"
    and "runs \<noteq> []" and "list_all run_ok runs" and "length (expand runs) \<le> outlen"
  shows "unpack_rle tag_id (erd_blob pre tags rest) outlen = Inr (expand runs)"
proof -
  define temp where "temp = erd_blob pre tags rest"
  define k where "k = length pre div 4"
  define buf where "buf = encode_tags tags @ rest"
  define p where "p = concat (map run_code runs)"
  have k: "length pre = 4 * k" using assms(1) mult_div_mod_eq [of 4 "length pre"] by (simp add: erd_ok_def k_def)
  have "rd32 temp (4 * j) = rd32 pre (4 * j)" if "j < k" for j
    using that k by (simp add: temp_def erd_blob_def rd32_def rd_bytes_append1)
  then have "\<forall>j < k. rd32 temp (4 * j) \<noteq> RB_MAGIC_ERD" using assms(1) by (simp add: erd_ok_def k_def)
  then have f: "find_erd temp 0 = Inr (4 * k + 4)"
    using find_erd_at [of temp pre "encode_tags tags @ rest" k 0] k by (simp add: temp_def erd_blob_def)
  have d: "drop (4 * k + 4) temp = buf" "length temp - (4 * k + 4) = length buf"
    using k by (simp_all add: temp_def erd_blob_def buf_def)
  have tags: "list_all tag_ok tags" "length (encode_tags tags) \<le> 65536" using assms(1) by (simp_all add: erd_ok_def)
  obtain ofs where o': "routerboot_tag_find (Some buf) (length buf) tag_id = Inr (ofs, of_nat (length p))"
      "unat ofs + length p \<le> length buf" "take (length p) (drop (unat ofs) buf) = p"
    using tag_find_encoded [OF assms(2) tags(1) buf_def tags(2)] assms(3) by (auto simp: p_def)
  have "(tag_id, p) \<in> set tags" using assms(3) by (auto simp: p_def find_Some_iff)
  then have "length p \<le> 65532" using tags(1) by (auto simp: list_all_iff tag_ok_def)
  then have u: "unat (of_nat (length p) :: u16) = length p" by simp
  have r: "routerboot_rle_decode (Some p) True outlen = (0, length (expand runs), expand runs)"
    using rle_decode_codes [OF assms(4,5,6)] by (simp add: p_def)
  show ?thesis
    using o' u r by (simp add: unpack_rle_def f d Let_def flip: temp_def)
qed


text \<open>
  A calibration tag of less than four bytes is not rejected: the length of the magic number is
  subtracted all the same, and wraps around. With the magic number of LZ77 the result is too large a
  length, and the buffer that was allocated first is not freed.
\<close>

theorem hc_wlan_data_unpack_short:
  assumes "tlen < 4" and "tofs + 4 \<le> length flash" and "rd32 flash tofs = RB_MAGIC_LZ77"
    and "tag_id \<noteq> RB_WLAN_ERD_ID_SOLO" and "outlen = RB_ART_SIZE"
  shows "hc_wlan_data_unpack lzo True alloc' flash tag_id tofs tlen outlen = (Inl (Errno (- EFBIG)), 1)"
proof -
  have "size_sub tlen 4 > outlen" using assms(1,5) by (simp add: size_sub_def)
  then show ?thesis
    using assms by (simp add: hc_wlan_data_unpack_def hc_wlan_data_unpack_lzor_lz77_def Let_def)
qed

theorem hc_wlan_data_unpack_short_witness:
  "hc_wlan_data_unpack (\<lambda>inp room. (0, [])) True True [0x37, 0x37, 0x5A, 0x4C] 0x8001 0 3 RB_ART_SIZE
   = (Inl (Errno (- EFBIG)), 1)"
proof -
  have "rd32 [0x37, 0x37, 0x5A, 0x4C] 0 = RB_MAGIC_LZ77" by code_simp
  then show ?thesis using hc_wlan_data_unpack_short
      [where tlen = 3 and tofs = 0 and flash = "[0x37, 0x37, 0x5A, 0x4C]" and tag_id = "0x8001" and outlen = RB_ART_SIZE]
    by simp
qed

definition demo_hc :: "u8 list" where
  "demo_hc = [0, 0, 0, 0, 64, 132, 18, 81, 0, 0, 5, 0, 1, 0, 24, 184, 127, 144, 0, 0, 0, 0, 48, 0]"


section \<open>What is given to the reader\<close>

text \<open>The documented behaviour of the LZO decompressor: it keeps to the room that it is given.\<close>

definition lzo_fits :: "lzo \<Rightarrow> bool" where
  "lzo_fits lzo \<longleftrightarrow> (\<forall>inp room. length (snd (lzo inp room)) \<le> room)"

lemma rle_decode_fits:
  "routerboot_rle_decode inp has_out outlen = (0, n, out) \<Longrightarrow> length out \<le> outlen"
  using rle_decode_bounded [where inp = inp and has_out = has_out and outlen = outlen] by simp

lemma unpack_rle_fits: "unpack_rle tag_id temp outlen = Inr out \<Longrightarrow> length out \<le> outlen"
  by (auto simp: unpack_rle_def Let_def split: sum.splits if_splits prod.splits dest!: rle_decode_fits)

lemma unpack_erd_fits:
  assumes "lzo_fits lzo" and "hc_wlan_data_unpack_erd lzo tag_id inbuf inlen outlen = Inr out"
  shows "length out \<le> outlen"
proof -
  obtain inp where "lzo inp outlen = (0, out)"
    using assms(2) by (auto simp: hc_wlan_data_unpack_erd_def split: sum.splits if_splits prod.splits)
  then show ?thesis using assms(1) unfolding lzo_fits_def by (metis snd_conv)
qed

lemma unpack_lzor_lz77_fits:
  "hc_wlan_data_unpack_lzor_lz77 lzo alloc alloc' tag_id inbuf inlen outlen magic = (Inr out, n) \<Longrightarrow>
    length out \<le> outlen \<and> n = 0"
  by (auto simp: hc_wlan_data_unpack_lzor_lz77_def Let_def split: sum.splits if_splits prod.splits
      dest: unpack_rle_fits)

lemma unpack_fits:
  assumes "lzo_fits lzo" and "hc_wlan_data_unpack lzo alloc alloc' flash tag_id tofs tlen outlen = (Inr out, n)"
  shows "length out \<le> outlen \<and> n = 0"
  using assms(2) unpack_erd_fits [OF assms(1)] rle_decode_fits unpack_lzor_lz77_fits
  by (auto simp: hc_wlan_data_unpack_def Let_def split: if_splits prod.splits)

text \<open>
  Reading the file in pieces gives the calibration data: a read at an offset gives the bytes from
  there on, cut at the end, and the data fits the buffer it was unpacked to. Nothing is left
  allocated.
\<close>

theorem hc_wlan_data_bin_read_slice:
  assumes "lzo_fits lzo" and "snd pld \<noteq> 0"
    and "hc_wlan_data_unpack lzo alloc alloc' flash tag_id (unat (fst pld)) (unat (snd pld)) RB_ART_SIZE = (Inr out, n)"
  shows "hc_wlan_data_bin_read lzo True alloc alloc' flash tag_id pld off count = Inr (take count (drop off out))
    \<and> length out \<le> RB_ART_SIZE \<and> n = 0"
proof -
  have "unat (snd pld) < 65536" using unsigned_less [of "snd pld", where 'a = nat] by simp
  then show ?thesis
    using assms(2,3) unpack_fits [OF assms(1,3)] by (auto simp: hc_wlan_data_bin_read_def Let_def)
qed

theorem hc_wlan_data_bin_read_slice_witness:
  "hc_wlan_data_bin_read (\<lambda>inp room. (0, [])) True True True [9, 9, 9, 9, 3, 7, - 1, 9] 1 (4, 4) 1 2 = Inr [7, 7]"
proof -
  have f: "lzo_fits (\<lambda>inp room. (0, []))" by (simp add: lzo_fits_def)
  have l: "snd (4 :: u16, 4 :: u16) \<noteq> 0" by simp
  have u: "hc_wlan_data_unpack (\<lambda>inp room. (0, [])) True True [9, 9, 9, 9, 3, 7, - 1, 9] 1
      (unat (fst (4 :: u16, 4 :: u16))) (unat (snd (4 :: u16, 4 :: u16))) RB_ART_SIZE = (Inr [7, 7, 7, 9], 0)"
  proof -
    have m: "rd32 [9, 9, 9, 9, 3, 7, - 1, 9] 4 \<notin> {RB_MAGIC_LZ77, RB_MAGIC_LZOR, RB_MAGIC_ERD}" by code_simp
    have "concat (map run_code [Repeat 3 7, Verbatim [9]]) = [3, 7, - 1, 9]" "expand [Repeat 3 7, Verbatim [9]] = [7, 7, 7, 9]"
      by code_simp+
    then have r: "routerboot_rle_decode (Some [3, 7, - 1, 9]) True RB_ART_SIZE = (0, length [7, 7, 7, 9 :: u8], [7, 7, 7, 9])"
      using rle_decode_codes [of "[Repeat 3 7, Verbatim [9]]" RB_ART_SIZE] by simp
    show ?thesis using m r by (simp add: hc_wlan_data_unpack_def Let_def)
  qed
  show ?thesis using hc_wlan_data_bin_read_slice [OF f l u, of 1 2] by simp
qed

end
