(* ===== verification/Mtd_Parse.thy ===== *)
theory Mtd_Parse
  imports Le_Bytes
begin

text \<open>
  What the partition parsers share: the flash device as a parser reads it, partitions, the
  rounding to erase blocks, and the search for a root file system, \<^verbatim>\<open>mtdsplit/mtdsplit.c\<close> and
  \<^verbatim>\<open>mtdsplit.h\<close>.

  Sizes and offsets are integers, with the wrap-around written out: a \<open>size_t\<close> has the width of
  the processor's \<open>long\<close>, the size of a device has 64 bits and its erase size 32. The byte order and
  the width of the processor are an argument, \<open>cpu\<close>. A parser does not write: the device is a
  function from an offset and a length to the result of \<open>mtd_read\<close>, its return value and the bytes
  that it read (as many as \<open>*retlen\<close> says). An offset that is negative as a \<open>loff_t\<close> is passed on
  as the large positive number; both are outside the device.
\<close>

section \<open>The processor\<close>

record cpu =
  big_endian :: bool
  long_bits :: nat

abbreviation cpu_le32 :: cpu where "cpu_le32 \<equiv> \<lparr>big_endian = False, long_bits = 32\<rparr>"
abbreviation cpu_be32 :: cpu where "cpu_be32 \<equiv> \<lparr>big_endian = True, long_bits = 32\<rparr>"
abbreviation cpu_le64 :: cpu where "cpu_le64 \<equiv> \<lparr>big_endian = False, long_bits = 64\<rparr>"

text \<open>The value stored in a \<open>size_t\<close>, a \<open>uint64_t\<close> and a \<open>uint32_t\<close>.\<close>

definition szt :: "cpu \<Rightarrow> int \<Rightarrow> int" where "szt c x = x mod 2 ^ long_bits c"
definition wrap64 :: "int \<Rightarrow> int" where "wrap64 x = x mod 2 ^ 64"
definition wrap32 :: "int \<Rightarrow> int" where "wrap32 x = x mod 2 ^ 32"

lemma szt_small: "0 \<le> x \<Longrightarrow> x < 2 ^ 32 \<Longrightarrow> 32 \<le> long_bits c \<Longrightarrow> szt c x = x"
proof -
  assume x: "0 \<le> x" "x < 2 ^ 32" and "32 \<le> long_bits c"
  then have "(2 :: int) ^ 32 \<le> 2 ^ long_bits c" by (intro power_increasing) auto
  then have "x < 2 ^ long_bits c" using x(2) by linarith
  then show ?thesis using x(1) by (simp add: szt_def)
qed

lemma wrap64_small [simp]: "0 \<le> x \<Longrightarrow> x < 2 ^ 64 \<Longrightarrow> wrap64 x = x"
  by (simp add: wrap64_def)

lemma wrap32_small [simp]: "0 \<le> x \<Longrightarrow> x < 2 ^ 32 \<Longrightarrow> wrap32 x = x"
  by (simp add: wrap32_def)

lemma szt_nonneg [simp]: "0 \<le> szt c x"
  by (simp add: szt_def)

lemma wrap64_nonneg [simp]: "0 \<le> wrap64 x"
  by (simp add: wrap64_def)

text \<open>Big-endian values, and values in the byte order of the processor.\<close>

definition rd16be :: "u8 list \<Rightarrow> nat \<Rightarrow> u16" where
  "rd16be buf off = le_val (rev (rd_bytes buf off 2))"

definition rd32be :: "u8 list \<Rightarrow> nat \<Rightarrow> u32" where
  "rd32be buf off = le_val (rev (rd_bytes buf off 4))"

definition rd64be :: "u8 list \<Rightarrow> nat \<Rightarrow> u64" where
  "rd64be buf off = le_val (rev (rd_bytes buf off 8))"

definition rd16c :: "cpu \<Rightarrow> u8 list \<Rightarrow> nat \<Rightarrow> u16" where
  "rd16c c buf off = (if big_endian c then rd16be buf off else rd16 buf off)"

definition rd32c :: "cpu \<Rightarrow> u8 list \<Rightarrow> nat \<Rightarrow> u32" where
  "rd32c c buf off = (if big_endian c then rd32be buf off else rd32 buf off)"

definition rd64c :: "cpu \<Rightarrow> u8 list \<Rightarrow> nat \<Rightarrow> u64" where
  "rd64c c buf off = (if big_endian c then rd64be buf off else rd64 buf off)"

lemmas rd_be_defs = rd16be_def rd32be_def rd64be_def

text \<open>\<open>n\<close> bytes from an object in memory, and what follows it.\<close>

definition mem_view :: "(nat \<Rightarrow> u8) \<Rightarrow> u8 list \<Rightarrow> nat \<Rightarrow> nat \<Rightarrow> u8 list" where
  "mem_view junk buf off n = map (\<lambda>i. if i < length buf then buf ! i else junk i) [off..<off + n]"

section \<open>Devices and partitions\<close>

record mtd_info =
  mtd_name :: string
  mtd_size :: int
  erasesize :: int
  mtd_rd :: "int \<Rightarrow> int \<Rightarrow> int \<times> u8 list"

abbreviation (input) ENOENT :: int where "ENOENT \<equiv> 2"
abbreviation MTD_WRITEABLE :: u32 where "MTD_WRITEABLE \<equiv> 0x400"
abbreviation MTD_POWERUP_LOCK :: u32 where "MTD_POWERUP_LOCK \<equiv> 0x2000"

record mtd_part =
  p_name :: string
  p_mask :: u32
  p_off :: int
  p_len :: int

definition mk_part :: "string \<Rightarrow> int \<Rightarrow> int \<Rightarrow> mtd_part" where
  "mk_part nm off len = \<lparr>p_name = nm, p_mask = 0, p_off = off, p_len = len\<rparr>"

lemma mk_part_simps [simp]:
  "p_name (mk_part nm off len) = nm" "p_mask (mk_part nm off len) = 0"
  "p_off (mk_part nm off len) = off" "p_len (mk_part nm off len) = len"
  by (simp_all add: mk_part_def)

text \<open>What a parser gives: its return value and \<open>*pparts\<close>, \<open>None\<close> where it is not set.\<close>

type_synonym parsed = "int \<times> mtd_part list option"

abbreviation parse_error :: "int \<Rightarrow> parsed" where "parse_error e \<equiv> (e, None)"

abbreviation KERNEL_PART_NAME :: string where "KERNEL_PART_NAME \<equiv> ''kernel''"
abbreviation ROOTFS_PART_NAME :: string where "ROOTFS_PART_NAME \<equiv> ''rootfs''"
abbreviation UBI_PART_NAME :: string where "UBI_PART_NAME \<equiv> ''ubi''"
abbreviation ROOTFS_SPLIT_NAME :: string where "ROOTFS_SPLIT_NAME \<equiv> ''rootfs_data''"

text \<open>
  The documented behaviour of \<open>mtd_read\<close>: it reads no more than asked for, and a successful read
  lies in the device. The error numbers are negative.
\<close>

definition mtd_sane :: "mtd_info \<Rightarrow> bool" where
  "mtd_sane m \<longleftrightarrow> 0 < erasesize m \<and> 0 \<le> mtd_size m \<and> mtd_size m < 2 ^ 63 \<and>
     (\<forall>off len. length (snd (mtd_rd m off len)) \<le> nat len \<and> fst (mtd_rd m off len) \<le> 0 \<and>
        (fst (mtd_rd m off len) = 0 \<longrightarrow> 0 \<le> off \<and> off + len \<le> mtd_size m))"

text \<open>A flash with the given content and no errors; it has the behaviour.\<close>

definition flash :: "string \<Rightarrow> int \<Rightarrow> u8 list \<Rightarrow> mtd_info" where
  "flash nm esz mem = \<lparr>mtd_name = nm, mtd_size = int (length mem), erasesize = esz,
     mtd_rd = (\<lambda>off len. if 0 \<le> off \<and> 0 \<le> len \<and> off + len \<le> int (length mem)
       then (0, take (nat len) (drop (nat off) mem)) else (- EINVAL, []))\<rparr>"

lemma flash_simps [simp]:
  "mtd_name (flash nm esz mem) = nm" "mtd_size (flash nm esz mem) = int (length mem)"
  "erasesize (flash nm esz mem) = esz"
  by (simp_all add: flash_def)

lemma mtd_sane_flash: "0 < esz \<Longrightarrow> length mem < 2 ^ 63 \<Longrightarrow> mtd_sane (flash nm esz mem)"
  by (auto simp: mtd_sane_def flash_def)

lemma mtd_saneD:
  assumes "mtd_sane m"
  shows "0 < erasesize m" "0 \<le> mtd_size m" "mtd_size m < 2 ^ 63"
    "mtd_rd m off len = (r, d) \<Longrightarrow> length d \<le> nat len"
    "mtd_rd m off len = (r, d) \<Longrightarrow> r \<le> 0"
    "mtd_rd m off len = (0, d) \<Longrightarrow> 0 \<le> off \<and> off + len \<le> mtd_size m"
  using assms unfolding mtd_sane_def by (metis fst_conv snd_conv)+

text \<open>A read that must give all its bytes: the error number of the read, or of a short read.\<close>

definition read_exact :: "mtd_info \<Rightarrow> int \<Rightarrow> nat \<Rightarrow> int + u8 list" where
  "read_exact m off n =
     (case mtd_rd m off (int n) of
        (ret, d) \<Rightarrow> if ret \<noteq> 0 then Inl ret else if length d \<noteq> n then Inl (- EIO) else Inr d)"

lemma read_exact_flash:
  "read_exact (flash nm esz mem) off n =
     (if 0 \<le> off \<and> off + int n \<le> int (length mem) then Inr (take n (drop (nat off) mem)) else Inl (- EINVAL))"
  by (auto simp: read_exact_def flash_def)

lemma read_exact_Inr:
  "read_exact m off n = Inr d \<longleftrightarrow> mtd_rd m off (int n) = (0, d) \<and> length d = n"
  by (auto simp: read_exact_def split: prod.splits if_splits)

lemma read_exact_in_device:
  "mtd_sane m \<Longrightarrow> read_exact m off n = Inr d \<Longrightarrow> 0 \<le> off \<and> off + int n \<le> mtd_size m"
  by (auto simp: read_exact_Inr dest: mtd_saneD(6))

lemma read_exact_Inl_neg:
  "mtd_sane m \<Longrightarrow> read_exact m off n = Inl e \<Longrightarrow> e < 0"
  by (auto simp: read_exact_def split: prod.splits if_splits dest: mtd_saneD(5))

section \<open>Loops over offsets\<close>

text \<open>
  \<open>for (off = a; off < lim; off = next(off)) body\<close>. The body works on the variables of the loop and
  tells whether it leaves the loop; the result is the offset and the variables after the loop.
  \<open>None\<close> is a loop that does not end.
\<close>

partial_function (option) for_off ::
  "(int \<Rightarrow> int) \<Rightarrow> int \<Rightarrow> (int \<Rightarrow> 's \<Rightarrow> 's \<times> bool) \<Rightarrow> int \<Rightarrow> 's \<Rightarrow> (int \<times> 's) option" where
  "for_off nxt lim body off s =
     (if off < lim then
        case body off s of
          (s', leave) \<Rightarrow> if leave then Some (off, s') else for_off nxt lim body (nxt off) s'
      else Some (off, s))"

declare for_off.simps [code]

lemma for_off_end: "\<not> off < lim \<Longrightarrow> for_off nxt lim body off s = Some (off, s)"
  by (subst for_off.simps) simp

lemma for_off_leave:
  "off < lim \<Longrightarrow> body off s = (s', True) \<Longrightarrow> for_off nxt lim body off s = Some (off, s')"
  by (subst for_off.simps) simp

lemma for_off_next:
  "off < lim \<Longrightarrow> body off s = (s', False)
    \<Longrightarrow> for_off nxt lim body off s = for_off nxt lim body (nxt off) s'"
  by (subst for_off.simps) simp

lemmas for_off_steps [step_simps] = for_off_end for_off_leave for_off_next

text \<open>Where the loop stops, and what holds there.\<close>

lemma for_off_inv:
  assumes run: "for_off nxt lim body off s = Some (o', t)"
    and init: "I off s"
    and step: "\<And>p u u'. I p u \<Longrightarrow> p < lim \<Longrightarrow> body p u = (u', False) \<Longrightarrow> I (nxt p) u'"
  shows "(\<not> o' < lim \<and> I o' t) \<or> (o' < lim \<and> (\<exists>u. I o' u \<and> body o' u = (t, True)))"
proof -
  define J where "J nxt lim body \<longleftrightarrow> (\<forall>p u u'. I p u \<longrightarrow> p < lim \<longrightarrow> body p u = (u', False) \<longrightarrow> I (nxt p) u')"
    for nxt lim and body :: "int \<Rightarrow> 'a \<Rightarrow> 'a \<times> bool"
  define R where "R lim body o' t \<longleftrightarrow>
      (\<not> o' < lim \<and> I o' t) \<or> (o' < lim \<and> (\<exists>u. I o' u \<and> body o' u = (t, True)))"
    for lim o' t and body :: "int \<Rightarrow> 'a \<Rightarrow> 'a \<times> bool"
  have "J nxt lim body \<longrightarrow> I off s \<longrightarrow> R lim body (fst (o', t)) (snd (o', t))"
  proof (rule for_off.raw_induct [where P = "\<lambda>nxt lim body off s r. J nxt lim body \<longrightarrow> I off s \<longrightarrow>
          R lim body (fst r) (snd r)", OF _ run], intro impI)
    fix rec nxt lim off s r and body :: "int \<Rightarrow> 'a \<Rightarrow> 'a \<times> bool"
    assume IH: "\<And>nxt lim body off s r. rec nxt lim body off s = Some r \<Longrightarrow>
        J nxt lim body \<longrightarrow> I off s \<longrightarrow> R lim body (fst r) (snd r)"
      and eq: "(if off < lim then case body off s of (s', leave) \<Rightarrow>
          if leave then Some (off, s') else rec nxt lim body (nxt off) s' else Some (off, s)) = Some r"
      and J: "J nxt lim body" and i: "I off s"
    obtain s' leave where b: "body off s = (s', leave)" by fastforce
    consider "\<not> off < lim" | "off < lim" "leave" | "off < lim" "\<not> leave" by blast
    then show "R lim body (fst r) (snd r)"
    proof cases
      case 3
      then have "I (nxt off) s'" using J i b by (auto simp: J_def)
      then show ?thesis using IH [of nxt lim body "nxt off" s' r] eq 3 b J by simp
    qed (use eq i b in \<open>auto simp: R_def\<close>)
  qed
  then show ?thesis using init step by (auto simp: J_def R_def)
qed

text \<open>The loop ends when the offset grows.\<close>

lemma for_off_returns:
  assumes "P off"
    and step: "\<And>p. P p \<Longrightarrow> p < lim \<Longrightarrow> p < nxt p \<and> P (nxt p)"
  shows "\<exists>o' t. for_off nxt lim body off s = Some (o', t)"
  using assms(1)
proof (induction "nat (lim - off)" arbitrary: off s rule: less_induct)
  case less
  show ?case
  proof (cases "off < lim")
    case True
    obtain s' leave where b: "body off s = (s', leave)" by fastforce
    have "nat (lim - nxt off) < nat (lim - off)" and "P (nxt off)" using step [OF less.prems True] True by auto
    then have "\<exists>o' t. for_off nxt lim body (nxt off) s' = Some (o', t)" by (rule less.hyps)
    then show ?thesis using True b by (cases leave) (simp_all add: for_off_leave for_off_next)
  qed (simp add: for_off_end)
qed

text \<open>
  A body that leaves the loop by what it sees at the offset alone: \<open>mem\<close> holds of the offsets that
  the loop visits, and the result is the first of them at which the body leaves, or none.
\<close>

lemma for_off_search:
  assumes run: "for_off nxt lim body off s = Some (o', t)"
    and body: "\<And>p u. body p u = (if hit p then (val p, True) else (miss p u, False))"
    and mem: "I off" "\<And>p. I p \<Longrightarrow> p < lim \<Longrightarrow> I (nxt p)"
    and gap: "\<And>p q. I p \<Longrightarrow> p < lim \<Longrightarrow> I q \<Longrightarrow> p < q \<Longrightarrow> nxt p \<le> q"
  shows "I o' \<and> (\<forall>p. I p \<longrightarrow> off \<le> p \<longrightarrow> p < o' \<longrightarrow> \<not> hit p) \<and> (o' < lim \<longrightarrow> hit o' \<and> t = val o')"
proof -
  let ?J = "\<lambda>p (u :: 'a). I p \<and> (\<forall>q. I q \<longrightarrow> off \<le> q \<longrightarrow> q < p \<longrightarrow> \<not> hit q)"
  have "(\<not> o' < lim \<and> ?J o' t) \<or> (o' < lim \<and> (\<exists>u. ?J o' u \<and> body o' u = (t, True)))"
  proof (rule for_off_inv [OF run])
    show "?J off s" using mem(1) by simp
  next
    fix p u u' assume J: "?J p u" and lim: "p < lim" and "body p u = (u', False)"
    then have "\<not> hit p" by (auto simp: body split: if_splits)
    moreover have "q < nxt p \<Longrightarrow> I q \<Longrightarrow> q \<le> p" for q using gap [of p q] J lim by force
    ultimately show "?J (nxt p) u'" using J lim mem(2) by (metis order.not_eq_order_implies_strict)
  qed
  then show ?thesis by (auto simp: body split: if_splits)
qed

section \<open>Erase blocks\<close>

text \<open>
  \<open>mtd_div_by_eb\<close> gives a \<open>uint32_t\<close>, and its product with the erase size is one of 32 bits.
\<close>

definition mtd_div_by_eb :: "int \<Rightarrow> mtd_info \<Rightarrow> int" where
  "mtd_div_by_eb sz m = wrap32 (sz div erasesize m)"

definition mtd_roundup_to_eb :: "int \<Rightarrow> mtd_info \<Rightarrow> int" where
  "mtd_roundup_to_eb sz m =
     (if sz mod erasesize m = 0 then sz else wrap32 ((mtd_div_by_eb sz m + 1) * erasesize m))"

definition mtd_rounddown_to_eb :: "int \<Rightarrow> mtd_info \<Rightarrow> int" where
  "mtd_rounddown_to_eb sz m =
     (if sz mod erasesize m = 0 then sz else wrap32 (mtd_div_by_eb sz m * erasesize m))"

text \<open>The next erase block, a \<open>ssize_t\<close> that the callers store in a \<open>size_t\<close>.\<close>

definition mtd_next_eb :: "cpu \<Rightarrow> mtd_info \<Rightarrow> int \<Rightarrow> int" where
  "mtd_next_eb c m off = szt c (mtd_rounddown_to_eb off m + erasesize m)"

lemma mtd_div_by_eb_small:
  assumes "0 < erasesize m" "0 \<le> sz" "sz < 2 ^ 32"
  shows "mtd_div_by_eb sz m = sz div erasesize m"
proof -
  have "sz div erasesize m \<le> sz" using assms by (metis int_div_less_self less_imp_le nle_le
        div_by_1 zdiv_mono2 int_one_le_iff_zero_less)
  then show ?thesis using assms by (simp add: mtd_div_by_eb_def pos_imp_zdiv_nonneg_iff)
qed

lemma eb_split:
  assumes "0 < (e :: int)" "0 \<le> sz"
  obtains q r where "sz = q * e + r" "0 \<le> r" "r < e" "0 \<le> q" "sz div e = q" "sz mod e = r" "0 \<le> q * e"
  using assms by (metis div_mult_mod_eq pos_imp_zdiv_nonneg_iff pos_mod_bound pos_mod_sign
      mult_nonneg_nonneg less_imp_le)

lemma mtd_rounddown_to_eb_small:
  assumes "0 < erasesize m" "0 \<le> sz" "sz < 2 ^ 32"
  shows "mtd_rounddown_to_eb sz m = sz div erasesize m * erasesize m"
proof -
  obtain q r where "sz = q * erasesize m + r" "0 \<le> r" "sz div erasesize m = q" "sz mod erasesize m = r"
    "0 \<le> q * erasesize m"
    using assms eb_split by metis
  moreover have "mtd_div_by_eb sz m = q" using mtd_div_by_eb_small [OF assms] calculation by simp
  ultimately show ?thesis using assms(3) unfolding mtd_rounddown_to_eb_def by auto
qed

lemma mtd_roundup_to_eb_small:
  assumes "0 < erasesize m" "0 \<le> sz" "sz + erasesize m \<le> 2 ^ 32"
  shows "mtd_roundup_to_eb sz m = (sz + (erasesize m - 1)) div erasesize m * erasesize m"
proof -
  obtain q r where sz: "sz = q * erasesize m + r" and r: "0 \<le> r" "r < erasesize m" and
    q: "0 \<le> q" "sz div erasesize m = q" "sz mod erasesize m = r" "0 \<le> q * erasesize m"
    using assms eb_split by metis
  have d: "mtd_div_by_eb sz m = q" using q assms by (simp add: mtd_div_by_eb_small)
  have "(sz + (erasesize m - 1)) div erasesize m = q + (r + (erasesize m - 1)) div erasesize m"
    using assms(1) by (simp add: sz add.assoc)
  moreover have "(r + (erasesize m - 1)) div erasesize m = (if r = 0 then 0 else 1)"
    using r by (auto simp: div_pos_pos_trivial int_div_pos_eq)
  moreover have "(q + 1) * erasesize m = sz - r + erasesize m" by (simp add: sz algebra_simps)
  ultimately show ?thesis
    using r sz q d assms(3) by (auto simp: mtd_roundup_to_eb_def)
qed

lemma mtd_next_eb_small:
  assumes "0 < erasesize m" "0 \<le> off" "off + erasesize m < 2 ^ 32" "32 \<le> long_bits c"
  shows "mtd_next_eb c m off = (off div erasesize m + 1) * erasesize m"
proof -
  have "mtd_rounddown_to_eb off m = off div erasesize m * erasesize m"
    using assms by (simp add: mtd_rounddown_to_eb_small)
  moreover obtain q r where "off = q * erasesize m + r" "0 \<le> r" "off div erasesize m = q" "0 \<le> q * erasesize m"
    using assms eb_split by metis
  ultimately show ?thesis
    using assms by (simp add: mtd_next_eb_def algebra_simps) (subst szt_small; simp)
qed

text \<open>The offsets that a search from \<open>from\<close> visits: its start and the erase blocks after it.\<close>

definition eb_step :: "int \<Rightarrow> int \<Rightarrow> int \<Rightarrow> bool" where
  "eb_step e from off \<longleftrightarrow> from \<le> off \<and> (off = from \<or> e dvd off)"

lemma next_multiple:
  assumes "0 < (e :: int)"
  shows "off < (off div e + 1) * e" "(off div e + 1) * e \<le> off + e"
    "e dvd q \<Longrightarrow> off < q \<Longrightarrow> (off div e + 1) * e \<le> q"
proof -
  have "off = off div e * e + off mod e" "0 \<le> off mod e" "off mod e < e" using assms by simp_all
  then show "off < (off div e + 1) * e" "(off div e + 1) * e \<le> off + e"
    unfolding distrib_right mult_1_left by linarith+
  assume "e dvd q" "off < q"
  then obtain k where q: "q = k * e" by (auto simp: dvd_def mult.commute)
  have "off div e < k"
  proof (rule ccontr)
    assume "\<not> off div e < k"
    then have "k * e \<le> off div e * e" using assms by (intro mult_right_mono) auto
    then show False using \<open>off < q\<close> q \<open>off = off div e * e + off mod e\<close> \<open>0 \<le> off mod e\<close> by linarith
  qed
  then show "(off div e + 1) * e \<le> q" unfolding q using assms by (intro mult_right_mono) auto
qed

section \<open>Finding a root file system\<close>

datatype mtdsplit_part_type = PART_TYPE_UNK | PART_TYPE_SQUASHFS | PART_TYPE_JFFS2 | PART_TYPE_UBI

abbreviation SQUASHFS_MAGIC :: u32 where "SQUASHFS_MAGIC \<equiv> 0x73717368"
abbreviation UBI_EC_MAGIC :: u32 where "UBI_EC_MAGIC \<equiv> 0x55424923"

definition mtd_get_squashfs_len :: "cpu \<Rightarrow> mtd_info \<Rightarrow> int \<Rightarrow> int + int" where
  "mtd_get_squashfs_len c m off =
     (case read_exact m off 48 of
        Inl _ \<Rightarrow> Inl (- EIO)
      | Inr sb \<Rightarrow>
          if rd32 sb 0 \<noteq> SQUASHFS_MAGIC then Inl (- EINVAL)
          else
            let retlen = szt c (uint (rd64 sb 40)) in
            if retlen \<le> 0 then Inl (- ENOENT)
            else if szt c (off + retlen) > mtd_size m then Inl (- EINVAL)
            else Inr retlen)"

text \<open>The magic number of JFFS2 is compared in the byte order of the processor.\<close>

definition mtd_check_rootfs_magic :: "cpu \<Rightarrow> mtd_info \<Rightarrow> int \<Rightarrow> int + mtdsplit_part_type" where
  "mtd_check_rootfs_magic c m off =
     (case read_exact m off 4 of
        Inl e \<Rightarrow> Inl e
      | Inr d \<Rightarrow>
          if rd32 d 0 = SQUASHFS_MAGIC then Inr PART_TYPE_SQUASHFS
          else if rd32c c d 0 = 0x19852003 then Inr PART_TYPE_JFFS2
          else if rd32be d 0 = UBI_EC_MAGIC then Inr PART_TYPE_UBI
          else Inl (- EINVAL))"

text \<open>The result holds \<open>*ret_offset\<close> and \<open>*type\<close>.\<close>

definition find_rootfs_body ::
  "cpu \<Rightarrow> mtd_info \<Rightarrow> int \<Rightarrow> int + int \<times> mtdsplit_part_type \<Rightarrow> (int + int \<times> mtdsplit_part_type) \<times> bool" where
  "find_rootfs_body c m off r =
     (case mtd_check_rootfs_magic c m off of
        Inl _ \<Rightarrow> (r, False)
      | Inr t \<Rightarrow> (Inr (off, t), True))"

definition mtd_find_rootfs_from ::
  "cpu \<Rightarrow> mtd_info \<Rightarrow> int \<Rightarrow> int \<Rightarrow> (int + int \<times> mtdsplit_part_type) option" where
  "mtd_find_rootfs_from c m from limit =
     map_option snd (for_off (mtd_next_eb c m) limit (find_rootfs_body c m) from (Inl (- ENOENT)))"

lemma check_rootfs_magic_in_device:
  "mtd_sane m \<Longrightarrow> mtd_check_rootfs_magic c m off = Inr t \<Longrightarrow> 0 \<le> off \<and> off + 4 \<le> mtd_size m"
  by (auto simp: mtd_check_rootfs_magic_def dest!: read_exact_in_device split: sum.splits)

lemma find_rootfs_body_leave:
  "find_rootfs_body c m p u =
     (if \<not> isl (mtd_check_rootfs_magic c m p) then (Inr (p, projr (mtd_check_rootfs_magic c m p)), True)
      else (u, False))"
  by (simp add: find_rootfs_body_def split: sum.splits)

text \<open>What the callers rely on, whatever the offsets are.\<close>

lemma find_rootfs_loop:
  assumes "for_off (mtd_next_eb c m) limit (find_rootfs_body c m) from (Inl (- ENOENT)) = Some (o', r)"
  shows "(\<not> o' < limit \<and> r = Inl (- ENOENT)) \<or>
    (o' < limit \<and> (\<exists>t. r = Inr (o', t) \<and> mtd_check_rootfs_magic c m o' = Inr t))"
proof -
  have "(\<not> o' < limit \<and> r = Inl (- ENOENT)) \<or>
      (o' < limit \<and> (\<exists>u. u = Inl (- ENOENT) \<and> find_rootfs_body c m o' u = (r, True)))"
    by (rule for_off_inv [OF assms, of "\<lambda>p u. u = Inl (- ENOENT)"])
      (auto simp: find_rootfs_body_def split: sum.splits)
  then show ?thesis by (auto simp: find_rootfs_body_def split: sum.splits)
qed

lemma mtd_find_rootfs_from_cases:
  assumes "mtd_find_rootfs_from c m from limit = Some r"
  shows "r = Inl (- ENOENT) \<or> (\<exists>off t. r = Inr (off, t) \<and> off < limit \<and> mtd_check_rootfs_magic c m off = Inr t)"
  using assms by (auto simp: mtd_find_rootfs_from_def dest: find_rootfs_loop)

text \<open>On a device of less than 4 GiB the search ends, and visits its start and the later erase blocks.\<close>

definition searchable :: "cpu \<Rightarrow> mtd_info \<Rightarrow> bool" where
  "searchable c m \<longleftrightarrow> mtd_sane m \<and> 32 \<le> long_bits c \<and> mtd_size m + erasesize m \<le> 2 ^ 32"

lemma searchableD:
  assumes "searchable c m"
  shows "mtd_sane m" "32 \<le> long_bits c" "mtd_size m + erasesize m \<le> 2 ^ 32" "0 < erasesize m" "0 \<le> mtd_size m"
  using assms mtd_saneD(1,2) by (auto simp: searchable_def)

lemma next_eb_step:
  assumes "searchable c m" "0 \<le> from" "eb_step (erasesize m) from p" "p < mtd_size m"
  shows "p < mtd_next_eb c m p" "eb_step (erasesize m) from (mtd_next_eb c m p)"
    "eb_step (erasesize m) from q \<Longrightarrow> p < q \<Longrightarrow> mtd_next_eb c m p \<le> q"
proof -
  have e: "0 < erasesize m" and p: "0 \<le> p" using assms searchableD by (auto simp: eb_step_def)
  have n: "mtd_next_eb c m p = (p div erasesize m + 1) * erasesize m"
    using searchableD [OF assms(1)] p assms(4) by (intro mtd_next_eb_small) auto
  show lt: "p < mtd_next_eb c m p" using next_multiple(1) [OF e] n by simp
  show "eb_step (erasesize m) from (mtd_next_eb c m p)" using assms(3) lt n by (auto simp: eb_step_def)
  show "mtd_next_eb c m p \<le> q" if "eb_step (erasesize m) from q" "p < q"
    using that assms(3) next_multiple(3) [OF e, of q p] n by (auto simp: eb_step_def)
qed

lemma mtd_find_rootfs_from_returns:
  assumes "searchable c m" "0 \<le> from" "limit \<le> mtd_size m"
  shows "\<exists>r. mtd_find_rootfs_from c m from limit = Some r"
proof -
  have "\<exists>o' t. for_off (mtd_next_eb c m) limit (find_rootfs_body c m) from (Inl (- ENOENT)) = Some (o', t)"
    using next_eb_step [OF assms(1,2)] assms(3)
    by (intro for_off_returns [of "eb_step (erasesize m) from"]) (force simp: eb_step_def)+
  then show ?thesis by (auto simp: mtd_find_rootfs_from_def)
qed

text \<open>The reference: the first offset of the search that holds a root file system.\<close>

definition first_rootfs ::
  "cpu \<Rightarrow> mtd_info \<Rightarrow> int \<Rightarrow> int \<Rightarrow> int \<Rightarrow> mtdsplit_part_type \<Rightarrow> bool" where
  "first_rootfs c m from limit off t \<longleftrightarrow>
     eb_step (erasesize m) from off \<and> off < limit \<and> mtd_check_rootfs_magic c m off = Inr t \<and>
     (\<forall>p. eb_step (erasesize m) from p \<and> p < off \<longrightarrow> isl (mtd_check_rootfs_magic c m p))"

lemma first_rootfs_unique:
  "first_rootfs c m from limit off t \<Longrightarrow> first_rootfs c m from limit off' t' \<Longrightarrow> off = off' \<and> t = t'"
  unfolding first_rootfs_def by (metis linorder_neqE sum.disc(2) sum.inject(2))

lemma mtd_find_rootfs_from_spec:
  assumes s: "searchable c m" "0 \<le> from" "limit \<le> mtd_size m"
  shows "case mtd_find_rootfs_from c m from limit of
      None \<Rightarrow> False
    | Some (Inr (off, t)) \<Rightarrow> first_rootfs c m from limit off t
    | Some (Inl e) \<Rightarrow> e = - ENOENT \<and> (\<forall>off t. \<not> first_rootfs c m from limit off t)"
proof -
  obtain r o' where r: "mtd_find_rootfs_from c m from limit = Some r"
    and run: "for_off (mtd_next_eb c m) limit (find_rootfs_body c m) from (Inl (- ENOENT)) = Some (o', r)"
    using mtd_find_rootfs_from_returns [OF s] by (auto simp: mtd_find_rootfs_from_def)
  let ?I = "\<lambda>p. eb_step (erasesize m) from p"
  have I: "?I from" by (simp add: eb_step_def)
  have srch: "?I o' \<and> (\<forall>p. ?I p \<longrightarrow> from \<le> p \<longrightarrow> p < o' \<longrightarrow> isl (mtd_check_rootfs_magic c m p)) \<and>
      (o' < limit \<longrightarrow> \<not> isl (mtd_check_rootfs_magic c m o') \<and> r = Inr (o', projr (mtd_check_rootfs_magic c m o')))"
    using for_off_search [OF run find_rootfs_body_leave, of ?I] I next_eb_step [OF s(1,2)] s(3) by auto
  show ?thesis
  proof (cases "o' < limit")
    case True
    then show ?thesis using srch r by (auto simp: first_rootfs_def eb_step_def)
  next
    case False
    then have none: "isl (mtd_check_rootfs_magic c m p)" if "?I p" "p < limit" for p
      using that srch by (auto simp: eb_step_def)
    have "\<not> first_rootfs c m from limit off t" for off t
      using none [of off] by (auto simp: first_rootfs_def)
    moreover have "r = Inl (- ENOENT)"
      using find_rootfs_loop [OF run] False by simp
    ultimately show ?thesis using r by simp
  qed
qed

section \<open>What the parsers rely on\<close>

text \<open>A partition that lies in the device, and one that holds something.\<close>

definition part_in :: "mtd_info \<Rightarrow> mtd_part \<Rightarrow> bool" where
  "part_in m p \<longleftrightarrow> 0 \<le> p_off p \<and> 0 \<le> p_len p \<and> p_off p + p_len p \<le> mtd_size m"

text \<open>
  The contract of the search: a root file system that is found lies in the device, and a search that
  returns has found one before its limit or gives \<open>- ENOENT\<close>. A parser makes the partition of the
  root file system of what is left from there.
\<close>

locale rootfs_search =
  fixes check :: "mtd_info \<Rightarrow> int \<Rightarrow> int + mtdsplit_part_type"
    and find_from :: "mtd_info \<Rightarrow> int \<Rightarrow> int \<Rightarrow> (int + int \<times> mtdsplit_part_type) option"
  assumes check_in: "mtd_sane m \<Longrightarrow> check m off = Inr t \<Longrightarrow> 0 \<le> off \<and> off + 4 \<le> mtd_size m"
    and find_cases: "find_from m from limit = Some r \<Longrightarrow>
      r = Inl (- ENOENT) \<or> (\<exists>off t. r = Inr (off, t) \<and> off < limit \<and> check m off = Inr t)"
begin

lemma checked_part:
  assumes "mtd_sane m" "check m off = Inr t"
  shows "wrap64 (mtd_size m - off) = mtd_size m - off" "0 \<le> off" "off < mtd_size m"
    "part_in m (mk_part nm off (wrap64 (mtd_size m - off)))"
proof -
  show off: "0 \<le> off" "off < mtd_size m" using check_in [OF assms] by auto
  then show "wrap64 (mtd_size m - off) = mtd_size m - off" using mtd_saneD(3) [OF assms(1)] by simp
  then show "part_in m (mk_part nm off (wrap64 (mtd_size m - off)))" using off by (simp add: part_in_def)
qed

lemma found: "find_from m from limit = Some (Inr (off, t)) \<Longrightarrow> off < limit \<and> check m off = Inr t"
  by (drule find_cases) auto

lemma not_found: "find_from m from limit = Some (Inl e) \<Longrightarrow> e = - ENOENT"
  by (drule find_cases) auto

lemma found_part:
  assumes "mtd_sane m" "find_from m from limit = Some (Inr (off, t))"
  shows "wrap64 (mtd_size m - off) = mtd_size m - off" "0 \<le> off" "off < mtd_size m" "off < limit"
    "check m off = Inr t"
  using checked_part(1-3) [OF assms(1)] found [OF assms(2)] by auto

end

interpretation rfs: rootfs_search "mtd_check_rootfs_magic c" "mtd_find_rootfs_from c" for c
proof
  show "0 \<le> off \<and> off + 4 \<le> mtd_size m" if "mtd_sane m" "mtd_check_rootfs_magic c m off = Inr t" for m off t
    using that by (rule check_rootfs_magic_in_device)
  show "r = Inl (- ENOENT) \<or> (\<exists>off t. r = Inr (off, t) \<and> off < limit \<and> mtd_check_rootfs_magic c m off = Inr t)"
    if "mtd_find_rootfs_from c m from limit = Some r" for m "from" limit r
    using that by (rule mtd_find_rootfs_from_cases)
qed

section \<open>What the search finds\<close>

text \<open>
  C24. On a device of less than 4 GiB the search returns: the first offset, of its start and the
  erase blocks behind it, at which a root file system can be recognised, or \<open>- ENOENT\<close> when there is
  none before the limit.
\<close>
theorem mtd_find_rootfs_from_first:
  assumes "searchable c m" "0 \<le> from" "limit \<le> mtd_size m"
  shows "\<exists>r. mtd_find_rootfs_from c m from limit = Some r \<and>
    (case r of
       Inr (off, t) \<Rightarrow> first_rootfs c m from limit off t
     | Inl e \<Rightarrow> e = - ENOENT \<and> (\<forall>off t. \<not> first_rootfs c m from limit off t))"
  using mtd_find_rootfs_from_spec [OF assms] by (auto split: option.splits sum.splits)

text \<open>Two erase blocks of 8 bytes, with a UBI volume in the second.\<close>

definition ubi_flash :: mtd_info where
  "ubi_flash = flash ''ubi'' 8 (replicate 8 0 @ [0x55, 0x42, 0x49, 0x23] @ replicate 4 0)"

theorem mtd_find_rootfs_from_first_witness:
  "mtd_find_rootfs_from cpu_le32 ubi_flash 3 16 = Some (Inr (8, PART_TYPE_UBI)) \<and>
   first_rootfs cpu_le32 ubi_flash 3 16 8 PART_TYPE_UBI"
proof -
  have "mtd_find_rootfs_from cpu_le32 ubi_flash 3 16 = Some (Inr (8, PART_TYPE_UBI))" by code_simp
  moreover have "searchable cpu_le32 ubi_flash" by (simp add: searchable_def ubi_flash_def mtd_sane_flash)
  ultimately show ?thesis
    using mtd_find_rootfs_from_first [of cpu_le32 ubi_flash 3 16] by (simp add: ubi_flash_def)
qed

text \<open>The first four bytes of the marker that JFFS2 writes, in the byte order of the processor.\<close>

definition jffs2_cleanmarker :: "cpu \<Rightarrow> u8 list" where
  "jffs2_cleanmarker c = (if big_endian c then [0x19, 0x85, 0x20, 0x03] else [0x85, 0x19, 0x03, 0x20])"

text \<open>
  A JFFS2 is recognised by a processor that is big-endian, and not by one that is little-endian:
  the two fields of 16 bits are compared as one number of 32 bits.
\<close>
theorem check_rootfs_magic_jffs2:
  assumes "read_exact m off 4 = Inr (jffs2_cleanmarker c)"
  shows "mtd_check_rootfs_magic c m off = (if big_endian c then Inr PART_TYPE_JFFS2 else Inl (- EINVAL))"
proof -
  have "rd32 [0x19, 0x85, 0x20, 0x03] 0 = 0x03208519" "rd32 [0x85, 0x19, 0x03, 0x20] 0 = 0x20031985"
    "rd32be [0x19, 0x85, 0x20, 0x03] 0 = 0x19852003" "rd32be [0x85, 0x19, 0x03, 0x20] 0 = 0x85190320"
    by code_simp+
  then show ?thesis using assms
    by (simp add: mtd_check_rootfs_magic_def jffs2_cleanmarker_def rd32c_def)
qed

theorem check_rootfs_magic_jffs2_witness:
  "mtd_check_rootfs_magic cpu_le32 (flash ''jffs2'' 8 [0x85, 0x19, 0x03, 0x20]) 0 = Inl (- EINVAL) \<and>
   mtd_check_rootfs_magic cpu_be32 (flash ''jffs2'' 8 [0x19, 0x85, 0x20, 0x03]) 0 = Inr PART_TYPE_JFFS2"
  using check_rootfs_magic_jffs2 [of "flash ''jffs2'' 8 [0x85, 0x19, 0x03, 0x20]" 0 cpu_le32]
    check_rootfs_magic_jffs2 [of "flash ''jffs2'' 8 [0x19, 0x85, 0x20, 0x03]" 0 cpu_be32]
  by (simp add: read_exact_flash jffs2_cleanmarker_def)

end
