(* ===== verification/Rb_Partitions.thy ===== *)
theory Rb_Partitions
  imports Mtd_Parse
begin

text \<open>
  The parser for the partitions of RouterBoot devices, \<^verbatim>\<open>drivers/mtd/parsers/routerbootpart.c\<close>: the search
  for the configurations and the device tree on the flash, and the partitions that the nodes of the
  device tree describe.

  The table \<^verbatim>\<open>rb_dynparts\<close> is static: the parser takes it as it is and gives it back. Reads are those of
  a device whose answers depend on the place alone, so that a read that fails once fails always.
\<close>

section \<open>The table of the well-known partitions\<close>

record dynpart =
  dp_name :: string
  dp_magic :: u32
  dp_fixup :: bool
  dp_offset :: int
  dp_size :: int
  dp_found :: bool

abbreviation RB_BLOCK_SIZE :: int where "RB_BLOCK_SIZE \<equiv> 0x1000"
abbreviation (input) RB_MAGIC_HARD :: u32 where "RB_MAGIC_HARD \<equiv> 0x64726148"
abbreviation (input) RB_MAGIC_SOFT :: u32 where "RB_MAGIC_SOFT \<equiv> 0x74666f53"

text \<open>\<open>fdt32_to_cpu(OF_DT_HEADER)\<close>.\<close>

definition dtb_magic :: "cpu \<Rightarrow> u32" where
  "dtb_magic c = (if big_endian c then 0xd00dfeed else 0xedfe0dd0)"

definition rb_dynparts :: "cpu \<Rightarrow> dynpart list" where
  "rb_dynparts c =
     [\<lparr>dp_name = ''hard_config'', dp_magic = RB_MAGIC_HARD, dp_fixup = False, dp_offset = 0, dp_size = RB_BLOCK_SIZE,
        dp_found = False\<rparr>,
      \<lparr>dp_name = ''soft_config'', dp_magic = RB_MAGIC_SOFT, dp_fixup = False, dp_offset = 0, dp_size = RB_BLOCK_SIZE,
        dp_found = False\<rparr>,
      \<lparr>dp_name = ''dtb_config'', dp_magic = dtb_magic c, dp_fixup = True, dp_offset = 0, dp_size = 0,
        dp_found = False\<rparr>]"

section \<open>The search\<close>

definition routerboot_dtbsfixup :: "cpu \<Rightarrow> mtd_info \<Rightarrow> dynpart \<Rightarrow> int + dynpart" where
  "routerboot_dtbsfixup c m p =
     (case read_exact m (dp_offset p) 40 of
        Inl e \<Rightarrow> Inl e
      | Inr fdt_header \<Rightarrow>
          let psize = uint (rd32be fdt_header 4) in
          if psize = 0 then Inl (- EINVAL) else Inr (p \<lparr>dp_size := psize\<rparr>))"

text \<open>
  The loop over the table, for the word at an offset: the table, the offset, behind the skipped
  content of a partition that was found, and \<open>allfound\<close>.
\<close>

primrec match_dynparts :: "cpu \<Rightarrow> mtd_info \<Rightarrow> u32 \<Rightarrow> int \<Rightarrow> dynpart list \<Rightarrow> dynpart list \<times> int \<times> bool" where
  "match_dynparts c m buf offset [] = ([], offset, True)"
| "match_dynparts c m buf offset (p # ps) =
     (case match_dynparts c m buf offset ps of
        (ps', offset', allfound) \<Rightarrow>
          if dp_found p then (p # ps', offset', allfound)
          else if dp_magic p = buf then
            case (if dp_fixup p then routerboot_dtbsfixup c m (p \<lparr>dp_offset := offset\<rparr>) else Inr (p \<lparr>dp_offset := offset\<rparr>)) of
              Inl _ \<Rightarrow> ((p \<lparr>dp_offset := offset\<rparr>) # ps', offset', False)
            | Inr q \<Rightarrow>
                ((q \<lparr>dp_found := True\<rparr>) # ps,
                 (if dp_size q > RB_BLOCK_SIZE
                  then szt c (offset + (dp_size q - RB_BLOCK_SIZE) div RB_BLOCK_SIZE * RB_BLOCK_SIZE) else offset),
                 False)
          else (p # ps', offset', False))"

text \<open>The loop over the device. A short read leaves the rest of the word as it was.\<close>

partial_function (option) find_dynparts_from ::
  "cpu \<Rightarrow> mtd_info \<Rightarrow> int \<Rightarrow> u8 list \<Rightarrow> dynpart list \<Rightarrow> dynpart list option" where
  "find_dynparts_from c m offset buf ps =
     (if offset < mtd_size m then
        case mtd_rd m offset 4 of
          (err, d) \<Rightarrow>
            let buf' = d @ drop (length d) buf in
            if err \<noteq> 0 then find_dynparts_from c m offset buf' ps
            else
              case match_dynparts c m (rd32c c buf' 0) offset ps of
                (ps', offset', allfound) \<Rightarrow>
                  if allfound then Some ps'
                  else find_dynparts_from c m (szt c (offset' + RB_BLOCK_SIZE)) buf' ps'
      else Some ps)"

declare find_dynparts_from.simps [code]

definition routerboot_find_dynparts :: "cpu \<Rightarrow> mtd_info \<Rightarrow> u8 list \<Rightarrow> dynpart list \<Rightarrow> dynpart list option" where
  "routerboot_find_dynparts c m buf ps = find_dynparts_from c m 0 buf ps"

section \<open>The nodes\<close>

text \<open>
  A child of the node of the device: the names it can have, the cells of \<^verbatim>\<open>reg\<close> and \<^verbatim>\<open>size\<close>, the numbers of
  cells for an address and a size, and its flags.
\<close>

record rb_node =
  rn_label :: "string option"
  rn_name_prop :: "string option"
  rn_name :: string
  rn_reg :: "u32 list option"
  rn_size :: "u32 list option"
  rn_a_cells :: nat
  rn_s_cells :: nat
  rn_read_only :: bool
  rn_lock :: bool

definition of_read_number :: "u32 list \<Rightarrow> u64" where
  "of_read_number cells = foldl (\<lambda>r v. push_bit 32 r OR ucast v) 0 cells"

definition node_partname :: "rb_node \<Rightarrow> string" where
  "node_partname pp =
     (case rn_label pp of Some s \<Rightarrow> s | None \<Rightarrow> (case rn_name_prop pp of Some s \<Rightarrow> s | None \<Rightarrow> rn_name pp))"

text \<open>Where the partition lies: the offset and the size, or \<open>None\<close> for a property of the wrong length.\<close>

definition node_place :: "cpu \<Rightarrow> dynpart list \<Rightarrow> int \<Rightarrow> rb_node \<Rightarrow> (int \<times> int) option" where
  "node_place c table master_ofs pp =
     (case rn_reg pp of
        Some reg \<Rightarrow>
          if length reg \<noteq> rn_a_cells pp + rn_s_cells pp then None
          else Some (szt c (uint (of_read_number (take (rn_a_cells pp) reg))),
            szt c (uint (of_read_number (drop (rn_a_cells pp) reg))))
      | None \<Rightarrow>
          let place = (case List.find (\<lambda>p. dp_name p = node_partname pp \<and> dp_found p) table of
              Some p \<Rightarrow> (dp_offset p, dp_size p)
            | None \<Rightarrow> (master_ofs, 0)) in
          (case rn_size pp of
             None \<Rightarrow> Some place
           | Some sz \<Rightarrow>
               if length sz \<noteq> rn_s_cells pp then None
               else Some (fst place, szt c (uint (of_read_number sz)))))"

text \<open>The end of the previous partition, when it has no size yet.\<close>

definition fix_previous :: "int \<Rightarrow> mtd_part \<Rightarrow> mtd_part" where
  "fix_previous offset prev = (if p_len prev = 0 then prev \<lparr>p_len := wrap64 (offset - p_off prev)\<rparr> else prev)"

definition node_mask :: "rb_node \<Rightarrow> u32" where
  "node_mask pp = (if rn_read_only pp then MTD_WRITEABLE else 0) OR (if rn_lock pp then MTD_POWERUP_LOCK else 0)"

text \<open>
  The loop over the children; \<open>ps\<close> are the partitions so far. The result \<open>None\<close> is the exit at
  \<^verbatim>\<open>rbpart_fail\<close>.
\<close>

primrec node_parts ::
  "cpu \<Rightarrow> mtd_info \<Rightarrow> dynpart list \<Rightarrow> mtd_part list \<Rightarrow> int \<Rightarrow> rb_node list \<Rightarrow> mtd_part list option" where
  "node_parts c m table ps master_ofs [] = Some ps"
| "node_parts c m table ps master_ofs (pp # pps) =
     (case node_place c table master_ofs pp of
        None \<Rightarrow> None
      | Some (offset, sz) \<Rightarrow>
          if ps \<noteq> [] \<and> offset < wrap64 (p_off (last ps) + p_len (last ps)) then None
          else if szt c (offset + sz) > mtd_size m then None
          else
            let prev = (if ps = [] then [] else butlast ps @ [fix_previous offset (last ps)]);
                part = (mk_part (node_partname pp) offset sz) \<lparr>p_mask := node_mask pp\<rparr> in
            node_parts c m table (prev @ [part])
              (szt c (szt c (offset + sz) + (RB_BLOCK_SIZE - 1)) div RB_BLOCK_SIZE * RB_BLOCK_SIZE) pps)"

text \<open>The children of the node of the device, when it has one, and the table; the table is given back.\<close>

definition routerboot_partitions_parse ::
  "cpu \<Rightarrow> bool \<Rightarrow> u8 list \<Rightarrow> rb_node list option \<Rightarrow> mtd_info \<Rightarrow> dynpart list \<Rightarrow> (dynpart list \<times> parsed) option" where
  "routerboot_partitions_parse c alloc buf rbpart_node m table =
     (case rbpart_node of
        None \<Rightarrow> Some (table, 0, None)
      | Some pps \<Rightarrow>
          if pps = [] then Some (table, 0, None)
          else if \<not> alloc then Some (table, parse_error (- ENOMEM))
          else
            map_option (\<lambda>table'.
                (table',
                 (case node_parts c m table' [] 0 pps of
                    None \<Rightarrow> parse_error (- EINVAL)
                  | Some ps \<Rightarrow> (int (length ps), Some ps))))
              (routerboot_find_dynparts c m buf table))"

section \<open>What the search finds\<close>

text \<open>
  A found partition lies at a multiple of the block size in the device, where its magic number is; the
  words that the search looks at can be read.
\<close>

definition dyn_ok :: "cpu \<Rightarrow> mtd_info \<Rightarrow> dynpart \<Rightarrow> bool" where
  "dyn_ok c m p \<longleftrightarrow> dp_found p \<longrightarrow>
     0 \<le> dp_offset p \<and> dp_offset p < mtd_size m \<and> RB_BLOCK_SIZE dvd dp_offset p \<and>
     (\<exists>h. read_exact m (dp_offset p) 4 = Inr h \<and> rd32c c h 0 = dp_magic p)"

definition words_readable :: "mtd_info \<Rightarrow> bool" where
  "words_readable m \<longleftrightarrow> (\<forall>off. 0 \<le> off \<and> off < mtd_size m \<and> RB_BLOCK_SIZE dvd off \<longrightarrow> (\<exists>h. read_exact m off 4 = Inr h))"

definition unfound :: "dynpart list \<Rightarrow> nat" where
  "unfound ps = length (filter (\<lambda>p. \<not> dp_found p) ps)"

lemma fixup_fields:
  "(if dp_fixup p then routerboot_dtbsfixup c m p else Inr p) = Inr q \<Longrightarrow>
     dp_offset q = dp_offset p \<and> dp_magic q = dp_magic p \<and> dp_name q = dp_name p"
  by (auto simp: routerboot_dtbsfixup_def Let_def split: if_splits sum.splits)

lemma block_dvd_szt:
  assumes "RB_BLOCK_SIZE dvd x" "32 \<le> long_bits c"
  shows "RB_BLOCK_SIZE dvd szt c x"
proof -
  have "(2 :: int) ^ 12 dvd 2 ^ long_bits c" using assms(2) by (intro le_imp_power_dvd) simp
  then have "RB_BLOCK_SIZE dvd 2 ^ long_bits c" by simp
  then show ?thesis using assms(1) unfolding szt_def by (simp add: dvd_mod)
qed

lemma match_dynparts_spec:
  assumes run: "match_dynparts c m w off ps = (ps', off', allf)" and bits: "32 \<le> long_bits c"
    and at: "0 \<le> off" "off < mtd_size m" "RB_BLOCK_SIZE dvd off" "read_exact m off 4 = Inr h" "rd32c c h 0 = w"
    and ok: "list_all (dyn_ok c m) ps"
  shows "list_all (dyn_ok c m) ps' \<and> map dp_name ps' = map dp_name ps \<and> map dp_magic ps' = map dp_magic ps \<and>
    ((off' = off \<and> unfound ps' = unfound ps) \<or> (0 \<le> off' \<and> RB_BLOCK_SIZE dvd off' \<and> unfound ps' < unfound ps)) \<and>
    (\<forall>i<length ps. dp_found (ps ! i) \<longrightarrow> ps' ! i = ps ! i)"
  using run ok
proof (induction ps arbitrary: ps' off' allf)
  case Nil
  then show ?case by simp
next
  case (Cons p ps)
  obtain qs o' al where rest: "match_dynparts c m w off ps = (qs, o', al)" by (metis prod.exhaust)
  note IH = Cons.IH [OF rest]
  let ?p = "p \<lparr>dp_offset := off\<rparr>"
  let ?fix = "if dp_fixup p then routerboot_dtbsfixup c m ?p else Inr ?p"
  have keep: "(\<forall>i<length (p # ps). dp_found ((p # ps) ! i) \<longrightarrow> (a # rs) ! i = (p # ps) ! i)"
    if "dp_found p \<longrightarrow> a = p" "\<forall>i<length ps. dp_found (ps ! i) \<longrightarrow> rs ! i = ps ! i" for a rs
    using that by (auto simp: nth_Cons split: nat.split)
  consider (found) "dp_found p" | (other) "\<not> dp_found p" "dp_magic p \<noteq> w"
    | (bad) e where "\<not> dp_found p" "dp_magic p = w" "?fix = Inl e"
    | (good) q where "\<not> dp_found p" "dp_magic p = w" "?fix = Inr q"
    by (cases "?fix") auto
  then show ?case
  proof cases
    case found
    then show ?thesis using Cons.prems rest IH keep [of p qs] by (auto simp: unfound_def)
  next
    case other
    then show ?thesis using Cons.prems rest IH keep [of p qs] by (auto simp: unfound_def)
  next
    case bad
    then have "ps' = ?p # qs" "off' = o'" using Cons.prems(1) rest by auto
    moreover have "dyn_ok c m ?p" using bad by (simp add: dyn_ok_def)
    ultimately show ?thesis using Cons.prems(2) IH bad keep [of ?p qs] by (auto simp: unfound_def)
  next
    case good
    have q: "dp_offset q = off" "dp_magic q = w" "dp_name q = dp_name p" "dp_magic p = w"
      using good fixup_fields [of ?p c m q] by auto
    have res: "ps' = (q \<lparr>dp_found := True\<rparr>) # ps"
      "off' = (if dp_size q > RB_BLOCK_SIZE
                  then szt c (off + (dp_size q - RB_BLOCK_SIZE) div RB_BLOCK_SIZE * RB_BLOCK_SIZE) else off)"
      using Cons.prems(1) rest good by auto
    have "dyn_ok c m (q \<lparr>dp_found := True\<rparr>)" using q at by (simp add: dyn_ok_def)
    moreover have "0 \<le> off' \<and> RB_BLOCK_SIZE dvd off'"
      using at block_dvd_szt [OF _ bits] by (simp add: res(2))
    ultimately show ?thesis using res(1) Cons.prems(2) good(1) q keep [of "q \<lparr>dp_found := True\<rparr>" ps]
      by (auto simp: unfound_def)
  qed
qed

lemma rd32c_append: "length h = 4 \<Longrightarrow> rd32c c (h @ rest) 0 = rd32c c h 0"
proof -
  assume "length h = 4"
  then have "rd_bytes (h @ rest) 0 4 = rd_bytes h 0 4" by (auto simp: rd_bytes_def nth_append)
  then show ?thesis by (simp add: rd32c_def rd32be_def rd32_def)
qed

lemma find_dynparts_from_spec:
  assumes "32 \<le> long_bits c" "mtd_size m + RB_BLOCK_SIZE \<le> 2 ^ 32" "words_readable m"
    and "0 \<le> off" "RB_BLOCK_SIZE dvd off" "list_all (dyn_ok c m) ps"
  shows "\<exists>ps'. find_dynparts_from c m off buf ps = Some ps' \<and> list_all (dyn_ok c m) ps' \<and>
    map dp_name ps' = map dp_name ps \<and> (\<forall>i<length ps. dp_found (ps ! i) \<longrightarrow> ps' ! i = ps ! i)"
  using assms(4-6)
proof (induction "(unfound ps, nat (mtd_size m - off))" arbitrary: off buf ps
    rule: wf_induct_rule [OF wf_lex_prod [OF wf_less wf_less]])
  case (1 off ps buf)
  note IH = "1.hyps" [unfolded in_lex_prod]
  show ?case
  proof (cases "off < mtd_size m")
    case True
    then obtain h where h: "read_exact m off 4 = Inr h" using assms(3) "1.prems" by (auto simp: words_readable_def)
    then have rd: "mtd_rd m off 4 = (0, h)" "length h = 4" by (auto simp: read_exact_Inr)
    obtain ps' off' allf where run: "match_dynparts c m (rd32c c (h @ drop 4 buf) 0) off ps = (ps', off', allf)"
      by (metis prod.exhaust)
    have w: "rd32c c h 0 = rd32c c (h @ drop 4 buf) 0" using rd(2) rd32c_append by simp
    note spec = match_dynparts_spec [OF run assms(1) "1.prems"(1) True "1.prems"(2) h w "1.prems"(3)]
    have step: "find_dynparts_from c m off buf ps =
        (if allf then Some ps' else find_dynparts_from c m (szt c (off' + RB_BLOCK_SIZE)) (h @ drop 4 buf) ps')"
      using True rd run by (subst find_dynparts_from.simps) simp
    have next_ok: "0 \<le> szt c (off' + RB_BLOCK_SIZE)" "RB_BLOCK_SIZE dvd szt c (off' + RB_BLOCK_SIZE)"
      using spec "1.prems" by (auto intro!: block_dvd_szt [OF _ assms(1)])
    have less: "unfound ps' < unfound ps \<or>
        (unfound ps' = unfound ps \<and> nat (mtd_size m - szt c (off' + RB_BLOCK_SIZE)) < nat (mtd_size m - off))"
    proof (cases "unfound ps' < unfound ps")
      case False
      then have "off' = off" "unfound ps' = unfound ps" using spec by auto
      moreover have "szt c (off + RB_BLOCK_SIZE) = off + RB_BLOCK_SIZE"
        using "1.prems"(1) True assms(1,2) by (intro szt_small) auto
      ultimately show ?thesis using True by simp
    qed simp
    show ?thesis
    proof (cases allf)
      case True
      then show ?thesis using step spec by simp
    next
      case False
      have "\<exists>qs. find_dynparts_from c m (szt c (off' + RB_BLOCK_SIZE)) (h @ drop 4 buf) ps' = Some qs \<and>
          list_all (dyn_ok c m) qs \<and> map dp_name qs = map dp_name ps' \<and>
          (\<forall>i<length ps'. dp_found (ps' ! i) \<longrightarrow> qs ! i = ps' ! i)"
        using less spec next_ok by (intro IH) auto
      moreover have "length ps' = length ps" using spec by (metis length_map)
      ultimately show ?thesis using step spec False by auto
    qed
  next
    case False
    then show ?thesis using "1.prems" by (subst find_dynparts_from.simps) simp
  qed
qed

section \<open>The search for the well-known partitions\<close>


lemma find_dynparts_from_hangs:
  assumes err: "fst (mtd_rd m off 4) \<noteq> 0" and off: "off < mtd_size m"
  shows "find_dynparts_from c m off buf ps = None"
proof -
  have "\<not> (m' = m \<and> o' = off)" if "find_dynparts_from c' m' o' buf' ps' = Some r" for c' m' o' buf' ps' r
  proof (rule find_dynparts_from.raw_induct
      [where P = "\<lambda>c' m' o' buf' ps' r. \<not> (m' = m \<and> o' = off)", OF _ that], intro notI, elim conjE, hypsubst)
    fix rec :: "cpu \<Rightarrow> mtd_info \<Rightarrow> int \<Rightarrow> u8 list \<Rightarrow> dynpart list \<Rightarrow> dynpart list option" and c buf ps r
    assume IH: "\<And>c' m' o' buf' ps' r. rec c' m' o' buf' ps' = Some r \<Longrightarrow> \<not> (m' = m \<and> o' = off)"
      and eq: "(if off < mtd_size m then case mtd_rd m off 4 of (err, d) \<Rightarrow>
            let buf' = d @ drop (length d) buf in
            if err \<noteq> 0 then rec c m off buf' ps
            else case match_dynparts c m (rd32c c buf' 0) off ps of
                (ps', offset', allfound) \<Rightarrow>
                  if allfound then Some ps' else rec c m (szt c (offset' + RB_BLOCK_SIZE)) buf' ps'
          else Some ps) = Some r"
    obtain e d where rd: "mtd_rd m off 4 = (e, d)" "e \<noteq> 0" using err by (cases "mtd_rd m off 4") auto
    then have "rec c m off (d @ drop (length d) buf) ps = Some r" using eq off by simp
    then show False using IH by blast
  qed
  then show ?thesis by fastforce
qed

text \<open>
  When the device cannot be read at its start, the search reads there again and again: the parser
  does not return.
\<close>
theorem routerboot_parse_hangs:
  assumes "fst (mtd_rd m 0 4) \<noteq> 0" "0 < mtd_size m" "pps \<noteq> []"
  shows "routerboot_partitions_parse c True buf (Some pps) m table = None"
  using assms find_dynparts_from_hangs [of m 0]
  by (simp add: routerboot_partitions_parse_def routerboot_find_dynparts_def)

section \<open>The partitions\<close>

text \<open>
  The partitions are in the order of their places, do not overlap, and lie in the device. The
  sums of the offsets and the sizes of the device tree and of the table fit in a \<open>size_t\<close>.
\<close>

definition placed :: "mtd_info \<Rightarrow> mtd_part list \<Rightarrow> bool" where
  "placed m ps \<longleftrightarrow>
     sorted_wrt (\<lambda>p q. p_off p + p_len p \<le> p_off q) ps \<and>
     (\<forall>p\<in>set ps. 0 \<le> p_off p \<and> 0 \<le> p_len p \<and> p_off p + p_len p \<le> mtd_size m)"

definition places_fit :: "cpu \<Rightarrow> mtd_info \<Rightarrow> dynpart list \<Rightarrow> rb_node list \<Rightarrow> bool" where
  "places_fit c m table pps \<longleftrightarrow>
     (\<forall>pp\<in>set pps. \<forall>ofs off sz. 0 \<le> ofs \<and> ofs < mtd_size m + RB_BLOCK_SIZE \<and> node_place c table ofs pp = Some (off, sz) \<longrightarrow>
        0 \<le> off \<and> 0 \<le> sz \<and> off + sz < 2 ^ long_bits c)"

lemma placed_snoc:
  assumes p: "placed m (qs @ [prev])" and off: "p_off prev + p_len prev \<le> off" "0 \<le> sz" "off + sz \<le> mtd_size m"
    and q: "p_off q = off" "p_len q = sz" and m: "mtd_size m < 2 ^ 63"
  shows "placed m (qs @ [fix_previous off prev] @ [q])"
proof -
  have prev: "0 \<le> p_off prev" "0 \<le> p_len prev" using p by (auto simp: placed_def)
  have fx: "p_off (fix_previous off prev) = p_off prev" "p_off (fix_previous off prev) + p_len (fix_previous off prev) \<le> off"
    "0 \<le> p_len (fix_previous off prev)"
    using prev off m by (auto simp: fix_previous_def)
  have qs: "sorted_wrt (\<lambda>p q. p_off p + p_len p \<le> p_off q) qs" "\<forall>x\<in>set qs. p_off x + p_len x \<le> p_off prev"
    "\<forall>x\<in>set qs. 0 \<le> p_off x \<and> 0 \<le> p_len x \<and> p_off x + p_len x \<le> mtd_size m"
    using p by (simp_all add: placed_def sorted_wrt_append)
  have "p_off prev \<le> off" using prev off(1) by linarith
  then have "\<forall>x\<in>set qs. p_off x + p_len x \<le> off" using qs(2) by force
  then have "sorted_wrt (\<lambda>p q. p_off p + p_len p \<le> p_off q) (qs @ [fix_previous off prev] @ [q])"
    using qs(1,2) fx(1,2) q(1) by (simp add: sorted_wrt_append)
  moreover have "0 \<le> off" "p_off (fix_previous off prev) + p_len (fix_previous off prev) \<le> mtd_size m"
    using prev off fx(2) by linarith+
  ultimately show ?thesis using qs(3) fx prev(1) q off(2,3) by (simp add: placed_def)
qed

lemma szt_le: "0 \<le> x \<Longrightarrow> szt c x \<le> x"
  by (simp add: szt_def zmod_le_nonneg_dividend)

lemma node_parts_placed:
  assumes m: "0 \<le> mtd_size m" "mtd_size m < 2 ^ 63" and fits: "places_fit c m table pps"
    and run: "node_parts c m table ps ofs pps = Some qs" and ps: "placed m ps" "0 \<le> ofs" "ofs < mtd_size m + RB_BLOCK_SIZE"
  shows "placed m qs \<and> length qs = length ps + length pps \<and> map p_name qs = map p_name ps @ map node_partname pps"
  using fits run ps
proof (induction pps arbitrary: ps ofs)
  case Nil
  then show ?case by simp
next
  case (Cons pp pps)
  obtain off sz where place: "node_place c table ofs pp = Some (off, sz)"
    using Cons.prems(2) by (auto split: option.splits)
  have fit: "0 \<le> off \<and> 0 \<le> sz \<and> off + sz < 2 ^ long_bits c"
    using Cons.prems(1) Cons.prems(4,5) place unfolding places_fit_def by (metis list.set_intros(1))
  then have nn: "0 \<le> off" "0 \<le> sz" "szt c (off + sz) = off + sz" by (simp_all add: szt_def)
  define prev where "prev = (if ps = [] then [] else butlast ps @ [fix_previous off (last ps)])"
  define part where "part = (mk_part (node_partname pp) off sz) \<lparr>p_mask := node_mask pp\<rparr>"
  define ofs' where "ofs' = szt c (off + sz + (RB_BLOCK_SIZE - 1)) div RB_BLOCK_SIZE * RB_BLOCK_SIZE"
  have gap: "ps \<noteq> [] \<Longrightarrow> wrap64 (p_off (last ps) + p_len (last ps)) \<le> off" and le: "off + sz \<le> mtd_size m"
    and rest: "node_parts c m table (prev @ [part]) ofs' pps = Some qs"
    using Cons.prems(2) place nn(3) by (auto simp: prev_def part_def ofs'_def Let_def split: if_splits)
  have part: "p_off part = off" "p_len part = sz" "p_name part = node_partname pp" by (simp_all add: part_def)
  have placed: "placed m (prev @ [part]) \<and> map p_name prev = map p_name ps \<and> length prev = length ps"
  proof (cases ps rule: rev_cases)
    case Nil
    then show ?thesis using nn le part by (simp add: prev_def placed_def)
  next
    case (snoc rs x)
    have x: "0 \<le> p_off x + p_len x" "p_off x + p_len x \<le> mtd_size m" using Cons.prems(3) snoc by (auto simp: placed_def)
    then have "p_off x + p_len x \<le> off" using gap snoc m(2) by simp
    then show ?thesis
      using placed_snoc [of m rs x off sz part] Cons.prems(3) snoc nn(2) le part m(2)
      by (simp add: prev_def fix_previous_def)
  qed
  have "0 \<le> off + sz + (RB_BLOCK_SIZE - 1)" using nn by simp
  then have "szt c (off + sz + (RB_BLOCK_SIZE - 1)) \<le> off + sz + (RB_BLOCK_SIZE - 1)" by (rule szt_le)
  moreover have "ofs' \<le> szt c (off + sz + (RB_BLOCK_SIZE - 1))"
    unfolding ofs'_def using div_mult_mod_eq [of "szt c (off + sz + (RB_BLOCK_SIZE - 1))" RB_BLOCK_SIZE]
      pos_mod_sign [of RB_BLOCK_SIZE "szt c (off + sz + (RB_BLOCK_SIZE - 1))"] by linarith
  moreover have "0 \<le> ofs'" by (simp add: ofs'_def pos_imp_zdiv_nonneg_iff)
  ultimately have ofs': "0 \<le> ofs'" "ofs' < mtd_size m + RB_BLOCK_SIZE" using le by linarith+
  have "places_fit c m table pps" using Cons.prems(1) unfolding places_fit_def by (meson list.set_intros(2))
  then show ?case using Cons.IH [OF _ rest _ ofs'] placed part(3) by simp
qed


section \<open>A device with a soft configuration\<close>

text \<open>A device of three blocks, with the magic number of the soft configuration at the second.\<close>

definition rb_device :: mtd_info where
  "rb_device = \<lparr>mtd_name = ''RouterBoot'', mtd_size = 0x3000, erasesize = 0x1000,
     mtd_rd = (\<lambda>off len. if 0 \<le> off \<and> 0 \<le> len \<and> off + len \<le> 0x3000
       then (0, map (\<lambda>i. if off + int i \<in> {0x1000..0x1003} then cstr ''Soft'' ! nat (off + int i - 0x1000) else 0) [0..<nat len])
       else (- EINVAL, []))\<rparr>"

definition rb_table :: "dynpart list" where
  "rb_table = (rb_dynparts cpu_le32) [1 := \<lparr>dp_name = ''soft_config'', dp_magic = RB_MAGIC_SOFT, dp_fixup = False,
     dp_offset = 0x1000, dp_size = RB_BLOCK_SIZE, dp_found = True\<rparr>]"

lemma rb_device_sane: "mtd_sane rb_device"
  by (auto simp: mtd_sane_def rb_device_def)

lemma rb_device_readable: "words_readable rb_device"
proof -
  have "read_exact rb_device off 4 = Inr (map (\<lambda>i. if off + int i \<in> {0x1000..0x1003}
      then cstr ''Soft'' ! nat (off + int i - 0x1000) else 0) [0..<4])"
    if "0 \<le> off" "off < 0x3000" "RB_BLOCK_SIZE dvd off" for off
  proof -
    obtain k where k: "off = RB_BLOCK_SIZE * k" using \<open>RB_BLOCK_SIZE dvd off\<close> by (rule dvdE)
    then have "k \<le> 2" using that(2) by linarith
    then have "off + 4 \<le> 0x3000" using k by linarith
    then show ?thesis using that(1) by (simp add: read_exact_def rb_device_def)
  qed
  then show ?thesis by (auto simp: words_readable_def rb_device_def)
qed


definition dead_device :: mtd_info where
  "dead_device = \<lparr>mtd_name = ''RouterBoot'', mtd_size = 0x3000, erasesize = 0x1000, mtd_rd = (\<lambda>_ _. (- EIO, []))\<rparr>"

definition rb_node_demo :: "string \<Rightarrow> u32 list option \<Rightarrow> u32 list option \<Rightarrow> rb_node" where
  "rb_node_demo nm reg sz = \<lparr>rn_label = Some nm, rn_name_prop = None, rn_name = ''partition'', rn_reg = reg, rn_size = sz,
     rn_a_cells = 1, rn_s_cells = 1, rn_read_only = False, rn_lock = False\<rparr>"

definition rb_nodes :: "rb_node list" where
  "rb_nodes = [rb_node_demo ''bootloader'' (Some [0, 0]) None, rb_node_demo ''soft_config'' None None,
     rb_node_demo ''rest'' None (Some [0x1000])]"

theorem routerboot_parse_hangs_witness:
  "routerboot_partitions_parse cpu_le32 True [0, 0, 0, 0] (Some rb_nodes) dead_device (rb_dynparts cpu_le32) = None"
  by (rule routerboot_parse_hangs) (simp_all add: dead_device_def rb_nodes_def)

lemma rb_nodes_fit: "places_fit cpu_le32 rb_device rb_table rb_nodes"
  by (simp add: places_fit_def rb_nodes_def rb_node_demo_def node_place_def node_partname_def of_read_number_def
      rb_table_def rb_dynparts_def rb_device_def szt_def)


end
