(* ===== verification/Mtdsplit_Fixed.thy ===== *)
theory Mtdsplit_Fixed
  imports Mtd_Parse
begin

text \<open>
  The parsers of \<^verbatim>\<open>mtdsplit/\<close> that look for a header at the start of the device: TP-Link, Seama,
  WRGG, EVA, brnImage, LZMA, MikroTik minor, CFE bootfs, H3C VFS, the OpenWrt prolog, and the split
  of a partition that starts with SquashFS. A header is a record, read from its bytes by a function
  with the offsets of the C structure.

  \<open>alloc\<close> tells whether the allocation of the partition table succeeds. A result \<open>None\<close> is a parser
  that does not return. The messages, the tables of device tree names and the registration are not
  modelled.
\<close>

section \<open>What the parsers share\<close>

definition rootfs_name :: "mtdsplit_part_type \<Rightarrow> string" where
  "rootfs_name t = (if t = PART_TYPE_UBI then UBI_PART_NAME else ROOTFS_PART_NAME)"

text \<open>The partition table: it is allocated, filled and returned with the number of partitions.\<close>

definition give_parts :: "bool \<Rightarrow> mtd_part list \<Rightarrow> parsed" where
  "give_parts alloc ps = (if alloc then (int (length ps), Some ps) else (- ENOMEM, None))"

text \<open>
  The two steps that the parsers are made of: they read a header and return the error of the read,
  and they look for the root file system and return the error of the search.
\<close>

definition with_header :: "mtd_info \<Rightarrow> int \<Rightarrow> nat \<Rightarrow> (u8 list \<Rightarrow> parsed option) \<Rightarrow> parsed option" where
  "with_header m off n F = (case read_exact m off n of Inl e \<Rightarrow> Some (parse_error e) | Inr h \<Rightarrow> F h)"

definition with_rootfs ::
  "(int + int \<times> mtdsplit_part_type) option \<Rightarrow> (int \<Rightarrow> mtdsplit_part_type \<Rightarrow> parsed) \<Rightarrow> parsed option" where
  "with_rootfs found F =
     map_option (\<lambda>r. case r of Inl e \<Rightarrow> parse_error e | Inr (off, t) \<Rightarrow> F off t) found"

text \<open>The root file system at the given place, or else the first one from another place on.\<close>

definition rootfs_at_or_from ::
  "cpu \<Rightarrow> mtd_info \<Rightarrow> int \<Rightarrow> int \<Rightarrow> (int + int \<times> mtdsplit_part_type) option" where
  "rootfs_at_or_from c m at from =
     (case mtd_check_rootfs_magic c m at of
        Inr t \<Rightarrow> Some (Inr (at, t))
      | Inl _ \<Rightarrow> mtd_find_rootfs_from c m from (szt c (mtd_size m)))"

lemma with_headerE:
  assumes "with_header m off n F = Some r"
  obtains (read_error) e where "read_exact m off n = Inl e" "r = parse_error e"
    | (read) h where "read_exact m off n = Inr h" "F h = Some r"
  using assms by (auto simp: with_header_def split: sum.splits)

lemma with_rootfsE:
  assumes "with_rootfs found F = Some r"
  obtains (not_found) e where "found = Some (Inl e)" "r = parse_error e"
    | (found) off t where "found = Some (Inr (off, t))" "r = F off t"
proof -
  obtain x where x: "found = Some x" using assms by (auto simp: with_rootfs_def)
  then show ?thesis using assms that by (cases x) (auto simp: with_rootfs_def)
qed

text \<open>\<open>round_up\<close> of an \<open>unsigned long\<close> to a power of two.\<close>

definition round_up_ul :: "cpu \<Rightarrow> int \<Rightarrow> int \<Rightarrow> int" where
  "round_up_ul c x y = szt c ((szt c (x - 1) OR (y - 1)) + 1)"

section \<open>TP-Link\<close>

record fw_v1 =
  v1_vendor_name :: "u8 list"
  v1_fw_version :: "u8 list"
  v1_hw_id :: u32
  v1_hw_rev :: u32
  v1_unk1 :: u32
  v1_md5sum1 :: "u8 list"
  v1_unk2 :: u32
  v1_md5sum2 :: "u8 list"
  v1_unk3 :: u32
  v1_kernel_la :: u32
  v1_kernel_ep :: u32
  v1_fw_length :: u32
  v1_kernel_ofs :: u32
  v1_kernel_len :: u32
  v1_rootfs_ofs :: u32
  v1_rootfs_len :: u32
  v1_boot_ofs :: u32
  v1_boot_len :: u32

record fw_v2 =
  v2_fw_version :: "u8 list"
  v2_hw_id :: u32
  v2_hw_rev :: u32
  v2_unk1 :: u32
  v2_md5sum1 :: "u8 list"
  v2_unk2 :: u32
  v2_md5sum2 :: "u8 list"
  v2_unk3 :: u32
  v2_kernel_la :: u32
  v2_kernel_ep :: u32
  v2_fw_length :: u32
  v2_kernel_ofs :: u32
  v2_kernel_len :: u32
  v2_rootfs_ofs :: u32
  v2_rootfs_len :: u32
  v2_boot_ofs :: u32
  v2_boot_len :: u32
  v2_unk4 :: u16
  v2_sver_hi :: u8
  v2_sver_lo :: u8
  v2_unk5 :: u8
  v2_ver_hi :: u8
  v2_ver_mid :: u8
  v2_ver_lo :: u8

text \<open>
  The members of the union, after the version of 4 bytes; the numbers are big-endian. The
  padding at their end is left out: the header has 512 bytes.
\<close>

definition fw_v1_of :: "u8 list \<Rightarrow> fw_v1" where
  "fw_v1_of h = \<lparr>v1_vendor_name = rd_bytes h 4 24, v1_fw_version = rd_bytes h 28 36,
     v1_hw_id = rd32be h 64, v1_hw_rev = rd32be h 68, v1_unk1 = rd32be h 72,
     v1_md5sum1 = rd_bytes h 76 16, v1_unk2 = rd32be h 92, v1_md5sum2 = rd_bytes h 96 16,
     v1_unk3 = rd32be h 112, v1_kernel_la = rd32be h 116, v1_kernel_ep = rd32be h 120,
     v1_fw_length = rd32be h 124, v1_kernel_ofs = rd32be h 128, v1_kernel_len = rd32be h 132,
     v1_rootfs_ofs = rd32be h 136, v1_rootfs_len = rd32be h 140, v1_boot_ofs = rd32be h 144,
     v1_boot_len = rd32be h 148\<rparr>"

definition fw_v2_of :: "u8 list \<Rightarrow> fw_v2" where
  "fw_v2_of h = \<lparr>v2_fw_version = rd_bytes h 4 48, v2_hw_id = rd32be h 52, v2_hw_rev = rd32be h 56,
     v2_unk1 = rd32be h 60, v2_md5sum1 = rd_bytes h 64 16, v2_unk2 = rd32be h 80,
     v2_md5sum2 = rd_bytes h 84 16, v2_unk3 = rd32be h 100, v2_kernel_la = rd32be h 104,
     v2_kernel_ep = rd32be h 108, v2_fw_length = rd32be h 112, v2_kernel_ofs = rd32be h 116,
     v2_kernel_len = rd32be h 120, v2_rootfs_ofs = rd32be h 124, v2_rootfs_len = rd32be h 128,
     v2_boot_ofs = rd32be h 132, v2_boot_len = rd32be h 136, v2_unk4 = rd16be h 140,
     v2_sver_hi = h ! 142, v2_sver_lo = h ! 143, v2_unk5 = h ! 144, v2_ver_hi = h ! 145,
     v2_ver_mid = h ! 146, v2_ver_lo = h ! 147\<rparr>"

abbreviation tplink_hdr_len :: nat where "tplink_hdr_len \<equiv> 512"
abbreviation TPLINK_MIN_ROOTFS_OFFS :: int where "TPLINK_MIN_ROOTFS_OFFS \<equiv> 0x80000"

text \<open>The size of the kernel and the offset of the root file system that the header gives.\<close>

definition tplink_sizes :: "cpu \<Rightarrow> u8 list \<Rightarrow> int + int \<times> int" where
  "tplink_sizes c h =
     (let version = rd32 h 0; v1 = fw_v1_of h; v2 = fw_v2_of h in
      if version = 1 then
        if v1_kernel_ofs v1 \<noteq> of_nat tplink_hdr_len then Inl (- EINVAL)
        else Inr (szt c (int tplink_hdr_len + uint (v1_kernel_len v1)), uint (v1_rootfs_ofs v1))
      else if version = 2 \<or> version = 3 then
        if v2_kernel_ofs v2 \<noteq> of_nat tplink_hdr_len then Inl (- EINVAL)
        else Inr (szt c (int tplink_hdr_len + uint (v2_kernel_len v2)), uint (v2_rootfs_ofs v2))
      else Inl (- EINVAL))"

definition mtdsplit_parse_tplink :: "cpu \<Rightarrow> bool \<Rightarrow> mtd_info \<Rightarrow> parsed option" where
  "mtdsplit_parse_tplink c alloc m =
     with_header m 0 tplink_hdr_len (\<lambda>h.
          (case tplink_sizes c h of
             Inl e \<Rightarrow> Some (parse_error e)
           | Inr (kernel_size, rootfs_offset) \<Rightarrow>
               if kernel_size > mtd_size m then Some (parse_error (- EINVAL))
               else
                 with_rootfs (rootfs_at_or_from c m rootfs_offset TPLINK_MIN_ROOTFS_OFFS)
                   (\<lambda>off _. give_parts alloc
                     [mk_part KERNEL_PART_NAME 0 kernel_size,
                     mk_part ROOTFS_PART_NAME off (wrap64 (mtd_size m - off))])))"

section \<open>Seama\<close>

record seama_header =
  sm_magic :: u32
  sm_reserved :: u16
  sm_metasize :: u16
  sm_size :: u32
  sm_md5 :: "u8 list"

definition seama_header_of :: "u8 list \<Rightarrow> seama_header" where
  "seama_header_of h = \<lparr>sm_magic = rd32be h 0, sm_reserved = rd16be h 4, sm_metasize = rd16be h 6,
     sm_size = rd32be h 8, sm_md5 = rd_bytes h 12 16\<rparr>"

abbreviation seama_hdr_len :: nat where "seama_hdr_len \<equiv> 28"
abbreviation SEAMA_MAGIC :: u32 where "SEAMA_MAGIC \<equiv> 0x5EA3A417"
abbreviation SEAMA_MIN_ROOTFS_OFFS :: int where "SEAMA_MIN_ROOTFS_OFFS \<equiv> 0x80000"

definition mtdsplit_parse_seama :: "cpu \<Rightarrow> bool \<Rightarrow> mtd_info \<Rightarrow> parsed option" where
  "mtdsplit_parse_seama c alloc m =
     with_header m 0 seama_hdr_len (\<lambda>h.
          (let hdr = seama_header_of h;
               kernel_ent_size = szt c (int seama_hdr_len + uint (sm_size hdr) + uint (sm_metasize hdr));
               kernel_offset = int seama_hdr_len + uint (sm_metasize hdr)
           in if sm_magic hdr \<noteq> SEAMA_MAGIC then Some (parse_error (- EINVAL))
              else if kernel_ent_size > mtd_size m then Some (parse_error (- EINVAL))
              else
                with_rootfs (rootfs_at_or_from c m kernel_ent_size SEAMA_MIN_ROOTFS_OFFS)
                  (\<lambda>off t. give_parts alloc
                    [mk_part KERNEL_PART_NAME kernel_offset (wrap64 (off - kernel_offset)),
                    mk_part (rootfs_name t) off (wrap64 (mtd_size m - off))])))"

section \<open>WRGG\<close>

record wrgg03_header =
  wg_signature :: "u8 list"
  wg_magic1 :: "u8 list"
  wg_magic2 :: "u8 list"
  wg_version :: "u8 list"
  wg_model :: "u8 list"
  wg_flag :: "u8 list"
  wg_reserve :: "u8 list"
  wg_buildno :: "u8 list"
  wg_size :: "u8 list"
  wg_offset :: "u8 list"
  wg_devname :: "u8 list"
  wg_digest :: "u8 list"

text \<open>The numbers are kept as bytes: the parser reads the size in both byte orders.\<close>

definition wrgg03_header_of :: "u8 list \<Rightarrow> wrgg03_header" where
  "wrgg03_header_of h = \<lparr>wg_signature = rd_bytes h 0 32, wg_magic1 = rd_bytes h 32 4,
     wg_magic2 = rd_bytes h 36 4, wg_version = rd_bytes h 40 16, wg_model = rd_bytes h 56 16,
     wg_flag = rd_bytes h 72 8, wg_reserve = rd_bytes h 80 8, wg_buildno = rd_bytes h 88 16,
     wg_size = rd_bytes h 104 4, wg_offset = rd_bytes h 108 4, wg_devname = rd_bytes h 112 32,
     wg_digest = rd_bytes h 144 16\<rparr>"

record wrg_header =
  wr_signature :: "u8 list"
  wr_magic1 :: "u8 list"
  wr_magic2 :: "u8 list"
  wr_size :: "u8 list"
  wr_offset :: "u8 list"
  wr_devname :: "u8 list"
  wr_digest :: "u8 list"

definition wrg_header_of :: "u8 list \<Rightarrow> wrg_header" where
  "wrg_header_of h = \<lparr>wr_signature = rd_bytes h 0 32, wr_magic1 = rd_bytes h 32 4,
     wr_magic2 = rd_bytes h 36 4, wr_size = rd_bytes h 40 4, wr_offset = rd_bytes h 44 4,
     wr_devname = rd_bytes h 48 32, wr_digest = rd_bytes h 80 16\<rparr>"

abbreviation WRGG03_MAGIC :: u32 where "WRGG03_MAGIC \<equiv> 0x20080321"
abbreviation WRG_MAGIC :: u32 where "WRG_MAGIC \<equiv> 0x20040220"
abbreviation WRGG_MIN_ROOTFS_OFFS :: int where "WRGG_MIN_ROOTFS_OFFS \<equiv> 0x80000"
abbreviation wrgg_hdr_len :: nat where "wrgg_hdr_len \<equiv> 160"
abbreviation wrg_hdr_len :: nat where "wrg_hdr_len \<equiv> 96"

definition wrgg_kernel_ent_size :: "cpu \<Rightarrow> mtd_info \<Rightarrow> u8 list \<Rightarrow> int + int" where
  "wrgg_kernel_ent_size c m h =
     (let hdr = wrgg03_header_of h; magic1 = rd32 (wg_magic1 hdr) 0;
          be = szt c (int wrgg_hdr_len + uint (rd32be (wg_size hdr) 0));
          le = szt c (int wrgg_hdr_len + uint (rd32 (wg_size hdr) 0));
          wr = szt c (int wrg_hdr_len + uint (rd32 (wr_size (wrg_header_of h)) 0))
      in if magic1 = WRGG03_MAGIC then
           let k = (if be > mtd_size m then le else be) in
           if k > mtd_size m then Inl (- EINVAL) else Inr k
         else if magic1 = WRG_MAGIC then Inr wr
         else Inl (- EINVAL))"

definition mtdsplit_parse_wrgg :: "cpu \<Rightarrow> bool \<Rightarrow> mtd_info \<Rightarrow> parsed option" where
  "mtdsplit_parse_wrgg c alloc m =
     with_header m 0 wrgg_hdr_len (\<lambda>h.
          (case wrgg_kernel_ent_size c m h of
             Inl e \<Rightarrow> Some (parse_error e)
           | Inr kernel_ent_size \<Rightarrow>
               if kernel_ent_size > mtd_size m then Some (parse_error (- EINVAL))
               else
                 with_rootfs (mtd_find_rootfs_from c m WRGG_MIN_ROOTFS_OFFS (szt c (mtd_size m)))
                   (\<lambda>off _. give_parts alloc
                     [mk_part KERNEL_PART_NAME 0 off,
                     mk_part ROOTFS_PART_NAME off (wrap64 (mtd_size m - off))])))"

section \<open>EVA\<close>

record eva_image_header =
  eva_magic :: u32
  eva_size :: u32

definition eva_image_header_of :: "u8 list \<Rightarrow> eva_image_header" where
  "eva_image_header_of h = \<lparr>eva_magic = rd32 h 0, eva_size = rd32 h 4\<rparr>"

abbreviation EVA_MAGIC :: u32 where "EVA_MAGIC \<equiv> 0xfeed1281"
abbreviation EVA_FOOTER_SIZE :: u32 where "EVA_FOOTER_SIZE \<equiv> 0x18"
abbreviation EVA_DUMMY_SQUASHFS_SIZE :: int where "EVA_DUMMY_SQUASHFS_SIZE \<equiv> 0x100"

text \<open>The size and the footer are added in 32 bits.\<close>

definition mtdsplit_parse_eva :: "cpu \<Rightarrow> bool \<Rightarrow> mtd_info \<Rightarrow> parsed" where
  "mtdsplit_parse_eva c alloc m =
     (case read_exact m 0 8 of
        Inl e \<Rightarrow> parse_error e
      | Inr h \<Rightarrow>
          (let hdr = eva_image_header_of h;
               kernel_size = uint (eva_size hdr + EVA_FOOTER_SIZE);
               rootfs_offset = szt c (round_up_ul c kernel_size 0x10000 + EVA_DUMMY_SQUASHFS_SIZE)
           in if eva_magic hdr \<noteq> EVA_MAGIC then parse_error (- EINVAL)
              else if rootfs_offset \<ge> mtd_size m then parse_error (- EINVAL)
              else
                (case mtd_check_rootfs_magic c m rootfs_offset of
                   Inl e \<Rightarrow> parse_error e
                 | Inr _ \<Rightarrow> give_parts alloc
                     [mk_part KERNEL_PART_NAME 0 kernel_size,
                      mk_part ROOTFS_PART_NAME rootfs_offset (wrap64 (mtd_size m - rootfs_offset))])))"

section \<open>brnImage\<close>

abbreviation BRNIMAGE_ALIGN_BYTES :: int where "BRNIMAGE_ALIGN_BYTES \<equiv> 0x400"
abbreviation BRNIMAGE_FOOTER_SIZE :: int where "BRNIMAGE_FOOTER_SIZE \<equiv> 12"
abbreviation BRNIMAGE_MIN_OVERHEAD :: int where "BRNIMAGE_MIN_OVERHEAD \<equiv> 12"
abbreviation BRNIMAGE_MAX_OVERHEAD :: int where "BRNIMAGE_MAX_OVERHEAD \<equiv> 0x40c"

text \<open>The loop variable is \<open>ret\<close>.\<close>

definition brnimage_body :: "cpu \<Rightarrow> mtd_info \<Rightarrow> int \<Rightarrow> int \<Rightarrow> int \<times> bool" where
  "brnimage_body c m off _ =
     (case mtd_check_rootfs_magic c m off of Inl e \<Rightarrow> (e, e = 0) | Inr _ \<Rightarrow> (0, True))"

definition brnimage_parts :: "cpu \<Rightarrow> bool \<Rightarrow> mtd_info \<Rightarrow> int \<Rightarrow> parsed" where
  "brnimage_parts c alloc m rootfs_offset =
     (case read_exact m (szt c (rootfs_offset - BRNIMAGE_FOOTER_SIZE)) 4 of
        Inl e \<Rightarrow> parse_error e
      | Inr buf \<Rightarrow>
          (let kernel_size = uint (rd32 buf 0);
               rootfs_size = szt c (wrap64 (mtd_size m - rootfs_offset - BRNIMAGE_FOOTER_SIZE))
           in if kernel_size > szt c (rootfs_offset - BRNIMAGE_MIN_OVERHEAD) then parse_error (- EINVAL)
              else if kernel_size < szt c (rootfs_offset - BRNIMAGE_MAX_OVERHEAD) then parse_error (- EINVAL)
              else give_parts alloc
                [mk_part KERNEL_PART_NAME 0 kernel_size, mk_part ROOTFS_PART_NAME rootfs_offset rootfs_size]))"

definition mtdsplit_parse_brnimage :: "cpu \<Rightarrow> bool \<Rightarrow> mtd_info \<Rightarrow> parsed option" where
  "mtdsplit_parse_brnimage c alloc m =
     map_option (\<lambda>(rootfs_offset, ret).
         if ret \<noteq> 0 then parse_error ret
         else if rootfs_offset \<ge> mtd_size m then parse_error (- EINVAL)
         else brnimage_parts c alloc m rootfs_offset)
       (for_off (\<lambda>off. szt c (off + BRNIMAGE_ALIGN_BYTES)) (mtd_size m) (brnimage_body c m) 0 0)"

section \<open>LZMA and MikroTik minor\<close>

record lzma_header =
  lz_props :: "u8 list"
  lz_size_low :: u32
  lz_size_high :: u32

definition lzma_header_of :: "u8 list \<Rightarrow> lzma_header" where
  "lzma_header_of h = \<lparr>lz_props = rd_bytes h 0 5, lz_size_low = rd32 h 5, lz_size_high = rd32 h 9\<rparr>"

definition is_power_of_2 :: "u32 \<Rightarrow> bool" where
  "is_power_of_2 n \<longleftrightarrow> n \<noteq> 0 \<and> n AND (n - 1) = 0"

text \<open>Both take the root file system that is found first from the second erase block on.\<close>

definition split_at_rootfs :: "cpu \<Rightarrow> bool \<Rightarrow> mtd_info \<Rightarrow> int \<Rightarrow> parsed option" where
  "split_at_rootfs c alloc m from =
     with_rootfs (mtd_find_rootfs_from c m from (szt c (mtd_size m)))
       (\<lambda>off _. give_parts alloc
         [mk_part KERNEL_PART_NAME 0 off, mk_part ROOTFS_PART_NAME off (wrap64 (mtd_size m - off))])"

definition mtdsplit_parse_lzma :: "cpu \<Rightarrow> bool \<Rightarrow> mtd_info \<Rightarrow> parsed option" where
  "mtdsplit_parse_lzma c alloc m =
     with_header m 0 13 (\<lambda>h.
          (let hdr = lzma_header_of h in
           if lz_props hdr ! 0 \<ge> 9 * 5 * 5 then Some (parse_error (- EINVAL))
           else if \<not> is_power_of_2 (rd32 (lz_props hdr) 1) then Some (parse_error (- EINVAL))
           else if lz_size_high hdr \<noteq> 0 then Some (parse_error (- EINVAL))
           else split_at_rootfs c alloc m (erasesize m)))"

text \<open>The fields take 137 bytes; the structure is padded to 140.\<close>

record minor_header =
  yaffs_type :: u32
  yaffs_obj_id :: u32
  yaffs_sum_unused :: u16
  yaffs_name :: "u8 list"

definition minor_header_of :: "cpu \<Rightarrow> u8 list \<Rightarrow> minor_header" where
  "minor_header_of c h = \<lparr>yaffs_type = rd32c c h 0, yaffs_obj_id = rd32c c h 4,
     yaffs_sum_unused = rd16c c h 8, yaffs_name = rd_bytes h 10 127\<rparr>"

abbreviation minor_hdr_len :: nat where "minor_hdr_len \<equiv> 140"

definition mtdsplit_parse_minor :: "cpu \<Rightarrow> bool \<Rightarrow> mtd_info \<Rightarrow> parsed option" where
  "mtdsplit_parse_minor c alloc m =
     with_header m 0 minor_hdr_len (\<lambda>h.
          (let hdr = minor_header_of c h in
           if yaffs_type hdr \<noteq> 1 then Some (parse_error (- ENOENT))
           else if yaffs_obj_id hdr \<noteq> 1 then Some (parse_error (- ENOENT))
           else if yaffs_sum_unused hdr \<noteq> 0xFFFF then Some (parse_error (- ENOENT))
           else if take 7 (yaffs_name hdr) \<noteq> cstr ''kernel'' @ [0] \<and>
             take 10 (yaffs_name hdr) \<noteq> cstr ''bootimage'' @ [0] then Some (parse_error (- ENOENT))
           else split_at_rootfs c alloc m (erasesize m)))"

section \<open>CFE bootfs\<close>

text \<open>The entry of a directory in JFFS2, of the kernel's interface; the name follows.\<close>

record jffs2_raw_dirent =
  jd_magic :: u16
  jd_nodetype :: u16
  jd_totlen :: u32
  jd_ino :: u32
  jd_nsize :: u8
  jd_node_crc :: u32

definition jffs2_raw_dirent_of :: "cpu \<Rightarrow> u8 list \<Rightarrow> nat \<Rightarrow> jffs2_raw_dirent" where
  "jffs2_raw_dirent_of c h o' = \<lparr>jd_magic = rd16c c h o', jd_nodetype = rd16c c h (o' + 2),
     jd_totlen = rd32c c h (o' + 4), jd_ino = rd32c c h (o' + 20), jd_nsize = h ! (o' + 28),
     jd_node_crc = rd32c c h (o' + 32)\<rparr>"

abbreviation jffs2_dirent_len :: nat where "jffs2_dirent_len \<equiv> 40"
abbreviation JFFS2_MAGIC_BITMASK :: u16 where "JFFS2_MAGIC_BITMASK \<equiv> 0x1985"
abbreviation JFFS2_NODETYPE_DIRENT :: u16 where "JFFS2_NODETYPE_DIRENT \<equiv> 0xe001"

text \<open>\<open>(offset + 0x3) & ~0x3\<close> of a \<open>size_t\<close>: the mask is the \<open>int\<close> \<open>- 4\<close>.\<close>

definition align4_sz :: "cpu \<Rightarrow> int \<Rightarrow> int" where
  "align4_sz c x = szt c (x + 3) div 4 * 4"

partial_function (option) bootfs_end :: "cpu \<Rightarrow> mtd_info \<Rightarrow> int \<Rightarrow> int option" where
  "bootfs_end c m off =
     (case read_exact m off jffs2_dirent_len of
        Inl _ \<Rightarrow> Some off
      | Inr h \<Rightarrow>
          if jd_magic (jffs2_raw_dirent_of c h 0) \<noteq> JFFS2_MAGIC_BITMASK then Some off
          else
            let off' = align4_sz c (szt c (off + uint (jd_totlen (jffs2_raw_dirent_of c h 0)))) in
            if off' < mtd_size m then bootfs_end c m off' else Some off')"

text \<open>The end of the bootfs is computed and not used.\<close>

definition mtdsplit_cfe_bootfs_parse :: "cpu \<Rightarrow> bool \<Rightarrow> mtd_info \<Rightarrow> parsed option" where
  "mtdsplit_cfe_bootfs_parse c alloc m =
     (if mtd_name m \<noteq> ''firmware'' then Some (parse_error (- EINVAL))
      else
        Option.bind (bootfs_end c m 0) (\<lambda>_.
          with_rootfs (mtd_find_rootfs_from c m (erasesize m) (szt c (mtd_size m)))
            (\<lambda>off t. give_parts alloc
              [mk_part ''bootfs'' 0 off, mk_part (rootfs_name t) off (wrap64 (mtd_size m - off))])))"

section \<open>H3C VFS\<close>

abbreviation VFS_ERASEBLOCK_SIZE :: int where "VFS_ERASEBLOCK_SIZE \<equiv> 0x10000"
abbreviation VFS_BLOCK_SIZE :: int where "VFS_BLOCK_SIZE \<equiv> 0x400"
abbreviation VFS_BLOCKS_PER_ERASEBLOCK :: int where "VFS_BLOCKS_PER_ERASEBLOCK \<equiv> 64"
abbreviation FORMAT_FLAG :: u32 where "FORMAT_FLAG \<equiv> 0x10000400"
abbreviation FILE_ENTRY_OFFSET :: int where "FILE_ENTRY_OFFSET \<equiv> 0x800"
abbreviation FILE_ENTRY_NAME :: string where "FILE_ENTRY_NAME \<equiv> ''openwrt-kernel.bin''"

record file_entry =
  fe_flags :: u8
  fe_year :: u16
  fe_month :: u8
  fe_day :: u8
  fe_hour :: u8
  fe_minute :: u8
  fe_second :: u8
  fe_length :: u32
  fe_parent_block :: u32
  fe_parent_index :: u16
  fe_data_block :: u32
  fe_name :: "u8 list"

text \<open>The reserved bytes at 1, 13 and 26 are left out.\<close>

definition file_entry_of :: "cpu \<Rightarrow> u8 list \<Rightarrow> file_entry" where
  "file_entry_of c h = \<lparr>fe_flags = h ! 0, fe_year = rd16c c h 6, fe_month = h ! 8, fe_day = h ! 9,
     fe_hour = h ! 10, fe_minute = h ! 11, fe_second = h ! 12, fe_length = rd32c c h 16,
     fe_parent_block = rd32c c h 20, fe_parent_index = rd16c c h 24, fe_data_block = rd32c c h 28,
     fe_name = rd_bytes h 32 96\<rparr>"

text \<open>The value stored in an \<open>int\<close>; the kernel is built so that a signed overflow wraps around.\<close>

definition sint32 :: "int \<Rightarrow> int" where
  "sint32 x = (x + 2 ^ 31) mod 2 ^ 32 - 2 ^ 31"

text \<open>Block numbers are not negative: \<open>div\<close> and \<open>mod\<close> are those of C.\<close>

definition block_offset :: "cpu \<Rightarrow> int \<Rightarrow> int" where
  "block_offset c block =
     szt c (sint32 (VFS_ERASEBLOCK_SIZE * (block div (VFS_BLOCKS_PER_ERASEBLOCK - 1)) +
       VFS_BLOCK_SIZE * (1 + block mod (VFS_BLOCKS_PER_ERASEBLOCK - 1))))"

definition block_count :: "cpu \<Rightarrow> int \<Rightarrow> int" where
  "block_count c sz = sint32 (szt c (sz + VFS_BLOCK_SIZE - 1) div VFS_BLOCK_SIZE)"

definition h3c_check_entry :: "file_entry \<Rightarrow> bool" where
  "h3c_check_entry fe \<longleftrightarrow> fe_flags fe = 0x3f \<and> fe_parent_block fe = 0 \<and> fe_parent_index fe = 0 \<and>
     fe_data_block fe = 2 \<and> take 19 (fe_name fe) = cstr FILE_ENTRY_NAME @ [0]"

definition mtdsplit_h3c_vfs_parse :: "cpu \<Rightarrow> bool \<Rightarrow> mtd_info \<Rightarrow> parsed option" where
  "mtdsplit_h3c_vfs_parse c alloc m =
     (if erasesize m \<noteq> VFS_ERASEBLOCK_SIZE then Some (parse_error (- EINVAL))
      else with_header m 0 4 (\<lambda>f.
          if rd32c c f 0 \<noteq> FORMAT_FLAG then Some (parse_error (- ENOENT))
          else with_header m FILE_ENTRY_OFFSET 128 (\<lambda>h.
              (let fe = file_entry_of c h;
                   blk = sint32 (wrap32 (uint (fe_data_block fe) + block_count c (uint (fe_length fe)) - 1));
                   kernel_size = szt c (block_offset c blk + VFS_BLOCK_SIZE)
               in if \<not> h3c_check_entry fe then Some (parse_error (- ENOENT))
                  else split_at_rootfs c alloc m (szt c (mtd_roundup_to_eb kernel_size m))))))"

section \<open>OpenWrt prolog\<close>

abbreviation OWRT_PROLOG_SIZE :: nat where "OWRT_PROLOG_SIZE \<equiv> 512"
abbreviation OWRT_PROLOG_MAX_OVERHEAD :: nat where "OWRT_PROLOG_MAX_OVERHEAD \<equiv> 32"
abbreviation OWRT_PROLOG_MAGIC :: string where "OWRT_PROLOG_MAGIC \<equiv> ''OPENWRT-PROLOG-512''"

text \<open>The place of the magic text, and \<open>None\<close> without one.\<close>

definition find_prolog :: "u8 list \<Rightarrow> nat option" where
  "find_prolog buf =
     List.find (\<lambda>i. take 18 (drop i buf) = cstr OWRT_PROLOG_MAGIC)
       [0..<OWRT_PROLOG_SIZE - OWRT_PROLOG_MAX_OVERHEAD]"

text \<open>\<open>kstrtol\<close> is a function of the kernel: it gets what is left of the buffer.\<close>

definition mtdsplit_parse_owrt_prolog ::
  "cpu \<Rightarrow> (u8 list \<Rightarrow> int + int) \<Rightarrow> bool \<Rightarrow> mtd_info \<Rightarrow> parsed" where
  "mtdsplit_parse_owrt_prolog c kstrtol alloc m =
     (case read_exact m 0 OWRT_PROLOG_SIZE of
        Inl e \<Rightarrow> parse_error e
      | Inr buf \<Rightarrow>
          (case find_prolog buf of
             None \<Rightarrow> parse_error (- EINVAL)
           | Some i \<Rightarrow>
               (case kstrtol (drop (i + 18 + 1) buf) of
                  Inl e \<Rightarrow> parse_error e
                | Inr v \<Rightarrow>
                    (let kernel_size = szt c (szt c v + int OWRT_PROLOG_SIZE);
                         rootfs_offset = round_up_ul c kernel_size 0x20000
                     in if rootfs_offset \<ge> mtd_size m then parse_error (- EINVAL)
                        else (case mtd_check_rootfs_magic c m rootfs_offset of
                          Inl e \<Rightarrow> parse_error e
                        | Inr _ \<Rightarrow> give_parts alloc
                            [mk_part KERNEL_PART_NAME 0 kernel_size,
                             mk_part ROOTFS_PART_NAME rootfs_offset (wrap64 (mtd_size m - rootfs_offset))])))))"

section \<open>SquashFS\<close>

text \<open>\<open>parent\<close> is the device that holds the partition \<open>m\<close>, at \<open>part_offset\<close>.\<close>

definition mtdsplit_parse_squashfs :: "cpu \<Rightarrow> bool \<Rightarrow> mtd_info \<Rightarrow> int \<Rightarrow> mtd_info \<Rightarrow> parsed" where
  "mtdsplit_parse_squashfs c alloc parent part_offset m =
     (case mtd_get_squashfs_len c m 0 of
        Inl e \<Rightarrow> parse_error e
      | Inr squashfs_len \<Rightarrow>
          (let po = szt c part_offset;
               off = wrap64 (mtd_roundup_to_eb (szt c (po + squashfs_len)) parent - po)
           in give_parts alloc
                [mk_part ROOTFS_SPLIT_NAME off (mtd_rounddown_to_eb (wrap64 (mtd_size m - off)) m)]))"

section \<open>The results are well formed\<close>

definition parse_ok :: "mtd_info \<Rightarrow> parsed \<Rightarrow> bool" where
  "parse_ok m r = (case r of
       (n, None) \<Rightarrow> n \<le> 0
     | (n, Some ps) \<Rightarrow> n = int (length ps) \<and> (\<forall>p\<in>set ps. part_in m p))"

lemma parse_ok_error [simp]: "parse_ok m (parse_error e) \<longleftrightarrow> e \<le> 0"
  by (simp add: parse_ok_def)

lemma parse_ok_give [simp]: "parse_ok m (give_parts alloc ps) \<longleftrightarrow> alloc \<longrightarrow> (\<forall>p\<in>set ps. part_in m p)"
  by (simp add: parse_ok_def give_parts_def)

lemma part_in_mk [simp]: "part_in m (mk_part nm off len) \<longleftrightarrow> 0 \<le> off \<and> 0 \<le> len \<and> off + len \<le> mtd_size m"
  by (simp add: part_in_def)

lemmas rootfs_rules = rfs.checked_part rfs.found_part

lemma check_rootfs_magic_neg:
  "mtd_sane m \<Longrightarrow> mtd_check_rootfs_magic c m off = Inl e \<Longrightarrow> e < 0"
  by (auto simp: mtd_check_rootfs_magic_def dest: read_exact_Inl_neg split: sum.splits if_splits)

lemma found_not_positive: "mtd_find_rootfs_from c m from limit = Some (Inl e) \<Longrightarrow> e \<le> 0"
  by (drule rfs.not_found) simp

lemma found_tail:
  "mtd_sane m \<Longrightarrow> mtd_find_rootfs_from c m from limit = Some (Inr (off, t)) \<Longrightarrow>
    0 \<le> off \<and> off < mtd_size m \<and> off < limit \<and> wrap64 (mtd_size m - off) = mtd_size m - off \<and>
    mtd_check_rootfs_magic c m off = Inr t"
  by (metis rfs.found_part)

lemma checked_tail:
  "mtd_sane m \<Longrightarrow> mtd_check_rootfs_magic c m off = Inr t \<Longrightarrow>
    0 \<le> off \<and> off < mtd_size m \<and> wrap64 (mtd_size m - off) = mtd_size m - off"
  by (metis rfs.checked_part(1-3))

lemma rootfs_at_or_from_cases:
  assumes "mtd_sane m"
  shows "rootfs_at_or_from c m at from = Some (Inl e) \<Longrightarrow> e \<le> 0"
    and "rootfs_at_or_from c m at from = Some (Inr (off, t)) \<Longrightarrow>
      0 \<le> off \<and> off < mtd_size m \<and> wrap64 (mtd_size m - off) = mtd_size m - off \<and>
      mtd_check_rootfs_magic c m off = Inr t"
  by (auto simp: rootfs_at_or_from_def dest: found_not_positive found_tail [OF assms] checked_tail [OF assms]
      split: sum.splits)

text \<open>A parser that may not return: its result is well formed when there is one.\<close>

definition returns_ok :: "mtd_info \<Rightarrow> parsed option \<Rightarrow> bool" where
  "returns_ok m x \<longleftrightarrow> (\<forall>r. x = Some r \<longrightarrow> parse_ok m r)"

lemma returns_ok_simps [simp]: "returns_ok m None" "returns_ok m (Some r) \<longleftrightarrow> parse_ok m r"
  by (simp_all add: returns_ok_def)

lemma returns_ok_header:
  "mtd_sane m \<Longrightarrow> (\<And>h. read_exact m off n = Inr h \<Longrightarrow> returns_ok m (F h)) \<Longrightarrow> returns_ok m (with_header m off n F)"
  by (auto simp: with_header_def split: sum.splits dest: read_exact_Inl_neg)

lemma returns_ok_rootfs:
  assumes "\<And>e. found = Some (Inl e) \<Longrightarrow> e \<le> 0"
    and "\<And>off t p. found = Some (Inr (off, t)) \<Longrightarrow> p \<in> set (ps off t) \<Longrightarrow> part_in m p"
  shows "returns_ok m (with_rootfs found (\<lambda>off t. give_parts alloc (ps off t)))"
  unfolding returns_ok_def by (intro allI impI, erule with_rootfsE) (use assms in auto)

lemma found_parts_ok:
  "mtd_sane m \<Longrightarrow> returns_ok m (with_rootfs (mtd_find_rootfs_from c m from limit)
      (\<lambda>off t. give_parts alloc [mk_part nm 0 off, mk_part (rnm t) off (wrap64 (mtd_size m - off))]))"
  by (rule returns_ok_rootfs) (auto dest: found_not_positive found_tail)

lemma split_at_rootfs_ok: "mtd_sane m \<Longrightarrow> returns_ok m (split_at_rootfs c alloc m from)"
  unfolding split_at_rootfs_def by (rule found_parts_ok)

lemma rootfs_at_or_from_ok:
  assumes s: "mtd_sane m"
    and "\<And>off t. rootfs_at_or_from c m at from = Some (Inr (off, t)) \<Longrightarrow> off < mtd_size m \<Longrightarrow> part_in m (k off t)"
  shows "returns_ok m (with_rootfs (rootfs_at_or_from c m at from)
      (\<lambda>off t. give_parts alloc [k off t, mk_part (nm t) off (wrap64 (mtd_size m - off))]))"
  by (rule returns_ok_rootfs)
    (use assms(2) in \<open>auto dest: rootfs_at_or_from_cases(1) [OF s] rootfs_at_or_from_cases(2) [OF s]\<close>)

lemma tplink_sizes_cases:
  "tplink_sizes c h = Inl e \<Longrightarrow> e \<le> 0"
  "tplink_sizes c h = Inr (k, ro) \<Longrightarrow> 0 \<le> k"
  by (auto simp: tplink_sizes_def Let_def split: if_splits)

lemma tplink_ok:
  assumes s: "mtd_sane m"
  shows "returns_ok m (mtdsplit_parse_tplink c alloc m)"
  unfolding mtdsplit_parse_tplink_def
proof (rule returns_ok_header [OF s], goal_cases)
  case (1 h)
  show ?case using tplink_sizes_cases [of c h]
    by (auto split: sum.splits intro!: rootfs_at_or_from_ok [OF s])
qed

lemma tail_after:
  assumes "mtd_sane m" "0 \<le> k" "k \<le> off" "off < mtd_size m"
  shows "0 \<le> wrap64 (off - k) \<and> k + wrap64 (off - k) = off"
  using assms mtd_saneD(3) [OF assms(1)] by simp

lemma seama_sizes:
  fixes sz :: u32 and meta :: u16
  shows "28 + uint sz + uint meta < 2 ^ 64" "28 + uint meta < 0x80000"
proof -
  have "uint sz < 2 ^ 32" "uint meta < 2 ^ 16" using uint_bounded [of sz] uint_bounded [of meta] by simp_all
  then show "28 + uint sz + uint meta < 2 ^ 64" "28 + uint meta < 0x80000" by simp_all
qed

lemma find_rootfs_from_ge:
  assumes "searchable c m" "0 \<le> a" "limit \<le> mtd_size m"
    and "mtd_find_rootfs_from c m a limit = Some (Inr (off, t))"
  shows "a \<le> off"
  using mtd_find_rootfs_from_spec [OF assms(1-3)] assms(4) by (simp add: first_rootfs_def eb_step_def)

lemma searchable_size: "searchable c m \<Longrightarrow> szt c (mtd_size m) = mtd_size m"
  using searchableD [of c m] by (simp add: szt_small)

lemma seama_ok:
  assumes s: "searchable c m" and w: "long_bits c = 64"
  shows "returns_ok m (mtdsplit_parse_seama c alloc m)"
  unfolding mtdsplit_parse_seama_def
proof (rule returns_ok_header [OF searchableD(1) [OF s]], goal_cases)
  case (1 h)
  let ?sz = "sm_size (seama_header_of h)" and ?meta = "sm_metasize (seama_header_of h)"
  have k: "szt c (28 + uint ?sz + uint ?meta) = 28 + uint ?sz + uint ?meta"
    using seama_sizes(1) [of ?sz ?meta] w by (simp add: szt_def)
  have ge: "28 + uint ?meta \<le> off"
    if "rootfs_at_or_from c m (28 + uint ?sz + uint ?meta) 0x80000 = Some (Inr (off, t))" for off t
    using that seama_sizes(2) [of ?meta]
      find_rootfs_from_ge [OF s, where a = "0x80000" and limit = "mtd_size m" and off = off and t = t]
    by (auto simp: rootfs_at_or_from_def searchable_size [OF s] split: sum.splits)
  show ?case
    using ge tail_after [OF searchableD(1) [OF s], of "28 + uint ?meta"]
    by (auto simp: Let_def k intro!: rootfs_at_or_from_ok [OF searchableD(1) [OF s]])
qed

lemma wrgg_ok: "mtd_sane m \<Longrightarrow> returns_ok m (mtdsplit_parse_wrgg c alloc m)"
  unfolding mtdsplit_parse_wrgg_def split_at_rootfs_def [symmetric]
  by (rule returns_ok_header) (auto simp: wrgg_kernel_ent_size_def Let_def split_at_rootfs_ok split: sum.splits if_splits)

lemma lzma_ok: "mtd_sane m \<Longrightarrow> returns_ok m (mtdsplit_parse_lzma c alloc m)"
  unfolding mtdsplit_parse_lzma_def by (rule returns_ok_header) (simp_all add: Let_def split_at_rootfs_ok)

lemma minor_ok: "mtd_sane m \<Longrightarrow> returns_ok m (mtdsplit_parse_minor c alloc m)"
  unfolding mtdsplit_parse_minor_def by (rule returns_ok_header) (simp_all add: Let_def split_at_rootfs_ok)

lemma h3c_ok: "mtd_sane m \<Longrightarrow> returns_ok m (mtdsplit_h3c_vfs_parse c alloc m)"
  by (auto simp: mtdsplit_h3c_vfs_parse_def Let_def split_at_rootfs_ok intro!: returns_ok_header)

lemma or_mask_int: "(a :: int) OR mask k = a div 2 ^ k * 2 ^ k + mask k"
proof -
  have "a OR mask k = push_bit k (drop_bit k a) OR mask k"
    by (rule bit_eqI) (auto simp: bit_simps)
  also have "\<dots> = push_bit k (drop_bit k a) + mask k"
    by (rule disjunctive_add [symmetric]) (auto simp: bit_simps)
  finally show ?thesis by (simp add: push_bit_eq_mult drop_bit_eq_div)
qed

lemma round_up_ul_ge:
  assumes "0 < x" "x + 2 ^ k < 2 ^ long_bits c"
  shows "x \<le> round_up_ul c x (2 ^ k)" "2 ^ k dvd round_up_ul c x (2 ^ k)" "round_up_ul c x (2 ^ k) < x + 2 ^ k"
proof -
  let ?q = "(x - 1) div 2 ^ k"
  have "0 \<le> x - 1" "x - 1 < 2 ^ long_bits c"
    using assms zero_less_power [of "2 :: int" k] by linarith+
  then have x1: "szt c (x - 1) = x - 1" by (simp add: szt_def)
  have split: "x - 1 = ?q * 2 ^ k + (x - 1) mod 2 ^ k" "0 \<le> (x - 1) mod 2 ^ k" "(x - 1) mod 2 ^ k < 2 ^ k"
    by (simp_all only: div_mult_mod_eq pos_mod_sign pos_mod_bound zero_less_power zero_less_numeral)
  have q: "0 \<le> ?q * 2 ^ k" using assms(1) by (intro mult_nonneg_nonneg) (simp_all add: pos_imp_zdiv_nonneg_iff)
  have le: "?q * 2 ^ k + 2 ^ k < x + 2 ^ k" using split(1,2) by linarith
  have "(x - 1 OR (2 ^ k - 1)) + 1 = ?q * 2 ^ k + 2 ^ k"
    using or_mask_int [of "x - 1" k] by (simp add: mask_eq_exp_minus_1)
  moreover have "szt c (?q * 2 ^ k + 2 ^ k) = ?q * 2 ^ k + 2 ^ k" using assms(2) le q by (simp add: szt_def)
  ultimately have eq: "round_up_ul c x (2 ^ k) = (?q + 1) * 2 ^ k" by (simp add: round_up_ul_def x1 distrib_right)
  show "2 ^ k dvd round_up_ul c x (2 ^ k)" unfolding eq by simp
  show "x \<le> round_up_ul c x (2 ^ k)" "round_up_ul c x (2 ^ k) < x + 2 ^ k"
    unfolding eq distrib_right mult_1_left using split le by linarith+
qed

lemma eva_ok:
  assumes s: "mtd_sane m" and w: "long_bits c = 64"
  shows "parse_ok m (mtdsplit_parse_eva c alloc m)"
proof (cases "read_exact m 0 8")
  case (Inr h)
  let ?k = "uint (eva_size (eva_image_header_of h) + EVA_FOOTER_SIZE)"
  let ?ro = "szt c (round_up_ul c ?k 0x10000 + EVA_DUMMY_SQUASHFS_SIZE)"
  have k: "0 \<le> ?k" "?k < 2 ^ 32"
    using uint_bounded [of "eva_size (eva_image_header_of h) + EVA_FOOTER_SIZE"] by simp_all
  have ru: "?k \<le> round_up_ul c ?k 0x10000 \<and> round_up_ul c ?k 0x10000 < 2 ^ 33"
  proof (cases "?k = 0")
    case True
    then show ?thesis using w by (simp only: round_up_ul_def szt_def) simp
  next
    case False
    then show ?thesis
      using round_up_ul_ge(1) [of ?k 16 c] round_up_ul_ge(3) [of ?k 16 c] k w by simp
  qed
  then have "0 \<le> round_up_ul c ?k 0x10000 + 0x100" "round_up_ul c ?k 0x10000 + 0x100 < 2 ^ 64"
    using k by (linarith, simp)
  then have "?ro = round_up_ul c ?k 0x10000 + 0x100" using w by (simp add: szt_def)
  then have "?k \<le> ?ro" using ru by linarith
  then show ?thesis
    using k check_rootfs_magic_neg [OF s, of c ?ro] checked_tail [OF s, of c ?ro]
    by (auto simp: mtdsplit_parse_eva_def Inr Let_def split: sum.splits)
qed (use read_exact_Inl_neg [OF s] in \<open>force simp: mtdsplit_parse_eva_def\<close>)

lemma cfe_bootfs_ok: "mtd_sane m \<Longrightarrow> returns_ok m (mtdsplit_cfe_bootfs_parse c alloc m)"
  by (cases "bootfs_end c m 0") (simp_all add: mtdsplit_cfe_bootfs_parse_def found_parts_ok)

lemma brnimage_parts_ok:
  assumes s: "mtd_sane m" and size: "0x400 dvd mtd_size m" and w: "long_bits c = 64"
    and ro: "0 \<le> ro" "ro < mtd_size m" "0x400 dvd ro"
  shows "parse_ok m (brnimage_parts c alloc m ro)"
proof (cases "read_exact m (szt c (ro - BRNIMAGE_FOOTER_SIZE)) 4")
  case (Inr buf)
  have m63: "mtd_size m < 2 ^ 63" using mtd_saneD(3) [OF s] .
  have "ro \<noteq> 0" using read_exact_in_device [OF s Inr] m63 w by (auto simp: szt_def)
  then have "0x400 \<le> ro" using ro zdvd_imp_le [OF ro(3)] by linarith
  moreover have "0x400 \<le> mtd_size m - ro"
    using dvd_diff [OF size ro(3)] ro(2) by (intro zdvd_imp_le) auto
  ultimately have "szt c (ro - 12) = ro - 12" "szt c (wrap64 (mtd_size m - ro - 12)) = mtd_size m - ro - 12"
    "0 \<le> mtd_size m - ro - 12"
    using w m63 ro by (simp_all add: szt_def)
  then show ?thesis using ro(1,2) Inr by (auto simp: brnimage_parts_def Let_def)
qed (use read_exact_Inl_neg [OF s] in \<open>force simp: brnimage_parts_def\<close>)

lemma brnimage_next:
  assumes "mtd_sane m" "long_bits c = 64" "0 \<le> p" "p < mtd_size m"
  shows "szt c (p + 0x400) = p + 0x400"
  using assms mtd_saneD(3) [OF assms(1)] by (simp add: szt_def)

lemma brnimage_loop:
  assumes s: "mtd_sane m" and w: "long_bits c = 64"
    and run: "for_off (\<lambda>off. szt c (off + 0x400)) (mtd_size m) (brnimage_body c m) 0 0 = Some (ro, ret)"
  shows "0 \<le> ro \<and> 0x400 dvd ro \<and> ret \<le> 0"
proof -
  let ?I = "\<lambda>p (u :: int). 0 \<le> p \<and> 0x400 dvd p \<and> u \<le> 0"
  have "(\<not> ro < mtd_size m \<and> ?I ro ret) \<or> (ro < mtd_size m \<and> (\<exists>u. ?I ro u \<and> brnimage_body c m ro u = (ret, True)))"
    by (rule for_off_inv [OF run])
      (use check_rootfs_magic_neg [OF s] brnimage_next [OF s w] in
        \<open>fastforce simp: brnimage_body_def split: sum.splits\<close>)+
  then show ?thesis
    using check_rootfs_magic_neg [OF s] by (fastforce simp: brnimage_body_def split: sum.splits)
qed

lemma brnimage_ok:
  assumes s: "mtd_sane m" and sz: "0x400 dvd mtd_size m" and w: "long_bits c = 64"
  shows "returns_ok m (mtdsplit_parse_brnimage c alloc m)"
  unfolding returns_ok_def mtdsplit_parse_brnimage_def
proof (intro allI impI, erule map_option_eq_Some [THEN iffD1, THEN exE], elim conjE)
  fix r x
  assume run: "for_off (\<lambda>off. szt c (off + 0x400)) (mtd_size m) (brnimage_body c m) 0 0 = Some x"
    and r: "(case x of (ro, ret) \<Rightarrow> if ret \<noteq> 0 then parse_error ret else if ro \<ge> mtd_size m then parse_error (- EINVAL)
        else brnimage_parts c alloc m ro) = r"
  obtain ro ret where x: "x = (ro, ret)" by fastforce
  have "0 \<le> ro" "0x400 dvd ro" "ret \<le> 0" using brnimage_loop [OF s w run [unfolded x]] by auto
  then show "parse_ok m r" using r brnimage_parts_ok [OF s sz w, of ro alloc] by (auto simp: x split: if_splits)
qed

section \<open>They return\<close>

definition does_return :: "'a option \<Rightarrow> bool" where
  "does_return x \<longleftrightarrow> x \<noteq> None"

lemma does_return_Some [simp]: "does_return (Some r)"
  by (simp add: does_return_def)

lemma with_header_returns [simp]: "(\<And>h. does_return (F h)) \<Longrightarrow> does_return (with_header m off n F)"
  by (simp add: with_header_def split: sum.splits)

lemma with_rootfs_returns [simp]: "does_return found \<Longrightarrow> does_return (with_rootfs found F)"
  by (simp add: with_rootfs_def does_return_def)

lemma find_rootfs_returns [simp]:
  "searchable c m \<Longrightarrow> 0 \<le> from \<Longrightarrow> does_return (mtd_find_rootfs_from c m from (szt c (mtd_size m)))"
  using mtd_find_rootfs_from_returns [of c m "from" "mtd_size m"]
  by (auto simp: searchable_size does_return_def)

lemma rootfs_at_or_from_returns [simp]:
  "searchable c m \<Longrightarrow> 0 \<le> from \<Longrightarrow> does_return (rootfs_at_or_from c m at from)"
  by (simp add: rootfs_at_or_from_def split: sum.splits)

lemma split_at_rootfs_returns [simp]:
  "searchable c m \<Longrightarrow> 0 \<le> from \<Longrightarrow> does_return (split_at_rootfs c alloc m from)"
  by (simp add: split_at_rootfs_def)

lemma brnimage_returns:
  assumes "mtd_sane m" "long_bits c = 64"
  shows "does_return (mtdsplit_parse_brnimage c alloc m)"
proof -
  have "\<exists>o' t. for_off (\<lambda>off. szt c (off + 0x400)) (mtd_size m) (brnimage_body c m) 0 0 = Some (o', t)"
    by (rule for_off_returns [of "\<lambda>p. 0 \<le> p"]) (use brnimage_next [OF assms] in auto)
  then show ?thesis by (auto simp: mtdsplit_parse_brnimage_def does_return_def)
qed

text \<open>
  The parsers of this theory, by the names under which they are registered; the parser for CFE bootfs
  is left out here, since it need not return.
\<close>

definition fixed_parsers :: "cpu \<Rightarrow> bool \<Rightarrow> (string \<times> (mtd_info \<Rightarrow> parsed option)) list" where
  "fixed_parsers c alloc =
     [(''tplink-fw'', mtdsplit_parse_tplink c alloc), (''seama-fw'', mtdsplit_parse_seama c alloc),
      (''wrgg-fw'', mtdsplit_parse_wrgg c alloc), (''eva-fw'', Some \<circ> mtdsplit_parse_eva c alloc),
      (''brnimage-fw'', mtdsplit_parse_brnimage c alloc), (''lzma-fw'', mtdsplit_parse_lzma c alloc),
      (''minor-fw'', mtdsplit_parse_minor c alloc), (''h3c-vfs'', mtdsplit_h3c_vfs_parse c alloc)]"

lemma fixed_parsers_return:
  assumes s: "searchable c m" and w: "long_bits c = 64" and f: "(nm, f) \<in> set (fixed_parsers c alloc)"
  shows "does_return (f m)"
proof -
  have "0 \<le> erasesize m" using searchableD(4) [OF s] by simp
  then have "does_return (mtdsplit_parse_tplink c alloc m)" "does_return (mtdsplit_parse_seama c alloc m)"
    "does_return (mtdsplit_parse_wrgg c alloc m)" "does_return (mtdsplit_parse_lzma c alloc m)"
    "does_return (mtdsplit_parse_minor c alloc m)" "does_return (mtdsplit_h3c_vfs_parse c alloc m)"
    using s
    unfolding mtdsplit_parse_tplink_def mtdsplit_parse_seama_def mtdsplit_parse_wrgg_def mtdsplit_parse_lzma_def
      mtdsplit_parse_minor_def mtdsplit_h3c_vfs_parse_def
    by (simp_all add: Let_def split: sum.splits prod.splits)
  then show ?thesis using f brnimage_returns [OF searchableD(1) [OF s] w, of alloc]
    by (auto simp: fixed_parsers_def)
qed


text \<open>An LZMA kernel in one erase block of 512 bytes, and a SquashFS in the next.\<close>

definition lzma_flash :: mtd_info where
  "lzma_flash = flash ''firmware'' 512
     ([0x5d, 0, 0, 0x80, 0, 0, 1, 0, 0, 0, 0, 0, 0] @ replicate 499 0 @
      [0x68, 0x73, 0x71, 0x73] @ replicate 508 0)"

lemma lzma_flash_searchable: "searchable cpu_le64 lzma_flash"
  by (simp add: searchable_def lzma_flash_def mtd_sane_flash)


section \<open>The bootfs of CFE\<close>

lemma bootfs_end_zero:
  assumes h: "read_exact m 0 jffs2_dirent_len = Inr h"
    "jd_magic (jffs2_raw_dirent_of c h 0) = JFFS2_MAGIC_BITMASK" "jd_totlen (jffs2_raw_dirent_of c h 0) = 0"
    and m: "0 < mtd_size m" and c: "32 \<le> long_bits c"
  shows "bootfs_end c m 0 = None"
proof -
  have "c' = c \<and> m' = m \<and> off = 0 \<longrightarrow> False" if "bootfs_end c' m' off = Some r" for c' m' off r
  proof (rule bootfs_end.raw_induct [where P = "\<lambda>c' m' off r. c' = c \<and> m' = m \<and> off = 0 \<longrightarrow> False", OF _ that],
      intro impI, elim conjE, hypsubst)
    fix rec r
    assume IH: "\<And>c' m' off r. rec c' m' off = Some r \<Longrightarrow> c' = c \<and> m' = m \<and> off = 0 \<longrightarrow> False"
      and eq: "(case read_exact m 0 jffs2_dirent_len of
        Inl _ \<Rightarrow> Some 0
      | Inr h \<Rightarrow>
          if jd_magic (jffs2_raw_dirent_of c h 0) \<noteq> JFFS2_MAGIC_BITMASK then Some 0
          else
            let off' = align4_sz c (szt c (0 + uint (jd_totlen (jffs2_raw_dirent_of c h 0)))) in
            if off' < mtd_size m then rec c m off' else Some off') = Some r"
    have "align4_sz c (szt c 0) = 0" using c by (simp add: align4_sz_def szt_small)
    then have "rec c m 0 = Some r" using eq h m by simp
    then show False using IH by blast
  qed
  then show ?thesis by fastforce
qed

text \<open>
  The search for the end of the bootfs does not end, and with it the parser, when a node has the
  magic number and a length of zero: the offset stays where it is.
\<close>
theorem cfe_bootfs_parse_hangs:
  assumes "mtd_name m = ''firmware''" "read_exact m 0 jffs2_dirent_len = Inr h"
    and "jd_magic (jffs2_raw_dirent_of c h 0) = JFFS2_MAGIC_BITMASK" "jd_totlen (jffs2_raw_dirent_of c h 0) = 0"
    and "0 < mtd_size m" "32 \<le> long_bits c"
  shows "mtdsplit_cfe_bootfs_parse c alloc m = None"
  using bootfs_end_zero [OF assms(2-6)] assms(1) by (simp add: mtdsplit_cfe_bootfs_parse_def)


text \<open>A node of JFFS2 without a length, and a processor that has the byte order of the node.\<close>

definition bootfs_flash :: mtd_info where
  "bootfs_flash = flash ''firmware'' 64 ([0x85, 0x19, 0x01, 0xe0] @ replicate 60 0)"

theorem cfe_bootfs_parse_hangs_witness: "mtdsplit_cfe_bootfs_parse cpu_le64 True bootfs_flash = None"
proof -
  let ?h = "[0x85, 0x19, 0x01, 0xe0] @ replicate 36 (0 :: u8)"
  have h: "read_exact bootfs_flash 0 jffs2_dirent_len = Inr ?h"
    by (simp add: bootfs_flash_def read_exact_flash)
  have "jd_magic (jffs2_raw_dirent_of cpu_le64 ?h 0) = JFFS2_MAGIC_BITMASK"
    "jd_totlen (jffs2_raw_dirent_of cpu_le64 ?h 0) = 0"
    by code_simp+
  from cfe_bootfs_parse_hangs [OF _ h this] show ?thesis by (simp add: bootfs_flash_def)
qed

section \<open>The blocks of H3C VFS\<close>

lemma block_offset_small:
  assumes c: "32 \<le> long_bits c" and b: "0 \<le> b" "b < 63 * n" "n \<le> 2 ^ 15"
  shows "block_offset c b = 0x10000 * (b div 63) + 0x400 * (1 + b mod 63)"
    "b div 63 < n" "0 \<le> b div 63" "0 \<le> b mod 63" "b mod 63 < 63"
proof -
  show q: "b div 63 < n" "0 \<le> b div 63" and r: "0 \<le> b mod 63" "b mod 63 < 63" using b by auto
  then have "0x10000 * (b div 63) + 0x400 * (1 + b mod 63) < 2 ^ 31" using b(3) by simp
  then show "block_offset c b = 0x10000 * (b div 63) + 0x400 * (1 + b mod 63)"
    using q r c by (simp add: block_offset_def sint32_def szt_small)
qed

lemma block_offset_linear:
  assumes c: "32 \<le> long_bits c" and b: "0 \<le> b" "b < 63 * n" "n \<le> 2 ^ 15"
  shows "block_offset c b = 0x400 * (b + b div 63 + 1)"
proof -
  have "b = 63 * (b div 63) + b mod 63" by simp
  then show ?thesis using block_offset_small(1) [OF assms] unfolding distrib_left by linarith
qed

lemma block_offset_mono:
  assumes "32 \<le> long_bits c" "n \<le> 2 ^ 15"
  shows "strict_mono_on {0..<63 * n} (block_offset c)"
proof (rule strict_mono_onI)
  fix a b assume ab: "a \<in> {0..<63 * n}" "b \<in> {0..<63 * n}" "a < b"
  have "a div 63 \<le> b div 63" using ab(3) by (intro zdiv_mono1) auto
  then show "block_offset c a < block_offset c b"
    using ab(3) block_offset_linear [OF assms(1) _ _ assms(2)] ab(1,2) by simp
qed

lemma block_offset_image:
  assumes c: "32 \<le> long_bits c" and n: "n \<le> 2 ^ 15"
  shows "block_offset c ` {0..<63 * n} =
    {off. 0 \<le> off \<and> off < 0x10000 * n \<and> 0x400 dvd off \<and> \<not> 0x10000 dvd off}" (is "_ = ?R")
proof (intro equalityI subsetI)
  fix off assume "off \<in> block_offset c ` {0..<63 * n}"
  then obtain b where b: "0 \<le> b" "b < 63 * n" "off = block_offset c b" by auto
  obtain q r where off: "off = 0x10000 * q + 0x400 * (1 + r)" "q < n" "0 \<le> q" "0 \<le> r" "r < 63"
    using block_offset_small [OF c b(1,2) n] b(3) by auto
  then have "off < 0x10000 * n" unfolding distrib_left by linarith
  moreover have "off = 0x400 * (64 * q + 1 + r)" using off by simp
  then have "0x400 dvd off" by simp
  moreover have "off mod 0x10000 = 0x400 * (1 + r)" using off by simp
  then have "\<not> 0x10000 dvd off" using off(4) by auto
  ultimately show "off \<in> ?R" using off by simp
next
  fix off assume off: "off \<in> ?R"
  then obtain k where k: "off = 0x400 * k" by (auto simp: dvd_def)
  obtain u v where uv: "k = 64 * u + v" "0 \<le> v" "v < 64"
    by (metis div_mult_mod_eq mult.commute pos_mod_bound pos_mod_sign zero_less_numeral)
  have "v \<noteq> 0" using off k uv by auto
  have u: "0 \<le> u" "u < n" using off unfolding k uv(1) distrib_left using uv(2,3) by simp_all
  define b where "b = 63 * u + (v - 1)"
  have "b div 63 = u" and b: "0 \<le> b" "b < 63 * n" unfolding b_def using uv u \<open>v \<noteq> 0\<close> by simp_all
  then have "block_offset c b = off"
    using block_offset_linear [OF c b n] by (simp add: b_def k uv(1))
  then show "off \<in> block_offset c ` {0..<63 * n}" using b by force
qed

text \<open>
  The block numbers of the file system enumerate, in order, the blocks of 1 KiB of the device
  that are not the first of their erase block.
\<close>
theorem h3c_block_offset_enumerates:
  assumes c: "32 \<le> long_bits c" and n: "n \<le> 2 ^ 15"
  shows "bij_betw (block_offset c) {0..<63 * n}
      {off. 0 \<le> off \<and> off < 0x10000 * n \<and> 0x400 dvd off \<and> \<not> 0x10000 dvd off} \<and>
    strict_mono_on {0..<63 * n} (block_offset c)"
  using block_offset_mono [OF c n] block_offset_image [OF c n]
  by (auto simp: bij_betw_def intro: strict_mono_on_imp_inj_on)

theorem h3c_block_offset_enumerates_witness:
  "block_offset cpu_le32 62 = 0xfc00 \<and> block_offset cpu_le32 63 = 0x10400 \<and>
   bij_betw (block_offset cpu_le32) {0..<63 * 2}
     {off. 0 \<le> off \<and> off < 0x10000 * 2 \<and> 0x400 dvd off \<and> \<not> 0x10000 dvd off} \<and>
   strict_mono_on {0..<63 * 2} (block_offset cpu_le32)"
  using h3c_block_offset_enumerates [of cpu_le32 2]
  by (simp add: block_offset_def sint32_def szt_def)

section \<open>The rest behind a SquashFS\<close>

lemma szt_idem [simp]: "szt c (szt c x) = szt c x"
  by (simp add: szt_def)

lemma roundup_bounds:
  assumes e: "0 < (e :: int)"
  shows "x \<le> (x + (e - 1)) div e * e" "(x + (e - 1)) div e * e < x + e" "e dvd (x + (e - 1)) div e * e"
    "x \<le> y \<Longrightarrow> e dvd y \<Longrightarrow> (x + (e - 1)) div e * e \<le> y"
proof -
  have "x + (e - 1) = (x + (e - 1)) div e * e + (x + (e - 1)) mod e"
    "0 \<le> (x + (e - 1)) mod e" "(x + (e - 1)) mod e < e"
    using e by (simp_all only: div_mult_mod_eq pos_mod_sign pos_mod_bound)
  then show le: "x \<le> (x + (e - 1)) div e * e" "(x + (e - 1)) div e * e < x + e" by linarith+
  show "e dvd (x + (e - 1)) div e * e" by simp
  assume y: "x \<le> y" "e dvd y"
  then obtain k where k: "y = k * e" by (auto simp: dvd_def mult.commute)
  have "(x + (e - 1)) div e \<le> (y + (e - 1)) div e" using y e by (intro zdiv_mono1) auto
  also have "\<dots> = k" using e by (simp add: k)
  finally show "(x + (e - 1)) div e * e \<le> y" unfolding k using e by (intro mult_right_mono) auto
qed

text \<open>
  A partition that starts with a SquashFS is split so that the rest starts with the first erase
  block, counted on the whole flash, behind the file system, and goes to the end of the partition.
\<close>
theorem squashfs_split:
  assumes s: "mtd_sane m" and c: "32 \<le> long_bits c"
    and len: "mtd_get_squashfs_len c m 0 = Inr len"
    and eb: "erasesize parent = erasesize m" "erasesize m dvd po + mtd_size m"
    and po: "0 \<le> po" "po + mtd_size m + erasesize m \<le> 2 ^ 32"
  shows "\<exists>off sz. mtdsplit_parse_squashfs c True parent po m = (1, Some [mk_part ''rootfs_data'' off sz]) \<and>
    erasesize m dvd po + off \<and> 0 < len \<and> len \<le> off \<and> off < len + erasesize m \<and>
    0 \<le> sz \<and> off + sz = mtd_size m"
proof -
  let ?e = "erasesize m" and ?x = "po + len"
  have e: "0 < ?e" using mtd_saneD(1) [OF s] .
  have len0: "0 < len" "len \<le> mtd_size m"
    using len szt_idem by (auto simp: mtd_get_squashfs_len_def Let_def split: sum.splits if_splits)
  define R where "R = (?x + (?e - 1)) div ?e * ?e"
  have R: "?x \<le> R" "R < ?x + ?e" "?e dvd R" "R \<le> po + mtd_size m"
    using roundup_bounds [OF e, of ?x] len0 eb(2) by (auto simp: R_def)
  have "szt c po = po" "szt c ?x = ?x" using po len0 c e by (auto intro!: szt_small)
  moreover have "mtd_roundup_to_eb ?x parent = R"
    using mtd_roundup_to_eb_small [of parent ?x] e eb(1) po len0 by (simp add: R_def)
  moreover have "wrap64 (R - po) = R - po" "wrap64 (mtd_size m - (R - po)) = mtd_size m - (R - po)"
    using R po len0 by auto
  moreover have "mtd_rounddown_to_eb (mtd_size m - (R - po)) m = mtd_size m - (R - po)"
  proof -
    have "?e dvd mtd_size m - (R - po)" using dvd_diff [OF eb(2) R(3)] by (simp add: algebra_simps)
    then show ?thesis by (simp add: mtd_rounddown_to_eb_def)
  qed
  ultimately have "mtdsplit_parse_squashfs c True parent po m =
      (1, Some [mk_part ''rootfs_data'' (R - po) (mtd_size m - (R - po))])"
    by (simp add: mtdsplit_parse_squashfs_def len give_parts_def Let_def)
  then show ?thesis using R len0 by (intro exI [of _ "R - po"] exI [of _ "mtd_size m - (R - po)"]) auto
qed

text \<open>A SquashFS of 100 bytes in a partition at 128 of a flash with erase blocks of 128 bytes.\<close>

definition squashfs_flash :: mtd_info where
  "squashfs_flash = flash ''rootfs'' 128
     ([0x68, 0x73, 0x71, 0x73] @ replicate 36 0 @ [100, 0, 0, 0, 0, 0, 0, 0] @ replicate 464 0)"

theorem squashfs_split_witness:
  "mtdsplit_parse_squashfs cpu_le32 True (flash ''spi'' 128 (replicate 1024 0)) 128 squashfs_flash =
     (1, Some [mk_part ''rootfs_data'' 128 384]) \<and>
   (\<exists>off sz. mtdsplit_parse_squashfs cpu_le32 True (flash ''spi'' 128 (replicate 1024 0)) 128 squashfs_flash =
       (1, Some [mk_part ''rootfs_data'' off sz]) \<and> 128 dvd 128 + off \<and> off + sz = 512)"
proof
  show "mtdsplit_parse_squashfs cpu_le32 True (flash ''spi'' 128 (replicate 1024 0)) 128 squashfs_flash =
     (1, Some [mk_part ''rootfs_data'' 128 384])"
    by code_simp
  have "mtd_get_squashfs_len cpu_le32 squashfs_flash 0 = Inr 100" by code_simp
  then show "\<exists>off sz. mtdsplit_parse_squashfs cpu_le32 True (flash ''spi'' 128 (replicate 1024 0)) 128 squashfs_flash =
       (1, Some [mk_part ''rootfs_data'' off sz]) \<and> 128 dvd 128 + off \<and> off + sz = 512"
    using squashfs_split [of squashfs_flash cpu_le32 100 "flash ''spi'' 128 (replicate 1024 0)" 128]
    by (auto simp: squashfs_flash_def mtd_sane_flash)
qed

end
