(* ===== verification/Mtdsplit_Scan.thy ===== *)
theory Mtdsplit_Scan
  imports Mtdsplit_Fixed
begin

text \<open>
  The parsers of \<^verbatim>\<open>mtdsplit/\<close> that look for an image on the boundaries of the erase blocks: uImage,
  TRX, the jImage of D-Link and Amit, and the image tag of Broadcom's CFE.

  The first three share the form of their loop, and with it a defect: an image that does not fit the
  device is passed over, but its size stays in the variable that tells, after the loop, whether an
  image was found. So an image in the last erase block that is too long is taken for found, at the
  end of the device.
\<close>

section \<open>The loop over the erase blocks\<close>

text \<open>\<open>offset += erasesize\<close> of a \<open>size_t\<close>.\<close>

definition next_block :: "cpu \<Rightarrow> mtd_info \<Rightarrow> int \<Rightarrow> int" where
  "next_block c m off = szt c (off + erasesize m)"

text \<open>
  \<open>hdr\<close> gives for an offset the size of the image whose header is there and the header, or nothing
  when there is none. The variables of the loop are the size and the header that was read last.
\<close>

definition scan_body ::
  "cpu \<Rightarrow> mtd_info \<Rightarrow> (int \<Rightarrow> (int \<times> 'h) option) \<Rightarrow> int \<Rightarrow> int \<times> 'h \<Rightarrow> (int \<times> 'h) \<times> bool" where
  "scan_body c m hdr off s =
     (case hdr off of
        None \<Rightarrow> ((0, snd s), False)
      | Some (sz, h) \<Rightarrow> ((sz, h), \<not> szt c (off + sz) > mtd_size m))"

definition scan_images ::
  "cpu \<Rightarrow> mtd_info \<Rightarrow> (int \<Rightarrow> (int \<times> 'h) option) \<Rightarrow> 'h \<Rightarrow> (int \<times> int \<times> 'h) option" where
  "scan_images c m hdr h0 = for_off (next_block c m) (mtd_size m) (scan_body c m hdr) 0 (0, h0)"

text \<open>An image that fits.\<close>

definition fits :: "cpu \<Rightarrow> mtd_info \<Rightarrow> (int \<Rightarrow> (int \<times> 'h) option) \<Rightarrow> int \<Rightarrow> bool" where
  "fits c m hdr off \<longleftrightarrow> (\<exists>sz h. hdr off = Some (sz, h) \<and> szt c (off + sz) \<le> mtd_size m)"

lemma next_block_small:
  assumes "searchable c m" "0 \<le> off" "off < mtd_size m"
  shows "next_block c m off = off + erasesize m"
  using searchableD [OF assms(1)] assms(2,3) by (simp add: next_block_def szt_small)

lemma scan_images_returns: "searchable c m \<Longrightarrow> \<exists>off sz h. scan_images c m hdr h0 = Some (off, sz, h)"
proof -
  assume s: "searchable c m"
  have "\<exists>o' t. for_off (next_block c m) (mtd_size m) (scan_body c m hdr) 0 (0, h0) = Some (o', t)"
    by (rule for_off_returns [of "\<lambda>p. 0 \<le> p"]) (use next_block_small [OF s] searchableD(4) [OF s] in auto)
  then show ?thesis by (auto simp: scan_images_def)
qed

lemma multiple_in_block:
  assumes "(e :: int) dvd p" "e dvd q" "p \<le> q" "q < p + e"
  shows "q = p"
proof (rule ccontr)
  assume "q \<noteq> p"
  then have "0 < q - p" "q - p < e" using assms by auto
  then have "\<not> e dvd q - p" by (rule zdvd_not_zless)
  then show False using assms(1,2) by simp
qed

text \<open>
  The loop stops at the first image that fits. Without one it stops behind the last erase block, and
  the size is that of the header in the last erase block.
\<close>

lemma scan_images_cases:
  assumes s: "searchable c m" and run: "scan_images c m hdr h0 = Some (off, sz, h)"
  obtains (found) "0 \<le> off" "off < mtd_size m" "erasesize m dvd off" "hdr off = Some (sz, h)"
      "szt c (off + sz) \<le> mtd_size m" "\<And>p. 0 \<le> p \<Longrightarrow> p < off \<Longrightarrow> erasesize m dvd p \<Longrightarrow> \<not> fits c m hdr p"
    | (none) "mtd_size m \<le> off" "erasesize m dvd off" "off < mtd_size m + erasesize m"
      "\<And>p. 0 \<le> p \<Longrightarrow> p < mtd_size m \<Longrightarrow> erasesize m dvd p \<Longrightarrow> \<not> fits c m hdr p"
      "sz = (if off = 0 then 0 else case hdr (off - erasesize m) of None \<Rightarrow> 0 | Some (sz', _) \<Rightarrow> sz')"
proof -
  let ?e = "erasesize m"
  let ?I = "\<lambda>p (u :: int \<times> 'a). 0 \<le> p \<and> ?e dvd p \<and> p < mtd_size m + ?e \<and>
      (\<forall>q. 0 \<le> q \<longrightarrow> q < p \<longrightarrow> ?e dvd q \<longrightarrow> \<not> fits c m hdr q) \<and>
      fst u = (if p = 0 then 0 else case hdr (p - ?e) of None \<Rightarrow> 0 | Some (sz', _) \<Rightarrow> sz')"
  have e: "0 < ?e" using searchableD(4) [OF s] .
  have "(\<not> off < mtd_size m \<and> ?I off (sz, h)) \<or>
      (off < mtd_size m \<and> (\<exists>u. ?I off u \<and> scan_body c m hdr off u = ((sz, h), True)))"
  proof (rule for_off_inv [OF run [unfolded scan_images_def]])
    show "?I 0 (0, h0)" using e searchableD(5) [OF s] by auto
  next
    fix p u u' assume I: "?I p u" and p: "p < mtd_size m" and b: "scan_body c m hdr p u = (u', False)"
    have n: "next_block c m p = p + ?e" using next_block_small [OF s _ p] I by simp
    have "\<not> fits c m hdr p" and u': "fst u' = (case hdr p of None \<Rightarrow> 0 | Some (sz', _) \<Rightarrow> sz')"
      using b by (auto simp: scan_body_def fits_def split: option.splits)
    have none: "\<not> fits c m hdr q" if "0 \<le> q" "q < p + ?e" "?e dvd q" for q
      using that I \<open>\<not> fits c m hdr p\<close> multiple_in_block [of ?e p q] by (cases "q < p") auto
    have "p + ?e \<noteq> 0" using I e by linarith
    then show "?I (next_block c m p) u'" unfolding n using I p e none u' by simp
  qed
  then show ?thesis
  proof (elim disjE conjE exE)
    assume "\<not> off < mtd_size m" "?e dvd off" "off < mtd_size m + ?e"
      "\<forall>q. 0 \<le> q \<longrightarrow> q < off \<longrightarrow> ?e dvd q \<longrightarrow> \<not> fits c m hdr q"
      "fst (sz, h) = (if off = 0 then 0 else case hdr (off - ?e) of None \<Rightarrow> 0 | Some (sz', _) \<Rightarrow> sz')"
    then show thesis by (intro none) auto
  next
    fix u assume "off < mtd_size m" "scan_body c m hdr off u = ((sz, h), True)" "0 \<le> off" "?e dvd off"
      "\<forall>q. 0 \<le> q \<longrightarrow> q < off \<longrightarrow> ?e dvd q \<longrightarrow> \<not> fits c m hdr q"
    then show thesis by (intro found) (auto simp: scan_body_def split: option.splits)
  qed
qed

section \<open>Kernel and root file system\<close>

text \<open>
  An image at the start of the device is followed by the root file system; before an image elsewhere
  the device starts with it. \<open>err\<close> is what becomes of the error of the second check.
\<close>

definition place_parts ::
  "cpu \<Rightarrow> (int \<Rightarrow> int) \<Rightarrow> mtd_info \<Rightarrow> int \<Rightarrow> int \<Rightarrow> parsed option" where
  "place_parts c err m img_offset img_size =
     (if img_offset = 0 then
        with_rootfs (mtd_find_rootfs_from c m (szt c (img_offset + img_size)) (szt c (mtd_size m)))
          (\<lambda>rootfs_offset t.
            let rootfs_size = szt c (wrap64 (mtd_size m - rootfs_offset));
                img_size' = szt c (rootfs_offset - img_offset)
            in if rootfs_size = 0 then parse_error (- ENOENT)
               else (2, Some [mk_part KERNEL_PART_NAME img_offset img_size',
                              mk_part (rootfs_name t) rootfs_offset rootfs_size]))
      else
        case mtd_check_rootfs_magic c m 0 of
          Inl e \<Rightarrow> Some (parse_error (err e))
        | Inr t \<Rightarrow>
            if img_offset = 0 then Some (parse_error (- ENOENT))
            else Some (2, Some [mk_part (rootfs_name t) 0 img_offset,
                                mk_part KERNEL_PART_NAME img_offset img_size]))"

section \<open>uImage\<close>

record uimage_header =
  ih_magic :: u32
  ih_hcrc :: u32
  ih_time :: u32
  ih_size :: u32
  ih_load :: u32
  ih_ep :: u32
  ih_dcrc :: u32
  ih_os :: u8
  ih_arch :: u8
  ih_type :: u8
  ih_comp :: u8
  ih_name :: "u8 list"

definition uimage_header_of :: "u8 list \<Rightarrow> uimage_header" where
  "uimage_header_of h = \<lparr>ih_magic = rd32be h 0, ih_hcrc = rd32be h 4, ih_time = rd32be h 8,
     ih_size = rd32be h 12, ih_load = rd32be h 16, ih_ep = rd32be h 20, ih_dcrc = rd32be h 24,
     ih_os = h ! 28, ih_arch = h ! 29, ih_type = h ! 30, ih_comp = h ! 31, ih_name = rd_bytes h 32 32\<rparr>"

abbreviation (input) uimage_hdr_len :: nat where "uimage_hdr_len \<equiv> 64"
abbreviation (input) IH_MAGIC :: u32 where "IH_MAGIC \<equiv> 0x27051956"
abbreviation (input) IH_OS_LINUX :: u8 where "IH_OS_LINUX \<equiv> 5"
abbreviation (input) IH_TYPE_KERNEL :: u32 where "IH_TYPE_KERNEL \<equiv> 2"

definition read_uimage_header :: "mtd_info \<Rightarrow> int \<Rightarrow> nat \<Rightarrow> int + u8 list" where
  "read_uimage_header m off header_len = read_exact m off header_len"

text \<open>
  The properties of the device tree node, where it is compatible with \<open>openwrt,uimage\<close>; a property
  that is missing leaves the default.
\<close>

record uimage_props =
  up_padding :: "u32 option"
  up_ih_magic :: "u32 option"
  up_ih_type :: "u32 option"
  up_offset :: "u32 option"
  up_partition_magic :: "u32 option"

record uimage_opts =
  extralen :: int
  opt_magic :: u32
  opt_type :: u32
  header_offset :: u32
  part_magic :: u32

definition uimage_defaults :: uimage_opts where
  "uimage_defaults = \<lparr>extralen = 0, opt_magic = IH_MAGIC, opt_type = IH_TYPE_KERNEL, header_offset = 0,
     part_magic = 0\<rparr>"

definition uimage_parse_dt :: "uimage_props option \<Rightarrow> uimage_opts \<Rightarrow> uimage_opts" where
  "uimage_parse_dt np v =
     (case np of
        None \<Rightarrow> v
      | Some p \<Rightarrow>
          \<lparr>extralen = (case up_padding p of None \<Rightarrow> extralen v | Some x \<Rightarrow> sint x),
           opt_magic = (case up_ih_magic p of None \<Rightarrow> opt_magic v | Some x \<Rightarrow> x),
           opt_type = (case up_ih_type p of None \<Rightarrow> opt_type v | Some x \<Rightarrow> x),
           header_offset = (case up_offset p of None \<Rightarrow> header_offset v | Some x \<Rightarrow> x),
           part_magic = (case up_partition_magic p of None \<Rightarrow> part_magic v | Some x \<Rightarrow> x)\<rparr>)"

definition uimage_verify_default :: "u8 list \<Rightarrow> u32 \<Rightarrow> u32 \<Rightarrow> int" where
  "uimage_verify_default buf magic typ =
     (let header = uimage_header_of buf in
      if ih_magic header \<noteq> magic then - EINVAL
      else if ih_os header \<noteq> IH_OS_LINUX then - EINVAL
      else if ucast (ih_type header) \<noteq> typ then - EINVAL
      else 0)"

text \<open>The header that is looked for at an offset, and the size of the image with what comes before and after.\<close>

definition uimage_at :: "cpu \<Rightarrow> mtd_info \<Rightarrow> uimage_opts \<Rightarrow> int \<Rightarrow> (int \<times> unit) option" where
  "uimage_at c m v off =
     (case read_uimage_header m off (nat (szt c (int uimage_hdr_len + uint (header_offset v)))) of
        Inl _ \<Rightarrow> None
      | Inr buf \<Rightarrow>
          if header_offset v \<noteq> 0 \<and> part_magic v \<noteq> 0 \<and> rd32be buf 0 \<noteq> part_magic v then None
          else if uimage_verify_default (drop (unat (header_offset v)) buf) (opt_magic v) (opt_type v) < 0 then None
          else Some (szt c (int uimage_hdr_len +
              uint (ih_size (uimage_header_of (drop (unat (header_offset v)) buf))) +
              uint (header_offset v) + extralen v), ()))"

text \<open>\<open>alloc\<close> are the allocations of the partition table and of the buffer.\<close>

definition mtdsplit_parse_uimage ::
  "cpu \<Rightarrow> bool \<times> bool \<Rightarrow> uimage_props option \<Rightarrow> mtd_info \<Rightarrow> parsed option" where
  "mtdsplit_parse_uimage c alloc np m =
     (if \<not> fst alloc then Some (parse_error (- ENOMEM))
      else if \<not> snd alloc then Some (parse_error (- ENOMEM))
      else
        Option.bind (scan_images c m (uimage_at c m (uimage_parse_dt np uimage_defaults)) ()) (\<lambda>(off, sz, _).
          if sz = 0 then Some (0, None) else place_parts c (\<lambda>_. - ENOENT) m off sz))"

section \<open>jImage\<close>

record jimage_header =
  stag_cmark :: u8
  stag_id :: u8
  stag_magic :: u16
  stag_time_stamp :: u32
  stag_image_length :: u32
  stag_image_checksum :: u16
  stag_tag_checksum :: u16
  sch2_magic :: u16
  sch2_cp_type :: u8
  sch2_version :: u8
  sch2_ram_addr :: u32
  sch2_image_len :: u32
  sch2_image_crc32 :: u32
  sch2_start_addr :: u32
  sch2_rootfs_addr :: u32
  sch2_rootfs_len :: u32
  sch2_rootfs_crc32 :: u32
  sch2_header_crc32 :: u32
  sch2_header_length :: u16
  sch2_cmd_line_length :: u16

definition jimage_header_of :: "cpu \<Rightarrow> u8 list \<Rightarrow> jimage_header" where
  "jimage_header_of c h = \<lparr>stag_cmark = h ! 0, stag_id = h ! 1, stag_magic = rd16c c h 2,
     stag_time_stamp = rd32c c h 4, stag_image_length = rd32c c h 8, stag_image_checksum = rd16c c h 12,
     stag_tag_checksum = rd16c c h 14, sch2_magic = rd16c c h 16, sch2_cp_type = h ! 18,
     sch2_version = h ! 19, sch2_ram_addr = rd32c c h 20, sch2_image_len = rd32c c h 24,
     sch2_image_crc32 = rd32c c h 28, sch2_start_addr = rd32c c h 32, sch2_rootfs_addr = rd32c c h 36,
     sch2_rootfs_len = rd32c c h 40, sch2_rootfs_crc32 = rd32c c h 44, sch2_header_crc32 = rd32c c h 48,
     sch2_header_length = rd16c c h 52, sch2_cmd_line_length = rd16c c h 54\<rparr>"

abbreviation (input) jimage_hdr_len :: nat where "jimage_hdr_len \<equiv> 56"

definition read_jimage_header :: "mtd_info \<Rightarrow> int \<Rightarrow> nat \<Rightarrow> int + u8 list" where
  "read_jimage_header m off header_len = read_exact m off header_len"

definition jimage_verify_default :: "cpu \<Rightarrow> u8 list \<Rightarrow> int" where
  "jimage_verify_default c buf =
     (let header = jimage_header_of c buf in
      if stag_magic header \<noteq> 0x2B24 then - EINVAL
      else if sch2_magic header \<noteq> 0x2124 then - EINVAL
      else if stag_cmark header \<noteq> stag_id header then - EINVAL
      else if stag_id header \<noteq> 0x04 then - EINVAL
      else if sch2_version header \<noteq> 0x02 then - EINVAL
      else 0)"

text \<open>\<open>find_header\<close> gives where in the buffer the header starts, or an error.\<close>

definition jimage_at :: "cpu \<Rightarrow> mtd_info \<Rightarrow> (u8 list \<Rightarrow> int) \<Rightarrow> int \<Rightarrow> (int \<times> unit) option" where
  "jimage_at c m find_header off =
     (case read_jimage_header m off jimage_hdr_len of
        Inl _ \<Rightarrow> None
      | Inr buf \<Rightarrow>
          if find_header buf < 0 then None
          else Some (szt c (int jimage_hdr_len +
              uint (sch2_image_len (jimage_header_of c (drop (nat (find_header buf)) buf))) + find_header buf), ()))"

definition mtdsplit_parse_jimage_with ::
  "cpu \<Rightarrow> bool \<times> bool \<Rightarrow> (u8 list \<Rightarrow> int) \<Rightarrow> mtd_info \<Rightarrow> parsed option" where
  "mtdsplit_parse_jimage_with c alloc find_header m =
     (if \<not> fst alloc then Some (parse_error (- ENOMEM))
      else if \<not> snd alloc then Some (parse_error (- ENOMEM))
      else
        Option.bind (scan_images c m (jimage_at c m find_header) ()) (\<lambda>(off, sz, _).
          if sz = 0 then Some (parse_error (- ENOENT)) else place_parts c (\<lambda>e. e) m off sz))"

definition mtdsplit_jimage_parse_generic :: "cpu \<Rightarrow> bool \<times> bool \<Rightarrow> mtd_info \<Rightarrow> parsed option" where
  "mtdsplit_jimage_parse_generic c alloc m = mtdsplit_parse_jimage_with c alloc (jimage_verify_default c) m"

section \<open>TRX\<close>

record trx_header =
  trx_magic :: u32
  trx_len :: u32
  trx_crc32 :: u32
  trx_flag_version :: u32
  trx_offset :: "u32 list"

text \<open>The offsets are taken as they are, without a conversion from little-endian.\<close>

definition trx_header_of :: "cpu \<Rightarrow> u8 list \<Rightarrow> trx_header" where
  "trx_header_of c h = \<lparr>trx_magic = rd32 h 0, trx_len = rd32 h 4, trx_crc32 = rd32 h 8,
     trx_flag_version = rd32 h 12, trx_offset = map (\<lambda>i. rd32c c h (16 + 4 * i)) [0..<4]\<rparr>"

abbreviation (input) trx_hdr_len :: nat where "trx_hdr_len \<equiv> 32"
abbreviation (input) TRX_MAGIC :: u32 where "TRX_MAGIC \<equiv> 0x30524448"

definition read_trx_header :: "cpu \<Rightarrow> mtd_info \<Rightarrow> int \<Rightarrow> int + trx_header" where
  "read_trx_header c m off = map_sum (\<lambda>e. e) (trx_header_of c) (read_exact m off trx_hdr_len)"

definition trx_at :: "cpu \<Rightarrow> mtd_info \<Rightarrow> int \<Rightarrow> (int \<times> trx_header) option" where
  "trx_at c m off =
     (case read_trx_header c m off of
        Inl _ \<Rightarrow> None
      | Inr hdr \<Rightarrow> if trx_magic hdr \<noteq> TRX_MAGIC then None else Some (uint (trx_len hdr), hdr))"

text \<open>The header is not read after a loop without one: the size is then 0.\<close>

definition mtdsplit_parse_trx :: "cpu \<Rightarrow> bool \<Rightarrow> mtd_info \<Rightarrow> trx_header \<Rightarrow> parsed option" where
  "mtdsplit_parse_trx c alloc m uninit =
     (if \<not> alloc then Some (parse_error (- ENOMEM))
      else
        map_option (\<lambda>(off, sz, hdr).
          if sz = 0 then parse_error (- ENOENT)
          else
            let trx_offset' = szt c (off + uint (trx_offset hdr ! 0));
                rootfs_offset = szt c (off + uint (trx_offset hdr ! 1));
                rootfs_size = szt c (wrap64 (mtd_size m - rootfs_offset));
                trx_size = szt c (rootfs_offset - trx_offset')
            in if rootfs_size = 0 then parse_error (- ENOENT)
               else (2, Some [mk_part KERNEL_PART_NAME trx_offset' trx_size,
                              mk_part ROOTFS_PART_NAME rootfs_offset rootfs_size]))
          (scan_images c m (trx_at c m) uninit))"

section \<open>What the parsers find\<close>

text \<open>The first image that fits.\<close>

definition first_image :: "cpu \<Rightarrow> mtd_info \<Rightarrow> (int \<Rightarrow> (int \<times> 'h) option) \<Rightarrow> int \<Rightarrow> int \<Rightarrow> bool" where
  "first_image c m hdr off sz \<longleftrightarrow>
     0 \<le> off \<and> off < mtd_size m \<and> erasesize m dvd off \<and> (\<exists>h. hdr off = Some (sz, h)) \<and>
     szt c (off + sz) \<le> mtd_size m \<and> (\<forall>p. 0 \<le> p \<and> p < off \<and> erasesize m dvd p \<longrightarrow> \<not> fits c m hdr p)"

definition no_image :: "cpu \<Rightarrow> mtd_info \<Rightarrow> (int \<Rightarrow> (int \<times> 'h) option) \<Rightarrow> bool" where
  "no_image c m hdr \<longleftrightarrow> (\<forall>p. 0 \<le> p \<and> p < mtd_size m \<and> erasesize m dvd p \<longrightarrow> \<not> fits c m hdr p)"

text \<open>The last erase block does not hold the header of an image that is too long.\<close>

definition last_block_ok :: "cpu \<Rightarrow> mtd_info \<Rightarrow> (int \<Rightarrow> (int \<times> 'h) option) \<Rightarrow> bool" where
  "last_block_ok c m hdr \<longleftrightarrow>
     (\<forall>p. 0 \<le> p \<and> p < mtd_size m \<and> mtd_size m \<le> p + erasesize m \<and> erasesize m dvd p \<and> \<not> fits c m hdr p \<longrightarrow>
        hdr p = None)"

lemma scan_images_sound:
  assumes s: "searchable c m" and last: "last_block_ok c m hdr"
    and run: "scan_images c m hdr h0 = Some (off, sz, h)"
  shows "first_image c m hdr off sz \<or> (no_image c m hdr \<and> sz = 0)"
  using s run
proof (cases rule: scan_images_cases)
  case found
  then show ?thesis by (auto simp: first_image_def)
next
  case none
  have "hdr (off - erasesize m) = None" if "off \<noteq> 0"
  proof -
    have "0 < off" using that none(1) searchableD(5) [OF s] by linarith
    then have "erasesize m \<le> off" using none(2) by (intro zdvd_imp_le)
    then show ?thesis
      using last none(1-4) unfolding last_block_ok_def by (intro last [unfolded last_block_ok_def, rule_format]) auto
  qed
  then show ?thesis using none(4,5) by (auto simp: no_image_def)
qed

lemma scan_images_overlong:
  assumes s: "searchable c m" and none: "no_image c m hdr"
    and last: "erasesize m dvd mtd_size m" "0 < mtd_size m" "hdr (mtd_size m - erasesize m) = Some (sz, h)"
  shows "\<exists>h. scan_images c m hdr h0 = Some (mtd_size m, sz, h)"
proof -
  obtain off sz' h' where run: "scan_images c m hdr h0 = Some (off, sz', h')"
    using scan_images_returns [OF s, of hdr h0] by auto
  from s run show ?thesis
  proof (cases rule: scan_images_cases)
    case found
    then show ?thesis using none by (auto simp: no_image_def fits_def)
  next
    case none
    then have "off = mtd_size m" using multiple_in_block [OF last(1), of off] by simp
    then show ?thesis using none(5) last(2,3) run by simp
  qed
qed

text \<open>The partitions that a parser makes around the image: root file system behind or before it.\<close>

definition parts_around :: "cpu \<Rightarrow> mtd_info \<Rightarrow> int \<Rightarrow> int \<Rightarrow> mtd_part list \<Rightarrow> bool" where
  "parts_around c m off sz ps \<longleftrightarrow>
     (off = 0 \<and> (\<exists>ro t. first_rootfs c m sz (mtd_size m) ro t \<and>
        ps = [mk_part ''kernel'' 0 ro, mk_part (rootfs_name t) ro (mtd_size m - ro)])) \<or>
     (off \<noteq> 0 \<and> (\<exists>t. mtd_check_rootfs_magic c m 0 = Inr t \<and>
        ps = [mk_part (rootfs_name t) 0 off, mk_part ''kernel'' off sz]))"

lemma place_parts_spec:
  assumes s: "searchable c m" and off: "0 \<le> off" and sz: "0 \<le> sz" "szt c sz = sz"
  shows "case place_parts c err m off sz of
      None \<Rightarrow> False
    | Some (n, Some ps) \<Rightarrow> n = 2 \<and> parts_around c m off sz ps
    | Some (n, None) \<Rightarrow>
        (off = 0 \<and> n = - ENOENT \<and> (\<forall>ro t. \<not> first_rootfs c m sz (mtd_size m) ro t)) \<or>
        (off \<noteq> 0 \<and> (\<exists>e. mtd_check_rootfs_magic c m 0 = Inl e \<and> n = err e))"
proof (cases "off = 0")
  case True
  note lim = searchable_size [OF s]
  obtain r where r: "mtd_find_rootfs_from c m sz (mtd_size m) = Some r"
    using mtd_find_rootfs_from_returns [OF s sz(1), of "mtd_size m"] by auto
  note spec = mtd_find_rootfs_from_spec [OF s sz(1), of "mtd_size m", unfolded r, simplified]
  show ?thesis
  proof (cases r)
    case (Inl e)
    then show ?thesis using True spec r sz by (simp add: place_parts_def with_rootfs_def lim)
  next
    case (Inr x)
    obtain ro t where x: "x = (ro, t)" by fastforce
    have first: "first_rootfs c m sz (mtd_size m) ro t" using spec by (simp add: Inr x)
    then have "0 \<le> ro" "ro < mtd_size m" using sz by (auto simp: first_rootfs_def eb_step_def)
    then have "szt c (wrap64 (mtd_size m - ro)) = mtd_size m - ro" "szt c ro = ro"
      using searchableD [OF s] by (simp_all add: szt_small)
    then have "place_parts c err m off sz =
        Some (2, Some [mk_part ''kernel'' 0 ro, mk_part (rootfs_name t) ro (mtd_size m - ro)])"
      using True r sz \<open>ro < mtd_size m\<close> by (simp add: place_parts_def with_rootfs_def lim Inr x)
    then show ?thesis using True first unfolding parts_around_def by auto
  qed
next
  case False
  then show ?thesis by (auto simp: place_parts_def parts_around_def split: sum.splits)
qed

text \<open>The two parsers after their allocations: \<open>none\<close> is the result without an image.\<close>

definition parse_image ::
  "cpu \<Rightarrow> (int \<Rightarrow> int) \<Rightarrow> int \<Rightarrow> (int \<Rightarrow> (int \<times> unit) option) \<Rightarrow> mtd_info \<Rightarrow> parsed option" where
  "parse_image c err none hdr m =
     Option.bind (scan_images c m hdr ()) (\<lambda>(off, sz, _).
       if sz = 0 then Some (none, None) else place_parts c err m off sz)"

lemma uimage_parse_image:
  "mtdsplit_parse_uimage c (True, True) np m =
     parse_image c (\<lambda>_. - ENOENT) 0 (uimage_at c m (uimage_parse_dt np uimage_defaults)) m"
  by (simp add: mtdsplit_parse_uimage_def parse_image_def)

lemma jimage_parse_image:
  "mtdsplit_jimage_parse_generic c (True, True) m =
     parse_image c (\<lambda>e. e) (- ENOENT) (jimage_at c m (jimage_verify_default c)) m"
  by (simp add: mtdsplit_jimage_parse_generic_def mtdsplit_parse_jimage_with_def parse_image_def)

definition normal_sizes :: "cpu \<Rightarrow> (int \<Rightarrow> (int \<times> 'h) option) \<Rightarrow> bool" where
  "normal_sizes c hdr \<longleftrightarrow> (\<forall>off sz h. hdr off = Some (sz, h) \<longrightarrow> 0 \<le> sz \<and> szt c sz = sz)"

lemma normal_sizes_uimage: "normal_sizes c (uimage_at c m v)"
  by (auto simp: normal_sizes_def uimage_at_def split: sum.splits if_splits)

lemma normal_sizes_jimage: "normal_sizes c (jimage_at c m f)"
  by (auto simp: normal_sizes_def jimage_at_def split: sum.splits if_splits)

text \<open>What such a parser gives, when the last erase block is as it should be.\<close>

definition image_result ::
  "cpu \<Rightarrow> (int \<Rightarrow> int) \<Rightarrow> int \<Rightarrow> (int \<Rightarrow> (int \<times> 'h) option) \<Rightarrow> mtd_info \<Rightarrow> parsed \<Rightarrow> bool" where
  "image_result c err none hdr m r \<longleftrightarrow>
     (case r of
        (n, Some ps) \<Rightarrow> n = 2 \<and> (\<exists>off sz. first_image c m hdr off sz \<and> parts_around c m off sz ps)
      | (n, None) \<Rightarrow>
          (n = none \<and> (no_image c m hdr \<or> (\<exists>off. first_image c m hdr off 0))) \<or>
          (\<exists>off sz. first_image c m hdr off sz \<and>
            (off = 0 \<and> n = - ENOENT \<and> (\<forall>ro t. \<not> first_rootfs c m sz (mtd_size m) ro t) \<or>
             off \<noteq> 0 \<and> (\<exists>e. mtd_check_rootfs_magic c m 0 = Inl e \<and> n = err e))))"

lemma parse_image_spec:
  assumes s: "searchable c m" and n: "normal_sizes c hdr" and last: "last_block_ok c m hdr"
  shows "\<exists>r. parse_image c err none hdr m = Some r \<and> image_result c err none hdr m r"
proof -
  obtain off sz where run: "scan_images c m hdr () = Some (off, sz, ())"
    using scan_images_returns [OF s, of hdr "()"] by auto
  show ?thesis
  proof (cases "sz = 0")
    case True
    then show ?thesis using scan_images_sound [OF s last run] run
      by (auto simp: parse_image_def image_result_def)
  next
    case False
    then have img: "first_image c m hdr off sz" using scan_images_sound [OF s last run] by simp
    then have "0 \<le> off" "0 \<le> sz" "szt c sz = sz" using n by (auto simp: first_image_def normal_sizes_def)
    note spec = place_parts_spec [OF s this, of err]
    then obtain n ps where r: "place_parts c err m off sz = Some (n, ps)" by (auto split: option.splits)
    have "image_result c err none hdr m (n, ps)"
    proof (cases ps)
      case None
      then have "(off = 0 \<and> n = - ENOENT \<and> (\<forall>ro t. \<not> first_rootfs c m sz (mtd_size m) ro t)) \<or>
          (off \<noteq> 0 \<and> (\<exists>e. mtd_check_rootfs_magic c m 0 = Inl e \<and> n = err e))"
        using spec r by simp
      then show ?thesis unfolding image_result_def None using img by (simp, metis)
    next
      case (Some l)
      then have "n = 2" "parts_around c m off sz l" using spec r by simp_all
      then show ?thesis unfolding image_result_def Some using img by (simp, metis)
    qed
    then show ?thesis using run r False by (simp add: parse_image_def)
  qed
qed

lemma parse_image_overlong:
  assumes s: "searchable c m" and none: "no_image c m hdr"
    and last: "erasesize m dvd mtd_size m" "0 < mtd_size m" "hdr (mtd_size m - erasesize m) = Some (sz, ())" "sz \<noteq> 0"
    and root: "mtd_check_rootfs_magic c m 0 = Inr t"
  shows "parse_image c err x hdr m =
    Some (2, Some [mk_part (rootfs_name t) 0 (mtd_size m), mk_part ''kernel'' (mtd_size m) sz])"
proof -
  have "scan_images c m hdr () = Some (mtd_size m, sz, ())"
    using scan_images_overlong [OF s none last(1-3), of "()"] by simp
  then show ?thesis using last(2,4) root by (simp add: parse_image_def place_parts_def)
qed

text \<open>
  C7. Unless the last erase block has the header of an image that is too long, the uImage parser
  returns and takes the first image that fits the device: with the first root file system behind it,
  up to the end of the device, when the image is at the start; with the root file system before it
  otherwise. Without an image it gives 0, without a root file system \<open>- ENOENT\<close>.
\<close>
theorem uimage_split:
  assumes "searchable c m"
    and "last_block_ok c m (uimage_at c m (uimage_parse_dt np uimage_defaults))"
  shows "\<exists>r. mtdsplit_parse_uimage c (True, True) np m = Some r \<and>
    image_result c (\<lambda>_. - ENOENT) 0 (uimage_at c m (uimage_parse_dt np uimage_defaults)) m r"
  unfolding uimage_parse_image by (rule parse_image_spec [OF assms(1) normal_sizes_uimage assms(2)])

text \<open>A uImage of 74 bytes in erase blocks of 128 bytes, and a SquashFS in the next block.\<close>

definition uimage_hdr_bytes :: "u8 \<Rightarrow> u8 list" where
  "uimage_hdr_bytes len = [0x27, 0x05, 0x19, 0x56] @ replicate 8 0 @ [0, 0, 0, len] @ replicate 12 0 @
     [5, 0, 2, 0] @ replicate 32 0"

definition uimage_flash :: mtd_info where
  "uimage_flash = flash ''firmware'' 128
     (uimage_hdr_bytes 10 @ replicate 64 0 @ [0x68, 0x73, 0x71, 0x73] @ replicate 124 0)"

theorem uimage_split_witness:
  "mtdsplit_parse_uimage cpu_be32 (True, True) None uimage_flash =
     Some (2, Some [mk_part ''kernel'' 0 128, mk_part ''rootfs'' 128 128]) \<and>
   image_result cpu_be32 (\<lambda>_. - ENOENT) 0 (uimage_at cpu_be32 uimage_flash uimage_defaults) uimage_flash
     (2, Some [mk_part ''kernel'' 0 128, mk_part ''rootfs'' 128 128])"
proof -
  have run: "mtdsplit_parse_uimage cpu_be32 (True, True) None uimage_flash =
     Some (2, Some [mk_part ''kernel'' 0 128, mk_part ''rootfs'' 128 128])"
    by code_simp
  have size: "mtd_size uimage_flash = 256" "erasesize uimage_flash = 128"
    by (simp_all add: uimage_flash_def uimage_hdr_bytes_def)
  have dt: "uimage_parse_dt None uimage_defaults = uimage_defaults" by (simp add: uimage_parse_dt_def)
  have "searchable cpu_be32 uimage_flash"
    by (simp add: searchable_def uimage_flash_def uimage_hdr_bytes_def mtd_sane_flash)
  moreover have "uimage_at cpu_be32 uimage_flash uimage_defaults 128 = None" by code_simp
  then have "last_block_ok cpu_be32 uimage_flash (uimage_at cpu_be32 uimage_flash uimage_defaults)"
    unfolding last_block_ok_def size using multiple_in_block [of 128 128] by auto
  ultimately show ?thesis
    using uimage_split [of cpu_be32 uimage_flash None] run unfolding dt by simp
qed

text \<open>
  When no image fits and the last erase block has the header of one that is too long, the parser
  takes it for found: the partition of the kernel starts at the end of the device.
\<close>
theorem uimage_overlong_at_end:
  assumes "searchable c m" "no_image c m (uimage_at c m (uimage_parse_dt np uimage_defaults))"
    and "erasesize m dvd mtd_size m" "0 < mtd_size m"
    and "uimage_at c m (uimage_parse_dt np uimage_defaults) (mtd_size m - erasesize m) = Some (sz, ())" "sz \<noteq> 0"
    and "mtd_check_rootfs_magic c m 0 = Inr t"
  shows "mtdsplit_parse_uimage c (True, True) np m =
    Some (2, Some [mk_part (rootfs_name t) 0 (mtd_size m), mk_part ''kernel'' (mtd_size m) sz])"
  unfolding uimage_parse_image by (rule parse_image_overlong [OF assms])

lemma jimage_overlong_at_end:
  assumes "searchable c m" "no_image c m (jimage_at c m (jimage_verify_default c))"
    and "erasesize m dvd mtd_size m" "0 < mtd_size m"
    and "jimage_at c m (jimage_verify_default c) (mtd_size m - erasesize m) = Some (sz, ())" "sz \<noteq> 0"
    and "mtd_check_rootfs_magic c m 0 = Inr t"
  shows "mtdsplit_jimage_parse_generic c (True, True) m =
    Some (2, Some [mk_part (rootfs_name t) 0 (mtd_size m), mk_part ''kernel'' (mtd_size m) sz])"
  unfolding jimage_parse_image by (rule parse_image_overlong [OF assms])

text \<open>A SquashFS, and in the last erase block a uImage of 164 bytes.\<close>

definition overlong_flash :: mtd_info where
  "overlong_flash = flash ''firmware'' 128
     ([0x68, 0x73, 0x71, 0x73] @ replicate 124 0 @ uimage_hdr_bytes 100 @ replicate 64 0)"

theorem uimage_overlong_at_end_witness:
  "mtdsplit_parse_uimage cpu_be32 (True, True) None overlong_flash =
     Some (2, Some [mk_part ''rootfs'' 0 256, mk_part ''kernel'' 256 164])"
proof -
  let ?hdr = "uimage_at cpu_be32 overlong_flash (uimage_parse_dt None uimage_defaults)"
  have size: "mtd_size overlong_flash = 256" "erasesize overlong_flash = 128"
    by (simp_all add: overlong_flash_def uimage_hdr_bytes_def)
  have s: "searchable cpu_be32 overlong_flash"
    by (simp add: searchable_def overlong_flash_def uimage_hdr_bytes_def mtd_sane_flash)
  have h: "?hdr 0 = None" "?hdr 128 = Some (164, ())" "mtd_check_rootfs_magic cpu_be32 overlong_flash 0 = Inr PART_TYPE_SQUASHFS"
    by code_simp+
  have "p = 0 \<or> p = 128" if "0 \<le> p" "p < 256" "128 dvd p" for p :: int
    using that by (auto simp: dvd_def)
  moreover have "\<not> fits cpu_be32 overlong_flash ?hdr 0" "\<not> fits cpu_be32 overlong_flash ?hdr 128"
    using h by (simp_all add: fits_def szt_def size)
  ultimately have "no_image cpu_be32 overlong_flash ?hdr"
    unfolding no_image_def size by metis
  from uimage_overlong_at_end [OF s this] show ?thesis
    using h by (simp add: size rootfs_name_def)
qed

section \<open>TRX\<close>

lemma trx_sizes: "trx_at c m off = Some (sz, h) \<Longrightarrow> 0 \<le> sz \<and> sz < 2 ^ 32"
  using uint_bounded [of "trx_len h"] by (auto simp: trx_at_def split: sum.splits if_splits)

text \<open>
  A TRX image that fits, with the offsets of the kernel and of the root file system in order and
  in the device, gives the kernel from the one offset to the other and the root file system from
  there to the end.
\<close>
theorem trx_split:
  assumes s: "searchable c m" and img: "first_image c m (trx_at c m) off sz" "sz \<noteq> 0"
    and hdr: "trx_at c m off = Some (sz, hdr)"
    and k: "k = uint (trx_offset hdr ! 0)" and r: "r = uint (trx_offset hdr ! 1)"
    and ord: "k \<le> r" "off + r < mtd_size m"
  shows "mtdsplit_parse_trx c True m h0 =
    Some (2, Some [mk_part ''kernel'' (off + k) (r - k), mk_part ''rootfs'' (off + r) (mtd_size m - (off + r))])"
proof -
  obtain off' sz' h' where run: "scan_images c m (trx_at c m) h0 = Some (off', sz', h')"
    using scan_images_returns [OF s, of "trx_at c m" h0] by auto
  have "off' = off \<and> trx_at c m off' = Some (sz', h')"
    using s run
  proof (cases rule: scan_images_cases)
    case found
    then show ?thesis using img(1) by (smt (verit) first_image_def fits_def)
  next
    case none
    then show ?thesis using img(1) by (auto simp: first_image_def fits_def)
  qed
  then have run: "scan_images c m (trx_at c m) h0 = Some (off, sz, hdr)" using run hdr by auto
  have b: "0 \<le> off" "0 \<le> k" "0 \<le> r" "mtd_size m + erasesize m \<le> 2 ^ 32" "32 \<le> long_bits c"
    using img searchableD [OF s] by (auto simp: first_image_def k r)
  then have "szt c (off + k) = off + k" "szt c (off + r) = off + r"
    "szt c (off + r - (off + k)) = r - k" "szt c (wrap64 (mtd_size m - (off + r))) = mtd_size m - (off + r)"
    using ord searchableD(4,5) [OF s] by (simp_all add: szt_small)
  then show ?thesis using run img(2) ord(2) by (simp add: mtdsplit_parse_trx_def k [symmetric] r [symmetric] Let_def
      del: One_nat_def)
qed

text \<open>A TRX of 160 bytes with a kernel at 32 and a root file system at 128.\<close>

definition trx_flash :: mtd_info where
  "trx_flash = flash ''firmware'' 128
     ([0x48, 0x44, 0x52, 0x30, 160, 0, 0, 0] @ replicate 8 0 @ [32, 0, 0, 0, 128, 0, 0, 0] @ replicate 232 0)"

theorem trx_split_witness:
  "mtdsplit_parse_trx cpu_le32 True trx_flash (trx_header_of cpu_le32 []) =
     Some (2, Some [mk_part ''kernel'' 32 96, mk_part ''rootfs'' 128 128])"
proof -
  have size: "mtd_size trx_flash = 256" "erasesize trx_flash = 128" by (simp_all add: trx_flash_def)
  have s: "searchable cpu_le32 trx_flash" by (simp add: searchable_def trx_flash_def mtd_sane_flash)
  obtain hdr where hdr: "trx_at cpu_le32 trx_flash 0 = Some (160, hdr)"
    and offs: "uint (trx_offset hdr ! 0) = 32" "uint (trx_offset hdr ! 1) = 128"
  proof -
    have "(case trx_at cpu_le32 trx_flash 0 of None \<Rightarrow> False
      | Some (sz, hdr) \<Rightarrow> sz = 160 \<and> uint (trx_offset hdr ! 0) = 32 \<and> uint (trx_offset hdr ! 1) = 128)"
      by code_simp
    then show thesis using that by (auto split: option.splits)
  qed
  have "first_image cpu_le32 trx_flash (trx_at cpu_le32 trx_flash) 0 160"
    using hdr by (auto simp: first_image_def size szt_def)
  from trx_split [OF s this _ hdr] show ?thesis using offs by (simp add: size)
qed
section \<open>The image tag of CFE\<close>

text \<open>
  The tag of the kernel's interface, with the layout that \<^verbatim>\<open>package/system/mtd/src/imagetag.c\<close> gives.
\<close>

record bcm_tag =
  tag_version :: "u8 list"
  sig_1 :: "u8 list"
  sig_2 :: "u8 list"
  chip_id :: "u8 list"
  board_id :: "u8 list"
  tag_endian :: "u8 list"
  total_length :: "u8 list"
  cfe_address :: "u8 list"
  cfe_length :: "u8 list"
  flash_image_start :: "u8 list"
  root_length :: "u8 list"
  kernel_address :: "u8 list"
  kernel_length :: "u8 list"
  dual_image :: "u8 list"
  inactive_flag :: "u8 list"
  rsa_signature :: "u8 list"
  information1 :: "u8 list"
  flash_layout_ver :: "u8 list"
  fskernel_crc :: u32
  information2 :: "u8 list"
  image_crc :: u32
  rootfs_crc :: u32
  kernel_crc :: u32
  image_sequence :: "u8 list"
  real_rootfs_length :: u32
  header_crc :: u32

definition bcm_tag_of :: "cpu \<Rightarrow> u8 list \<Rightarrow> bcm_tag" where
  "bcm_tag_of c h = \<lparr>tag_version = rd_bytes h 0 4, sig_1 = rd_bytes h 4 20, sig_2 = rd_bytes h 24 14,
     chip_id = rd_bytes h 38 6, board_id = rd_bytes h 44 16, tag_endian = rd_bytes h 60 2,
     total_length = rd_bytes h 62 10, cfe_address = rd_bytes h 72 12, cfe_length = rd_bytes h 84 10,
     flash_image_start = rd_bytes h 94 12, root_length = rd_bytes h 106 10,
     kernel_address = rd_bytes h 116 12, kernel_length = rd_bytes h 128 10, dual_image = rd_bytes h 138 2,
     inactive_flag = rd_bytes h 140 2, rsa_signature = rd_bytes h 142 20, information1 = rd_bytes h 162 30,
     flash_layout_ver = rd_bytes h 192 4, fskernel_crc = rd32c c h 196, information2 = rd_bytes h 200 16,
     image_crc = rd32c c h 216, rootfs_crc = rd32c c h 220, kernel_crc = rd32c c h 224,
     image_sequence = rd_bytes h 228 4, real_rootfs_length = rd32c c h 232, header_crc = rd32c c h 236\<rparr>"

abbreviation (input) bcm_tag_len :: nat where "bcm_tag_len \<equiv> 256"
abbreviation (input) IMAGETAG_CRC_START :: u32 where "IMAGETAG_CRC_START \<equiv> 0xFFFFFFFF"
abbreviation (input) BCM963XX_EXTENDED_SIZE :: u32 where "BCM963XX_EXTENDED_SIZE \<equiv> 0xBFC00000"

text \<open>\<open>STR_NULL_TERMINATE\<close>: the last byte of the field becomes 0.\<close>

definition str_null_terminate :: "u8 list \<Rightarrow> u8 list" where
  "str_null_terminate s = s[length s - 1 := 0]"

text \<open>\<open>crc32_le\<close> and \<open>kstrtouint\<close> are functions of the kernel.\<close>

definition bcm63xx_read_image_tag ::
  "cpu \<Rightarrow> (u32 \<Rightarrow> u8 list \<Rightarrow> u32) \<Rightarrow> mtd_info \<Rightarrow> int \<Rightarrow> int + bcm_tag" where
  "bcm63xx_read_image_tag c crc32_le m off =
     (case read_exact m off bcm_tag_len of
        Inl e \<Rightarrow> Inl e
      | Inr h \<Rightarrow>
          (let hdr = bcm_tag_of c h in
           if crc32_le IMAGETAG_CRC_START (take 236 h) = header_crc hdr then
             Inr (hdr\<lparr>board_id := str_null_terminate (board_id hdr),
                      tag_version := str_null_terminate (tag_version hdr)\<rparr>)
           else Inl 1))"

text \<open>\<open>mtd_offset\<close> is the offset of the device on the flash, \<open>mtdpart_get_offset\<close>.\<close>

definition bcm63xx_parse_partitions ::
  "cpu \<Rightarrow> (u8 list \<Rightarrow> int + u32) \<Rightarrow> bool \<Rightarrow> int \<Rightarrow> mtd_info \<Rightarrow> bcm_tag \<Rightarrow> parsed" where
  "bcm63xx_parse_partitions c kstrtouint alloc mtd_offset m hdr =
     (case kstrtouint (str_null_terminate (flash_image_start hdr)) of
        Inl _ \<Rightarrow> parse_error (- EINVAL)
      | Inr image_start \<Rightarrow> if image_start < BCM963XX_EXTENDED_SIZE then parse_error (- EINVAL) else
     (case kstrtouint (str_null_terminate (kernel_address hdr)) of
        Inl _ \<Rightarrow> parse_error (- EINVAL)
      | Inr kernel_addr \<Rightarrow> if kernel_addr < BCM963XX_EXTENDED_SIZE then parse_error (- EINVAL) else
     (case kstrtouint (str_null_terminate (kernel_length hdr)) of
        Inl _ \<Rightarrow> parse_error (- EINVAL)
      | Inr kernel_len \<Rightarrow> if kernel_len = 0 then parse_error (- EINVAL) else
          (let kernel_offset = szt c (uint (kernel_addr - BCM963XX_EXTENDED_SIZE) - mtd_offset);
               kernel_size = szt c (uint kernel_len)
           in if image_start < kernel_addr then
                let rootfs_offset = szt c (uint (image_start - BCM963XX_EXTENDED_SIZE) - mtd_offset);
                    rootfs_size = szt c (kernel_offset - rootfs_offset)
                in give_parts alloc [mk_part ROOTFS_PART_NAME rootfs_offset rootfs_size,
                                     mk_part KERNEL_PART_NAME kernel_offset kernel_size]
              else
                let rootfs_offset = szt c (kernel_offset + kernel_size);
                    rootfs_size = szt c (wrap64 (mtd_size m - rootfs_offset))
                in give_parts alloc [mk_part KERNEL_PART_NAME kernel_offset kernel_size,
                                     mk_part ROOTFS_PART_NAME rootfs_offset rootfs_size]))))"

text \<open>The loop returns from its body; its offset is a \<open>loff_t\<close>, which does not wrap around.\<close>

definition bcm63xx_body ::
  "cpu \<Rightarrow> (u32 \<Rightarrow> u8 list \<Rightarrow> u32) \<Rightarrow> mtd_info \<Rightarrow> int \<Rightarrow> bcm_tag option \<Rightarrow> bcm_tag option \<times> bool" where
  "bcm63xx_body c crc32_le m off _ =
     (case bcm63xx_read_image_tag c crc32_le m off of Inl _ \<Rightarrow> (None, False) | Inr hdr \<Rightarrow> (Some hdr, True))"

definition mtdsplit_parse_bcm63xx ::
  "cpu \<Rightarrow> (u32 \<Rightarrow> u8 list \<Rightarrow> u32) \<Rightarrow> (u8 list \<Rightarrow> int + u32) \<Rightarrow> bool \<Rightarrow> bool \<Rightarrow> int \<Rightarrow> mtd_info \<Rightarrow> parsed option" where
  "mtdsplit_parse_bcm63xx c crc32_le kstrtouint alloc is_nand mtd_offset m =
     (if is_nand then Some (parse_error (- EINVAL))
      else
        map_option (\<lambda>(_, found). case found of
            None \<Rightarrow> parse_error (- EINVAL)
          | Some hdr \<Rightarrow> bcm63xx_parse_partitions c kstrtouint alloc mtd_offset m hdr)
          (for_off (\<lambda>off. off + erasesize m) (mtd_size m) (bcm63xx_body c crc32_le m) 0 None))"

lemma bcm63xx_body_leave:
  "bcm63xx_body c crc m p u =
     (if \<not> isl (bcm63xx_read_image_tag c crc m p)
      then (Some (projr (bcm63xx_read_image_tag c crc m p)), True) else (None, False))"
  by (simp add: bcm63xx_body_def split: sum.splits)

text \<open>
  The parser for CFE returns. It goes by the tag in the first erase block that has one with the
  right checksum; without one it gives \<open>- EINVAL\<close>.
\<close>
theorem bcm63xx_first_tag:
  assumes s: "mtd_sane m"
  shows "\<exists>r. mtdsplit_parse_bcm63xx c crc kstr alloc False po m = Some r \<and>
    ((\<exists>off hdr. 0 \<le> off \<and> erasesize m dvd off \<and> bcm63xx_read_image_tag c crc m off = Inr hdr \<and>
        (\<forall>p. 0 \<le> p \<and> p < off \<and> erasesize m dvd p \<longrightarrow> isl (bcm63xx_read_image_tag c crc m p)) \<and>
        r = bcm63xx_parse_partitions c kstr alloc po m hdr) \<or>
     ((\<forall>p. 0 \<le> p \<and> p < mtd_size m \<and> erasesize m dvd p \<longrightarrow> isl (bcm63xx_read_image_tag c crc m p)) \<and>
        r = parse_error (- EINVAL)))"
proof -
  let ?e = "erasesize m" and ?tag = "bcm63xx_read_image_tag c crc m"
  have e: "0 < ?e" using mtd_saneD(1) [OF s] .
  obtain o' t where run: "for_off (\<lambda>off. off + ?e) (mtd_size m) (bcm63xx_body c crc m) 0 None = Some (o', t)"
    using for_off_returns [of "\<lambda>_. True" 0 "mtd_size m" "\<lambda>off. off + ?e" "bcm63xx_body c crc m" None] e by auto
  have gap: "p + ?e \<le> q" if "?e dvd p" "?e dvd q" "p < q" for p q
    using that multiple_in_block [of ?e p q] by fastforce
  have srch: "(0 \<le> o' \<and> ?e dvd o') \<and> (\<forall>p. 0 \<le> p \<and> ?e dvd p \<longrightarrow> 0 \<le> p \<longrightarrow> p < o' \<longrightarrow> \<not> \<not> isl (?tag p)) \<and>
      (o' < mtd_size m \<longrightarrow> \<not> isl (?tag o') \<and> t = Some (projr (?tag o')))"
    using e gap by (intro for_off_search [OF run bcm63xx_body_leave, of "\<lambda>p. 0 \<le> p \<and> ?e dvd p"]) auto
  show ?thesis
  proof (cases "o' < mtd_size m")
    case True
    then have "?tag o' = Inr (projr (?tag o'))" using srch by simp
    then show ?thesis using True srch run
      by (intro exI [of _ "bcm63xx_parse_partitions c kstr alloc po m (projr (?tag o'))"] conjI disjI1
          exI [of _ o'] exI [of _ "projr (?tag o')"]) (auto simp: mtdsplit_parse_bcm63xx_def)
  next
    case False
    have "(\<not> o' < mtd_size m \<and> t = None) \<or>
        (o' < mtd_size m \<and> (\<exists>u. u = None \<and> bcm63xx_body c crc m o' u = (t, True)))"
      by (rule for_off_inv [OF run]) (auto simp: bcm63xx_body_def split: sum.splits)
    then show ?thesis using False srch run
      by (intro exI [of _ "parse_error (- EINVAL)"] conjI disjI2) (auto simp: mtdsplit_parse_bcm63xx_def)
  qed
qed

text \<open>A tag in the second erase block, with a checksum and a parser of numbers that know only this one.\<close>

definition bcm_flash :: mtd_info where
  "bcm_flash = flash ''firmware'' 256 (replicate 236 0 @ [1, 0, 0, 0] @ replicate 272 0)"

theorem bcm63xx_first_tag_witness:
  "\<exists>r. mtdsplit_parse_bcm63xx cpu_be32 (\<lambda>_ _. 0)
       (\<lambda>s. Inr (if length s = 10 then 64 else 0xBFC00100)) True False 0 bcm_flash = Some r \<and>
     r = (2, Some [mk_part ''kernel'' 256 64, mk_part ''rootfs'' 320 192])"
proof -
  let ?k = "\<lambda>s. Inr (if length s = 10 then 64 else 0xBFC00100)"
  have tags: "isl (bcm63xx_read_image_tag cpu_be32 (\<lambda>_ _. 0) bcm_flash 0)"
    "case bcm63xx_read_image_tag cpu_be32 (\<lambda>_ _. 0) bcm_flash 256 of Inl _ \<Rightarrow> False | Inr hdr \<Rightarrow>
      bcm63xx_parse_partitions cpu_be32 ?k True 0 bcm_flash hdr =
        (2, Some [mk_part ''kernel'' 256 64, mk_part ''rootfs'' 320 192])"
    by code_simp+
  have size: "mtd_size bcm_flash = 512" "erasesize bcm_flash = 256" by (simp_all add: bcm_flash_def)
  have s: "mtd_sane bcm_flash" by (simp add: bcm_flash_def mtd_sane_flash)
  obtain r where r: "mtdsplit_parse_bcm63xx cpu_be32 (\<lambda>_ _. 0) ?k True False 0 bcm_flash = Some r"
    and c: "(\<exists>off hdr. 0 \<le> off \<and> 256 dvd off \<and> bcm63xx_read_image_tag cpu_be32 (\<lambda>_ _. 0) bcm_flash off = Inr hdr \<and>
        (\<forall>p. 0 \<le> p \<and> p < off \<and> 256 dvd p \<longrightarrow> isl (bcm63xx_read_image_tag cpu_be32 (\<lambda>_ _. 0) bcm_flash p)) \<and>
        r = bcm63xx_parse_partitions cpu_be32 ?k True 0 bcm_flash hdr) \<or>
     (\<forall>p. 0 \<le> p \<and> p < 512 \<and> 256 dvd p \<longrightarrow> isl (bcm63xx_read_image_tag cpu_be32 (\<lambda>_ _. 0) bcm_flash p))"
    using bcm63xx_first_tag [OF s, of cpu_be32 "\<lambda>_ _. 0" ?k True 0] unfolding size by blast
  have nisl: "\<not> isl (bcm63xx_read_image_tag cpu_be32 (\<lambda>_ _. 0) bcm_flash 256)"
    using tags(2) by (auto split: sum.splits)
  from c show ?thesis
  proof (elim disjE exE conjE)
    fix off hdr assume off: "0 \<le> off" "256 dvd off"
      and hdr: "bcm63xx_read_image_tag cpu_be32 (\<lambda>_ _. 0) bcm_flash off = Inr hdr"
      and before: "\<forall>p. 0 \<le> p \<and> p < off \<and> 256 dvd p \<longrightarrow> isl (bcm63xx_read_image_tag cpu_be32 (\<lambda>_ _. 0) bcm_flash p)"
      and res: "r = bcm63xx_parse_partitions cpu_be32 ?k True 0 bcm_flash hdr"
    have "off \<noteq> 0" using tags(1) hdr by auto
    then have "256 \<le> off" using off by (intro zdvd_imp_le) auto
    have "\<not> 256 < off" using before [rule_format, of 256] nisl by auto
    then have "off = 256" using \<open>256 \<le> off\<close> by simp
    then show ?thesis using r res tags(2) hdr by simp
  next
    assume "\<forall>p. 0 \<le> p \<and> p < 512 \<and> 256 dvd p \<longrightarrow> isl (bcm63xx_read_image_tag cpu_be32 (\<lambda>_ _. 0) bcm_flash p)"
    then have "isl (bcm63xx_read_image_tag cpu_be32 (\<lambda>_ _. 0) bcm_flash 256)" by (rule allE [of _ 256]) simp
    then show ?thesis using nisl by simp
  qed
qed

end
