(* ===== verification/Mtdsplit_Elf.thy ===== *)
theory Mtdsplit_Elf
  imports Mtdsplit_Fixed
begin

text \<open>
  The parser for a loader in ELF format, \<^verbatim>\<open>mtdsplit/mtdsplit_elf.c\<close>: the size of the loader is taken
  from the section headers, or else from the segments that the program headers describe; the root
  file system is the first one behind it. The fields are read in the byte order of the processor.
\<close>

section \<open>Headers\<close>

record elf_header_ident =
  ei_magic :: u32
  ei_class :: u8
  ei_data :: u8
  ei_version :: u8
  ei_osabi :: u8
  ei_abiversion :: u8

definition elf_header_ident_of :: "u8 list \<Rightarrow> elf_header_ident" where
  "elf_header_ident_of h = \<lparr>ei_magic = rd32be h 0, ei_class = h ! 4, ei_data = h ! 5, ei_version = h ! 6,
     ei_osabi = h ! 7, ei_abiversion = h ! 8\<rparr>"

record elf_header_32 =
  e32_type :: u16
  e32_machine :: u16
  e32_version :: u32
  e32_entry :: u32
  e32_phoff :: u32
  e32_shoff :: u32
  e32_flags :: u32
  e32_ehsize :: u16
  e32_phentsize :: u16
  e32_phnum :: u16
  e32_shentsize :: u16
  e32_shnum :: u16
  e32_shstrndx :: u16

text \<open>The two forms follow the 16 bytes of the identification.\<close>

definition elf_header_32_of :: "cpu \<Rightarrow> u8 list \<Rightarrow> elf_header_32" where
  "elf_header_32_of c h = \<lparr>e32_type = rd16c c h 16, e32_machine = rd16c c h 18, e32_version = rd32c c h 20,
     e32_entry = rd32c c h 24, e32_phoff = rd32c c h 28, e32_shoff = rd32c c h 32, e32_flags = rd32c c h 36,
     e32_ehsize = rd16c c h 40, e32_phentsize = rd16c c h 42, e32_phnum = rd16c c h 44,
     e32_shentsize = rd16c c h 46, e32_shnum = rd16c c h 48, e32_shstrndx = rd16c c h 50\<rparr>"

record elf_header_64 =
  e64_type :: u16
  e64_machine :: u16
  e64_version :: u32
  e64_entry :: u64
  e64_phoff :: u64
  e64_shoff :: u64
  e64_flags :: u32
  e64_ehsize :: u16
  e64_phentsize :: u16
  e64_phnum :: u16
  e64_shentsize :: u16
  e64_shnum :: u16
  e64_shstrndx :: u16

definition elf_header_64_of :: "cpu \<Rightarrow> u8 list \<Rightarrow> elf_header_64" where
  "elf_header_64_of c h = \<lparr>e64_type = rd16c c h 16, e64_machine = rd16c c h 18, e64_version = rd32c c h 20,
     e64_entry = rd64c c h 24, e64_phoff = rd64c c h 32, e64_shoff = rd64c c h 40, e64_flags = rd32c c h 48,
     e64_ehsize = rd16c c h 52, e64_phentsize = rd16c c h 54, e64_phnum = rd16c c h 56,
     e64_shentsize = rd16c c h 58, e64_shnum = rd16c c h 60, e64_shstrndx = rd16c c h 62\<rparr>"

record elf_program_header_32 =
  p32_type :: u32
  p32_offset :: u32
  p32_vaddr :: u32
  p32_paddr :: u32
  p32_filesize :: u32
  p32_memsize :: u32
  p32_flags :: u32

definition elf_program_header_32_of :: "cpu \<Rightarrow> u8 list \<Rightarrow> elf_program_header_32" where
  "elf_program_header_32_of c h = \<lparr>p32_type = rd32c c h 0, p32_offset = rd32c c h 4, p32_vaddr = rd32c c h 8,
     p32_paddr = rd32c c h 12, p32_filesize = rd32c c h 16, p32_memsize = rd32c c h 20, p32_flags = rd32c c h 24\<rparr>"

record elf_program_header_64 =
  p64_type :: u32
  p64_flags :: u32
  p64_offset :: u64
  p64_vaddr :: u64
  p64_paddr :: u64
  p64_filesize :: u64
  p64_memsize :: u64

definition elf_program_header_64_of :: "cpu \<Rightarrow> u8 list \<Rightarrow> elf_program_header_64" where
  "elf_program_header_64_of c h = \<lparr>p64_type = rd32c c h 0, p64_flags = rd32c c h 4, p64_offset = rd64c c h 8,
     p64_vaddr = rd64c c h 16, p64_paddr = rd64c c h 24, p64_filesize = rd64c c h 32, p64_memsize = rd64c c h 40\<rparr>"

abbreviation (input) elf_hdr_len :: nat where "elf_hdr_len \<equiv> 64"
abbreviation (input) ELF_MAGIC :: u32 where "ELF_MAGIC \<equiv> 0x7f454c46"

definition mtdsplit_elf_read_mtd :: "mtd_info \<Rightarrow> int \<Rightarrow> nat \<Rightarrow> int + u8 list" where
  "mtdsplit_elf_read_mtd m off len = read_exact m off len"

section \<open>The size of the loader\<close>

text \<open>
  The loop over the program headers. \<open>seg_end\<close> gives from the bytes of a program header the end of
  its segment; the loop variable is the size so far, or the error of a read.
\<close>

definition ph_body ::
  "mtd_info \<Rightarrow> nat \<Rightarrow> (u8 list \<Rightarrow> int) \<Rightarrow> int \<Rightarrow> int + int \<Rightarrow> (int + int) \<times> bool" where
  "ph_body m ph_len seg_end ph_entry s =
     (case mtdsplit_elf_read_mtd m ph_entry ph_len of
        Inl e \<Rightarrow> (Inl e, True)
      | Inr ph \<Rightarrow>
          (case s of
             Inl e \<Rightarrow> (Inl e, False)
           | Inr sz \<Rightarrow> (Inr (if seg_end ph > sz then seg_end ph else sz), False)))"

definition ph_loop ::
  "cpu \<Rightarrow> mtd_info \<Rightarrow> nat \<Rightarrow> (u8 list \<Rightarrow> int) \<Rightarrow> int \<Rightarrow> int \<Rightarrow> int \<Rightarrow> (int + int) option" where
  "ph_loop c m ph_len seg_end phentsize ph_entry ph_table_end =
     map_option snd (for_off (\<lambda>p. szt c (p + phentsize)) ph_table_end (ph_body m ph_len seg_end) ph_entry (Inr 0))"

definition seg_end_32 :: "cpu \<Rightarrow> u8 list \<Rightarrow> int" where
  "seg_end_32 c h = (let ph = elf_program_header_32_of c h in uint (p32_offset ph + p32_filesize ph))"

definition seg_end_64 :: "cpu \<Rightarrow> u8 list \<Rightarrow> int" where
  "seg_end_64 c h = (let ph = elf_program_header_64_of c h in szt c (uint (p64_offset ph + p64_filesize ph)))"

text \<open>The product of two fields of 16 bits is an \<open>int\<close>; the sum with the offset has the offset's width.\<close>

definition elf32_determine_size :: "cpu \<Rightarrow> mtd_info \<Rightarrow> u8 list \<Rightarrow> (int + int) option" where
  "elf32_determine_size c m hdr =
     (let h = elf_header_32_of c hdr in
      if e32_shoff h > 0 then
        Some (Inr (szt c (wrap32 (uint (e32_shoff h) + uint (e32_shentsize h) * uint (e32_shnum h)))))
      else
        ph_loop c m 28 (seg_end_32 c) (uint (e32_phentsize h)) (szt c (uint (e32_phoff h)))
          (szt c (wrap32 (uint (e32_phoff h) + uint (e32_phentsize h) * uint (e32_phnum h)))))"

definition elf64_determine_size :: "cpu \<Rightarrow> mtd_info \<Rightarrow> u8 list \<Rightarrow> (int + int) option" where
  "elf64_determine_size c m hdr =
     (let h = elf_header_64_of c hdr in
      if e64_shoff h > 0 then
        Some (Inr (szt c (wrap64 (uint (e64_shoff h) + sint32 (uint (e64_shentsize h) * uint (e64_shnum h))))))
      else
        ph_loop c m 48 (seg_end_64 c) (uint (e64_phentsize h)) (szt c (uint (e64_phoff h)))
          (szt c (wrap64 (uint (e64_phoff h) + sint32 (uint (e64_phentsize h) * uint (e64_phnum h))))))"

definition mtdsplit_parse_elf :: "cpu \<Rightarrow> bool \<Rightarrow> mtd_info \<Rightarrow> parsed option" where
  "mtdsplit_parse_elf c alloc m =
     (case mtdsplit_elf_read_mtd m 0 elf_hdr_len of
        Inl e \<Rightarrow> Some (parse_error e)
      | Inr hdr \<Rightarrow>
          (let ident = elf_header_ident_of hdr in
           if ei_magic ident \<noteq> ELF_MAGIC then Some (parse_error (- EINVAL))
           else
             Option.bind
               (if ei_class ident = 1 then elf32_determine_size c m hdr
                else if ei_class ident = 2 then elf64_determine_size c m hdr
                else Some (Inl (- EINVAL)))
               (\<lambda>size. case size of
                  Inl e \<Rightarrow> Some (parse_error e)
                | Inr loader_size \<Rightarrow>
                    with_rootfs (mtd_find_rootfs_from c m loader_size (szt c (mtd_size m)))
                      (\<lambda>off t.
                        if off = mtd_size m then parse_error (- ENOENT)
                        else give_parts alloc
                          [mk_part KERNEL_PART_NAME 0 off,
                           mk_part (rootfs_name t) off (wrap64 (mtd_size m - off))]))))"

section \<open>The loop over the program headers\<close>

text \<open>
  When the table lies in the address range, the loop returns: with an error when a header cannot be
  read, and else with the greatest end of a segment.
\<close>

lemma ph_next:
  assumes "32 \<le> long_bits c" "0 \<le> p" "p < 2 ^ 31" "0 \<le> e" "e < 2 ^ 16"
  shows "szt c (p + e) = p + e"
  using assms by (intro szt_small) auto

definition ph_table_ok :: "cpu \<Rightarrow> int \<Rightarrow> int \<Rightarrow> int \<Rightarrow> bool" where
  "ph_table_ok c phoff ent n \<longleftrightarrow>
     32 \<le> long_bits c \<and> 0 \<le> phoff \<and> 0 < ent \<and> ent < 2 ^ 16 \<and> 0 \<le> n \<and> phoff + ent * n < 2 ^ 31"

text \<open>What the size covers: the ends of the first \<open>k\<close> segments.\<close>

definition covers :: "mtd_info \<Rightarrow> nat \<Rightarrow> (u8 list \<Rightarrow> int) \<Rightarrow> int \<Rightarrow> int \<Rightarrow> int \<Rightarrow> int \<Rightarrow> bool" where
  "covers m len f phoff ent k sz \<longleftrightarrow>
     (\<forall>i. 0 \<le> i \<and> i < k \<longrightarrow> (\<exists>h. read_exact m (phoff + ent * i) len = Inr h \<and> f h \<le> sz)) \<and>
     (sz = 0 \<or> (\<exists>i h. 0 \<le> i \<and> i < k \<and> read_exact m (phoff + ent * i) len = Inr h \<and> f h = sz))"

lemma covers_step:
  assumes "covers m len f phoff ent k sz" "read_exact m (phoff + ent * k) len = Inr h" "0 \<le> k"
  shows "covers m len f phoff ent (k + 1) (if f h > sz then f h else sz)"
  unfolding covers_def
proof (intro conjI allI impI)
  fix i assume i: "0 \<le> i \<and> i < k + 1"
  show "\<exists>h'. read_exact m (phoff + ent * i) len = Inr h' \<and> f h' \<le> (if f h > sz then f h else sz)"
  proof (cases "i = k")
    case True
    then show ?thesis using assms(2) by auto
  next
    case False
    then obtain h' where "read_exact m (phoff + ent * i) len = Inr h'" "f h' \<le> sz"
      using assms(1) i by (auto simp: covers_def)
    then show ?thesis by auto
  qed
next
  show "(if f h > sz then f h else sz) = 0 \<or>
      (\<exists>i h'. 0 \<le> i \<and> i < k + 1 \<and> read_exact m (phoff + ent * i) len = Inr h' \<and> f h' = (if f h > sz then f h else sz))"
  proof (cases "f h > sz")
    case True
    then show ?thesis using assms(2,3) by (intro disjI2 exI [of _ k] exI [of _ h]) auto
  next
    case False
    then have eq: "(if f h > sz then f h else sz) = sz" by simp
    consider "sz = 0" | i h' where "0 \<le> i" "i < k" "read_exact m (phoff + ent * i) len = Inr h'" "f h' = sz"
      using assms(1) by (auto simp: covers_def)
    then show ?thesis
    proof cases
      case 1
      then show ?thesis using eq by simp
    next
      case (2 i h')
      then show ?thesis unfolding eq by (intro disjI2 exI [of _ i] exI [of _ h']) auto
    qed
  qed
qed

lemma ph_loop_spec:
  assumes ok: "ph_table_ok c phoff ent n"
  shows "\<exists>r. ph_loop c m len f ent phoff (phoff + ent * n) = Some r \<and>
    (case r of
       Inr sz \<Rightarrow> covers m len f phoff ent n sz
     | Inl e \<Rightarrow> \<exists>i. 0 \<le> i \<and> i < n \<and> read_exact m (phoff + ent * i) len = Inl e)"
proof -
  let ?lim = "phoff + ent * n" and ?nxt = "\<lambda>p. szt c (p + ent)"
  let ?P = "\<lambda>p. \<exists>k. 0 \<le> k \<and> k \<le> n \<and> p = phoff + ent * k"
  let ?I = "\<lambda>p s. \<exists>k sz. 0 \<le> k \<and> k \<le> n \<and> p = phoff + ent * k \<and> s = Inr sz \<and> covers m len f phoff ent k sz"
  have ent: "0 < ent" "ent < 2 ^ 16" "0 \<le> phoff" "?lim < 2 ^ 31" "32 \<le> long_bits c" "0 \<le> n"
    using ok by (simp_all add: ph_table_ok_def)
  have nxt: "k < n" "?nxt (phoff + ent * k) = phoff + ent * (k + 1)" if "0 \<le> k" "phoff + ent * k < ?lim" for k
  proof -
    show "k < n" using that(2) ent(1) by simp
    have pos: "0 \<le> ent * k" using that(1) ent(1) by simp
    have "phoff + ent * k < 2 ^ 31" using that(2) ent(4) by linarith
    then show "?nxt (phoff + ent * k) = phoff + ent * (k + 1)"
      using ph_next [OF ent(5), of "phoff + ent * k" ent] pos ent(1-3) unfolding distrib_left by linarith
  qed
  have "\<exists>o' t. for_off ?nxt ?lim (ph_body m len f) phoff (Inr 0) = Some (o', t)"
  proof (rule for_off_returns [of ?P])
    show "?P phoff" using ent(6) by (intro exI [of _ 0]) simp
    fix p assume "?P p" "p < ?lim"
    then obtain k where k: "0 \<le> k" "p = phoff + ent * k" "phoff + ent * k < ?lim" by auto
    then show "p < ?nxt p \<and> ?P (?nxt p)"
      using nxt [OF k(1,3)] ent(1) by (intro conjI exI [of _ "k + 1"]) (auto simp: algebra_simps)
  qed
  then obtain o' t where run: "for_off ?nxt ?lim (ph_body m len f) phoff (Inr 0) = Some (o', t)" by auto
  have "(\<not> o' < ?lim \<and> ?I o' t) \<or> (o' < ?lim \<and> (\<exists>u. ?I o' u \<and> ph_body m len f o' u = (t, True)))"
  proof (rule for_off_inv [OF run])
    show "?I phoff (Inr 0)" using ent(6) by (intro exI [of _ 0]) (auto simp: covers_def)
  next
    fix p u u' assume "?I p u" "p < ?lim" and b: "ph_body m len f p u = (u', False)"
    then obtain k sz where k: "0 \<le> k" "p = phoff + ent * k" "phoff + ent * k < ?lim" "u = Inr sz"
      "covers m len f phoff ent k sz" by auto
    then obtain h where h: "read_exact m p len = Inr h" "u' = Inr (if f h > sz then f h else sz)"
      using b by (auto simp: ph_body_def mtdsplit_elf_read_mtd_def split: sum.splits)
    let ?sz = "if f h > sz then f h else sz"
    have "covers m len f phoff ent (k + 1) ?sz" using covers_step [OF k(5) _ k(1)] k(2) h(1) by simp
    then show "?I (?nxt p) u'"
      using nxt [OF k(1,3)] k(1,2) h(2) by (intro exI [of _ "k + 1"] exI [of _ ?sz]) simp
  qed
  then have "case t of Inr sz \<Rightarrow> covers m len f phoff ent n sz
     | Inl e \<Rightarrow> \<exists>i. 0 \<le> i \<and> i < n \<and> read_exact m (phoff + ent * i) len = Inl e"
  proof (elim disjE conjE exE)
    fix k sz assume "\<not> o' < ?lim" "0 \<le> k" "k \<le> n" "o' = phoff + ent * k" "t = Inr sz" "covers m len f phoff ent k sz"
    moreover from this have "k = n" using ent(1) by simp
    ultimately show ?thesis by simp
  next
    fix u k sz assume o': "o' < ?lim" "0 \<le> k" "o' = phoff + ent * k" and u: "u = Inr sz"
      and b: "ph_body m len f o' u = (t, True)"
    obtain e where "read_exact m o' len = Inl e" "t = Inl e"
      using b u by (auto simp: ph_body_def mtdsplit_elf_read_mtd_def split: sum.splits)
    then show ?thesis using o' nxt(1) [of k] by auto
  qed
  then show ?thesis using run by (simp add: ph_loop_def)
qed

lemma elf32_determine_size_segments:
  assumes "e32_shoff (elf_header_32_of c hdr) = 0"
    "ph_table_ok c phoff ent n"
    "phoff = uint (e32_phoff (elf_header_32_of c hdr))" "ent = uint (e32_phentsize (elf_header_32_of c hdr))"
    "n = uint (e32_phnum (elf_header_32_of c hdr))"
  shows "elf32_determine_size c m hdr = ph_loop c m 28 (seg_end_32 c) ent phoff (phoff + ent * n)"
proof -
  have le: "0 \<le> phoff" "phoff + ent * n < 2 ^ 31" "32 \<le> long_bits c" "0 \<le> ent * n"
    using assms(2) by (auto simp: ph_table_ok_def)
  then have "phoff < 2 ^ 31" by linarith
  then show ?thesis
    using assms le by (simp add: elf32_determine_size_def Let_def szt_small)
qed


lemma covers_nonneg: "covers m len (seg_end_32 c) phoff ent k sz \<Longrightarrow> 0 \<le> sz"
  by (auto simp: covers_def seg_end_32_def Let_def)

lemma mtdsplit_parse_elf_32:
  assumes "read_exact m 0 64 = Inr hdr" "ei_magic (elf_header_ident_of hdr) = ELF_MAGIC"
    "ei_class (elf_header_ident_of hdr) = 1" "elf32_determine_size c m hdr = Some (Inr sz)"
    "mtd_find_rootfs_from c m sz (szt c (mtd_size m)) = Some (Inr (off, t))" "off \<noteq> mtd_size m"
  shows "mtdsplit_parse_elf c True m = Some (2, Some [mk_part KERNEL_PART_NAME 0 off,
     mk_part (rootfs_name t) off (wrap64 (mtd_size m - off))])"
  using assms by (simp add: mtdsplit_parse_elf_def mtdsplit_elf_read_mtd_def Let_def with_rootfs_def give_parts_def)

section \<open>The split behind the loader\<close>


text \<open>A loader with one segment of 16 bytes at 84, and a UBI volume in the next erase block.\<close>

definition elf_flash :: mtd_info where
  "elf_flash = flash ''firmware'' 64
     ([0x7f, 0x45, 0x4c, 0x46, 1] @ replicate 23 0 @ [52, 0, 0, 0] @ replicate 10 0 @ [32, 0, 1, 0] @ replicate 6 0 @
      [1, 0, 0, 0, 84, 0, 0, 0] @ replicate 8 0 @ [16, 0, 0, 0] @ replicate 12 0 @
      replicate 44 0xff @ [0x55, 0x42, 0x49, 0x23] @ replicate 60 0)"


end
