(* ===== verification/Mtdsplit_Wfi.thy ===== *)
theory Mtdsplit_Wfi
  imports Mtdsplit_Fixed
begin

text \<open>
  The parsers for the whole flash images of Broadcom and Sercomm, \<^verbatim>\<open>mtdsplit/mtdsplit_bcm_wfi.c\<close>:
  the search for a file in JFFS2 directory entries, the split of one image, and the choice between
  two images by their boot flags.

  \<open>crc32\<close> is the kernel's checksum function. A directory entry is read where it starts in the buffer
  of one erase block, also when it goes on behind the buffer: \<open>junk\<close> gives the bytes that lie behind
  an object in memory. A result \<open>None\<close> is a parser that does not return: an endless loop, or the use
  of a null pointer.
\<close>

section \<open>Directory entries\<close>

abbreviation CFERAM_NAME :: string where "CFERAM_NAME \<equiv> ''cferam''"
abbreviation CFERAM_NAME_MAX_LEN :: nat where "CFERAM_NAME_MAX_LEN \<equiv> 32"
abbreviation KERNEL_NAME :: string where "KERNEL_NAME \<equiv> ''vmlinux.lz''"
abbreviation OPENWRT_NAME :: string where "OPENWRT_NAME \<equiv> ''1-openwrt''"
abbreviation (input) WFI_UBI_MAGIC :: u32 where "WFI_UBI_MAGIC \<equiv> 0x55424923"

definition jffs2_dirent_crc :: "(u32 \<Rightarrow> u8 list \<Rightarrow> u32) \<Rightarrow> u8 list \<Rightarrow> u32" where
  "jffs2_dirent_crc crc32 node = crc32 0 (take (jffs2_dirent_len - 8) node)"

definition jffs2_dirent_valid :: "(u32 \<Rightarrow> u8 list \<Rightarrow> u32) \<Rightarrow> cpu \<Rightarrow> u8 list \<Rightarrow> bool" where
  "jffs2_dirent_valid crc32 c node =
     (let d = jffs2_raw_dirent_of c node 0 in
      jd_magic d = JFFS2_MAGIC_BITMASK \<and> jd_nodetype d = JFFS2_NODETYPE_DIRENT \<and> jd_ino d \<noteq> 0 \<and>
      jd_node_crc d = jffs2_dirent_crc crc32 node)"

text \<open>What the scan of one block gives: go on with the flag, the name of the file, or an error.\<close>

datatype scan = Next_block bool | Found "u8 list" | Fail int

definition next_node :: "u32 \<Rightarrow> u32 \<Rightarrow> u32" where
  "next_node block_offs totlen = (block_offs + totlen + 3) AND NOT 3"

partial_function (option) jffs2_scan_block ::
  "(u32 \<Rightarrow> u8 list \<Rightarrow> u32) \<Rightarrow> cpu \<Rightarrow> (nat \<Rightarrow> u8) \<Rightarrow> u8 list \<Rightarrow> u8 list \<Rightarrow> u32 \<Rightarrow> bool \<Rightarrow> scan option" where
  "jffs2_scan_block crc32 c junk buf name block_offs valid =
     (if unat block_offs < length buf then
        let node = mem_view junk buf (unat block_offs) jffs2_dirent_len;
            node_name = mem_view junk buf (unat block_offs + jffs2_dirent_len);
            d = jffs2_raw_dirent_of c node 0 in
        if \<not> jffs2_dirent_valid crc32 c node then
          jffs2_scan_block crc32 c junk buf name (block_offs + 4) valid
        else if node_name (length OPENWRT_NAME) = cstr OPENWRT_NAME then
          jffs2_scan_block crc32 c junk buf name (next_node block_offs (jd_totlen d)) True
        else if node_name (length name) = name then
          Some (if valid then Found (node_name (unat (jd_nsize d))) else Fail (- EINVAL))
        else jffs2_scan_block crc32 c junk buf name (next_node block_offs (jd_totlen d)) valid
      else Some (Next_block valid))"

declare jffs2_scan_block.simps [code]

text \<open>One round of the loop over the erase blocks: a block that is not JFFS2 or cannot be probed is skipped.\<close>

definition jffs2_block ::
  "(u32 \<Rightarrow> u8 list \<Rightarrow> u32) \<Rightarrow> cpu \<Rightarrow> (nat \<Rightarrow> u8) \<Rightarrow> mtd_info \<Rightarrow> u8 list \<Rightarrow> int \<Rightarrow> bool \<Rightarrow> scan option" where
  "jffs2_block crc32 c junk m name offs valid =
     (case read_exact m offs 2 of
        Inl _ \<Rightarrow> Some (Next_block valid)
      | Inr magic \<Rightarrow>
          if rd16c c magic 0 \<noteq> JFFS2_MAGIC_BITMASK then Some (Next_block valid)
          else
            case mtd_rd m offs (erasesize m) of
              (rc, buf) \<Rightarrow>
                if rc \<noteq> 0 then Some (Fail rc)
                else if int (length buf) \<noteq> erasesize m then Some (Fail (- EINVAL))
                else jffs2_scan_block crc32 c junk buf name 0 valid)"

text \<open>The offset of the block with the file and the name found there, of \<open>nsize\<close> bytes.\<close>

partial_function (option) jffs2_find_from ::
  "(u32 \<Rightarrow> u8 list \<Rightarrow> u32) \<Rightarrow> cpu \<Rightarrow> (nat \<Rightarrow> u8) \<Rightarrow> mtd_info \<Rightarrow> u8 list \<Rightarrow> int \<Rightarrow> int \<Rightarrow> bool
    \<Rightarrow> (int + int \<times> u8 list) option" where
  "jffs2_find_from crc32 c junk m name lim offs valid =
     (if offs < lim then
        Option.bind (jffs2_block crc32 c junk m name offs valid) (\<lambda>r.
          case r of
            Next_block valid' \<Rightarrow> jffs2_find_from crc32 c junk m name lim (offs + erasesize m) valid'
          | Found nm \<Rightarrow> Some (Inr (offs, nm))
          | Fail e \<Rightarrow> Some (Inl e))
      else Some (Inl (- ENOENT)))"

declare jffs2_find_from.simps [code]

definition jffs2_find_file ::
  "(u32 \<Rightarrow> u8 list \<Rightarrow> u32) \<Rightarrow> cpu \<Rightarrow> (nat \<Rightarrow> u8) \<Rightarrow> mtd_info \<Rightarrow> u8 list \<Rightarrow> int \<Rightarrow> int
    \<Rightarrow> (int + int \<times> u8 list) option" where
  "jffs2_find_file crc32 c junk m name offs sz = jffs2_find_from crc32 c junk m name (offs + sz) offs False"

definition ubifs_body :: "mtd_info \<Rightarrow> int \<Rightarrow> int \<Rightarrow> int \<times> bool" where
  "ubifs_body m offs rc =
     (case read_exact m offs 4 of
        Inl _ \<Rightarrow> (rc, False)
      | Inr magic \<Rightarrow> if rd32be magic 0 = WFI_UBI_MAGIC then (0, True) else (rc, False))"

definition ubifs_find :: "mtd_info \<Rightarrow> int \<Rightarrow> int \<Rightarrow> (int + int) option" where
  "ubifs_find m offs sz =
     map_option (\<lambda>(offs', rc). if rc \<noteq> 0 then Inl rc else Inr offs')
       (for_off (\<lambda>p. p + erasesize m) (offs + sz) (ubifs_body m) offs (- ENOENT))"

section \<open>The split of one image\<close>

text \<open>The device tree node of the device: the property \<^verbatim>\<open>brcm,cferam\<close>, and whether there is \<^verbatim>\<open>brcm,no-cferam\<close>.\<close>

record wfi_node =
  brcm_cferam :: "u8 list option"
  brcm_no_cferam :: bool

text \<open>The length that is compared is one less than that of the name.\<close>

definition cferam_prefix :: "wfi_node option \<Rightarrow> u8 list" where
  "cferam_prefix np =
     (let name = (case np of
        None \<Rightarrow> cstr CFERAM_NAME
      | Some n \<Rightarrow> (case brcm_cferam n of None \<Rightarrow> cstr CFERAM_NAME | Some s \<Rightarrow> s)) in
      take (min (length name) CFERAM_NAME_MAX_LEN - 1) name)"

definition wfi_parts :: "bool \<Rightarrow> int \<Rightarrow> int \<Rightarrow> int \<Rightarrow> int \<Rightarrow> int \<Rightarrow> mtd_part list" where
  "wfi_parts cfe_part off sz cfe_off kernel_off rootfs_off =
     (if cfe_part then [(mk_part ''cferam'' cfe_off (kernel_off - cfe_off)) \<lparr>p_mask := MTD_WRITEABLE\<rparr>] else []) @
     [mk_part ''firmware'' kernel_off (sz - (kernel_off - off)),
      mk_part KERNEL_PART_NAME kernel_off (rootfs_off - kernel_off),
      mk_part UBI_PART_NAME rootfs_off (sz - (rootfs_off - off))]"

definition parse_bcm_wfi ::
  "(u32 \<Rightarrow> u8 list \<Rightarrow> u32) \<Rightarrow> cpu \<Rightarrow> (nat \<Rightarrow> u8) \<Rightarrow> bool \<Rightarrow> wfi_node option \<Rightarrow> mtd_info \<Rightarrow> int \<Rightarrow> int \<Rightarrow> bool
    \<Rightarrow> parsed option" where
  "parse_bcm_wfi crc32 c junk alloc np m off sz cfe_part =
     Option.bind
       (if cfe_part then jffs2_find_file crc32 c junk m (cferam_prefix np) off sz
        else Some (Inr (off - erasesize m, [])))
       (\<lambda>cfe. case cfe of
          Inl e \<Rightarrow> Some (parse_error e)
        | Inr (cfe_off, _) \<Rightarrow>
            let kernel_from = (if cfe_part then cfe_off + erasesize m else off) in
            Option.bind (jffs2_find_file crc32 c junk m (cstr KERNEL_NAME) kernel_from (sz - (kernel_from - off)))
              (\<lambda>kernel. case kernel of
                 Inl e \<Rightarrow> Some (parse_error e)
               | Inr (kernel_off, _) \<Rightarrow>
                   let rootfs_from = kernel_off + erasesize m in
                   map_option (\<lambda>rootfs. case rootfs of
                       Inl e \<Rightarrow> parse_error e
                     | Inr rootfs_off \<Rightarrow>
                         give_parts alloc (wfi_parts cfe_part off sz cfe_off kernel_off rootfs_off))
                     (ubifs_find m rootfs_from (sz - (rootfs_from - off)))))"

definition mtdsplit_parse_bcm_wfi ::
  "(u32 \<Rightarrow> u8 list \<Rightarrow> u32) \<Rightarrow> cpu \<Rightarrow> (nat \<Rightarrow> u8) \<Rightarrow> bool \<times> bool \<Rightarrow> wfi_node option \<Rightarrow> mtd_info \<Rightarrow> parsed option" where
  "mtdsplit_parse_bcm_wfi crc32 c junk allocs np m =
     (case np of
        None \<Rightarrow> Some (parse_error (- EINVAL))
      | Some n \<Rightarrow>
          if \<not> fst allocs then Some (parse_error (- ENOMEM))
          else parse_bcm_wfi crc32 c junk (snd allocs) np m 0 (mtd_size m) (\<not> brcm_no_cferam n))"

section \<open>The choice between two images\<close>

definition char_to_num :: "u8 \<Rightarrow> int" where
  "char_to_num ch = (if 0x30 \<le> ch \<and> ch \<le> 0x39 then uint ch - 0x30 else 0)"

definition flag_value :: "u8 list \<Rightarrow> int" where
  "flag_value ds = char_to_num (ds ! 0) * 100 + char_to_num (ds ! 1) * 10 + char_to_num (ds ! 2)"

text \<open>The name is the copy that \<open>kstrndup\<close> made of it, or null; the size is that of the name found.\<close>

definition cferam_bootflag_value :: "(nat \<Rightarrow> u8) \<Rightarrow> u8 list option \<Rightarrow> nat \<Rightarrow> int" where
  "cferam_bootflag_value junk name name_len =
     (case name of
        None \<Rightarrow> - ENOENT
      | Some nm \<Rightarrow>
          if name_len \<ge> length ''cferam.000'' \<and> mem_view junk nm 0 (length ''cferam.'') = cstr ''cferam.''
          then flag_value (mem_view junk nm (length ''cferam.'') 3)
          else - ENOENT)"

definition sercomm_body :: "mtd_info \<Rightarrow> int \<Rightarrow> int \<Rightarrow> int \<times> bool" where
  "sercomm_body m offs rc =
     (case read_exact m offs (length ''eRcOmM.000'') of
        Inl _ \<Rightarrow> (rc, False)
      | Inr buf \<Rightarrow>
          if take (length ''eRcOmM.'') buf \<noteq> cstr ''eRcOmM.'' then (rc, False)
          else (flag_value (drop (length ''eRcOmM.'') buf), True))"

definition sercomm_bootflag_value :: "mtd_info \<Rightarrow> int option" where
  "sercomm_bootflag_value m =
     map_option snd (for_off (\<lambda>p. p + erasesize m) (mtd_size m) (sercomm_body m) 0 (- ENOENT))"

text \<open>
  The two halves of the device, the active one first, and the name of the other; the first image
  is active unless its flag is the smaller one.
\<close>

definition wfi_choose :: "mtd_info \<Rightarrow> int \<Rightarrow> int \<Rightarrow> (int \<times> int) \<times> (int \<times> int) \<times> string" where
  "wfi_choose m bf1 bf2 =
     (let img1_off = 0; img2_off = mtd_size m div 2;
          img1_size = img2_off - img1_off; img2_size = mtd_size m - img2_off in
      if bf1 \<ge> bf2 then ((img1_off, img1_size), (img2_off, img2_size), ''img2'')
      else ((img2_off, img2_size), (img1_off, img1_size), ''img1''))"

text \<open>
  What both parsers make of the result for the active image: they append the other one, or, when the
  active image cannot be split, set the partitions of the two images and return the error all the
  same. The second allocation of the table is not checked.
\<close>

definition wfi_finish :: "bool \<Rightarrow> mtd_info \<Rightarrow> (int \<times> int) \<times> string \<Rightarrow> parsed \<Rightarrow> parsed option" where
  "wfi_finish alloc m inactive r =
     (case (inactive, r) of
        (((inactive_off, inactive_size), inactive_name), (ret, pparts)) \<Rightarrow>
          let img2_off = mtd_size m div 2 in
          if ret > 0 then
            if \<not> alloc then Some (- ENOMEM, pparts)
            else Some (ret + 1, map_option (\<lambda>ps. take (nat ret) ps @ [mk_part inactive_name inactive_off inactive_size]) pparts)
          else if \<not> alloc then None
          else Some (ret, Some [mk_part ''img1'' 0 img2_off, mk_part ''img2'' img2_off (mtd_size m - img2_off)]))"

text \<open>Which allocations succeed: the buffer, the copies of the two names, the table of the active image and the last one.\<close>

record wfi_allocs =
  al_buf :: bool
  al_name1 :: bool
  al_name2 :: bool
  al_parts :: bool
  al_final :: bool

text \<open>\<open>junk 0\<close> follows the buffer, \<open>junk 1\<close> and \<open>junk 2\<close> the copies of the names.\<close>

definition cfe_flag :: "(nat \<Rightarrow> u8) \<Rightarrow> bool \<Rightarrow> int + int \<times> u8 list \<Rightarrow> int" where
  "cfe_flag junk alloc found =
     (case found of
        Inl _ \<Rightarrow> cferam_bootflag_value junk None 0
      | Inr (_, nm) \<Rightarrow>
          cferam_bootflag_value junk (if alloc then Some (takeWhile (\<lambda>b. b \<noteq> 0) nm @ [0]) else None) (length nm))"

definition mtdsplit_parse_bcm_wfi_split ::
  "(u32 \<Rightarrow> u8 list \<Rightarrow> u32) \<Rightarrow> cpu \<Rightarrow> (nat \<Rightarrow> nat \<Rightarrow> u8) \<Rightarrow> wfi_allocs \<Rightarrow> wfi_node option \<Rightarrow> mtd_info \<Rightarrow> parsed option" where
  "mtdsplit_parse_bcm_wfi_split crc32 c junk al np m =
     (if \<not> al_buf al then Some (parse_error (- ENOMEM))
      else
        let img2_off = mtd_size m div 2 in
        Option.bind (jffs2_find_file crc32 c (junk 0) m (cstr CFERAM_NAME) 0 img2_off) (\<lambda>f1.
        Option.bind (jffs2_find_file crc32 c (junk 0) m (cstr CFERAM_NAME) img2_off (mtd_size m - img2_off)) (\<lambda>f2.
          case wfi_choose m (cfe_flag (junk 1) (al_name1 al) f1) (cfe_flag (junk 2) (al_name2 al) f2) of
            ((active_off, active_size), inactive) \<Rightarrow>
              Option.bind (parse_bcm_wfi crc32 c (junk 0) (al_parts al) np m active_off active_size True)
                (wfi_finish (al_final al) m inactive))))"

text \<open>
  The devices of the two flags are looked up by name. The result has the requests to erase the
  second one, as offset and length.
\<close>

definition mtdsplit_parse_ser_wfi ::
  "(u32 \<Rightarrow> u8 list \<Rightarrow> u32) \<Rightarrow> cpu \<Rightarrow> (nat \<Rightarrow> u8) \<Rightarrow> wfi_allocs \<Rightarrow> wfi_node option \<Rightarrow> mtd_info option \<Rightarrow> mtd_info option
    \<Rightarrow> mtd_info \<Rightarrow> (int \<times> int) list \<times> parsed option" where
  "mtdsplit_parse_ser_wfi crc32 c junk al np dev1 dev2 m =
     (case (dev1, dev2) of
        (Some d1, Some d2) \<Rightarrow>
          if \<not> al_buf al then ([], Some (parse_error (- ENOMEM)))
          else
            (case (sercomm_bootflag_value d1, sercomm_bootflag_value d2) of
               (Some bf1, Some bf2) \<Rightarrow>
                 let same = (bf1 = bf2 \<and> bf2 \<ge> 0);
                     bf2' = (if same then - ENOENT else bf2) in
                 (if same then [(0, mtd_size d2)] else [],
                  (case wfi_choose m bf1 bf2' of
                     ((active_off, active_size), inactive) \<Rightarrow>
                       Option.bind (parse_bcm_wfi crc32 c junk (al_parts al) np m active_off active_size False)
                         (wfi_finish (al_final al) m inactive)))
             | _ \<Rightarrow> ([], None))
      | _ \<Rightarrow> ([], Some (parse_error (- ENOENT))))"

section \<open>What the searches find\<close>

text \<open>An offset that the loops over the erase blocks visit.\<close>

definition block_from :: "mtd_info \<Rightarrow> int \<Rightarrow> int \<Rightarrow> bool" where
  "block_from m start p \<longleftrightarrow> start \<le> p \<and> erasesize m dvd p - start"

lemma block_from_refl [simp]: "block_from m p p"
  by (simp add: block_from_def)

lemma block_from_next: "0 < erasesize m \<Longrightarrow> block_from m start p \<Longrightarrow> block_from m start (p + erasesize m)"
proof -
  assume a: "0 < erasesize m" "block_from m start p"
  then have "erasesize m dvd (p - start) + erasesize m" by (intro dvd_add) (simp_all add: block_from_def)
  then show ?thesis using a by (simp add: block_from_def algebra_simps)
qed

text \<open>A block that starts with the magic number of JFFS2.\<close>

definition jffs2_at :: "cpu \<Rightarrow> mtd_info \<Rightarrow> int \<Rightarrow> bool" where
  "jffs2_at c m p = (case read_exact m p 2 of Inl _ \<Rightarrow> False | Inr h \<Rightarrow> rd16c c h 0 = JFFS2_MAGIC_BITMASK)"

lemma jffs2_block_magic:
  "jffs2_block crc32 c junk m name p v = Some (Found nm) \<Longrightarrow> jffs2_at c m p"
  by (auto simp: jffs2_block_def jffs2_at_def split: sum.splits if_splits)

lemma jffs2_scan_block_error:
  assumes "jffs2_scan_block crc32 c junk buf name k v = Some (Fail e)"
  shows "e = - EINVAL"
proof -
  have "\<forall>e. r = Fail e \<longrightarrow> e = - EINVAL"
    if "jffs2_scan_block crc32 c junk buf name k v = Some r" for r
  proof (rule jffs2_scan_block.raw_induct
      [where P = "\<lambda>crc32 c junk buf name k v r. \<forall>e. r = Fail e \<longrightarrow> e = - EINVAL", OF _ that], intro allI impI)
    fix rec crc32 c junk buf name k v r e
    assume "\<And>crc32 c junk buf name k v r. rec crc32 c junk buf name k v = Some r \<Longrightarrow> \<forall>e. r = Fail e \<longrightarrow> e = - EINVAL"
      and "(if unat k < length buf then
        let node = mem_view junk buf (unat k) jffs2_dirent_len;
            node_name = mem_view junk buf (unat k + jffs2_dirent_len);
            d = jffs2_raw_dirent_of c node 0 in
        if \<not> jffs2_dirent_valid crc32 c node then rec crc32 c junk buf name (k + 4) v
        else if node_name (length OPENWRT_NAME) = cstr OPENWRT_NAME then
          rec crc32 c junk buf name (next_node k (jd_totlen d)) True
        else if node_name (length name) = name then
          Some (if v then Found (node_name (unat (jd_nsize d))) else Fail (- EINVAL))
        else rec crc32 c junk buf name (next_node k (jd_totlen d)) v
      else Some (Next_block v)) = Some r" and "r = Fail e"
    then show "e = - EINVAL" unfolding Let_def by (simp only: split: if_splits) auto
  qed
  then show ?thesis using assms by simp
qed

lemma jffs2_block_error:
  assumes "mtd_sane m" "jffs2_block crc32 c junk m name p v = Some (Fail e)"
  shows "e \<le> 0"
proof -
  obtain rc buf where r: "mtd_rd m p (erasesize m) = (rc, buf)" by fastforce
  then show ?thesis
    using assms(2) mtd_saneD(5) [OF assms(1) r] jffs2_scan_block_error
    by (fastforce simp: jffs2_block_def split: sum.splits if_splits)
qed

text \<open>The result of the search: an error number, or a block behind the start and before the limit.\<close>

definition wfi_found :: "cpu \<Rightarrow> mtd_info \<Rightarrow> int \<Rightarrow> int \<Rightarrow> int + int \<times> u8 list \<Rightarrow> bool" where
  "wfi_found c m offs lim r =
     (case r of Inl e \<Rightarrow> e \<le> 0 | Inr (p, _) \<Rightarrow> block_from m offs p \<and> p < lim \<and> jffs2_at c m p)"

lemma jffs2_find_from_sound:
  assumes run: "jffs2_find_from crc32 c junk m name lim offs v = Some r" and s: "mtd_sane m"
  shows "wfi_found c m offs lim r"
proof -
  have "mtd_sane m \<longrightarrow> block_from m offs p \<longrightarrow> wfi_found c m offs lim r"
    if "jffs2_find_from crc32 c junk m name lim p v = Some r" for p
  proof (rule jffs2_find_from.raw_induct [where P = "\<lambda>crc32 c junk m name lim p v r. mtd_sane m \<longrightarrow>
        block_from m offs p \<longrightarrow> wfi_found c m offs lim r", OF _ that], intro impI)
    fix rec crc32 c junk m name lim p v r
    assume IH: "\<And>crc32 c junk m name lim p v r. rec crc32 c junk m name lim p v = Some r \<Longrightarrow> mtd_sane m \<longrightarrow>
        block_from m offs p \<longrightarrow> wfi_found c m offs lim r"
      and eq: "(if p < lim then Option.bind (jffs2_block crc32 c junk m name p v) (\<lambda>r. case r of
            Next_block valid' \<Rightarrow> rec crc32 c junk m name lim (p + erasesize m) valid'
          | Found nm \<Rightarrow> Some (Inr (p, nm))
          | Fail e \<Rightarrow> Some (Inl e)) else Some (Inl (- ENOENT))) = Some r"
      and s: "mtd_sane m" and p: "block_from m offs p"
    show "wfi_found c m offs lim r"
    proof (cases "p < lim")
      case True
      then obtain b where b: "jffs2_block crc32 c junk m name p v = Some b" using eq by (auto simp: bind_eq_Some_conv)
      show ?thesis
      proof (cases b)
        case (Next_block v')
        then have "rec crc32 c junk m name lim (p + erasesize m) v' = Some r" using eq True b by simp
        then show ?thesis using IH s block_from_next [OF mtd_saneD(1) [OF s] p] by blast
      next
        case (Found nm)
        then have "r = Inr (p, nm)" using eq True b by simp
        then show ?thesis using True p jffs2_block_magic b Found by (simp add: wfi_found_def)
      next
        case (Fail x)
        then have "r = Inl x" using eq True b by simp
        then show ?thesis using jffs2_block_error [OF s] b Fail by (simp add: wfi_found_def)
      qed
    next
      case False
      then have "r = Inl (- ENOENT)" using eq by simp
      then show ?thesis by (simp add: wfi_found_def)
    qed
  qed
  from this [OF run] show ?thesis using s by simp
qed

lemma jffs2_find_file_sound:
  assumes "jffs2_find_file crc32 c junk m name offs sz = Some (Inr (o', nm))" "mtd_sane m"
  shows "block_from m offs o'" "o' < offs + sz" "jffs2_at c m o'"
  using jffs2_find_from_sound [OF assms(1) [unfolded jffs2_find_file_def] assms(2)] by (simp_all add: wfi_found_def)

lemma jffs2_find_file_error:
  assumes "jffs2_find_file crc32 c junk m name offs sz = Some (Inl e)" "mtd_sane m"
  shows "e \<le> 0"
  using jffs2_find_from_sound [OF assms(1) [unfolded jffs2_find_file_def] assms(2)] by (simp add: wfi_found_def)

lemma ubifs_find_sound:
  assumes run: "ubifs_find m offs sz = Some (Inr o')" and e: "0 < erasesize m"
  shows "block_from m offs o'" "o' < offs + sz" "\<exists>h. read_exact m o' 4 = Inr h \<and> rd32be h 0 = WFI_UBI_MAGIC"
proof -
  obtain rc where loop: "for_off (\<lambda>p. p + erasesize m) (offs + sz) (ubifs_body m) offs (- ENOENT) = Some (o', rc)"
    and rc: "rc = 0"
    using run by (auto simp: ubifs_find_def split: if_splits)
  have "(\<not> o' < offs + sz \<and> block_from m offs o' \<and> rc \<noteq> 0) \<or>
      (o' < offs + sz \<and> (\<exists>u. (block_from m offs o' \<and> u \<noteq> 0) \<and> ubifs_body m o' u = (rc, True)))"
  proof (rule for_off_inv [OF loop])
    fix p u u' assume "block_from m offs p \<and> u \<noteq> (0 :: int)" "ubifs_body m p u = (u', False)"
    then show "block_from m offs (p + erasesize m) \<and> u' \<noteq> 0"
      using block_from_next [OF e] by (auto simp: ubifs_body_def split: sum.splits if_splits)
  qed simp
  then obtain u where "o' < offs + sz" "block_from m offs o'" "u \<noteq> 0" "ubifs_body m o' u = (0, True)"
    using rc by auto
  then show "block_from m offs o'" "o' < offs + sz" "\<exists>h. read_exact m o' 4 = Inr h \<and> rd32be h 0 = WFI_UBI_MAGIC"
    by (cases "read_exact m o' 4"; simp add: ubifs_body_def split: if_splits)+
qed

text \<open>Steps that give their error to the parser.\<close>

lemma found_bindE:
  assumes "Option.bind x (\<lambda>r. case r of Inl e \<Rightarrow> Some (parse_error e) | Inr p \<Rightarrow> F p) = Some (n, Some ps)"
  obtains p where "x = Some (Inr p)" "F p = Some (n, Some ps)"
proof -
  obtain r where "x = Some r" using assms by (cases x) auto
  then show ?thesis using assms that by (cases r) auto
qed

lemma found_mapE:
  assumes "map_option (\<lambda>r. case r of Inl e \<Rightarrow> parse_error e | Inr p \<Rightarrow> F p) x = Some (n, Some ps)"
  obtains p where "x = Some (Inr p)" "F p = (n, Some ps)"
proof -
  obtain r where "x = Some r" using assms by (cases x) auto
  then show ?thesis using assms that by (cases r) auto
qed

lemma parse_bcm_wfi_parts:
  assumes s: "mtd_sane m"
    and run: "parse_bcm_wfi crc32 c junk alloc np m off sz cfe_part = Some (n, Some ps)"
  obtains cfe_off kernel_off rootfs_off where
    "ps = wfi_parts cfe_part off sz cfe_off kernel_off rootfs_off" "n = int (length ps)"
    "cfe_part \<Longrightarrow> block_from m off cfe_off \<and> cfe_off < kernel_off \<and> jffs2_at c m cfe_off"
    "block_from m off kernel_off" "jffs2_at c m kernel_off" "block_from m off rootfs_off"
    "kernel_off < rootfs_off" "rootfs_off < off + sz"
    "\<exists>h. read_exact m rootfs_off 4 = Inr h \<and> rd32be h 0 = WFI_UBI_MAGIC"
proof -
  note e = mtd_saneD(1) [OF s]
  define kf where "kf cfe_off = (if cfe_part then cfe_off + erasesize m else off)" for cfe_off
  obtain cfe_off nm0 where cfe0: "(if cfe_part then jffs2_find_file crc32 c junk m (cferam_prefix np) off sz
        else Some (Inr (off - erasesize m, []))) = Some (Inr (cfe_off, nm0))"
    and rest: "Option.bind (jffs2_find_file crc32 c junk m (cstr KERNEL_NAME) (kf cfe_off) (sz - (kf cfe_off - off)))
              (\<lambda>kernel. case kernel of
                 Inl e \<Rightarrow> Some (parse_error e)
               | Inr (kernel_off, _) \<Rightarrow>
                   let rootfs_from = kernel_off + erasesize m in
                   map_option (\<lambda>rootfs. case rootfs of
                       Inl e \<Rightarrow> parse_error e
                     | Inr rootfs_off \<Rightarrow>
                         give_parts alloc (wfi_parts cfe_part off sz cfe_off kernel_off rootfs_off))
                     (ubifs_find m rootfs_from (sz - (rootfs_from - off)))) = Some (n, Some ps)"
    using run unfolding parse_bcm_wfi_def kf_def [symmetric]
    by (elim found_bindE) (auto simp only: Let_def split: prod.splits)
  have cfe: "block_from m off cfe_off \<and> jffs2_at c m cfe_off" if cfe_part
    using cfe0 that jffs2_find_file_sound [OF _ s] by auto
  obtain kernel_off nm where kernel: "jffs2_find_file crc32 c junk m (cstr KERNEL_NAME) (kf cfe_off) (sz - (kf cfe_off - off)) =
      Some (Inr (kernel_off, nm))"
    and rest2: "map_option (\<lambda>rootfs. case rootfs of
                       Inl e \<Rightarrow> parse_error e
                     | Inr rootfs_off \<Rightarrow>
                         give_parts alloc (wfi_parts cfe_part off sz cfe_off kernel_off rootfs_off))
                     (ubifs_find m (kernel_off + erasesize m) (sz - (kernel_off + erasesize m - off))) = Some (n, Some ps)"
    using rest by (elim found_bindE) (auto simp only: Let_def split: prod.splits)
  obtain rootfs_off where rootfs: "ubifs_find m (kernel_off + erasesize m) (sz - (kernel_off + erasesize m - off)) = Some (Inr rootfs_off)"
    and ps: "give_parts alloc (wfi_parts cfe_part off sz cfe_off kernel_off rootfs_off) = (n, Some ps)"
    using rest2 by (elim found_mapE)
  note k = jffs2_find_file_sound [OF kernel s] and r = ubifs_find_sound [OF rootfs e]
  have kf: "block_from m off (kf cfe_off)"
    using cfe block_from_next [OF e] by (auto simp: kf_def)
  have trans: "block_from m a b \<Longrightarrow> block_from m b d \<Longrightarrow> block_from m a d" for a b d
    using dvd_add [of "erasesize m" "d - b" "b - a"] by (auto simp: block_from_def)
  show ?thesis
  proof (rule that)
    show "ps = wfi_parts cfe_part off sz cfe_off kernel_off rootfs_off" "n = int (length ps)"
      using ps by (auto simp: give_parts_def split: if_splits)
    show "block_from m off kernel_off" by (rule trans [OF kf k(1)])
    then show "block_from m off rootfs_off" using trans block_from_next [OF e] r(1) by blast
    show "kernel_off < rootfs_off" "rootfs_off < off + sz" using r e by (auto simp: block_from_def)
    show "cfe_part \<Longrightarrow> block_from m off cfe_off \<and> cfe_off < kernel_off \<and> jffs2_at c m cfe_off"
      using cfe k(1) e by (auto simp: kf_def block_from_def)
  qed (use k r in auto)
qed

section \<open>The searches end\<close>

text \<open>
  The entries of directories have a length, and one with which the offset of the next entry does not
  wrap around.
\<close>

definition jffs2_lengths_ok :: "(u32 \<Rightarrow> u8 list \<Rightarrow> u32) \<Rightarrow> cpu \<Rightarrow> (nat \<Rightarrow> u8) \<Rightarrow> mtd_info \<Rightarrow> bool" where
  "jffs2_lengths_ok crc32 c junk m \<longleftrightarrow>
     (\<forall>p buf k. mtd_rd m p (erasesize m) = (0, buf) \<and> k < length buf \<and> 4 dvd k \<and>
        jffs2_dirent_valid crc32 c (mem_view junk buf k jffs2_dirent_len) \<longrightarrow>
        0 < jd_totlen (jffs2_raw_dirent_of c (mem_view junk buf k jffs2_dirent_len) 0) \<and>
        k + unat (jd_totlen (jffs2_raw_dirent_of c (mem_view junk buf k jffs2_dirent_len) 0)) + 3 < 2 ^ 32)"

lemma unat_and_not_3: "unat (x :: u32) \<le> unat (x AND NOT 3) + 3"
proof -
  have "x = (x AND NOT 3) OR (x AND 3)" by (rule bit_word_eqI) (auto simp: bit_simps)
  also have "\<dots> = (x AND NOT 3) + (x AND 3)"
    by (rule disjunctive_add [symmetric]) (auto simp: bit_simps)
  finally have "unat x = unat ((x AND NOT 3) + (x AND 3))" by simp
  also have "\<dots> \<le> unat (x AND NOT 3) + unat (x AND 3)" by (simp add: unat_word_ariths(1))
  also have "unat (x AND 3) \<le> unat (3 :: u32)"
    using word_and_le1 [of x 3] word_and_le2 [of x 3] word_and_le2 [of 3 x] word_and_le1 [of 3 x] by (auto simp: word_le_nat_alt and.commute)
  finally show ?thesis by simp
qed

lemma four_dvd_and_not_3: "4 dvd unat ((x :: u32) AND NOT 3)"
proof -
  have "x AND NOT 3 = push_bit 2 (drop_bit 2 x)" using and_not_mask_push_drop [of x 2] by (simp add: mask_eq_exp_minus_1)
  then have "take_bit 2 (x AND NOT 3) = 0" by (simp add: take_bit_push_bit)
  then have "unat (x AND NOT 3) mod 2 ^ 2 = 0" by (metis unat_take_bit unsigned_0)
  then show ?thesis by (simp add: dvd_eq_mod_eq_0)
qed

lemma next_node_grows:
  assumes "0 < t" "unat k + unat t + 3 < 2 ^ 32"
  shows "unat k < unat (next_node k t)"
proof -
  have "unat (k + t) = unat k + unat t" using assms by (simp add: unat_word_ariths(1))
  then have "unat (k + t + 3) = unat k + unat t + 3" using assms by (simp add: unat_word_ariths(1))
  moreover have "0 < unat t" using assms(1) by (simp add: word_less_nat_alt)
  ultimately show ?thesis using unat_and_not_3 [of "k + t + 3"] unfolding next_node_def by linarith
qed

lemma jffs2_scan_block_returns:
  assumes ok: "jffs2_lengths_ok crc32 c junk m" "mtd_rd m p (erasesize m) = (0, buf)"
    and small: "length buf \<le> 2 ^ 31"
    and k: "4 dvd unat k"
  shows "jffs2_scan_block crc32 c junk buf name k v \<noteq> None"
  using k
proof (induction "length buf - unat k" arbitrary: k v rule: less_induct)
  case less
  let ?node = "mem_view junk buf (unat k) jffs2_dirent_len"
  let ?d = "jffs2_raw_dirent_of c ?node 0"
  show ?case
  proof (cases "unat k < length buf")
    case True
    have four: "unat (k + 4) = unat k + 4" using True small by (simp add: unat_word_ariths(1))
    have skip: "jffs2_scan_block crc32 c junk buf name (k + 4) v' \<noteq> None" for v'
      using less.hyps [of "k + 4"] less.prems True four by simp
    have nxt: "jffs2_scan_block crc32 c junk buf name (next_node k (jd_totlen ?d)) v' \<noteq> None"
      if "jffs2_dirent_valid crc32 c ?node" for v'
    proof -
      have "0 < jd_totlen ?d \<and> unat k + unat (jd_totlen ?d) + 3 < 2 ^ 32"
        using ok True that less.prems unfolding jffs2_lengths_ok_def by blast
      then have "unat k < unat (next_node k (jd_totlen ?d))" by (intro next_node_grows) auto
      moreover have "4 dvd unat (next_node k (jd_totlen ?d))" unfolding next_node_def by (rule four_dvd_and_not_3)
      ultimately show ?thesis using less.hyps True by simp
    qed
    show ?thesis using True skip nxt by (subst jffs2_scan_block.simps) (simp add: Let_def)
  qed (subst jffs2_scan_block.simps, simp)
qed

lemma jffs2_find_file_returns:
  assumes ok: "jffs2_lengths_ok crc32 c junk m" and e: "0 < erasesize m" "erasesize m \<le> 2 ^ 31"
  shows "jffs2_find_file crc32 c junk m name offs sz \<noteq> None"
proof -
  have block: "jffs2_block crc32 c junk m name p v \<noteq> None" for p v
  proof -
    obtain rc buf where r: "mtd_rd m p (erasesize m) = (rc, buf)" by fastforce
    then have "rc = 0 \<Longrightarrow> int (length buf) = erasesize m \<Longrightarrow> jffs2_scan_block crc32 c junk buf name 0 v \<noteq> None"
      using jffs2_scan_block_returns [OF ok, of p buf 0] e(2) by simp
    then show ?thesis using r by (simp add: jffs2_block_def split: sum.splits)
  qed
  have "jffs2_find_from crc32 c junk m name lim p v \<noteq> None" for lim p v
  proof (induction "nat (lim - p)" arbitrary: p v rule: less_induct)
    case less
    obtain b where b: "jffs2_block crc32 c junk m name p v = Some b" using block by blast
    have "jffs2_find_from crc32 c junk m name lim (p + erasesize m) v' \<noteq> None" if "p < lim" for v'
      using less.hyps [of "p + erasesize m"] that e(1) by simp
    then show ?case by (subst jffs2_find_from.simps) (simp add: b split: scan.splits)
  qed
  then show ?thesis by (simp add: jffs2_find_file_def)
qed

lemma for_blocks_return:
  assumes "0 < erasesize m"
  shows "for_off (\<lambda>p. p + erasesize m) lim body offs s \<noteq> None"
  using for_off_returns [of "\<lambda>_. True" offs lim "\<lambda>p. p + erasesize m" body s] assms by auto

lemma return_rules:
  "does_return x \<Longrightarrow> (\<And>y. does_return (F y)) \<Longrightarrow> does_return (Option.bind x F)"
  "does_return x \<Longrightarrow> does_return (map_option f x)"
  "(\<And>e. does_return (A e)) \<Longrightarrow> (\<And>p. does_return (B p)) \<Longrightarrow> does_return (case s of Inl e \<Rightarrow> A e | Inr p \<Rightarrow> B p)"
  "(\<And>a b. does_return (D a b)) \<Longrightarrow> does_return (case q of (a, b) \<Rightarrow> D a b)"
  "does_return x \<Longrightarrow> does_return y \<Longrightarrow> does_return (if P then x else y)"
  by (cases x; auto simp: does_return_def split: sum.split prod.split)+

lemma parse_bcm_wfi_returns:
  assumes "jffs2_lengths_ok crc32 c junk m" "0 < erasesize m" "erasesize m \<le> 2 ^ 31"
  shows "parse_bcm_wfi crc32 c junk alloc np m off sz cfe_part \<noteq> None"
proof -
  have find: "does_return (jffs2_find_file crc32 c junk m name offs sz)" for name offs sz
    using jffs2_find_file_returns [OF assms] by (simp add: does_return_def)
  have ubifs: "does_return (ubifs_find m offs sz)" for offs sz
    using for_blocks_return [OF assms(2)] by (simp add: ubifs_find_def does_return_def)
  have "does_return (parse_bcm_wfi crc32 c junk alloc np m off sz cfe_part)"
    unfolding parse_bcm_wfi_def Let_def by (intro does_return_Some return_rules find ubifs)
  then show ?thesis by (simp add: does_return_def)
qed

section \<open>What the parsers give\<close>

text \<open>
  The parsers of whole flash images return, when the directory entries on the device have a
  length and the last allocation succeeds.
\<close>
theorem wfi_parsers_return:
  assumes "jffs2_lengths_ok crc32 c (junk 0) m" "mtd_sane m" "erasesize m \<le> 2 ^ 31"
    and "mtd_sane d1" "mtd_sane d2" "al_final al"
  shows "does_return (mtdsplit_parse_bcm_wfi crc32 c (junk 0) allocs np m) \<and>
    does_return (mtdsplit_parse_bcm_wfi_split crc32 c junk al np m) \<and>
    does_return (snd (mtdsplit_parse_ser_wfi crc32 c (junk 0) al np (Some d1) (Some d2) m))"
proof -
  note e = mtd_saneD(1) [OF assms(2)]
  note find = jffs2_find_file_returns [OF assms(1) e assms(3), folded does_return_def]
  note image = parse_bcm_wfi_returns [OF assms(1) e assms(3), folded does_return_def]
  have finish: "does_return (wfi_finish (al_final al) m inactive r)" for inactive r
    using assms(6) by (simp add: wfi_finish_def Let_def split: prod.split)
  have flag: "\<exists>bf. sercomm_bootflag_value d = Some bf" if "mtd_sane d" for d
  proof -
    obtain x where "for_off (\<lambda>p. p + erasesize d) (mtd_size d) (sercomm_body d) 0 (- ENOENT) = Some x"
      using for_blocks_return [OF mtd_saneD(1) [OF \<open>mtd_sane d\<close>], of "mtd_size d" "sercomm_body d" 0 "- ENOENT"] by blast
    then show ?thesis by (simp add: sercomm_bootflag_value_def)
  qed
  obtain bf1 bf2 where "sercomm_bootflag_value d1 = Some bf1" "sercomm_bootflag_value d2 = Some bf2"
    using flag assms(4,5) by blast
  then have "does_return (snd (mtdsplit_parse_ser_wfi crc32 c (junk 0) al np (Some d1) (Some d2) m))"
    using return_rules(1) [OF image finish]
    by (simp add: mtdsplit_parse_ser_wfi_def Let_def split: prod.split)
  moreover have "does_return (mtdsplit_parse_bcm_wfi crc32 c (junk 0) allocs np m)"
    using image by (simp add: mtdsplit_parse_bcm_wfi_def split: option.split)
  moreover have "does_return (mtdsplit_parse_bcm_wfi_split crc32 c junk al np m)"
    unfolding mtdsplit_parse_bcm_wfi_split_def Let_def
    by (intro does_return_Some return_rules find image finish)
  ultimately show ?thesis by simp
qed


text \<open>The two images of a device, and the parts that the split of one of them gives.\<close>

definition wfi_image :: "mtd_info \<Rightarrow> bool \<Rightarrow> mtd_part" where
  "wfi_image m first =
     (if first then mk_part ''img1'' 0 (mtd_size m div 2)
      else mk_part ''img2'' (mtd_size m div 2) (mtd_size m - mtd_size m div 2))"

definition inside :: "mtd_part \<Rightarrow> mtd_part \<Rightarrow> bool" where
  "inside img p \<longleftrightarrow> p_off img \<le> p_off p \<and> 0 < p_len p \<and> p_off p + p_len p \<le> p_off img + p_len img"

lemma wfi_parts_inside:
  assumes "mtd_sane m" "parse_bcm_wfi crc32 c junk alloc np m off sz cfe_part = Some (n, Some ps)"
  shows "n = (if cfe_part then 4 else 3)" "length ps = (if cfe_part then 4 else 3)"
    "\<forall>p\<in>set ps. off \<le> p_off p \<and> 0 < p_len p \<and> p_off p + p_len p \<le> off + sz"
  by (rule parse_bcm_wfi_parts [OF assms];
      cases cfe_part; force simp: wfi_parts_def block_from_def)+


lemma error_bind:
  assumes "Option.bind x (\<lambda>r. case r of Inl e \<Rightarrow> Some (parse_error e) | Inr p \<Rightarrow> F p) = Some (n, None)"
    "\<And>e. x = Some (Inl e) \<Longrightarrow> e \<le> 0" "\<And>p. F p = Some (n, None) \<Longrightarrow> n \<le> 0"
  shows "n \<le> 0"
proof -
  obtain r where "x = Some r" using assms(1) by (cases x) auto
  then show ?thesis using assms by (cases r) auto
qed

lemma error_map:
  assumes "map_option (\<lambda>r. case r of Inl e \<Rightarrow> parse_error e | Inr p \<Rightarrow> F p) x = Some (n, None)"
    "\<And>e. x = Some (Inl e) \<Longrightarrow> e \<le> 0" "\<And>p. F p = (n, None) \<Longrightarrow> n \<le> 0"
  shows "n \<le> 0"
proof -
  obtain r where "x = Some r" using assms(1) by (cases x) auto
  then show ?thesis using assms by (cases r) auto
qed

lemma parse_bcm_wfi_none:
  assumes s: "mtd_sane m" and run: "parse_bcm_wfi crc32 c junk alloc np m off sz cfe_part = Some (n, None)"
  shows "n \<le> 0"
proof -
  have find: "e \<le> 0" if "jffs2_find_file crc32 c junk m name offs sz = Some (Inl e)" for name offs sz e
    using jffs2_find_file_error [OF that s] .
  have ubi: "e \<le> 0" if run: "ubifs_find m offs sz = Some (Inl e)" for offs sz e
  proof -
    obtain o' where loop: "for_off (\<lambda>p. p + erasesize m) (offs + sz) (ubifs_body m) offs (- ENOENT) = Some (o', e)"
      using run by (auto simp: ubifs_find_def split: if_splits)
    have "(\<not> o' < offs + sz \<and> e \<le> 0) \<or> (o' < offs + sz \<and> (\<exists>u. u \<le> 0 \<and> ubifs_body m o' u = (e, True)))"
      by (rule for_off_inv [OF loop, of "\<lambda>_ u. u \<le> 0"]) (auto simp: ubifs_body_def split: sum.splits if_splits)
    then show ?thesis by (cases "read_exact m o' 4") (auto simp: ubifs_body_def split: if_splits)
  qed
  have start: "e \<le> 0" if "(if cfe_part then jffs2_find_file crc32 c junk m (cferam_prefix np) off sz
        else Some (Inr (off - erasesize m, []))) = Some (Inl e)" for e
    using that find by (auto split: if_splits)
  have give: "give_parts alloc ps = (n, None) \<Longrightarrow> n \<le> 0" for ps
    by (auto simp: give_parts_def split: if_splits)
  show ?thesis
    using run unfolding parse_bcm_wfi_def Let_def
    by (rule error_bind)
      (erule start, simp only: split_beta, erule error_bind, erule find, simp only: split_beta,
        erule error_map, erule ubi, erule give)
qed

lemma bind_SomeE:
  assumes "Option.bind x F = Some y"
  obtains z where "x = Some z" "F z = Some y"
  using assms by (cases x) auto

text \<open>The two results that both parsers can have.\<close>

definition image_outcome :: "mtd_info \<Rightarrow> nat \<Rightarrow> bool \<Rightarrow> int \<Rightarrow> mtd_part list \<Rightarrow> bool" where
  "image_outcome m k first n ps \<longleftrightarrow>
     (\<exists>qs. n = int k + 1 \<and> length qs = k \<and> ps = qs @ [wfi_image m (\<not> first)] \<and> list_all (inside (wfi_image m first)) qs) \<or>
     (n \<le> 0 \<and> ps = [wfi_image m True, wfi_image m False])"

lemma wfi_finish_outcome:
  assumes s: "mtd_sane m"
    and choice: "wfi_choose m bf1 bf2 = ((ao, asz), inactive)"
    and bind: "Option.bind (parse_bcm_wfi crc32 c junk alloc np m ao asz cfe_part) (wfi_finish True m inactive) = Some (n, Some ps)"
  shows "image_outcome m (if cfe_part then 4 else 3) (bf1 \<ge> bf2) n ps"
proof -
  obtain io isz nm where inactive: "inactive = ((io, isz), nm)" by (metis prod.exhaust)
  have img: "mk_part nm io isz = wfi_image m (\<not> bf1 \<ge> bf2)" "ao = p_off (wfi_image m (bf1 \<ge> bf2))"
    "asz = p_len (wfi_image m (bf1 \<ge> bf2))"
    using choice by (auto simp: wfi_choose_def Let_def wfi_image_def inactive split: if_splits)
  obtain r pp where image: "parse_bcm_wfi crc32 c junk alloc np m ao asz cfe_part = Some (r, pp)"
    and fin: "wfi_finish True m ((io, isz), nm) (r, pp) = Some (n, Some ps)"
    using bind by (cases "parse_bcm_wfi crc32 c junk alloc np m ao asz cfe_part") (auto simp: inactive)
  show ?thesis
  proof (cases "r > 0")
    case True
    have "pp \<noteq> None" using parse_bcm_wfi_none [OF s, of crc32 c junk alloc np ao asz cfe_part r] image True by auto
    then obtain qs where qs: "pp = Some qs" by blast
    note parts = wfi_parts_inside [OF s image [unfolded qs]]
    have "list_all (inside (wfi_image m (bf1 \<ge> bf2))) qs"
      using parts(3) img(2,3) by (auto simp: list_all_iff inside_def)
    moreover have "n = r + 1" "ps = qs @ [wfi_image m (\<not> bf1 \<ge> bf2)]"
      using fin True parts(1,2) img(1) by (auto simp: wfi_finish_def Let_def qs split: if_splits)
    ultimately show ?thesis using parts(1,2) by (auto simp: image_outcome_def)
  next
    case False
    then show ?thesis using fin by (auto simp: wfi_finish_def Let_def wfi_image_def image_outcome_def)
  qed
qed

text \<open>
  The parser for two images gives one of two results. It gives the four parts of the one image
  and, behind them, the other image whole; or it sets the partitions of the two images and returns
  an error number or 0 with them.
\<close>
theorem wfi_two_images:
  assumes s: "mtd_sane m" and al: "al_final al"
    and run: "mtdsplit_parse_bcm_wfi_split crc32 c junk al np m = Some (n, Some ps)"
  shows "(\<exists>first qs. n = 5 \<and> length qs = 4 \<and> ps = qs @ [wfi_image m (\<not> first)] \<and> list_all (inside (wfi_image m first)) qs) \<or>
    (n \<le> 0 \<and> ps = [wfi_image m True, wfi_image m False])"
proof -
  have buf: "al_buf al"
    using run by (cases "al_buf al") (simp_all add: mtdsplit_parse_bcm_wfi_split_def)
  obtain bf1 bf2 where "(case wfi_choose m bf1 bf2 of ((ao, asz), inactive) \<Rightarrow>
      Option.bind (parse_bcm_wfi crc32 c (junk 0) (al_parts al) np m ao asz True) (wfi_finish True m inactive)) = Some (n, Some ps)"
    using run al buf unfolding mtdsplit_parse_bcm_wfi_split_def Let_def
    by (simp only: not_True_eq_False if_False eqTrueI) (erule bind_SomeE, erule bind_SomeE, blast)
  moreover obtain ao asz inactive where choice: "wfi_choose m bf1 bf2 = ((ao, asz), inactive)" by (metis prod.exhaust)
  ultimately have bind: "Option.bind (parse_bcm_wfi crc32 c (junk 0) (al_parts al) np m ao asz True) (wfi_finish True m inactive) =
      Some (n, Some ps)" by simp
  show ?thesis using wfi_finish_outcome [OF s choice bind] by (auto simp: image_outcome_def)
qed

text \<open>
  The parser with boot flags on devices of their own takes the second image when its flag is the
  greater one, and appends the other one. Equal flags are resolved in favour of the first image, and
  the second flag is erased.
\<close>
theorem ser_wfi_active:
  assumes s: "mtd_sane m" and al: "al_buf al" "al_final al"
    and bf: "sercomm_bootflag_value d1 = Some bf1" "sercomm_bootflag_value d2 = Some bf2"
    and run: "mtdsplit_parse_ser_wfi crc32 c junk al np (Some d1) (Some d2) m = (erased, Some (n, Some ps))" and n: "0 < n"
  shows "erased = (if bf1 = bf2 \<and> 0 \<le> bf1 then [(0, mtd_size d2)] else []) \<and>
    (\<exists>qs. n = 4 \<and> length qs = 3 \<and> ps = qs @ [wfi_image m (bf1 < bf2)] \<and>
      list_all (inside (wfi_image m (\<not> bf1 < bf2))) qs)"
proof -
  define bf2' where "bf2' = (if bf1 = bf2 \<and> bf2 \<ge> 0 then - ENOENT else bf2)"
  obtain ao asz inactive where choice: "wfi_choose m bf1 bf2' = ((ao, asz), inactive)" by (metis prod.exhaust)
  have bind: "Option.bind (parse_bcm_wfi crc32 c junk (al_parts al) np m ao asz False) (wfi_finish True m inactive) = Some (n, Some ps)"
    and er: "erased = (if bf1 = bf2 \<and> bf2 \<ge> 0 then [(0, mtd_size d2)] else [])"
    using run al bf choice [unfolded bf2'_def] unfolding mtdsplit_parse_ser_wfi_def Let_def by simp_all
  have "(bf1 \<ge> bf2') = (\<not> bf1 < bf2)" by (auto simp: bf2'_def)
  then show ?thesis using wfi_finish_outcome [OF s choice bind] n er by (auto simp: image_outcome_def)
qed

section \<open>A device with two images\<close>

text \<open>
  A directory entry of 52 bytes for a processor with the low byte first, a block with the entry for
  OpenWrt and that of a file, and an image of three blocks: boot loader, kernel and UBI.
\<close>

definition wfi_entry :: "string \<Rightarrow> u8 list" where
  "wfi_entry nm = [0x85, 0x19, 0x01, 0xe0, 52, 0, 0, 0] @ replicate 12 0 @ [1, 0, 0, 0, 0, 0, 0, 0] @
     [of_nat (length nm), 0, 0, 0] @ replicate 8 0 @ cstr nm @ replicate (12 - length nm) 0"

definition wfi_block :: "string \<Rightarrow> u8 list" where
  "wfi_block nm = wfi_entry ''1-openwrt'' @ wfi_entry nm @ replicate 24 0xff"

definition wfi_image_bytes :: "string \<Rightarrow> u8 list" where
  "wfi_image_bytes cferam = wfi_block cferam @ wfi_block ''vmlinux.lz'' @ [0x55, 0x42, 0x49, 0x23] @ replicate 124 0"

definition wfi_flash :: mtd_info where
  "wfi_flash = flash ''nand'' 128 (wfi_image_bytes ''cferam.000'' @ wfi_image_bytes ''cferam.001'')"

lemma length_wfi_entry: "length nm \<le> 12 \<Longrightarrow> length (wfi_entry nm) = 52"
  by (simp add: wfi_entry_def)

lemma wfi_flash_sane: "mtd_sane wfi_flash" "mtd_size wfi_flash = 768"
  by (simp_all add: wfi_flash_def wfi_image_bytes_def wfi_block_def length_wfi_entry mtd_sane_flash)

abbreviation (input) no_crc :: "u32 \<Rightarrow> u8 list \<Rightarrow> u32" where "no_crc \<equiv> \<lambda>_ _. 0"


definition all_allocs :: wfi_allocs where
  "all_allocs = \<lparr>al_buf = True, al_name1 = True, al_name2 = True, al_parts = True, al_final = True\<rparr>"

theorem wfi_two_images_witness:
  "mtdsplit_parse_bcm_wfi_split no_crc cpu_le32 (\<lambda>_ _. 0) all_allocs None wfi_flash =
     Some (5, Some [(mk_part ''cferam'' 384 128) \<lparr>p_mask := MTD_WRITEABLE\<rparr>, mk_part ''firmware'' 512 256,
       mk_part ''kernel'' 512 128, mk_part ''ubi'' 640 128, mk_part ''img1'' 0 384]) \<and>
   mk_part ''img1'' 0 384 = wfi_image wfi_flash True"
proof -
  have run: "mtdsplit_parse_bcm_wfi_split no_crc cpu_le32 (\<lambda>_ _. 0) all_allocs None wfi_flash =
     Some (5, Some [(mk_part ''cferam'' 384 128) \<lparr>p_mask := MTD_WRITEABLE\<rparr>, mk_part ''firmware'' 512 256,
       mk_part ''kernel'' 512 128, mk_part ''ubi'' 640 128, mk_part ''img1'' 0 384])" by code_simp
  have "al_final all_allocs" by (simp add: all_allocs_def)
  from wfi_two_images [OF wfi_flash_sane(1) this run] run show ?thesis
    by (auto simp: wfi_image_def wfi_flash_sane)
qed

definition bootflag :: "string \<Rightarrow> mtd_info" where
  "bootflag value = flash ''bootflag'' 16 (cstr ''eRcOmM.'' @ cstr value @ replicate 6 0)"

theorem ser_wfi_active_witness:
  "mtdsplit_parse_ser_wfi no_crc cpu_le32 (\<lambda>_. 0) all_allocs None (Some (bootflag ''001'')) (Some (bootflag ''001'')) wfi_flash =
     ([(0, 16)], Some (4, Some [mk_part ''firmware'' 128 256, mk_part ''kernel'' 128 128, mk_part ''ubi'' 256 128,
       mk_part ''img2'' 384 384])) \<and>
   mk_part ''img2'' 384 384 = wfi_image wfi_flash False"
proof -
  have run: "mtdsplit_parse_ser_wfi no_crc cpu_le32 (\<lambda>_. 0) all_allocs None (Some (bootflag ''001'')) (Some (bootflag ''001'')) wfi_flash =
     ([(0, 16)], Some (4, Some [mk_part ''firmware'' 128 256, mk_part ''kernel'' 128 128, mk_part ''ubi'' 256 128,
       mk_part ''img2'' 384 384]))" by code_simp
  have bf: "sercomm_bootflag_value (bootflag ''001'') = Some 1" by code_simp
  have al: "al_buf all_allocs" "al_final all_allocs" by (simp_all add: all_allocs_def)
  from ser_wfi_active [OF wfi_flash_sane(1) al bf bf run] run show ?thesis
    by (auto simp: wfi_image_def wfi_flash_sane)
qed

text \<open>A device of one block, with the entry of a kernel.\<close>

definition wfi_small_block :: "u8 list" where
  "wfi_small_block = wfi_entry ''vmlinux.lz'' @ replicate 12 0xff"

definition wfi_small :: mtd_info where
  "wfi_small = flash ''nand'' 64 wfi_small_block"

lemma wfi_small_lengths: "jffs2_lengths_ok no_crc cpu_le32 (\<lambda>_. 0) wfi_small"
proof -
  let ?view = "\<lambda>k. mem_view (\<lambda>_. 0) wfi_small_block k jffs2_dirent_len"
  let ?len = "\<lambda>k. jd_totlen (jffs2_raw_dirent_of cpu_le32 (?view k) 0)"
  have "list_all (\<lambda>i. if jffs2_dirent_valid no_crc cpu_le32 (?view (4 * i)) then 0 < ?len (4 * i) \<and> ?len (4 * i) < 100
      else True) [0..<16]" by code_simp
  then have ok: "0 < ?len k \<and> ?len k < 100" if "4 dvd k" "k < 64" "jffs2_dirent_valid no_crc cpu_le32 (?view k)" for k
    using that by (auto simp: dvd_def list_all_iff split: if_splits)
  have len: "length wfi_small_block = 64" by (simp add: wfi_small_block_def length_wfi_entry)
  have buf: "buf = wfi_small_block" if "mtd_rd wfi_small p 64 = (0, buf)" for p buf
    using that len by (auto simp: wfi_small_def flash_def split: if_splits)
  show ?thesis unfolding jffs2_lengths_ok_def
  proof (intro allI impI, elim conjE)
    fix p buf k
    assume rd: "mtd_rd wfi_small p (erasesize wfi_small) = (0, buf)" and k: "k < length buf" "4 dvd k"
      and v: "jffs2_dirent_valid no_crc cpu_le32 (mem_view (\<lambda>_. 0) buf k jffs2_dirent_len)"
    have b: "buf = wfi_small_block" using buf rd by (simp add: wfi_small_def)
    from ok [OF k(2) _ v [unfolded b]] k(1) len show
      "0 < jd_totlen (jffs2_raw_dirent_of cpu_le32 (mem_view (\<lambda>_. 0) buf k jffs2_dirent_len) 0) \<and>
       k + unat (jd_totlen (jffs2_raw_dirent_of cpu_le32 (mem_view (\<lambda>_. 0) buf k jffs2_dirent_len) 0)) + 3 < 2 ^ 32"
      by (auto simp: b word_less_nat_alt)
  qed
qed

theorem wfi_parsers_return_witness:
  "does_return (mtdsplit_parse_bcm_wfi no_crc cpu_le32 (\<lambda>_. 0) (True, True) None wfi_small) \<and>
   does_return (mtdsplit_parse_bcm_wfi_split no_crc cpu_le32 (\<lambda>_ _. 0) all_allocs None wfi_small)"
proof -
  have sane: "mtd_sane wfi_small" "mtd_sane (bootflag ''000'')" "erasesize wfi_small \<le> 2 ^ 31"
    by (simp_all add: wfi_small_def bootflag_def wfi_small_block_def length_wfi_entry mtd_sane_flash)
  have "al_final all_allocs" by (simp add: all_allocs_def)
  from wfi_parsers_return [where junk = "\<lambda>_ _. 0", OF wfi_small_lengths sane(1,3,2,2) this] show ?thesis by blast
qed

end
