(* ===== verification/Mtdsplit_Fit.thy ===== *)
theory Mtdsplit_Fit
  imports Mtdsplit_Fixed
begin

text \<open>
  The parser for FIT images, \<^verbatim>\<open>mtdsplit/mtdsplit_fit.c\<close>: a flattened device tree is looked for at the
  erase blocks; behind a large one the root file system is searched, in a small one the ends of the
  images that it describes are computed, and what is behind them becomes the partition for the data.

  The functions of \<open>libfdt\<close> are parameters. A property is given by its place in the tree and its length.
  \<open>None\<close> is a run that does not return, or that writes outside a buffer.
\<close>

section \<open>The data of an image\<close>

record libfdt =
  fdt_getprop :: "u8 list \<Rightarrow> int \<Rightarrow> string \<Rightarrow> (nat \<times> int) option"
  fdt_path_offset :: "u8 list \<Rightarrow> string \<Rightarrow> int"
  fdt_next_node :: "u8 list \<Rightarrow> int \<Rightarrow> int \<Rightarrow> int \<times> int"
  fdt_totalsize :: "u8 list \<Rightarrow> u32"

text \<open>\<open>*data\<close>, relative to the start of the tree, and \<open>*size\<close>.\<close>

definition fit_image_get_data :: "cpu \<Rightarrow> libfdt \<Rightarrow> u8 list \<Rightarrow> int \<Rightarrow> int + int \<times> int" where
  "fit_image_get_data c fdt fit noffset =
     (case fdt_getprop fdt fit noffset ''data'' of
        None \<Rightarrow> Inl (- 1)
      | Some (pos, len) \<Rightarrow> Inr (int pos, szt c len))"

text \<open>The four bytes of a property are read also when it is shorter.\<close>

definition fit_cell :: "libfdt \<Rightarrow> (nat \<Rightarrow> u8) \<Rightarrow> string \<Rightarrow> u8 list \<Rightarrow> int \<Rightarrow> int + int" where
  "fit_cell fdt junk name fit noffset =
     (case fdt_getprop fdt fit noffset name of
        None \<Rightarrow> Inl (- ENOENT)
      | Some (pos, _) \<Rightarrow> Inr (sint (rd32be (mem_view junk fit pos 4) 0)))"

definition fit_image_get_data_offset :: "libfdt \<Rightarrow> (nat \<Rightarrow> u8) \<Rightarrow> u8 list \<Rightarrow> int \<Rightarrow> int + int" where
  "fit_image_get_data_offset fdt junk fit noffset = fit_cell fdt junk ''data-offset'' fit noffset"

definition fit_image_get_data_position :: "libfdt \<Rightarrow> (nat \<Rightarrow> u8) \<Rightarrow> u8 list \<Rightarrow> int \<Rightarrow> int + int" where
  "fit_image_get_data_position fdt junk fit noffset = fit_cell fdt junk ''data-position'' fit noffset"

definition fit_image_get_data_size :: "libfdt \<Rightarrow> (nat \<Rightarrow> u8) \<Rightarrow> u8 list \<Rightarrow> int \<Rightarrow> int + int" where
  "fit_image_get_data_size fdt junk fit noffset = fit_cell fdt junk ''data-size'' fit noffset"

text \<open>\<open>offset += (fdt_totalsize(fit) + 3) & ~3\<close> is computed without a sign, and stored in an \<open>int\<close>.\<close>

definition fit_external_base :: "libfdt \<Rightarrow> u8 list \<Rightarrow> int \<Rightarrow> int" where
  "fit_external_base fdt fit offset = sint32 (offset + uint ((fdt_totalsize fdt fit + 3) AND NOT 3))"

definition fit_image_get_data_and_size ::
  "cpu \<Rightarrow> libfdt \<Rightarrow> (nat \<Rightarrow> u8) \<Rightarrow> u8 list \<Rightarrow> int \<Rightarrow> int + int \<times> int" where
  "fit_image_get_data_and_size c fdt junk fit noffset =
     (let external = (\<lambda>offset. case fit_image_get_data_size fdt junk fit noffset of
            Inl e \<Rightarrow> Inl e
          | Inr len \<Rightarrow> Inr (offset, szt c len)) in
      case fit_image_get_data_position fdt junk fit noffset of
        Inr offset \<Rightarrow> external offset
      | Inl _ \<Rightarrow>
          (case fit_image_get_data_offset fdt junk fit noffset of
             Inr offset \<Rightarrow> external (fit_external_base fdt fit offset)
           | Inl _ \<Rightarrow> fit_image_get_data c fdt fit noffset))"

text \<open>\<open>img_total\<close>: the end of the data of an image, relative to the start of the tree.\<close>

definition fit_img_total :: "cpu \<Rightarrow> libfdt \<Rightarrow> (nat \<Rightarrow> u8) \<Rightarrow> u8 list \<Rightarrow> int \<Rightarrow> int option" where
  "fit_img_total c fdt junk fit noffset =
     (case fit_image_get_data_and_size c fdt junk fit noffset of
        Inl _ \<Rightarrow> None
      | Inr (img_data, data_size) \<Rightarrow> Some (szt c (data_size + img_data)))"

text \<open>
  The loop over the nodes behind \<^verbatim>\<open>/images\<close>: the largest end of the images, the nodes at depth 1,
  or \<open>Some None\<close> when the data of one of them cannot be found.
\<close>

partial_function (option) fit_max_size ::
  "cpu \<Rightarrow> libfdt \<Rightarrow> (nat \<Rightarrow> u8) \<Rightarrow> u8 list \<Rightarrow> int \<times> int \<Rightarrow> int \<Rightarrow> int option option" where
  "fit_max_size c fdt junk fit node max_size =
     (case node of
        (noffset, ndepth) \<Rightarrow>
          if noffset \<ge> 0 \<and> ndepth > 0 then
            if ndepth = 1 then
              case fit_img_total c fdt junk fit noffset of
                None \<Rightarrow> Some None
              | Some img_total \<Rightarrow>
                  fit_max_size c fdt junk fit (fdt_next_node fdt fit noffset ndepth) (max max_size img_total)
            else fit_max_size c fdt junk fit (fdt_next_node fdt fit noffset ndepth) max_size
          else Some (Some max_size))"

declare fit_max_size.simps [code]

section \<open>The parser\<close>

abbreviation fdt_header_len :: nat where "fdt_header_len \<equiv> 40"
abbreviation (input) OF_DT_HEADER :: u32 where "OF_DT_HEADER \<equiv> 0xd00dfeed"

text \<open>The properties of the node of the device: \<^verbatim>\<open>openwrt,cmdline-match\<close> and \<^verbatim>\<open>openwrt,fit-offset\<close>.\<close>

record fit_node =
  cmdline_match :: "string option"
  fit_offset_prop :: "u32 option"

definition strstr :: "string \<Rightarrow> string \<Rightarrow> bool" where
  "strstr hay needle = list_ex (\<lambda>i. take (length needle) (drop i hay) = needle) [0..<Suc (length hay)]"

text \<open>
  The search. The variable of the loop is the header that was read last, at first what the stack
  holds, or the error; the loop is left when the next header would not lie in the device.
\<close>

definition fit_body ::
  "cpu \<Rightarrow> mtd_info \<Rightarrow> int \<Rightarrow> int \<Rightarrow> int + u8 list \<Rightarrow> (int + u8 list) \<times> bool" where
  "fit_body c m offset_start offset s =
     (if szt c (offset + int fdt_header_len) \<le> mtd_size m then
        case read_exact m (szt c (offset + offset_start)) fdt_header_len of
          Inl e \<Rightarrow> (Inl e, True)
        | Inr hdr \<Rightarrow> (Inr hdr, rd32be hdr 0 = OF_DT_HEADER)
      else (s, True))"

definition fit_search :: "cpu \<Rightarrow> mtd_info \<Rightarrow> int \<Rightarrow> u8 list \<Rightarrow> (int \<times> (int + u8 list)) option" where
  "fit_search c m offset_start hdr0 =
     for_off (\<lambda>p. szt c (p + erasesize m)) (2 ^ long_bits c) (fit_body c m offset_start) 0 (Inr hdr0)"

definition fit_large :: "cpu \<Rightarrow> bool \<Rightarrow> mtd_info \<Rightarrow> int \<Rightarrow> int \<Rightarrow> int \<Rightarrow> parsed option" where
  "fit_large c alloc m offset_start fit_offset fit_size =
     with_rootfs (mtd_find_rootfs_from c m (szt c (fit_offset + fit_size + offset_start)) (szt c (mtd_size m)))
       (\<lambda>rootfs_offset t.
          give_parts alloc
            [mk_part KERNEL_PART_NAME fit_offset (mtd_roundup_to_eb (szt c (fit_size + offset_start)) m),
             mk_part (rootfs_name t) rootfs_offset (szt c (mtd_size m - rootfs_offset))])"

text \<open>
  The buffer has the size that the header gives, and the read the offset more. Fewer bytes than
  asked for leave the rest of the buffer zero.
\<close>

definition fit_small ::
  "cpu \<Rightarrow> libfdt \<Rightarrow> (nat \<Rightarrow> u8) \<Rightarrow> bool \<times> bool \<Rightarrow> mtd_info \<Rightarrow> int \<Rightarrow> int \<Rightarrow> int \<Rightarrow> parsed option" where
  "fit_small c fdt junk allocs m offset_start fit_offset fit_size =
     (case mtd_rd m fit_offset (szt c (fit_size + offset_start)) of
        (ret, d) \<Rightarrow>
          if (\<not> fst allocs \<and> (ret = 0 \<or> d \<noteq> [])) \<or> int (length d) > fit_size then None
          else if ret \<noteq> 0 then Some (parse_error ret)
          else
            let fit = d @ replicate (nat fit_size - length d) 0;
                images_noffset = fdt_path_offset fdt fit ''/images'' in
            if images_noffset < 0 then Some (parse_error (- ENOENT))
            else
              map_option (\<lambda>total. case total of
                  None \<Rightarrow> parse_error 0
                | Some max_size \<Rightarrow>
                    let off = wrap64 (fit_offset + mtd_roundup_to_eb max_size m) in
                    give_parts (snd allocs) [mk_part ROOTFS_SPLIT_NAME off (wrap64 (mtd_size m - off))])
                (fit_max_size c fdt junk fit (fdt_next_node fdt fit images_noffset 0) 0))"

definition mtdsplit_fit_parse ::
  "cpu \<Rightarrow> libfdt \<Rightarrow> (nat \<Rightarrow> u8) \<Rightarrow> u8 list \<Rightarrow> bool \<times> bool \<Rightarrow> string \<Rightarrow> fit_node \<Rightarrow> mtd_info \<Rightarrow> parsed option" where
  "mtdsplit_fit_parse c fdt junk hdr0 allocs saved_command_line np m =
     (if (case cmdline_match np of None \<Rightarrow> False | Some s \<Rightarrow> \<not> strstr saved_command_line s) then
        Some (parse_error (- ENOENT))
      else
        let offset_start = (case fit_offset_prop np of None \<Rightarrow> 0 | Some v \<Rightarrow> uint v) in
        Option.bind (fit_search c m offset_start hdr0) (\<lambda>(fit_offset, found).
          case found of
            Inl e \<Rightarrow> Some (parse_error e)
          | Inr hdr \<Rightarrow>
              let fit_size = uint (rd32be hdr 4) in
              if fit_size = 0 then Some (parse_error (- ENOENT))
              else if fit_size > 0x80000 then fit_large c (snd allocs) m offset_start fit_offset fit_size
              else fit_small c fdt junk allocs m offset_start fit_offset fit_size))"

section \<open>The ends of the images\<close>

text \<open>The nodes that the loop visits.\<close>

inductive fit_visits :: "libfdt \<Rightarrow> u8 list \<Rightarrow> int \<times> int \<Rightarrow> int \<times> int \<Rightarrow> bool"
  for fdt fit where
  visit: "0 \<le> noffset \<Longrightarrow> 0 < ndepth \<Longrightarrow> fit_visits fdt fit (noffset, ndepth) (noffset, ndepth)"
| later: "0 \<le> noffset \<Longrightarrow> 0 < ndepth \<Longrightarrow> fit_visits fdt fit (fdt_next_node fdt fit noffset ndepth) node
    \<Longrightarrow> fit_visits fdt fit (noffset, ndepth) node"

inductive_simps fit_visits_simps: "fit_visits fdt fit (noffset, ndepth) node"

lemma fit_max_size_spec:
  assumes "fit_max_size c fdt junk fit node ms = Some (Some r)"
  shows "ms \<le> r \<and> (\<forall>n. fit_visits fdt fit node (n, 1) \<longrightarrow> (\<exists>t. fit_img_total c fdt junk fit n = Some t \<and> t \<le> r)) \<and>
    (r = ms \<or> (\<exists>n. fit_visits fdt fit node (n, 1) \<and> fit_img_total c fdt junk fit n = Some r))"
proof -
  define Q where "Q c fdt junk fit node ms r \<longleftrightarrow> ms \<le> r \<and>
    (\<forall>n. fit_visits fdt fit node (n, 1) \<longrightarrow> (\<exists>t. fit_img_total c fdt junk fit n = Some t \<and> t \<le> r)) \<and>
    (r = ms \<or> (\<exists>n. fit_visits fdt fit node (n, 1) \<and> fit_img_total c fdt junk fit n = Some r))" for c fdt junk fit node ms r
  have "\<forall>x. r' = Some x \<longrightarrow> Q c fdt junk fit node ms x" if "fit_max_size c fdt junk fit node ms = Some r'" for r'
  proof (rule fit_max_size.raw_induct
      [where P = "\<lambda>c fdt junk fit node ms r. \<forall>x. r = Some x \<longrightarrow> Q c fdt junk fit node ms x", OF _ that], intro allI impI)
    fix rec c fdt junk fit node ms r x
    assume IH: "\<And>c fdt junk fit node ms r. rec c fdt junk fit node ms = Some r \<Longrightarrow> \<forall>x. r = Some x \<longrightarrow> Q c fdt junk fit node ms x"
      and eq: "(case node of (noffset, ndepth) \<Rightarrow>
          if noffset \<ge> 0 \<and> ndepth > 0 then
            if ndepth = 1 then
              case fit_img_total c fdt junk fit noffset of
                None \<Rightarrow> Some None
              | Some img_total \<Rightarrow> rec c fdt junk fit (fdt_next_node fdt fit noffset ndepth) (max ms img_total)
            else rec c fdt junk fit (fdt_next_node fdt fit noffset ndepth) ms
          else Some (Some ms)) = Some r" and r: "r = Some x"
    obtain noffset ndepth where node: "node = (noffset, ndepth)" by fastforce
    show "Q c fdt junk fit node ms x"
    proof (cases "noffset \<ge> 0 \<and> ndepth > 0")
      case guard: True
      show ?thesis
      proof (cases "ndepth = 1")
        case True
        then obtain t where t: "fit_img_total c fdt junk fit noffset = Some t"
          and "rec c fdt junk fit (fdt_next_node fdt fit noffset 1) (max ms t) = Some r"
          using eq guard r by (auto simp: node split: option.splits)
        then have q: "Q c fdt junk fit (fdt_next_node fdt fit noffset 1) (max ms t) x" using IH r by blast
        have v: "fit_visits fdt fit (noffset, 1) n \<longleftrightarrow> n = (noffset, 1) \<or> fit_visits fdt fit (fdt_next_node fdt fit noffset 1) n" for n
          using guard True by (subst fit_visits_simps) auto
        show ?thesis using q t unfolding Q_def node True v by (auto simp: max_def split: if_splits)
      next
        case False
        then have "rec c fdt junk fit (fdt_next_node fdt fit noffset ndepth) ms = Some r" using eq guard by (simp add: node)
        then have q: "Q c fdt junk fit (fdt_next_node fdt fit noffset ndepth) ms x" using IH r by blast
        have v: "fit_visits fdt fit (noffset, ndepth) n \<longleftrightarrow> n = (noffset, ndepth) \<or>
            fit_visits fdt fit (fdt_next_node fdt fit noffset ndepth) n" for n
          using guard by (subst fit_visits_simps) auto
        show ?thesis using q False unfolding Q_def node v by auto
      qed
    next
      case False
      then have "x = ms" using eq r by (simp add: node if_not_P [OF False])
      moreover have "\<not> fit_visits fdt fit (noffset, ndepth) n" for n
        using False by (subst fit_visits_simps) auto
      ultimately show ?thesis by (simp add: Q_def node)
    qed
  qed
  then show ?thesis using assms unfolding Q_def by blast
qed


section \<open>The search for the tree\<close>

lemma for_off_returns_or_leaves:
  assumes "P off"
    and step: "\<And>p s. P p \<Longrightarrow> p < lim \<Longrightarrow> snd (body p s) \<or> (p < nxt p \<and> P (nxt p))"
  shows "\<exists>o' t. for_off nxt lim body off s = Some (o', t)"
  using assms(1)
proof (induction "nat (lim - off)" arbitrary: off s rule: less_induct)
  case less
  show ?case
  proof (cases "off < lim")
    case True
    obtain s' leave where b: "body off s = (s', leave)" by fastforce
    show ?thesis
    proof (cases leave)
      case False
      then have "off < nxt off" "P (nxt off)" using step [OF less.prems True, of s] b by auto
      then have "\<exists>o' t. for_off nxt lim body (nxt off) s' = Some (o', t)"
        using less.hyps [of "nxt off" s'] True by simp
      then show ?thesis using True b False by (simp add: for_off_next)
    qed (use True b in \<open>simp add: for_off_leave\<close>)
  qed (simp add: for_off_end)
qed

text \<open>The header at a block, and whether it is that of a tree.\<close>

definition fit_header :: "cpu \<Rightarrow> mtd_info \<Rightarrow> int \<Rightarrow> int \<Rightarrow> int + u8 list" where
  "fit_header c m offset_start p = read_exact m (szt c (p + offset_start)) fdt_header_len"

definition no_tree_before :: "cpu \<Rightarrow> mtd_info \<Rightarrow> int \<Rightarrow> int \<Rightarrow> bool" where
  "no_tree_before c m offset_start off \<longleftrightarrow>
     (\<forall>p. 0 \<le> p \<and> p < off \<and> erasesize m dvd p \<longrightarrow>
        (\<exists>h. fit_header c m offset_start p = Inr h \<and> rd32be h 0 \<noteq> OF_DT_HEADER))"

definition fit_searchable :: "cpu \<Rightarrow> mtd_info \<Rightarrow> bool" where
  "fit_searchable c m \<longleftrightarrow> mtd_sane m \<and> 32 \<le> long_bits c \<and> mtd_size m + erasesize m + 40 \<le> 2 ^ 32"

text \<open>
  The search for a FIT image ends: with the error of a read, with the first erase block that has the
  magic number of a device tree, or, when there is none, behind the last block. The parser then goes on
  with the header it read last.
\<close>
theorem fit_search_first:
  assumes s: "fit_searchable c m"
  shows "\<exists>off r. fit_search c m offset_start hdr0 = Some (off, r) \<and> 0 \<le> off \<and> erasesize m dvd off \<and>
    no_tree_before c m offset_start off \<and>
    (case r of
       Inl e \<Rightarrow> fit_header c m offset_start off = Inl e
     | Inr hdr \<Rightarrow>
         (off + 40 \<le> mtd_size m \<and> fit_header c m offset_start off = Inr hdr \<and> rd32be hdr 0 = 0xd00dfeed) \<or>
         (mtd_size m < off + 40 \<and>
          (if off = 0 then hdr = hdr0 else fit_header c m offset_start (off - erasesize m) = Inr hdr)))"
proof -
  let ?e = "erasesize m" and ?body = "fit_body c m offset_start" and ?nxt = "\<lambda>p. szt c (p + erasesize m)"
  have m: "0 < ?e" "0 \<le> mtd_size m" "32 \<le> long_bits c" "mtd_size m + ?e + 40 \<le> 2 ^ 32"
    using s mtd_saneD(1,2) by (auto simp: fit_searchable_def)
  have lim: "(2 :: int) ^ 32 \<le> 2 ^ long_bits c" using m(3) by (rule power_increasing) simp
  let ?P = "\<lambda>p. 0 \<le> p \<and> ?e dvd p \<and> p < mtd_size m + ?e"
  have fit: "szt c (p + 40) = p + 40" if "?P p" for p using that m by (intro szt_small) auto
  have nxt: "?nxt p = p + ?e" "?P (p + ?e)" if "?P p" "szt c (p + 40) \<le> mtd_size m" for p
    using that fit [OF that(1)] m by (auto intro!: szt_small)
  have "snd (?body p t) \<or> (p < ?nxt p \<and> ?P (?nxt p))" if "?P p" for p t
    using nxt [OF that] m(1) by (auto simp: fit_body_def)
  then obtain off r where run: "for_off ?nxt (2 ^ long_bits c) ?body 0 (Inr hdr0) = Some (off, r)"
    using for_off_returns_or_leaves [of ?P 0 "2 ^ long_bits c" ?body ?nxt "Inr hdr0"] m(1,2) by auto
  let ?last = "\<lambda>p u. case u of Inl _ \<Rightarrow> False | Inr hdr \<Rightarrow> if p = 0 then hdr = hdr0 else fit_header c m offset_start (p - ?e) = Inr hdr"
  let ?I = "\<lambda>p u. ?P p \<and> no_tree_before c m offset_start p \<and> ?last p u"
  have "(\<not> off < 2 ^ long_bits c \<and> ?I off r) \<or> (off < 2 ^ long_bits c \<and> (\<exists>u. ?I off u \<and> ?body off u = (r, True)))"
  proof (rule for_off_inv [OF run])
    show "?I 0 (Inr hdr0)" using m by (auto simp: no_tree_before_def)
  next
    fix p u u' assume I: "?I p u" and b: "?body p u = (u', False)"
    then have le: "szt c (p + 40) \<le> mtd_size m" by (auto simp: fit_body_def split: if_splits)
    obtain h where h: "fit_header c m offset_start p = Inr h" "u' = Inr h" "rd32be h 0 \<noteq> OF_DT_HEADER"
      using b le by (auto simp: fit_body_def fit_header_def split: sum.splits)
    have "no_tree_before c m offset_start (p + ?e)"
      unfolding no_tree_before_def
    proof (intro allI impI, elim conjE)
      fix q assume q: "0 \<le> q" "q < p + ?e" "?e dvd q"
      show "\<exists>h. fit_header c m offset_start q = Inr h \<and> rd32be h 0 \<noteq> OF_DT_HEADER"
      proof (cases "q < p")
        case True
        then show ?thesis using I q unfolding no_tree_before_def by blast
      next
        case False
        have "?e dvd q - p" using q(3) I by (intro dvd_diff) auto
        then have "q = p" using False q(2) m(1) zdvd_imp_le [of ?e "q - p"] by fastforce
        then show ?thesis using h by blast
      qed
    qed
    then show "?I (?nxt p) u'" using nxt [OF _ le] I h m(1) by auto
  qed
  moreover have "off < 2 ^ long_bits c" if "?P off" using that m lim by linarith
  ultimately obtain u where I: "?I off u" and b: "?body off u = (r, True)" by blast
  have "case r of
       Inl e \<Rightarrow> fit_header c m offset_start off = Inl e
     | Inr hdr \<Rightarrow>
         (off + 40 \<le> mtd_size m \<and> fit_header c m offset_start off = Inr hdr \<and> rd32be hdr 0 = 0xd00dfeed) \<or>
         (mtd_size m < off + 40 \<and> ?last off r)"
    using b I fit [of off] by (cases "off + 40 \<le> mtd_size m") (auto simp: fit_body_def fit_header_def split: sum.splits)
  then show ?thesis using run I unfolding fit_search_def
    by (intro exI [of _ off] exI [of _ r]) (auto split: sum.splits)
qed

section \<open>The split\<close>

definition fit_node_plain :: "fit_node \<Rightarrow> int \<Rightarrow> bool" where
  "fit_node_plain np offset_start \<longleftrightarrow>
     cmdline_match np = None \<and> offset_start = (case fit_offset_prop np of None \<Rightarrow> 0 | Some v \<Rightarrow> uint v)"

lemma fit_parse_small:
  assumes "fit_node_plain np offset_start" "fit_search c m offset_start hdr0 = Some (fit_offset, Inr hdr)"
    "fit_size = uint (rd32be hdr 4)" "fit_size \<noteq> 0" "fit_size \<le> 0x80000"
  shows "mtdsplit_fit_parse c fdt junk hdr0 allocs cl np m = fit_small c fdt junk allocs m offset_start fit_offset fit_size"
  using assms by (simp add: mtdsplit_fit_parse_def fit_node_plain_def Let_def)

text \<open>
  C14. When a small tree can be read and its images end in the device, the partition for the data
  starts at the first erase block, counted from the tree, behind all images that the parser visits.
\<close>
theorem fit_data_behind_images:
  assumes s: "searchable c m" and np: "fit_node_plain np offset_start"
    and found: "fit_search c m offset_start hdr0 = Some (fit_offset, Inr hdr)" "0 \<le> fit_offset"
    and fs: "fit_size = uint (rd32be hdr 4)" "fit_size \<noteq> 0" "fit_size \<le> 0x80000"
    and tree: "mtd_rd m fit_offset (szt c (fit_size + offset_start)) = (0, tree)" "int (length tree) = fit_size"
    and run: "mtdsplit_fit_parse c fdt junk hdr0 allocs cl np m = Some (1, Some ps)"
    and inside: "\<forall>n t. fit_img_total c fdt junk tree n = Some t \<longrightarrow> fit_offset + t \<le> mtd_size m"
  shows "\<exists>lim off. ps = [mk_part ''rootfs_data'' off (wrap64 (mtd_size m - off))] \<and>
    fit_offset + lim \<le> off \<and> off < fit_offset + lim + erasesize m \<and> erasesize m dvd off - fit_offset \<and>
    (\<forall>n. fit_visits fdt tree (fdt_next_node fdt tree (fdt_path_offset fdt tree ''/images'') 0) (n, 1) \<longrightarrow>
      (\<exists>t. fit_img_total c fdt junk tree n = Some t \<and> t \<le> lim))"
proof -
  note m = searchableD [OF s]
  let ?first = "fdt_next_node fdt tree (fdt_path_offset fdt tree ''/images'') 0"
  have "fit_small c fdt junk allocs m offset_start fit_offset fit_size = Some (1, Some ps)"
    using run fit_parse_small [OF np found(1) fs] by simp
  then obtain r where r: "fit_max_size c fdt junk tree ?first 0 = Some (Some r)"
    and ps: "give_parts (snd allocs) [mk_part ROOTFS_SPLIT_NAME (wrap64 (fit_offset + mtd_roundup_to_eb r m))
      (wrap64 (mtd_size m - wrap64 (fit_offset + mtd_roundup_to_eb r m)))] = (1, Some ps)"
    using tree by (auto simp: fit_small_def Let_def split: if_splits option.splits)
  note spec = fit_max_size_spec [OF r]
  have "0 \<le> r" using spec by simp
  have size: "fit_offset + r \<le> mtd_size m \<or> r = 0" using spec inside by auto
  have "fit_offset \<le> mtd_size m" using mtd_saneD(6) [OF m(1) tree(1)] szt_nonneg [of c] by (smt (verit))
  then have le: "fit_offset + r \<le> mtd_size m" using size by auto
  let ?R = "mtd_roundup_to_eb r m"
  have R: "?R = (r + (erasesize m - 1)) div erasesize m * erasesize m"
    using \<open>0 \<le> r\<close> le found(2) m by (intro mtd_roundup_to_eb_small) auto
  note bounds = roundup_bounds [OF m(4), of r, folded R]
  have off: "wrap64 (fit_offset + ?R) = fit_offset + ?R"
    using bounds(1,2) \<open>0 \<le> r\<close> le found(2) m(3) by (intro wrap64_small) auto
  have "ps = [mk_part ''rootfs_data'' (fit_offset + ?R) (wrap64 (mtd_size m - (fit_offset + ?R)))]"
    using ps off by (auto simp: give_parts_def split: if_splits)
  then show ?thesis using spec bounds
    by (intro exI [of _ r] exI [of _ "fit_offset + ?R"]) auto
qed

text \<open>
  With an offset for the tree in the device tree, a small tree is read with as many bytes more as
  the offset, into a buffer of the size of the tree: the read writes behind the buffer.
\<close>
theorem fit_offset_overflows_buffer:
  assumes "fit_node_plain np offset_start" "0 < offset_start"
    and "fit_search c m offset_start hdr0 = Some (fit_offset, Inr hdr)"
    and "fit_size = uint (rd32be hdr 4)" "fit_size \<noteq> 0" "fit_size \<le> 0x80000"
    and "mtd_rd m fit_offset (szt c (fit_size + offset_start)) = (0, d)" "int (length d) = szt c (fit_size + offset_start)"
    and "fit_size + offset_start < 2 ^ 32" "32 \<le> long_bits c"
  shows "mtdsplit_fit_parse c fdt junk hdr0 allocs cl np m = None"
proof -
  have "szt c (fit_size + offset_start) = fit_size + offset_start" using assms(2,4,9,10) by (intro szt_small) auto
  then show ?thesis using assms fit_parse_small [OF assms(1,3-6)] by (simp add: fit_small_def)
qed

section \<open>A tree with one image\<close>

text \<open>
  A tree of 56 bytes in the second of four erase blocks, and the functions of \<open>libfdt\<close> on it: there is one
  image, of 20 bytes, behind the tree.
\<close>

definition fit_tree :: "u8 list" where
  "fit_tree = [0xd0, 0x0d, 0xfe, 0xed, 0, 0, 0, 56] @ replicate 32 0 @ [0, 0, 0, 56, 0, 0, 0, 20] @ replicate 8 0"

definition fit_flash :: mtd_info where
  "fit_flash = flash ''firmware'' 64 (replicate 64 0 @ fit_tree @ replicate 136 0xff)"

definition fit_demo :: libfdt where
  "fit_demo = \<lparr>fdt_getprop = (\<lambda>fit n name. if name = ''data-position'' then Some (40, 4)
       else if name = ''data-size'' then Some (44, 4) else None),
     fdt_path_offset = (\<lambda>fit path. if path = ''/images'' then 8 else - 1),
     fdt_next_node = (\<lambda>fit n d. if n = 8 then (16, d + 1) else (- 1, d)),
     fdt_totalsize = (\<lambda>fit. rd32be fit 4)\<rparr>"

definition plain_node :: fit_node where
  "plain_node = \<lparr>cmdline_match = None, fit_offset_prop = None\<rparr>"

definition offset_node :: fit_node where
  "offset_node = \<lparr>cmdline_match = None, fit_offset_prop = Some 64\<rparr>"

lemma fit_flash_size: "searchable cpu_le32 fit_flash" "fit_searchable cpu_le32 fit_flash" "mtd_size fit_flash = 256"
  "erasesize fit_flash = 64"
  by (simp_all add: fit_flash_def fit_tree_def searchable_def fit_searchable_def mtd_sane_flash)

theorem fit_search_first_witness:
  "fit_search cpu_le32 fit_flash 0 [] = Some (64, Inr (take 40 fit_tree)) \<and> no_tree_before cpu_le32 fit_flash 0 64"
proof -
  have "fit_search cpu_le32 fit_flash 0 [] = Some (64, Inr (take 40 fit_tree))" by code_simp
  then show ?thesis using fit_search_first [OF fit_flash_size(2), of 0 "[]"] by auto
qed

theorem fit_data_behind_images_witness:
  "mtdsplit_fit_parse cpu_le32 fit_demo (\<lambda>_. 0) [] (True, True) [] plain_node fit_flash =
     Some (1, Some [mk_part ''rootfs_data'' 192 64]) \<and>
   (\<exists>lim off. mk_part ''rootfs_data'' 192 64 = mk_part ''rootfs_data'' off (wrap64 (256 - off)) \<and>
     64 + lim \<le> off \<and> 64 dvd off - 64)"
proof -
  have run: "mtdsplit_fit_parse cpu_le32 fit_demo (\<lambda>_. 0) [] (True, True) [] plain_node fit_flash =
     Some (1, Some [mk_part ''rootfs_data'' 192 64])" by code_simp
  have found: "fit_search cpu_le32 fit_flash 0 [] = Some (64, Inr (take 40 fit_tree))" by code_simp
  have np: "fit_node_plain plain_node 0" by (simp add: fit_node_plain_def plain_node_def)
  have fs: "56 = uint (rd32be (take 40 fit_tree) 4)" by code_simp
  have tree: "mtd_rd fit_flash 64 (szt cpu_le32 (56 + 0)) = (0, fit_tree)" "int (length fit_tree) = 56" by code_simp+
  have total: "fit_img_total cpu_le32 fit_demo (\<lambda>_. 0) fit_tree n = Some 76" for n
    by (rule trans [of _ "fit_img_total cpu_le32 fit_demo (\<lambda>_. 0) fit_tree 16"])
      (simp add: fit_img_total_def fit_image_get_data_and_size_def fit_image_get_data_position_def
        fit_image_get_data_size_def fit_cell_def fit_demo_def, code_simp)
  have "\<forall>n t. fit_img_total cpu_le32 fit_demo (\<lambda>_. 0) fit_tree n = Some t \<longrightarrow> 64 + t \<le> mtd_size fit_flash"
    using total by (simp add: fit_flash_size)
  from fit_data_behind_images [OF fit_flash_size(1) np found _ fs _ _ tree run this] run show ?thesis
    by (simp add: fit_flash_size) blast
qed

theorem fit_offset_overflows_buffer_witness:
  "mtdsplit_fit_parse cpu_le32 fit_demo (\<lambda>_. 0) [] (True, True) [] offset_node fit_flash = None"
proof -
  have np: "fit_node_plain offset_node 64" by (simp add: fit_node_plain_def offset_node_def)
  have found: "fit_search cpu_le32 fit_flash 64 [] = Some (0, Inr (take 40 fit_tree))" by code_simp
  have fs: "56 = uint (rd32be (take 40 fit_tree) 4)" by code_simp
  have rd: "mtd_rd fit_flash 0 (szt cpu_le32 (56 + 64)) = (0, replicate 64 0 @ fit_tree)" by code_simp
  have len: "int (length (replicate 64 0 @ fit_tree)) = szt cpu_le32 (56 + 64)" by code_simp
  show ?thesis by (rule fit_offset_overflows_buffer [OF np _ found fs _ _ rd len]) auto
qed

end
