(* ===== verification/C_Strings.thy ===== *)
theory C_Strings
  imports Le_Bytes
begin

text \<open>
  C strings in memory, the functions of the C library on them that the modelled code uses, and the
  format \<^verbatim>\<open>name=value\<close> in which boot loaders keep their variables. A string as a value is the list of its
  bytes without the zero; \<open>None\<close> is a read behind the memory that the model knows.
\<close>

section \<open>Strings in a buffer\<close>

text \<open>
  \<open>strchr\<close> and \<open>strlen\<close> of the string at the start of a buffer, and whether \<open>strcmp\<close> with a string
  gives 0. They do not stop at the end of the buffer.
\<close>

primrec strchr_in :: "u8 list \<Rightarrow> u8 \<Rightarrow> nat option option" where
  "strchr_in [] ch = None"
| "strchr_in (x # xs) ch =
     (if x = ch then Some (Some 0) else if x = 0 then Some None
      else map_option (map_option Suc) (strchr_in xs ch))"

primrec strlen_in :: "u8 list \<Rightarrow> nat option" where
  "strlen_in [] = None"
| "strlen_in (x # xs) = (if x = 0 then Some 0 else map_option Suc (strlen_in xs))"

fun strcmp_in :: "u8 list \<Rightarrow> u8 list \<Rightarrow> bool option" where
  "strcmp_in ds [] = None"
| "strcmp_in [] (x # xs) = Some (x = 0)"
| "strcmp_in (d # ds) (x # xs) = (if d = x then strcmp_in ds xs else Some False)"

section \<open>Variables\<close>

text \<open>Variables as the boot loader writes them: the name, the sign of equality, the value, and a zero.\<close>

definition env_var :: "u8 list \<times> u8 list \<Rightarrow> u8 list" where
  "env_var kv = fst kv @ of_char CHR ''='' # snd kv @ [0]"

definition env_var_ok :: "u8 list \<times> u8 list \<Rightarrow> bool" where
  "env_var_ok kv \<longleftrightarrow> 0 \<notin> set (fst kv) \<and> of_char CHR ''='' \<notin> set (fst kv) \<and> 0 \<notin> set (snd kv)"

lemma strchr_in_append: "ch \<notin> set k \<Longrightarrow> 0 \<notin> set k \<Longrightarrow> strchr_in (k @ ch # rest) ch = Some (Some (length k))"
  by (induction k) auto

lemma strlen_in_append: "0 \<notin> set v \<Longrightarrow> strlen_in (v @ 0 # rest) = Some (length v)"
  by (induction v) auto

lemma strcmp_in_append: "0 \<notin> set ds \<Longrightarrow> 0 \<notin> set v \<Longrightarrow> strcmp_in ds (v @ 0 # rest) = Some (ds = v)"
proof (induction ds arbitrary: v)
  case Nil
  then show ?case by (cases v) auto
next
  case (Cons d ds)
  then show ?case by (cases v) auto
qed


section \<open>Numbers\<close>

text \<open>\<^verbatim>\<open>%0nX\<close> of a number below \<open>16 ^ n\<close>: its \<open>n\<close> hexadecimal digits.\<close>

definition hex_digit :: "int \<Rightarrow> u8" where
  "hex_digit d = of_int (if d < 10 then 48 + d else 55 + d)"

primrec hex_digits :: "nat \<Rightarrow> int \<Rightarrow> u8 list" where
  "hex_digits 0 v = []"
| "hex_digits (Suc n) v = hex_digits n (v div 16) @ [hex_digit (v mod 16)]"

text \<open>The value of a byte as a digit, in the bases up to 16.\<close>

definition digit_value :: "u8 \<Rightarrow> int option" where
  "digit_value ch =
     (let x = uint ch
      in if 48 \<le> x \<and> x \<le> 57 then Some (x - 48)
         else if 65 \<le> x \<and> x \<le> 70 then Some (x - 55)
         else if 97 \<le> x \<and> x \<le> 102 then Some (x - 87)
         else None)"

fun read_digits :: "int \<Rightarrow> int \<Rightarrow> u8 list \<Rightarrow> int" where
  "read_digits base acc [] = acc"
| "read_digits base acc (x # xs) =
     (case digit_value x of
        Some d \<Rightarrow> if d < base then read_digits base (base * acc + d) xs else acc
      | None \<Rightarrow> acc)"

text \<open>
  \<open>strtoul\<close> with base 0 and an \<open>unsigned long\<close> of 32 bits: white space, a sign, the prefix that gives the
  base, digits. A number that is too large gives \<open>ULONG_MAX\<close>.
\<close>

definition is_space :: "u8 \<Rightarrow> bool" where
  "is_space ch \<longleftrightarrow> ch = 32 \<or> 9 \<le> ch \<and> ch \<le> 13"

definition strtoul_digits :: "u8 list \<Rightarrow> int" where
  "strtoul_digits xs =
     (case xs of
        d # x # ys \<Rightarrow>
          if d = 48 \<and> (x = of_char CHR ''x'' \<or> x = of_char CHR ''X'') then read_digits 16 0 ys
          else if d = 48 then read_digits 8 0 xs else read_digits 10 0 xs
      | _ \<Rightarrow> read_digits 10 0 xs)"

definition strtoul :: "u8 list \<Rightarrow> u32" where
  "strtoul s =
     (let xs = dropWhile is_space s;
          neg = (case xs of [] \<Rightarrow> False | x # _ \<Rightarrow> x = of_char CHR ''-'');
          ys = (case xs of [] \<Rightarrow> [] | x # zs \<Rightarrow> if x = of_char CHR ''-'' \<or> x = of_char CHR ''+'' then zs else xs);
          n = strtoul_digits ys
      in if 2 ^ 32 \<le> n then - 1 else if neg then - of_int n else of_int n)"

text \<open>The digits that are printed are the ones that are read.\<close>

lemma digit_value_hex:
  assumes "0 \<le> d" "d < 16"
  shows "digit_value (hex_digit d) = Some d"
proof -
  have "\<forall>d \<in> set [0..15]. digit_value (hex_digit d) = Some d" by code_simp
  then show ?thesis using assms by simp
qed

lemma read_digits_append:
  "(\<forall>x \<in> set xs. \<exists>d < base. digit_value x = Some d) \<Longrightarrow>
   read_digits base acc (xs @ ys) = read_digits base (read_digits base acc xs) ys"
  by (induction xs arbitrary: acc) auto

lemma hex_digits_are_digits: "x \<in> set (hex_digits n v) \<Longrightarrow> \<exists>d < 16. digit_value x = Some d"
  by (induction n arbitrary: v) (auto simp: digit_value_hex)

lemma read_hex_digits:
  "0 \<le> v \<Longrightarrow> v < 16 ^ n \<Longrightarrow> read_digits 16 acc (hex_digits n v) = 16 ^ n * acc + v"
proof (induction n arbitrary: v)
  case 0
  then show ?case by simp
next
  case (Suc n)
  then have "0 \<le> v div 16" "v div 16 < 16 ^ n" by auto
  then have "read_digits 16 acc (hex_digits n (v div 16)) = 16 ^ n * acc + v div 16" by (rule Suc.IH)
  then show ?case
    using read_digits_append [of "hex_digits n (v div 16)" 16 acc "[hex_digit (v mod 16)]"] hex_digits_are_digits
    by (simp add: digit_value_hex distrib_left)
qed

lemma strtoul_hex:
  assumes "0 \<le> v" "v < 16 ^ n" "n \<le> 8"
  shows "strtoul (cstr ''0x'' @ hex_digits n v) = of_int v"
proof -
  have "v < 16 ^ 8" using assms power_increasing [of n 8 "16 :: int"] by linarith
  then show ?thesis
    using read_hex_digits [OF assms(1,2), of 0]
    by (simp add: strtoul_def strtoul_digits_def is_space_def)
qed

lemma hex_digits_printable: "x \<in> set (hex_digits n v) \<Longrightarrow> x \<noteq> 0 \<and> x \<noteq> of_char CHR ''=''"
  using hex_digits_are_digits [of x n v] by (auto simp: digit_value_def)

lemma length_hex_digits [simp]: "length (hex_digits n v) = n"
  by (induction n arbitrary: v) auto

end
