(* ===== verification/Mtdsplit_Boot.thy ===== *)
theory Mtdsplit_Boot
  imports Mtdsplit_Fixed C_Strings
begin

text \<open>
  The parsers that split the device only when it is the one that was booted: SEIL
  (\<^verbatim>\<open>mtdsplit/mtdsplit_seil.c\<close>), which reads the environment of the boot loader, and MSTC
  (\<^verbatim>\<open>mtdsplit/mtdsplit_mstc_boot.c\<close>), which reads a number from a partition.

  What the device tree gives is a parameter: a value, or the error number of the access to the
  property. The memory of the environment ends with the device; \<open>None\<close> is an access behind it.
\<close>

section \<open>SEIL: the environment\<close>

text \<open>The loop over the variables; its variable is the rest of the buffer from \<open>var\<close> on.\<close>

function env_bootdev_is :: "u8 list \<Rightarrow> u8 list \<Rightarrow> bool option" where
  "env_bootdev_is devnm xs =
     (if xs = [] \<or> hd xs = 0 then Some False
      else
        case strchr_in xs (of_char CHR ''='') of
          None \<Rightarrow> None
        | Some None \<Rightarrow> Some False
        | Some (Some eq) \<Rightarrow>
            let value = drop (eq + 1) xs in
            if take eq xs = cstr ''BOOTDEV'' then strcmp_in devnm value
            else
              case strlen_in value of
                None \<Rightarrow> None
              | Some n \<Rightarrow> env_bootdev_is devnm (drop (n + 1) value))"
  by pat_completeness auto

termination by (relation "measure (\<lambda>(_, xs). length xs)") auto

declare env_bootdev_is.simps [simp del]

text \<open>
  The name of the boot device in the device tree, the device with the environment, and the memory for it;
  \<open>- EINVAL\<close> is the error of a property that does not exist.
\<close>

definition seil_bootdev_is_active :: "int + u8 list \<Rightarrow> mtd_info option \<Rightarrow> bool \<Rightarrow> bool option" where
  "seil_bootdev_is_active devnm env alloc =
     (case devnm of
        Inl e \<Rightarrow> Some (e = - EINVAL)
      | Inr nm \<Rightarrow>
          (case env of
             None \<Rightarrow> Some False
           | Some env_mtd \<Rightarrow>
               if \<not> alloc then Some False
               else
                 (case mtd_rd env_mtd 0 (mtd_size env_mtd) of
                    (ret, buf) \<Rightarrow>
                      if ret \<noteq> 0 \<or> int (length buf) \<noteq> mtd_size env_mtd then Some False
                      else env_bootdev_is nm buf)))"

section \<open>SEIL: the image\<close>

record seil_header =
  sh_id :: u64
  sh_copy :: "u8 list"
  sh_dcrc :: u32
  sh_vfmt :: u32
  sh_vmjr :: u32
  sh_vmnr :: u32
  sh_vrel :: "u8 list"
  sh_dxor :: u32
  sh_dlen :: u32

definition seil_header_of :: "u8 list \<Rightarrow> seil_header" where
  "seil_header_of h = \<lparr>sh_id = rd64be h 0, sh_copy = rd_bytes h 8 80, sh_dcrc = rd32be h 88, sh_vfmt = rd32be h 92,
     sh_vmjr = rd32be h 96, sh_vmnr = rd32be h 100, sh_vrel = rd_bytes h 104 32, sh_dxor = rd32be h 136,
     sh_dlen = rd32be h 140\<rparr>"

abbreviation (input) seil_hdr_len :: nat where "seil_hdr_len \<equiv> 144"

definition mtdsplit_parse_seil_fw ::
  "cpu \<Rightarrow> bool \<times> bool \<Rightarrow> int + u8 list \<Rightarrow> mtd_info option \<Rightarrow> int + u64 \<Rightarrow> mtd_info \<Rightarrow> parsed option" where
  "mtdsplit_parse_seil_fw c allocs devnm env seil_id m =
     Option.bind (seil_bootdev_is_active devnm env (fst allocs)) (\<lambda>active.
       if \<not> active then Some (parse_error (- ENOENT))
       else
         case seil_id of
           Inl e \<Rightarrow> Some (parse_error e)
         | Inr i \<Rightarrow>
             if \<not> snd allocs then Some (parse_error (- ENOMEM))
             else
               with_header m 0 seil_hdr_len (\<lambda>hdr.
                 let h = seil_header_of hdr;
                     image_size = szt c (int seil_hdr_len + uint (sh_dlen h)) in
                 if sh_id h \<noteq> i \<or> sh_vfmt h \<noteq> 1 then Some (parse_error (- ENOENT))
                 else if image_size > mtd_size m then Some (parse_error (- EINVAL))
                 else
                   map_option (\<lambda>r. case r of
                       Inl e \<Rightarrow> parse_error (- ENOENT)
                     | Inr (off, t) \<Rightarrow>
                         if wrap64 (mtd_size m - off) = 0 then parse_error (- ENOENT)
                         else give_parts True
                           [mk_part KERNEL_PART_NAME 0 off, mk_part ROOTFS_PART_NAME off (wrap64 (mtd_size m - off))])
                     (mtd_find_rootfs_from c m image_size (szt c (mtd_size m)))))"

section \<open>MSTC\<close>

abbreviation (input) ENODATA :: int where "ENODATA \<equiv> 61"

text \<open>
  The node of the device: \<^verbatim>\<open>mstc,bootnum\<close>; the node that \<^verbatim>\<open>mstc,persist\<close> refers to, if any: whether it has the
  same parent, and its \<^verbatim>\<open>reg\<close>; and the children.
\<close>

record mstc_child =
  mc_addr_cells :: int
  mc_size_cells :: int
  mc_reg :: "int + u32 \<times> u32"
  mc_label_base :: "int + string"

record mstc_node =
  mn_bootnum :: "int + u32"
  mn_persist :: "(bool \<times> (int + u32)) option"
  mn_children :: "mstc_child list"

definition mstcboot_is_active :: "mstc_node \<Rightarrow> mtd_info \<Rightarrow> int + int \<times> u32" where
  "mstcboot_is_active np parent =
     (case mn_bootnum np of
        Inl e \<Rightarrow> Inl e
      | Inr bootnum_dt \<Rightarrow>
          (case mn_persist np of
             None \<Rightarrow> Inl (- ENODATA)
           | Some (same_parent, reg) \<Rightarrow>
               if \<not> same_parent then Inl (- EINVAL)
               else
                 (case reg of
                    Inl e \<Rightarrow> Inl e
                  | Inr persist_offset \<Rightarrow>
                      (case read_exact parent (uint (persist_offset + 4)) 1 of
                         Inl e \<Rightarrow> Inl e
                       | Inr bootnum \<Rightarrow> Inr (if uint (bootnum ! 0) = uint bootnum_dt then 1 else 0, bootnum_dt)))))"

definition mstcboot_parse_image_parts :: "cpu \<Rightarrow> bool \<Rightarrow> mtd_info \<Rightarrow> parsed option" where
  "mstcboot_parse_image_parts c alloc m =
     with_header m 0 64 (\<lambda>buf.
       let kern_len =
         (if rd32be buf 0 = 0xd00dfeed then szt c (uint (rd32be buf 4))
          else if rd32be buf 0 = 0x27051956 then szt c (64 + uint (rd32be buf 12))
          else 0) in
       with_rootfs (mtd_find_rootfs_from c m kern_len (szt c (mtd_size m)))
         (\<lambda>off t. give_parts alloc
           ((if kern_len > 0 then [mk_part KERNEL_PART_NAME 0 off] else []) @
            [mk_part (rootfs_name t) off (wrap64 (mtd_size m - off))])))"

text \<open>\<open>%u\<close>.\<close>

fun decimal :: "nat \<Rightarrow> string" where
  "decimal n = (if n < 10 then [char_of (48 + n)] else decimal (n div 10) @ [char_of (48 + n mod 10)])"

declare decimal.simps [simp del]

text \<open>The partition that a child describes; the last argument tells whether its name can be allocated.\<close>

definition mstc_child_part :: "bool \<Rightarrow> u32 \<Rightarrow> mstc_child \<Rightarrow> bool \<Rightarrow> int + mtd_part" where
  "mstc_child_part active bootnum_dt child alloc =
     (if mc_addr_cells child \<noteq> 1 \<or> mc_size_cells child \<noteq> 1 then Inl (- EINVAL)
      else
        case mc_reg child of
          Inl e \<Rightarrow> Inl e
        | Inr (off, len) \<Rightarrow>
            (case mc_label_base child of
               Inl e \<Rightarrow> Inl e
             | Inr label \<Rightarrow>
                 if \<not> active \<and> \<not> alloc then Inl (- ENOMEM)
                 else Inr (mk_part (if active then label else label @ decimal (unat bootnum_dt)) (uint off) (uint len))))"

primrec mstc_children ::
  "bool \<Rightarrow> u32 \<Rightarrow> (nat \<Rightarrow> bool) \<Rightarrow> nat \<Rightarrow> mstc_child list \<Rightarrow> int + mtd_part list" where
  "mstc_children active bootnum_dt alloc index [] = Inr []"
| "mstc_children active bootnum_dt alloc index (child # rest) =
     (case mstc_child_part active bootnum_dt child (alloc index) of
        Inl e \<Rightarrow> Inl e
      | Inr p \<Rightarrow>
          (case mstc_children active bootnum_dt alloc (Suc index) rest of
             Inl e \<Rightarrow> Inl e
           | Inr ps \<Rightarrow> Inr (p # ps)))"

definition mstcboot_parse_fixed_parts ::
  "bool \<Rightarrow> (nat \<Rightarrow> bool) \<Rightarrow> mstc_node \<Rightarrow> bool \<Rightarrow> u32 \<Rightarrow> parsed" where
  "mstcboot_parse_fixed_parts alloc name_alloc np active bootnum_dt =
     (let nr_parts = length (mn_children np) in
      if nr_parts > 2 then parse_error (- EINVAL)
      else if \<not> alloc then parse_error (- ENOMEM)
      else
        case mstc_children active bootnum_dt name_alloc 0 (mn_children np) of
          Inl e \<Rightarrow> parse_error e
        | Inr ps \<Rightarrow> (int nr_parts, Some ps))"

definition mtdsplit_mstcboot_parse ::
  "cpu \<Rightarrow> bool \<Rightarrow> (nat \<Rightarrow> bool) \<Rightarrow> mstc_node \<Rightarrow> mtd_info \<Rightarrow> mtd_info \<Rightarrow> parsed option" where
  "mtdsplit_mstcboot_parse c alloc name_alloc np parent m =
     (case mstcboot_is_active np parent of
        Inl e \<Rightarrow> Some (parse_error e)
      | Inr (active, bootnum_dt) \<Rightarrow>
          if mn_children np \<noteq> [] then Some (mstcboot_parse_fixed_parts alloc name_alloc np (active \<noteq> 0) bootnum_dt)
          else if active \<noteq> 0 then mstcboot_parse_image_parts c alloc m
          else Some (0, None))"

section \<open>The environment as a list of variables\<close>

text \<open>
  C23. In a well-formed environment the search gives whether the first variable \<open>BOOTDEV\<close> has the name of
  the device tree as its value.
\<close>
theorem env_bootdev_is_lookup:
  assumes "list_all env_var_ok kvs" "0 \<notin> set devnm"
  shows "env_bootdev_is devnm (concat (map env_var kvs) @ 0 # rest) =
    Some (map_of kvs (cstr ''BOOTDEV'') = Some devnm)"
  using assms(1)
proof (induction kvs)
  case Nil
  then show ?case by (subst env_bootdev_is.simps) simp
next
  case (Cons kv kvs)
  obtain k v where kv: "kv = (k, v)" by fastforce
  let ?rest = "concat (map env_var kvs) @ 0 # rest"
  let ?xs = "k @ of_char CHR ''='' # v @ 0 # ?rest"
  have ok: "0 \<notin> set k" "of_char CHR ''='' \<notin> set k" "0 \<notin> set v" using Cons.prems by (auto simp: kv env_var_ok_def)
  have hd: "hd ?xs \<noteq> 0" using ok(1) by (cases k) auto
  have eq: "strchr_in ?xs (of_char CHR ''='') = Some (Some (length k))" using strchr_in_append [OF ok(2,1)] .
  have run: "env_bootdev_is devnm ?xs =
      (if k = cstr ''BOOTDEV'' then strcmp_in devnm (v @ 0 # ?rest) else env_bootdev_is devnm ?rest)"
    using hd eq strlen_in_append [OF ok(3), of ?rest] by (subst env_bootdev_is.simps) (simp add: Let_def)
  have xs: "concat (map env_var (kv # kvs)) @ 0 # rest = ?xs" by (simp add: kv env_var_def)
  have IH: "env_bootdev_is devnm ?rest = Some (map_of kvs (cstr ''BOOTDEV'') = Some devnm)"
    using Cons by simp
  show ?case
    unfolding xs run IH using strcmp_in_append [OF assms(2) ok(3), of ?rest] by (auto simp: kv)
qed

text \<open>An environment with two variables, one of them the boot device.\<close>

theorem env_bootdev_is_lookup_witness:
  "env_bootdev_is (cstr ''flash'') (cstr ''A=1'' @ 0 # cstr ''BOOTDEV=flash'' @ [0, 0, 0xff]) = Some True"
  using env_bootdev_is_lookup [of "[(cstr ''A'', cstr ''1''), (cstr ''BOOTDEV'', cstr ''flash'')]" "cstr ''flash''" "[0xff]"]
  by (simp add: env_var_ok_def env_var_def)

section \<open>The partitions of MSTC\<close>

text \<open>A child with one cell each for its offset and its size.\<close>

definition mstc_child :: "u32 \<Rightarrow> u32 \<Rightarrow> string \<Rightarrow> mstc_child" where
  "mstc_child off len label = \<lparr>mc_addr_cells = 1, mc_size_cells = 1, mc_reg = Inr (off, len), mc_label_base = Inr label\<rparr>"

lemma mstc_children_good:
  "(\<forall>i. alloc i) \<Longrightarrow> mstc_children active b alloc index (map (\<lambda>(off, len, label). mstc_child off len label) cs) =
     Inr (map (\<lambda>(off, len, label). mk_part (if active then label else label @ decimal (unat b)) (uint off) (uint len)) cs)"
  by (induction cs arbitrary: index) (auto simp: mstc_child_part_def mstc_child_def)

text \<open>
  A device with one or two child nodes is split as these say, whether it is the booted one or not;
  the partitions of one that was not booted have its number behind their names.
\<close>
theorem mstc_fixed_parts:
  assumes "mn_bootnum np = Inr b" "mn_persist np = Some (True, Inr persist)"
    and "read_exact parent (uint (persist + 4)) 1 = Inr [v]"
    and "mn_children np = map (\<lambda>(off, len, label). mstc_child off len label) cs" "cs \<noteq> []" "length cs \<le> 2"
  shows "mtdsplit_mstcboot_parse c True (\<lambda>_. True) np parent m =
    Some (int (length cs), Some (map (\<lambda>(off, len, label).
      mk_part (if uint v = uint b then label else label @ decimal (unat b)) (uint off) (uint len)) cs))"
  using assms by (auto simp: mtdsplit_mstcboot_parse_def mstcboot_is_active_def mstcboot_parse_fixed_parts_def
      mstc_children_good)

definition mstc_flash :: mtd_info where
  "mstc_flash = flash ''nand'' 16 (replicate 20 0 @ [1] @ replicate 11 0)"

definition mstc_demo :: "u32 \<Rightarrow> mstc_node" where
  "mstc_demo b = \<lparr>mn_bootnum = Inr b, mn_persist = Some (True, Inr 16),
     mn_children = [mstc_child 0 0x800000 ''kernel'', mstc_child 0x800000 0x2a40000 ''ubi'']\<rparr>"

theorem mstc_fixed_parts_witness:
  "mtdsplit_mstcboot_parse cpu_le32 True (\<lambda>_. True) (mstc_demo 1) mstc_flash mstc_flash =
     Some (2, Some [mk_part ''kernel'' 0 0x800000, mk_part ''ubi'' 0x800000 0x2a40000]) \<and>
   mtdsplit_mstcboot_parse cpu_le32 True (\<lambda>_. True) (mstc_demo 2) mstc_flash mstc_flash =
     Some (2, Some [mk_part ''kernel2'' 0 0x800000, mk_part ''ubi2'' 0x800000 0x2a40000])"
proof -
  let ?cs = "[(0, 0x800000, ''kernel''), (0x800000, 0x2a40000, ''ubi'')] :: (u32 \<times> u32 \<times> string) list"
  have rd: "read_exact mstc_flash (uint (16 + 4 :: u32)) 1 = Inr [1]" by code_simp
  have two: "decimal 2 = ''2''" by code_simp
  have "mtdsplit_mstcboot_parse cpu_le32 True (\<lambda>_. True) (mstc_demo b) mstc_flash mstc_flash =
    Some (2, Some (map (\<lambda>(off, len, label).
      mk_part (if uint (1 :: u8) = uint b then label else label @ decimal (unat b)) (uint off) (uint len)) ?cs))" for b
    using mstc_fixed_parts [of "mstc_demo b" b 16 mstc_flash 1 ?cs cpu_le32 mstc_flash] rd
    by (simp add: mstc_demo_def)
  then show ?thesis by (simp add: two)
qed

end
