(* ===== verification/Nvram_Store.thy ===== *)
theory Nvram_Store
  imports C_Strings
begin

text \<open>
  The variables of the Broadcom NVRAM tool in memory: the handle and the hash table of
  \<^verbatim>\<open>src/package/utils/nvram/src/nvram.c\<close>, with the operations that get, set and unset a variable.

  A chain of the hash table is a list of tuples. The memory allocator is part of the state: \<open>answers\<close> are the
  results of the coming allocations, and when the list is used up they succeed. The machine has the
  little-endian byte order; whether \<open>char\<close> is signed is a field of the handle, since the code is
  used on MIPS and ARM. Callers never pass a null pointer as a name.
\<close>

section \<open>The handle\<close>

record nvram_tuple =
  tname :: "u8 list"
  tvalue :: "u8 list option"

text \<open>
  \<open>mmap\<close> is the mapping of the partition or of the staging file, \<open>mmap_addr\<close> the low half of its address.
  A value that is \<open>None\<close> is a null pointer. Offset and length are such that the offset lies in the mapping.
\<close>

record nvram_handle =
  mmap :: "u8 list"
  mmap_addr :: u32
  h_length :: nat
  h_offset :: nat
  nvram_hash :: "nat \<Rightarrow> nvram_tuple list"
  nvram_dead :: "nvram_tuple list"
  signed_char :: bool
  answers :: "bool list"

abbreviation EQ_SIGN :: u8 where "EQ_SIGN \<equiv> of_char CHR ''=''"

text \<open>\<open>hash\<close>: the string hash, with the conversion of a \<open>char\<close> to \<open>uint32_t\<close>.\<close>

definition hash :: "bool \<Rightarrow> u8 list \<Rightarrow> u32" where
  "hash sgnd s = foldl (\<lambda>h ch. 31 * h + (if sgnd then scast ch else ucast ch)) 0 s"

text \<open>
  The index of a name in the table. \<open>NVRAM_ARRAYSIZE\<close> is a quotient of two sizes without brackets, so that
  \<open>hash(name) % NVRAM_ARRAYSIZE(...)\<close> is the remainder by the size of the table in bytes, divided by the
  size of a pointer (of 32 bits): not the remainder by 257, but an index of the table all the same.
\<close>

definition bucket :: "nvram_handle \<Rightarrow> u8 list \<Rightarrow> nat" where
  "bucket h name = nat (uint (hash (signed_char h) name) mod (257 * 4) div 4)"

definition nvram_malloc :: "nvram_handle \<Rightarrow> bool \<times> nvram_handle" where
  "nvram_malloc h = (case answers h of [] \<Rightarrow> (True, h) | a # as \<Rightarrow> (a, h\<lparr>answers := as\<rparr>))"

section \<open>Chains\<close>

text \<open>The search for a name in a chain, the change of the tuple that is found, and its removal.\<close>

primrec chain_find :: "u8 list \<Rightarrow> nvram_tuple list \<Rightarrow> nvram_tuple option" where
  "chain_find name [] = None"
| "chain_find name (t # ts) = (if tname t = name then Some t else chain_find name ts)"

primrec chain_put :: "nvram_tuple \<Rightarrow> nvram_tuple list \<Rightarrow> nvram_tuple list" where
  "chain_put u [] = []"
| "chain_put u (t # ts) = (if tname t = tname u then u # ts else t # chain_put u ts)"

primrec chain_del :: "u8 list \<Rightarrow> nvram_tuple list \<Rightarrow> nvram_tuple list" where
  "chain_del name [] = []"
| "chain_del name (t # ts) = (if tname t = name then ts else t # chain_del name ts)"

section \<open>Operations\<close>

definition nvram_free :: "nvram_handle \<Rightarrow> nvram_handle" where
  "nvram_free h = h\<lparr>nvram_hash := (\<lambda>_. []), nvram_dead := []\<rparr>"

definition nvram_get :: "nvram_handle \<Rightarrow> u8 list \<Rightarrow> u8 list option" where
  "nvram_get h name =
     (case chain_find name (nvram_hash h (bucket h name)) of
        None \<Rightarrow> None
      | Some t \<Rightarrow> tvalue t)"

text \<open>
  \<open>_nvram_realloc\<close>: whether it gives a tuple, and the tuple as it is in memory then. It gives the one
  that it was called with, if any. When the memory for a value cannot be had, an existing tuple is left
  without a value.
\<close>

definition nvram_realloc ::
  "nvram_handle \<Rightarrow> nvram_tuple option \<Rightarrow> u8 list \<Rightarrow> u8 list \<Rightarrow> bool \<times> nvram_tuple option \<times> nvram_handle" where
  "nvram_realloc h t name val =
     (if h_length h - h_offset h < length val + 1 then (False, t, h)
      else
        let (ok, h1) = (case t of None \<Rightarrow> nvram_malloc h | Some _ \<Rightarrow> (True, h))
        in if \<not> ok then (False, None, h1)
           else
             let u = (case t of None \<Rightarrow> \<lparr>tname = name, tvalue = None\<rparr> | Some t \<Rightarrow> t)
             in if tvalue u = Some val then (True, Some u, h1)
                else
                  case nvram_malloc h1 of
                    (ok, h2) \<Rightarrow>
                      if ok then (True, Some (u\<lparr>tvalue := Some val\<rparr>), h2)
                      else (False, Some (u\<lparr>tvalue := None\<rparr>), h2))"

text \<open>
  A tuple that exists is changed in place: the branch of the code that moves an old tuple to the dead
  table is not reached, because \<open>_nvram_realloc\<close> gives the tuple it was called with.
\<close>

definition nvram_set :: "nvram_handle \<Rightarrow> u8 list \<Rightarrow> u8 list \<Rightarrow> int \<times> nvram_handle" where
  "nvram_set h name val =
     (let i = bucket h name;
          t = chain_find name (nvram_hash h i)
      in case nvram_realloc h t name val of
           (ok, u, h1) \<Rightarrow>
             let chain = nvram_hash h1 i;
                 chain' = (case (t, u) of
                             (Some _, Some u) \<Rightarrow> chain_put u chain
                           | (None, Some u) \<Rightarrow> if ok then u # chain else chain
                           | _ \<Rightarrow> chain)
             in (if ok then 0 else - ENOMEM, h1\<lparr>nvram_hash := (nvram_hash h1)(i := chain')\<rparr>))"

definition nvram_unset :: "nvram_handle \<Rightarrow> u8 list \<Rightarrow> nvram_handle" where
  "nvram_unset h name =
     (let i = bucket h name
      in case chain_find name (nvram_hash h i) of
           None \<Rightarrow> h
         | Some t \<Rightarrow> h\<lparr>nvram_hash := (nvram_hash h)(i := chain_del name (nvram_hash h i)),
                       nvram_dead := t # nvram_dead h\<rparr>)"

text \<open>\<open>nvram_getall\<close>: a copy of all tuples. When memory runs out the rest of the chain is left out.\<close>

primrec getall_chain :: "nvram_tuple list \<Rightarrow> nvram_tuple list \<times> nvram_handle \<Rightarrow> nvram_tuple list \<times> nvram_handle" where
  "getall_chain [] s = s"
| "getall_chain (t # ts) s =
     (case nvram_malloc (snd s) of
        (ok, h) \<Rightarrow> if ok then getall_chain ts (t # fst s, h) else (fst s, h))"

definition nvram_getall :: "nvram_handle \<Rightarrow> nvram_tuple list \<times> nvram_handle" where
  "nvram_getall h = fold (\<lambda>i s. getall_chain (nvram_hash h i) s) [0..<257] ([], h)"

section \<open>The table as a map\<close>

text \<open>
  The invariant: a name is in one chain only, that of its hash, and only once there. The tables of
  pointers of the code have no other contents.
\<close>

definition chain_ok :: "nvram_handle \<Rightarrow> nat \<Rightarrow> nvram_tuple list \<Rightarrow> bool" where
  "chain_ok h i ts \<longleftrightarrow> distinct (map tname ts) \<and> (\<forall>n \<in> set (map tname ts). bucket h n = i)"

definition nvram_ok :: "nvram_handle \<Rightarrow> bool" where
  "nvram_ok h \<longleftrightarrow> (\<forall>i. chain_ok h i (nvram_hash h i))"

lemma bucket_less: "bucket h name < 257"
proof -
  have "uint (hash (signed_char h) name) mod (257 * 4) < 257 * 4" by (rule pos_mod_bound) simp
  then show ?thesis by (simp add: bucket_def nat_less_iff)
qed

lemma bucket_frame: "signed_char h' = signed_char h \<Longrightarrow> bucket h' = bucket h"
  by (simp add: bucket_def fun_eq_iff)

lemma nvram_ok_chain_empty: "nvram_ok h \<Longrightarrow> 257 \<le> i \<Longrightarrow> nvram_hash h i = []"
  using bucket_less unfolding nvram_ok_def chain_ok_def
  by (metis leD list.set_intros(1) list.simps(9) neq_Nil_conv)

lemma chain_find_name [dest]: "chain_find name ts = Some t \<Longrightarrow> tname t = name \<and> t \<in> set ts"
  by (induction ts) (auto split: if_splits)

lemma chain_find_None: "chain_find name ts = None \<longleftrightarrow> name \<notin> tname ` set ts"
  by (induction ts) auto

lemma chain_find_put:
  "chain_find n (chain_put u ts) =
     (if n = tname u \<and> chain_find n ts \<noteq> None then Some u else chain_find n ts)"
  by (induction ts) auto

lemma chain_put_names [simp]: "map tname (chain_put u ts) = map tname ts"
  by (induction ts) auto

lemma chain_del_subset: "set (chain_del name ts) \<subseteq> set ts"
  by (induction ts) auto

lemma chain_del_distinct: "distinct (map tname ts) \<Longrightarrow> distinct (map tname (chain_del name ts))"
  using chain_del_subset by (induction ts) (auto simp: image_iff subset_iff)

lemma chain_find_del:
  "distinct (map tname ts) \<Longrightarrow> chain_find n (chain_del name ts) = (if n = name then None else chain_find n ts)"
  by (induction ts) (auto simp: chain_find_None image_iff)

lemma nvram_ok_upd:
  assumes "nvram_ok h" "chain_ok h i ts" "signed_char h' = signed_char h" "nvram_hash h' = (nvram_hash h)(i := ts)"
  shows "nvram_ok h'"
  using assms by (auto simp: nvram_ok_def chain_ok_def bucket_frame [of h' h])

lemma nvram_get_upd:
  assumes "nvram_ok h" "signed_char h' = signed_char h" "nvram_hash h' = (nvram_hash h)(bucket h k := ts)"
    and "\<And>n. n \<noteq> k \<Longrightarrow> chain_find n ts = chain_find n (nvram_hash h (bucket h k))"
  shows "nvram_get h' = (nvram_get h)(k := case chain_find k ts of None \<Rightarrow> None | Some t \<Rightarrow> tvalue t)"
  using assms by (auto simp: nvram_get_def bucket_frame [of h' h] fun_eq_iff)

lemma nvram_malloc_frame:
  "nvram_malloc h = (ok, h') \<Longrightarrow> h' = h\<lparr>answers := tl (answers h)\<rparr>"
  by (auto simp: nvram_malloc_def split: list.splits)

lemma nvram_realloc_cases:
  assumes "nvram_realloc h t name val = (ok, u, h1)" "\<And>t0. t = Some t0 \<Longrightarrow> tname t0 = name"
  shows "h1 = h\<lparr>answers := answers h1\<rparr> \<and>
    (if ok then u = Some \<lparr>tname = name, tvalue = Some val\<rparr>
     else t \<noteq> None \<longrightarrow> u = t \<or> u = Some \<lparr>tname = name, tvalue = None\<rparr>)"
proof -
  have nt: "u0 = \<lparr>tname = name, tvalue = v0\<rparr>" if "tname u0 = name" "tvalue u0 = v0" for u0 v0 using that by simp
  show ?thesis
    using assms
    by (cases t) (auto simp: nvram_realloc_def Let_def split: if_splits prod.splits dest!: nvram_malloc_frame
        intro!: nt)
qed

text \<open>
  What a set does: the variable has the new value, or it keeps what it had, or it has lost it.
\<close>

lemma nvram_set_cases:
  assumes ok: "nvram_ok h" and set: "nvram_set h k v = (r, h')"
  shows "nvram_ok h' \<and> h' = h\<lparr>nvram_hash := nvram_hash h', answers := answers h'\<rparr> \<and>
    (r = 0 \<and> nvram_get h' = (nvram_get h)(k \<mapsto> v) \<or>
     r = - ENOMEM \<and> (nvram_get h' = nvram_get h \<or> nvram_get h' = (nvram_get h)(k := None)))"
proof -
  let ?i = "bucket h k"
  let ?t = "chain_find k (nvram_hash h ?i)"
  obtain good u h1 where re: "nvram_realloc h ?t k v = (good, u, h1)" by (cases "nvram_realloc h ?t k v")
  have cases: "h1 = h\<lparr>answers := answers h1\<rparr> \<and>
    (if good then u = Some \<lparr>tname = k, tvalue = Some v\<rparr>
     else ?t \<noteq> None \<longrightarrow> u = ?t \<or> u = Some \<lparr>tname = k, tvalue = None\<rparr>)"
    by (rule nvram_realloc_cases [OF re]) auto
  then have h1: "h1 = h\<lparr>answers := answers h1\<rparr>" ..
  have hash1: "nvram_hash h1 = nvram_hash h" by (subst h1) simp
  define c where "c = (case (?t, u) of (Some _, Some u) \<Rightarrow> chain_put u (nvram_hash h ?i)
      | (None, Some u) \<Rightarrow> if good then u # nvram_hash h ?i else nvram_hash h ?i | _ \<Rightarrow> nvram_hash h ?i)"
  have upd: "h1\<lparr>nvram_hash := x\<rparr> = h\<lparr>nvram_hash := x, answers := answers h1\<rparr>" for x by (subst h1) simp
  have "nvram_set h k v = (if good then 0 else - ENOMEM, h1\<lparr>nvram_hash := (nvram_hash h)(?i := c)\<rparr>)"
    using re by (cases u; cases ?t) (simp_all add: nvram_set_def Let_def hash1 c_def)
  then have h': "h' = h\<lparr>nvram_hash := (nvram_hash h)(?i := c), answers := answers h1\<rparr>" and r: "r = (if good then 0 else - ENOMEM)"
    using set by (simp_all add: upd)
  have chain: "chain_ok h ?i (nvram_hash h ?i)" using ok by (simp add: nvram_ok_def)
  have get: "chain_ok h ?i c \<Longrightarrow> (\<And>n. n \<noteq> k \<Longrightarrow> chain_find n c = chain_find n (nvram_hash h ?i)) \<Longrightarrow>
      nvram_ok h' \<and> nvram_get h' = (nvram_get h)(k := case chain_find k c of None \<Rightarrow> None | Some t \<Rightarrow> tvalue t)"
    using nvram_ok_upd [OF ok, of ?i c h'] nvram_get_upd [OF ok, of h' k c] by (simp add: h')
  have self: "(nvram_get h)(k := (case ?t of None \<Rightarrow> None | Some t \<Rightarrow> tvalue t)) = nvram_get h"
    by (simp add: nvram_get_def fun_eq_iff)
  have frame: "h' = h\<lparr>nvram_hash := nvram_hash h', answers := answers h'\<rparr>" by (simp add: h')
  consider (fresh) "good" "c = \<lparr>tname = k, tvalue = Some v\<rparr> # nvram_hash h ?i" "?t = None" | (fail) "\<not> good" "c = nvram_hash h ?i"
    | (known) t w where "?t = Some t" "c = chain_put \<lparr>tname = k, tvalue = w\<rparr> (nvram_hash h ?i)"
        "if good then w = Some v else w = tvalue t \<or> w = None"
  proof (cases ?t)
    case None
    then show thesis using that(1,2) cases [THEN conjunct2] by (cases good; cases u) (simp_all add: c_def)
  next
    case (Some t)
    then have "t = \<lparr>tname = k, tvalue = tvalue t\<rparr>" by auto
    then have "\<exists>w. u = Some \<lparr>tname = k, tvalue = w\<rparr> \<and> (if good then w = Some v else w = tvalue t \<or> w = None)"
      using cases [THEN conjunct2] Some by (cases good) auto
    then obtain w where "u = Some \<lparr>tname = k, tvalue = w\<rparr>" "if good then w = Some v else w = tvalue t \<or> w = None"
      by blast
    then show thesis using that(3) [OF Some, of w] Some by (simp add: c_def)
  qed
  then show ?thesis
  proof cases
    case fresh
    then show ?thesis using chain get r frame by (auto simp: chain_ok_def chain_find_None)
  next
    case fail
    then show ?thesis using chain get self r frame by auto
  next
    case known
    have *: "chain_ok h ?i c" using chain by (simp add: known(2) chain_ok_def)
    then show ?thesis
      using get self known(1,3) r frame by (auto simp: known(2) chain_find_put split: if_splits)
  qed
qed

text \<open>When there is memory, a value that is not longer than the partition can be set.\<close>

definition nvram_fits :: "nvram_handle \<Rightarrow> u8 list \<Rightarrow> bool" where
  "nvram_fits h v \<longleftrightarrow> answers h = [] \<and> length v + 1 \<le> h_length h - h_offset h"

lemma nvram_set_fits:
  assumes "nvram_fits h v"
  shows "fst (nvram_set h k v) = 0 \<and> answers (snd (nvram_set h k v)) = []"
  using assms by (simp add: nvram_set_def nvram_realloc_def nvram_fits_def nvram_malloc_def Let_def split: option.split)

lemma nvram_unset_cases:
  assumes "nvram_ok h"
  shows "nvram_ok (nvram_unset h k) \<and> nvram_get (nvram_unset h k) = (nvram_get h)(k := None)"
proof (cases "chain_find k (nvram_hash h (bucket h k))")
  case None
  then show ?thesis using assms by (auto simp: nvram_unset_def nvram_get_def fun_eq_iff)
next
  case (Some t)
  let ?ts = "chain_del k (nvram_hash h (bucket h k))"
  have chain: "chain_ok h (bucket h k) (nvram_hash h (bucket h k))" using assms by (simp add: nvram_ok_def)
  then have "chain_ok h (bucket h k) ?ts"
    using chain_del_subset [of k "nvram_hash h (bucket h k)"]
    by (auto simp: chain_ok_def chain_del_distinct)
  then have "nvram_ok (nvram_unset h k)"
    using Some by (intro nvram_ok_upd [OF assms]) (auto simp: nvram_unset_def Let_def)
  moreover have "nvram_get (nvram_unset h k) = (nvram_get h)(k := case chain_find k ?ts of None \<Rightarrow> None | Some t \<Rightarrow> tvalue t)"
    using Some chain by (intro nvram_get_upd [OF assms]) (auto simp: nvram_unset_def Let_def chain_ok_def chain_find_del)
  ultimately show ?thesis using chain by (simp add: chain_find_del chain_ok_def)
qed

section \<open>The interface of a store of variables\<close>

text \<open>
  What the reader of an image and the commands use: a variable that is set can be looked up, the others
  stay as they were. Inside, the clients that set many variables are treated once: an image that is
  read variable by variable, and default values for the variables that are missing.
\<close>

locale variable_store =
  fixes look :: "'s \<Rightarrow> 'k \<Rightarrow> 'v option"
    and put :: "'s \<Rightarrow> 'k \<Rightarrow> 'v \<Rightarrow> int \<times> 's"
    and del :: "'s \<Rightarrow> 'k \<Rightarrow> 's"
    and inv :: "'s \<Rightarrow> bool"
    and fits :: "'s \<Rightarrow> 'v \<Rightarrow> bool"
  assumes put_fits: "inv s \<Longrightarrow> fits s v \<Longrightarrow> put s k v = (r, t) \<Longrightarrow> r = 0 \<and> fits t = fits s"
    and put_look: "inv s \<Longrightarrow> put s k v = (0, t) \<Longrightarrow> look t = (look s)(k \<mapsto> v)"
    and put_inv: "inv s \<Longrightarrow> put s k v = (r, t) \<Longrightarrow> inv t"
    and put_other: "inv s \<Longrightarrow> put s k v = (r, t) \<Longrightarrow> n \<noteq> k \<Longrightarrow> look t n = look s n"
    and del_look: "inv s \<Longrightarrow> look (del s k) = (look s)(k := None)"
    and del_inv: "inv s \<Longrightarrow> inv (del s k)"
begin

lemma put_ok:
  assumes "inv s" "fits s v"
  obtains t where "put s k v = (0, t)" "inv t" "fits t = fits s" "look t = (look s)(k \<mapsto> v)"
  using assms put_fits put_look put_inv by (metis prod.exhaust)

definition put_all :: "'s \<Rightarrow> ('k \<times> 'v) list \<Rightarrow> 's" where
  "put_all s kvs = foldl (\<lambda>s (k, v). snd (put s k v)) s kvs"

lemma put_all_look:
  "inv s \<Longrightarrow> list_all (\<lambda>(k, v). fits s v) kvs \<Longrightarrow>
   inv (put_all s kvs) \<and> fits (put_all s kvs) = fits s \<and> look (put_all s kvs) = look s ++ map_of (rev kvs)"
proof (induction kvs arbitrary: s)
  case Nil
  then show ?case by (simp add: put_all_def)
next
  case (Cons kv kvs)
  obtain k v where kv: "kv = (k, v)" by (cases kv)
  obtain t where t: "put s k v = (0, t)" "inv t" "fits t = fits s" "look t = (look s)(k \<mapsto> v)"
    using Cons.prems by (auto simp: kv intro: put_ok [of s v k])
  have "put_all s (kv # kvs) = put_all t kvs" by (simp add: put_all_def kv t(1))
  then show ?case using Cons.IH [OF t(2)] Cons.prems t(3,4) by (simp add: kv) (simp add: fun_eq_iff map_add_def split: option.split)
qed

definition put_default :: "'s \<Rightarrow> 'k \<times> 'v \<Rightarrow> 's" where
  "put_default s kv = (if look s (fst kv) = None then snd (put s (fst kv) (snd kv)) else s)"

lemma put_default_look:
  assumes "inv s" "fits s v"
  shows "inv (put_default s (k, v)) \<and> fits (put_default s (k, v)) = fits s \<and>
    look (put_default s (k, v)) = [k \<mapsto> v] ++ look s"
proof (cases "look s k")
  case None
  obtain t where t: "put s k v = (0, t)" "inv t" "fits t = fits s" "look t = (look s)(k \<mapsto> v)"
    using put_ok assms by blast
  have "(look s)(k \<mapsto> v) = [k \<mapsto> v] ++ look s" using None by (auto simp: fun_eq_iff map_add_def split: option.split)
  then show ?thesis using None t by (simp add: put_default_def)
next
  case (Some w)
  then have "look s = [k \<mapsto> v] ++ look s" by (auto simp: fun_eq_iff map_add_def split: option.split)
  then show ?thesis using Some assms(1) by (simp add: put_default_def)
qed

lemma put_defaults_look:
  "inv s \<Longrightarrow> list_all (\<lambda>(k, v). fits s v) kvs \<Longrightarrow>
   inv (foldl put_default s kvs) \<and> fits (foldl put_default s kvs) = fits s \<and>
   look (foldl put_default s kvs) = map_of kvs ++ look s"
proof (induction kvs arbitrary: s)
  case Nil
  then show ?case by simp
next
  case (Cons kv kvs)
  obtain k v where kv: "kv = (k, v)" by (cases kv)
  have *: "inv (put_default s kv)" "fits (put_default s kv) = fits s" "look (put_default s kv) = [k \<mapsto> v] ++ look s"
    using put_default_look [of s v k] Cons.prems by (auto simp: kv)
  show ?case
    using Cons.IH [OF *(1)] Cons.prems * by (simp add: kv) (simp add: fun_eq_iff map_add_def split: option.split)
qed

end

lemma nvram_set_frame:
  assumes "nvram_ok h" "nvram_set h k v = (r, t)"
  shows "mmap t = mmap h" "mmap_addr t = mmap_addr h" "h_length t = h_length h" "h_offset t = h_offset h"
    "signed_char t = signed_char h"
proof -
  have "t = h\<lparr>nvram_hash := nvram_hash t, answers := answers t\<rparr>" using nvram_set_cases [OF assms] by blast
  then obtain c as where "t = h\<lparr>nvram_hash := c, answers := as\<rparr>" by blast
  then show "mmap t = mmap h" "mmap_addr t = mmap_addr h" "h_length t = h_length h" "h_offset t = h_offset h"
    "signed_char t = signed_char h" by simp_all
qed

interpretation nv: variable_store nvram_get nvram_set nvram_unset nvram_ok nvram_fits
proof
  fix h k v r t n
  assume ok: "nvram_ok h"
  show "nvram_get (nvram_unset h k) = (nvram_get h)(k := None)" "nvram_ok (nvram_unset h k)"
    using nvram_unset_cases [OF ok] by auto
  show "nvram_get t = (nvram_get h)(k \<mapsto> v)" if "nvram_set h k v = (0, t)"
    using nvram_set_cases [OF ok that] by auto
  assume set: "nvram_set h k v = (r, t)"
  note c = nvram_set_cases [OF ok set]
  show "nvram_ok t" using c by blast
  show "n \<noteq> k \<Longrightarrow> nvram_get t n = nvram_get h n" using c by auto
  show "r = 0 \<and> nvram_fits t = nvram_fits h" if "nvram_fits h v"
    using nvram_set_fits [OF that, of k] nvram_set_frame [OF ok set] that set by (auto simp: nvram_fits_def fun_eq_iff)
qed

section \<open>All tuples\<close>

definition tuples :: "nvram_handle \<Rightarrow> nvram_tuple list" where
  "tuples h = concat (map (nvram_hash h) [0..<257])"

lemma tuples_member: "nvram_ok h \<Longrightarrow> t \<in> set (tuples h) \<longleftrightarrow> t \<in> set (nvram_hash h (bucket h (tname t)))"
  using bucket_less by (fastforce simp: tuples_def nvram_ok_def chain_ok_def)

lemma distinct_concat_names:
  assumes "nvram_ok h" "distinct is"
  shows "distinct (map tname (concat (map (nvram_hash h) is)))"
  using assms(2)
proof (induction "is")
  case Nil
  then show ?case by simp
next
  case (Cons i "is")
  have c: "chain_ok h j (nvram_hash h j)" for j using assms(1) by (simp add: nvram_ok_def)
  have "bucket h n = i" if "n \<in> tname ` set (nvram_hash h i)" for n using c [of i] that by (auto simp: chain_ok_def)
  moreover have "bucket h n \<in> set is" if "n \<in> tname ` set (concat (map (nvram_hash h) is))" for n
    using c that by (fastforce simp: chain_ok_def)
  ultimately have "tname ` set (nvram_hash h i) \<inter> tname ` set (concat (map (nvram_hash h) is)) = {}"
    using Cons.prems by (metis disjoint_iff distinct.simps(2))
  then show ?case using Cons c [of i] by (auto simp: chain_ok_def)
qed

lemma tuples_distinct: "nvram_ok h \<Longrightarrow> distinct (map tname (tuples h))"
  unfolding tuples_def by (rule distinct_concat_names) simp_all

lemma chain_find_distinct: "distinct (map tname ts) \<Longrightarrow> t \<in> set ts \<Longrightarrow> chain_find (tname t) ts = Some t"
  by (induction ts) auto

text \<open>A variable has the value of its tuple.\<close>

lemma nvram_get_tuples:
  assumes "nvram_ok h"
  shows "nvram_get h n = Some v \<longleftrightarrow> \<lparr>tname = n, tvalue = Some v\<rparr> \<in> set (tuples h)"
proof -
  have d: "distinct (map tname (nvram_hash h (bucket h n)))" using assms by (simp add: nvram_ok_def chain_ok_def)
  have "nvram_get h n = Some v \<longleftrightarrow> (\<exists>t \<in> set (nvram_hash h (bucket h n)). tname t = n \<and> tvalue t = Some v)"
  proof
    assume "nvram_get h n = Some v"
    then obtain t where "chain_find n (nvram_hash h (bucket h n)) = Some t" "tvalue t = Some v"
      by (auto simp: nvram_get_def split: option.splits)
    then show "\<exists>t \<in> set (nvram_hash h (bucket h n)). tname t = n \<and> tvalue t = Some v" by auto
  next
    assume "\<exists>t \<in> set (nvram_hash h (bucket h n)). tname t = n \<and> tvalue t = Some v"
    then show "nvram_get h n = Some v" using chain_find_distinct [OF d] by (auto simp: nvram_get_def)
  qed
  also have "\<dots> \<longleftrightarrow> \<lparr>tname = n, tvalue = Some v\<rparr> \<in> set (nvram_hash h (bucket h n))"
  proof -
    have "tname t = n \<and> tvalue t = Some v \<longleftrightarrow> t = \<lparr>tname = n, tvalue = Some v\<rparr>" for t :: nvram_tuple by auto
    then show ?thesis by simp
  qed
  finally show ?thesis using tuples_member [OF assms, of "\<lparr>tname = n, tvalue = Some v\<rparr>"] by simp
qed
lemma getall_chain_all: "answers h = [] \<Longrightarrow> getall_chain ts (l, h) = (rev ts @ l, h)"
  by (induction ts arbitrary: l) (simp_all add: nvram_malloc_def)

text \<open>With enough memory all tuples are copied, the last one first.\<close>

lemma nvram_getall_tuples:
  assumes "answers h = []"
  shows "nvram_getall h = (rev (tuples h), h)"
proof -
  have "fold (\<lambda>i s. getall_chain (nvram_hash h i) s) is (l, h) = (rev (concat (map (nvram_hash h) is)) @ l, h)" for "is" l
    using getall_chain_all [OF assms] by (induction "is" arbitrary: l) simp_all
  then show ?thesis by (simp add: nvram_getall_def tuples_def)
qed

section \<open>Setting a variable\<close>

text \<open>
  C30. A set keeps the table in order and changes one variable at most. It gives 0 and the variable
  has the new value, or it gives \<open>- ENOMEM\<close>: then the variable is as it was, which is always so when the value
  is longer than the partition, or it has lost its value, because \<open>realloc\<close> failed. With memory for
  the tuple and the value and a value that is short enough it succeeds.
\<close>
theorem nvram_set_outcomes:
  assumes "nvram_ok h" "nvram_set h k v = (r, h')"
  shows "nvram_ok h' \<and>
    (r = 0 \<and> nvram_get h' = (nvram_get h)(k \<mapsto> v) \<or>
     r = - ENOMEM \<and> nvram_get h' = nvram_get h \<or>
     r = - ENOMEM \<and> nvram_get h' = (nvram_get h)(k := None) \<and> length v + 1 \<le> h_length h - h_offset h) \<and>
    (nvram_fits h v \<longrightarrow> r = 0)"
proof (cases "length v + 1 \<le> h_length h - h_offset h")
  case True
  then show ?thesis using nvram_set_cases [OF assms] nvram_set_fits [of h v k] assms(2) by auto
next
  case False
  have same: "chain_find k c = Some u \<Longrightarrow> chain_put u c = c" for c u by (induction c) (auto split: if_splits)
  have "h' = h" "r = - ENOMEM"
    using assms(2) False
    by (auto simp: nvram_set_def nvram_realloc_def Let_def same split: option.splits)
  then show ?thesis using assms(1) False by (simp add: nvram_fits_def)
qed

definition nvram_demo :: "u8 list \<Rightarrow> bool list \<Rightarrow> nvram_handle" where
  "nvram_demo m as = \<lparr>mmap = m, mmap_addr = 0x77000000, h_length = length m, h_offset = 0, nvram_hash = (\<lambda>_. []),
     nvram_dead = [], signed_char = True, answers = as\<rparr>"

lemma nvram_demo_ok [simp]: "nvram_ok (nvram_demo m as)"
  by (simp add: nvram_ok_def chain_ok_def nvram_demo_def)

text \<open>Of three allocations the last fails, that for the second value of the same variable, which is lost.\<close>

theorem nvram_set_outcomes_witness:
  "fst (nvram_set (snd (nvram_set (nvram_demo (replicate 64 0) [True, True, False]) (cstr ''a'') (cstr ''1''))) (cstr ''a'') (cstr ''22'')) = - ENOMEM \<and>
   nvram_get (snd (nvram_set (snd (nvram_set (nvram_demo (replicate 64 0) [True, True, False]) (cstr ''a'') (cstr ''1''))) (cstr ''a'') (cstr ''22'')))
     (cstr ''a'') = None \<and>
   nvram_ok (snd (nvram_set (nvram_demo (replicate 64 0) [True, True, False]) (cstr ''a'') (cstr ''1'')))"
proof -
  let ?h = "snd (nvram_set (nvram_demo (replicate 64 0) [True, True, False]) (cstr ''a'') (cstr ''1''))"
  have "nvram_ok ?h"
    using nvram_set_outcomes [OF nvram_demo_ok surjective_pairing, of "replicate 64 0" "[True, True, False]" "cstr ''a''" "cstr ''1''"]
    by blast
  moreover have "fst (nvram_set ?h (cstr ''a'') (cstr ''22'')) = - ENOMEM" by code_simp
  moreover have "nvram_get (snd (nvram_set ?h (cstr ''a'') (cstr ''22''))) (cstr ''a'') = None" by code_simp
  ultimately show ?thesis by blast
qed

end
