(* ===== verification/Nvram_Image.thy ===== *)
theory Nvram_Image
  imports Nvram_Store "HOL-Library.Signed_Division" "HOL-Library.Monad_Syntax" "HOL-Library.Sublist"
begin

text \<open>
  The image of the Broadcom NVRAM tool: the checksum of \<^verbatim>\<open>src/package/utils/nvram/src/crc.c\<close>, and the functions of
  \<^verbatim>\<open>nvram.c\<close> that read the variables from the mapped partition, write them to it, and open it.

  A result \<open>None\<close> is an access outside the mapping or through a null pointer. Files are what
  the mapping shows of them: \<open>msync\<close> and \<open>fsync\<close> have no effect on it.
\<close>

unbundle bit_operations_syntax

section \<open>The checksum\<close>

definition crc8_table :: "u8 list" where
  "crc8_table =
  [0x00, 0xF7, 0xB9, 0x4E, 0x25, 0xD2, 0x9C, 0x6B, 0x4A, 0xBD, 0xF3, 0x04, 0x6F, 0x98, 0xD6, 0x21,
   0x94, 0x63, 0x2D, 0xDA, 0xB1, 0x46, 0x08, 0xFF, 0xDE, 0x29, 0x67, 0x90, 0xFB, 0x0C, 0x42, 0xB5,
   0x7F, 0x88, 0xC6, 0x31, 0x5A, 0xAD, 0xE3, 0x14, 0x35, 0xC2, 0x8C, 0x7B, 0x10, 0xE7, 0xA9, 0x5E,
   0xEB, 0x1C, 0x52, 0xA5, 0xCE, 0x39, 0x77, 0x80, 0xA1, 0x56, 0x18, 0xEF, 0x84, 0x73, 0x3D, 0xCA,
   0xFE, 0x09, 0x47, 0xB0, 0xDB, 0x2C, 0x62, 0x95, 0xB4, 0x43, 0x0D, 0xFA, 0x91, 0x66, 0x28, 0xDF,
   0x6A, 0x9D, 0xD3, 0x24, 0x4F, 0xB8, 0xF6, 0x01, 0x20, 0xD7, 0x99, 0x6E, 0x05, 0xF2, 0xBC, 0x4B,
   0x81, 0x76, 0x38, 0xCF, 0xA4, 0x53, 0x1D, 0xEA, 0xCB, 0x3C, 0x72, 0x85, 0xEE, 0x19, 0x57, 0xA0,
   0x15, 0xE2, 0xAC, 0x5B, 0x30, 0xC7, 0x89, 0x7E, 0x5F, 0xA8, 0xE6, 0x11, 0x7A, 0x8D, 0xC3, 0x34,
   0xAB, 0x5C, 0x12, 0xE5, 0x8E, 0x79, 0x37, 0xC0, 0xE1, 0x16, 0x58, 0xAF, 0xC4, 0x33, 0x7D, 0x8A,
   0x3F, 0xC8, 0x86, 0x71, 0x1A, 0xED, 0xA3, 0x54, 0x75, 0x82, 0xCC, 0x3B, 0x50, 0xA7, 0xE9, 0x1E,
   0xD4, 0x23, 0x6D, 0x9A, 0xF1, 0x06, 0x48, 0xBF, 0x9E, 0x69, 0x27, 0xD0, 0xBB, 0x4C, 0x02, 0xF5,
   0x40, 0xB7, 0xF9, 0x0E, 0x65, 0x92, 0xDC, 0x2B, 0x0A, 0xFD, 0xB3, 0x44, 0x2F, 0xD8, 0x96, 0x61,
   0x55, 0xA2, 0xEC, 0x1B, 0x70, 0x87, 0xC9, 0x3E, 0x1F, 0xE8, 0xA6, 0x51, 0x3A, 0xCD, 0x83, 0x74,
   0xC1, 0x36, 0x78, 0x8F, 0xE4, 0x13, 0x5D, 0xAA, 0x8B, 0x7C, 0x32, 0xC5, 0xAE, 0x59, 0x17, 0xE0,
   0x2A, 0xDD, 0x93, 0x64, 0x0F, 0xF8, 0xB6, 0x41, 0x60, 0x97, 0xD9, 0x2E, 0x45, 0xB2, 0xFC, 0x0B,
   0xBE, 0x49, 0x07, 0xF0, 0x9B, 0x6C, 0x22, 0xD5, 0xF4, 0x03, 0x4D, 0xBA, 0xD1, 0x26, 0x68, 0x9F]"

definition hndcrc8 :: "u8 list \<Rightarrow> u8 \<Rightarrow> u8" where
  "hndcrc8 ds crc = foldl (\<lambda>crc d. crc8_table ! unat (crc XOR d)) crc ds"

section \<open>The header\<close>

text \<open>
  \<open>struct nvram_header\<close> has five words: magic, length, checksum with version and SDRAM initialisation,
  SDRAM configuration and refresh, and NCDL.
\<close>

abbreviation NVRAM_MAGIC :: u32 where "NVRAM_MAGIC \<equiv> 0x48534C46"
abbreviation NVRAM_VERSION :: u32 where "NVRAM_VERSION \<equiv> 1"
abbreviation NVRAM_MIN_SPACE :: int where "NVRAM_MIN_SPACE \<equiv> 0x8000"
abbreviation NVRAM_CRC_START_POSITION :: nat where "NVRAM_CRC_START_POSITION \<equiv> 9"
abbreviation NVRAM_HDR :: nat where "NVRAM_HDR \<equiv> 20"

abbreviation hdr_magic :: "u8 list \<Rightarrow> nat \<Rightarrow> u32" where "hdr_magic m off \<equiv> rd32 m off"
abbreviation hdr_len :: "u8 list \<Rightarrow> nat \<Rightarrow> u32" where "hdr_len m off \<equiv> rd32 m (off + 4)"
abbreviation crc_ver_init :: "u8 list \<Rightarrow> nat \<Rightarrow> u32" where "crc_ver_init m off \<equiv> rd32 m (off + 8)"
abbreviation config_refresh :: "u8 list \<Rightarrow> nat \<Rightarrow> u32" where "config_refresh m off \<equiv> rd32 m (off + 12)"
abbreviation config_ncdl :: "u8 list \<Rightarrow> nat \<Rightarrow> u32" where "config_ncdl m off \<equiv> rd32 m (off + 16)"

text \<open>The constants of \<^verbatim>\<open>sdinitvals.h\<close>.\<close>

definition SDRAM_INIT :: u32 where "SDRAM_INIT = 0x419"
definition SDRAM_CONFIG :: u32 where "SDRAM_CONFIG = 0"
definition SDRAM_REFRESH :: u32 where "SDRAM_REFRESH = (0x40 AND 0xff) OR 0x8000"

abbreviation "sdram_init \<equiv> cstr ''sdram_init''"
abbreviation "sdram_config \<equiv> cstr ''sdram_config''"
abbreviation "sdram_refresh \<equiv> cstr ''sdram_refresh''"
abbreviation "sdram_ncdl \<equiv> cstr ''sdram_ncdl''"

section \<open>Reading the variables\<close>

text \<open>
  The loop of \<open>_nvram_rehash\<close> over \<^verbatim>\<open>name=value\<close> strings, up to an empty one or one without \<^verbatim>\<open>=\<close>; its
  argument is the mapping from \<open>name\<close> on. The \<^verbatim>\<open>=\<close> that the code overwrites meanwhile is put back before
  the next string is read, and the result of \<open>nvram_set\<close> is not looked at.
\<close>

function nvram_parse :: "nvram_handle \<Rightarrow> u8 list \<Rightarrow> nvram_handle option" where
  "nvram_parse h xs =
     (case xs of
        [] \<Rightarrow> None
      | x # _ \<Rightarrow>
          if x = 0 then Some h
          else
            case strchr_in xs EQ_SIGN of
              None \<Rightarrow> None
            | Some None \<Rightarrow> Some h
            | Some (Some eq) \<Rightarrow>
                let val = drop (eq + 1) xs
                in case strlen_in val of
                     None \<Rightarrow> None
                   | Some n \<Rightarrow> nvram_parse (snd (nvram_set h (take eq xs) (take n val))) (drop (n + 1) val))"
  by pat_completeness auto

termination by (relation "measure (\<lambda>(_, xs). length xs)") auto

declare nvram_parse.simps [simp del]

text \<open>\<^verbatim>\<open>sprintf(buf, "0x%04X", ...)\<close> and its variant with eight digits.\<close>

definition hex0x :: "nat \<Rightarrow> u32 \<Rightarrow> u8 list" where
  "hex0x n v = cstr ''0x'' @ hex_digits n (uint v)"

text \<open>The SDRAM parameters of the header, as the variables that stand for them.\<close>

definition sdram_params :: "u8 list \<Rightarrow> nat \<Rightarrow> (u8 list \<times> u8 list) list" where
  "sdram_params m off =
     [(sdram_init, hex0x 4 (take_bit 16 (drop_bit 16 (crc_ver_init m off)))),
      (sdram_config, hex0x 4 (take_bit 16 (config_refresh m off))),
      (sdram_refresh, hex0x 4 (take_bit 16 (drop_bit 16 (config_refresh m off)))),
      (sdram_ncdl, hex0x 8 (config_ncdl m off))]"

definition set_if_missing :: "nvram_handle \<Rightarrow> u8 list \<times> u8 list \<Rightarrow> nvram_handle" where
  "set_if_missing h kv = (if nvram_get h (fst kv) = None then snd (nvram_set h (fst kv) (snd kv)) else h)"

definition nvram_rehash :: "nvram_handle \<Rightarrow> nvram_handle option" where
  "nvram_rehash h =
     do {
       h1 \<leftarrow> nvram_parse (nvram_free h) (drop (h_offset h + NVRAM_HDR) (mmap h));
       Some (foldl set_if_missing h1 (sdram_params (mmap h) (h_offset h)))
     }"

section \<open>Writing the variables\<close>

text \<open>A write to the mapping.\<close>

definition put_bytes :: "u8 list \<Rightarrow> nat \<Rightarrow> u8 list \<Rightarrow> u8 list option" where
  "put_bytes m off xs = (if off + length xs \<le> length m then Some (buf_put m off xs) else None)"

text \<open>
  The SDRAM words of the header: from the variables when all four are set, else the default values.
\<close>

definition sdram_words :: "nvram_handle \<Rightarrow> u32 \<times> u32 \<times> u32" where
  "sdram_words h =
     (case (nvram_get h sdram_init, nvram_get h sdram_config, nvram_get h sdram_refresh, nvram_get h sdram_ncdl) of
        (Some init, Some config, Some refresh, Some ncdl) \<Rightarrow>
          (strtoul init AND 0xffff,
           (strtoul config AND 0xffff) OR push_bit 16 (strtoul refresh AND 0xffff),
           strtoul ncdl)
      | _ \<Rightarrow> (SDRAM_INIT, SDRAM_CONFIG OR push_bit 16 SDRAM_REFRESH, 0))"

text \<open>
  The tuples of a chain, written from \<open>ptr\<close> on. One that does not fit ends the loop over its chain; the
  loop over the chains goes on.
\<close>

fun commit_chain :: "nat \<Rightarrow> nvram_tuple list \<Rightarrow> u8 list \<times> nat \<Rightarrow> (u8 list \<times> nat) option" where
  "commit_chain lim [] (m, ptr) = Some (m, ptr)"
| "commit_chain lim (t # ts) (m, ptr) =
     (case tvalue t of
        None \<Rightarrow> None
      | Some v \<Rightarrow>
          if lim < ptr + length (tname t) + 1 + length v + 1 then Some (m, ptr)
          else
            do {
              m' \<leftarrow> put_bytes m ptr (tname t @ EQ_SIGN # v @ [0]);
              commit_chain lim ts (m', ptr + length (tname t) + 1 + length v + 1)
            })"

primrec commit_chains :: "nat \<Rightarrow> nvram_tuple list list \<Rightarrow> u8 list \<times> nat \<Rightarrow> (u8 list \<times> nat) option" where
  "commit_chains lim [] s = Some s"
| "commit_chains lim (c # cs) s = do { s' \<leftarrow> commit_chain lim c s; commit_chains lim cs s' }"

text \<open>
  The padding after the last zero. \<open>(int)ptr % 4\<close> takes the address as a signed number, and the remainder of
  a negative number is negative: from an address of \<open>0x80000000\<close> on, up to seven bytes are cleared.
\<close>

definition pad_image :: "u32 \<Rightarrow> u8 list \<Rightarrow> nat \<Rightarrow> u8 list option" where
  "pad_image addr m ptr =
     (let r = sint (addr + of_nat ptr) smod 4
      in if r \<noteq> 0 then put_bytes m ptr (replicate (nat (4 - r)) 0) else Some m)"

text \<open>
  The checksum over the last eleven bytes of a header without checksum, magic and length, and over the
  data behind the header.
\<close>

definition image_crc :: "u8 list \<Rightarrow> nat \<Rightarrow> nat \<Rightarrow> u32 \<times> u32 \<times> u32 \<Rightarrow> u8" where
  "image_crc m off len w =
     (case w of
        (cvi, cfg, ncdl) \<Rightarrow>
          let tmp = replicate 8 0 @ le_bytes 4 cvi @ le_bytes 4 cfg @ le_bytes 4 ncdl
          in hndcrc8 (rd_bytes m (off + NVRAM_HDR) (len - NVRAM_HDR))
               (hndcrc8 (drop NVRAM_CRC_START_POSITION tmp) 0xff))"

definition NVRAM_ROUNDUP :: "nat \<Rightarrow> nat \<Rightarrow> nat" where
  "NVRAM_ROUNDUP x y = (x + (y - 1)) div y * y"

text \<open>\<open>psz\<close> is the global \<open>nvram_part_size\<close>. The result is the handle after the variables were read again.\<close>

definition nvram_commit :: "nat \<Rightarrow> nvram_handle \<Rightarrow> nvram_handle option" where
  "nvram_commit psz h =
     (let off = h_offset h;
          (ini, cfg, ncdl) = sdram_words h;
          cvi = push_bit 8 NVRAM_VERSION OR push_bit 16 ini
      in if psz < off + NVRAM_HDR then None
         else
           do {
             m \<leftarrow> put_bytes (mmap h) off (le_bytes 4 NVRAM_MAGIC);
             m \<leftarrow> put_bytes m (off + 8) (le_bytes 4 cvi @ le_bytes 4 cfg @ le_bytes 4 ncdl);
             m \<leftarrow> put_bytes m (off + NVRAM_HDR) (replicate (psz - off - NVRAM_HDR) 0xff);
             (m, ptr) \<leftarrow> commit_chains (psz - 2) (map (nvram_hash h) [0..<257]) (m, off + NVRAM_HDR);
             m \<leftarrow> put_bytes m ptr [0];
             m \<leftarrow> pad_image (mmap_addr h) m (ptr + 1);
             let len = NVRAM_ROUNDUP (ptr + 2 - off) 4;
             m \<leftarrow> put_bytes m (off + 4) (le_bytes 4 (of_nat len :: u32));
             if length m < off + len then None
             else
               do {
                 m \<leftarrow> put_bytes m (off + 8) (le_bytes 4 (cvi OR ucast (image_crc m off len (cvi, cfg, ncdl))));
                 nvram_rehash (h\<lparr>mmap := m\<rparr>)
               }
           })"

section \<open>Opening\<close>

text \<open>
  The search for the magic number in the words of the mapping. The last index is \<open>(psz - 0x8000) / 4\<close> in
  a \<open>size_t\<close> of 32 bits, behind the mapping when the partition is smaller than that.
\<close>

function find_magic :: "u8 list \<Rightarrow> int \<Rightarrow> int \<Rightarrow> nat option option" where
  "find_magic m hi i =
     (if hi < i then Some None
      else if int (length m) < 4 * i + 4 then None
      else if rd32 m (nat (4 * i)) = NVRAM_MAGIC then Some (Some (nat (4 * i)))
      else find_magic m hi (i + 1))"
  by pat_completeness auto

termination by (relation "measure (\<lambda>(_, hi, i). nat (hi + 1 - i))") auto

declare find_magic.simps [simp del]

definition magic_last :: "nat \<Rightarrow> int" where
  "magic_last psz = (int psz - NVRAM_MIN_SPACE) mod 2 ^ 32 div 4"

text \<open>
  \<open>nvram_open\<close>, for the partition size and the mapped file: \<open>Some None\<close> is a null pointer as result. The
  caller gives the address of the mapping, the sign of \<open>char\<close> and the answers of the allocator. A file that
  cannot be opened or mapped is \<open>None\<close>.
\<close>

definition nvram_open ::
  "nat \<Rightarrow> bool \<Rightarrow> u32 \<Rightarrow> bool \<Rightarrow> bool list \<Rightarrow> u8 list option \<Rightarrow> nvram_handle option option" where
  "nvram_open psz rdonly addr sgnd as file =
     (case file of
        None \<Rightarrow> Some None
      | Some m \<Rightarrow>
          do {
            offset \<leftarrow> find_magic m (magic_last psz) 0;
            case offset of
              None \<Rightarrow> Some None
            | Some off \<Rightarrow>
                let h0 = \<lparr>mmap = m, mmap_addr = addr, h_length = psz, h_offset = off, nvram_hash = (\<lambda>_. []),
                          nvram_dead = [], signed_char = sgnd, answers = as\<rparr>;
                    (ok, h) = nvram_malloc h0
                in if \<not> ok then Some None
                   else if length m < off + NVRAM_HDR then None
                   else if hdr_magic m off = NVRAM_MAGIC \<and> (rdonly \<or> uint (hdr_len m off) < int (psz - off))
                   then map_option Some (nvram_rehash h)
                   else Some None
          })"

section \<open>The checksum, bit by bit\<close>

text \<open>The polynomial \<open>x^8 + x^7 + x^6 + x^4 + x^2 + 1\<close>, with its bits reversed.\<close>

definition crc8_step :: "u8 \<Rightarrow> u8" where
  "crc8_step c = (if c AND 1 = 0 then drop_bit 1 c else drop_bit 1 c XOR 0xAB)"
lemma crc8_step_8: "(crc8_step ^^ 8) c = crc8_step (crc8_step (crc8_step (crc8_step (crc8_step (crc8_step (crc8_step (crc8_step c)))))))"
  by (simp add: eval_nat_numeral)
lemmas crc8_step_numeral = crc8_step_def [of "numeral n" for n] crc8_step_def [of 0] crc8_step_def [of 1]
lemma crc8_table_steps: "crc8_table = map (\<lambda>i. (crc8_step ^^ 8) (word_of_int i)) [0..255]" 
proof -
  have "[0..255] = 0 # 1 # [2..255 :: int]" by (simp add: upto_rec1)
  then show ?thesis unfolding crc8_step_8 by (simp add: crc8_step_numeral crc8_table_def)
qed
lemma crc8_table_entry: "crc8_table ! unat c = (crc8_step ^^ 8) c"
proof -
  have "unat c < 256" using unsigned_less [of c, where 'a = nat] by simp
  then have c: "unat c < length [0..255 :: int]" "0 + int (unat c) \<le> 255" by (simp, linarith)
  have "crc8_table ! unat c = (crc8_step ^^ 8) (word_of_int ([0..255] ! unat c))"
    unfolding crc8_table_steps by (rule nth_map [OF c(1)])
  also have "[0..255] ! unat c = uint c" using nth_upto [OF c(2)] by simp
  finally show ?thesis by simp
qed

text \<open>
  The table of the checksum is the one of its polynomial: a byte is shifted through the register bit by bit.
\<close>
theorem hndcrc8_bitwise: "hndcrc8 ds crc = foldl (\<lambda>crc d. (crc8_step ^^ 8) (crc XOR d)) crc ds"
  by (simp only: hndcrc8_def crc8_table_entry)

section \<open>The layout of an image\<close>

text \<open>
  The specification of what a commit writes, for the SDRAM words and the tuples that are kept, in \<open>n\<close> bytes: the
  header, the variables, a zero and the padding up to a multiple of four.
\<close>

definition tuple_var :: "nvram_tuple \<Rightarrow> u8 list" where
  "tuple_var t = env_var (tname t, the (tvalue t))"

definition vars_image :: "nvram_tuple list \<Rightarrow> u8 list" where
  "vars_image ts = concat (map tuple_var ts)"

definition image_data :: "nvram_tuple list \<Rightarrow> nat \<Rightarrow> u8 list" where
  "image_data ts n =
     (let img = vars_image ts; k = 3 - length img mod 4
      in img @ 0 # replicate k 0 @ replicate (n - (length img + 1 + k)) 0xff)"

definition image_len :: "nvram_tuple list \<Rightarrow> nat" where
  "image_len ts = NVRAM_ROUNDUP (NVRAM_HDR + length (vars_image ts) + 2) 4"

definition image_head :: "u32 \<times> u32 \<times> u32 \<Rightarrow> nat \<Rightarrow> u8 list \<Rightarrow> u8 list" where
  "image_head w len data =
     (case w of
        (ini, cfg, ncdl) \<Rightarrow>
          let cvi = push_bit 8 NVRAM_VERSION OR push_bit 16 ini;
              crc = hndcrc8 (drop 1 (le_bytes 4 cvi) @ le_bytes 4 cfg @ le_bytes 4 ncdl @ take (len - NVRAM_HDR) data) 0xff
          in le_bytes 4 NVRAM_MAGIC @ le_bytes 4 (of_nat len :: u32) @ le_bytes 4 (cvi OR ucast crc) @ le_bytes 4 cfg @ le_bytes 4 ncdl)"

definition image_layout :: "u32 \<times> u32 \<times> u32 \<Rightarrow> nvram_tuple list \<Rightarrow> nat \<Rightarrow> u8 list" where
  "image_layout w ts n =
     image_head w (image_len ts) (image_data ts (n - NVRAM_HDR)) @ image_data ts (n - NVRAM_HDR)"

lemma tuple_var_eq: "tvalue t = Some v \<Longrightarrow> tuple_var t = tname t @ EQ_SIGN # v @ [0]"
  by (simp add: tuple_var_def env_var_def)

lemma vars_image_simps [simp]:
  "vars_image [] = []" "vars_image (t # ts) = tuple_var t @ vars_image ts"
  "vars_image (ts @ us) = vars_image ts @ vars_image us"
  by (simp_all add: vars_image_def)

lemma length_image_data: "length (vars_image ts) + 4 \<le> n + length (vars_image ts) mod 4 \<Longrightarrow> length (image_data ts n) = n"
  by (simp add: image_data_def Let_def)

section \<open>Writes\<close>

lemma put_bytes_append: "put_bytes (pre @ xs) (length pre + k) ys = map_option ((@) pre) (put_bytes xs k ys)"
  by (simp add: put_bytes_def buf_put_def)

lemma put_bytes_left:
  "k + length ys \<le> length xs \<Longrightarrow> put_bytes (xs @ zs) k ys = map_option (\<lambda>x. x @ zs) (put_bytes xs k ys)"
  by (simp add: put_bytes_def buf_put_def)

lemma put_bytes_start: "length ys \<le> length xs \<Longrightarrow> put_bytes xs 0 ys = Some (ys @ drop (length ys) xs)"
  by (simp add: put_bytes_def buf_put_def)

lemma put_bytes_at: "off = length pre \<Longrightarrow> length ys \<le> length xs \<Longrightarrow>
    put_bytes (pre @ xs) off ys = Some (pre @ ys @ drop (length ys) xs)"
  by (simp add: put_bytes_def buf_put_def)

lemma put_bytes_fit: "off + length xs \<le> length m \<Longrightarrow> put_bytes m off xs = Some (buf_put m off xs)"
  by (simp add: put_bytes_def)

lemma buf_put_twice:
  "p + length xs + length ys \<le> length m \<Longrightarrow> buf_put (buf_put m p xs) (p + length xs) ys = buf_put m p (xs @ ys)"
  by (simp add: buf_put_def add.commute add.left_commute)

lemma buf_put_nil [simp]: "buf_put m p [] = m"
  by (simp add: buf_put_def)

text \<open>The tuples that are written are a prefix of each chain; all of them, when there is room.\<close>

lemma commit_chain_spec:
  assumes "list_all (\<lambda>t. tvalue t \<noteq> None) ts" "ptr \<le> lim" "lim \<le> length m"
  shows "\<exists>us. commit_chain lim ts (m, ptr) = Some (buf_put m ptr (vars_image us), ptr + length (vars_image us)) \<and>
    ptr + length (vars_image us) \<le> lim \<and> prefix us ts \<and> (ptr + length (vars_image ts) \<le> lim \<longrightarrow> us = ts)"
  using assms
proof (induction ts arbitrary: m ptr)
  case Nil
  then show ?case by (intro exI [of _ "[]"]) simp
next
  case (Cons t ts)
  then obtain v where v: "tvalue t = Some v" by auto
  note var = tuple_var_eq [OF v]
  show ?case
  proof (cases "lim < ptr + length (tname t) + 1 + length v + 1")
    case True
    then show ?thesis using v var Cons.prems by (intro exI [of _ "[]"]) auto
  next
    case False
    let ?m = "buf_put m ptr (tuple_var t)" and ?p = "ptr + length (tuple_var t)"
    have p: "?p \<le> lim" using False by (simp add: var)
    have "\<exists>us. commit_chain lim ts (?m, ?p) = Some (buf_put ?m ?p (vars_image us), ?p + length (vars_image us)) \<and>
      ?p + length (vars_image us) \<le> lim \<and> prefix us ts \<and> (?p + length (vars_image ts) \<le> lim \<longrightarrow> us = ts)"
      using Cons.prems p by (intro Cons.IH) auto
    then obtain us where us: "commit_chain lim ts (?m, ?p) = Some (buf_put ?m ?p (vars_image us), ?p + length (vars_image us))"
      "?p + length (vars_image us) \<le> lim" "prefix us ts" "?p + length (vars_image ts) \<le> lim \<longrightarrow> us = ts" by blast
    have "put_bytes m ptr (tuple_var t) = Some ?m" using p Cons.prems by (intro put_bytes_fit) linarith
    then have "commit_chain lim (t # ts) (m, ptr) = commit_chain lim ts (?m, ?p)"
      using v False by (simp add: var add_ac)
    then show ?thesis
      using us Cons.prems(3) by (intro exI [of _ "t # us"]) (auto simp: buf_put_twice)
  qed
qed

lemma commit_chains_spec:
  assumes "list_all (\<lambda>t. tvalue t \<noteq> None) (concat cs)" "ptr \<le> lim" "lim \<le> length m"
  shows "\<exists>us. commit_chains lim cs (m, ptr) = Some (buf_put m ptr (vars_image us), ptr + length (vars_image us)) \<and>
    ptr + length (vars_image us) \<le> lim \<and> subseq us (concat cs) \<and> (ptr + length (vars_image (concat cs)) \<le> lim \<longrightarrow> us = concat cs)"
  using assms
proof (induction cs arbitrary: m ptr)
  case Nil
  then show ?case by (intro exI [of _ "[]"]) simp
next
  case (Cons c cs)
  have "list_all (\<lambda>t. tvalue t \<noteq> None) c" using Cons.prems(1) by simp
  from commit_chain_spec [OF this Cons.prems(2,3)]
  obtain us where us: "commit_chain lim c (m, ptr) = Some (buf_put m ptr (vars_image us), ptr + length (vars_image us))"
    "ptr + length (vars_image us) \<le> lim" "prefix us c" "ptr + length (vars_image c) \<le> lim \<longrightarrow> us = c" by blast
  let ?m = "buf_put m ptr (vars_image us)" and ?p = "ptr + length (vars_image us)"
  have "\<exists>vs. commit_chains lim cs (?m, ?p) = Some (buf_put ?m ?p (vars_image vs), ?p + length (vars_image vs)) \<and>
    ?p + length (vars_image vs) \<le> lim \<and> subseq vs (concat cs) \<and> (?p + length (vars_image (concat cs)) \<le> lim \<longrightarrow> vs = concat cs)"
    using Cons.prems us(2) by (intro Cons.IH) auto
  then obtain vs where vs: "commit_chains lim cs (?m, ?p) = Some (buf_put ?m ?p (vars_image vs), ?p + length (vars_image vs))"
    "?p + length (vars_image vs) \<le> lim" "subseq vs (concat cs)" "?p + length (vars_image (concat cs)) \<le> lim \<longrightarrow> vs = concat cs"
    by blast
  have "subseq (us @ vs) (concat (c # cs))"
    using us(3) vs(3) by (simp add: list_emb_append_mono prefix_imp_subseq)
  moreover have "buf_put ?m ?p (vars_image vs) = buf_put m ptr (vars_image (us @ vs))"
    using vs(2) Cons.prems(3) by (simp add: buf_put_twice)
  ultimately show ?case
    using us vs by (intro exI [of _ "us @ vs"]) auto
qed

text \<open>
  What a commit needs: the handle as \<open>nvram_open\<close> gives it, memory, variables that have values and no \<^verbatim>\<open>=\<close> in the
  name, and a mapping at an address that is not negative as an \<open>int\<close>.
\<close>

definition vars_ok :: "nvram_handle \<Rightarrow> bool" where
  "vars_ok h \<longleftrightarrow> nvram_ok h \<and> list_all (\<lambda>t. tvalue t \<noteq> None \<and> env_var_ok (tname t, the (tvalue t))) (tuples h)"

definition sized_ok :: "nat \<Rightarrow> nvram_handle \<Rightarrow> bool" where
  "sized_ok psz h \<longleftrightarrow> answers h = [] \<and> h_length h = psz \<and> length (mmap h) = psz \<and> h_offset h + 22 \<le> psz \<and>
     4 dvd h_offset h \<and> 4 dvd psz"

definition mapped_ok :: "nat \<Rightarrow> nvram_handle \<Rightarrow> bool" where
  "mapped_ok psz h \<longleftrightarrow> sized_ok psz h \<and> unat (mmap_addr h) mod 4 = 0 \<and> unat (mmap_addr h) + psz < 2 ^ 31"

lemma sized_okD:
  assumes "sized_ok psz h"
  shows "h_length h = psz" "length (mmap h) = psz" "h_offset h + 24 \<le> psz" "h_offset h mod 4 = 0" "psz mod 4 = 0"
    "answers h = []"
proof -
  show "h_length h = psz" "length (mmap h) = psz" "answers h = []" using assms by (simp_all add: sized_ok_def)
  have m: "h_offset h + 22 \<le> psz" "h_offset h mod 4 = 0" "psz mod 4 = 0"
    using assms by (auto simp: sized_ok_def)
  then show "h_offset h mod 4 = 0" "psz mod 4 = 0" by blast+
  show "h_offset h + 24 \<le> psz" using m by presburger
qed

lemma mapped_okD:
  assumes "mapped_ok psz h"
  shows "h_length h = psz" "length (mmap h) = psz" "h_offset h + 24 \<le> psz" "h_offset h mod 4 = 0" "psz mod 4 = 0"
    "unat (mmap_addr h) mod 4 = 0" "unat (mmap_addr h) + psz < 2 ^ 31" "answers h = []"
  using assms sized_okD [of psz h] by (simp_all add: mapped_ok_def)

lemma smod_4_nat: "int n smod 4 = int (n mod 4)"
  by (simp add: signed_modulo_int_def sgn_if zmod_int)

lemma pad_image_low:
  assumes "unat addr mod 4 = 0" "unat addr + ptr < 2 ^ 31" "ptr mod 4 = r"
    and "ptr + (4 - r) mod 4 \<le> length m"
  shows "pad_image addr m ptr = Some (buf_put m ptr (replicate ((4 - r) mod 4) 0))"
proof -
  have u: "uint (addr + of_nat ptr) = int (unat addr + ptr)"
  proof -
    have "unat addr + ptr < 2 ^ LENGTH(32)" using assms(2) by simp
    then have "unat (addr + of_nat ptr) = unat addr + ptr" by (simp add: unat_word_ariths(1))
    then show ?thesis by (metis uint_nat)
  qed
  then have s: "sint (addr + of_nat ptr) = int (unat addr + ptr)"
  proof -
    have "int (unat addr + ptr) < 2 ^ 31" using assms(2) by (metis of_nat_less_iff of_nat_numeral of_nat_power)
    moreover have "- (2 ^ 31) \<le> int (unat addr + ptr)" by (rule order.trans [of _ 0]) simp_all
    ultimately have "signed_take_bit 31 (int (unat addr + ptr)) = int (unat addr + ptr)" by (intro signed_take_bit_int_eq_self)
    then show ?thesis unfolding sint_uint u by simp
  qed
  have "(unat addr + ptr) mod 4 = r" using assms(1,3) by presburger
  then have "int (unat addr + ptr) smod 4 = int r" by (simp only: smod_4_nat)
  moreover have "(4 - r) mod 4 = (if r = 0 then 0 else 4 - r)" by (auto simp: assms(3) [symmetric])
  moreover have "nat (4 - int r) = 4 - r" by linarith
  ultimately show ?thesis
    using assms(4) by (cases "r = 0") (simp_all add: pad_image_def s Let_def put_bytes_def)
qed

lemma pad_arith:
  fixes a b i :: nat
  assumes "a mod 4 = 0" "b mod 4 = 0" "a + i + 22 \<le> b"
  shows "a + i + 21 + (3 - i mod 4) \<le> b" "(4 - (a + i + 21) mod 4) mod 4 = 3 - i mod 4"
    "a + (20 + i + 2 + 3) div 4 * 4 \<le> b"
proof -
  obtain a' b' where ab: "a = 4 * a'" "b = 4 * b'" using assms(1,2) by (metis dvd_def mod_0_imp_dvd)
  define c j where "c = i div 4" and "j = i mod 4"
  have i: "i = 4 * c + j" and j: "j < 4" by (simp_all add: c_def j_def)
  define e where "e = (if j = 3 then 1 else 0 :: nat)"
  have d: "(20 + i + 2 + 3) div 4 = c + 6 + e"
    using j unfolding i e_def by (intro div_nat_eqI) auto
  have "4 * (a' + c) + (22 + j) \<le> 4 * b'" using assms(3) unfolding ab i by simp
  then have room: "a' + c + 6 + e \<le> b'" using j by (auto simp: e_def split: if_splits)
  have m: "(a + i + 21) mod 4 = (j + 1) mod 4"
  proof -
    have "a + i + 21 = j + 1 + 4 * (a' + c + 5)" unfolding ab i by simp
    then show ?thesis by (metis mod_mult_self2)
  qed
  have "j = 0 \<or> j = 1 \<or> j = 2 \<or> j = 3" using j by linarith
  then have jj: "(4 - (j + 1) mod 4) mod 4 = 3 - j" "22 + j + (3 - j) \<le> 4 * (6 + e) + 1" by (auto simp: e_def)
  show "(4 - (a + i + 21) mod 4) mod 4 = 3 - i mod 4" using jj(1) unfolding m j_def by simp
  show "a + (20 + i + 2 + 3) div 4 * 4 \<le> b" using room unfolding d ab by simp
  show "a + i + 21 + (3 - i mod 4) \<le> b"
    using room jj(2) j unfolding ab j_def [symmetric] by (subst i) (simp add: e_def split: if_splits)
qed

lemma buf_put_at: "off = length pre \<Longrightarrow> length ys \<le> length xs \<Longrightarrow> buf_put (pre @ xs) off ys = pre @ ys @ drop (length ys) xs"
  by (simp add: buf_put_def)

lemma hndcrc8_append: "hndcrc8 ys (hndcrc8 xs crc) = hndcrc8 (xs @ ys) crc"
  by (simp add: hndcrc8_def)

lemma image_crc_layout:
  assumes "length pre = off" "length hd4 = 8" "NVRAM_HDR \<le> len" "len \<le> NVRAM_HDR + length data"
  shows "image_crc (pre @ hd4 @ (le_bytes 4 cvi @ le_bytes 4 cfg @ le_bytes 4 ncdl) @ data) off len (cvi, cfg, ncdl) =
    hndcrc8 (drop 1 (le_bytes 4 cvi) @ le_bytes 4 cfg @ le_bytes 4 ncdl @ take (len - NVRAM_HDR) data) 0xff"
proof -
  let ?m = "pre @ hd4 @ (le_bytes 4 cvi @ le_bytes 4 cfg @ le_bytes 4 ncdl) @ data"
  have "rd_bytes ?m (off + NVRAM_HDR) (len - NVRAM_HDR) = take (len - NVRAM_HDR) data"
    using assms by (subst rd_bytes_take_drop) simp_all
  then show ?thesis by (simp add: image_crc_def hndcrc8_append)
qed

text \<open>
  A commit up to the padding: the header without length and checksum, and behind it the tuples that fit and a zero.
\<close>

definition image_start :: "nvram_handle \<Rightarrow> u8 list" where
  "image_start h =
     (case sdram_words h of
        (ini, cfg, ncdl) \<Rightarrow>
          take (h_offset h) (mmap h) @ le_bytes 4 NVRAM_MAGIC @ take 4 (drop (h_offset h + 4) (mmap h)) @
          le_bytes 4 (push_bit 8 NVRAM_VERSION OR push_bit 16 ini) @ le_bytes 4 cfg @ le_bytes 4 ncdl)"

definition finish_image :: "nvram_handle \<Rightarrow> nat \<Rightarrow> u8 list \<Rightarrow> nvram_handle option" where
  "finish_image h len m =
     (let off = h_offset h; (ini, cfg, ncdl) = sdram_words h; cvi = push_bit 8 NVRAM_VERSION OR push_bit 16 ini
      in do {
           m \<leftarrow> put_bytes m (off + 4) (le_bytes 4 (of_nat len :: u32));
           if length m < off + len then None
           else
             do {
               m \<leftarrow> put_bytes m (off + 8) (le_bytes 4 (cvi OR ucast (image_crc m off len (cvi, cfg, ncdl))));
               nvram_rehash (h\<lparr>mmap := m\<rparr>)
             }
         })"

lemma length_image_start: "sized_ok psz h \<Longrightarrow> length (image_start h) = h_offset h + NVRAM_HDR"
  using sized_okD [of psz h] by (simp add: image_start_def split: prod.split)

lemma nvram_commit_until_pad:
  assumes ok: "vars_ok h" and m: "sized_ok psz h"
  obtains us where "subseq us (tuples h)" "h_offset h + NVRAM_HDR + length (vars_image us) + 2 \<le> psz"
    "h_offset h + NVRAM_HDR + length (vars_image (tuples h)) + 2 \<le> psz \<longrightarrow> us = tuples h"
    "nvram_commit psz h =
      do {
        m \<leftarrow> pad_image (mmap_addr h) ((image_start h @ vars_image us @ [0]) @
            replicate (psz - h_offset h - NVRAM_HDR - length (vars_image us) - 1) 0xff)
          (h_offset h + NVRAM_HDR + length (vars_image us) + 1);
        finish_image h (image_len us) m
      }"
proof -
  let ?off = "h_offset h" and ?N = "psz - h_offset h - NVRAM_HDR"
  obtain ini cfg ncdl where w: "sdram_words h = (ini, cfg, ncdl)" by (cases "sdram_words h")
  define cvi :: u32 where "cvi = push_bit 8 NVRAM_VERSION OR push_bit 16 ini"
  have cvi2: "256 OR push_bit 16 ini = cvi" by (simp add: cvi_def)
  note md = sized_okD [OF m]
  define pre rest where "pre = take ?off (mmap h)" and "rest = drop ?off (mmap h)"
  have mm: "mmap h = pre @ rest" and lp: "length pre = ?off" and lr: "length rest = psz - ?off"
    using md by (simp_all add: pre_def rest_def)
  let ?W = "le_bytes 4 cvi @ le_bytes 4 cfg @ le_bytes 4 ncdl" and ?M = "le_bytes 4 NVRAM_MAGIC"
  let ?old = "take 4 (drop 4 rest)"
  define P where "P = pre @ ?M @ ?old @ ?W"
  have P: "image_start h = P" by (simp add: image_start_def w P_def cvi_def pre_def rest_def add.commute)
  have lP: "length P = ?off + NVRAM_HDR" using lp lr md by (simp add: P_def)
  have s1: "put_bytes (mmap h) ?off ?M = Some ((pre @ ?M @ ?old) @ drop 8 rest)"
  proof -
    have "drop 4 rest = ?old @ drop 8 rest" using append_take_drop_id [of 4 "drop 4 rest"] by simp
    then show ?thesis unfolding mm using lp lr md by (subst put_bytes_at) simp_all
  qed
  have s2: "put_bytes ((pre @ ?M @ ?old) @ drop 8 rest) (?off + 8) ?W = Some (P @ drop 20 rest)"
    using lp lr md by (subst put_bytes_at) (simp_all add: P_def)
  have s3: "put_bytes (P @ drop 20 rest) (?off + NVRAM_HDR) (replicate ?N 0xff) = Some (P @ replicate ?N 0xff)"
    using lP lr md by (subst put_bytes_at) simp_all
  have vals: "list_all (\<lambda>t. tvalue t \<noteq> None) (concat (map (nvram_hash h) [0..<257]))"
    using ok by (auto simp: vars_ok_def tuples_def list_all_iff)
  have room: "?off + NVRAM_HDR \<le> psz - 2" "psz - 2 \<le> length (P @ replicate ?N 0xff)" using lP md by auto
  obtain us where us: "commit_chains (psz - 2) (map (nvram_hash h) [0..<257]) (P @ replicate ?N 0xff, ?off + NVRAM_HDR) =
      Some (buf_put (P @ replicate ?N 0xff) (?off + NVRAM_HDR) (vars_image us), ?off + NVRAM_HDR + length (vars_image us))"
    "?off + NVRAM_HDR + length (vars_image us) \<le> psz - 2" "subseq us (tuples h)"
    "?off + NVRAM_HDR + length (vars_image (tuples h)) \<le> psz - 2 \<longrightarrow> us = tuples h"
    using commit_chains_spec [OF vals room] unfolding tuples_def by blast
  define i where "i = length (vars_image us)"
  have i: "?off + i + 22 \<le> psz" using us(2) md by (simp add: i_def)
  have s4: "buf_put (P @ replicate ?N 0xff) (?off + NVRAM_HDR) (vars_image us) = (P @ vars_image us) @ replicate (?N - i) 0xff"
    using lP i by (simp add: buf_put_def i_def)
  have s5: "put_bytes ((P @ vars_image us) @ replicate (?N - i) 0xff) (?off + NVRAM_HDR + i) [0] =
      Some ((P @ vars_image us @ [0]) @ replicate (?N - i - 1) 0xff)"
    using lP i by (subst put_bytes_at) (simp_all add: i_def)
  have len: "image_len us = NVRAM_ROUNDUP (22 + i) 4" "Suc (Suc (?off + NVRAM_HDR + i)) - ?off = 22 + i"
    by (simp_all add: image_len_def i_def)
  have "nvram_commit psz h =
      do {
        m \<leftarrow> pad_image (mmap_addr h) ((P @ vars_image us @ [0]) @ replicate (?N - i - 1) 0xff) (?off + NVRAM_HDR + i + 1);
        finish_image h (image_len us) m
      }"
    using s1 s2 s3 us(1) s4 s5 md(3)
    by (simp add: nvram_commit_def finish_image_def len w Let_def cvi2 cong: if_cong flip: i_def)
  then show thesis using that [of us] us(3,4) i unfolding P i_def by auto
qed

text \<open>
  A commit writes the layout of the tuples that it keeps, behind what the mapping has before the
  offset, and reads the variables again.
\<close>

lemma nvram_commit_layout:
  assumes ok: "vars_ok h" and m: "mapped_ok psz h"
  shows "\<exists>us. nvram_commit psz h = nvram_rehash (h\<lparr>mmap := take (h_offset h) (mmap h) @
      image_layout (sdram_words h) us (psz - h_offset h)\<rparr>) \<and>
    subseq us (tuples h) \<and> h_offset h + NVRAM_HDR + length (vars_image us) + 2 \<le> psz \<and>
    (h_offset h + NVRAM_HDR + length (vars_image (tuples h)) + 2 \<le> psz \<longrightarrow> us = tuples h)"
proof -
  let ?off = "h_offset h" and ?N = "psz - h_offset h - NVRAM_HDR"
  have sized: "sized_ok psz h" using m by (simp add: mapped_ok_def)
  obtain us where us: "subseq us (tuples h)" "?off + NVRAM_HDR + length (vars_image us) + 2 \<le> psz"
    "?off + NVRAM_HDR + length (vars_image (tuples h)) + 2 \<le> psz \<longrightarrow> us = tuples h"
    "nvram_commit psz h = do { m \<leftarrow> pad_image (mmap_addr h) ((image_start h @ vars_image us @ [0]) @
        replicate (?N - length (vars_image us) - 1) 0xff) (?off + NVRAM_HDR + length (vars_image us) + 1); finish_image h (image_len us) m }"
    by (rule nvram_commit_until_pad [OF ok sized])
  obtain ini cfg ncdl where w: "sdram_words h = (ini, cfg, ncdl)" by (cases "sdram_words h")
  define cvi :: u32 where "cvi = push_bit 8 NVRAM_VERSION OR push_bit 16 ini"
  note md = mapped_okD [OF m]
  let ?W = "le_bytes 4 cvi @ le_bytes 4 cfg @ le_bytes 4 ncdl" and ?M = "le_bytes 4 NVRAM_MAGIC"
  define pre old where "pre = take ?off (mmap h)" and "old = take 4 (drop (?off + 4) (mmap h))"
  have lp: "length pre = ?off" "length old = 4" using md by (simp_all add: pre_def old_def)
  define P where "P = image_start h"
  have P: "P = pre @ ?M @ old @ ?W" by (simp add: P_def image_start_def w cvi_def pre_def old_def)
  have lP: "length P = ?off + NVRAM_HDR" using lp by (simp add: P)
  define i where "i = length (vars_image us)"
  have i: "?off + i + 22 \<le> psz" using us(2) md by (simp add: i_def)
  define k where "k = 3 - i mod 4"
  have k: "?off + i + 21 + k \<le> psz" "(4 - (?off + i + 21) mod 4) mod 4 = k"
    using pad_arith(1,2) [OF md(4,5), of i] i by (simp_all add: k_def)
  have idata: "image_data us ?N = vars_image us @ 0 # replicate k 0 @ replicate (?N - (i + 1 + k)) 0xff"
    by (simp add: image_data_def Let_def i_def k_def)
  have s6: "pad_image (mmap_addr h) ((P @ vars_image us @ [0]) @ replicate (?N - i - 1) 0xff) (?off + NVRAM_HDR + i + 1) =
      Some (P @ image_data us ?N)"
  proof -
    have "pad_image (mmap_addr h) ((P @ vars_image us @ [0]) @ replicate (?N - i - 1) 0xff) (?off + NVRAM_HDR + i + 1) =
        Some (buf_put ((P @ vars_image us @ [0]) @ replicate (?N - i - 1) 0xff) (?off + NVRAM_HDR + i + 1)
          (replicate ((4 - (?off + i + 21) mod 4) mod 4) 0))"
      using md(6,7) i k lP by (intro pad_image_low) (simp_all add: i_def add.commute [of 21])
    also have "buf_put ((P @ vars_image us @ [0]) @ replicate (?N - i - 1) 0xff) (?off + NVRAM_HDR + i + 1)
          (replicate ((4 - (?off + i + 21) mod 4) mod 4) 0) = P @ image_data us ?N"
      unfolding k(2) idata using lP i k(1) buf_put_at [of "?off + NVRAM_HDR + i + 1" "P @ vars_image us @ [0]" "replicate k 0" "replicate (?N - i - 1) 0xff"]
      by (simp add: i_def)
    finally show ?thesis .
  qed
  define len where "len = image_len us"
  have lend: "?off + len \<le> psz" "NVRAM_HDR \<le> len"
    using pad_arith(3) [OF md(4,5), of i] i by (simp_all add: len_def image_len_def NVRAM_ROUNDUP_def i_def)
  have ld: "length (image_data us ?N) = ?N" using i k by (simp add: image_data_def Let_def i_def k_def)
  have s7: "put_bytes (P @ image_data us ?N) (?off + 4) (le_bytes 4 (of_nat len :: u32)) =
      Some (pre @ (?M @ le_bytes 4 (of_nat len :: u32)) @ ?W @ image_data us ?N)" (is "_ = Some ?m7")
    using put_bytes_at [of "?off + 4" "pre @ ?M" "le_bytes 4 (of_nat len :: u32)" "old @ ?W @ image_data us ?N"] lp md
    by (simp add: P)
  let ?crc = "image_crc ?m7 ?off len (cvi, cfg, ncdl)"
  have s8: "put_bytes ?m7 (?off + 8) (le_bytes 4 (cvi OR ucast ?crc)) =
      Some (pre @ image_layout (sdram_words h) us (psz - ?off))"
    using put_bytes_at [of "?off + 8" "pre @ ?M @ le_bytes 4 (of_nat len :: u32)" "le_bytes 4 (cvi OR ucast ?crc)" "?W @ image_data us ?N"] lp
      image_crc_layout [of pre ?off "?M @ le_bytes 4 (of_nat len :: u32)" len "image_data us ?N" cvi cfg ncdl] lend ld
    by (simp add: image_layout_def image_head_def w Let_def cvi_def len_def)
  have cvi2: "256 OR push_bit 16 ini = cvi" by (simp add: cvi_def)
  have "finish_image h len (P @ image_data us ?N) = nvram_rehash (h\<lparr>mmap := pre @ image_layout (sdram_words h) us (psz - ?off)\<rparr>)"
    using s7 s8 lend md(3) ld lp by (simp add: finish_image_def w Let_def cvi2)
  then have "nvram_commit psz h = nvram_rehash (h\<lparr>mmap := pre @ image_layout (sdram_words h) us (psz - ?off)\<rparr>)"
    using us(4) s6 by (simp add: len_def flip: i_def P_def)
  then show ?thesis using us(1-3) unfolding pre_def by blast
qed

section \<open>Reading an image\<close>

text \<open>Setting a variable keeps the conditions on the variables.\<close>

lemma nvram_set_tuples:
  assumes "nvram_fits h v"
  shows "set (nvram_hash (snd (nvram_set h k v)) i) \<subseteq> insert \<lparr>tname = k, tvalue = Some v\<rparr> (set (nvram_hash h i))"
proof -
  have put: "set (chain_put u ts) \<subseteq> insert u (set ts)" for u ts by (induction ts) auto
  have "nvram_malloc h = (True, h)" using assms by (simp add: nvram_fits_def nvram_malloc_def)
  then have re: "nvram_realloc h t k v = (True, Some \<lparr>tname = k, tvalue = Some v\<rparr>, h)"
    if "\<And>u. t = Some u \<Longrightarrow> tname u = k" for t
    using assms that by (cases t) (auto simp: nvram_realloc_def nvram_fits_def Let_def)
  have "nvram_realloc h (chain_find k (nvram_hash h (bucket h k))) k v = (True, Some \<lparr>tname = k, tvalue = Some v\<rparr>, h)"
    by (rule re) auto
  then show ?thesis
    using put [of "\<lparr>tname = k, tvalue = Some v\<rparr>" "nvram_hash h (bucket h k)"]
    by (cases "chain_find k (nvram_hash h (bucket h k))") (auto simp: nvram_set_def Let_def)
qed

lemma vars_ok_chains:
  "vars_ok h \<longleftrightarrow> nvram_ok h \<and> (\<forall>i. \<forall>t \<in> set (nvram_hash h i). tvalue t \<noteq> None \<and> env_var_ok (tname t, the (tvalue t)))"
proof -
  let ?P = "\<lambda>t. tvalue t \<noteq> None \<and> env_var_ok (tname t, the (tvalue t))"
  have "(\<forall>t \<in> set (tuples h). ?P t) \<longleftrightarrow> (\<forall>i. \<forall>t \<in> set (nvram_hash h i). ?P t)" if "nvram_ok h"
  proof -
    have "t \<in> set (tuples h) \<longleftrightarrow> (\<exists>i. t \<in> set (nvram_hash h i))" for t
    proof -
      have "i < 257" if "t \<in> set (nvram_hash h i)" for i
        using that nvram_ok_chain_empty [OF \<open>nvram_ok h\<close>, of i] by (cases "257 \<le> i") auto
      then show ?thesis by (auto simp: tuples_def)
    qed
    then show ?thesis by blast
  qed
  then show ?thesis unfolding vars_ok_def list_all_iff by blast
qed

lemma nvram_set_vars_ok:
  assumes "vars_ok h" "nvram_fits h v" "env_var_ok (k, v)"
  shows "vars_ok (snd (nvram_set h k v)) \<and> nvram_fits (snd (nvram_set h k v)) = nvram_fits h \<and>
    mmap (snd (nvram_set h k v)) = mmap h \<and> mmap_addr (snd (nvram_set h k v)) = mmap_addr h \<and>
    h_offset (snd (nvram_set h k v)) = h_offset h \<and> h_length (snd (nvram_set h k v)) = h_length h"
proof -
  have ok: "nvram_ok h" using assms(1) by (simp add: vars_ok_def)
  obtain r t where t: "nvram_set h k v = (r, t)" by (cases "nvram_set h k v")
  have "nvram_ok t" using nv.put_inv [OF ok t] .
  moreover have "tvalue u \<noteq> None \<and> env_var_ok (tname u, the (tvalue u))" if "u \<in> set (nvram_hash t i)" for u i
    using nvram_set_tuples [OF assms(2), of k i] that assms(1,3) by (auto simp: t vars_ok_chains)
  ultimately have "vars_ok t" by (simp add: vars_ok_chains)
  then show ?thesis using nv.put_fits [OF ok assms(2) t] nvram_set_frame [OF ok t] by (simp add: t)
qed

text \<open>A run of sets keeps them too, and leaves the mapping alone.\<close>

definition same_mapping :: "nvram_handle \<Rightarrow> nvram_handle \<Rightarrow> bool" where
  "same_mapping h h' \<longleftrightarrow> mmap h' = mmap h \<and> mmap_addr h' = mmap_addr h \<and> h_offset h' = h_offset h \<and>
     h_length h' = h_length h \<and> nvram_fits h' = nvram_fits h"

lemma put_all_vars_ok:
  "vars_ok h \<Longrightarrow> list_all (\<lambda>(k, v). nvram_fits h v \<and> env_var_ok (k, v)) kvs \<Longrightarrow>
   vars_ok (nv.put_all h kvs) \<and> same_mapping h (nv.put_all h kvs)"
proof (induction kvs arbitrary: h)
  case Nil
  then show ?case by (simp add: nv.put_all_def same_mapping_def)
next
  case (Cons kv kvs)
  let ?h = "snd (nvram_set h (fst kv) (snd kv))"
  have "vars_ok ?h \<and> same_mapping h ?h"
    using nvram_set_vars_ok [of h "snd kv" "fst kv"] Cons.prems by (auto simp: same_mapping_def case_prod_beta)
  moreover have "nv.put_all h (kv # kvs) = nv.put_all ?h kvs" by (simp add: nv.put_all_def case_prod_beta)
  ultimately show ?case using Cons by (auto simp: same_mapping_def)
qed

lemma set_if_missing_eq: "set_if_missing = nv.put_default"
  by (simp add: fun_eq_iff set_if_missing_def nv.put_default_def)

lemma set_if_missing_vars_ok:
  "vars_ok h \<Longrightarrow> list_all (\<lambda>(k, v). nvram_fits h v \<and> env_var_ok (k, v)) kvs \<Longrightarrow>
   vars_ok (foldl set_if_missing h kvs) \<and> same_mapping h (foldl set_if_missing h kvs)"
proof (induction kvs arbitrary: h)
  case Nil
  then show ?case by (simp add: same_mapping_def)
next
  case (Cons kv kvs)
  let ?h = "set_if_missing h kv"
  have "vars_ok ?h \<and> same_mapping h ?h"
    using nvram_set_vars_ok [of h "snd kv" "fst kv"] Cons.prems
    by (auto simp: set_if_missing_def same_mapping_def case_prod_beta)
  then show ?case using Cons by (auto simp: same_mapping_def)
qed

text \<open>The reader finds the variables of a layout.\<close>

definition pairs :: "nvram_tuple list \<Rightarrow> (u8 list \<times> u8 list) list" where
  "pairs ts = map (\<lambda>t. (tname t, the (tvalue t))) ts"

lemma nvram_parse_step:
  assumes "\<exists>x ys. xs = x # ys \<and> x \<noteq> 0" "strchr_in xs EQ_SIGN = Some (Some e)" "strlen_in (drop (e + 1) xs) = Some n"
  shows "nvram_parse h xs = nvram_parse (snd (nvram_set h (take e xs) (take n (drop (e + 1) xs)))) (drop (n + 1) (drop (e + 1) xs))"
proof -
  obtain x ys where "xs = x # ys" "x \<noteq> 0" using assms(1) by blast
  then show ?thesis using assms(2,3) by (subst nvram_parse.simps) (simp add: Let_def del: strchr_in.simps)
qed

lemma nvram_parse_vars:
  "list_all env_var_ok (pairs ts) \<Longrightarrow> nvram_parse h (vars_image ts @ 0 # rest) = Some (nv.put_all h (pairs ts))"
proof (induction ts arbitrary: h)
  case Nil
  then show ?case by (simp add: nvram_parse.simps pairs_def nv.put_all_def)
next
  case (Cons t ts)
  let ?v = "the (tvalue t)" and ?rest = "vars_image ts @ 0 # rest"
  have ok: "0 \<notin> set (tname t)" "EQ_SIGN \<notin> set (tname t)" "0 \<notin> set ?v"
    using Cons.prems by (auto simp: pairs_def env_var_ok_def)
  have xs: "vars_image (t # ts) @ 0 # rest = tname t @ EQ_SIGN # ?v @ 0 # ?rest"
    by (simp add: tuple_var_def env_var_def)
  have hd: "\<exists>x ys. tname t @ EQ_SIGN # ?v @ 0 # ?rest = x # ys \<and> x \<noteq> 0" using ok(1) by (cases "tname t") auto
  have "nvram_parse h (tname t @ EQ_SIGN # ?v @ 0 # ?rest) = nvram_parse (snd (nvram_set h (tname t) ?v)) ?rest"
    using nvram_parse_step [OF hd strchr_in_append [OF ok(2,1), of "?v @ 0 # ?rest"]] strlen_in_append [OF ok(3), of ?rest]
    by simp
  also have "\<dots> = Some (nv.put_all (snd (nvram_set h (tname t) ?v)) (pairs ts))"
    using Cons by (simp add: pairs_def)
  finally show ?case unfolding xs by (simp add: pairs_def nv.put_all_def)
qed

section \<open>What a commit keeps\<close>

lemma map_of_rev_distinct: "distinct (map fst xs) \<Longrightarrow> map_of (rev xs) = map_of xs"
proof
  fix n
  assume d: "distinct (map fst xs)"
  then have "distinct (map fst (rev xs))" by (simp add: rev_map [symmetric])
  then have "map_of (rev xs) n = Some v \<longleftrightarrow> map_of xs n = Some v" for v using d by (simp add: map_of_eq_Some_iff)
  then show "map_of (rev xs) n = map_of xs n" by (metis not_None_eq)
qed

lemma subseq_set: "subseq xs ys \<Longrightarrow> set xs \<subseteq> set ys"
  by (induction rule: list_emb.induct) auto

lemma subseq_distinct: "subseq xs ys \<Longrightarrow> distinct ys \<Longrightarrow> distinct xs"
  by (induction rule: list_emb.induct) (use subseq_set in fastforce)+

lemma pairs_names [simp]: "map fst (pairs ts) = map tname ts"
  by (simp add: pairs_def)

text \<open>Without null pointers the tuples are the map.\<close>

lemma map_of_tuples:
  assumes "vars_ok h"
  shows "map_of (pairs (tuples h)) = nvram_get h"
proof
  fix n
  have ok: "nvram_ok h" using assms by (simp add: vars_ok_def)
  have d: "distinct (map fst (pairs (tuples h)))" using tuples_distinct [OF ok] by simp
  have "map_of (pairs (tuples h)) n = Some v \<longleftrightarrow> nvram_get h n = Some v" for v
  proof -
    have "(n, v) \<in> set (pairs (tuples h)) \<longleftrightarrow> (\<exists>t \<in> set (tuples h). tname t = n \<and> the (tvalue t) = v)"
      by (auto simp: pairs_def)
    also have "\<dots> \<longleftrightarrow> (\<exists>t \<in> set (tuples h). t = \<lparr>tname = n, tvalue = Some v\<rparr>)"
    proof -
      have "tname t = n \<and> the (tvalue t) = v \<longleftrightarrow> t = \<lparr>tname = n, tvalue = Some v\<rparr>" if "t \<in> set (tuples h)" for t
        using assms that by (cases t) (auto simp: vars_ok_def list_all_iff)
      then show ?thesis by blast
    qed
    finally show ?thesis using nvram_get_tuples [OF ok] map_of_eq_Some_iff [OF d] by simp
  qed
  then show "map_of (pairs (tuples h)) n = nvram_get h n"
    by (cases "nvram_get h n"; cases "map_of (pairs (tuples h)) n") auto
qed

lemma vars_image_member: "t \<in> set us \<Longrightarrow> length (the (tvalue t)) + 2 \<le> length (vars_image us)"
  by (induction us) (auto simp: tuple_var_def env_var_def)

lemma sdram_params_ok:
  assumes "psz = h_length h" "h_offset h + 24 \<le> psz" "answers h = []"
  shows "list_all (\<lambda>(k, v). nvram_fits h v \<and> env_var_ok (k, v)) (sdram_params m off)"
proof -
  have "0 \<notin> set (hex_digits n v)" for n v using hex_digits_printable by blast
  then show ?thesis using assms by (auto simp: sdram_params_def hex0x_def nvram_fits_def env_var_ok_def)
qed

lemma length_image_head [simp]: "length (image_head w len data) = NVRAM_HDR"
  by (simp add: image_head_def Let_def split: prod.split)

lemma image_layout_parts:
  assumes "off = length pre"
  shows "drop (off + NVRAM_HDR) (pre @ image_layout w us n) = image_data us (n - NVRAM_HDR)"
  using assms by (simp add: image_layout_def)

text \<open>The handle after a layout was read: the variables of the layout and the SDRAM parameters that it does not have.\<close>

lemma nvram_rehash_layout:
  assumes m: "mapped_ok psz h" and off: "h_offset h = length pre" and mm: "mmap h = pre @ image_layout w us (psz - h_offset h)"
    and us: "list_all (\<lambda>t. tvalue t \<noteq> None \<and> env_var_ok (tname t, the (tvalue t))) us" "distinct (map tname us)"
    and room: "h_offset h + NVRAM_HDR + length (vars_image us) + 2 \<le> psz"
  obtains h' where "nvram_rehash h = Some h'" "vars_ok h'" "mapped_ok psz h'" "mmap h' = mmap h" "h_offset h' = h_offset h"
    "mmap_addr h' = mmap_addr h" "nvram_get h' = map_of (sdram_params (mmap h) (h_offset h)) ++ map_of (pairs us)"
proof -
  let ?off = "h_offset h" and ?h0 = "nvram_free h"
  note md = mapped_okD [OF m]
  have h0: "vars_ok ?h0" "nvram_get ?h0 = Map.empty" by (auto simp: vars_ok_chains nvram_ok_def chain_ok_def nvram_free_def nvram_get_def)
  have "length (the (tvalue t)) + 1 \<le> psz - ?off" if "t \<in> set us" for t
    using vars_image_member [OF that] room by linarith
  then have kv: "list_all (\<lambda>(k, v). nvram_fits ?h0 v \<and> env_var_ok (k, v)) (pairs us)"
    using us(1) md by (auto simp: list_all_iff pairs_def nvram_fits_def nvram_free_def)
  define h1 where "h1 = nv.put_all ?h0 (pairs us)"
  have parse: "nvram_parse ?h0 (drop (?off + NVRAM_HDR) (mmap h)) = Some h1"
  proof -
    have "drop (?off + NVRAM_HDR) (mmap h) = image_data us (psz - ?off - NVRAM_HDR)"
      unfolding mm using off by (rule image_layout_parts)
    then show ?thesis
      using kv by (simp add: image_data_def Let_def h1_def nvram_parse_vars list_all_iff case_prod_beta)
  qed
  have h1: "vars_ok h1" "same_mapping ?h0 h1" using put_all_vars_ok [OF h0(1) kv] by (simp_all add: h1_def)
  have g1: "nvram_get h1 = map_of (pairs us)"
  proof -
    have "list_all (\<lambda>(k, v). nvram_fits ?h0 v) (pairs us)" using kv by (auto simp: list_all_iff)
    then have "nvram_get h1 = Map.empty ++ map_of (rev (pairs us))"
      using nv.put_all_look [of ?h0 "pairs us"] h0 by (simp add: vars_ok_def h1_def)
    then show ?thesis using us(2) by (simp add: map_of_rev_distinct)
  qed
  let ?ps = "sdram_params (mmap h) ?off"
  have mh1: "h_offset h1 = ?off" "h_length h1 = psz" "nvram_fits h1 = nvram_fits ?h0"
    using h1(2) md by (simp_all add: same_mapping_def nvram_free_def)
  have fits0: "nvram_fits ?h0 []" using md by (simp add: nvram_fits_def nvram_free_def)
  then have "answers h1 = []" using mh1(3) by (metis nvram_fits_def)
  then have ps: "list_all (\<lambda>(k, v). nvram_fits h1 v \<and> env_var_ok (k, v)) ?ps"
    using mh1 md by (intro sdram_params_ok) auto
  define h2 where "h2 = foldl set_if_missing h1 ?ps"
  have h2: "vars_ok h2" "same_mapping h1 h2" using set_if_missing_vars_ok [OF h1(1) ps] by (simp_all add: h2_def)
  have "list_all (\<lambda>(k, v). nvram_fits h1 v) ?ps" using ps by (auto simp: list_all_iff)
  then have g2: "nvram_get h2 = map_of ?ps ++ map_of (pairs us)"
    using nv.put_defaults_look [of h1 ?ps] h1(1) g1 by (simp add: h2_def set_if_missing_eq vars_ok_def)
  have mh2: "mmap h2 = mmap h" "h_offset h2 = ?off" "h_length h2 = psz" "mmap_addr h2 = mmap_addr h" "nvram_fits h2 = nvram_fits ?h0"
    using h1(2) h2(2) md by (simp_all add: same_mapping_def nvram_free_def)
  have "answers h2 = []" using mh2(5) fits0 by (metis nvram_fits_def)
  then have "mapped_ok psz h2" using m mh2 by (simp add: mapped_ok_def sized_ok_def)
  moreover have "nvram_rehash h = Some h2" using parse by (simp add: nvram_rehash_def h2_def)
  ultimately show thesis using that [of h2] h2 g2 mh2 by simp
qed

lemma length_image_layout:
  assumes "mapped_ok psz h" "h_offset h + NVRAM_HDR + length (vars_image us) + 2 \<le> psz"
  shows "length (image_layout w us (psz - h_offset h)) = psz - h_offset h"
  using mapped_okD [OF assms(1)] pad_arith(1) [of "h_offset h" psz "length (vars_image us)"] assms(2)
  by (simp add: image_layout_def image_data_def Let_def)

lemma nvram_commit_result:
  assumes ok: "vars_ok h" and m: "mapped_ok psz h"
  obtains h' us where "nvram_commit psz h = Some h'" "subseq us (tuples h)"
    "h_offset h + NVRAM_HDR + length (vars_image (tuples h)) + 2 \<le> psz \<longrightarrow> us = tuples h"
    "h_offset h + NVRAM_HDR + length (vars_image us) + 2 \<le> psz"
    "mmap h' = take (h_offset h) (mmap h) @ image_layout (sdram_words h) us (psz - h_offset h)"
    "vars_ok h'" "mapped_ok psz h'" "h_offset h' = h_offset h" "mmap_addr h' = mmap_addr h"
    "nvram_get h' = map_of (sdram_params (mmap h') (h_offset h)) ++ map_of (pairs us)"
    "list_all (\<lambda>t. tvalue t \<noteq> None \<and> env_var_ok (tname t, the (tvalue t))) us" "distinct (map tname us)"
proof -
  let ?off = "h_offset h"
  note md = mapped_okD [OF m]
  obtain us where us: "nvram_commit psz h = nvram_rehash (h\<lparr>mmap := take ?off (mmap h) @ image_layout (sdram_words h) us (psz - ?off)\<rparr>)"
    "subseq us (tuples h)" "?off + NVRAM_HDR + length (vars_image us) + 2 \<le> psz"
    "?off + NVRAM_HDR + length (vars_image (tuples h)) + 2 \<le> psz \<longrightarrow> us = tuples h"
    using nvram_commit_layout [OF ok m] by blast
  let ?h = "h\<lparr>mmap := take ?off (mmap h) @ image_layout (sdram_words h) us (psz - ?off)\<rparr>"
  have us_ok: "list_all (\<lambda>t. tvalue t \<noteq> None \<and> env_var_ok (tname t, the (tvalue t))) us"
    using ok subseq_set [OF us(2)] by (auto simp: vars_ok_def list_all_iff)
  have d: "distinct (map tname us)"
    using tuples_distinct ok subseq_map [OF us(2), of tname] by (auto simp: vars_ok_def dest: subseq_distinct)
  have mok: "mapped_ok psz ?h" using m md length_image_layout [OF m us(3)] by (simp add: mapped_ok_def sized_ok_def)
  have off: "h_offset ?h = length (take ?off (mmap h))" using md by simp
  have room: "h_offset ?h + NVRAM_HDR + length (vars_image us) + 2 \<le> psz" using us(3) by simp
  have mm: "mmap ?h = take ?off (mmap h) @ image_layout (sdram_words h) us (psz - h_offset ?h)" by simp
  obtain h' where h': "nvram_rehash ?h = Some h'" "vars_ok h'" "mapped_ok psz h'" "mmap h' = mmap ?h" "h_offset h' = h_offset ?h"
    "mmap_addr h' = mmap_addr ?h" "nvram_get h' = map_of (sdram_params (mmap ?h) (h_offset ?h)) ++ map_of (pairs us)"
    by (rule nvram_rehash_layout [OF mok off mm us_ok d room])
  have "nvram_commit psz h = Some h'" using us(1) h'(1) by simp
  moreover have "mmap h' = take ?off (mmap h) @ image_layout (sdram_words h) us (psz - ?off)" "h_offset h' = ?off"
    "mmap_addr h' = mmap_addr h" "nvram_get h' = map_of (sdram_params (mmap h') ?off) ++ map_of (pairs us)"
    using h'(4-7) by simp_all
  ultimately show thesis using that [of h' us] us(2-4) us_ok d h'(2,3) by blast
qed

abbreviation sdram_names :: "u8 list set" where
  "sdram_names \<equiv> {sdram_init, sdram_config, sdram_refresh, sdram_ncdl}"

lemma sdram_params_dom: "fst ` set (sdram_params m off) = sdram_names"
  by (simp add: sdram_params_def)



definition nvram_demo1 :: nvram_handle where
  "nvram_demo1 = snd (nvram_set (nvram_demo (replicate 64 0xff) []) (cstr ''a'') (cstr ''1''))"

lemma nvram_demo_set:
  assumes "env_var_ok (k, v)" "length v + 1 \<le> 64"
  shows "vars_ok (snd (nvram_set (nvram_demo (replicate 64 0xff) []) k v))"
    "mapped_ok 64 (snd (nvram_set (nvram_demo (replicate 64 0xff) []) k v))"
    "h_offset (snd (nvram_set (nvram_demo (replicate 64 0xff) []) k v)) = 0"
proof -
  let ?h = "nvram_demo (replicate 64 0xff) []"
  let ?g = "snd (nvram_set ?h k v)"
  have fits: "nvram_fits ?h v" using assms(2) by (simp add: nvram_fits_def nvram_demo_def)
  have "vars_ok ?h" by (simp add: vars_ok_chains) (simp add: nvram_demo_def)
  from nvram_set_vars_ok [OF this fits assms(1)]
  have g: "vars_ok ?g \<and> nvram_fits ?g = nvram_fits ?h \<and> mmap ?g = mmap ?h \<and> mmap_addr ?g = mmap_addr ?h \<and>
      h_offset ?g = h_offset ?h \<and> h_length ?g = h_length ?h" .
  moreover from this have "answers ?g = []" using fits by (metis nvram_fits_def)
  ultimately show "vars_ok ?g" "mapped_ok 64 ?g" "h_offset ?g = 0"
    by (simp_all add: mapped_ok_def sized_ok_def nvram_demo_def)
qed

lemma nvram_demo1_ok: "vars_ok nvram_demo1" "mapped_ok 64 nvram_demo1" "h_offset nvram_demo1 = 0"
  unfolding nvram_demo1_def by (rule nvram_demo_set, simp add: env_var_ok_def, simp)+



section \<open>The ends of the partition\<close>

lemma smod_4_neg: "(- int n) smod 4 = - int (n mod 4)"
  by (simp add: signed_modulo_int_def sgn_if zmod_int)

lemma mod4_complement:
  assumes "(n + x) mod 4 = (0 :: nat)" "x mod 4 \<noteq> 0"
  shows "n mod 4 = 4 - x mod 4"
proof -
  have "4 dvd n mod 4 + x mod 4" using assms(1) by (metis mod_0_imp_dvd mod_add_eq)
  then obtain k where k: "n mod 4 + x mod 4 = 4 * k" ..
  have "n mod 4 < 4" "x mod 4 < 4" by simp_all
  then have "k = 1" using k assms(2) by linarith
  then show ?thesis using k by simp
qed

lemma pad_image_high:
  assumes "unat addr mod 4 = 0" "2 ^ 31 \<le> unat addr + ptr" "unat addr + ptr < 2 ^ 32" "ptr mod 4 = r" "r \<noteq> 0"
  shows "pad_image addr m ptr = put_bytes m ptr (replicate (8 - r) 0)"
proof -
  define n where "n = 2 ^ 32 - (unat addr + ptr)"
  have u: "uint (addr + of_nat ptr) = int (unat addr + ptr)"
  proof -
    have "unat addr + ptr < 2 ^ LENGTH(32)" using assms(3) by simp
    then have "unat (addr + of_nat ptr) = unat addr + ptr" by (simp add: unat_word_ariths(1))
    then show ?thesis by (metis uint_nat)
  qed
  have n: "int (unat addr + ptr) = 2 ^ 32 - int n" "n \<le> 2 ^ 31" "0 < n" using assms(2,3) by (simp_all add: n_def of_nat_diff)
  have "sint (addr + of_nat ptr) = - int n"
  proof -
    have "signed_take_bit 31 (2 ^ 32 - int n) = signed_take_bit 31 (- int n)"
      by (rule signed_take_bit_eq_iff_take_bit_eq [THEN iffD2]) (simp add: take_bit_eq_mod mod_diff_left_eq [symmetric, of _ "2 ^ 32"])
    also have "\<dots> = - int n" using n(2) by (intro signed_take_bit_int_eq_self) simp_all
    finally show ?thesis unfolding sint_uint u n(1) by simp
  qed
  moreover have r: "n mod 4 = 4 - r" "r < 4"
  proof -
    have "n + (unat addr + ptr) = 2 ^ 32" using assms(3) by (simp add: n_def)
    then have z: "(n + (unat addr + ptr)) mod 4 = 0" by simp
    have "(unat addr + ptr) mod 4 = r" using assms(1,4) by (simp add: mod_add_eq [symmetric, of "unat addr"])
    then show "n mod 4 = 4 - r" using mod4_complement [OF z] assms(5) by simp
    show "r < 4" using assms(4) by auto
  qed
  ultimately have "sint (addr + of_nat ptr) smod 4 = - int (4 - r)" by (simp only: smod_4_neg)
  moreover have "nat (4 - - int (4 - r)) = 8 - r" "- int (4 - r) \<noteq> 0" using r(2) by linarith+
  ultimately show ?thesis by (simp add: pad_image_def Let_def)
qed

lemma word_end_arith:
  assumes "b mod 4 = 0" "(p :: nat) < b" "b \<le> p + 3"
  shows "p mod 4 \<noteq> 0 \<and> b = p + (4 - p mod 4)"
proof -
  define e where "e = b - p"
  have b: "b = p + e" "0 < e" "e < 4" using assms(2,3) by (simp_all add: e_def)
  then have "(e + p) mod 4 = 0" using assms(1) by (simp only: add.commute)
  have p0: "p mod 4 \<noteq> 0"
  proof
    assume "p mod 4 = 0"
    then have "4 dvd p" by (rule mod_0_imp_dvd)
    moreover have "4 dvd e + p" using \<open>(e + p) mod 4 = 0\<close> by (rule mod_0_imp_dvd)
    ultimately have "4 dvd e" by (simp add: dvd_add_left_iff)
    then show False using b(2,3) dvd_imp_le by fastforce
  qed
  have "e mod 4 = 4 - p mod 4" by (rule mod4_complement [OF \<open>(e + p) mod 4 = 0\<close> p0])
  then show ?thesis using b p0 by simp
qed

text \<open>
  A commit can write behind the mapping. When the address of the mapping is \<open>0x80000000\<close> or more, as with
  the usual memory layout of 32-bit ARM, the padding is four bytes too long: an image whose last byte is in the
  last word of the partition is written over its end.
\<close>
theorem nvram_commit_overruns:
  assumes "vars_ok h" "sized_ok psz h" "unat (mmap_addr h) mod 4 = 0" "2 ^ 31 \<le> unat (mmap_addr h)"
    and "unat (mmap_addr h) + psz \<le> 2 ^ 32"
    and fits: "h_offset h + NVRAM_HDR + length (vars_image (tuples h)) + 2 \<le> psz"
    and full: "psz \<le> h_offset h + NVRAM_HDR + length (vars_image (tuples h)) + 4"
  shows "nvram_commit psz h = None"
proof -
  let ?off = "h_offset h" and ?i = "length (vars_image (tuples h))"
  note md = sized_okD [OF assms(2)]
  obtain us where "us = tuples h" and run: "nvram_commit psz h =
      do {
        m \<leftarrow> pad_image (mmap_addr h) ((image_start h @ vars_image us @ [0]) @
            replicate (psz - ?off - NVRAM_HDR - length (vars_image us) - 1) 0xff) (?off + NVRAM_HDR + length (vars_image us) + 1);
        finish_image h (image_len us) m
      }"
    using nvram_commit_until_pad [OF assms(1,2)] fits by blast
  let ?p = "?off + NVRAM_HDR + ?i + 1"
  let ?m = "(image_start h @ vars_image (tuples h) @ [0]) @ replicate (psz - ?off - NVRAM_HDR - ?i - 1) 0xff"
  have p: "?p < psz" "psz \<le> ?p + 3" using fits full by linarith+
  have r: "?p mod 4 \<noteq> 0" "psz = ?p + (4 - ?p mod 4)" using word_end_arith [OF md(5) p] by blast+
  have "pad_image (mmap_addr h) ?m ?p = put_bytes ?m ?p (replicate (8 - ?p mod 4) 0)"
    using assms(3-5) p(1) r(1) by (intro pad_image_high) simp_all
  also have "\<dots> = None"
  proof -
    have "length ?m = psz" using length_image_start [OF assms(2)] fits by simp
    moreover have "psz < ?p + (8 - ?p mod 4)" using r(2) mod_less_divisor [of 4 ?p] by linarith
    ultimately show ?thesis by (simp only: put_bytes_def length_replicate not_le [symmetric] if_False)
  qed
  finally show ?thesis using run by (simp add: \<open>us = tuples h\<close>)
qed

text \<open>A handle with one variable that fills a partition of 64 bytes.\<close>

definition nvram_full :: nvram_handle where
  "nvram_full = snd (nvram_set (nvram_demo (replicate 64 0xff) []) (cstr ''a'') (replicate 39 0x31))"

theorem nvram_commit_overruns_witness: "nvram_commit 64 (nvram_full\<lparr>mmap_addr := 0xb6f00000\<rparr>) = None"
proof (rule nvram_commit_overruns)
  let ?h = "nvram_full\<lparr>mmap_addr := 0xb6f00000\<rparr>"
  have env: "env_var_ok (cstr ''a'', replicate 39 0x31)" by (simp add: env_var_ok_def)
  have v: "vars_ok nvram_full" "mapped_ok 64 nvram_full" "h_offset nvram_full = 0"
    unfolding nvram_full_def by (rule nvram_demo_set [OF env], simp)+
  have "nvram_hash ?h = nvram_hash nvram_full" "bucket ?h = bucket nvram_full" by (simp, rule bucket_frame, simp)
  then have t: "tuples ?h = tuples nvram_full" and "vars_ok ?h" using v(1) by (simp_all add: tuples_def vars_ok_chains nvram_ok_def chain_ok_def)
  then show "vars_ok ?h" by blast
  have i: "length (vars_image (tuples nvram_full)) = 42" by code_simp
  then show "h_offset ?h + NVRAM_HDR + length (vars_image (tuples ?h)) + 2 \<le> 64"
    "64 \<le> h_offset ?h + NVRAM_HDR + length (vars_image (tuples ?h)) + 4"
    using v(3) by (simp_all add: t)
  show "sized_ok 64 ?h" using v(2) by (simp add: mapped_ok_def sized_ok_def)
qed simp_all

section \<open>Opening what was committed\<close>

lemma find_magic_first:
  assumes "rd32 m (4 * k) = NVRAM_MAGIC" "4 * k + 4 \<le> length m" "int k \<le> hi"
    and "\<And>j. i \<le> j \<Longrightarrow> j < k \<Longrightarrow> rd32 m (4 * j) \<noteq> NVRAM_MAGIC" "i \<le> k"
  shows "find_magic m hi (int i) = Some (Some (4 * k))"
  using assms(4,5)
proof (induction "k - i" arbitrary: i)
  case 0
  then show ?case using assms(1-3) by (subst find_magic.simps) (simp add: nat_mult_distrib)
next
  case (Suc d)
  then have ik: "i < k" "rd32 m (4 * i) \<noteq> NVRAM_MAGIC" by simp_all
  have "find_magic m hi (int (Suc i)) = Some (Some (4 * k))" using Suc by (intro Suc.hyps) auto
  then show ?case using ik assms(2,3) by (subst find_magic.simps) (simp add: nat_mult_distrib add.commute)
qed

lemma rd32_at_off: "length pre = off \<Longrightarrow> rd32 (pre @ le_bytes 4 w @ zs) off = w"
  using rd32_at by blast

lemma rd32_before: "off + 4 \<le> length pre \<Longrightarrow> rd32 (pre @ xs) off = rd32 pre off"
  by (simp add: rd32_def rd_bytes_take_drop)

text \<open>The fields of a header.\<close>

lemma image_head_fields:
  assumes "length pre = off"
  shows "hdr_magic (pre @ image_head (ini, cfg, ncdl) len data @ zs) off = NVRAM_MAGIC"
    "hdr_len (pre @ image_head (ini, cfg, ncdl) len data @ zs) off = of_nat len"
    "crc_ver_init (pre @ image_head (ini, cfg, ncdl) len data @ zs) off = 0x100 OR push_bit 16 ini OR
       ucast (hndcrc8 (drop 1 (le_bytes 4 (0x100 OR push_bit 16 ini)) @ le_bytes 4 cfg @ le_bytes 4 ncdl @ take (len - NVRAM_HDR) data) 0xff)"
    "config_refresh (pre @ image_head (ini, cfg, ncdl) len data @ zs) off = cfg"
    "config_ncdl (pre @ image_head (ini, cfg, ncdl) len data @ zs) off = ncdl"
proof -
  let ?M = "le_bytes 4 NVRAM_MAGIC" and ?L = "le_bytes 4 (of_nat len :: u32)"
  let ?crc = "hndcrc8 (drop 1 (le_bytes 4 (0x100 OR push_bit 16 ini)) @ le_bytes 4 cfg @ le_bytes 4 ncdl @ take (len - NVRAM_HDR) data) 0xff"
  let ?C = "le_bytes 4 ((0x100 OR push_bit 16 ini) OR ucast ?crc)"
  have eq: "image_head (ini, cfg, ncdl) len data = ?M @ ?L @ ?C @ le_bytes 4 cfg @ le_bytes 4 ncdl"
    by (simp add: image_head_def Let_def)
  show "hdr_magic (pre @ image_head (ini, cfg, ncdl) len data @ zs) off = NVRAM_MAGIC"
    using rd32_at_off [of pre off NVRAM_MAGIC] assms by (simp add: eq)
  show "hdr_len (pre @ image_head (ini, cfg, ncdl) len data @ zs) off = of_nat len"
    using rd32_at_off [of "pre @ ?M" "off + 4"] assms by (simp add: eq)
  show "crc_ver_init (pre @ image_head (ini, cfg, ncdl) len data @ zs) off = 0x100 OR push_bit 16 ini OR ucast ?crc"
    using rd32_at_off [of "pre @ ?M @ ?L" "off + 8" "(0x100 OR push_bit 16 ini) OR ucast ?crc"] assms by (simp add: eq or.assoc)
  show "config_refresh (pre @ image_head (ini, cfg, ncdl) len data @ zs) off = cfg"
    using rd32_at_off [of "pre @ ?M @ ?L @ ?C" "off + 12"] assms by (simp add: eq)
  show "config_ncdl (pre @ image_head (ini, cfg, ncdl) len data @ zs) off = ncdl"
    using rd32_at_off [of "pre @ ?M @ ?L @ ?C @ le_bytes 4 cfg" "off + 16"] assms by (simp add: eq)
qed

lemma image_len_bounds:
  assumes "off mod 4 = 0" "psz mod 4 = 0" "off + NVRAM_HDR + length (vars_image us) + 2 \<le> psz"
  shows "off + image_len us \<le> psz" "length (vars_image us) + 22 \<le> image_len us" "image_len us mod 4 = 0"
proof -
  show "off + image_len us \<le> psz"
    using pad_arith(3) [OF assms(1,2), of "length (vars_image us)"] assms(3) by (simp add: image_len_def NVRAM_ROUNDUP_def)
  show "length (vars_image us) + 22 \<le> image_len us" by (simp add: image_len_def NVRAM_ROUNDUP_def)
  show "image_len us mod 4 = 0" by (simp add: image_len_def NVRAM_ROUNDUP_def)
qed

text \<open>
  A mapping that holds an image of the layout, from \<open>off\<close> to the end, with no other magic number before it and in
  the reach of the search.
\<close>

definition holds_image :: "nat \<Rightarrow> u8 list \<Rightarrow> nat \<Rightarrow> nvram_tuple list \<Rightarrow> bool" where
  "holds_image psz m off us \<longleftrightarrow>
     length m = psz \<and> off + NVRAM_HDR + length (vars_image us) + 2 \<le> psz \<and> off mod 4 = 0 \<and> psz mod 4 = 0 \<and>
     (\<exists>w. m = take off m @ image_layout w us (psz - off)) \<and>
     list_all (\<lambda>t. tvalue t \<noteq> None \<and> env_var_ok (tname t, the (tvalue t))) us \<and> distinct (map tname us) \<and>
     (\<forall>k < off div 4. rd32 m (4 * k) \<noteq> NVRAM_MAGIC) \<and> int (off div 4) \<le> magic_last psz"

text \<open>The variables that a handle has after it read the image.\<close>

definition image_vars :: "u8 list \<Rightarrow> nat \<Rightarrow> nvram_tuple list \<Rightarrow> u8 list \<Rightarrow> u8 list option" where
  "image_vars m off us = map_of (sdram_params m off) ++ map_of (pairs us)"

definition addr_ok :: "u32 \<Rightarrow> nat \<Rightarrow> bool" where
  "addr_ok a psz \<longleftrightarrow> unat a mod 4 = 0 \<and> unat a + psz < 2 ^ 31"

lemma nvram_open_image:
  assumes im: "holds_image psz m off us" and a: "addr_ok a psz"
  shows "if rdonly \<or> off + image_len us < psz
    then \<exists>g. nvram_open psz rdonly a sgnd [] (Some m) = Some (Some g) \<and> vars_ok g \<and> mapped_ok psz g \<and>
      mmap g = m \<and> h_offset g = off \<and> mmap_addr g = a \<and> nvram_get g = image_vars m off us
    else nvram_open psz rdonly a sgnd [] (Some m) = Some None"
proof -
  obtain w where lay: "m = take off m @ image_layout w us (psz - off)" using im by (auto simp: holds_image_def)
  have md: "length m = psz" "off + NVRAM_HDR + length (vars_image us) + 2 \<le> psz" "off mod 4 = 0" "psz mod 4 = 0"
    "int (off div 4) \<le> magic_last psz" "distinct (map tname us)"
    "list_all (\<lambda>t. tvalue t \<noteq> None \<and> env_var_ok (tname t, the (tvalue t))) us"
    using im by (simp_all add: holds_image_def)
  have lp: "length (take off m) = off" using md(1,2) by simp
  obtain ini cfg ncdl where w: "w = (ini, cfg, ncdl)" by (cases w)
  let ?data = "image_data us (psz - off - NVRAM_HDR)"
  have mm: "m = take off m @ image_head (ini, cfg, ncdl) (image_len us) ?data @ ?data"
    using lay by (simp add: image_layout_def w)
  note fields = image_head_fields [OF lp, of ini cfg ncdl "image_len us" ?data ?data, folded mm]
  note bounds = image_len_bounds [OF md(3,4,2)]
  have off4: "4 * (off div 4) = off" using md(3) by auto
  have found: "find_magic m (magic_last psz) 0 = Some (Some off)"
    using find_magic_first [of m "off div 4" "magic_last psz" 0] im md(1,2,5) fields(1)
    by (simp add: off4 holds_image_def)
  let ?g0 = "\<lparr>mmap = m, mmap_addr = a, h_length = psz, h_offset = off, nvram_hash = (\<lambda>_. []), nvram_dead = [],
      signed_char = sgnd, answers = []\<rparr>"
  have g0: "mapped_ok psz ?g0" using md a by (auto simp: mapped_ok_def sized_ok_def addr_ok_def)
  have off0: "h_offset ?g0 = length (take off m)" using lp by simp
  have lay0: "mmap ?g0 = take off m @ image_layout w us (psz - h_offset ?g0)" using lay by simp
  have room0: "h_offset ?g0 + NVRAM_HDR + length (vars_image us) + 2 \<le> psz" using md(2) by simp
  obtain g where g: "nvram_rehash ?g0 = Some g" "vars_ok g" "mapped_ok psz g" "mmap g = mmap ?g0" "h_offset g = h_offset ?g0"
    "mmap_addr g = mmap_addr ?g0" "nvram_get g = map_of (sdram_params (mmap ?g0) (h_offset ?g0)) ++ map_of (pairs us)"
    by (rule nvram_rehash_layout [OF g0 off0 lay0 md(7,6) room0])
  have "psz < 2 ^ 31" using a by (simp add: addr_ok_def)
  then have "image_len us < 2 ^ 32" using bounds(1) by simp
  then have "unat (hdr_len m off) = image_len us" unfolding fields(2) by (intro unat_of_nat_small) simp
  then have "uint (hdr_len m off) = int (image_len us)" by (metis uint_nat)
  moreover have "int (image_len us) < int (psz - off) \<longleftrightarrow> off + image_len us < psz" using md(2) by linarith
  ultimately have "nvram_open psz rdonly a sgnd [] (Some m) =
      (if rdonly \<or> off + image_len us < psz then map_option Some (nvram_rehash ?g0) else Some None)"
    using found md(1,2) fields(1) by (simp add: nvram_open_def Let_def nvram_malloc_def)
  then show ?thesis using g by (auto simp: image_vars_def)
qed

lemma nvram_commit_holds_image:
  assumes ok: "vars_ok h" and m: "mapped_ok psz h"
    and fits: "h_offset h + NVRAM_HDR + length (vars_image (tuples h)) + 2 \<le> psz"
    and first: "\<forall>k < h_offset h div 4. rd32 (mmap h) (4 * k) \<noteq> NVRAM_MAGIC"
    and reach: "int (h_offset h div 4) \<le> magic_last psz"
  obtains h' where "nvram_commit psz h = Some h'" "holds_image psz (mmap h') (h_offset h) (tuples h)" "h_offset h' = h_offset h"
    "nvram_get h' = image_vars (mmap h') (h_offset h) (tuples h)"
proof -
  let ?off = "h_offset h"
  note md = mapped_okD [OF m]
  obtain h' us where r: "nvram_commit psz h = Some h'" "us = tuples h" "?off + NVRAM_HDR + length (vars_image us) + 2 \<le> psz"
    "mmap h' = take ?off (mmap h) @ image_layout (sdram_words h) us (psz - ?off)" "mapped_ok psz h'" "h_offset h' = ?off"
    "nvram_get h' = map_of (sdram_params (mmap h') ?off) ++ map_of (pairs us)"
    "list_all (\<lambda>t. tvalue t \<noteq> None \<and> env_var_ok (tname t, the (tvalue t))) us" "distinct (map tname us)"
    using nvram_commit_result [OF ok m] fits by blast
  let ?pre = "take ?off (mmap h)"
  have lp: "length ?pre = ?off" using md by simp
  then have pre: "take ?off (mmap h') = ?pre" by (simp add: r(4))
  have "rd32 (mmap h') (4 * j) \<noteq> NVRAM_MAGIC" if "j < ?off div 4" for j
  proof -
    have "4 * j + 4 \<le> ?off" using that by linarith
    then have "rd32 (mmap h') (4 * j) = rd32 (mmap h) (4 * j)"
      using rd32_before [of "4 * j" ?pre] rd32_before [of "4 * j" ?pre "drop ?off (mmap h)"] lp by (simp add: r(4))
    then show ?thesis using first that by simp
  qed
  moreover have "mmap h' = take ?off (mmap h') @ image_layout (sdram_words h) us (psz - ?off)" unfolding pre by (rule r(4))
  ultimately have "holds_image psz (mmap h') ?off us"
    using r(3,8,9) mapped_okD(2) [OF r(5)] md(4,5) reach unfolding holds_image_def by blast
  then show thesis using that [OF r(1)] r(6,7) by (simp add: r(2) image_vars_def)
qed

text \<open>
  C20. A committed image can be opened again, with the variables that the handle had after the commit; for writing, only
  when it does not reach the end of the partition. The image is the first in the partition, and the search for it goes
  that far.
\<close>
theorem nvram_open_committed:
  assumes "vars_ok h" "mapped_ok psz h"
    and "h_offset h + NVRAM_HDR + length (vars_image (tuples h)) + 2 \<le> psz"
    and "\<forall>k < h_offset h div 4. rd32 (mmap h) (4 * k) \<noteq> NVRAM_MAGIC"
    and "int (h_offset h div 4) \<le> magic_last psz" and a: "addr_ok a psz"
  shows "\<exists>h'. nvram_commit psz h = Some h' \<and>
    (if rdonly \<or> h_offset h + image_len (tuples h) < psz
     then \<exists>g. nvram_open psz rdonly a sgnd [] (Some (mmap h')) = Some (Some g) \<and> vars_ok g \<and> mapped_ok psz g \<and>
       mmap g = mmap h' \<and> h_offset g = h_offset h \<and> nvram_get g = nvram_get h'
     else nvram_open psz rdonly a sgnd [] (Some (mmap h')) = Some None)"
proof -
  obtain h' where h': "nvram_commit psz h = Some h'" "holds_image psz (mmap h') (h_offset h) (tuples h)"
    "nvram_get h' = image_vars (mmap h') (h_offset h) (tuples h)"
    using nvram_commit_holds_image [OF assms(1-5)] .
  then show ?thesis using nvram_open_image [OF h'(2) a, of rdonly sgnd] by (auto split: if_splits)
qed

theorem nvram_open_committed_witness:
  "\<exists>h'. nvram_commit 64 nvram_demo1 = Some h' \<and>
    (\<exists>g. nvram_open 64 False 0x76000000 True [] (Some (mmap h')) = Some (Some g) \<and> nvram_get g = nvram_get h') \<and>
    (\<exists>f. nvram_commit 64 nvram_full = Some f \<and> nvram_open 64 False 0x76000000 True [] (Some (mmap f)) = Some None)"
proof -
  have i: "image_len (tuples nvram_demo1) = 28" "length (vars_image (tuples nvram_demo1)) = 4" by code_simp+
  have last: "0 \<le> magic_last 64" by (simp add: magic_last_def)
  have addr: "addr_ok 0x76000000 64" by (simp add: addr_ok_def)
  have full: "vars_ok nvram_full" "mapped_ok 64 nvram_full" "h_offset nvram_full = 0"
    unfolding nvram_full_def by (rule nvram_demo_set, simp add: env_var_ok_def, simp)+
  have j: "image_len (tuples nvram_full) = 64" "length (vars_image (tuples nvram_full)) = 42" by code_simp+
  show ?thesis
    using nvram_open_committed [OF nvram_demo1_ok(1,2), of "0x76000000" False True] nvram_demo1_ok(3) i last addr
      nvram_open_committed [OF full(1,2), of "0x76000000" False True] full(3) j by auto
qed

end
