(* ===== verification/Nvram_Cli.thy ===== *)
theory Nvram_Cli
  imports Nvram_Image
begin

text \<open>
  The command line of the Broadcom NVRAM tool, \<^verbatim>\<open>src/package/utils/nvram/src/cli.c\<close>, with the staging functions of
  \<^verbatim>\<open>nvram.c\<close>. The state is the flash partition and the staging file \<^verbatim>\<open>/tmp/.nvram\<close>; a file that exists can be
  opened, read and written. What is printed is a list of messages. A result \<open>None\<close> is an access outside
  the mapping, as in \<open>Nvram_Image\<close>.
\<close>

unbundle bit_operations_syntax

section \<open>The state\<close>

text \<open>
  \<open>nvram_mtd\<close> is the content of the partition that \<open>nvram_find_mtd\<close> finds in \<^verbatim>\<open>/proc/mtd\<close>; its size becomes
  \<open>nvram_part_size\<close>.
\<close>

record nvram_files =
  nvram_mtd :: "u8 list option"
  nvram_staging :: "u8 list option"

text \<open>What the process gets from the system: the address of its mapping, the sign of \<open>char\<close>, and its memory.\<close>

record nvram_env =
  env_addr :: u32
  env_signed :: bool
  env_answers :: "bool list"

datatype nvram_msg =
  Variable "u8 list" "u8 list option"
| Value "u8 list"
| Header "u32 list" u8
| Needs_argument "u8 list"
| Unknown_option "u8 list"
| Could_not_open
| Usage

section \<open>Staging\<close>

definition nvram_find_mtd :: "nvram_files \<Rightarrow> nat option" where
  "nvram_find_mtd w = map_option length (nvram_mtd w)"

text \<open>The mapping of \<open>psz\<close> bytes of a file; it ends with the file when that is shorter.\<close>

definition nvram_map :: "nat \<Rightarrow> u8 list option \<Rightarrow> u8 list option" where
  "nvram_map psz file = map_option (take psz) file"

definition nvram_to_staging :: "nvram_files \<Rightarrow> int \<times> nvram_files" where
  "nvram_to_staging w =
     (case nvram_mtd w of
        Some buf \<Rightarrow> if 0 < length buf then (0, w\<lparr>nvram_staging := Some buf\<rparr>) else (- 1, w)
      | None \<Rightarrow> (- 1, w))"

definition staging_to_nvram :: "nvram_files \<Rightarrow> int \<times> nvram_files" where
  "staging_to_nvram w =
     (case (nvram_find_mtd w, nvram_staging w) of
        (Some psz, Some f) \<Rightarrow>
          if 0 < psz \<and> psz \<le> length f then (0, w\<lparr>nvram_mtd := Some (take psz f), nvram_staging := None\<rparr>)
          else (- 1, w)
      | _ \<Rightarrow> (- 1, w))"

text \<open>
  \<open>nvram_open\<close> is called with \<open>nvram_part_size\<close> still 0, or with the size that \<open>nvram_find_mtd\<close> has set; in
  both cases the size is that of the partition, and without one there is no handle.
\<close>

definition nvram_open_file :: "nvram_env \<Rightarrow> bool \<Rightarrow> nvram_files \<Rightarrow> u8 list option \<Rightarrow> nvram_handle option option" where
  "nvram_open_file e rdonly w file =
     (case nvram_find_mtd w of
        None \<Rightarrow> Some None
      | Some psz \<Rightarrow>
          if psz = 0 then Some None
          else nvram_open psz rdonly (env_addr e) (env_signed e) (env_answers e) (nvram_map psz file))"

definition nvram_open_rdonly :: "nvram_env \<Rightarrow> nvram_files \<Rightarrow> nvram_handle option option" where
  "nvram_open_rdonly e w =
     (case nvram_staging w of
        Some f \<Rightarrow> nvram_open_file e True w (Some f)
      | None \<Rightarrow> (case nvram_mtd w of None \<Rightarrow> Some None | Some d \<Rightarrow> nvram_open_file e True w (Some d)))"

definition nvram_open_staging :: "nvram_env \<Rightarrow> nvram_files \<Rightarrow> nvram_handle option option \<times> nvram_files" where
  "nvram_open_staging e w =
     (let (ret, w1) = (if nvram_staging w \<noteq> None then (0, w) else nvram_to_staging w)
      in (if ret = 0 then nvram_open_file e False w1 (nvram_staging w1) else Some None, w1))"

section \<open>Commands\<close>

definition do_show :: "nvram_handle \<Rightarrow> int \<times> nvram_msg list \<times> nvram_handle" where
  "do_show h =
     (case nvram_getall h of
        (l, h1) \<Rightarrow> if l = [] then (1, [], h1) else (0, map (\<lambda>t. Variable (tname t) (tvalue t)) l, h1))"

definition do_get :: "nvram_handle \<Rightarrow> u8 list \<Rightarrow> int \<times> nvram_msg list" where
  "do_get h var = (case nvram_get h var of Some val \<Rightarrow> (0, [Value val]) | None \<Rightarrow> (1, []))"

definition do_unset :: "nvram_handle \<Rightarrow> u8 list \<Rightarrow> int \<times> nvram_handle" where
  "do_unset h var = (0, nvram_unset h var)"

definition do_set :: "nvram_handle \<Rightarrow> u8 list \<Rightarrow> int \<times> nvram_handle" where
  "do_set h pair =
     (if EQ_SIGN \<in> set pair then
        let var = takeWhile (\<lambda>x. x \<noteq> EQ_SIGN) pair
        in nvram_set h var (drop (length var + 1) pair)
      else (1, h))"

text \<open>
  The header, and the checksum over its last eleven bytes and the data. A length below nine makes the
  number of bytes wrap around.
\<close>

definition do_info :: "nvram_handle \<Rightarrow> nvram_msg option" where
  "do_info h =
     (let m = mmap h; off = h_offset h; n = uint (hdr_len m off - of_nat NVRAM_CRC_START_POSITION)
      in if length m < off + NVRAM_HDR \<or> int (length m) < int (off + NVRAM_CRC_START_POSITION) + n then None
         else
           let crc = hndcrc8 (rd_bytes m (off + NVRAM_CRC_START_POSITION) (nat n)) 0xff
           in Some (Header
                [hdr_magic m off, hdr_len m off, of_nat off, crc_ver_init m off AND 0xff,
                 drop_bit 8 (crc_ver_init m off) AND 0xff, drop_bit 16 (crc_ver_init m off) AND 0xffff,
                 config_refresh m off AND 0xffff, drop_bit 16 (config_refresh m off) AND 0xffff, config_ncdl m off]
                crc))"

text \<open>The state of the loop over the arguments.\<close>

record nvram_loop =
  lp_handle :: nvram_handle
  lp_commit :: bool
  lp_stat :: int
  lp_done :: nat
  lp_out :: "nvram_msg list"

fun nvram_args :: "u8 list list \<Rightarrow> nvram_loop \<Rightarrow> nvram_loop option" where
  "nvram_args [] s = Some s"
| "nvram_args (arg # args) s =
     (if arg = cstr ''show'' then
        case do_show (lp_handle s) of
          (stat, out, h) \<Rightarrow>
            nvram_args args (s\<lparr>lp_handle := h, lp_stat := stat, lp_done := lp_done s + 1, lp_out := lp_out s @ out\<rparr>)
      else if arg = cstr ''info'' then
        do {
          out \<leftarrow> do_info (lp_handle s);
          nvram_args args (s\<lparr>lp_stat := 0, lp_done := lp_done s + 1, lp_out := lp_out s @ [out]\<rparr>)
        }
      else if arg = cstr ''get'' \<or> arg = cstr ''unset'' \<or> arg = cstr ''set'' then
        case args of
          [] \<Rightarrow> Some (s\<lparr>lp_done := 0, lp_out := lp_out s @ [Needs_argument arg]\<rparr>)
        | x # args' \<Rightarrow>
            nvram_args args'
              (if arg = cstr ''get'' then
                 (case do_get (lp_handle s) x of
                    (stat, out) \<Rightarrow> s\<lparr>lp_stat := stat, lp_done := lp_done s + 1, lp_out := lp_out s @ out\<rparr>)
               else
                 (case (if arg = cstr ''unset'' then do_unset (lp_handle s) x else do_set (lp_handle s) x) of
                    (stat, h) \<Rightarrow> s\<lparr>lp_handle := h, lp_stat := stat, lp_done := lp_done s + 1\<rparr>))
      else if arg = cstr ''commit'' then nvram_args args (s\<lparr>lp_commit := True, lp_done := lp_done s + 1\<rparr>)
      else Some (s\<lparr>lp_done := 0, lp_out := lp_out s @ [Unknown_option arg]\<rparr>))"

text \<open>Whether the first command is one that writes.\<close>

definition wants_write :: "u8 list list \<Rightarrow> bool" where
  "wants_write args \<longleftrightarrow>
     args \<noteq> [] \<and> (hd args = cstr ''set'' \<and> 1 < length args \<or> hd args = cstr ''unset'' \<and> 1 < length args \<or>
       hd args = cstr ''commit'')"

text \<open>
  \<open>main\<close>, for the arguments behind the name of the program: the exit status, what was printed, and the
  files. The mapping of the staging file is shared, so that a commit of the handle is one of the file.
\<close>

definition nvram_main :: "nvram_env \<Rightarrow> u8 list list \<Rightarrow> nvram_files \<Rightarrow> (int \<times> nvram_msg list \<times> nvram_files) option" where
  "nvram_main e args w =
     (if args = [] then Some (1, [Usage], w)
      else
        let write = wants_write args;
            (opened, w1) = (if write then nvram_open_staging e w else (nvram_open_rdonly e w, w))
        in do {
             nvram \<leftarrow> opened;
             case nvram of
               None \<Rightarrow> Some (1, [Could_not_open], w1)
             | Some h \<Rightarrow>
                 do {
                   s \<leftarrow> nvram_args args \<lparr>lp_handle = h, lp_commit = False, lp_stat = 1, lp_done = 0, lp_out = []\<rparr>;
                   (stat, w2) \<leftarrow>
                     (if write then
                        map_option (\<lambda>h'. (0, w1\<lparr>nvram_staging :=
                            map_option (\<lambda>f. mmap h' @ drop (length (mmap h')) f) (nvram_staging w1)\<rparr>))
                          (nvram_commit (h_length (lp_handle s)) (lp_handle s))
                      else Some (lp_stat s, w1));
                   let (stat, w3) = (if lp_commit s then staging_to_nvram w2 else (stat, w2));
                   Some (if lp_done s = 0 then (1, lp_out s @ [Usage], w3) else (stat, lp_out s, w3))
                 }
           })"

section \<open>The commands on the variables\<close>

text \<open>
  Files with a valid image: the partition, and the image \<open>m\<close> that the commands work on, which is the
  staging file when there is one.
\<close>

definition files_ok :: "nvram_env \<Rightarrow> nvram_files \<Rightarrow> u8 list \<Rightarrow> nat \<Rightarrow> nvram_tuple list \<Rightarrow> bool" where
  "files_ok e w m off us \<longleftrightarrow>
     env_answers e = [] \<and> addr_ok (env_addr e) (length m) \<and> holds_image (length m) m off us \<and>
     off + image_len us < length m \<and>
     (\<exists>d. nvram_mtd w = Some d \<and> length d = length m \<and> (case nvram_staging w of None \<Rightarrow> m = d | Some f \<Rightarrow> m = f))"

lemma files_okD:
  assumes "files_ok e w m off us"
  shows "env_answers e = []" "addr_ok (env_addr e) (length m)" "holds_image (length m) m off us"
    "off + image_len us < length m" "nvram_find_mtd w = Some (length m)" "m \<noteq> []"
    "\<exists>d. nvram_mtd w = Some d \<and> length d = length m \<and> (case nvram_staging w of None \<Rightarrow> m = d | Some f \<Rightarrow> m = f)"
  using assms by (auto simp: files_ok_def nvram_find_mtd_def)

lemma files_ok_open:
  assumes "files_ok e w m off us"
  shows "\<exists>g. nvram_open (length m) rdonly (env_addr e) (env_signed e) (env_answers e) (Some m) = Some (Some g) \<and>
    vars_ok g \<and> mapped_ok (length m) g \<and> mmap g = m \<and> h_offset g = off \<and> nvram_get g = image_vars m off us"
  using nvram_open_image [OF files_okD(3,2) [OF assms], of rdonly "env_signed e"] files_okD(1,4) [OF assms] by auto

lemma files_ok_readers:
  assumes "files_ok e w m off us"
  shows "nvram_open_rdonly e w = nvram_open (length m) True (env_addr e) (env_signed e) (env_answers e) (Some m)"
    "nvram_open_staging e w =
       (nvram_open (length m) False (env_addr e) (env_signed e) (env_answers e) (Some m), w\<lparr>nvram_staging := Some m\<rparr>)"
proof -
  note f = files_okD [OF assms]
  obtain d where d: "nvram_mtd w = Some d" "length d = length m" "case nvram_staging w of None \<Rightarrow> m = d | Some f \<Rightarrow> m = f"
    using f(7) by blast
  have open_file: "nvram_open_file e rd v (Some m) = nvram_open (length m) rd (env_addr e) (env_signed e) (env_answers e) (Some m)"
    if "nvram_find_mtd v = Some (length m)" for rd v
    using that f(6) by (simp add: nvram_open_file_def nvram_map_def)
  have find: "nvram_find_mtd (w\<lparr>nvram_staging := Some m\<rparr>) = Some (length m)" using f(5) by (simp add: nvram_find_mtd_def)
  consider (flash) "nvram_staging w = None" "nvram_mtd w = Some m" | (staged) "nvram_staging w = Some m"
    using d by (cases "nvram_staging w") auto
  note cases = this
  from cases show "nvram_open_rdonly e w = nvram_open (length m) True (env_addr e) (env_signed e) (env_answers e) (Some m)"
    by cases (simp_all add: nvram_open_rdonly_def open_file [OF f(5)])
  from cases show "nvram_open_staging e w =
       (nvram_open (length m) False (env_addr e) (env_signed e) (env_answers e) (Some m), w\<lparr>nvram_staging := Some m\<rparr>)"
  proof cases
    case flash
    then show ?thesis using f(6) by (simp add: nvram_open_staging_def nvram_to_staging_def open_file [OF find])
  next
    case staged
    then have "w\<lparr>nvram_staging := Some m\<rparr> = w" by simp
    then show ?thesis using staged by (simp add: nvram_open_staging_def open_file [OF f(5)])
  qed
qed

text \<open>
  A commit of a handle whose variables include the SDRAM ones: the image has the variables of the handle.
\<close>

lemma commit_vars:
  assumes f: "files_ok e w m off us" and h: "vars_ok h" "mapped_ok (length m) h" "mmap h = m" "h_offset h = off"
    and sdram: "sdram_names \<subseteq> dom (nvram_get h)" and room: "off + image_len (tuples h) < length m"
  obtains h' where "nvram_commit (length m) h = Some h'" "length (mmap h') = length m"
    "files_ok e (w\<lparr>nvram_staging := Some (mmap h')\<rparr>) (mmap h') off (tuples h)"
    "image_vars (mmap h') off (tuples h) = nvram_get h"
proof -
  note d = files_okD [OF f]
  note md = mapped_okD [OF h(2)]
  have fits: "h_offset h + NVRAM_HDR + length (vars_image (tuples h)) + 2 \<le> length m"
    using room h(4) by (simp add: image_len_def NVRAM_ROUNDUP_def)
  have first: "\<forall>k < h_offset h div 4. rd32 (mmap h) (4 * k) \<noteq> NVRAM_MAGIC" and reach: "int (h_offset h div 4) \<le> magic_last (length m)"
    using d(3) h(3,4) by (simp_all add: holds_image_def)
  obtain h' where h': "nvram_commit (length m) h = Some h'" "holds_image (length m) (mmap h') off (tuples h)"
    using nvram_commit_holds_image [OF h(1,2) fits first reach] h(4) by blast
  then have len: "length (mmap h') = length m" by (simp add: holds_image_def)
  have "map_of (sdram_params (mmap h') off) ++ nvram_get h = nvram_get h"
  proof
    fix n
    show "(map_of (sdram_params (mmap h') off) ++ nvram_get h) n = nvram_get h n"
    proof (cases "nvram_get h n")
      case None
      then have "n \<notin> sdram_names" using sdram by blast
      then have "map_of (sdram_params (mmap h') off) n = None"
        using sdram_params_dom [of "mmap h'" off] by (simp add: map_of_eq_None_iff del: insert_iff)
      then show ?thesis using None by (simp add: map_add_def)
    qed simp
  qed
  then have "image_vars (mmap h') off (tuples h) = nvram_get h" by (simp add: image_vars_def map_of_tuples [OF h(1)])
  moreover have "files_ok e (w\<lparr>nvram_staging := Some (mmap h')\<rparr>) (mmap h') off (tuples h)"
    using d(1,2,7) h'(2) room by (auto simp: files_ok_def len)
  ultimately show thesis using that h'(1) len by blast
qed

lemma finite_image_vars: "finite (dom (image_vars m off us))"
  by (simp add: image_vars_def finite_dom_map_of)

lemma image_vars_sdram: "sdram_names \<subseteq> dom (image_vars m off us)"
  using sdram_params_dom [of m off] by (auto simp: image_vars_def dom_map_of_conv_image_fst)

text \<open>The size of the variables in an image, from the map alone.\<close>

definition map_size :: "(u8 list \<Rightarrow> u8 list option) \<Rightarrow> nat" where
  "map_size M = (\<Sum>n \<in> dom M. length n + length (the (M n)) + 2)"

definition map_image_len :: "(u8 list \<Rightarrow> u8 list option) \<Rightarrow> nat" where
  "map_image_len M = NVRAM_ROUNDUP (NVRAM_HDR + map_size M + 2) 4"

lemma vars_image_size:
  assumes "vars_ok h"
  shows "length (vars_image (tuples h)) = map_size (nvram_get h)"
proof -
  let ?ts = "tuples h" and ?f = "\<lambda>t. length (tname t) + length (the (tvalue t)) + 2"
  have d: "distinct (map tname ?ts)" using tuples_distinct assms by (simp add: vars_ok_def)
  then have dt: "distinct ?ts" and inj: "inj_on tname (set ?ts)" by (simp_all add: distinct_map)
  have m: "nvram_get h = map_of (pairs ?ts)" using map_of_tuples [OF assms] by simp
  have dom: "dom (nvram_get h) = tname ` set ?ts"
    unfolding m dom_map_of_conv_image_fst by (force simp: pairs_def)
  have val: "the (nvram_get h (tname t)) = the (tvalue t)" if "t \<in> set ?ts" for t
  proof -
    have "(tname t, the (tvalue t)) \<in> set (pairs ?ts)" using that by (auto simp: pairs_def)
    then have "map_of (pairs ?ts) (tname t) = Some (the (tvalue t))" using d by (simp add: map_of_eq_Some_iff)
    then show ?thesis by (simp add: m)
  qed
  have "length (vars_image ts) = sum_list (map ?f ts)" for ts
    by (induction ts) (simp_all add: tuple_var_def env_var_def)
  also have "sum_list (map ?f ?ts) = sum ?f (set ?ts)" using dt by (rule sum_list_distinct_conv_sum_set)
  also have "\<dots> = map_size (nvram_get h)"
    unfolding map_size_def dom sum.reindex [OF inj] using val by (intro sum.cong) simp_all
  finally show ?thesis .
qed

lemma image_len_map: "vars_ok h \<Longrightarrow> image_len (tuples h) = map_image_len (nvram_get h)"
  by (simp add: image_len_def map_image_len_def vars_image_size)

text \<open>A command that changes the variables works on the staging file, which it makes from the partition when there is none.\<close>

lemma nvram_main_write:
  assumes f: "files_ok e w m off us" and wr: "wants_write args"
    and g: "nvram_open (length m) False (env_addr e) (env_signed e) [] (Some m) = Some (Some g)"
    and run: "nvram_args args \<lparr>lp_handle = g, lp_commit = False, lp_stat = 1, lp_done = 0, lp_out = []\<rparr> = Some s"
    and dn: "lp_done s \<noteq> 0" and len: "h_length (lp_handle s) = length m"
    and c: "nvram_commit (length m) (lp_handle s) = Some h'" "length (mmap h') = length m"
  shows "nvram_main e args w =
    Some (if lp_commit s then (case staging_to_nvram (w\<lparr>nvram_staging := Some (mmap h')\<rparr>) of (st, v) \<Rightarrow> (st, lp_out s, v))
      else (0, lp_out s, w\<lparr>nvram_staging := Some (mmap h')\<rparr>))"
proof -
  have "args \<noteq> []" using wr by (simp add: wants_write_def)
  then show ?thesis
    using files_ok_readers(2) [OF f] files_okD(1) [OF f] wr g run dn len c
    by (simp add: nvram_main_def Let_def split: prod.splits)
qed

text \<open>
  C8. \<^verbatim>\<open>nvram set name=value\<close>, when the image has room for the variable: the command succeeds, and the staging
  file holds an image with the variables that there were and the new value. The partition stays as it is.
\<close>
theorem nvram_set_command:
  assumes f: "files_ok e w m off us"
    and kv: "EQ_SIGN \<notin> set k" "0 \<notin> set k" "0 \<notin> set v"
    and size: "off + map_image_len ((image_vars m off us)(k \<mapsto> v)) < length m"
  shows "\<exists>m' us'. nvram_main e [cstr ''set'', k @ EQ_SIGN # v] w = Some (0, [], w\<lparr>nvram_staging := Some m'\<rparr>) \<and>
    files_ok e (w\<lparr>nvram_staging := Some m'\<rparr>) m' off us' \<and> image_vars m' off us' = (image_vars m off us)(k \<mapsto> v)"
proof -
  obtain g where g: "nvram_open (length m) False (env_addr e) (env_signed e) [] (Some m) = Some (Some g)"
    and gg: "vars_ok g" "mapped_ok (length m) g" "mmap g = m" "h_offset g = off" "nvram_get g = image_vars m off us"
    using files_ok_open [OF f, of False] files_okD(1) [OF f] by auto
  note md = mapped_okD [OF gg(2)]
  let ?h = "snd (nvram_set g k v)"
  have "length v \<le> map_size ((image_vars m off us)(k \<mapsto> v))"
    using member_le_sum [of k "dom ((image_vars m off us)(k \<mapsto> v))" "\<lambda>n. length n + length (the (((image_vars m off us)(k \<mapsto> v)) n)) + 2"]
      finite_image_vars [of m off us] by (simp add: map_size_def)
  then have "length v + 22 \<le> map_image_len ((image_vars m off us)(k \<mapsto> v))" by (simp add: map_image_len_def NVRAM_ROUNDUP_def)
  then have fits: "nvram_fits g v" using md size gg(4) by (simp add: nvram_fits_def)
  have env: "env_var_ok (k, v)" using kv by (simp add: env_var_ok_def)
  note h = nvram_set_vars_ok [OF gg(1) fits env]
  have "nvram_ok g" using gg(1) by (simp add: vars_ok_def)
  then obtain t where t: "nvram_set g k v = (0, t)" "nvram_get t = (nvram_get g)(k \<mapsto> v)"
    using fits by (rule nv.put_ok)
  have hget: "nvram_get ?h = (image_vars m off us)(k \<mapsto> v)" using t gg(5) by simp
  have "answers ?h = []" using h fits by (metis nvram_fits_def)
  then have hm: "mapped_ok (length m) ?h" using h gg(2) by (simp add: mapped_ok_def sized_ok_def)
  have hmm: "mmap ?h = m" "h_offset ?h = off" using h gg by simp_all
  have sdram: "sdram_names \<subseteq> dom (nvram_get ?h)" using image_vars_sdram [of m off us] by (auto simp: hget)
  have room: "off + image_len (tuples ?h) < length m" using size image_len_map h by (simp add: hget)
  obtain h' where h': "nvram_commit (length m) ?h = Some h'" "length (mmap h') = length m"
    "files_ok e (w\<lparr>nvram_staging := Some (mmap h')\<rparr>) (mmap h') off (tuples ?h)" "image_vars (mmap h') off (tuples ?h) = nvram_get ?h"
    using commit_vars [OF f h [THEN conjunct1] hm hmm sdram room] .
  have take: "takeWhile (\<lambda>x. x \<noteq> EQ_SIGN) (k @ EQ_SIGN # v) = k"
    using kv(1) by (simp add: takeWhile_append)
  have "do_set g (k @ EQ_SIGN # v) = (0, ?h)" using t(1) unfolding do_set_def take by simp
  then have run: "nvram_args [cstr ''set'', k @ EQ_SIGN # v] \<lparr>lp_handle = g, lp_commit = False, lp_stat = 1, lp_done = 0, lp_out = []\<rparr> =
      Some \<lparr>lp_handle = ?h, lp_commit = False, lp_stat = 0, lp_done = 1, lp_out = []\<rparr>" by simp
  have "nvram_main e [cstr ''set'', k @ EQ_SIGN # v] w = Some (0, [], w\<lparr>nvram_staging := Some (mmap h')\<rparr>)"
    using nvram_main_write [OF f _ g run] h'(1,2) mapped_okD(1) [OF hm] by (simp add: wants_write_def)
  then show ?thesis using h'(3,4) hget by auto
qed


text \<open>
  \<^verbatim>\<open>nvram get name\<close> prints the value that the image has for the variable, or nothing with status 1; the files stay
  as they are.
\<close>
theorem nvram_get_command:
  assumes f: "files_ok e w m off us"
  shows "nvram_main e [cstr ''get'', k] w =
    Some (case image_vars m off us k of Some v \<Rightarrow> (0, [Value v], w) | None \<Rightarrow> (1, [], w))"
proof -
  obtain g where g: "nvram_open (length m) True (env_addr e) (env_signed e) (env_answers e) (Some m) = Some (Some g)"
    "nvram_get g = image_vars m off us"
    using files_ok_open [OF f, of True] by blast
  then show ?thesis
    using files_ok_readers(1) [OF f]
    by (simp add: nvram_main_def wants_write_def Let_def do_get_def split: option.split)
qed

text \<open>
  \<^verbatim>\<open>nvram set\<close> with an argument that has no \<^verbatim>\<open>=\<close> sets nothing, and the exit status is 0 all the same: the status of
  the commit of the staging file replaces that of the command.
\<close>
theorem nvram_set_without_value:
  assumes f: "files_ok e w m off us" and "EQ_SIGN \<notin> set arg"
    and size: "off + map_image_len (image_vars m off us) < length m"
  shows "\<exists>m' us'. nvram_main e [cstr ''set'', arg] w = Some (0, [], w\<lparr>nvram_staging := Some m'\<rparr>) \<and>
    files_ok e (w\<lparr>nvram_staging := Some m'\<rparr>) m' off us' \<and> image_vars m' off us' = image_vars m off us"
proof -
  obtain g where g: "nvram_open (length m) False (env_addr e) (env_signed e) [] (Some m) = Some (Some g)"
    and gg: "vars_ok g" "mapped_ok (length m) g" "mmap g = m" "h_offset g = off" "nvram_get g = image_vars m off us"
    using files_ok_open [OF f, of False] files_okD(1) [OF f] by auto
  have sdram: "sdram_names \<subseteq> dom (nvram_get g)" using image_vars_sdram [of m off us] by (simp add: gg(5))
  have room: "off + image_len (tuples g) < length m" using size image_len_map [OF gg(1)] by (simp add: gg(5))
  obtain h' where h': "nvram_commit (length m) g = Some h'" "length (mmap h') = length m"
    "files_ok e (w\<lparr>nvram_staging := Some (mmap h')\<rparr>) (mmap h') off (tuples g)" "image_vars (mmap h') off (tuples g) = nvram_get g"
    using commit_vars [OF f gg(1-4) sdram room] .
  have set: "do_set g arg = (1, g)" using assms(2) by (simp add: do_set_def)
  then have run: "nvram_args [cstr ''set'', arg] \<lparr>lp_handle = g, lp_commit = False, lp_stat = 1, lp_done = 0, lp_out = []\<rparr> =
      Some \<lparr>lp_handle = g, lp_commit = False, lp_stat = 1, lp_done = 1, lp_out = []\<rparr>" by simp
  have "nvram_main e [cstr ''set'', arg] w = Some (0, [], w\<lparr>nvram_staging := Some (mmap h')\<rparr>)"
    using nvram_main_write [OF f _ g run] h'(1,2) mapped_okD(1) [OF gg(2)] by (simp add: wants_write_def)
  then show ?thesis using h'(3,4) gg(5) by auto
qed

section \<open>The header that is shown\<close>

lemma le_bytes_high: "drop 1 (le_bytes 4 (w OR ucast (c :: u8))) = drop 1 (le_bytes 4 (w :: u32))"
proof -
  have "drop_bit (8 + 8 * i) (ucast c :: u32) = 0" for i
    by (rule bit_word_eqI) (auto simp: bit_drop_bit_eq bit_unsigned_iff dest: bit_imp_le_length)
  then show ?thesis by (intro nth_equalityI) (auto simp: le_bytes_nth)
qed

lemma bit_0x100: "bit (0x100 :: int) n \<longleftrightarrow> n = 8"
proof -
  have "bit (push_bit 8 (1 :: int)) n \<longleftrightarrow> n = 8" unfolding bit_push_bit_iff bit_1_iff by auto
  then show ?thesis by simp
qed

lemma bit_0xff: "bit (0xff :: int) n \<longleftrightarrow> n < 8"
proof -
  have "bit (mask 8 :: int) n \<longleftrightarrow> n < 8" unfolding bit_mask_iff by auto
  then show ?thesis by (simp add: mask_eq_exp_minus_1)
qed

lemma crc_field:
  "((0x100 OR push_bit 16 ini) OR ucast (c :: u8)) AND 0xff = (ucast c :: u32)"
  "drop_bit 8 ((0x100 OR push_bit 16 ini) OR ucast (c :: u8)) AND 0xff = (1 :: u32)"
  by (rule bit_word_eqI, auto simp: bit_simps bit_0x100 bit_0xff dest: bit_imp_le_length)+

text \<open>The bytes that \<open>do_info\<close> checks: those that went into the checksum of the image.\<close>

lemma rd_bytes_checked:
  assumes "length pre = off" "mm = pre @ image_head (ini, cfg, ncdl) len data @ data" "NVRAM_HDR \<le> len" "len - NVRAM_HDR \<le> length data"
  shows "rd_bytes mm (off + NVRAM_CRC_START_POSITION) (len - 9) =
    drop 1 (le_bytes 4 (0x100 OR push_bit 16 ini :: u32)) @ le_bytes 4 cfg @ le_bytes 4 ncdl @ take (len - NVRAM_HDR) data"
proof -
  let ?cvi = "0x100 OR push_bit 16 ini :: u32"
  obtain crc :: u8 where head: "image_head (ini, cfg, ncdl) len data = le_bytes 4 NVRAM_MAGIC @ le_bytes 4 (of_nat len :: u32) @
      le_bytes 4 (?cvi OR ucast crc) @ le_bytes 4 cfg @ le_bytes 4 ncdl"
    by (simp add: image_head_def Let_def)
  have "length mm = off + NVRAM_HDR + length data" using assms(1) by (simp add: assms(2) head)
  then have "rd_bytes mm (off + NVRAM_CRC_START_POSITION) (len - 9) = take (len - 9) (drop (off + 9) mm)"
    using assms(3,4) by (intro rd_bytes_take_drop) simp
  also have "drop (off + 9) mm = drop 1 (le_bytes 4 (?cvi OR ucast crc)) @ le_bytes 4 cfg @ le_bytes 4 ncdl @ data"
    unfolding assms(2) head using assms(1) by simp
  finally show ?thesis using assms(3) by (simp add: le_bytes_high [simplified])
qed

text \<open>
  C28. The header that a commit writes is valid, as \<^verbatim>\<open>nvram info\<close> shows it: magic number and version, a length
  in the partition that is a multiple of four, and a stored checksum that is the one calculated.
\<close>
theorem nvram_commit_info:
  assumes ok: "vars_ok h" and m: "mapped_ok psz h"
  shows "\<exists>h' flen crc ini config refresh ncdl. nvram_commit psz h = Some h' \<and>
    do_info h' = Some (Header [NVRAM_MAGIC, flen, of_nat (h_offset h), ucast crc, NVRAM_VERSION, ini, config, refresh, ncdl] crc) \<and>
    h_offset h + unat flen \<le> psz \<and> unat flen mod 4 = 0"
proof -
  let ?off = "h_offset h"
  note md = mapped_okD [OF m]
  obtain h' us where r: "nvram_commit psz h = Some h'" "?off + NVRAM_HDR + length (vars_image us) + 2 \<le> psz"
    "mmap h' = take ?off (mmap h) @ image_layout (sdram_words h) us (psz - ?off)" "mapped_ok psz h'" "h_offset h' = ?off"
    using nvram_commit_result [OF ok m] by blast
  let ?m = "mmap h'" and ?pre = "take ?off (mmap h)"
  have lp: "length ?pre = ?off" using md by simp
  obtain ini cfg ncdl where w: "sdram_words h = (ini, cfg, ncdl)" by (cases "sdram_words h")
  let ?data = "image_data us (psz - ?off - NVRAM_HDR)" and ?len = "image_len us"
  define cvi :: u32 where "cvi = 0x100 OR push_bit 16 ini"
  define crc where "crc = hndcrc8 (drop 1 (le_bytes 4 cvi) @ le_bytes 4 cfg @ le_bytes 4 ncdl @ take (?len - NVRAM_HDR) ?data) 0xff"
  have mm: "?m = ?pre @ image_head (ini, cfg, ncdl) ?len ?data @ ?data" by (simp add: r(3) image_layout_def w)
  note fields = image_head_fields [OF lp, of ini cfg ncdl ?len ?data ?data, folded mm, folded cvi_def, folded crc_def]
  note bounds = image_len_bounds [OF md(4,5) r(2)]
  have "?len < 2 ^ 32" using bounds(1) md(7) by simp
  then have flen: "unat (hdr_len ?m ?off) = ?len" unfolding fields(2) by (intro unat_of_nat_small) simp
  have n: "uint (hdr_len ?m ?off - of_nat NVRAM_CRC_START_POSITION) = int (?len - 9)"
  proof -
    have "unat (9 :: u32) \<le> unat (hdr_len ?m ?off)" using bounds(2) flen by simp
    then have "(9 :: u32) \<le> hdr_len ?m ?off" by (simp add: word_le_nat_alt)
    then have "unat (hdr_len ?m ?off - 9) = ?len - 9" by (simp add: unat_sub flen)
    then show ?thesis by (metis uint_nat of_nat_numeral)
  qed
  have rd: "rd_bytes ?m (?off + NVRAM_CRC_START_POSITION) (?len - 9) =
      drop 1 (le_bytes 4 cvi) @ le_bytes 4 cfg @ le_bytes 4 ncdl @ take (?len - NVRAM_HDR) ?data"
    unfolding cvi_def using lp mm bounds(1,2) mapped_okD(2) [OF r(4)] by (intro rd_bytes_checked) (simp_all add: image_data_def Let_def)
  have nat9: "nat (int ?len - 9) = ?len - 9" by arith
  have info: "do_info h' = Some (Header [NVRAM_MAGIC, hdr_len ?m ?off, of_nat ?off, crc_ver_init ?m ?off AND 0xff,
      drop_bit 8 (crc_ver_init ?m ?off) AND 0xff, drop_bit 16 (crc_ver_init ?m ?off) AND 0xffff, config_refresh ?m ?off AND 0xffff,
      drop_bit 16 (config_refresh ?m ?off) AND 0xffff, config_ncdl ?m ?off] crc)"
    using mapped_okD(2) [OF r(4)] md(3) bounds(1,2) n fields(1) by (simp add: do_info_def Let_def r(5) crc_def rd [simplified] nat9)
  have cv: "crc_ver_init ?m ?off = cvi OR ucast crc" unfolding fields(3) by (simp add: cvi_def or.assoc)
  have f: "crc_ver_init ?m ?off AND 0xff = ucast crc" "drop_bit 8 (crc_ver_init ?m ?off) AND 0xff = NVRAM_VERSION"
    unfolding cv cvi_def by (rule crc_field)+
  have "?off + unat (hdr_len ?m ?off) \<le> psz \<and> unat (hdr_len ?m ?off) mod 4 = 0" unfolding flen using bounds(1,3) by blast
  note res = r(1) info [unfolded f] this
  let ?x = "drop_bit 16 (crc_ver_init ?m ?off) AND 0xffff" and ?y = "config_refresh ?m ?off AND 0xffff"
    and ?z = "drop_bit 16 (config_refresh ?m ?off) AND 0xffff"
  show ?thesis
    by (rule exI [of _ h'], rule exI [of _ "hdr_len ?m ?off"], rule exI [of _ crc], rule exI [of _ ?x], rule exI [of _ ?y],
      rule exI [of _ ?z], rule exI [of _ "config_ncdl ?m ?off"], intro conjI, fact res(1), fact res(2),
      fact res(3) [THEN conjunct1], fact res(3) [THEN conjunct2])
qed

section \<open>The commands on a small partition\<close>

definition demo_flash :: "u8 list" where
  "demo_flash = image_layout (SDRAM_INIT, SDRAM_CONFIG OR push_bit 16 SDRAM_REFRESH, 0)
     [\<lparr>tname = cstr ''a'', tvalue = Some (cstr ''1'')\<rparr>] 128"

definition demo_env :: nvram_env where
  "demo_env = \<lparr>env_addr = 0x76000000, env_signed = True, env_answers = []\<rparr>"

definition demo_files :: nvram_files where
  "demo_files = \<lparr>nvram_mtd = Some demo_flash, nvram_staging = None\<rparr>"

abbreviation "demo_tuples \<equiv> [\<lparr>tname = cstr ''a'', tvalue = Some (cstr ''1'')\<rparr>]"

lemma demo_flash_length: "length demo_flash = 128"
  by (simp add: demo_flash_def image_layout_def image_data_def vars_image_def tuple_var_def env_var_def Let_def)

lemma demo_files_ok: "files_ok demo_env demo_files demo_flash 0 demo_tuples"
proof -
  have "length (vars_image demo_tuples) = 4" "image_len demo_tuples = 28"
    by (simp_all add: vars_image_def tuple_var_def env_var_def image_len_def NVRAM_ROUNDUP_def)
  moreover have "0 \<le> magic_last 128" by (simp add: magic_last_def)
  moreover have "\<exists>w. demo_flash = image_layout w demo_tuples 128" unfolding demo_flash_def by blast
  ultimately show ?thesis
    by (simp add: files_ok_def holds_image_def demo_flash_length demo_env_def demo_files_def addr_ok_def env_var_ok_def)
qed

text \<open>The size that a variable takes; a map of few variables is measured by its keys.\<close>

lemma map_size_upd:
  assumes "finite (dom M)"
  shows "map_size (M(k \<mapsto> v)) = length k + length v + 2 + map_size (M(k := None))"
proof -
  have "(\<Sum>n \<in> dom M - {k}. length n + length (the ((M(k \<mapsto> v)) n)) + 2) = map_size (M(k := None))"
    unfolding map_size_def by (intro sum.cong) auto
  then show ?thesis using assms by (simp add: map_size_def sum.insert_remove)
qed

lemma map_size_empty: "map_size Map.empty = 0"
  by (simp add: map_size_def)

lemma demo_vars:
  "\<exists>i c r n. length i = 6 \<and> length c = 6 \<and> length r = 6 \<and> length n = 10 \<and> image_vars demo_flash 0 demo_tuples =
     [sdram_init \<mapsto> i, sdram_config \<mapsto> c, sdram_refresh \<mapsto> r, sdram_ncdl \<mapsto> n, cstr ''a'' \<mapsto> cstr ''1'']"
proof -
  have "image_vars demo_flash 0 demo_tuples = [sdram_init \<mapsto> hex0x 4 (take_bit 16 (drop_bit 16 (crc_ver_init demo_flash 0))),
      sdram_config \<mapsto> hex0x 4 (take_bit 16 (config_refresh demo_flash 0)),
      sdram_refresh \<mapsto> hex0x 4 (take_bit 16 (drop_bit 16 (config_refresh demo_flash 0))),
      sdram_ncdl \<mapsto> hex0x 8 (config_ncdl demo_flash 0), cstr ''a'' \<mapsto> cstr ''1'']"
    by (rule ext) (simp add: image_vars_def sdram_params_def pairs_def)
  then show ?thesis unfolding hex0x_def by (intro exI conjI) (simp_all)
qed

lemma demo_sizes:
  "map_image_len (image_vars demo_flash 0 demo_tuples) = 108"
  "map_image_len ((image_vars demo_flash 0 demo_tuples)(cstr ''b'' \<mapsto> cstr ''2'')) = 112"
proof -
  obtain i c r n where l: "length i = 6" "length c = 6" "length r = 6" "length n = 10" and v: "image_vars demo_flash 0 demo_tuples =
     [sdram_init \<mapsto> i, sdram_config \<mapsto> c, sdram_refresh \<mapsto> r, sdram_ncdl \<mapsto> n, cstr ''a'' \<mapsto> cstr ''1'']"
    using demo_vars by blast
  show "map_image_len (image_vars demo_flash 0 demo_tuples) = 108"
    "map_image_len ((image_vars demo_flash 0 demo_tuples)(cstr ''b'' \<mapsto> cstr ''2'')) = 112"
    unfolding v by (simp_all add: map_image_len_def map_size_upd fun_upd_twist map_size_empty l NVRAM_ROUNDUP_def)
qed

lemma demo_values:
  "image_vars demo_flash 0 demo_tuples (cstr ''a'') = Some (cstr ''1'')"
  "image_vars demo_flash 0 demo_tuples (cstr ''x'') = None"
proof -
  obtain i c r n where v: "image_vars demo_flash 0 demo_tuples =
     [sdram_init \<mapsto> i, sdram_config \<mapsto> c, sdram_refresh \<mapsto> r, sdram_ncdl \<mapsto> n, cstr ''a'' \<mapsto> cstr ''1'']"
    using demo_vars by blast
  show "image_vars demo_flash 0 demo_tuples (cstr ''a'') = Some (cstr ''1'')"
    "image_vars demo_flash 0 demo_tuples (cstr ''x'') = None"
    unfolding v by simp_all
qed

text \<open>A variable is set, committed, and read from the partition.\<close>

theorem nvram_set_command_witness:
  "\<exists>m us. nvram_main demo_env [cstr ''set'', cstr ''b=2''] demo_files = Some (0, [], demo_files\<lparr>nvram_staging := Some m\<rparr>) \<and>
     image_vars m 0 us (cstr ''b'') = Some (cstr ''2'') \<and> image_vars m 0 us (cstr ''a'') = Some (cstr ''1'')"
proof -
  have room: "0 + map_image_len ((image_vars demo_flash 0 demo_tuples)(cstr ''b'' \<mapsto> cstr ''2'')) < length demo_flash"
    unfolding demo_sizes(2) demo_flash_length by simp
  have pair: "cstr ''b'' @ EQ_SIGN # cstr ''2'' = cstr ''b=2''" by simp
  obtain m us where r: "nvram_main demo_env [cstr ''set'', cstr ''b=2''] demo_files = Some (0, [], demo_files\<lparr>nvram_staging := Some m\<rparr>)"
    "image_vars m 0 us = (image_vars demo_flash 0 demo_tuples)(cstr ''b'' \<mapsto> cstr ''2'')"
    using nvram_set_command [OF demo_files_ok _ _ _ room, unfolded pair] by auto
  have "image_vars m 0 us (cstr ''b'') = Some (cstr ''2'')" unfolding r(2) by simp
  moreover have "image_vars m 0 us (cstr ''a'') = Some (cstr ''1'')" unfolding r(2) fun_upd_apply demo_values by simp
  ultimately show ?thesis using r(1) by blast
qed


theorem nvram_get_command_witness:
  "nvram_main demo_env [cstr ''get'', cstr ''a''] demo_files = Some (0, [Value (cstr ''1'')], demo_files) \<and>
   nvram_main demo_env [cstr ''get'', cstr ''x''] demo_files = Some (1, [], demo_files)"
  using nvram_get_command [OF demo_files_ok, of "cstr ''a''", unfolded demo_values]
    nvram_get_command [OF demo_files_ok, of "cstr ''x''", unfolded demo_values]
  by simp

theorem nvram_set_without_value_witness:
  "\<exists>m. nvram_main demo_env [cstr ''set'', cstr ''b''] demo_files = Some (0, [], demo_files\<lparr>nvram_staging := Some m\<rparr>)"
  using nvram_set_without_value [OF demo_files_ok, of "cstr ''b''"] demo_sizes(1) demo_flash_length by auto

theorem nvram_commit_info_witness:
  "\<exists>h' out. nvram_commit 64 nvram_demo1 = Some h' \<and> do_info h' = Some out"
  using nvram_commit_info [OF nvram_demo1_ok(1,2)] by blast

end
