(* ===== verification/Mtd_Crc32.thy ===== *)
theory Mtd_Crc32
  imports Le_Bytes
begin

text \<open>
  The checksum of the \<^verbatim>\<open>mtd\<close> tool, \<^verbatim>\<open>src/package/system/mtd/src/crc32.c\<close> and \<^verbatim>\<open>crc32.h\<close>: a table of 256 words and
  the loop over the bytes. There is no complement at the end, unlike in the usual CRC-32.
\<close>

unbundle bit_operations_syntax

definition crc32_table :: "u32 list" where
  "crc32_table =
  [0x00000000, 0x77073096, 0xee0e612c, 0x990951ba, 0x076dc419, 0x706af48f, 0xe963a535, 0x9e6495a3,
   0x0edb8832, 0x79dcb8a4, 0xe0d5e91e, 0x97d2d988, 0x09b64c2b, 0x7eb17cbd, 0xe7b82d07, 0x90bf1d91,
   0x1db71064, 0x6ab020f2, 0xf3b97148, 0x84be41de, 0x1adad47d, 0x6ddde4eb, 0xf4d4b551, 0x83d385c7,
   0x136c9856, 0x646ba8c0, 0xfd62f97a, 0x8a65c9ec, 0x14015c4f, 0x63066cd9, 0xfa0f3d63, 0x8d080df5,
   0x3b6e20c8, 0x4c69105e, 0xd56041e4, 0xa2677172, 0x3c03e4d1, 0x4b04d447, 0xd20d85fd, 0xa50ab56b,
   0x35b5a8fa, 0x42b2986c, 0xdbbbc9d6, 0xacbcf940, 0x32d86ce3, 0x45df5c75, 0xdcd60dcf, 0xabd13d59,
   0x26d930ac, 0x51de003a, 0xc8d75180, 0xbfd06116, 0x21b4f4b5, 0x56b3c423, 0xcfba9599, 0xb8bda50f,
   0x2802b89e, 0x5f058808, 0xc60cd9b2, 0xb10be924, 0x2f6f7c87, 0x58684c11, 0xc1611dab, 0xb6662d3d,
   0x76dc4190, 0x01db7106, 0x98d220bc, 0xefd5102a, 0x71b18589, 0x06b6b51f, 0x9fbfe4a5, 0xe8b8d433,
   0x7807c9a2, 0x0f00f934, 0x9609a88e, 0xe10e9818, 0x7f6a0dbb, 0x086d3d2d, 0x91646c97, 0xe6635c01,
   0x6b6b51f4, 0x1c6c6162, 0x856530d8, 0xf262004e, 0x6c0695ed, 0x1b01a57b, 0x8208f4c1, 0xf50fc457,
   0x65b0d9c6, 0x12b7e950, 0x8bbeb8ea, 0xfcb9887c, 0x62dd1ddf, 0x15da2d49, 0x8cd37cf3, 0xfbd44c65,
   0x4db26158, 0x3ab551ce, 0xa3bc0074, 0xd4bb30e2, 0x4adfa541, 0x3dd895d7, 0xa4d1c46d, 0xd3d6f4fb,
   0x4369e96a, 0x346ed9fc, 0xad678846, 0xda60b8d0, 0x44042d73, 0x33031de5, 0xaa0a4c5f, 0xdd0d7cc9,
   0x5005713c, 0x270241aa, 0xbe0b1010, 0xc90c2086, 0x5768b525, 0x206f85b3, 0xb966d409, 0xce61e49f,
   0x5edef90e, 0x29d9c998, 0xb0d09822, 0xc7d7a8b4, 0x59b33d17, 0x2eb40d81, 0xb7bd5c3b, 0xc0ba6cad,
   0xedb88320, 0x9abfb3b6, 0x03b6e20c, 0x74b1d29a, 0xead54739, 0x9dd277af, 0x04db2615, 0x73dc1683,
   0xe3630b12, 0x94643b84, 0x0d6d6a3e, 0x7a6a5aa8, 0xe40ecf0b, 0x9309ff9d, 0x0a00ae27, 0x7d079eb1,
   0xf00f9344, 0x8708a3d2, 0x1e01f268, 0x6906c2fe, 0xf762575d, 0x806567cb, 0x196c3671, 0x6e6b06e7,
   0xfed41b76, 0x89d32be0, 0x10da7a5a, 0x67dd4acc, 0xf9b9df6f, 0x8ebeeff9, 0x17b7be43, 0x60b08ed5,
   0xd6d6a3e8, 0xa1d1937e, 0x38d8c2c4, 0x4fdff252, 0xd1bb67f1, 0xa6bc5767, 0x3fb506dd, 0x48b2364b,
   0xd80d2bda, 0xaf0a1b4c, 0x36034af6, 0x41047a60, 0xdf60efc3, 0xa867df55, 0x316e8eef, 0x4669be79,
   0xcb61b38c, 0xbc66831a, 0x256fd2a0, 0x5268e236, 0xcc0c7795, 0xbb0b4703, 0x220216b9, 0x5505262f,
   0xc5ba3bbe, 0xb2bd0b28, 0x2bb45a92, 0x5cb36a04, 0xc2d7ffa7, 0xb5d0cf31, 0x2cd99e8b, 0x5bdeae1d,
   0x9b64c2b0, 0xec63f226, 0x756aa39c, 0x026d930a, 0x9c0906a9, 0xeb0e363f, 0x72076785, 0x05005713,
   0x95bf4a82, 0xe2b87a14, 0x7bb12bae, 0x0cb61b38, 0x92d28e9b, 0xe5d5be0d, 0x7cdcefb7, 0x0bdbdf21,
   0x86d3d2d4, 0xf1d4e242, 0x68ddb3f8, 0x1fda836e, 0x81be16cd, 0xf6b9265b, 0x6fb077e1, 0x18b74777,
   0x88085ae6, 0xff0f6a70, 0x66063bca, 0x11010b5c, 0x8f659eff, 0xf862ae69, 0x616bffd3, 0x166ccf45,
   0xa00ae278, 0xd70dd2ee, 0x4e048354, 0x3903b3c2, 0xa7672661, 0xd06016f7, 0x4969474d, 0x3e6e77db,
   0xaed16a4a, 0xd9d65adc, 0x40df0b66, 0x37d83bf0, 0xa9bcae53, 0xdebb9ec5, 0x47b2cf7f, 0x30b5ffe9,
   0xbdbdf21c, 0xcabac28a, 0x53b39330, 0x24b4a3a6, 0xbad03605, 0xcdd70693, 0x54de5729, 0x23d967bf,
   0xb3667a2e, 0xc4614ab8, 0x5d681b02, 0x2a6f2b94, 0xb40bbe37, 0xc30c8ea1, 0x5a05df1b, 0x2d02ef8d]"

definition crc32 :: "u32 \<Rightarrow> u8 list \<Rightarrow> u32" where
  "crc32 val ss = foldl (\<lambda>val s. (crc32_table ! unat ((val XOR ucast s) AND 0xff)) XOR drop_bit 8 val) val ss"

definition crc32buf :: "u8 list \<Rightarrow> u32" where
  "crc32buf buf = crc32 0xFFFFFFFF buf"

section \<open>The checksum, bit by bit\<close>

text \<open>
  The polynomial of the comment, \<open>X^32+X^26+X^23+X^22+X^16+X^12+X^11+X^10+X^8+X^7+X^5+X^4+X^2+X^1+X^0\<close>, with the
  bits in reverse order.
\<close>

definition crc32_step :: "u32 \<Rightarrow> u32" where
  "crc32_step c = (if c AND 1 = 0 then drop_bit 1 c else drop_bit 1 c XOR 0xEDB88320)"

lemma crc32_step_xor: "crc32_step (x XOR y) = crc32_step x XOR crc32_step y"
proof -
  have one: "w AND 1 = (if odd w then 1 else 0)" for w :: u32 by (simp add: and_one_eq mod_2_eq_odd)
  have odd: "odd (x XOR y) \<longleftrightarrow> odd x \<noteq> odd y" by (simp add: even_xor_iff)
  show ?thesis
    by (cases "odd x"; cases "odd y")
      (simp_all add: crc32_step_def one odd drop_bit_xor xor.assoc xor.left_commute xor.commute)
qed

lemma crc32_step_even: "crc32_step (push_bit (Suc n) y) = drop_bit 1 (push_bit (Suc n) y)"
proof -
  have "push_bit (Suc n) y AND 1 = 0" by (simp add: and_one_eq mod_2_eq_odd)
  then show ?thesis by (simp add: crc32_step_def)
qed

lemma crc32_steps_xor: "(crc32_step ^^ n) (x XOR y) = (crc32_step ^^ n) x XOR (crc32_step ^^ n) y"
  by (induction n) (simp_all add: crc32_step_xor)

lemma drop_push_bit: "m \<le> 7 \<Longrightarrow> drop_bit 1 (push_bit (Suc m) (drop_bit 8 c)) = push_bit m (drop_bit 8 (c :: u32))"
proof (rule bit_word_eqI)
  fix i assume m: "m \<le> 7" and "i < LENGTH(32)"
  then have i: "i < 32" by simp
  have top: "\<not> bit c (8 + (31 - m))" using m bit_imp_le_length [of c "8 + (31 - m)"] by auto
  have "bit (drop_bit 1 (push_bit (Suc m) (drop_bit 8 c))) i \<longleftrightarrow> m \<le> i \<and> i < 31 \<and> bit c (8 + (i - m))"
    unfolding bit_drop_bit_eq comp_def bit_push_bit_iff by auto
  also have "\<dots> \<longleftrightarrow> m \<le> i \<and> bit c (8 + (i - m))"
    using i top by (cases "i = 31") auto
  also have "\<dots> \<longleftrightarrow> bit (push_bit m (drop_bit 8 c)) i"
    unfolding bit_drop_bit_eq comp_def bit_push_bit_iff using i by auto
  finally show "bit (drop_bit 1 (push_bit (Suc m) (drop_bit 8 c))) i = bit (push_bit m (drop_bit 8 c)) i" .
qed

lemma crc32_steps_high: "k \<le> 8 \<Longrightarrow> (crc32_step ^^ k) (push_bit 8 (drop_bit 8 c)) = push_bit (8 - k) (drop_bit 8 c)"
proof (induction k)
  case 0
  then show ?case by simp
next
  case (Suc k)
  have "8 - k = Suc (8 - Suc k)" using Suc.prems by simp
  then have "(crc32_step ^^ Suc k) (push_bit 8 (drop_bit 8 c)) = crc32_step (push_bit (Suc (8 - Suc k)) (drop_bit 8 c))"
    using Suc by simp
  also have "\<dots> = push_bit (8 - Suc k) (drop_bit 8 c)"
    unfolding crc32_step_even by (rule drop_push_bit) simp
  finally show ?case .
qed

lemma crc32_step_8: "(crc32_step ^^ 8) c = crc32_step (crc32_step (crc32_step (crc32_step (crc32_step (crc32_step (crc32_step (crc32_step c)))))))"
  by (simp add: eval_nat_numeral)

lemmas crc32_step_numeral = crc32_step_def [of "numeral n" for n] crc32_step_def [of 0] crc32_step_def [of 1]

lemma crc32_table_steps: "crc32_table = map (\<lambda>i. (crc32_step ^^ 8) (word_of_int i)) [0..255]"
proof -
  have "[0..255] = 0 # 1 # [2..255 :: int]" by (simp add: upto_rec1)
  then show ?thesis unfolding crc32_step_8 by (simp add: crc32_step_numeral crc32_table_def)
qed

lemma crc32_table_entry: "crc32_table ! unat (c AND 0xff) = (crc32_step ^^ 8) (c AND 0xff)"
proof -
  have "c AND 0xff = take_bit 8 c" by (simp add: take_bit_eq_mask mask_eq_exp_minus_1)
  then have "unat (c AND 0xff) < 256" by (simp add: unat_take_bit)
  then have c: "unat (c AND 0xff) < length [0..255 :: int]" "0 + int (unat (c AND 0xff)) \<le> 255" by (simp, linarith)
  have "crc32_table ! unat (c AND 0xff) = (crc32_step ^^ 8) (word_of_int ([0..255] ! unat (c AND 0xff)))"
    unfolding crc32_table_steps by (rule nth_map [OF c(1)])
  also have "[0..255] ! unat (c AND 0xff) = uint (c AND 0xff)" using nth_upto [OF c(2)] by simp
  finally show ?thesis by simp
qed

lemma crc32_steps_byte: "(crc32_step ^^ 8) c = crc32_table ! unat (c AND 0xff) XOR drop_bit 8 c"
proof -
  have split: "(c AND 0xff) XOR push_bit 8 (drop_bit 8 c) = c"
  proof -
    have "c AND 0xff = take_bit 8 c" by (simp add: take_bit_eq_mask mask_eq_exp_minus_1)
    then show ?thesis by (simp only:) (rule bit_word_eqI, auto simp: bit_simps)
  qed
  have "(crc32_step ^^ 8) c = (crc32_step ^^ 8) ((c AND 0xff) XOR push_bit 8 (drop_bit 8 c))" by (simp only: split)
  also have "\<dots> = (crc32_step ^^ 8) (c AND 0xff) XOR drop_bit 8 c"
    unfolding crc32_steps_xor crc32_steps_high [OF order_refl] by simp
  finally show ?thesis by (simp only: crc32_table_entry)
qed

lemma drop_bit_xor_byte: "drop_bit 8 (c XOR ucast (s :: u8)) = drop_bit 8 (c :: u32)"
  by (rule bit_word_eqI) (auto simp: bit_drop_bit_eq bit_xor_iff bit_unsigned_iff dest: bit_imp_le_length)

text \<open>
  The table of the checksum is the one of the polynomial: every byte is shifted through the register bit by
  bit.
\<close>
theorem crc32_bitwise: "crc32 val ss = foldl (\<lambda>c s. (crc32_step ^^ 8) (c XOR ucast s)) val ss"
  by (simp only: crc32_def crc32_steps_byte drop_bit_xor_byte)

end
