(* ===== verification/Mtd_Tool.thy ===== *)
theory Mtd_Tool
  imports Mtd_Crc32 C_Strings
begin

text \<open>
  The tool that writes firmware images, \<^verbatim>\<open>src/package/system/mtd/src/mtd.c\<close>, with the check of images in
  \<^verbatim>\<open>trx.c\<close>: check, erase, dump and write, over devices with bad blocks.

  The kernel is a parameter: \<open>mtd_dev\<close> holds its operations on an MTD device, whose state has the type \<open>'d\<close>.
  \<open>mtd_check_open\<close> puts size, erase size and type of the device in global variables; an operation that
  works on one device reads them there, so that here they are those of its device. Sizes are below
  \<open>2 ^ 31\<close>, and offsets are natural numbers: the code subtracts \<open>skip_bad_blocks\<close> from an offset only in a
  comparison, where the model adds it on the other side. Messages are not modelled, and allocations succeed. The options \<open>-j\<close> and \<open>-t\<close> are
  not set, and \<open>FIS_SUPPORT\<close> is not defined.
\<close>

unbundle bit_operations_syntax

section \<open>Devices and input\<close>

record 'd mtd_dev =
  dev_size :: "'d \<Rightarrow> nat"
  dev_erasesize :: "'d \<Rightarrow> nat"
  dev_nand :: "'d \<Rightarrow> bool"
  dev_pread :: "'d \<Rightarrow> nat \<Rightarrow> nat \<Rightarrow> (int + u8 list) \<times> 'd"
  dev_pwrite :: "'d \<Rightarrow> nat \<Rightarrow> u8 list \<Rightarrow> int \<times> 'd"
  dev_erase :: "'d \<Rightarrow> nat \<Rightarrow> nat \<Rightarrow> bool \<times> 'd"
  dev_unlock :: "'d \<Rightarrow> nat \<Rightarrow> nat \<Rightarrow> 'd"
  dev_isbad :: "'d \<Rightarrow> nat \<Rightarrow> int"

abbreviation EINTR :: int where "EINTR \<equiv> 4"

text \<open>How a command ends: it returns, it calls \<open>exit\<close>, or it reads or writes outside its buffer.\<close>

datatype mtd_end = Returned int | Exited int | Overrun

text \<open>
  The image comes from a file or a pipe: what the coming reads find. \<open>Again\<close> is an error \<open>EINTR\<close> or \<open>EAGAIN\<close>,
  \<open>Fail\<close> any other; at the end every read gives nothing.
\<close>

datatype input = Data "u8 list" | Again | Fail

fun read_input :: "nat \<Rightarrow> input list \<Rightarrow> input \<times> input list" where
  "read_input n [] = (Data [], [])"
| "read_input n (Data xs # ins) = (if length xs \<le> n then (Data xs, ins) else (Data (take n xs), Data (drop n xs) # ins))"
| "read_input n (e # ins) = (e, ins)"

section \<open>Blocks\<close>

text \<open>\<open>None\<close> is the \<open>exit(1)\<close> of the code.\<close>

definition mtd_block_is_bad :: "'d mtd_dev \<Rightarrow> 'd \<Rightarrow> nat \<Rightarrow> bool option" where
  "mtd_block_is_bad dv d offset =
     (if dev_nand dv d then (let r = dev_isbad dv d offset in if r < 0 then None else Some (r \<noteq> 0)) else Some False)"

definition mtd_erase_block :: "'d mtd_dev \<Rightarrow> 'd \<Rightarrow> nat \<Rightarrow> int \<times> 'd" where
  "mtd_erase_block dv d offset =
     (let len = dev_erasesize dv d
      in case dev_erase dv (dev_unlock dv d offset len) offset len of (ok, d') \<Rightarrow> (if ok then 0 else - 1, d'))"

section \<open>Erase and dump\<close>

text \<open>The loop of \<open>mtd_erase\<close>, from \<open>start\<close> on. A block that cannot be erased is only reported.\<close>

partial_function (option) mtd_erase_from :: "'d mtd_dev \<Rightarrow> 'd \<Rightarrow> nat \<Rightarrow> (mtd_end \<times> 'd) option" where
  "mtd_erase_from dv d start =
     (if dev_size dv d \<le> start then Some (Returned 0, d)
      else
        case mtd_block_is_bad dv d start of
          None \<Rightarrow> Some (Exited 1, d)
        | Some bad \<Rightarrow>
            mtd_erase_from dv (if bad then d else snd (mtd_erase_block dv d start)) (start + dev_erasesize dv d))"

definition mtd_erase :: "'d mtd_dev \<Rightarrow> 'd \<Rightarrow> (mtd_end \<times> 'd) option" where
  "mtd_erase dv d = mtd_erase_from dv d 0"

text \<open>
  The loop of \<open>mtd_dump\<close>: \<open>pos\<close> is the position in the file, \<open>offset\<close> the counter of the code, which starts at 0
  whatever the position is. A block that is read and found to be bad is left out.
\<close>

partial_function (option) mtd_dump_loop ::
  "'d mtd_dev \<Rightarrow> 'd \<Rightarrow> nat \<Rightarrow> nat \<Rightarrow> nat \<Rightarrow> u8 list \<Rightarrow> (mtd_end \<times> u8 list \<times> 'd) option" where
  "mtd_dump_loop dv d pos offset sz out =
     (let len = (if dev_erasesize dv d < sz then dev_erasesize dv d else sz)
      in case dev_pread dv d pos len of
           (Inl err, d) \<Rightarrow>
             if err \<noteq> EINTR then Some (Returned (- 1), out, d)
             else if 0 < sz then mtd_dump_loop dv d pos offset sz out
             else Some (Returned 0, out, d)
         | (Inr xs, d) \<Rightarrow>
             if xs = [] \<or> length xs \<noteq> len then Some (Returned 0, out, d)
             else
               case mtd_block_is_bad dv d offset of
                 None \<Rightarrow> Some (Exited 1, out, d)
               | Some bad \<Rightarrow>
                   let sz = (if bad then sz else sz - len);
                       out = (if bad then out else out @ xs)
                   in if 0 < sz then mtd_dump_loop dv d (pos + len) (offset + len) sz out
                      else Some (Returned 0, out, d))"

definition mtd_dump :: "'d mtd_dev \<Rightarrow> 'd \<Rightarrow> nat \<Rightarrow> nat \<Rightarrow> (mtd_end \<times> u8 list \<times> 'd) option" where
  "mtd_dump dv d part_offset sz = mtd_dump_loop dv d part_offset 0 (if sz = 0 then dev_size dv d else sz) []"

section \<open>Write\<close>

text \<open>
  The variables of \<open>mtd_write\<close>. \<open>wr_dev\<close> is the device that is open, \<open>wr_pos\<close> the position in it, \<open>wr_next\<close> the
  devices that follow in the argument (\<open>a:b:c\<close>), and \<open>wr_past\<close> those that are full. \<open>wr_buf\<close> are the first
  \<open>buflen\<close> bytes of the buffer, which has \<open>wr_bufsz\<close> bytes: the erase size of the first device.
\<close>

record 'd wr =
  wr_dev :: 'd
  wr_next :: "'d list"
  wr_past :: "'d list"
  wr_pos :: nat
  wr_in :: "input list"
  wr_buf :: "u8 list"
  wr_bufsz :: nat
  wr_w :: nat
  wr_e :: nat
  wr_skip :: nat
  wr_offset :: nat

text \<open>The loop that fills the buffer up to \<open>n\<close> more bytes. An error other than \<open>EINTR\<close> ends it like the end of the image.\<close>

fun fill_buf :: "nat \<Rightarrow> input list \<Rightarrow> u8 list \<times> input list" where
  "fill_buf n [] = ([], [])"
| "fill_buf n (Data xs # ins) =
     (if n = 0 then ([], Data xs # ins)
      else if xs = [] then ([], ins)
      else if length xs \<le> n then (case fill_buf (n - length xs) ins of (ys, rest) \<Rightarrow> (xs @ ys, rest))
      else (take n xs, Data (drop n xs) # ins))"
| "fill_buf n (Again # ins) = (if n = 0 then ([], Again # ins) else fill_buf n ins)"
| "fill_buf n (Fail # ins) = (if n = 0 then ([], Fail # ins) else ([], ins))"

text \<open>
  The loop that erases up to the end of the next write. Bad blocks are skipped in \<open>e\<close> and in the file. The
  result is the return value of the last erase, or \<open>None\<close> for the \<open>exit(1)\<close> when a block cannot be asked for.
\<close>

partial_function (option) wr_erase_loop :: "'d mtd_dev \<Rightarrow> nat \<Rightarrow> 'd wr \<Rightarrow> (int option \<times> 'd wr) option" where
  "wr_erase_loop dv part_offset s =
     (if wr_w s + length (wr_buf s) + wr_skip s \<le> wr_e s then Some (Some 0, s)
      else
        let es = dev_erasesize dv (wr_dev s)
        in case mtd_block_is_bad dv (wr_dev s) (wr_e s) of
             None \<Rightarrow> Some (None, s)
           | Some bad \<Rightarrow>
               if bad then
                 wr_erase_loop dv part_offset (s\<lparr>wr_skip := wr_skip s + es, wr_e := wr_e s + es, wr_pos := wr_pos s + es\<rparr>)
               else
                 case mtd_erase_block dv (wr_dev s) (wr_e s + part_offset) of
                   (r, d) \<Rightarrow>
                     if r < 0 then Some (Some r, s\<lparr>wr_dev := d\<rparr>)
                     else wr_erase_loop dv part_offset (s\<lparr>wr_dev := d, wr_e := wr_e s + es\<rparr>))"

text \<open>
  The change to the next device after an erase that failed: what was erased is filled first. The erase size is
  the one of the new device, but \<open>skip_bad_blocks\<close> keeps its value. The result is \<open>None\<close> when bytes
  behind the buffer would be written to the flash.
\<close>

definition wr_resume :: "'d mtd_dev \<Rightarrow> nat \<Rightarrow> 'd \<Rightarrow> 'd list \<Rightarrow> 'd wr \<Rightarrow> 'd wr option" where
  "wr_resume dv part_offset d2 ds s =
     (let n = wr_e s - wr_w s;
          rest = (if wr_w s < wr_e s then n else wr_offset s)
      in if wr_w s < wr_e s \<and> wr_bufsz s < wr_offset s + n then None
         else
           let d1 = (if wr_w s < wr_e s then snd (dev_pwrite dv (wr_dev s) (wr_pos s) (take n (drop (wr_offset s) (wr_buf s))))
                     else wr_dev s)
           in Some (s\<lparr>wr_dev := d2, wr_next := ds, wr_past := wr_past s @ [d1], wr_pos := part_offset,
                     wr_w := 0, wr_e := 0, wr_offset := rest\<rparr>))"

text \<open>The write of the buffer: \<open>Inr\<close> is the state for the next turn.\<close>

definition wr_write :: "'d mtd_dev \<Rightarrow> 'd wr \<Rightarrow> mtd_end \<times> 'd wr + 'd wr" where
  "wr_write dv s =
     (let n = length (wr_buf s)
      in if wr_bufsz s < wr_offset s + n then Inl (Overrun, s)
         else
           case dev_pwrite dv (wr_dev s) (wr_pos s) (take n (drop (wr_offset s) (wr_buf s))) of
             (r, d) \<Rightarrow>
               if r < int n then Inl (Exited 1, s\<lparr>wr_dev := d\<rparr>)
               else Inr (s\<lparr>wr_dev := d, wr_pos := wr_pos s + n, wr_w := wr_w s + n, wr_buf := [], wr_offset := 0\<rparr>))"

text \<open>
  When bytes were filled up at the change of the device, the buffer is written from behind them, and the write reads
  past its end.
\<close>

lemma wr_resume_overrun:
  assumes "wr_resume dv part_offset d2 ds s = Some t" "wr_w s < wr_e s" "length (wr_buf s) = wr_bufsz s"
  shows "wr_write dv t = Inl (Overrun, t)"
  using assms by (auto simp: wr_resume_def wr_write_def Let_def split: if_splits)

partial_function (option) mtd_write_loop ::
  "'d mtd_dev \<Rightarrow> bool \<Rightarrow> nat \<Rightarrow> 'd wr \<Rightarrow> (mtd_end \<times> 'd wr) option" where
  "mtd_write_loop dv no_erase part_offset s =
     (let es = dev_erasesize dv (wr_dev s);
          (xs, ins) = fill_buf (es - length (wr_buf s)) (wr_in s);
          buf = wr_buf s @ xs;
          s = s\<lparr>wr_in := ins, wr_buf := buf @ replicate (es - length buf) 0xff\<rparr>
      in if buf = [] then Some (Returned 0, s\<lparr>wr_buf := []\<rparr>)
         else if wr_bufsz s < length (wr_buf s) then Some (Overrun, s)
         else
           Option.bind (if no_erase then Some (Some 0, s) else wr_erase_loop dv part_offset s)
             (\<lambda>(r, s).
               case r of
                 None \<Rightarrow> Some (Exited 1, s)
               | Some r \<Rightarrow>
                   if r < 0 then
                     (case wr_next s of
                        [] \<Rightarrow> Some (Exited 1, s)
                      | d # ds \<Rightarrow>
                          (case wr_resume dv part_offset d ds s of
                             None \<Rightarrow> Some (Overrun, s)
                           | Some s \<Rightarrow> mtd_write_loop dv no_erase part_offset s))
                   else
                     (case wr_write dv s of
                        Inl fin \<Rightarrow> Some fin
                      | Inr s \<Rightarrow> mtd_write_loop dv no_erase part_offset s)))"

definition mtd_write ::
  "'d mtd_dev \<Rightarrow> bool \<Rightarrow> nat \<Rightarrow> nat \<Rightarrow> u8 list \<Rightarrow> input list \<Rightarrow> 'd \<Rightarrow> 'd list \<Rightarrow> (mtd_end \<times> 'd list) option" where
  "mtd_write dv no_erase part_offset bufsz buf ins d ds =
     map_option (\<lambda>(fin, s). (fin, wr_past s @ wr_dev s # wr_next s))
       (mtd_write_loop dv no_erase part_offset
         \<lparr>wr_dev = d, wr_next = ds, wr_past = [], wr_pos = part_offset, wr_in = ins, wr_buf = buf, wr_bufsz = bufsz,
          wr_w = 0, wr_e = 0, wr_skip = 0, wr_offset = 0\<rparr>)"

section \<open>The check of an image\<close>

text \<open>
  The header of \<^verbatim>\<open>trx.c\<close>: magic number, length, checksum, flags and three offsets, 28 bytes. The length is read in
  the byte order of the processor, which is little-endian here.
\<close>

definition trx_magic :: "u8 list \<Rightarrow> u32" where "trx_magic buf = le_val (rev (rd_bytes buf 0 4))"
definition trx_len :: "u8 list \<Rightarrow> nat" where "trx_len buf = unat (rd32 buf 4)"

abbreviation TRX_MAGIC :: u32 where "TRX_MAGIC \<equiv> 0x48445230"
abbreviation SEAMA_MAGIC :: u32 where "SEAMA_MAGIC \<equiv> 0x5ea3a417"
abbreviation WRG_MAGIC :: u32 where "WRG_MAGIC \<equiv> 0x20040220"
abbreviation WRGG03_MAGIC :: u32 where "WRGG03_MAGIC \<equiv> 0x20080321"
abbreviation FIRMWARE :: "u8 list" where "FIRMWARE \<equiv> cstr ''firmware''"

text \<open>
  \<open>trx_check\<close>, for the size of the device when it can be opened. A read that fails has the result \<open>- 1\<close>, which is
  added to the number of bytes in the buffer. \<open>None\<close> is \<open>exit(1)\<close>.
\<close>

definition trx_check :: "u32 \<Rightarrow> u8 list \<Rightarrow> nat option \<Rightarrow> u8 list \<times> input list \<Rightarrow> bool option \<times> u8 list \<times> input list" where
  "trx_check opt_trxmagic mtd sz bi =
     (if mtd \<noteq> FIRMWARE then (Some True, bi)
      else
        let (buf, ins) =
              (case bi of
                 (buf, ins) \<Rightarrow>
                   if length buf < 32 then
                     (case read_input (32 - length buf) ins of
                        (Data xs, ins) \<Rightarrow> (buf @ xs, ins)
                      | (_, ins) \<Rightarrow> (take (length buf - 1) buf, ins))
                   else (buf, ins))
        in (if length buf < 32 then Some False
            else if trx_magic buf \<noteq> opt_trxmagic \<or> trx_len buf < 28 then Some False
            else case sz of None \<Rightarrow> None | Some n \<Rightarrow> Some (\<not> n < trx_len buf), buf, ins))"

datatype mtd_image_format =
  MTD_IMAGE_FORMAT_UNKNOWN | MTD_IMAGE_FORMAT_TRX | MTD_IMAGE_FORMAT_SEAMA | MTD_IMAGE_FORMAT_WRG | MTD_IMAGE_FORMAT_WRGG03

definition image_format :: "u32 \<Rightarrow> u8 list \<Rightarrow> mtd_image_format" where
  "image_format opt_trxmagic buf =
     (let be = trx_magic buf; le = rd32 buf 0
      in if be = opt_trxmagic then MTD_IMAGE_FORMAT_TRX
         else if be = SEAMA_MAGIC then MTD_IMAGE_FORMAT_SEAMA
         else if le = WRG_MAGIC then MTD_IMAGE_FORMAT_WRG
         else if le = WRGG03_MAGIC then MTD_IMAGE_FORMAT_WRGG03
         else MTD_IMAGE_FORMAT_UNKNOWN)"

text \<open>The first loop of \<open>image_check\<close>: any error ends it.\<close>

fun read_magic :: "u8 list \<Rightarrow> input list \<Rightarrow> u8 list \<times> input list" where
  "read_magic buf [] = (buf, [])"
| "read_magic buf (i # ins) =
     (if 4 \<le> length buf then (buf, i # ins)
      else
        case i of
          Data xs \<Rightarrow>
            if xs = [] then (buf, ins)
            else if length xs \<le> 4 - length buf then read_magic (buf @ xs) ins
            else (buf @ take (4 - length buf) xs, Data (drop (4 - length buf) xs) # ins)
        | _ \<Rightarrow> (buf, ins))"

text \<open>\<open>brcm\<close> says that \<open>target_brcm\<close> is defined, \<open>has_trx\<close> that \<^verbatim>\<open>trx.c\<close> is part of the tool.\<close>

record mtd_opts =
  opt_trxmagic :: u32
  opt_brcm :: bool
  opt_has_trx :: bool
  opt_force :: bool
  opt_no_erase :: bool
  opt_part_offset :: nat
  opt_offset :: nat
  opt_dump_len :: nat

definition image_check :: "mtd_opts \<Rightarrow> u8 list \<Rightarrow> nat option \<Rightarrow> input list \<Rightarrow> bool option \<times> u8 list \<times> input list" where
  "image_check opts mtd sz ins =
     (case read_magic [] ins of
        (buf, ins) \<Rightarrow>
          if length buf < 4 then (Some False, buf, ins)
          else
            case image_format (opt_trxmagic opts) buf of
              MTD_IMAGE_FORMAT_TRX \<Rightarrow>
                if opt_has_trx opts then trx_check (opt_trxmagic opts) mtd sz (buf, ins) else (Some True, buf, ins)
            | MTD_IMAGE_FORMAT_UNKNOWN \<Rightarrow> (Some (\<not> (opt_brcm opts \<and> mtd = FIRMWARE)), buf, ins)
            | _ \<Rightarrow> (Some True, buf, ins))"

section \<open>The commands\<close>

text \<open>
  The devices by name. The argument of a write or an unlock names several, separated by colons; they are
  different ones.
\<close>

type_synonym 'd devices = "u8 list \<Rightarrow> 'd option"

abbreviation COLON :: u8 where "COLON \<equiv> of_char CHR '':''"

function split_names :: "u8 list \<Rightarrow> u8 list list" where
  "split_names s =
     (if COLON \<in> set s then takeWhile (\<lambda>c. c \<noteq> COLON) s # split_names (tl (dropWhile (\<lambda>c. c \<noteq> COLON) s)) else [s])"
  by pat_completeness auto

termination
proof (relation "measure length")
  fix s :: "u8 list" assume "COLON \<in> set s"
  then have "dropWhile (\<lambda>c. c \<noteq> COLON) s \<noteq> []" by (simp add: dropWhile_eq_Nil_conv)
  then have "length (tl (dropWhile (\<lambda>c. c \<noteq> COLON) s)) < length (dropWhile (\<lambda>c. c \<noteq> COLON) s)" by simp
  also have "\<dots> \<le> length s" by (rule length_dropWhile_le)
  finally show "(tl (dropWhile (\<lambda>c. c \<noteq> COLON) s), s) \<in> measure length" by simp
qed simp

declare split_names.simps [simp del]

definition mtd_check :: "'d devices \<Rightarrow> u8 list \<Rightarrow> bool" where
  "mtd_check devs mtd = list_all (\<lambda>n. devs n \<noteq> None) (split_names mtd)"

text \<open>\<open>mtd_unlock\<close>, up to the first device that cannot be opened: then \<open>exit(1)\<close>.\<close>

fun mtd_unlock_names :: "'d mtd_dev \<Rightarrow> u8 list list \<Rightarrow> 'd devices \<Rightarrow> mtd_end \<times> 'd devices" where
  "mtd_unlock_names dv [] devs = (Returned 0, devs)"
| "mtd_unlock_names dv (n # ns) devs =
     (case devs n of
        None \<Rightarrow> (Exited 1, devs)
      | Some d \<Rightarrow> mtd_unlock_names dv ns (devs(n \<mapsto> dev_unlock dv d 0 (dev_size dv d))))"

definition mtd_unlock :: "'d mtd_dev \<Rightarrow> u8 list \<Rightarrow> 'd devices \<Rightarrow> mtd_end \<times> 'd devices" where
  "mtd_unlock dv mtd devs = mtd_unlock_names dv (split_names mtd) devs"

definition mtd_erase_name :: "'d mtd_dev \<Rightarrow> u8 list \<Rightarrow> 'd devices \<Rightarrow> (mtd_end \<times> 'd devices) option" where
  "mtd_erase_name dv mtd devs =
     (case devs mtd of
        None \<Rightarrow> Some (Exited 1, devs)
      | Some d \<Rightarrow> map_option (\<lambda>(fin, d). (fin, devs(mtd \<mapsto> d))) (mtd_erase dv d))"

text \<open>The devices of the options \<open>-e\<close>: unlocked and erased in order.\<close>

fun mtd_erase_first :: "'d mtd_dev \<Rightarrow> u8 list list \<Rightarrow> 'd devices \<Rightarrow> (mtd_end \<times> 'd devices) option" where
  "mtd_erase_first dv [] devs = Some (Returned 0, devs)"
| "mtd_erase_first dv (n # ns) devs =
     (case mtd_unlock dv n devs of
        (Exited r, devs) \<Rightarrow> Some (Exited r, devs)
      | (_, devs) \<Rightarrow>
          Option.bind (mtd_erase_name dv n devs)
            (\<lambda>(fin, devs). case fin of Exited r \<Rightarrow> Some (Exited r, devs) | _ \<Rightarrow> mtd_erase_first dv ns devs))"

definition mtd_write_names ::
  "'d mtd_dev \<Rightarrow> mtd_opts \<Rightarrow> u8 list \<Rightarrow> nat \<Rightarrow> u8 list \<Rightarrow> input list \<Rightarrow> 'd devices \<Rightarrow> (mtd_end \<times> 'd devices) option" where
  "mtd_write_names dv opts mtd bufsz buf ins devs =
     (let names = split_names mtd
      in case map (the \<circ> devs) names of
           [] \<Rightarrow> Some (Exited 1, devs)
         | d # ds \<Rightarrow>
             map_option (\<lambda>(fin, ds). (fin, devs(names [\<mapsto>] ds)))
               (mtd_write dv (opt_no_erase opts) (opt_part_offset opts) bufsz buf ins d ds))"

datatype mtd_cmd = CMD_UNLOCK | CMD_ERASE | CMD_DUMP | CMD_WRITE "input list"

text \<open>
  \<open>main\<close> after the options, with the result, the output and the devices. A write checks its device and its
  image before anything is changed. What \<open>mtd_dump\<close> returns is not looked at.
\<close>

definition mtd_main ::
  "'d mtd_dev \<Rightarrow> mtd_opts \<Rightarrow> u8 list list \<Rightarrow> mtd_cmd \<Rightarrow> u8 list \<Rightarrow> 'd devices \<Rightarrow> (mtd_end \<times> u8 list \<times> 'd devices) option" where
  "mtd_main dv opts erase cmd device devs =
     (let (go, buf, ins) =
            (case cmd of
               CMD_WRITE ins \<Rightarrow>
                 if mtd_check devs device then
                   (case image_check opts device (map_option (dev_size dv) (devs device)) ins of
                      (ret, buf, ins) \<Rightarrow> (ret \<noteq> None \<and> (ret = Some True \<or> opt_force opts), buf, ins))
                 else (False, [], ins)
             | _ \<Rightarrow> (True, [], []))
      in if \<not> go then Some (Exited 1, [], devs)
         else
           Option.bind (mtd_erase_first dv erase devs)
             (\<lambda>(fin, devs).
               case fin of
                 Exited r \<Rightarrow> Some (Exited r, [], devs)
               | _ \<Rightarrow>
                   let unlocked = device \<in> set erase
                   in case (if cmd = CMD_DUMP \<or> unlocked then (Returned 0, devs) else mtd_unlock dv device devs) of
                        (Exited r, devs) \<Rightarrow> Some (Exited r, [], devs)
                      | (_, devs) \<Rightarrow>
                          (case cmd of
                             CMD_UNLOCK \<Rightarrow> Some (Returned 0, [], devs)
                           | CMD_ERASE \<Rightarrow> map_option (\<lambda>(fin, devs). (fin, [], devs)) (mtd_erase_name dv device devs)
                           | CMD_DUMP \<Rightarrow>
                               (case devs device of
                                  None \<Rightarrow> Some (Returned 0, [], devs)
                                | Some d \<Rightarrow>
                                    map_option (\<lambda>(fin, out, d). (case fin of Returned _ \<Rightarrow> Returned 0 | _ \<Rightarrow> fin, out, devs(device \<mapsto> d)))
                                      (mtd_dump dv d (opt_offset opts) (opt_dump_len opts)))
                           | CMD_WRITE _ \<Rightarrow>
                               map_option (\<lambda>(fin, devs). (fin, [], devs))
                                 (mtd_write_names dv opts device (dev_erasesize dv (the (devs (hd (split_names device))))) buf ins devs))))"

section \<open>Devices that work\<close>

text \<open>The erase blocks of a device with the content \<open>m\<close>.\<close>

definition erase_blocks :: "nat \<Rightarrow> u8 list \<Rightarrow> u8 list list" where
  "erase_blocks es m = map (\<lambda>k. take es (drop (k * es) m)) [0..<length m div es]"

text \<open>
  The documented behaviour of an MTD device with the content \<open>cont d\<close>, whose block \<open>k\<close> is bad when \<open>bad k\<close> holds. Reads
  end with the device; unlocking changes no content; good blocks can be erased, and a write of a whole good block clears bits; asking for a
  block behind the end is an error; a bad block or one behind the end cannot be erased. Nothing is said of
  writes to bad blocks.
\<close>

definition flash_dev :: "'d mtd_dev \<Rightarrow> ('d \<Rightarrow> u8 list) \<Rightarrow> (nat \<Rightarrow> bool) \<Rightarrow> nat \<Rightarrow> nat \<Rightarrow> bool" where
  "flash_dev dv cont bad sz es \<longleftrightarrow>
     0 < es \<and> es dvd sz \<and> sz < 2 ^ 31 \<and>
     (\<forall>d. length (cont d) = sz \<and> dev_size dv d = sz \<and> dev_erasesize dv d = es \<and> (dev_nand dv d \<or> (\<forall>k. \<not> bad k))) \<and>
     (\<forall>d off n. fst (dev_pread dv d off n) = Inr (take n (drop off (cont d))) \<and> cont (snd (dev_pread dv d off n)) = cont d) \<and>
     (\<forall>d k. dev_isbad dv d (k * es) = (if sz \<le> k * es then - 1 else if bad k then 1 else 0)) \<and>
     (\<forall>d off n. cont (dev_unlock dv d off n) = cont d) \<and>
     (\<forall>d k. let (ok, d') = dev_erase dv (dev_unlock dv d (k * es) es) (k * es) es
            in ok = (k * es < sz \<and> \<not> bad k) \<and>
               cont d' = (if ok then buf_put (cont d) (k * es) (replicate es 0xff) else cont d)) \<and>
     (\<forall>d k xs. k * es < sz \<and> \<not> bad k \<and> length xs = es \<longrightarrow>
        fst (dev_pwrite dv d (k * es) xs) = int es \<and>
        cont (snd (dev_pwrite dv d (k * es) xs)) = buf_put (cont d) (k * es) (map2 (AND) xs (take es (drop (k * es) (cont d)))))"

text \<open>The numbers of the good blocks from \<open>k\<close> on, and the blocks after chunks of an image were put into good ones.\<close>

definition good_blocks :: "(nat \<Rightarrow> bool) \<Rightarrow> nat \<Rightarrow> nat \<Rightarrow> nat list" where
  "good_blocks bad k n = filter (\<lambda>j. \<not> bad j) [k..<n]"

definition put_chunks :: "nat list \<Rightarrow> u8 list list \<Rightarrow> u8 list list \<Rightarrow> u8 list list" where
  "put_chunks gs cs bs = foldl (\<lambda>bs (g, c). bs[g := c]) bs (zip gs cs)"

text \<open>An image in blocks, the last one padded.\<close>

function image_chunks :: "nat \<Rightarrow> u8 list \<Rightarrow> u8 list list" where
  "image_chunks es xs =
     (if xs = [] \<or> es = 0 then []
      else (take es xs @ replicate (es - length xs) 0xff) # image_chunks es (drop es xs))"
  by pat_completeness auto

termination by (relation "measure (\<lambda>(_, xs). length xs)") auto

declare image_chunks.simps [simp del]

lemma erase_blocks_length [simp]: "length (erase_blocks es m) = length m div es"
  by (simp add: erase_blocks_def)

lemma erase_blocks_nth: "k < length m div es \<Longrightarrow> erase_blocks es m ! k = take es (drop (k * es) m)"
  by (simp add: erase_blocks_def)

lemma block_in_range:
  assumes "es dvd n" "0 < (es :: nat)" "k < n div es"
  shows "k * es + es \<le> n"
proof -
  have "(k + 1) * es \<le> n div es * es" using assms(3) by (intro mult_le_mono1) simp
  then show ?thesis using assms(1) by (simp add: algebra_simps)
qed

lemma erase_blocks_put:
  assumes "es dvd length m" "0 < es" "k < length m div es" "length xs = es"
  shows "erase_blocks es (buf_put m (k * es) xs) = (erase_blocks es m)[k := xs]"
proof (rule nth_equalityI)
  fix j assume "j < length (erase_blocks es (buf_put m (k * es) xs))"
  then have j: "j < length m div es" by simp
  have k: "k * es + length xs \<le> length m" using block_in_range [OF assms(1-3)] assms(4) by simp
  have jr: "j * es + es \<le> length m" by (rule block_in_range [OF assms(1,2) j])
  have "take es (drop (j * es) (buf_put m (k * es) xs)) = (if j = k then xs else take es (drop (j * es) m))"
  proof (cases "j = k")
    case True
    then show ?thesis using buf_put_slice [OF k] assms(4) by simp
  next
    case False
    have "j * es + es \<le> k * es \<or> k * es + es \<le> j * es"
    proof (cases "j < k")
      case True
      then have "Suc j * es \<le> k * es" by (intro mult_le_mono1) simp
      then show ?thesis by (simp add: algebra_simps)
    next
      case F: False
      then have "Suc k * es \<le> j * es" using False by (intro mult_le_mono1) simp
      then show ?thesis by (simp add: algebra_simps)
    qed
    then have "rd_bytes (buf_put m (k * es) xs) (j * es) es = rd_bytes m (j * es) es"
      using k jr assms(4) by (intro rd_bytes_put_other) auto
    then show ?thesis using False jr by (simp add: rd_bytes_take_drop)
  qed
  then show "erase_blocks es (buf_put m (k * es) xs) ! j = (erase_blocks es m)[k := xs] ! j"
    using j by (simp add: erase_blocks_nth nth_list_update)
qed simp

lemma good_blocks_next:
  assumes "good_blocks bad k n = g # gs"
  shows "k \<le> g" "g < n" "\<not> bad g" "\<And>j. k \<le> j \<Longrightarrow> j < g \<Longrightarrow> bad j" "gs = good_blocks bad (Suc g) n"
proof -
  have "g \<in> set (good_blocks bad k n)" using assms by simp
  then show g: "k \<le> g" "g < n" "\<not> bad g" by (auto simp: good_blocks_def)
  have split: "good_blocks bad k n = good_blocks bad k g @ g # good_blocks bad (Suc g) n"
    using g filter_upt_split [of k g n "\<lambda>j. \<not> bad j"] by (simp add: good_blocks_def)
  have "good_blocks bad k g = []"
  proof (rule ccontr)
    assume "good_blocks bad k g \<noteq> []"
    then obtain h hs where "good_blocks bad k g = h # hs" by (cases "good_blocks bad k g") auto
    then have "h \<in> set (good_blocks bad k g)" "h = g" using split assms by auto
    then show False by (simp add: good_blocks_def)
  qed
  then show "gs = good_blocks bad (Suc g) n" "\<And>j. k \<le> j \<Longrightarrow> j < g \<Longrightarrow> bad j"
    using split assms by (auto simp: good_blocks_def filter_empty_conv)
qed

text \<open>Facts of a working device, on whole blocks.\<close>

lemma flash_devD:
  assumes "flash_dev dv cont bad sz es"
  shows "0 < es" "es dvd sz" "length (cont d) = sz" "dev_size dv d = sz" "dev_erasesize dv d = es"
    "fst (dev_pread dv d off n) = Inr (take n (drop off (cont d)))" "cont (snd (dev_pread dv d off n)) = cont d"
    "cont (dev_unlock dv d off n) = cont d" "dev_nand dv d \<or> (\<forall>k. \<not> bad k)"
  using assms by (auto simp: flash_dev_def)

lemma mtd_block_is_bad_flash:
  assumes "flash_dev dv cont bad sz es"
  shows "mtd_block_is_bad dv d (k * es) = (if dev_nand dv d \<and> sz \<le> k * es then None else Some (bad k))"
  using assms unfolding flash_dev_def mtd_block_is_bad_def by (auto simp: Let_def)

lemma dev_erase_flash:
  assumes "flash_dev dv cont bad sz es" "dev_erase dv (dev_unlock dv d (k * es) es) (k * es) es = (ok, d')"
  shows "ok = (k * es < sz \<and> \<not> bad k)" "cont d' = (if ok then buf_put (cont d) (k * es) (replicate es 0xff) else cont d)"
proof -
  have "let (ok, d') = dev_erase dv (dev_unlock dv d (k * es) es) (k * es) es
     in ok = (k * es < sz \<and> \<not> bad k) \<and>
        cont d' = (if ok then buf_put (cont d) (k * es) (replicate es 0xff) else cont d)"
    using assms(1) unfolding flash_dev_def by blast
  then show "ok = (k * es < sz \<and> \<not> bad k)" "cont d' = (if ok then buf_put (cont d) (k * es) (replicate es 0xff) else cont d)"
    by (simp_all add: assms(2))
qed

lemma dev_pwrite_and:
  assumes "flash_dev dv cont bad sz es" "dev_pwrite dv d (k * es) xs = (r, d')" "k * es < sz" "\<not> bad k" "length xs = es"
  shows "r = int es" "cont d' = buf_put (cont d) (k * es) (map2 (AND) xs (take es (drop (k * es) (cont d))))"
proof -
  have "fst (dev_pwrite dv d (k * es) xs) = int es \<and>
      cont (snd (dev_pwrite dv d (k * es) xs)) = buf_put (cont d) (k * es) (map2 (AND) xs (take es (drop (k * es) (cont d))))"
    using assms(1,3-5) unfolding flash_dev_def by blast
  then show "r = int es" "cont d' = buf_put (cont d) (k * es) (map2 (AND) xs (take es (drop (k * es) (cont d))))"
    by (simp_all add: assms(2))
qed

lemma mtd_erase_block_flash:
  assumes "flash_dev dv cont bad sz es" "mtd_erase_block dv d (k * es) = (r, d')"
  shows "r = (if k * es < sz \<and> \<not> bad k then 0 else - 1)"
    "erase_blocks es (cont d') = (if r = 0 then (erase_blocks es (cont d))[k := replicate es 0xff] else erase_blocks es (cont d))"
proof -
  let ?ok = "k * es < sz \<and> \<not> bad k"
  have es: "dev_erasesize dv d = es" by (rule flash_devD(5) [OF assms(1)])
  obtain ok where e: "dev_erase dv (dev_unlock dv d (k * es) es) (k * es) es = (ok, d')" "r = (if ok then 0 else - 1)"
    using assms(2) by (auto simp: mtd_erase_block_def es split: prod.splits)
  have "ok = ?ok \<and> cont d' = (if ok then buf_put (cont d) (k * es) (replicate es 0xff) else cont d)"
    using dev_erase_flash [OF assms(1) e(1)] by blast
  moreover have "erase_blocks es (buf_put (cont d) (k * es) (replicate es 0xff)) = (erase_blocks es (cont d))[k := replicate es 0xff]" if ?ok
  proof (rule erase_blocks_put)
    show "es dvd length (cont d)" "0 < es" using flash_devD(1-3) [OF assms(1)] by simp_all
    then show "k < length (cont d) div es" using that flash_devD(2,3) [OF assms(1)]
      by (metis dvd_div_mult_self mult_less_cancel2)
  qed simp
  ultimately show "r = (if ?ok then 0 else - 1)"
    "erase_blocks es (cont d') = (if r = 0 then (erase_blocks es (cont d))[k := replicate es 0xff] else erase_blocks es (cont d))"
    using e(2) by auto
qed

lemma dev_pwrite_flash:
  assumes f: "flash_dev dv cont bad sz es" and k: "k < sz div es" "\<not> bad k" and xs: "length xs = es"
    and erased: "erase_blocks es (cont d) ! k = replicate es 0xff" and w: "dev_pwrite dv d (k * es) xs = (r, d')"
  shows "r = int es \<and> erase_blocks es (cont d') = (erase_blocks es (cont d))[k := xs]"
proof -
  note fd = flash_devD [OF f]
  have kr: "k * es < sz" using k(1) fd(1,2) by (metis dvd_div_mult_self mult_less_cancel2)
  note dev_pwrite_and [OF f w kr k(2) xs]
  moreover have "map2 (AND) xs (take es (drop (k * es) (cont d))) = xs"
  proof -
    have "take es (drop (k * es) (cont d)) = replicate es 0xff" using erased k(1) fd(3) by (simp add: erase_blocks_nth)
    moreover have "map2 (AND) xs (replicate (length xs) (0xff :: u8)) = xs"
    proof (induction xs)
      case (Cons x xs)
      have "(0xff :: u8) = - 1" by simp
      then have "x AND 0xff = x" by (simp only: and.right_neutral)
      then show ?case using Cons by simp
    qed simp
    ultimately show ?thesis using xs by simp
  qed
  moreover have "erase_blocks es (buf_put (cont d) (k * es) xs) = (erase_blocks es (cont d))[k := xs]"
    using fd(1-3) k(1) xs by (intro erase_blocks_put) simp_all
  ultimately show ?thesis by simp
qed

section \<open>The image\<close>

text \<open>Input without errors, what it holds, and what ends the reading of a block early.\<close>

definition input_ok :: "input list \<Rightarrow> bool" where
  "input_ok ins \<longleftrightarrow> list_all (\<lambda>i. case i of Data xs \<Rightarrow> xs \<noteq> [] | Again \<Rightarrow> True | Fail \<Rightarrow> False) ins"

definition input_data :: "input list \<Rightarrow> u8 list" where
  "input_data ins = concat (map (\<lambda>i. case i of Data xs \<Rightarrow> xs | _ \<Rightarrow> []) ins)"

definition stops :: "input list \<Rightarrow> bool" where
  "stops ins \<longleftrightarrow> (case ins of [] \<Rightarrow> True | Data xs # _ \<Rightarrow> xs = [] | Again # _ \<Rightarrow> False | Fail # _ \<Rightarrow> True)"

lemma fill_buf_0: "fill_buf 0 ins = ([], ins)"
proof (cases ins)
  case (Cons i rest)
  then show ?thesis by (cases i) simp_all
qed simp

lemma fill_buf_enough:
  assumes "input_ok ins" "n \<le> length (input_data ins)"
  shows "\<exists>ins'. fill_buf n (ins @ tail) = (take n (input_data ins), ins' @ tail) \<and> input_ok ins' \<and>
    input_data ins' = drop n (input_data ins)"
  using assms
proof (induction ins arbitrary: n)
  case Nil
  then show ?case by (intro exI [of _ "[]"]) (simp add: fill_buf_0 input_ok_def input_data_def)
next
  case (Cons i ins)
  have ok: "input_ok ins" using Cons.prems(1) by (simp add: input_ok_def)
  show ?case
  proof (cases "n = 0")
    case True
    then show ?thesis using Cons.prems(1) by (intro exI [of _ "i # ins"]) (simp add: fill_buf_0)
  next
    case False
    show ?thesis
    proof (cases i)
      case (Data xs)
      then have ne: "xs \<noteq> []" using Cons.prems(1) by (simp add: input_ok_def)
      have data: "input_data (i # ins) = xs @ input_data ins" by (simp add: input_data_def Data)
      show ?thesis
      proof (cases "length xs \<le> n")
        case True
        then have "n - length xs \<le> length (input_data ins)" using Cons.prems(2) by (simp add: data)
        from Cons.IH [OF ok this] obtain ins' where
          "fill_buf (n - length xs) (ins @ tail) = (take (n - length xs) (input_data ins), ins' @ tail)"
          "input_ok ins'" "input_data ins' = drop (n - length xs) (input_data ins)" by blast
        then show ?thesis using True False ne by (simp add: data) (simp add: Data)
      next
        case F: False
        then have "fill_buf n ((i # ins) @ tail) = (take n (input_data (i # ins)), (Data (drop n xs) # ins) @ tail)"
          using False ne by (simp add: data) (simp add: Data)
        moreover have "input_ok (Data (drop n xs) # ins)" using ok F by (simp add: input_ok_def)
        moreover have "input_data (Data (drop n xs) # ins) = drop n (input_data (i # ins))"
          using F by (simp add: data) (simp add: input_data_def)
        ultimately show ?thesis by blast
      qed
    next
      case Again
      then have data: "input_data (i # ins) = input_data ins" by (simp add: input_data_def)
      show ?thesis using Cons.IH [OF ok, of n] Cons.prems(2) False unfolding data by (simp add: Again)
    next
      case Fail
      then show ?thesis using Cons.prems(1) by (simp add: input_ok_def)
    qed
  qed
qed

lemma fill_buf_short:
  assumes "input_ok ins" "length (input_data ins) < n" "stops tail"
  shows "fill_buf n (ins @ tail) = (input_data ins, tl tail)"
  using assms
proof (induction ins arbitrary: n)
  case Nil
  then show ?case by (auto simp: input_data_def stops_def split: list.splits input.splits)
next
  case (Cons i ins)
  have ok: "input_ok ins" using Cons.prems(1) by (simp add: input_ok_def)
  show ?case
  proof (cases i)
    case (Data xs)
    then have ne: "xs \<noteq> []" using Cons.prems(1) by (simp add: input_ok_def)
    have data: "input_data (i # ins) = xs @ input_data ins" by (simp add: input_data_def Data)
    then have "length (input_data ins) < n - length xs" "length xs \<le> n" using Cons.prems(2) by simp_all
    then show ?thesis using Cons.IH [OF ok _ Cons.prems(3)] ne by (simp add: data) (simp add: Data)
  next
    case Again
    then have data: "input_data (i # ins) = input_data ins" by (simp add: input_data_def)
    then show ?thesis using Cons.IH [OF ok, of n] Cons.prems(2,3) Again by simp
  next
    case Fail
    then show ?thesis using Cons.prems(1) by (simp add: input_ok_def)
  qed
qed

section \<open>The write of an image\<close>

lemma wr_erase_loop_flash:
  assumes f: "flash_dev dv cont bad sz es"
    and g: "good_blocks bad k (sz div es) = g # gs"
    and s: "wr_e s = k * es" "wr_w s + wr_skip s = k * es" "length (wr_buf s) = es"
  shows "\<exists>d. wr_erase_loop dv 0 s =
      Some (Some 0, s\<lparr>wr_dev := d, wr_pos := wr_pos s + (g - k) * es, wr_skip := wr_skip s + (g - k) * es, wr_e := g * es + es\<rparr>) \<and>
    erase_blocks es (cont d) = (erase_blocks es (cont (wr_dev s)))[g := replicate es 0xff]"
  using g s
proof (induction "g - k" arbitrary: k s)
  case (0 k s)
  note fd = flash_devD [OF f]
  note gb = good_blocks_next [OF 0(2)]
  have k: "k = g" using 0(1) gb(1) by simp
  have lt: "k * es < sz" using gb(2) fd(1,2) k by (metis dvd_div_mult_self mult_less_cancel2)
  obtain r d where e: "mtd_erase_block dv (wr_dev s) (k * es) = (r, d)" by (cases "mtd_erase_block dv (wr_dev s) (k * es)")
  note er = mtd_erase_block_flash [OF f e]
  have r: "r = 0" using er(1) lt gb(3) k by simp
  have "wr_erase_loop dv 0 s = wr_erase_loop dv 0 (s\<lparr>wr_dev := d, wr_e := k * es + es\<rparr>)"
    using 0(3-5) fd(1,5) mtd_block_is_bad_flash [OF f, of "wr_dev s" k] lt gb(3) e r k
    by (subst wr_erase_loop.simps) (simp add: Let_def)
  also have "\<dots> = Some (Some 0, s\<lparr>wr_dev := d, wr_e := k * es + es\<rparr>)"
    using 0(4,5) by (subst wr_erase_loop.simps) simp
  finally show ?case using er(2) r k by (intro exI [of _ d]) simp
next
  case (Suc x k s)
  note fd = flash_devD [OF f]
  note gb = good_blocks_next [OF Suc.prems(1)]
  have "k < g" using Suc.hyps(2) gb(1) by simp
  then have bad: "bad k" using gb(4) by simp
  have "k < sz div es" using \<open>k < g\<close> gb(2) by simp
  then have lt: "k * es < sz" using fd(1,2) by (metis dvd_div_mult_self mult_less_cancel2)
  have g': "good_blocks bad (Suc k) (sz div es) = g # gs"
    using Suc.prems(1) bad \<open>k < sz div es\<close> by (simp add: good_blocks_def upt_conv_Cons)
  let ?s = "s\<lparr>wr_skip := wr_skip s + es, wr_e := wr_e s + es, wr_pos := wr_pos s + es\<rparr>"
  have step: "wr_erase_loop dv 0 s = wr_erase_loop dv 0 ?s"
    using Suc.prems(2-4) fd(1,5) mtd_block_is_bad_flash [OF f, of "wr_dev s" k] lt bad
    by (subst wr_erase_loop.simps) (simp add: Let_def)
  have "x = g - Suc k" using Suc.hyps(2) by simp
  from Suc.hyps(1) [OF this g', of ?s] Suc.prems(2-4) obtain d where
    d: "wr_erase_loop dv 0 ?s = Some (Some 0, ?s\<lparr>wr_dev := d, wr_pos := wr_pos ?s + (g - Suc k) * es,
        wr_skip := wr_skip ?s + (g - Suc k) * es, wr_e := g * es + es\<rparr>)"
    "erase_blocks es (cont d) = (erase_blocks es (cont (wr_dev s)))[g := replicate es 0xff]"
    by auto
  have "(g - k) * es = es + (g - Suc k) * es" using \<open>k < g\<close> by (metis Suc_diff_Suc mult_Suc)
  then show ?case using d step by (intro exI [of _ d]) (simp add: add.assoc)
qed

lemma image_chunks_nil [simp]: "image_chunks es [] = []"
  by (simp add: image_chunks.simps)

lemma image_chunks_cons:
  "xs \<noteq> [] \<Longrightarrow> 0 < es \<Longrightarrow> image_chunks es xs = (take es xs @ replicate (es - length xs) 0xff) # image_chunks es (drop es xs)"
  by (subst image_chunks.simps) simp

lemma put_chunks_nil [simp]: "put_chunks gs [] bs = bs"
  by (simp add: put_chunks_def)

lemma put_chunks_cons [simp]: "put_chunks (g # gs) (c # cs) bs = put_chunks gs cs (bs[g := c])"
  by (simp add: put_chunks_def)

text \<open>
  One turn of the loop, with an empty offset: the buffer is filled, the next good block is erased and
  written.
\<close>

lemma mtd_write_turn:
  assumes f: "flash_dev dv cont bad sz es"
    and g: "good_blocks bad k (sz div es) = g # gs"
    and s: "wr_e s = k * es" "wr_pos s = k * es" "wr_w s + wr_skip s = k * es" "wr_offset s = 0" "wr_bufsz s = es"
    and fill: "fill_buf (es - length (wr_buf s)) (wr_in s) = (xs, ins)" "wr_buf s @ xs \<noteq> []" "length (wr_buf s @ xs) \<le> es"
  shows "\<exists>t. mtd_write_loop dv False 0 s = mtd_write_loop dv False 0 t \<and> wr_in t = ins \<and> wr_buf t = [] \<and>
    wr_e t = Suc g * es \<and> wr_pos t = Suc g * es \<and> wr_w t + wr_skip t = Suc g * es \<and> wr_offset t = 0 \<and> wr_bufsz t = es \<and> wr_past t = wr_past s \<and> wr_next t = wr_next s \<and>
    erase_blocks es (cont (wr_dev t)) =
      (erase_blocks es (cont (wr_dev s)))[g := (wr_buf s @ xs) @ replicate (es - length (wr_buf s @ xs)) 0xff]"
proof -
  note fd = flash_devD [OF f]
  note gb = good_blocks_next [OF g]
  have ne: "(wr_buf s = [] \<and> xs = []) = False" using fill(2) by auto
  define b where "b = wr_buf s @ xs"
  note bb = b_def [symmetric]
  have b: "b \<noteq> []" "length b \<le> es" using fill(2,3) by (simp_all only: bb not_False_eq_True)
  let ?c = "b @ replicate (es - length b) 0xff"
  have c: "length ?c = es" using b(2) by simp
  let ?s = "s\<lparr>wr_in := ins, wr_buf := ?c\<rparr>"
  obtain d where d: "wr_erase_loop dv 0 ?s = Some (Some 0, ?s\<lparr>wr_dev := d, wr_pos := wr_pos s + (g - k) * es,
        wr_skip := wr_skip s + (g - k) * es, wr_e := g * es + es\<rparr>)"
      "erase_blocks es (cont d) = (erase_blocks es (cont (wr_dev s)))[g := replicate es 0xff]"
    using wr_erase_loop_flash [OF f g, of ?s] s c by auto
  have pos: "k * es + (g - k) * es = g * es" using gb(1) by (metis add_mult_distrib le_add_diff_inverse)
  obtain r d' where w: "dev_pwrite dv d (g * es) ?c = (r, d')" by (cases "dev_pwrite dv d (g * es) ?c")
  have "g < length (erase_blocks es (cont (wr_dev s)))" using gb(2) fd(3) by simp
  then have wr: "r = int es" "erase_blocks es (cont d') = (erase_blocks es (cont (wr_dev s)))[g := ?c]"
    using dev_pwrite_flash [OF f gb(2,3) c _ w] d(2) by simp_all
  let ?t = "s\<lparr>wr_in := ins, wr_skip := wr_skip s + (g - k) * es, wr_e := g * es + es, wr_dev := d', wr_pos := g * es + es,
      wr_w := wr_w s + es, wr_buf := [], wr_offset := 0\<rparr>"
  have "mtd_write_loop dv False 0 s = mtd_write_loop dv False 0 ?t"
    using b c s d(1) w wr(1)
    by (subst mtd_write_loop.simps) (simp add: fd(5) fill(1) bb ne wr_write_def Let_def pos)
  moreover have "wr_w s + es + (wr_skip s + (g - k) * es) = Suc g * es" using s(2,3) pos by simp
  ultimately show ?thesis using wr(2) s(5) by (intro exI [of _ ?t]) (simp add: bb add.commute)
qed

text \<open>Behind the last good block, the loop ends with an error and without an erase.\<close>

lemma wr_erase_loop_full:
  assumes f: "flash_dev dv cont bad sz es" and k: "k \<le> sz div es" "good_blocks bad k (sz div es) = []"
    and s: "wr_e s = k * es" "wr_w s + wr_skip s = k * es" "length (wr_buf s) = es"
  shows "\<exists>r t. wr_erase_loop dv 0 s = Some (r, t) \<and> (r = None \<or> r = Some (- 1)) \<and> wr_next t = wr_next s \<and> wr_past t = wr_past s \<and>
    erase_blocks es (cont (wr_dev t)) = erase_blocks es (cont (wr_dev s))"
  using k s
proof (induction "sz div es - k" arbitrary: k s)
  case 0
  note fd = flash_devD [OF f]
  have "sz div es = k" using 0 by simp
  then have sz: "sz = k * es" using dvd_div_mult_self [OF fd(2)] by simp
  show ?case
  proof (cases "dev_nand dv (wr_dev s)")
    case True
    then have "wr_erase_loop dv 0 s = Some (None, s)"
      using 0(4-6) fd(1) mtd_block_is_bad_flash [OF f, of "wr_dev s" k] sz by (subst wr_erase_loop.simps) simp
    then show ?thesis by blast
  next
    case False
    then have "\<not> bad k" using fd(9) by blast
    obtain r d where e: "mtd_erase_block dv (wr_dev s) (k * es) = (r, d)" by (cases "mtd_erase_block dv (wr_dev s) (k * es)")
    have "r = - 1" "erase_blocks es (cont d) = erase_blocks es (cont (wr_dev s))" using mtd_erase_block_flash [OF f e] sz by simp_all
    moreover have "wr_erase_loop dv 0 s = Some (Some r, s\<lparr>wr_dev := d\<rparr>)"
      using 0(4-6) fd(1,5) mtd_block_is_bad_flash [OF f, of "wr_dev s" k] False \<open>\<not> bad k\<close> e \<open>r = - 1\<close>
      by (subst wr_erase_loop.simps) (simp add: Let_def)
    ultimately show ?thesis by (intro exI [of _ "Some r"] exI [of _ "s\<lparr>wr_dev := d\<rparr>"]) simp
  qed
next
  case (Suc x)
  note fd = flash_devD [OF f]
  have lt': "k < sz div es" using Suc.hyps(2) by simp
  then have lt: "k * es < sz" using fd(1,2) by (metis dvd_div_mult_self mult_less_cancel2)
  have bad: "bad k" "good_blocks bad (Suc k) (sz div es) = []"
    using Suc.prems(2) lt' by (simp_all add: good_blocks_def upt_conv_Cons split: if_splits)
  let ?s = "s\<lparr>wr_skip := wr_skip s + es, wr_e := wr_e s + es, wr_pos := wr_pos s + es\<rparr>"
  have "wr_erase_loop dv 0 s = wr_erase_loop dv 0 ?s"
    using Suc.prems(3-5) fd(1,5) mtd_block_is_bad_flash [OF f, of "wr_dev s" k] lt bad
    by (subst wr_erase_loop.simps) (simp add: Let_def)
  moreover have "x = sz div es - Suc k" "Suc k \<le> sz div es" using Suc.hyps(2) by simp_all
  ultimately show ?case using Suc.hyps(1) [of "Suc k" ?s] Suc.prems(3-5) bad(2) by simp
qed

text \<open>
  The loop on the last device. It ends with the input, or with an error of the input at the end of a block, which
  is taken for the end; when the good blocks are used up before, the tool exits.
\<close>

lemma mtd_write_loop_flash:
  assumes f: "flash_dev dv cont bad sz es" and tail: "stops tail" "tail = [] \<or> es dvd length (wr_buf s @ input_data ins)"
    and s: "wr_in s = ins @ tail" "input_ok ins" "length (wr_buf s) \<le> es" "wr_offset s = 0" "wr_bufsz s = es"
      "wr_e s = k * es" "wr_pos s = k * es" "wr_w s + wr_skip s = k * es" "wr_next s = []" "k \<le> sz div es"
  shows "\<exists>t. mtd_write_loop dv False 0 s =
      Some (if length (image_chunks es (wr_buf s @ input_data ins)) \<le> length (good_blocks bad k (sz div es))
        then Returned 0 else Exited 1, t) \<and> wr_past t = wr_past s \<and> wr_next t = wr_next s \<and>
    erase_blocks es (cont (wr_dev t)) = put_chunks (good_blocks bad k (sz div es)) (image_chunks es (wr_buf s @ input_data ins))
      (erase_blocks es (cont (wr_dev s)))"
  using tail s
proof (induction "image_chunks es (wr_buf s @ input_data ins)" arbitrary: s ins k)
  case (Nil s ins k)
  note fd = flash_devD [OF f]
  have "wr_buf s @ input_data ins = []"
    using Nil.hyps fd(1) image_chunks_cons [of "wr_buf s @ input_data ins" es] by (cases "wr_buf s @ input_data ins = []") simp_all
  then have e: "wr_buf s = []" "input_data ins = []" by simp_all
  have "fill_buf es (ins @ tail) = ([], tl tail)" using fill_buf_short [OF Nil(5) _ Nil(2), of es] e(2) fd(1) by simp
  then have "mtd_write_loop dv False 0 s = Some (Returned 0, s\<lparr>wr_in := tl tail, wr_buf := []\<rparr>)"
    using e Nil(4) by (subst mtd_write_loop.simps) (simp add: fd(5))
  then show ?case using e by simp
next
  case (Cons c cs s ins k)
  note fd = flash_devD [OF f]
  let ?X = "wr_buf s @ input_data ins" and ?n = "es - length (wr_buf s)"
  have X: "?X \<noteq> []" using Cons.hyps(2) by (cases "?X = []") simp_all
  note chunks = image_chunks_cons [OF X fd(1)]
  obtain xs ins' where fill: "fill_buf ?n (ins @ tail) = (xs, ins' @ tail)" "wr_buf s @ xs = take es ?X"
    "input_ok ins'" "input_data ins' = drop es ?X" "tail = [] \<or> es dvd length (input_data ins')"
  proof (cases "?n \<le> length (input_data ins)")
    case True
    from fill_buf_enough [OF Cons.prems(4) this] obtain ins' where
      i: "fill_buf ?n (ins @ tail) = (take ?n (input_data ins), ins' @ tail)" "input_ok ins'" "input_data ins' = drop ?n (input_data ins)"
      by blast
    have "wr_buf s @ take ?n (input_data ins) = take es ?X" "drop ?n (input_data ins) = drop es ?X"
      using Cons.prems(5) by simp_all
    moreover have "tail = [] \<or> es dvd length (drop es ?X)"
      using Cons.prems(2) unfolding length_drop by (metis dvd_diff_nat dvd_refl)
    ultimately show thesis using that [OF i(1)] i(2,3) Cons.prems(1) by metis
  next
    case False
    then have short: "length ?X < es" by simp
    have "tail = []"
    proof (rule ccontr)
      assume "tail \<noteq> []"
      then have "es dvd length ?X" using Cons.prems(2) by simp
      then show False using short X by (metis dvd_imp_le length_greater_0_conv not_less)
    qed
    moreover have "fill_buf ?n (ins @ tail) = (input_data ins, tl tail)"
      using fill_buf_short [OF Cons.prems(4) _ Cons.prems(1)] False by simp
    ultimately show thesis using that [of "input_data ins" "[]"] short by (simp add: input_ok_def input_data_def stops_def)
  qed
  have "fill_buf ?n (wr_in s) = (xs, ins' @ tail)" using fill(1) Cons.prems(3) by simp
  moreover have "wr_buf s @ xs \<noteq> []" "length (wr_buf s @ xs) \<le> es" using X fd(1) by (simp_all only: fill(2)) simp_all
  ultimately have ready: "fill_buf ?n (wr_in s) = (xs, ins' @ tail)" "wr_buf s @ xs \<noteq> []" "length (wr_buf s @ xs) \<le> es" .
  show ?case
  proof (cases "good_blocks bad k (sz div es)")
    case Nil
    have ne: "(wr_buf s = [] \<and> xs = []) = False" using ready(2) by auto
    define b where "b = wr_buf s @ xs"
    note bb = b_def [symmetric]
    have b: "b \<noteq> []" "length b \<le> es" using ready(2,3) by (simp_all only: bb not_False_eq_True)
    let ?s = "s\<lparr>wr_in := ins' @ tail, wr_buf := b @ replicate (es - length b) 0xff\<rparr>"
    obtain r t where t: "wr_erase_loop dv 0 ?s = Some (r, t)" "r = None \<or> r = Some (- 1)" "wr_next t = []" "wr_past t = wr_past s"
      "erase_blocks es (cont (wr_dev t)) = erase_blocks es (cont (wr_dev s))"
      using wr_erase_loop_full [OF f Cons.prems(12) Nil, of ?s] Cons.prems(8,10,11) b by auto
    have "mtd_write_loop dv False 0 s = Some (Exited 1, t)"
      using t(1-3) b Cons.prems(7) by (subst mtd_write_loop.simps) (auto simp: fd(5) ready(1) bb ne Let_def)
    then show ?thesis using t(3-5) Cons.prems(11) Nil Cons.hyps(2) [symmetric] by (simp add: put_chunks_def)
  next
    case g: (Cons g gs)
    note gb = good_blocks_next [OF g]
    obtain t where t: "mtd_write_loop dv False 0 s = mtd_write_loop dv False 0 t" "wr_in t = ins' @ tail" "wr_buf t = []"
      "wr_e t = Suc g * es" "wr_pos t = Suc g * es" "wr_w t + wr_skip t = Suc g * es" "wr_offset t = 0" "wr_bufsz t = es"
      "wr_past t = wr_past s" "wr_next t = wr_next s" "erase_blocks es (cont (wr_dev t)) =
        (erase_blocks es (cont (wr_dev s)))[g := (wr_buf s @ xs) @ replicate (es - length (wr_buf s @ xs)) 0xff]"
      using mtd_write_turn [OF f g Cons.prems(8,9,10,6,7) ready] by blast
    have c: "c = (wr_buf s @ xs) @ replicate (es - length (wr_buf s @ xs)) 0xff" and cs: "cs = image_chunks es (input_data ins')"
      using Cons.hyps(2) unfolding chunks fill(2,4) by (auto simp: min_def)
    have "\<exists>t'. mtd_write_loop dv False 0 t =
        Some (if length cs \<le> length (good_blocks bad (Suc g) (sz div es)) then Returned 0 else Exited 1, t') \<and>
      wr_past t' = wr_past t \<and> wr_next t' = wr_next t \<and>
      erase_blocks es (cont (wr_dev t')) = put_chunks (good_blocks bad (Suc g) (sz div es)) cs (erase_blocks es (cont (wr_dev t)))"
      using Cons.hyps(1) [of t ins' "Suc g"] Cons.prems(1,11) fill(3,5) t(2-8,10) cs gb(2) by simp
    then show ?thesis using t(1,9-11) c g gb(5) Cons.hyps(2) [symmetric] by auto
  qed
qed

text \<open>
  An image that fits is put into the good blocks of the device in order, the last block padded, and no other
  block changes. It does not matter in which pieces it is read, how much of it the check of the image has
  already put into the buffer, and which blocks are bad.
\<close>
theorem mtd_write_places_image:
  assumes f: "flash_dev dv cont bad sz es" and ins: "input_ok ins" "length buf \<le> es"
    and room: "length (image_chunks es (buf @ input_data ins)) \<le> length (good_blocks bad 0 (sz div es))"
  shows "\<exists>d'. mtd_write dv False 0 es buf ins d [] = Some (Returned 0, [d']) \<and>
    erase_blocks es (cont d') =
      put_chunks (good_blocks bad 0 (sz div es)) (image_chunks es (buf @ input_data ins)) (erase_blocks es (cont d))"
proof -
  let ?s = "\<lparr>wr_dev = d, wr_next = [], wr_past = [], wr_pos = 0, wr_in = ins, wr_buf = buf, wr_bufsz = es,
          wr_w = 0, wr_e = 0, wr_skip = 0, wr_offset = 0\<rparr>"
  obtain t where "mtd_write_loop dv False 0 ?s = Some (Returned 0, t)" "wr_past t = []" "wr_next t = []"
    "erase_blocks es (cont (wr_dev t)) =
      put_chunks (good_blocks bad 0 (sz div es)) (image_chunks es (buf @ input_data ins)) (erase_blocks es (cont d))"
    using mtd_write_loop_flash [OF f, of "[]" ?s ins 0] assms(2-4) by (auto simp: stops_def)
  then show ?thesis by (intro exI [of _ "wr_dev t"]) (simp add: mtd_write_def)
qed

text \<open>
  A read error is taken for the end of the image: when it comes after whole blocks, the tool writes what it
  has and returns 0, as if the image were complete. What can still be read is left where it is.
\<close>
theorem mtd_write_read_error:
  assumes f: "flash_dev dv cont bad sz es" and ins: "input_ok ins" "es dvd length (input_data ins)"
    and room: "length (image_chunks es (input_data ins)) \<le> length (good_blocks bad 0 (sz div es))"
  shows "\<exists>d'. mtd_write dv False 0 es [] (ins @ Fail # rest) d [] = Some (Returned 0, [d']) \<and>
    erase_blocks es (cont d') = put_chunks (good_blocks bad 0 (sz div es)) (image_chunks es (input_data ins)) (erase_blocks es (cont d))"
proof -
  let ?s = "\<lparr>wr_dev = d, wr_next = [], wr_past = [], wr_pos = 0, wr_in = ins @ Fail # rest, wr_buf = [], wr_bufsz = es,
          wr_w = 0, wr_e = 0, wr_skip = 0, wr_offset = 0\<rparr>"
  obtain t where "mtd_write_loop dv False 0 ?s = Some (Returned 0, t)" "wr_past t = []" "wr_next t = []"
    "erase_blocks es (cont (wr_dev t)) =
      put_chunks (good_blocks bad 0 (sz div es)) (image_chunks es (input_data ins)) (erase_blocks es (cont d))"
    using mtd_write_loop_flash [OF f, of "Fail # rest" ?s ins 0] assms(2-4) by (auto simp: stops_def)
  then show ?thesis by (intro exI [of _ "wr_dev t"]) (simp add: mtd_write_def)
qed

text \<open>
  An image that is too large is written as far as the good blocks go, and the tool exits with 1. So does a
  device whose last blocks are bad, and no block is written twice or outside the device.
\<close>
theorem mtd_write_too_large:
  assumes f: "flash_dev dv cont bad sz es" and ins: "input_ok ins" "length buf \<le> es"
    and large: "length (good_blocks bad 0 (sz div es)) < length (image_chunks es (buf @ input_data ins))"
  shows "\<exists>d'. mtd_write dv False 0 es buf ins d [] = Some (Exited 1, [d']) \<and>
    erase_blocks es (cont d') =
      put_chunks (good_blocks bad 0 (sz div es)) (image_chunks es (buf @ input_data ins)) (erase_blocks es (cont d))"
proof -
  let ?s = "\<lparr>wr_dev = d, wr_next = [], wr_past = [], wr_pos = 0, wr_in = ins, wr_buf = buf, wr_bufsz = es,
          wr_w = 0, wr_e = 0, wr_skip = 0, wr_offset = 0\<rparr>"
  obtain t where "mtd_write_loop dv False 0 ?s = Some (Exited 1, t)" "wr_past t = []" "wr_next t = []"
    "erase_blocks es (cont (wr_dev t)) =
      put_chunks (good_blocks bad 0 (sz div es)) (image_chunks es (buf @ input_data ins)) (erase_blocks es (cont d))"
    using mtd_write_loop_flash [OF f, of "[]" ?s ins 0] assms(2-4) by (auto simp: stops_def)
  then show ?thesis by (intro exI [of _ "wr_dev t"]) (simp add: mtd_write_def)
qed

section \<open>Erase\<close>

text \<open>An erase clears every good block, leaves the bad ones alone, and ends.\<close>
theorem mtd_erase_clears:
  assumes f: "flash_dev dv cont bad sz es"
  shows "\<exists>d'. mtd_erase dv d = Some (Returned 0, d') \<and>
    erase_blocks es (cont d') = map (\<lambda>(k, b). if bad k then b else replicate es 0xff) (enumerate 0 (erase_blocks es (cont d)))"
proof -
  note fd = flash_devD [OF f]
  let ?N = "sz div es"
  have "\<exists>d'. mtd_erase_from dv d (k * es) = Some (Returned 0, d') \<and>
      erase_blocks es (cont d') = map (\<lambda>j. if j < k \<or> bad j then erase_blocks es (cont d) ! j else replicate es 0xff) [0..<?N]"
    if "k \<le> ?N" for k
    using that
  proof (induction "?N - k" arbitrary: k d)
    case 0
    then have "?N = k" by simp
    then have "sz = k * es" using dvd_div_mult_self [OF fd(2)] by simp
    then have "mtd_erase_from dv d (k * es) = Some (Returned 0, d)" by (subst mtd_erase_from.simps) (simp add: fd(4))
    moreover have "erase_blocks es (cont d) = map (\<lambda>j. if j < k \<or> bad j then erase_blocks es (cont d) ! j else replicate es 0xff) [0..<?N]"
      using 0 fd(3) by (intro nth_equalityI) auto
    ultimately show ?case by blast
  next
    case (Suc x)
    have k: "k < ?N" using Suc.hyps(2) by simp
    then have lt: "k * es < sz" using fd(1,2) by (metis dvd_div_mult_self mult_less_cancel2)
    obtain r d1 where e: "mtd_erase_block dv d (k * es) = (r, d1)" by (cases "mtd_erase_block dv d (k * es)")
    let ?d = "if bad k then d else d1"
    have blocks: "erase_blocks es (cont ?d) = (if bad k then erase_blocks es (cont d) else (erase_blocks es (cont d))[k := replicate es 0xff])"
      using mtd_erase_block_flash [OF f e] lt by simp
    have "mtd_erase_from dv d (k * es) = mtd_erase_from dv ?d (Suc k * es)"
      using lt e mtd_block_is_bad_flash [OF f, of d k] by (subst mtd_erase_from.simps) (simp add: fd(4,5) add.commute)
    moreover have "x = ?N - Suc k" "Suc k \<le> ?N" using Suc.hyps(2) by simp_all
    from Suc.hyps(1) [OF this, of ?d] obtain d' where d': "mtd_erase_from dv ?d (Suc k * es) = Some (Returned 0, d')"
      "erase_blocks es (cont d') = map (\<lambda>j. if j < Suc k \<or> bad j then erase_blocks es (cont ?d) ! j else replicate es 0xff) [0..<?N]"
      by blast
    moreover have "map (\<lambda>j. if j < Suc k \<or> bad j then erase_blocks es (cont ?d) ! j else replicate es 0xff) [0..<?N] =
        map (\<lambda>j. if j < k \<or> bad j then erase_blocks es (cont d) ! j else replicate es 0xff) [0..<?N]"
      unfolding blocks using fd(3) by (intro map_cong) (auto simp: nth_list_update less_Suc_eq)
    ultimately show ?case by simp
  qed
  from this [of 0] obtain d' where "mtd_erase_from dv d 0 = Some (Returned 0, d')"
    "erase_blocks es (cont d') = map (\<lambda>j. if bad j then erase_blocks es (cont d) ! j else replicate es 0xff) [0..<?N]" by auto
  moreover have "map (\<lambda>j. if bad j then erase_blocks es (cont d) ! j else replicate es 0xff) [0..<?N] =
      map (\<lambda>(k, b). if bad k then b else replicate es 0xff) (enumerate 0 (erase_blocks es (cont d)))"
    using fd(3) by (intro nth_equalityI) (simp_all add: nth_enumerate_eq)
  ultimately show ?thesis by (simp add: mtd_erase_def)
qed

section \<open>Dump\<close>

lemma mtd_dump_loop_flash:
  assumes f: "flash_dev dv cont bad sz es" and "k \<le> sz div es" "0 < m"
  shows "\<exists>d'. mtd_dump_loop dv d (k * es) (k * es) (m * es) out =
      Some (Returned 0, out @ concat (take m (map (\<lambda>j. erase_blocks es (cont d) ! j) (good_blocks bad k (sz div es)))), d') \<and>
    cont d' = cont d"
  using assms(2,3)
proof (induction "sz div es - k" arbitrary: k d m out)
  case 0
  note fd = flash_devD [OF f]
  have "sz div es = k" using 0 by simp
  then have sz: "sz = k * es" using dvd_div_mult_self [OF fd(2)] by simp
  have len: "(if es < m * es then es else m * es) = es" using 0(3) fd(1) by (cases m) auto
  obtain d' where r: "dev_pread dv d (k * es) es = (Inr [], d')" "cont d' = cont d"
    using fd(6,7) [of d "k * es" es] fd(3) sz by (cases "dev_pread dv d (k * es) es") auto
  then have "mtd_dump_loop dv d (k * es) (k * es) (m * es) out = Some (Returned 0, out, d')"
    by (subst mtd_dump_loop.simps) (unfold fd(5) len Let_def, simp)
  then show ?case using r(2) \<open>sz div es = k\<close> by (simp add: good_blocks_def)
next
  case (Suc x)
  note fd = flash_devD [OF f]
  have k: "k < sz div es" using Suc.hyps(2) by simp
  then have lt: "k * es < sz" using fd(1,2) by (metis dvd_div_mult_self mult_less_cancel2)
  have len: "(if es < m * es then es else m * es) = es" using Suc.prems(2) fd(1) by (cases m) auto
  let ?B = "erase_blocks es (cont d)"
  have block: "?B ! k = take es (drop (k * es) (cont d))" using k fd(3) by (simp add: erase_blocks_nth)
  have blen: "length (?B ! k) = es" using block_in_range [OF fd(2,1) k] fd(3) by (simp add: block)
  then have bne: "?B ! k \<noteq> []" using fd(1) by auto
  obtain d' where r: "dev_pread dv d (k * es) es = (Inr (?B ! k), d')" "cont d' = cont d"
    using fd(6,7) [of d "k * es" es] block by (cases "dev_pread dv d (k * es) es") auto
  have isbad: "mtd_block_is_bad dv d' (k * es) = Some (bad k)" using mtd_block_is_bad_flash [OF f] lt by simp
  have x: "x = sz div es - Suc k" "Suc k \<le> sz div es" using Suc.hyps(2) by simp_all
  have up: "good_blocks bad k (sz div es) = (if bad k then [] else [k]) @ good_blocks bad (Suc k) (sz div es)"
    using k by (simp add: good_blocks_def upt_conv_Cons)
  have step: "mtd_dump_loop dv d (k * es) (k * es) (m * es) out =
      (let m' = (if bad k then m else m - 1); out' = (if bad k then out else out @ ?B ! k)
       in if 0 < m' then mtd_dump_loop dv d' (Suc k * es) (Suc k * es) (m' * es) out' else Some (Returned 0, out', d'))"
    using fd(1) Suc.prems(2) bne blen isbad
    by (subst mtd_dump_loop.simps) (unfold fd(5) len Let_def, auto simp: r(1) add.commute diff_mult_distrib)
  show ?case
  proof (cases "\<not> bad k \<and> m = 1")
    case True
    then show ?thesis using step r(2) by (simp add: up)
  next
    case False
    let ?m = "if bad k then m else m - 1" and ?out = "if bad k then out else out @ ?B ! k"
    have m: "0 < ?m" using False Suc.prems(2) by auto
    from Suc.hyps(1) [OF x m, of d' ?out] obtain d'' where
      "mtd_dump_loop dv d' (Suc k * es) (Suc k * es) (?m * es) ?out =
        Some (Returned 0, ?out @ concat (take ?m (map (\<lambda>j. ?B ! j) (good_blocks bad (Suc k) (sz div es)))), d'')" "cont d'' = cont d"
      using r(2) by auto
    then show ?thesis using step m up by (intro exI [of _ d'']) (cases m; auto simp: Let_def)
  qed
qed

text \<open>
  A dump of a length that is a multiple of the erase size gives the contents of the good blocks, in order, up to
  that length, and changes nothing.
\<close>
theorem mtd_dump_reads_good_blocks:
  assumes f: "flash_dev dv cont bad sz es" and "0 < m"
  shows "\<exists>d'. mtd_dump dv d 0 (m * es) =
      Some (Returned 0, concat (take m (map (\<lambda>j. erase_blocks es (cont d) ! j) (good_blocks bad 0 (sz div es)))), d') \<and>
    cont d' = cont d"
  using mtd_dump_loop_flash [OF f, of 0 m d "[]"] assms(2) flash_devD(1) [OF f] by (simp add: mtd_dump_def)

lemma put_chunks_other: "j \<notin> set gs \<Longrightarrow> put_chunks gs cs bs ! j = bs ! j"
proof (induction cs arbitrary: gs bs)
  case (Cons c cs)
  then show ?case by (cases gs) (auto simp: put_chunks_def)
qed simp

lemma put_chunks_read:
  assumes "distinct gs" "length cs \<le> length gs" "list_all (\<lambda>g. g < length bs) gs"
  shows "map (\<lambda>j. put_chunks gs cs bs ! j) gs = cs @ map (\<lambda>j. bs ! j) (drop (length cs) gs)"
  using assms
proof (induction cs arbitrary: gs bs)
  case (Cons c cs)
  then obtain g gs' where gs: "gs = g # gs'" by (cases gs) auto
  have "map (\<lambda>j. put_chunks gs' cs (bs[g := c]) ! j) gs' = cs @ map (\<lambda>j. bs[g := c] ! j) (drop (length cs) gs')"
    using Cons.prems by (intro Cons.IH) (simp_all add: gs)
  moreover have "map (\<lambda>j. bs[g := c] ! j) (drop (length cs) gs') = map (\<lambda>j. bs ! j) (drop (length cs) gs')"
  proof (intro map_cong refl)
    fix x assume "x \<in> set (drop (length cs) gs')"
    then have "x \<in> set gs'" by (rule in_set_dropD)
    then have "g \<noteq> x" using Cons.prems(1) by (auto simp: gs)
    then show "bs[g := c] ! x = bs ! x" by simp
  qed
  ultimately show ?case using Cons.prems by (simp add: gs put_chunks_other)
qed simp

lemma good_blocks_distinct: "distinct (good_blocks bad k n)"
  by (simp add: good_blocks_def)

lemma good_blocks_less: "list_all (\<lambda>g. g < n) (good_blocks bad k n)"
  by (simp add: good_blocks_def list_all_iff)

lemma concat_image_chunks: "0 < es \<Longrightarrow> take (length xs) (concat (image_chunks es xs)) = xs"
proof (induction es xs rule: image_chunks.induct)
  case (1 es xs)
  show ?case
  proof (cases "xs = []")
    case False
    then have IH: "take (length xs - es) (concat (image_chunks es (drop es xs))) = drop es xs" using 1 by simp
    then show ?thesis using False 1(2) by (cases "length xs \<le> es") (simp_all add: image_chunks_cons)
  qed simp
qed

text \<open>
  What is written is what a dump reads back: after the write of an image, a dump of its length in whole blocks
  begins with the image.
\<close>
theorem mtd_write_dump:
  assumes f: "flash_dev dv cont bad sz es" and ins: "input_ok ins" "input_data ins \<noteq> []"
    and room: "length (image_chunks es (input_data ins)) \<le> length (good_blocks bad 0 (sz div es))"
  shows "\<exists>d' out d''. mtd_write dv False 0 es [] ins d [] = Some (Returned 0, [d']) \<and>
    mtd_dump dv d' 0 (length (image_chunks es (input_data ins)) * es) = Some (Returned 0, out, d'') \<and>
    take (length (input_data ins)) out = input_data ins"
proof -
  note fd = flash_devD [OF f]
  let ?cs = "image_chunks es (input_data ins)" and ?gs = "good_blocks bad 0 (sz div es)"
  have cs: "0 < length ?cs" using ins(2) fd(1) by (simp add: image_chunks_cons)
  let ?s = "\<lparr>wr_dev = d, wr_next = [], wr_past = [], wr_pos = 0, wr_in = ins, wr_buf = [], wr_bufsz = es,
          wr_w = 0, wr_e = 0, wr_skip = 0, wr_offset = 0\<rparr>"
  obtain t where "mtd_write_loop dv False 0 ?s = Some (Returned 0, t)" "wr_past t = []" "wr_next t = []"
    and t: "erase_blocks es (cont (wr_dev t)) = put_chunks ?gs ?cs (erase_blocks es (cont d))"
    using mtd_write_loop_flash [OF f, of "[]" ?s ins 0] ins(1) room by (auto simp: stops_def)
  then have w: "mtd_write dv False 0 es [] ins d [] = Some (Returned 0, [wr_dev t])" by (simp add: mtd_write_def)
  have "map (\<lambda>j. erase_blocks es (cont (wr_dev t)) ! j) ?gs = ?cs @ map (\<lambda>j. erase_blocks es (cont d) ! j) (drop (length ?cs) ?gs)"
    unfolding t using room fd(3) good_blocks_less [of "sz div es"] by (intro put_chunks_read good_blocks_distinct) simp_all
  moreover obtain d' where "mtd_dump dv (wr_dev t) 0 (length ?cs * es) =
      Some (Returned 0, concat (take (length ?cs) (map (\<lambda>j. erase_blocks es (cont (wr_dev t)) ! j) ?gs)), d')"
    using mtd_dump_loop_flash [OF f, of 0 "length ?cs" "wr_dev t" "[]"] cs fd(1) by (auto simp: mtd_dump_def)
  ultimately show ?thesis using w concat_image_chunks [OF fd(1), of "input_data ins"] by auto
qed

section \<open>The whole tool\<close>

text \<open>
  What the check of an image asks of a file for a device of \<open>n\<close> bytes: of a TRX image for the partition
  \<^verbatim>\<open>firmware\<close> that its header is complete and its length fits.
\<close>

definition image_accepted :: "mtd_opts \<Rightarrow> u8 list \<Rightarrow> nat \<Rightarrow> u8 list \<Rightarrow> bool" where
  "image_accepted opts mtd n img \<longleftrightarrow>
     4 \<le> length img \<and>
     (case image_format (opt_trxmagic opts) img of
        MTD_IMAGE_FORMAT_TRX \<Rightarrow>
          opt_has_trx opts \<and> mtd = FIRMWARE \<longrightarrow> 32 \<le> length img \<and> 28 \<le> trx_len img \<and> trx_len img \<le> n
      | MTD_IMAGE_FORMAT_UNKNOWN \<Rightarrow> \<not> (opt_brcm opts \<and> mtd = FIRMWARE)
      | _ \<Rightarrow> True)"

lemma rd_bytes_take: "off + n \<le> k \<Longrightarrow> k \<le> length xs \<Longrightarrow> rd_bytes (take k xs) off n = rd_bytes xs off n"
  by (auto simp: rd_bytes_def)

lemma image_format_take: "4 \<le> k \<Longrightarrow> k \<le> length img \<Longrightarrow> image_format m (take k img) = image_format m img"
  by (simp add: image_format_def trx_magic_def rd32_def rd_bytes_take)

lemma image_format_trx: "image_format m img = MTD_IMAGE_FORMAT_TRX \<longleftrightarrow> trx_magic img = m"
  by (simp add: image_format_def Let_def)

lemma trx_check_file:
  assumes img: "4 \<le> length img" "trx_magic img = m"
    and bi: "bi = (take 4 img, if length img = 4 then [] else [Data (drop 4 img)])"
  shows "\<exists>buf ins. trx_check m mtd (Some n) bi =
      (Some (mtd = FIRMWARE \<longrightarrow> 32 \<le> length img \<and> 28 \<le> trx_len img \<and> trx_len img \<le> n), buf, ins) \<and>
    buf @ input_data ins = img \<and> input_ok ins \<and> length buf \<le> 32"
proof (cases "mtd = FIRMWARE")
  case False
  then show ?thesis using img(1) by (auto simp: trx_check_def bi input_data_def input_ok_def)
next
  case True
  let ?ins = "if length img \<le> 32 then [] else [Data (drop 32 img)]"
  have read: "(case bi of (buf, ins) \<Rightarrow> if length buf < 32 then (case read_input (32 - length buf) ins of
        (Data xs, ins) \<Rightarrow> (buf @ xs, ins) | (_, ins) \<Rightarrow> (take (length buf - 1) buf, ins)) else (buf, ins)) = (take 32 img, ?ins)"
    using img(1) by (simp add: bi) (auto simp: take_add [of 4 28, simplified])
  have "trx_magic (take 32 img) = m" "trx_len (take 32 img) = trx_len img" if "32 \<le> length img"
    using that img(2) by (simp_all add: trx_magic_def trx_len_def rd32_def rd_bytes_take)
  then have "trx_check m mtd (Some n) bi =
      (Some (32 \<le> length img \<and> 28 \<le> trx_len img \<and> trx_len img \<le> n), take 32 img, ?ins)"
    using True by (simp only: trx_check_def read Let_def) auto
  then show ?thesis using True by (intro exI [of _ "take 32 img"] exI [of _ ?ins]) (simp add: input_data_def input_ok_def)
qed

lemma image_check_file:
  assumes "img \<noteq> []"
  shows "\<exists>buf ins. image_check opts mtd (Some n) [Data img] = (Some (image_accepted opts mtd n img), buf, ins) \<and>
    buf @ input_data ins = img \<and> input_ok ins \<and> length buf \<le> 32"
proof (cases "length img < 4")
  case True
  then show ?thesis using assms by (simp add: image_check_def image_accepted_def input_data_def input_ok_def)
next
  case False
  define ins0 where "ins0 = (if length img = 4 then [] else [Data (drop 4 img)])"
  have read: "read_magic [] [Data img] = (take 4 img, ins0)" using False assms by (auto simp: ins0_def)
  have fmt: "image_format (opt_trxmagic opts) (take 4 img) = image_format (opt_trxmagic opts) img"
    using False by (simp add: image_format_take)
  have bi: "take 4 img @ input_data ins0 = img" "input_ok ins0" "\<not> length (take 4 img) < 4"
    using False by (auto simp: input_data_def input_ok_def ins0_def)
  show ?thesis
  proof (cases "image_format (opt_trxmagic opts) img = MTD_IMAGE_FORMAT_TRX \<and> opt_has_trx opts")
    case True
    then have "trx_magic img = opt_trxmagic opts" by (simp add: image_format_trx)
    with trx_check_file [OF _ this refl, of mtd n, folded ins0_def] False obtain buf ins where
      t: "trx_check (opt_trxmagic opts) mtd (Some n) (take 4 img, ins0) =
        (Some (mtd = FIRMWARE \<longrightarrow> 32 \<le> length img \<and> 28 \<le> trx_len img \<and> trx_len img \<le> n), buf, ins)"
      "buf @ input_data ins = img" "input_ok ins" "length buf \<le> 32" by auto
    have "image_check opts mtd (Some n) [Data img] = trx_check (opt_trxmagic opts) mtd (Some n) (take 4 img, ins0)"
      unfolding image_check_def read prod.case fmt using True bi(3) by simp
    moreover have "image_accepted opts mtd n img = (mtd = FIRMWARE \<longrightarrow> 32 \<le> length img \<and> 28 \<le> trx_len img \<and> trx_len img \<le> n)"
      using True False by (simp add: image_accepted_def)
    ultimately show ?thesis using t by auto
  next
    case F: False
    have "image_check opts mtd (Some n) [Data img] = (Some (image_accepted opts mtd n img), take 4 img, ins0)"
      unfolding image_check_def read prod.case fmt using F False bi(3)
      by (cases "image_format (opt_trxmagic opts) img") (auto simp: image_accepted_def)
    then show ?thesis using bi by auto
  qed
qed

lemma split_names_one: "COLON \<notin> set s \<Longrightarrow> split_names s = [s]"
  by (simp add: split_names.simps)

text \<open>
  \<^verbatim>\<open>mtd write\<close> of a file to a working device: an image that the check refuses changes nothing, and the tool exits with 1.
  An accepted one is written to the good blocks; the tool returns 0 when it fits and exits with 1 otherwise.
\<close>
theorem mtd_main_write:
  assumes f: "flash_dev dv cont bad sz es" "32 \<le> es" and dev: "devs device = Some d" "COLON \<notin> set device" and img: "img \<noteq> []"
    and opts: "\<not> opt_force opts" "\<not> opt_no_erase opts" "opt_part_offset opts = 0"
  shows "if image_accepted opts device sz img then
      \<exists>d'. mtd_main dv opts [] (CMD_WRITE [Data img]) device devs =
          Some (if length (image_chunks es img) \<le> length (good_blocks bad 0 (sz div es)) then Returned 0 else Exited 1,
            [], devs(device \<mapsto> d')) \<and>
        erase_blocks es (cont d') = put_chunks (good_blocks bad 0 (sz div es)) (image_chunks es img) (erase_blocks es (cont d))
    else mtd_main dv opts [] (CMD_WRITE [Data img]) device devs = Some (Exited 1, [], devs)"
proof -
  note fd = flash_devD [OF f(1)]
  note one = split_names_one [OF dev(2)]
  obtain buf ins where c: "image_check opts device (Some sz) [Data img] = (Some (image_accepted opts device sz img), buf, ins)"
    "buf @ input_data ins = img" "input_ok ins" "length buf \<le> 32"
    using image_check_file [OF img] by blast
  let ?d = "dev_unlock dv d 0 sz"
  let ?s = "\<lparr>wr_dev = ?d, wr_next = [], wr_past = [], wr_pos = 0, wr_in = ins, wr_buf = buf, wr_bufsz = es,
          wr_w = 0, wr_e = 0, wr_skip = 0, wr_offset = 0\<rparr>"
  obtain t where t: "mtd_write_loop dv False 0 ?s =
      Some (if length (image_chunks es img) \<le> length (good_blocks bad 0 (sz div es)) then Returned 0 else Exited 1, t)"
    "wr_past t = []" "wr_next t = []"
    "erase_blocks es (cont (wr_dev t)) = put_chunks (good_blocks bad 0 (sz div es)) (image_chunks es img) (erase_blocks es (cont d))"
    using mtd_write_loop_flash [OF f(1), of "[]" ?s ins 0] c(2-4) f(2) fd(8) by (auto simp: stops_def)
  have "mtd_main dv opts [] (CMD_WRITE [Data img]) device devs =
      (if image_accepted opts device sz img
       then Some (if length (image_chunks es img) \<le> length (good_blocks bad 0 (sz div es)) then Returned 0 else Exited 1,
              [], devs(device \<mapsto> wr_dev t))
       else Some (Exited 1, [], devs))"
    using dev(1) opts c(1) t(1-3)
    by (simp add: mtd_main_def mtd_check_def one fd(4,5) mtd_unlock_def mtd_write_names_def mtd_write_def Let_def)
  then show ?thesis using t(4) by auto
qed

section \<open>A small chip\<close>

text \<open>A NAND chip that is a list of bytes, for the examples. It keeps the documented behaviour.\<close>

definition ram_cont :: "nat \<Rightarrow> u8 list \<Rightarrow> u8 list" where
  "ram_cont n d = take n (d @ replicate n 0)"

definition ram_dev :: "nat \<Rightarrow> nat \<Rightarrow> (nat \<Rightarrow> bool) \<Rightarrow> u8 list mtd_dev" where
  "ram_dev n es bad =
     \<lparr>dev_size = (\<lambda>_. n), dev_erasesize = (\<lambda>_. es), dev_nand = (\<lambda>_. True),
      dev_pread = (\<lambda>d off k. (Inr (take k (drop off (ram_cont n d))), d)),
      dev_pwrite = (\<lambda>d off xs.
        (int (length xs), buf_put (ram_cont n d) off (map2 (AND) xs (take (length xs) (drop off (ram_cont n d)))))),
      dev_erase = (\<lambda>d off len.
        if off < n \<and> \<not> bad (off div es) then (True, buf_put (ram_cont n d) off (replicate len 0xff)) else (False, d)),
      dev_unlock = (\<lambda>d _ _. d),
      dev_isbad = (\<lambda>_ off. if n \<le> off then - 1 else if bad (off div es) then 1 else 0)\<rparr>"

lemma ram_cont_length [simp]: "length (ram_cont n d) = n"
  by (simp add: ram_cont_def)

lemma ram_cont_id [simp]: "length d = n \<Longrightarrow> ram_cont n d = d"
  by (simp add: ram_cont_def)

lemma ram_dev_ok:
  assumes "0 < es" "es dvd n" "n < 2 ^ 31"
  shows "flash_dev (ram_dev n es bad) (ram_cont n) bad n es"
proof -
  have len: "length (buf_put (ram_cont n d) off xs) = n" for d off xs by simp
  show ?thesis using assms unfolding flash_dev_def ram_dev_def
    by (simp add: len split del: if_split) simp
qed

abbreviation chip :: "u8 list mtd_dev" where "chip \<equiv> ram_dev 32 8 (\<lambda>k. k = 1)"

text \<open>Four blocks of eight bytes; the second one is bad.\<close>

lemma chip_ok: "flash_dev chip (ram_cont 32) (\<lambda>k. k = 1) 32 8"
  by (rule ram_dev_ok) simp_all

lemma chip_good: "good_blocks (\<lambda>k. k = 1) 0 (32 div 8) = [0, 2, 3]"
  by (simp add: good_blocks_def upt_rec)

abbreviation chip_input :: "input list" where
  "chip_input \<equiv> [Data [1, 2, 3], Again, Data [4, 5, 6, 7, 8, 9, 10]]"

lemma chip_chunks: "image_chunks 8 [1, 2, 3, 4, 5, 6, 7, 8, 9, 10] = [[1, 2, 3, 4, 5, 6, 7, 8], [9, 10, 0xff, 0xff, 0xff, 0xff, 0xff, 0xff]]"
  by (simp add: image_chunks.simps numeral_eq_Suc)

lemma chip_input_facts: "input_ok chip_input" "input_data chip_input = [1, 2, 3, 4, 5, 6, 7, 8, 9, 10]"
  by (simp_all add: input_ok_def input_data_def)

lemma chip_blank: "erase_blocks 8 (ram_cont 32 []) = replicate 4 (replicate 8 0)"
  by code_simp

text \<open>The image goes into the first and the third block; the bad one keeps its content.\<close>

theorem mtd_write_places_image_witness:
  "\<exists>d'. mtd_write chip False 0 8 [0] chip_input [] [] = Some (Returned 0, [d']) \<and>
    erase_blocks 8 (ram_cont 32 d') =
      [[0, 1, 2, 3, 4, 5, 6, 7], replicate 8 0, [8, 9, 10, 0xff, 0xff, 0xff, 0xff, 0xff], replicate 8 0]"
proof -
  have c: "image_chunks 8 [0, 1, 2, 3, 4, 5, 6, 7, 8, 9, 10] = [[0, 1, 2, 3, 4, 5, 6, 7], [8, 9, 10, 0xff, 0xff, 0xff, 0xff, 0xff]]"
    by (simp add: image_chunks.simps numeral_eq_Suc)
  have "\<exists>d'. mtd_write chip False 0 8 [0] chip_input [] [] = Some (Returned 0, [d']) \<and>
    erase_blocks 8 (ram_cont 32 d') = put_chunks (good_blocks (\<lambda>k. k = 1) 0 (32 div 8)) (image_chunks 8 ([0] @ input_data chip_input))
      (erase_blocks 8 (ram_cont 32 []))"
    by (rule mtd_write_places_image [OF chip_ok chip_input_facts(1)]) (simp, unfold chip_input_facts chip_good append.simps c, simp)
  then show ?thesis unfolding chip_input_facts chip_good append.simps c chip_blank
    by (simp add: put_chunks_def numeral_eq_Suc)
qed

text \<open>The same image on a chip with one good block, of two.\<close>

theorem mtd_write_too_large_witness:
  "\<exists>d'. mtd_write (ram_dev 16 8 (\<lambda>k. k = 1)) False 0 8 [] chip_input [] [] = Some (Exited 1, [d']) \<and>
    erase_blocks 8 (ram_cont 16 d') = [[1, 2, 3, 4, 5, 6, 7, 8], replicate 8 0]"
proof -
  let ?bad = "\<lambda>k :: nat. k = 1"
  have f: "flash_dev (ram_dev 16 8 ?bad) (ram_cont 16) ?bad 16 8" by (rule ram_dev_ok) simp_all
  have g: "good_blocks ?bad 0 (16 div 8) = [0]" by (simp add: good_blocks_def upt_rec)
  have e: "erase_blocks 8 (ram_cont 16 []) = replicate 2 (replicate 8 0)" by code_simp
  have "\<exists>d'. mtd_write (ram_dev 16 8 ?bad) False 0 8 [] chip_input [] [] = Some (Exited 1, [d']) \<and>
    erase_blocks 8 (ram_cont 16 d') = put_chunks (good_blocks ?bad 0 (16 div 8)) (image_chunks 8 ([] @ input_data chip_input))
      (erase_blocks 8 (ram_cont 16 []))"
    by (rule mtd_write_too_large [OF f chip_input_facts(1)]) (simp, unfold chip_input_facts append.simps chip_chunks g, simp)
  then show ?thesis unfolding chip_input_facts append.simps chip_chunks g e
    by (simp add: put_chunks_def numeral_eq_Suc)
qed

text \<open>The second half of an image is lost to a read error, and the result is 0.\<close>

theorem mtd_write_read_error_witness:
  "\<exists>d'. mtd_write chip False 0 8 [] ([Data [1, 2, 3, 4, 5, 6, 7, 8]] @ Fail # [Data [9, 10]]) [] [] = Some (Returned 0, [d']) \<and>
    erase_blocks 8 (ram_cont 32 d') = [[1, 2, 3, 4, 5, 6, 7, 8], replicate 8 0, replicate 8 0, replicate 8 0]"
proof -
  have i: "input_ok [Data [1, 2, 3, 4, 5, 6, 7, 8]]" "input_data [Data [1, 2, 3, 4, 5, 6, 7, 8]] = [1, 2, 3, 4, 5, 6, 7, 8]"
    by (simp_all add: input_ok_def input_data_def)
  have c: "image_chunks 8 [1, 2, 3, 4, 5, 6, 7, 8] = [[1, 2, 3, 4, 5, 6, 7, 8]]"
    by (simp add: image_chunks.simps numeral_eq_Suc)
  have l: "length [1, 2, 3, 4, 5, 6, 7, 8 :: u8] = 8" by simp
  have "\<exists>d'. mtd_write chip False 0 8 [] ([Data [1, 2, 3, 4, 5, 6, 7, 8]] @ Fail # [Data [9, 10]]) [] [] = Some (Returned 0, [d']) \<and>
    erase_blocks 8 (ram_cont 32 d') = put_chunks (good_blocks (\<lambda>k. k = 1) 0 (32 div 8))
      (image_chunks 8 (input_data [Data [1, 2, 3, 4, 5, 6, 7, 8]])) (erase_blocks 8 (ram_cont 32 []))"
    by (rule mtd_write_read_error [OF chip_ok i(1)]) (unfold i(2) chip_good c l, simp_all)
  then show ?thesis unfolding i(2) chip_good c chip_blank by (simp add: put_chunks_def numeral_eq_Suc)
qed

theorem mtd_erase_clears_witness:
  "\<exists>d'. mtd_erase chip [] = Some (Returned 0, d') \<and>
    erase_blocks 8 (ram_cont 32 d') = [replicate 8 0xff, replicate 8 0, replicate 8 0xff, replicate 8 0xff]"
  using mtd_erase_clears [OF chip_ok, of "[]"] unfolding chip_blank by (simp add: numeral_eq_Suc)

text \<open>The dump of sixteen bytes leaves the bad block out.\<close>

theorem mtd_dump_reads_good_blocks_witness:
  "\<exists>d'. mtd_dump chip (replicate 8 1 @ replicate 8 2 @ replicate 16 3) 0 (2 * 8) =
      Some (Returned 0, replicate 8 1 @ replicate 8 3, d') \<and>
    ram_cont 32 d' = replicate 8 1 @ replicate 8 2 @ replicate 16 3"
proof -
  let ?d = "replicate 8 1 @ replicate 8 2 @ replicate 16 3 :: u8 list"
  have e: "erase_blocks 8 (ram_cont 32 ?d) = [replicate 8 1, replicate 8 2, replicate 8 3, replicate 8 3]" by code_simp
  have "concat (take 2 (map (\<lambda>j. [replicate 8 1, replicate 8 2, replicate 8 3, replicate 8 3] ! j) [0, 2, 3])) =
      replicate 8 1 @ (replicate 8 3 :: u8 list)" by code_simp
  moreover have "ram_cont 32 ?d = ?d" by simp
  ultimately show ?thesis using mtd_dump_reads_good_blocks [OF chip_ok, of 2 ?d] unfolding e chip_good by simp
qed

theorem mtd_write_dump_witness:
  "\<exists>d' out d''. mtd_write chip False 0 8 [] chip_input [] [] = Some (Returned 0, [d']) \<and>
    mtd_dump chip d' 0 (2 * 8) = Some (Returned 0, out, d'') \<and> take 10 out = [1, 2, 3, 4, 5, 6, 7, 8, 9, 10]"
proof -
  have l: "length (image_chunks 8 [1, 2, 3, 4, 5, 6, 7, 8, 9, 10]) = 2" unfolding chip_chunks by simp
  have m: "length [1, 2, 3, 4, 5, 6, 7, 8, 9, 10 :: u8] = 10" by simp
  have "\<exists>d' out d''. mtd_write chip False 0 8 [] chip_input [] [] = Some (Returned 0, [d']) \<and>
    mtd_dump chip d' 0 (length (image_chunks 8 (input_data chip_input)) * 8) = Some (Returned 0, out, d'') \<and>
    take (length (input_data chip_input)) out = input_data chip_input"
    by (rule mtd_write_dump [OF chip_ok chip_input_facts(1)]) (unfold chip_input_facts chip_good l, simp_all)
  then show ?thesis unfolding chip_input_facts l m .
qed

text \<open>A TRX image of forty bytes for the partition \<^verbatim>\<open>firmware\<close>, which has four blocks, one of them bad.\<close>

abbreviation chip_image :: "u8 list" where
  "chip_image \<equiv> [0x48, 0x44, 0x52, 0x30, 40, 0, 0, 0] @ replicate 20 0 @ replicate 12 7"

abbreviation chip_opts :: mtd_opts where
  "chip_opts \<equiv> \<lparr>opt_trxmagic = TRX_MAGIC, opt_brcm = True, opt_has_trx = True, opt_force = False, opt_no_erase = False,
     opt_part_offset = 0, opt_offset = 0, opt_dump_len = 0\<rparr>"

theorem mtd_main_write_witness:
  "\<exists>d'. mtd_main (ram_dev 128 32 (\<lambda>k. k = 1)) chip_opts [] (CMD_WRITE [Data chip_image]) FIRMWARE [FIRMWARE \<mapsto> []] =
      Some (Returned 0, [], [FIRMWARE \<mapsto> d']) \<and>
    erase_blocks 32 (ram_cont 128 d') =
      [[0x48, 0x44, 0x52, 0x30, 40, 0, 0, 0] @ replicate 20 0 @ replicate 4 7, replicate 32 0, replicate 8 7 @ replicate 24 0xff, replicate 32 0]"
proof -
  let ?bad = "\<lambda>k :: nat. k = 1"
  let ?dv = "ram_dev 128 32 ?bad"
  have f: "flash_dev ?dv (ram_cont 128) ?bad 128 32" by (rule ram_dev_ok) simp_all
  have g: "good_blocks ?bad 0 (128 div 32) = [0, 2, 3]" by (simp add: good_blocks_def upt_rec)
  have a: "image_accepted chip_opts FIRMWARE 128 chip_image" by code_simp
  have c: "image_chunks 32 chip_image =
      [[0x48, 0x44, 0x52, 0x30, 40, 0, 0, 0] @ replicate 20 0 @ replicate 4 7, replicate 8 7 @ replicate 24 0xff]" by code_simp
  have e: "erase_blocks 32 (ram_cont 128 []) = replicate 4 (replicate 32 0)" by code_simp
  have "if image_accepted chip_opts FIRMWARE 128 chip_image then
      \<exists>d'. mtd_main ?dv chip_opts [] (CMD_WRITE [Data chip_image]) FIRMWARE [FIRMWARE \<mapsto> []] =
          Some (if length (image_chunks 32 chip_image) \<le> length (good_blocks ?bad 0 (128 div 32)) then Returned 0 else Exited 1,
            [], [FIRMWARE \<mapsto> [], FIRMWARE \<mapsto> d']) \<and>
        erase_blocks 32 (ram_cont 128 d') = put_chunks (good_blocks ?bad 0 (128 div 32)) (image_chunks 32 chip_image) (erase_blocks 32 (ram_cont 128 []))
    else mtd_main ?dv chip_opts [] (CMD_WRITE [Data chip_image]) FIRMWARE [FIRMWARE \<mapsto> []] = Some (Exited 1, [], [FIRMWARE \<mapsto> []])"
    by (rule mtd_main_write [OF f]) simp_all
  then show ?thesis unfolding c g e by (simp only: a if_True) (simp add: put_chunks_def numeral_eq_Suc)
qed

end
