(* ===== verification/Md5.thy ===== *)
theory Md5
  imports Le_Bytes
begin

text \<open>
  The MD5 digest of the \<^verbatim>\<open>mtd\<close> tool, \<^verbatim>\<open>src/package/system/mtd/src/md5.c\<close>: a context that takes a message in
  pieces of any length. The reference is the definition of RFC 1321 on a whole message; the theorem of this
  theory says that the pieces do not matter.
\<close>

unbundle bit_operations_syntax

section \<open>The basic step\<close>

text \<open>The functions \<open>F\<close> to \<open>I\<close> and the rotation of the code.\<close>

definition md5_F :: "u32 \<Rightarrow> u32 \<Rightarrow> u32 \<Rightarrow> u32" where "md5_F x y z = (x AND y) OR (NOT x AND z)"
definition md5_G :: "u32 \<Rightarrow> u32 \<Rightarrow> u32 \<Rightarrow> u32" where "md5_G x y z = (x AND z) OR (y AND NOT z)"
definition md5_H :: "u32 \<Rightarrow> u32 \<Rightarrow> u32 \<Rightarrow> u32" where "md5_H x y z = x XOR y XOR z"
definition md5_I :: "u32 \<Rightarrow> u32 \<Rightarrow> u32 \<Rightarrow> u32" where "md5_I x y z = y XOR (x OR NOT z)"

definition ROTATE_LEFT :: "u32 \<Rightarrow> nat \<Rightarrow> u32" where
  "ROTATE_LEFT x n = push_bit n x OR drop_bit (32 - n) x"

type_synonym md5_regs = "u32 \<times> u32 \<times> u32 \<times> u32"

text \<open>
  The macros \<open>FF\<close>, \<open>GG\<close>, \<open>HH\<close> and \<open>II\<close>. They change their first argument, and the next call has the arguments
  rotated by one place: \<open>FF (a, b, c, d, ...)\<close>, \<open>FF (d, a, b, c, ...)\<close>. The step gives the registers in the order
  of the next call.
\<close>

definition md5_step ::
  "(u32 \<Rightarrow> u32 \<Rightarrow> u32 \<Rightarrow> u32) \<Rightarrow> u32 list \<Rightarrow> md5_regs \<Rightarrow> nat \<times> nat \<times> u32 \<Rightarrow> md5_regs" where
  "md5_step f inp r p =
     (case (r, p) of
        ((a, b, c, d), (k, s, ac)) \<Rightarrow>
          let a = a + (f b c d + inp ! k + ac);
              a = ROTATE_LEFT a s;
              a = a + b
          in (d, a, b, c))"

text \<open>The calls of the four rounds: the index of the word, the shift and the constant.\<close>

definition md5_round1 :: "(nat \<times> nat \<times> u32) list" where
  "md5_round1 =
     [(0, 7, 3614090360), (1, 12, 3905402710), (2, 17, 606105819), (3, 22, 3250441966),
      (4, 7, 4118548399), (5, 12, 1200080426), (6, 17, 2821735955), (7, 22, 4249261313),
      (8, 7, 1770035416), (9, 12, 2336552879), (10, 17, 4294925233), (11, 22, 2304563134),
      (12, 7, 1804603682), (13, 12, 4254626195), (14, 17, 2792965006), (15, 22, 1236535329)]"

definition md5_round2 :: "(nat \<times> nat \<times> u32) list" where
  "md5_round2 =
     [(1, 5, 4129170786), (6, 9, 3225465664), (11, 14, 643717713), (0, 20, 3921069994),
      (5, 5, 3593408605), (10, 9, 38016083), (15, 14, 3634488961), (4, 20, 3889429448),
      (9, 5, 568446438), (14, 9, 3275163606), (3, 14, 4107603335), (8, 20, 1163531501),
      (13, 5, 2850285829), (2, 9, 4243563512), (7, 14, 1735328473), (12, 20, 2368359562)]"

definition md5_round3 :: "(nat \<times> nat \<times> u32) list" where
  "md5_round3 =
     [(5, 4, 4294588738), (8, 11, 2272392833), (11, 16, 1839030562), (14, 23, 4259657740),
      (1, 4, 2763975236), (4, 11, 1272893353), (7, 16, 4139469664), (10, 23, 3200236656),
      (13, 4, 681279174), (0, 11, 3936430074), (3, 16, 3572445317), (6, 23, 76029189),
      (9, 4, 3654602809), (12, 11, 3873151461), (15, 16, 530742520), (2, 23, 3299628645)]"

definition md5_round4 :: "(nat \<times> nat \<times> u32) list" where
  "md5_round4 =
     [(0, 6, 4096336452), (7, 10, 1126891415), (14, 15, 2878612391), (5, 21, 4237533241),
      (12, 6, 1700485571), (3, 10, 2399980690), (10, 15, 4293915773), (1, 21, 2240044497),
      (8, 6, 1873313359), (15, 10, 4264355552), (6, 15, 2734768916), (13, 21, 1309151649),
      (4, 6, 4149444226), (11, 10, 3174756917), (2, 15, 718787259), (9, 21, 3951481745)]"

definition Transform :: "md5_regs \<Rightarrow> u32 list \<Rightarrow> md5_regs" where
  "Transform buf inp =
     (case foldl (md5_step md5_I inp)
            (foldl (md5_step md5_H inp)
              (foldl (md5_step md5_G inp)
                (foldl (md5_step md5_F inp) buf md5_round1) md5_round2) md5_round3) md5_round4 of
        (a, b, c, d) \<Rightarrow> case buf of (b0, b1, b2, b3) \<Rightarrow> (b0 + a, b1 + b, b2 + c, b3 + d))"

section \<open>The context\<close>

text \<open>
  \<open>md5_i0\<close> and \<open>md5_i1\<close> are the number of bits handled so far; \<open>md5_in\<close> is the input buffer of 64 bytes. The
  field for the digest is not used by callers.
\<close>

record md5_ctx =
  md5_i0 :: u32
  md5_i1 :: u32
  md5_buf :: md5_regs
  md5_in :: "u8 list"

text \<open>The buffer of a new context has no defined content: it is an argument.\<close>

definition MD5_Init :: "u8 list \<Rightarrow> md5_ctx" where
  "MD5_Init junk =
     \<lparr>md5_i0 = 0, md5_i1 = 0, md5_buf = (0x67452301, 0xefcdab89, 0x98badcfe, 0x10325476), md5_in = junk\<rparr>"

definition md5_words :: "nat \<Rightarrow> u8 list \<Rightarrow> u32 list" where
  "md5_words n inp = map (\<lambda>k. rd32 inp (4 * k)) [0..<n]"

text \<open>The loop of \<open>MD5_Update\<close>, with the registers, the input buffer and \<open>mdi\<close>.\<close>

primrec md5_add :: "u8 list \<Rightarrow> md5_regs \<times> u8 list \<times> nat \<Rightarrow> md5_regs \<times> u8 list \<times> nat" where
  "md5_add [] s = s"
| "md5_add (x # xs) s =
     (case s of
        (buf, inp, mdi) \<Rightarrow>
          let inp' = inp[mdi := x]; mdi' = mdi + 1
          in md5_add xs (if mdi' = 0x40 then (Transform buf (md5_words 16 inp'), inp', 0) else (buf, inp', mdi')))"

definition md5_mdi :: "md5_ctx \<Rightarrow> nat" where
  "md5_mdi c = unat (drop_bit 3 (md5_i0 c) AND 0x3F)"

definition MD5_Update :: "md5_ctx \<Rightarrow> u8 list \<Rightarrow> md5_ctx" where
  "MD5_Update c xs =
     (let len = of_nat (length xs) :: u32;
          i1 = (if md5_i0 c + push_bit 3 len < md5_i0 c then md5_i1 c + 1 else md5_i1 c);
          i0 = md5_i0 c + push_bit 3 len;
          i1 = i1 + drop_bit 29 len
      in case md5_add xs (md5_buf c, md5_in c, md5_mdi c) of
           (buf, inp, _) \<Rightarrow> \<lparr>md5_i0 = i0, md5_i1 = i1, md5_buf = buf, md5_in = inp\<rparr>)"

definition PADDING :: "u8 list" where
  "PADDING = 0x80 # replicate 63 0"

definition md5_digest :: "md5_regs \<Rightarrow> u8 list" where
  "md5_digest r = (case r of (a, b, c, d) \<Rightarrow> le_bytes 4 a @ le_bytes 4 b @ le_bytes 4 c @ le_bytes 4 d)"

definition MD5_Final :: "md5_ctx \<Rightarrow> u8 list" where
  "MD5_Final c =
     (let mdi = md5_mdi c;
          padLen = (if mdi < 56 then 56 - mdi else 120 - mdi);
          c' = MD5_Update c (take padLen PADDING)
      in md5_digest (Transform (md5_buf c') (md5_words 14 (md5_in c') @ [md5_i0 c, md5_i1 c])))"

section \<open>The reference\<close>

text \<open>
  RFC 1321: the message is padded with a one bit and zeros to a length of 56 modulo 64 bytes, its length in
  bits is appended as a number of 64 bits, and the blocks of 64 bytes are processed in order.
\<close>

function md5_blocks :: "md5_regs \<Rightarrow> u8 list \<Rightarrow> md5_regs \<times> u8 list" where
  "md5_blocks buf xs =
     (if length xs < 64 then (buf, xs) else md5_blocks (Transform buf (md5_words 16 (take 64 xs))) (drop 64 xs))"
  by pat_completeness auto

termination by (relation "measure (\<lambda>(_, xs). length xs)") auto

declare md5_blocks.simps [simp del]

definition md5_pad :: "u8 list \<Rightarrow> u8 list" where
  "md5_pad M = M @ 0x80 # replicate ((119 - length M mod 64) mod 64) 0 @ le_bytes 8 (of_nat (8 * length M) :: u64)"

definition md5 :: "u8 list \<Rightarrow> u8 list" where
  "md5 M = md5_digest (fst (md5_blocks (0x67452301, 0xefcdab89, 0x98badcfe, 0x10325476) (md5_pad M)))"

section \<open>Pieces\<close>

lemma md5_blocks_short: "length xs < 64 \<Longrightarrow> md5_blocks buf xs = (buf, xs)"
  by (simp add: md5_blocks.simps)

lemma md5_blocks_long:
  "\<not> length xs < 64 \<Longrightarrow> md5_blocks buf xs = md5_blocks (Transform buf (md5_words 16 (take 64 xs))) (drop 64 xs)"
  by (subst md5_blocks.simps) simp

lemma md5_blocks_block:
  "length xs = 64 \<Longrightarrow> md5_blocks buf (xs @ ys) = md5_blocks (Transform buf (md5_words 16 xs)) ys"
  by (simp add: md5_blocks_long)

lemma md5_blocks_append:
  "md5_blocks buf (xs @ ys) = (case md5_blocks buf xs of (buf', rest) \<Rightarrow> md5_blocks buf' (rest @ ys))"
proof (induction buf xs rule: md5_blocks.induct)
  case (1 buf xs)
  show ?case
  proof (cases "length xs < 64")
    case True
    then show ?thesis by (simp add: md5_blocks_short)
  next
    case False
    then have "md5_blocks buf (xs @ ys) = md5_blocks (Transform buf (md5_words 16 (take 64 xs))) (drop 64 xs @ ys)"
      by (simp add: md5_blocks_long)
    also have "\<dots> = (case md5_blocks buf xs of (buf', rest) \<Rightarrow> md5_blocks buf' (rest @ ys))"
      using "1.IH" [OF False] False by (simp add: md5_blocks_long [of xs])
    finally show ?thesis .
  qed
qed

text \<open>The loop over the bytes: full blocks are transformed, the rest stays in the buffer.\<close>

lemma md5_add_blocks:
  assumes "length inp = 64" "mdi < 64" "md5_add xs (buf, inp, mdi) = (buf', inp', mdi')"
  shows "md5_blocks buf (take mdi inp @ xs) = (buf', take mdi' inp') \<and> length inp' = 64 \<and> mdi' < 64 \<and>
    mdi' = (mdi + length xs) mod 64"
  using assms
proof (induction xs arbitrary: buf inp mdi)
  case Nil
  then show ?case by (auto simp: md5_blocks_short)
next
  case (Cons x xs)
  have len: "length (inp[mdi := x]) = 64" using Cons.prems by simp
  have take: "take (mdi + 1) (inp[mdi := x]) = take mdi inp @ [x]"
    using Cons.prems(1,2) by (simp add: take_Suc_conv_app_nth)
  show ?case
  proof (cases "mdi + 1 = 64")
    case True
    then have all: "inp[mdi := x] = take mdi inp @ [x]" using take len by simp
    have "md5_add xs (Transform buf (md5_words 16 (inp[mdi := x])), inp[mdi := x], 0) = (buf', inp', mdi')"
      using Cons.prems(3) True by (simp add: Let_def)
    from Cons.IH [OF len _ this]
    have IH: "md5_blocks (Transform buf (md5_words 16 (inp[mdi := x]))) xs = (buf', take mdi' inp')"
      "length inp' = 64" "mdi' < 64" "mdi' = length xs mod 64" by simp_all
    have "md5_blocks buf (take mdi inp @ x # xs) = md5_blocks buf (inp[mdi := x] @ xs)" by (simp add: all)
    then show ?thesis using IH md5_blocks_block [OF len] True
      by (metis add.assoc length_Cons mod_add_self1 plus_1_eq_Suc)
  next
    case False
    then have lt: "mdi + 1 < 64" using Cons.prems(2) by simp
    have "md5_add xs (buf, inp[mdi := x], mdi + 1) = (buf', inp', mdi')"
      using Cons.prems(3) False by (simp add: Let_def)
    from Cons.IH [OF len lt this]
    show ?thesis unfolding take by (simp add: add.assoc)
  qed
qed

text \<open>The context after a message: its full blocks are done, the rest is in the buffer, and its bits are counted.\<close>

definition md5_ctx_ok :: "md5_ctx \<Rightarrow> u8 list \<Rightarrow> bool" where
  "md5_ctx_ok c M \<longleftrightarrow>
     length (md5_in c) = 64 \<and>
     md5_blocks (0x67452301, 0xefcdab89, 0x98badcfe, 0x10325476) M = (md5_buf c, take (length M mod 64) (md5_in c)) \<and>
     md5_i0 c = of_nat (8 * length M) \<and> md5_i1 c = of_nat (8 * length M div 2 ^ 32)"

lemma md5_ctx_ok_init: "length junk = 64 \<Longrightarrow> md5_ctx_ok (MD5_Init junk) []"
  by (simp add: md5_ctx_ok_def MD5_Init_def md5_blocks_short)

lemma unat_of_nat_mod: "unat (of_nat n :: u32) = n mod 2 ^ 32"
  by (simp add: unsigned_of_nat take_bit_eq_mod)

lemma md5_mdi_ok: "md5_i0 c = of_nat (8 * n) \<Longrightarrow> md5_mdi c = n mod 64"
proof -
  assume c: "md5_i0 c = of_nat (8 * n)"
  have "md5_mdi c = unat (take_bit 6 (drop_bit 3 (md5_i0 c)))"
    by (simp add: md5_mdi_def take_bit_eq_mask mask_eq_exp_minus_1)
  also have "\<dots> = (8 * n mod 2 ^ 32) div 8 mod 64"
    unfolding unat_take_bit unat_drop_bit c unat_of_nat_mod by simp
  also have "8 * n mod 2 ^ 32 = 8 * (n mod 2 ^ 29)" by (simp add: mult_mod_right)
  also have "8 * (n mod 2 ^ 29) div 8 mod 64 = n mod 64" by (simp add: mod_mod_cancel)
  finally show ?thesis .
qed

text \<open>The count of the bits in two words.\<close>

lemma md5_count:
  fixes x :: nat
  assumes n: "n < 2 ^ 32" and i0: "i0 = (of_nat x :: u32)" and i1: "i1 = (of_nat (x div 2 ^ 32) :: u32)"
  shows "i0 + push_bit 3 (of_nat n) = of_nat (x + 8 * n)"
    "(if i0 + push_bit 3 (of_nat n) < i0 then i1 + 1 else i1) + drop_bit 29 (of_nat n) = of_nat ((x + 8 * n) div 2 ^ 32)"
proof -
  show sum: "i0 + push_bit 3 (of_nat n) = of_nat (x + 8 * n)" by (simp add: i0 push_bit_eq_mult)
  define r s where "r = x mod 2 ^ 32" and "s = 8 * n mod 2 ^ 32"
  have "unat (i0 + push_bit 3 (of_nat n)) = (r + s) mod 2 ^ 32"
    unfolding sum unat_of_nat_mod r_def s_def by (simp only: mod_add_eq)
  moreover have "unat i0 = r" unfolding i0 unat_of_nat_mod r_def ..
  moreover have "r < 2 ^ 32" "s < 2 ^ 32" by (simp_all add: r_def s_def)
  ultimately have carry: "i0 + push_bit 3 (of_nat n) < i0 \<longleftrightarrow> 2 ^ 32 \<le> r + s"
    unfolding word_less_nat_alt by (cases "r + s < 2 ^ 32") (simp_all add: le_mod_geq)
  have "drop_bit 29 (of_nat n :: u32) = of_nat (n div 2 ^ 29)"
    using n by (simp add: word_unat_eq_iff unat_drop_bit unat_of_nat_mod)
  also have "n div 2 ^ 29 = 8 * n div 2 ^ 32" by simp
  finally have drop: "drop_bit 29 (of_nat n :: u32) = of_nat (8 * n div 2 ^ 32)" .
  have "(x + 8 * n) div 2 ^ 32 = x div 2 ^ 32 + 8 * n div 2 ^ 32 + (r + s) div 2 ^ 32"
    unfolding r_def s_def by (rule div_add1_eq)
  also have "(r + s) div 2 ^ 32 = (if 2 ^ 32 \<le> r + s then 1 else 0)"
    using \<open>r < 2 ^ 32\<close> \<open>s < 2 ^ 32\<close> by (auto simp: div_nat_eqI)
  finally show "(if i0 + push_bit 3 (of_nat n) < i0 then i1 + 1 else i1) + drop_bit 29 (of_nat n) = of_nat ((x + 8 * n) div 2 ^ 32)"
    unfolding carry i1 drop by (simp del: div_mult_self1 add: ac_simps)
qed

lemma md5_ctx_ok_update:
  assumes "md5_ctx_ok c M" "length xs < 2 ^ 32"
  shows "md5_ctx_ok (MD5_Update c xs) (M @ xs)"
proof -
  have len: "length (md5_in c) = 64"
    and blocks: "md5_blocks (0x67452301, 0xefcdab89, 0x98badcfe, 0x10325476) M = (md5_buf c, take (length M mod 64) (md5_in c))"
    and bits: "md5_i0 c = of_nat (8 * length M)" "md5_i1 c = of_nat (8 * length M div 2 ^ 32)"
    using assms(1) unfolding md5_ctx_ok_def by blast+
  have mdi: "md5_mdi c = length M mod 64" by (rule md5_mdi_ok [OF bits(1)])
  obtain buf' inp' mdi' where add: "md5_add xs (md5_buf c, md5_in c, length M mod 64) = (buf', inp', mdi')"
    by (cases "md5_add xs (md5_buf c, md5_in c, length M mod 64)") auto
  have r: "md5_blocks (md5_buf c) (take (length M mod 64) (md5_in c) @ xs) = (buf', take mdi' inp')" "length inp' = 64"
    "mdi' = length (M @ xs) mod 64"
    using md5_add_blocks [OF len _ add] by (simp_all add: mod_add_left_eq)
  note count = md5_count [OF assms(2) bits]
  have "MD5_Update c xs = \<lparr>md5_i0 = of_nat (8 * length M + 8 * length xs),
      md5_i1 = of_nat ((8 * length M + 8 * length xs) div 2 ^ 32), md5_buf = buf', md5_in = inp'\<rparr>"
    unfolding MD5_Update_def Let_def mdi add prod.case count(2) unfolding count(1) by (rule refl)
  moreover have "md5_blocks (0x67452301, 0xefcdab89, 0x98badcfe, 0x10325476) (M @ xs) = (buf', take mdi' inp')"
    by (subst md5_blocks_append) (simp only: blocks prod.case r(1))
  moreover have "8 * length (M @ xs) = 8 * length M + 8 * length xs" by simp
  ultimately show ?thesis using r(2,3) unfolding md5_ctx_ok_def by simp
qed

lemma md5_pad_len:
  assumes "(m :: nat) < 64"
  shows "(if m < 56 then 56 - m else 120 - m) = (119 - m) mod 64 + 1" "(m + ((119 - m) mod 64 + 1)) mod 64 = 56"
proof -
  have "(119 - m) mod 64 = (if m < 56 then 55 - m else 119 - m)"
  proof (cases "m < 56")
    case True
    then have "119 - m = (55 - m) + 64" by simp
    then show ?thesis using True by (simp only: mod_add_self2) simp
  next
    case False
    then show ?thesis by simp
  qed
  then show "(if m < 56 then 56 - m else 120 - m) = (119 - m) mod 64 + 1"
    using assms by simp arith
  then have "m + ((119 - m) mod 64 + 1) = (if m < 56 then 56 else 120)" using assms by auto
  then show "(m + ((119 - m) mod 64 + 1)) mod 64 = 56" by simp
qed

lemma le_bytes_u64: "le_bytes 8 (of_nat n :: u64) = le_bytes 4 (of_nat n :: u32) @ le_bytes 4 (of_nat (n div 2 ^ 32) :: u32)"
proof (rule nth_equalityI)
  fix i assume "i < length (le_bytes 8 (of_nat n :: u64))"
  then have i: "i < 8" by simp
  have d: "bit (n div 4294967296) (8 * (i - 4) + j) = bit n (8 * i + j)" if "\<not> i < 4" for j
  proof -
    have "bit (n div 4294967296) (8 * (i - 4) + j) = bit n (32 + (8 * (i - 4) + j))"
      using bit_drop_bit_eq [of 32 n] by (simp add: drop_bit_eq_div)
    also have "32 + (8 * (i - 4) + j) = 8 * i + j" using that by simp
    finally show ?thesis .
  qed
  show "le_bytes 8 (of_nat n :: u64) ! i = (le_bytes 4 (of_nat n :: u32) @ le_bytes 4 (of_nat (n div 2 ^ 32) :: u32)) ! i"
    using i by (intro bit_word_eqI) (auto simp: nth_append le_bytes_nth bit_simps bit_unsigned_iff bit_drop_bit_eq d)
qed simp

lemma md5_words_last:
  assumes "length inp = 64"
  shows "md5_words 16 (take 56 inp @ le_bytes 4 v @ le_bytes 4 w) = md5_words 14 inp @ [v, w]"
proof -
  have "rd32 (take 56 inp @ xs) (4 * k) = rd32 inp (4 * k)" if "k < 14" for k xs
  proof -
    have "rd_bytes (take 56 inp @ xs) (4 * k) 4 = rd_bytes inp (4 * k) 4"
      using that assms by (auto simp: rd_bytes_def nth_append)
    then show ?thesis by (simp add: rd32_def)
  qed
  then have "map (\<lambda>k. rd32 (take 56 inp @ le_bytes 4 v @ le_bytes 4 w) (4 * k)) [0..<14] = map (\<lambda>k. rd32 inp (4 * k)) [0..<14]"
    by simp
  moreover have "rd32 (take 56 inp @ le_bytes 4 v @ le_bytes 4 w) 56 = v"
    using rd32_at [of "take 56 inp" v "le_bytes 4 w"] assms by simp
  moreover have "rd32 (take 56 inp @ le_bytes 4 v @ le_bytes 4 w) 60 = w"
    using rd32_at [of "take 56 inp @ le_bytes 4 v" w "[]"] assms by simp
  moreover have "[0..<16 :: nat] = [0..<14] @ [14, 15]" by (simp add: upt_rec)
  ultimately show ?thesis by (simp add: md5_words_def del: upt.simps)
qed

lemma MD5_pieces:
  assumes "length junk = 64" "list_all (\<lambda>xs. length xs < 2 ^ 32) chunks"
  shows "MD5_Final (foldl MD5_Update (MD5_Init junk) chunks) = md5 (concat chunks)"
proof -
  have upd: "md5_ctx_ok c M \<Longrightarrow> list_all (\<lambda>xs. length xs < 2 ^ 32) chunks \<Longrightarrow>
      md5_ctx_ok (foldl MD5_Update c chunks) (M @ concat chunks)" for c M chunks
    using md5_ctx_ok_update by (induction chunks arbitrary: c M) (simp_all flip: append_assoc)
  let ?c = "foldl MD5_Update (MD5_Init junk) chunks" and ?M = "concat chunks"
  let ?m = "length ?M mod 64" and ?init = "(0x67452301, 0xefcdab89, 0x98badcfe, 0x10325476) :: md5_regs"
  have ok: "md5_ctx_ok ?c ?M" using upd [OF md5_ctx_ok_init [OF assms(1)] assms(2)] by simp
  then have bits: "md5_i0 ?c = of_nat (8 * length ?M)" "md5_i1 ?c = of_nat (8 * length ?M div 2 ^ 32)"
    unfolding md5_ctx_ok_def by blast+
  define z where "z = (119 - ?m) mod 64"
  have mdi: "md5_mdi ?c = ?m" by (rule md5_mdi_ok [OF bits(1)])
  have "?m < 64" by simp
  note z = md5_pad_len [OF this, folded z_def]
  have "z < 64" by (simp add: z_def)
  then have pad: "take (z + 1) PADDING = 0x80 # replicate z 0" by (simp add: PADDING_def)
  let ?P = "?M @ 0x80 # replicate z 0" and ?c' = "MD5_Update ?c (0x80 # replicate z 0)"
  have "length (0x80 # replicate z 0 :: u8 list) < 2 ^ 32" using \<open>z < 64\<close> by simp
  then have ok': "md5_ctx_ok ?c' ?P" by (rule md5_ctx_ok_update [OF ok])
  have "length ?P = length ?M + (z + 1)" by simp
  then have "length ?P mod 64 = (?m + (z + 1)) mod 64" by (simp only: mod_add_left_eq)
  then have "length ?P mod 64 = 56" using z(2) by simp
  then have blocks: "md5_blocks ?init ?P = (md5_buf ?c', take 56 (md5_in ?c'))" and len: "length (md5_in ?c') = 64"
    using ok' unfolding md5_ctx_ok_def by simp_all
  have pad': "md5_pad ?M = ?P @ le_bytes 8 (of_nat (8 * length ?M) :: u64)" by (simp add: md5_pad_def z_def)
  have "length (take 56 (md5_in ?c') @ le_bytes 8 (of_nat (8 * length ?M) :: u64)) = 64" using len by simp
  from md5_blocks_block [OF this, of "md5_buf ?c'" "[]"]
  have "md5_blocks ?init (md5_pad ?M) =
      (Transform (md5_buf ?c') (md5_words 16 (take 56 (md5_in ?c') @ le_bytes 8 (of_nat (8 * length ?M) :: u64))), [])"
    unfolding pad' by (subst md5_blocks_append) (simp add: blocks md5_blocks_short)
  then have "fst (md5_blocks ?init (md5_pad ?M)) = Transform (md5_buf ?c') (md5_words 14 (md5_in ?c') @ [md5_i0 ?c, md5_i1 ?c])"
    unfolding le_bytes_u64 bits [symmetric] md5_words_last [OF len] by simp
  then show ?thesis
    unfolding MD5_Final_def md5_def Let_def mdi z(1) pad by simp
qed


text \<open>The digest of \<^verbatim>\<open>abc\<close>, the third test of RFC 1321.\<close>

lemma md5_abc:
  "md5 (cstr ''abc'') =
     [0x90, 0x01, 0x50, 0x98, 0x3c, 0xd2, 0x4f, 0xb0, 0xd6, 0x96, 0x3f, 0x7d, 0x28, 0xe1, 0x7f, 0x72]"
  by code_simp


text \<open>
  The comments of \<^verbatim>\<open>md5.h\<close> on the order of the words: in the rounds two, three and four the index goes up by five,
  three and seven, modulo 16.
\<close>

lemma md5_access_pattern:
  "map fst md5_round1 = map (\<lambda>k. k) [0..<16]" "map fst md5_round2 = map (\<lambda>k. (1 + 5 * k) mod 16) [0..<16]"
  "map fst md5_round3 = map (\<lambda>k. (5 + 3 * k) mod 16) [0..<16]" "map fst md5_round4 = map (\<lambda>k. 7 * k mod 16) [0..<16]"
  by code_simp+

end
