(* ===== verification/Mtd_Fix.thy ===== *)
theory Mtd_Fix
  imports Mtd_Tool Md5
begin

text \<open>
  The commands of the \<^verbatim>\<open>mtd\<close> tool that repair the header of an image on the flash after its data have changed:
  \<open>mtd_fixtrx\<close> of \<^verbatim>\<open>trx.c\<close>, with a CRC-32 over the good blocks, and \<open>mtd_fixseama\<close>, \<open>mtd_fixwrg\<close> and \<open>mtd_fixwrgg\<close> of
  \<^verbatim>\<open>seama.c\<close>, \<^verbatim>\<open>wrg.c\<close> and \<^verbatim>\<open>wrgg.c\<close> in \<^verbatim>\<open>src/package/system/mtd/src/\<close>, with an MD5 digest. The last three are copies of
  one routine for different headers; here they are one definition over a description of the header.

  A \<open>size_t\<close> has 32 bits, the processor is little-endian, and allocations succeed; a \<open>pread\<close> that fails gives a
  result that is different from every length. An access behind the block that was read is the result \<open>Overrun\<close>.
\<close>

unbundle bit_operations_syntax

section \<open>Reading and rewriting\<close>

text \<open>A \<open>pread\<close> whose result is compared with the length asked for.\<close>

definition pread_all :: "'d mtd_dev \<Rightarrow> 'd \<Rightarrow> nat \<Rightarrow> nat \<Rightarrow> u8 list option \<times> 'd" where
  "pread_all dv d off n =
     (case dev_pread dv d off n of
        (Inl err, d) \<Rightarrow> (None, d)
      | (Inr xs, d) \<Rightarrow> (if length xs = n then Some xs else None, d))"

text \<open>The end of all four routines: the first block is erased and written.\<close>

definition fix_rewrite :: "'d mtd_dev \<Rightarrow> 'd \<Rightarrow> nat \<Rightarrow> u8 list \<Rightarrow> mtd_end \<times> 'd" where
  "fix_rewrite dv d block_offset first_block =
     (case mtd_erase_block dv d block_offset of
        (r, d) \<Rightarrow>
          if r \<noteq> 0 then (Exited 1, d)
          else
            case dev_pwrite dv d block_offset first_block of
              (n, d) \<Rightarrow> if n \<noteq> int (length first_block) then (Exited 1, d) else (Returned 0, d))"

section \<open>TRX\<close>

text \<open>The loop of \<open>mtd_fixtrx\<close> over the blocks; \<open>out\<close> is what was read so far. \<open>None\<close> in the result is \<open>exit(1)\<close>.\<close>

partial_function (option) fixtrx_read ::
  "'d mtd_dev \<Rightarrow> u32 \<Rightarrow> 'd \<Rightarrow> u32 \<Rightarrow> u32 \<Rightarrow> u8 list \<Rightarrow> (u8 list option \<times> 'd) option" where
  "fixtrx_read dv erasesize d data_offset data_size out =
     (if data_size = 0 then Some (Some out, d)
      else
        let read_block_offset = data_offset AND NOT (erasesize - 1);
            read_chunk = min (erasesize - (data_offset AND (erasesize - 1))) data_size
        in case mtd_block_is_bad dv d (unat read_block_offset) of
             None \<Rightarrow> Some (None, d)
           | Some bad \<Rightarrow>
               if bad then fixtrx_read dv erasesize d (data_offset + read_chunk) (data_size - read_chunk) out
               else
                 case pread_all dv d (unat data_offset) (unat read_chunk) of
                   (None, d) \<Rightarrow> Some (None, d)
                 | (Some xs, d) \<Rightarrow>
                     fixtrx_read dv erasesize d (data_offset + read_chunk) (data_size - read_chunk) (out @ xs))"

abbreviation (input) TRX_CRC32_DATA_OFFSET :: nat where "TRX_CRC32_DATA_OFFSET \<equiv> 12"
abbreviation (input) TRX_CRC32_DATA_SIZE :: nat where "TRX_CRC32_DATA_SIZE \<equiv> 16"

definition mtd_fixtrx :: "'d mtd_dev \<Rightarrow> u32 \<Rightarrow> u32 \<Rightarrow> u32 \<Rightarrow> 'd \<Rightarrow> (mtd_end \<times> 'd) option" where
  "mtd_fixtrx dv trxmagic offset data_size d =
     (let es = of_nat (dev_erasesize dv d) :: u32;
          data_offset = offset + of_nat TRX_CRC32_DATA_OFFSET;
          data_size = (if data_size \<noteq> 0 then data_size + of_nat TRX_CRC32_DATA_SIZE else es - of_nat TRX_CRC32_DATA_OFFSET);
          block_offset = offset AND NOT (es - 1);
          off = unat (offset - block_offset)
      in if of_nat (dev_size dv d) < data_offset + data_size then Some (Exited 1, d)
         else
           case pread_all dv d (unat block_offset) (unat es) of
             (None, d) \<Rightarrow> Some (Exited 1, d)
           | (Some first_block, d) \<Rightarrow>
               if length first_block < off + 4 then Some (Overrun, d)
               else if trx_magic (drop off first_block) \<noteq> trxmagic then Some (Exited 1, d)
               else
                 Option.bind (fixtrx_read dv es d data_offset data_size [])
                   (\<lambda>(r, d).
                     case r of
                       None \<Rightarrow> Some (Exited 1, d)
                     | Some buf \<Rightarrow>
                         let len = of_nat (length buf + TRX_CRC32_DATA_OFFSET) :: u32; crc = crc32buf buf
                         in if length first_block < off + 12 then Some (Overrun, d)
                            else if rd32 first_block (off + 4) = len \<and> rd32 first_block (off + 8) = crc then Some (Returned 0, d)
                            else Some (fix_rewrite dv d (unat block_offset) (wr32 (wr32 first_block (off + 4) len) (off + 8) crc))))"

section \<open>SEAMA, WRG and WRGG\<close>

text \<open>
  What the three headers differ in: the places of the magic number, the size and the digest, their byte order,
  the length of the header, whether metadata follow it (\<open>metasize\<close> of SEAMA, at 6), and the fields that are
  part of the digest before the data.
\<close>

record fix_fmt =
  fx_magic :: u32
  fx_magic_at :: nat
  fx_be :: bool
  fx_size_at :: nat
  fx_digest_at :: nat
  fx_hdr :: nat
  fx_meta :: bool
  fx_fields :: "(nat \<times> nat) list"

definition seama_fmt :: fix_fmt where
  "seama_fmt =
     \<lparr>fx_magic = SEAMA_MAGIC, fx_magic_at = 0, fx_be = True, fx_size_at = 8, fx_digest_at = 12, fx_hdr = 28,
      fx_meta = True, fx_fields = []\<rparr>"

definition wrg_fmt :: fix_fmt where
  "wrg_fmt =
     \<lparr>fx_magic = WRG_MAGIC, fx_magic_at = 32, fx_be = False, fx_size_at = 40, fx_digest_at = 80, fx_hdr = 96,
      fx_meta = False, fx_fields = [(44, 4), (48, 32)]\<rparr>"

definition wrgg_fmt :: fix_fmt where
  "wrgg_fmt =
     \<lparr>fx_magic = WRGG03_MAGIC, fx_magic_at = 32, fx_be = False, fx_size_at = 104, fx_digest_at = 144, fx_hdr = 160,
      fx_meta = False, fx_fields = [(108, 4), (112, 32)]\<rparr>"

definition fx_rd :: "fix_fmt \<Rightarrow> u8 list \<Rightarrow> nat \<Rightarrow> u32" where
  "fx_rd fmt b off = (if fx_be fmt then le_val (rev (rd_bytes b off 4)) else rd32 b off)"

definition fx_wr :: "fix_fmt \<Rightarrow> u8 list \<Rightarrow> nat \<Rightarrow> u32 \<Rightarrow> u8 list" where
  "fx_wr fmt b off v = buf_put b off (if fx_be fmt then rev (le_bytes 4 v) else le_bytes 4 v)"

definition fx_data_offset :: "fix_fmt \<Rightarrow> u8 list \<Rightarrow> nat" where
  "fx_data_offset fmt b = fx_hdr fmt + (if fx_meta fmt then unat (le_val (rev (rd_bytes b 6 2)) :: u16) else 0)"

definition fx_pieces :: "fix_fmt \<Rightarrow> u8 list \<Rightarrow> u8 list list" where
  "fx_pieces fmt b = map (\<lambda>(off, n). rd_bytes b off n) (fx_fields fmt)"

text \<open>
  \<open>seama_fix_md5\<close>, \<open>wrg_fix_md5\<close> and \<open>wrgg_fix_md5\<close>: the result and the header. \<open>junk\<close> is the buffer of the new MD5 context.
\<close>

definition fix_md5 :: "fix_fmt \<Rightarrow> u8 list \<Rightarrow> 'd mtd_dev \<Rightarrow> u8 list \<Rightarrow> 'd \<Rightarrow> nat \<Rightarrow> nat \<Rightarrow> int \<times> u8 list \<times> 'd" where
  "fix_md5 fmt junk dv shdr d data_offset data_size =
     (case pread_all dv d data_offset data_size of
        (None, d) \<Rightarrow> (- EIO, shdr, d)
      | (Some buf, d) \<Rightarrow>
          let digest = MD5_Final (MD5_Update (foldl MD5_Update (MD5_Init junk) (fx_pieces fmt shdr)) buf)
          in if digest = rd_bytes shdr (fx_digest_at fmt) 16 then (- 1, shdr, d)
             else (0, buf_put (fx_wr fmt shdr (fx_size_at fmt) (of_nat data_size)) (fx_digest_at fmt) digest, d))"

text \<open>
  \<open>mtd_fixseama\<close>, \<open>mtd_fixwrg\<close> and \<open>mtd_fixwrgg\<close>. All callers have the header at the start of the device. The result of
  the routine above is not looked at further: when the data cannot be read, the tool returns 0 as well.
\<close>

definition mtd_fix_header :: "fix_fmt \<Rightarrow> u8 list \<Rightarrow> 'd mtd_dev \<Rightarrow> u32 \<Rightarrow> 'd \<Rightarrow> mtd_end \<times> 'd" where
  "mtd_fix_header fmt junk dv data_size d =
     (let es = dev_erasesize dv d; mtdsize = dev_size dv d
      in if mtdsize < es then (Exited 1, d)
         else
           case pread_all dv d 0 es of
             (None, d) \<Rightarrow> (Exited 1, d)
           | (Some first_block, d) \<Rightarrow>
               if length first_block < fx_hdr fmt then (Overrun, d)
               else if fx_rd fmt first_block (fx_magic_at fmt) \<noteq> fx_magic fmt then (Exited 1, d)
               else if fx_rd fmt first_block (fx_size_at fmt) = 0 then (Exited 1, d)
               else
                 let data_offset = fx_data_offset fmt first_block;
                     data_size = (if data_size = 0 then of_nat mtdsize - of_nat data_offset else data_size);
                     data_size = min data_size (fx_rd fmt first_block (fx_size_at fmt))
                 in case fix_md5 fmt junk dv first_block d data_offset (unat data_size) of
                      (err, first_block, d) \<Rightarrow> if err \<noteq> 0 then (Returned 0, d) else fix_rewrite dv d 0 first_block)"

definition mtd_fixseama :: "u8 list \<Rightarrow> 'd mtd_dev \<Rightarrow> u32 \<Rightarrow> 'd \<Rightarrow> mtd_end \<times> 'd" where
  "mtd_fixseama = mtd_fix_header seama_fmt"

definition mtd_fixwrg :: "u8 list \<Rightarrow> 'd mtd_dev \<Rightarrow> u32 \<Rightarrow> 'd \<Rightarrow> mtd_end \<times> 'd" where
  "mtd_fixwrg = mtd_fix_header wrg_fmt"

definition mtd_fixwrgg :: "u8 list \<Rightarrow> 'd mtd_dev \<Rightarrow> u32 \<Rightarrow> 'd \<Rightarrow> mtd_end \<times> 'd" where
  "mtd_fixwrgg = mtd_fix_header wrgg_fmt"

text \<open>The commands in \<open>main\<close>, after the devices to erase.\<close>

datatype fix_cmd = CMD_FIXTRX | CMD_FIXSEAMA | CMD_FIXWRG | CMD_FIXWRGG

definition mtd_fix_main ::
  "'d mtd_dev \<Rightarrow> mtd_opts \<Rightarrow> u8 list \<Rightarrow> u8 list list \<Rightarrow> fix_cmd \<Rightarrow> u32 \<Rightarrow> u8 list \<Rightarrow> 'd devices \<Rightarrow> (mtd_end \<times> 'd devices) option" where
  "mtd_fix_main dv opts junk erase cmd data_size device devs =
     Option.bind (mtd_erase_first dv erase devs)
       (\<lambda>(fin, devs).
         case fin of
           Exited r \<Rightarrow> Some (Exited r, devs)
         | _ \<Rightarrow>
             (case devs device of
                None \<Rightarrow> Some (Exited 1, devs)
              | Some d \<Rightarrow>
                  map_option (\<lambda>(fin, d). (fin, devs(device \<mapsto> d)))
                    (case cmd of
                       CMD_FIXTRX \<Rightarrow> mtd_fixtrx dv (opt_trxmagic opts) (of_nat (opt_offset opts)) data_size d
                     | CMD_FIXSEAMA \<Rightarrow> Some (mtd_fixseama junk dv data_size d)
                     | CMD_FIXWRG \<Rightarrow> Some (mtd_fixwrg junk dv data_size d)
                     | CMD_FIXWRGG \<Rightarrow> Some (mtd_fixwrgg junk dv data_size d))))"

section \<open>One block\<close>

lemma pread_all_flash:
  assumes f: "flash_dev dv cont bad sz es" and "off + n \<le> sz"
  shows "\<exists>d'. pread_all dv d off n = (Some (take n (drop off (cont d))), d') \<and> cont d' = cont d"
proof -
  note fd = flash_devD [OF f]
  obtain r d' where r: "dev_pread dv d off n = (r, d')" by (cases "dev_pread dv d off n")
  then have "r = Inr (take n (drop off (cont d)))" "cont d' = cont d" using fd(6,7) [of d off n] by simp_all
  then show ?thesis using assms(2) fd(3) [of d] r by (intro exI [of _ d']) (simp add: pread_all_def)
qed

lemma buf_put_again: "length xs = length ys \<Longrightarrow> buf_put (buf_put m o1 xs) o1 ys = buf_put m o1 ys"
  by (simp add: buf_put_def)

lemma fix_rewrite_flash:
  assumes f: "flash_dev dv cont bad sz es" and k: "k * es < sz" "\<not> bad k" and blk: "length blk = es"
  shows "\<exists>d'. fix_rewrite dv d (k * es) blk = (Returned 0, d') \<and> cont d' = buf_put (cont d) (k * es) blk"
proof -
  note fd = flash_devD [OF f]
  obtain ok d1 where e: "dev_erase dv (dev_unlock dv d (k * es) es) (k * es) es = (ok, d1)"
    by (cases "dev_erase dv (dev_unlock dv d (k * es) es) (k * es) es")
  have ok: "ok" "cont d1 = buf_put (cont d) (k * es) (replicate es 0xff)" using dev_erase_flash [OF f e] k by simp_all
  obtain r d2 where w: "dev_pwrite dv d1 (k * es) blk = (r, d2)" by (cases "dev_pwrite dv d1 (k * es) blk")
  have "k < sz div es" using k(1) fd(1,2) by (metis dvd_div_mult_self mult_less_cancel2)
  then have "k * es + es \<le> length (cont d)" using block_in_range [OF fd(2,1)] fd(3) by simp
  then have "take es (drop (k * es) (cont d1)) = replicate es 0xff"
    using buf_put_slice [of "k * es" "replicate es 0xff" "cont d"] ok(2) by simp
  moreover have "map2 (AND) blk (replicate (length blk) (0xff :: u8)) = blk"
  proof (induction blk)
    case (Cons x xs)
    have "(0xff :: u8) = - 1" by simp
    then have "x AND 0xff = x" by (simp only: and.right_neutral)
    then show ?case using Cons by simp
  qed simp
  ultimately have "cont d2 = buf_put (cont d) (k * es) blk" "r = int es"
    using dev_pwrite_and [OF f w k blk] ok(2) blk by (simp_all add: buf_put_again)
  then show ?thesis using e ok(1) w fd(5) blk by (intro exI [of _ d2]) (simp add: fix_rewrite_def mtd_erase_block_def)
qed

text \<open>A change in a block that is written back is a change in the device.\<close>

lemma buf_put_block:
  assumes "b + es \<le> length m" "off + length xs \<le> es"
  shows "buf_put m b (buf_put (take es (drop b m)) off xs) = buf_put m (b + off) xs"
  using assms by (intro nth_equalityI) (auto simp: nth_buf_put)

lemma buf_put_block2:
  assumes "b + es \<le> length m" "o1 + length xs \<le> es" "o2 + length ys \<le> es"
  shows "buf_put m b (buf_put (buf_put (take es (drop b m)) o1 xs) o2 ys) = buf_put (buf_put m (b + o1) xs) (b + o2) ys"
  using assms by (intro nth_equalityI) (auto simp: nth_buf_put)

section \<open>The data of a TRX image\<close>

text \<open>The bytes from \<open>off\<close> to \<open>off + n\<close> that are in good blocks.\<close>

definition good_bytes :: "(nat \<Rightarrow> bool) \<Rightarrow> nat \<Rightarrow> u8 list \<Rightarrow> nat \<Rightarrow> nat \<Rightarrow> u8 list" where
  "good_bytes bad es m off n = map (\<lambda>i. m ! i) (filter (\<lambda>i. \<not> bad (i div es)) [off..<off + n])"

lemma good_bytes_step:
  assumes "0 < es" "c \<le> n" "c \<le> es - off mod es" "off + c \<le> length m"
  shows "good_bytes bad es m off n =
    (if bad (off div es) then [] else take c (drop off m)) @ good_bytes bad es m (off + c) (n - c)"
proof -
  have blk: "i div es = off div es" if "i \<in> set [off..<off + c]" for i
  proof -
    define q r where "q = off div es" and "r = off mod es"
    have "off = es * q + r" "r < es" using assms(1) by (simp_all add: q_def r_def)
    moreover have "off \<le> i" "i < off + (es - r)" using that assms(3) by (auto simp: r_def)
    ultimately have "es * q \<le> i" "i < es * Suc q" by simp_all
    then show ?thesis unfolding q_def by (rule div_nat_eqI)
  qed
  have "filter (\<lambda>i. \<not> bad (i div es)) [off..<off + c] = filter (\<lambda>i. \<not> bad (off div es)) [off..<off + c]"
    by (rule filter_cong [OF refl]) (drule blk, simp only:)
  then have "filter (\<lambda>i. \<not> bad (i div es)) [off..<off + c] = (if bad (off div es) then [] else [off..<off + c])"
    by (simp add: filter_empty_conv)
  moreover have "[off..<off + n] = [off..<off + c] @ [off + c..<off + n]"
    using assms(2) upt_add_eq_append [of off "off + c" "n - c"] by simp
  moreover have "map (\<lambda>i. m ! i) [off..<off + c] = take c (drop off m)"
    using assms(4) by (intro nth_equalityI) auto
  ultimately show ?thesis using assms(2) by (simp add: good_bytes_def)
qed

lemma u32_add: "unat a + unat b < 2 ^ 32 \<Longrightarrow> unat (a + b) = unat a + unat b" for a b :: u32
  by (rule unat_add_lem [THEN iffD1]) simp

text \<open>The masks of the code, for an erase size that is a power of two.\<close>

lemma block_masks:
  assumes "(of_nat es :: u32) = 2 ^ p" "es = 2 ^ p" "p < 32"
  shows "unat (off AND NOT (of_nat es - 1 :: u32)) = unat off div es * es" "unat (off AND (of_nat es - 1 :: u32)) = unat off mod es"
proof -
  have m: "(of_nat es :: u32) - 1 = mask p" using assms(1) by (simp add: mask_eq_exp_minus_1)
  have "off AND mask p = take_bit p off" by (simp add: take_bit_eq_mask)
  then show t: "unat (off AND (of_nat es - 1 :: u32)) = unat off mod es" unfolding m by (simp add: unat_take_bit assms(2))
  have "off AND NOT (mask p) = off - take_bit p off"
    by (metis add_diff_cancel_right' and.commute push_bit_take_bit take_bit_eq_mask and_not_mask_push_drop bits_ident)
  moreover have "take_bit p off \<le> off" by (simp add: word_le_nat_alt unat_take_bit)
  ultimately have "unat (off AND NOT (mask p)) = unat off - unat off mod es"
    by (simp add: unat_sub unat_take_bit assms(2))
  then show "unat (off AND NOT (of_nat es - 1 :: u32)) = unat off div es * es"
    unfolding m by (simp add: minus_mod_eq_div_mult)
qed

lemma erase_word:
  assumes "es = 2 ^ p" "p < 32"
  shows "unat (of_nat es :: u32) = es"
proof -
  have "es < 2 ^ 32" unfolding assms(1) using assms(2) by (intro power_strict_increasing) simp_all
  then show ?thesis by (intro of_nat_inverse) simp_all
qed

lemma fixtrx_read_flash:
  assumes f: "flash_dev dv cont bad sz es" and p: "es = 2 ^ p" "p < 32"
    and "unat off + unat n \<le> sz"
  shows "\<exists>d'. fixtrx_read dv (of_nat es) d off n out =
      Some (Some (out @ good_bytes bad es (cont d) (unat off) (unat n)), d') \<and> cont d' = cont d"
  using assms(4)
proof (induction "unat n" arbitrary: n off d out rule: less_induct)
  case (less n off d out)
  note fd = flash_devD [OF f]
  have es: "(of_nat es :: u32) = 2 ^ p" by (simp add: p(1))
  note masks = block_masks [OF es p]
  note esw = erase_word [OF p]
  show ?case
  proof (cases "n = 0")
    case True
    then show ?thesis by (subst fixtrx_read.simps) (simp add: good_bytes_def)
  next
    case False
    define c where "c = min (of_nat es - (off AND (of_nat es - 1))) n"
    have mod: "unat off mod es < es" using fd(1) by simp
    then have "(off AND (of_nat es - 1)) \<le> (of_nat es :: u32)" by (simp add: word_le_nat_alt masks(2) esw)
    then have diff: "unat (of_nat es - (off AND (of_nat es - 1)) :: u32) = es - unat off mod es"
      by (simp add: unat_sub masks(2) esw)
    have c: "unat c = min (es - unat off mod es) (unat n)"
      by (simp add: c_def min_def word_le_nat_alt diff)
    have n0: "0 < unat n" using False by (simp add: unat_gt_0)
    have cn: "0 < unat c" "unat c \<le> unat n" using c mod n0 by simp_all
    have sz: "sz < 2 ^ 31" using f by (simp add: flash_dev_def)
    have off: "unat (off + c) = unat off + unat c"
      using less.prems cn(2) sz by (intro u32_add) simp
    have rest: "unat (n - c) = unat n - unat c" using cn(2) by (intro unat_sub) (simp add: word_le_nat_alt)
    have blk: "unat off div es * es < sz"
      using less.prems n0 div_times_less_eq_dividend [of "unat off" es] by linarith
    have bad: "mtd_block_is_bad dv d (unat (off AND NOT (of_nat es - 1))) = Some (bad (unat off div es))"
      using mtd_block_is_bad_flash [OF f, of d "unat off div es"] blk by (simp add: masks(1))
    obtain d1 where d1: "pread_all dv d (unat off) (unat c) = (Some (take (unat c) (drop (unat off) (cont d))), d1)" "cont d1 = cont d"
      using pread_all_flash [OF f, of "unat off" "unat c" d] less.prems cn(2) by auto
    let ?d = "if bad (unat off div es) then d else d1"
    let ?out = "out @ (if bad (unat off div es) then [] else take (unat c) (drop (unat off) (cont d)))"
    have step: "fixtrx_read dv (of_nat es) d off n out = fixtrx_read dv (of_nat es) ?d (off + c) (n - c) ?out"
      using False bad d1(1) by (subst fixtrx_read.simps) (simp add: Let_def c_def [symmetric])
    have "unat (n - c) < unat n" "unat (off + c) + unat (n - c) \<le> sz" using rest cn off less.prems by simp_all
    from less.hyps [OF this, of ?d ?out] obtain d' where
      "fixtrx_read dv (of_nat es) ?d (off + c) (n - c) ?out =
        Some (Some (?out @ good_bytes bad es (cont ?d) (unat off + unat c) (unat n - unat c)), d')" "cont d' = cont ?d"
      by (auto simp: off rest)
    moreover have "cont ?d = cont d" using d1(2) by simp
    moreover have "good_bytes bad es (cont d) (unat off) (unat n) =
        (if bad (unat off div es) then [] else take (unat c) (drop (unat off) (cont d))) @
        good_bytes bad es (cont d) (unat off + unat c) (unat n - unat c)"
      using good_bytes_step [OF fd(1) cn(2), of "unat off" "cont d" bad] c less.prems fd(3) cn(2) by simp
    ultimately show ?thesis unfolding step by (intro exI [of _ d']) simp
  qed
qed

text \<open>
  What the boot loader checks of a header at \<open>off\<close>: the length of the image, which is twelve more than the bytes in
  the good blocks, and their checksum.
\<close>

definition trx_valid :: "(nat \<Rightarrow> bool) \<Rightarrow> nat \<Rightarrow> u8 list \<Rightarrow> nat \<Rightarrow> nat \<Rightarrow> bool" where
  "trx_valid bad es m off n \<longleftrightarrow>
     (let buf = good_bytes bad es m (off + 12) n
      in rd32 m (off + 4) = of_nat (length buf + 12) \<and> rd32 m (off + 8) = crc32buf buf)"

lemma good_bytes_cong:
  "(\<And>i. off \<le> i \<Longrightarrow> i < off + n \<Longrightarrow> m' ! i = m ! i) \<Longrightarrow> good_bytes bad es m' off n = good_bytes bad es m off n"
  by (auto simp: good_bytes_def)

lemma trx_magic_drop: "off + 4 \<le> length b \<Longrightarrow> trx_magic (drop off b) = le_val (rev (rd_bytes b off 4))"
  by (simp add: trx_magic_def rd_bytes_take_drop)

lemma rd_bytes_block:
  assumes "b + es \<le> length m" "off + n \<le> es"
  shows "rd_bytes (take es (drop b m)) off n = rd_bytes m (b + off) n"
  using assms by (auto simp: rd_bytes_def add.assoc)

lemma trx_header_valid:
  assumes len: "off + 12 + n \<le> length m" and buf: "buf = good_bytes bad es m (off + 12) n"
    and m': "m' = wr32 (wr32 m (off + 4) (of_nat (length buf + 12))) (off + 8) (crc32buf buf)"
  shows "trx_valid bad es m' off n" "\<forall>i<length m. off + 4 \<le> i \<and> i < off + 12 \<or> m' ! i = m ! i"
proof -
  have same: "m' ! i = m ! i" if "i < length m" "i < off + 4 \<or> off + 12 \<le> i" for i
    using that unfolding m' by (auto simp: nth_wr32_other)
  then show "\<forall>i<length m. off + 4 \<le> i \<and> i < off + 12 \<or> m' ! i = m ! i" by (meson not_less)
  have "good_bytes bad es m' (off + 12) n = buf"
    unfolding buf using len by (intro good_bytes_cong same) simp_all
  then show "trx_valid bad es m' off n"
    using len by (simp add: trx_valid_def Let_def) (simp add: m' rd32_wr32_same rd32_wr32_other)
qed

text \<open>The words of \<open>mtd_fixtrx\<close> when nothing wraps around.\<close>

abbreviation (input) trx_data_size :: "nat \<Rightarrow> u32 \<Rightarrow> u32" where
  "trx_data_size es data_size \<equiv>
     (if data_size \<noteq> 0 then data_size + of_nat TRX_CRC32_DATA_SIZE else of_nat es - of_nat TRX_CRC32_DATA_OFFSET)"

lemma fixtrx_words:
  assumes p: "es = 2 ^ p" "12 \<le> es" and sz: "es \<le> sz" "sz < 2 ^ 31"
    and n: "n = (if data_size = 0 then es - 12 else unat data_size + 16)" "unat offset + 12 + n \<le> sz"
  shows "p < 32" "unat (of_nat es :: u32) = es" "unat (offset AND NOT (of_nat es - 1 :: u32)) = unat offset div es * es"
    "unat (offset - (offset AND NOT (of_nat es - 1 :: u32))) = unat offset mod es"
    "unat (offset + 12) = unat offset + 12" "unat (trx_data_size es data_size) = n"
    "\<not> of_nat sz < offset + 12 + trx_data_size es data_size"
proof -
  show p32: "p < 32"
  proof (rule ccontr)
    assume "\<not> p < 32"
    then have "(2 :: nat) ^ 32 \<le> 2 ^ p" by (intro power_increasing) simp_all
    then show False using sz p(1) by simp
  qed
  show esw: "unat (of_nat es :: u32) = es" by (rule erase_word [OF p(1) p32])
  have es: "(of_nat es :: u32) = 2 ^ p" by (simp add: p(1))
  show bo: "unat (offset AND NOT (of_nat es - 1 :: u32)) = unat offset div es * es" by (rule block_masks(1) [OF es p(1) p32])
  show "unat (offset - (offset AND NOT (of_nat es - 1 :: u32))) = unat offset mod es"
    using bo by (subst unat_sub) (simp_all add: word_le_nat_alt minus_div_mult_eq_mod)
  show do: "unat (offset + 12) = unat offset + 12" using u32_add [of offset 12] n(2) sz by simp
  show ds: "unat (trx_data_size es data_size) = n"
  proof (cases "data_size = 0")
    case True
    then show ?thesis using n(1) p(2) esw by (simp add: unat_sub word_le_nat_alt)
  next
    case False
    then show ?thesis using n sz u32_add [of data_size 16] by simp
  qed
  have "unat (of_nat sz :: u32) = sz" using sz by (intro of_nat_inverse) simp_all
  moreover have "unat (offset + 12 + trx_data_size es data_size) = unat (offset + 12) + unat (trx_data_size es data_size)"
    using n(2) sz by (intro u32_add) (simp only: do ds, simp)
  ultimately show "\<not> of_nat sz < offset + 12 + trx_data_size es data_size"
    using n(2) by (simp only: word_less_nat_alt do ds)
qed

text \<open>
  C32. \<^verbatim>\<open>mtd fixtrx\<close> on a working device makes the header valid: its length and checksum are those of the data in the good
  blocks. Nothing else changes, and a header that is valid already is left alone.
\<close>
theorem mtd_fixtrx_repairs:
  assumes f: "flash_dev dv cont bad sz es" and p: "es = 2 ^ p" "12 \<le> es"
    and n: "n = (if data_size = 0 then es - 12 else unat data_size + 16)" "unat offset + 12 + n \<le> sz"
    and hdr: "unat offset mod es + 12 \<le> es" "trx_magic (drop (unat offset) (cont d)) = magic" "\<not> bad (unat offset div es)"
  shows "\<exists>d'. mtd_fixtrx dv magic offset data_size d = Some (Returned 0, d') \<and>
    trx_valid bad es (cont d') (unat offset) n \<and>
    (\<forall>i < sz. unat offset + 4 \<le> i \<and> i < unat offset + 12 \<or> cont d' ! i = cont d ! i) \<and>
    (trx_valid bad es (cont d) (unat offset) n \<longrightarrow> cont d' = cont d)"
proof -
  note fd = flash_devD [OF f]
  have sz: "sz < 2 ^ 31" using f by (simp add: flash_dev_def)
  define k where "k = unat offset div es"
  define o' where "o' = unat offset mod es"
  have off: "unat offset = k * es + o'" by (simp add: k_def o'_def)
  have o12: "o' + 12 \<le> es" using hdr(1) by (simp add: o'_def)
  have lt: "k * es < sz" using n(2) off by simp
  then have "k < sz div es" using fd(1,2) by (metis dvd_div_mult_self mult_less_cancel2)
  then have kr: "k * es + es \<le> sz" by (rule block_in_range [OF fd(2,1)])
  have "es \<le> sz" using kr by simp
  define ds where ds_eq: "ds = trx_data_size es data_size"
  note words = fixtrx_words [OF p \<open>es \<le> sz\<close> sz n, folded ds_eq]
  obtain d1 where d1: "pread_all dv d (k * es) es = (Some (take es (drop (k * es) (cont d))), d1)" "cont d1 = cont d"
    using pread_all_flash [OF f kr, of d] by blast
  let ?fb = "take es (drop (k * es) (cont d))" and ?buf = "good_bytes bad es (cont d) (unat offset + 12) n"
  let ?len = "of_nat (length ?buf + 12) :: u32"
  have fb: "length ?fb = es" using kr fd(3) by simp
  obtain d2 where d2: "fixtrx_read dv (of_nat es) d1 (offset + 12) ds [] = Some (Some ?buf, d2)" "cont d2 = cont d"
    using fixtrx_read_flash [OF f p(1) words(1), of "offset + 12" ds d1 "[]"] n(2) d1(2) unfolding words(5,6) by auto
  have rd: "rd32 ?fb (o' + j) = rd32 (cont d) (unat offset + j)" if "j + 4 \<le> 12" for j
    using that o12 kr fd(3) by (simp add: rd32_def rd_bytes_block off add.assoc)
  have magic: "trx_magic (drop o' ?fb) = magic"
    using hdr(2) o12 kr n(2) fd(3) fb by (simp add: trx_magic_drop rd_bytes_block off del: length_take)
  let ?fixed = "rd32 ?fb (o' + 4) = ?len \<and> rd32 ?fb (o' + 8) = crc32buf ?buf"
  have fixed: "?fixed = trx_valid bad es (cont d) (unat offset) n"
    by (simp add: trx_valid_def Let_def rd)
  have run: "mtd_fixtrx dv magic offset data_size d =
      (if ?fixed then Some (Returned 0, d2)
       else Some (fix_rewrite dv d2 (k * es) (wr32 (wr32 ?fb (o' + 4) ?len) (o' + 8) (crc32buf ?buf))))"
    using words(7) d1(1) d2(1) magic o12 unfolding mtd_fixtrx_def Let_def fd(4,5) ds_eq [symmetric]
    by (simp add: words(2-4) k_def [symmetric] o'_def [symmetric] fb del: length_take)
  show ?thesis
  proof (cases ?fixed)
    case True
    then show ?thesis using run d2(2) fixed by auto
  next
    case False
    let ?m = "wr32 (wr32 (cont d) (unat offset + 4) ?len) (unat offset + 8) (crc32buf ?buf)"
    obtain d3 where d3: "fix_rewrite dv d2 (k * es) (wr32 (wr32 ?fb (o' + 4) ?len) (o' + 8) (crc32buf ?buf)) = (Returned 0, d3)"
      "cont d3 = ?m"
      using fix_rewrite_flash [OF f lt, of "wr32 (wr32 ?fb (o' + 4) ?len) (o' + 8) (crc32buf ?buf)" d2] hdr(3) o12 fb d2(2) kr fd(3)
      by (auto simp: k_def [symmetric] wr32_def buf_put_block2 off add.assoc)
    have "unat offset + 12 + n \<le> length (cont d)" using n(2) fd(3) by simp
    note valid = trx_header_valid [OF this refl refl]
    show ?thesis using run False d3 valid fixed fd(3) by auto
  qed
qed

text \<open>A header whose data end in the third block; the second one is bad, so that 44 of 76 bytes count.\<close>

theorem mtd_fixtrx_repairs_witness:
  "\<exists>d'. mtd_fixtrx (ram_dev 128 32 (\<lambda>k. k = 1)) TRX_MAGIC 0 60 chip_image = Some (Returned 0, d') \<and>
    rd32 (ram_cont 128 d') 4 = 56 \<and> trx_valid (\<lambda>k. k = 1) 32 (ram_cont 128 d') 0 76"
proof -
  let ?bad = "\<lambda>k :: nat. k = 1"
  have f: "flash_dev (ram_dev 128 32 ?bad) (ram_cont 128) ?bad 128 32" by (rule ram_dev_ok) simp_all
  have "unat (0 :: u32) mod 32 + 12 \<le> 32" "trx_magic (drop (unat (0 :: u32)) (ram_cont 128 chip_image)) = TRX_MAGIC"
    by code_simp+
  then obtain d' where d': "mtd_fixtrx (ram_dev 128 32 ?bad) TRX_MAGIC 0 60 chip_image = Some (Returned 0, d')"
    "trx_valid ?bad 32 (ram_cont 128 d') (unat (0 :: u32)) 76"
    using mtd_fixtrx_repairs [OF f, of 5 76 60 0 chip_image TRX_MAGIC] by auto
  have "length (filter (\<lambda>i. \<not> ?bad (i div 32)) [12..<12 + 76]) = 44" by code_simp
  then show ?thesis using d' by (auto simp: trx_valid_def Let_def good_bytes_def)
qed

section \<open>The digest of a header\<close>

text \<open>
  What the code relies on in the layout of a header: the size is a field of its own before the digest, the digest
  ends the header, and magic number, metadata length and the fields of the digest are neither.
\<close>

locale fix_layout =
  fixes fmt :: fix_fmt
  assumes size_before: "fx_size_at fmt + 4 \<le> fx_digest_at fmt"
    and digest_last: "fx_digest_at fmt + 16 = fx_hdr fmt"
    and fields: "list_all (\<lambda>(off, n). (off + n \<le> fx_size_at fmt \<or> fx_size_at fmt + 4 \<le> off) \<and> off + n \<le> fx_digest_at fmt) (fx_fields fmt)"
    and magic_first: "fx_magic_at fmt + 4 \<le> fx_size_at fmt"
    and meta: "fx_meta fmt \<Longrightarrow> 8 \<le> fx_size_at fmt"

text \<open>The header is valid for \<open>n\<close> bytes of data.\<close>

definition fx_valid :: "fix_fmt \<Rightarrow> u8 list \<Rightarrow> nat \<Rightarrow> bool" where
  "fx_valid fmt m n \<longleftrightarrow>
     rd_bytes m (fx_digest_at fmt) 16 = md5 (concat (fx_pieces fmt m) @ take n (drop (fx_data_offset fmt m) m))"

text \<open>The number of bytes of data that the tool takes: what it was told, or the rest of the device, at most the old size.\<close>

definition fx_length :: "fix_fmt \<Rightarrow> u8 list \<Rightarrow> u32 \<Rightarrow> nat" where
  "fx_length fmt m data_size =
     min (if data_size = 0 then length m - fx_data_offset fmt m else unat data_size) (unat (fx_rd fmt m (fx_size_at fmt)))"

context fix_layout
begin

abbreviation S where "S \<equiv> fx_size_at fmt"
abbreviation D where "D \<equiv> fx_digest_at fmt"

text \<open>A change of size and digest.\<close>

lemma change_other:
  assumes m': "m' = buf_put (fx_wr fmt m S v) D digest" and len: "length digest = 16" "fx_hdr fmt \<le> length m"
  shows "\<forall>i < length m. S \<le> i \<and> i < S + 4 \<or> D \<le> i \<and> i < D + 16 \<or> m' ! i = m ! i" "length m' = length m"
    and "fx_rd fmt m' S = v" "rd_bytes m' D 16 = digest"
    and "fx_pieces fmt m' = fx_pieces fmt m" "fx_data_offset fmt m' = fx_data_offset fmt m"
    and "drop (fx_data_offset fmt m') m' = drop (fx_data_offset fmt m) m"
proof -
  have l: "length (fx_wr fmt m S v) = length m" by (simp add: fx_wr_def)
  have sp: "S + 4 \<le> length m" "D + length digest \<le> length m" using size_before digest_last len by simp_all
  then have dp: "D + length digest \<le> length (fx_wr fmt m S v)" by (simp add: l)
  have same: "m' ! i = m ! i" if "i < length m" "\<not> (S \<le> i \<and> i < S + 4)" "\<not> (D \<le> i \<and> i < D + 16)" for i
    using that sp len(1) by (auto simp: m' nth_buf_put [OF dp] l) (auto simp: fx_wr_def nth_buf_put)
  then show "\<forall>i < length m. S \<le> i \<and> i < S + 4 \<or> D \<le> i \<and> i < D + 16 \<or> m' ! i = m ! i" by blast
  show ln: "length m' = length m" by (simp add: m' l)
  have bytes: "rd_bytes m' off n = rd_bytes m off n"
    if "off + n \<le> S \<or> S + 4 \<le> off" "off + n \<le> D \<or> D + 16 \<le> off" "off + n \<le> length m" for off n
    using that by (auto simp: rd_bytes_def intro!: same)
  have "rd_bytes m' S 4 = rd_bytes (fx_wr fmt m S v) S 4"
    unfolding m' using sp l len(1) size_before by (intro rd_bytes_put_other) simp_all
  also have "\<dots> = (if fx_be fmt then rev (le_bytes 4 v) else le_bytes 4 v)"
    using rd_bytes_put_same [of S "rev (le_bytes 4 v)" m] rd_bytes_put_same [of S "le_bytes 4 v" m] sp by (simp add: fx_wr_def)
  finally show "fx_rd fmt m' S = v" by (simp add: fx_rd_def rd32_def le_val_le_bytes)
  show "rd_bytes m' D 16 = digest" using rd_bytes_put_same [OF dp] len(1) by (simp add: m')
  show "fx_pieces fmt m' = fx_pieces fmt m"
    using fields digest_last len(2) by (auto simp: fx_pieces_def list_all_iff intro!: bytes)
  show off: "fx_data_offset fmt m' = fx_data_offset fmt m"
    using meta size_before sp by (auto simp: fx_data_offset_def bytes)
  have "m' ! i = m ! i" if "fx_hdr fmt \<le> i" "i < length m" for i
    using that size_before digest_last by (intro same) simp_all
  moreover have "fx_hdr fmt \<le> fx_data_offset fmt m" by (simp add: fx_data_offset_def)
  ultimately show "drop (fx_data_offset fmt m') m' = drop (fx_data_offset fmt m) m"
    unfolding off using ln by (intro nth_equalityI) simp_all
qed

text \<open>What is read from the first block is what the device holds.\<close>

lemma first_block:
  assumes "fx_hdr fmt \<le> es" "es \<le> length m"
  shows "fx_rd fmt (take es m) (fx_magic_at fmt) = fx_rd fmt m (fx_magic_at fmt)" "fx_rd fmt (take es m) S = fx_rd fmt m S"
    "rd_bytes (take es m) D 16 = rd_bytes m D 16" "fx_data_offset fmt (take es m) = fx_data_offset fmt m"
    "fx_pieces fmt (take es m) = fx_pieces fmt m"
proof -
  have bytes: "rd_bytes (take es m) off n = rd_bytes m off n" if "off + n \<le> fx_hdr fmt" for off n
    using that assms by (intro rd_bytes_take) simp_all
  note bounds = size_before digest_last magic_first
  show "fx_rd fmt (take es m) (fx_magic_at fmt) = fx_rd fmt m (fx_magic_at fmt)" "fx_rd fmt (take es m) S = fx_rd fmt m S"
    "rd_bytes (take es m) D 16 = rd_bytes m D 16"
    using bounds by (simp_all add: fx_rd_def rd32_def bytes)
  show "fx_data_offset fmt (take es m) = fx_data_offset fmt m"
    using bounds meta by (cases "fx_meta fmt") (simp_all add: fx_data_offset_def bytes)
  show "fx_pieces fmt (take es m) = fx_pieces fmt m"
    using fields digest_last by (auto simp: fx_pieces_def list_all_iff intro!: bytes)
qed

lemma fix_digest:
  assumes "length junk = 64" "fx_hdr fmt < 2 ^ 32" "length buf < 2 ^ 32"
  shows "MD5_Final (MD5_Update (foldl MD5_Update (MD5_Init junk) (fx_pieces fmt m)) buf) = md5 (concat (fx_pieces fmt m) @ buf)"
proof -
  have "list_all (\<lambda>xs. length xs < 2 ^ 32) (fx_pieces fmt m @ [buf])"
    using fields digest_last assms(2,3) by (auto simp: fx_pieces_def list_all_iff rd_bytes_def)
  from MD5_pieces [OF assms(1) this] show ?thesis by simp
qed

lemma fix_header_repairs:
  assumes f: "flash_dev dv cont bad sz es" and first: "\<not> bad 0" "fx_hdr fmt \<le> es" "0 < sz" and junk: "length junk = 64"
    and hdr: "fx_rd fmt (cont d) (fx_magic_at fmt) = fx_magic fmt" "fx_rd fmt (cont d) S \<noteq> 0"
    and n: "n = fx_length fmt (cont d) data_size" "fx_data_offset fmt (cont d) + n \<le> sz"
  shows "\<exists>d'. mtd_fix_header fmt junk dv data_size d = (Returned 0, d') \<and> fx_valid fmt (cont d') n \<and>
    (if fx_valid fmt (cont d) n then cont d' = cont d
     else fx_rd fmt (cont d') S = of_nat n \<and>
       (\<forall>i < sz. S \<le> i \<and> i < S + 4 \<or> D \<le> i \<and> i < D + 16 \<or> cont d' ! i = cont d ! i))"
proof -
  note fd = flash_devD [OF f]
  have sz: "sz < 2 ^ 31" using f by (simp add: flash_dev_def)
  have es: "es \<le> sz" using fd(2) first(3) by (rule dvd_imp_le)
  let ?m = "cont d" and ?off = "fx_data_offset fmt (cont d)"
  have lm: "length ?m = sz" by (rule fd(3))
  obtain d1 where d1: "pread_all dv d 0 es = (Some (take es ?m), d1)" "cont d1 = ?m"
    using pread_all_flash [OF f, of 0 es d] es by auto
  note fb = first_block [OF first(2), of ?m, unfolded lm, OF es]
  have "unat (of_nat sz - of_nat ?off :: u32) = sz - ?off"
  proof -
    have "unat (of_nat sz :: u32) = sz" "unat (of_nat ?off :: u32) = ?off" using sz n(2) by (auto intro!: of_nat_inverse)
    then show ?thesis using n(2) by (simp add: unat_sub word_le_nat_alt)
  qed
  then have w: "unat (min (if data_size = 0 then of_nat sz - of_nat ?off else data_size) (fx_rd fmt ?m S)) = n"
    by (simp add: n(1) fx_length_def lm min_def word_le_nat_alt)
  obtain d2 where d2: "pread_all dv d1 ?off n = (Some (take n (drop ?off ?m)), d2)" "cont d2 = ?m"
    using pread_all_flash [OF f n(2), of d1] d1(2) by auto
  let ?digest = "md5 (concat (fx_pieces fmt ?m) @ take n (drop ?off ?m))"
  have dig: "MD5_Final (MD5_Update (foldl MD5_Update (MD5_Init junk) (fx_pieces fmt ?m)) (take n (drop ?off ?m))) = ?digest"
    using first(2) es sz n(2) lm by (intro fix_digest [OF junk]) simp_all
  let ?blk = "buf_put (fx_wr fmt (take es ?m) S (of_nat n)) D ?digest"
  have run: "mtd_fix_header fmt junk dv data_size d =
      (if fx_valid fmt ?m n then (Returned 0, d2) else fix_rewrite dv d2 0 ?blk)"
    using es lm first(2) hdr
    by (simp add: mtd_fix_header_def fix_md5_def fd(4,5) d1(1) fb Let_def w d2(1) dig fx_valid_def)
  have dl: "length ?digest = 16" by (simp add: md5_def md5_digest_def split: prod.splits)
  show ?thesis
  proof (cases "fx_valid fmt ?m n")
    case True
    then show ?thesis using run d2(2) by auto
  next
    case False
    have l: "length ?blk = es" using es lm by (simp add: fx_wr_def)
    obtain d3 where d3: "fix_rewrite dv d2 0 ?blk = (Returned 0, d3)" "cont d3 = buf_put ?m 0 ?blk"
      using fix_rewrite_flash [OF f _ first(1) l, of d2] first(3) d2(2) by auto
    have put: "cont d3 = buf_put (fx_wr fmt ?m S (of_nat n)) D ?digest"
      using d3(2) buf_put_block2 [of 0 es ?m S "if fx_be fmt then rev (le_bytes 4 (of_nat n :: u32)) else le_bytes 4 (of_nat n :: u32)" D ?digest]
        es lm dl size_before digest_last first(2) by (simp add: fx_wr_def)
    have h: "fx_hdr fmt \<le> length ?m" using first(2) es lm by simp
    note ch = change_other [OF put dl h]
    have "fx_valid fmt (cont d3) n" unfolding fx_valid_def ch(4,5,7) ..
    then show ?thesis using run False d3(1) ch(1,3) lm by auto
  qed
qed

end

text \<open>The three layouts.\<close>

interpretation seama: fix_layout seama_fmt
  by unfold_locales (simp_all add: seama_fmt_def)

interpretation wrg: fix_layout wrg_fmt
  by unfold_locales (simp_all add: wrg_fmt_def)

interpretation wrgg: fix_layout wrgg_fmt
  by unfold_locales (simp_all add: wrgg_fmt_def)

text \<open>
  C33. \<^verbatim>\<open>mtd fixseama\<close>, \<^verbatim>\<open>fixwrg\<close> and \<^verbatim>\<open>fixwrgg\<close> on a working device make the header valid for the data that it takes: the
  digest is the one of the fields and the data. Only the size and the digest change, and a header whose digest is
  right already is left alone.
\<close>
theorem mtd_fix_header_repairs:
  assumes fmt: "fmt \<in> {seama_fmt, wrg_fmt, wrgg_fmt}"
    and f: "flash_dev dv cont bad sz es" and first: "\<not> bad 0" "fx_hdr fmt \<le> es" "0 < sz" and junk: "length junk = 64"
    and hdr: "fx_rd fmt (cont d) (fx_magic_at fmt) = fx_magic fmt" "fx_rd fmt (cont d) (fx_size_at fmt) \<noteq> 0"
    and n: "n = fx_length fmt (cont d) data_size" "fx_data_offset fmt (cont d) + n \<le> sz"
  shows "\<exists>d'. mtd_fix_header fmt junk dv data_size d = (Returned 0, d') \<and> fx_valid fmt (cont d') n \<and>
    (if fx_valid fmt (cont d) n then cont d' = cont d
     else fx_rd fmt (cont d') (fx_size_at fmt) = of_nat n \<and>
       (\<forall>i < sz. fx_size_at fmt \<le> i \<and> i < fx_size_at fmt + 4 \<or> fx_digest_at fmt \<le> i \<and> i < fx_digest_at fmt + 16 \<or>
          cont d' ! i = cont d ! i))"
proof -
  consider "fmt = seama_fmt" | "fmt = wrg_fmt" | "fmt = wrgg_fmt" using fmt by blast
  then show ?thesis
  proof cases
    case 1
    show ?thesis using seama.fix_header_repairs [OF f first(1) _ first(3) junk] first(2) hdr n unfolding 1 by blast
  next
    case 2
    show ?thesis using wrg.fix_header_repairs [OF f first(1) _ first(3) junk] first(2) hdr n unfolding 2 by blast
  next
    case 3
    show ?thesis using wrgg.fix_header_repairs [OF f first(1) _ first(3) junk] first(2) hdr n unfolding 3 by blast
  qed
qed

text \<open>A SEAMA image of 64 bytes behind its header, which is in the first block of 32 bytes, with metadata of four bytes.\<close>

abbreviation seama_image :: "u8 list" where
  "seama_image \<equiv> [0x5e, 0xa3, 0xa4, 0x17, 0, 0, 0, 4, 0, 0, 0, 64] @ replicate 20 0 @ replicate 64 7"

theorem mtd_fix_header_repairs_witness:
  "\<exists>d'. mtd_fixseama (replicate 64 0) (ram_dev 128 32 (\<lambda>k. k = 3)) 0 seama_image = (Returned 0, d') \<and>
    fx_valid seama_fmt (ram_cont 128 d') 64"
proof -
  let ?bad = "\<lambda>k :: nat. k = 3"
  have f: "flash_dev (ram_dev 128 32 ?bad) (ram_cont 128) ?bad 128 32" by (rule ram_dev_ok) simp_all
  have h: "fx_rd seama_fmt (ram_cont 128 seama_image) (fx_magic_at seama_fmt) = fx_magic seama_fmt"
    "fx_rd seama_fmt (ram_cont 128 seama_image) (fx_size_at seama_fmt) \<noteq> 0"
    "64 = fx_length seama_fmt (ram_cont 128 seama_image) 0" "fx_data_offset seama_fmt (ram_cont 128 seama_image) + 64 \<le> 128"
    "fx_hdr seama_fmt \<le> 32"
    by code_simp+
  obtain d' where d': "mtd_fix_header seama_fmt (replicate 64 0) (ram_dev 128 32 ?bad) 0 seama_image = (Returned 0, d')"
    "fx_valid seama_fmt (ram_cont 128 d') 64"
    using mtd_fix_header_repairs [OF _ f _ h(5) _ _ h(1-4), of "replicate 64 0"] by auto
  then show ?thesis by (auto simp: mtd_fixseama_def)
qed

end
