(* ===== verification/Spec2Isabelle.thy ===== *)
theory Spec2Isabelle
  imports Bmt_Bbt Bmt_V2 Nmbm_Attach Rb_Softconfig Rb_Hardconfig Rb_Partitions Mtdsplit_Scan Mtdsplit_Elf Mtdsplit_Wfi
    Mtdsplit_Fit Mtdsplit_Boot Nvram_Cli Mtd_Fix
begin

text \<open>
  A verification library for the flash code of LibWrt: the part of the program that the repository
  itself defines between a flash driver and the rest of the kernel, and two user programs on the flash: the
  tool for the variables that boot loader and system share on Broadcom devices, and the one that writes
  firmware images. All paths are under
  \<^verbatim>\<open>src/target/linux/generic/files/drivers/\<close> unless they start with \<^verbatim>\<open>src/\<close>.

  \<^bold>\<open>The parts and how they interact.\<close>
  Bad block management (\<^verbatim>\<open>mtd/nand/mtk_bmt*.c\<close>) lies between a NAND driver and its users: its core maps
  logical blocks to physical ones and retries after a remap, one of three backends keeps the mapping
  on the flash. The mtdsplit parsers (\<^verbatim>\<open>mtd/mtdsplit/\<close>) look at a device and give its partitions: where the
  kernel ends and the root file system starts. The RouterBoot partition parser (\<^verbatim>\<open>mtd/parsers/routerbootpart.c\<close>)
  gives the partitions of MikroTik devices, among them the two configurations that the RouterBoot driver
  (\<^verbatim>\<open>platform/mikrotik/\<close>) reads, decompresses, shows, and writes back. The NVRAM tool
  (\<^verbatim>\<open>src/package/utils/nvram/src/\<close>) is a user program on one of these partitions: it finds the image of the
  variables, keeps them in a hash table, and writes the image anew, to a staging file first and from there
  to the partition. The mtd tool (\<^verbatim>\<open>src/package/system/mtd/src/\<close>) checks, erases, dumps and writes a partition block by
  block and goes around the bad ones itself.

  \<^bold>\<open>Theories.\<close> State is a record that the operations take and give back; an access that can fail returns
  its error number or a sum; a \<open>None\<close> of a \<open>partial_function\<close> is a run that does not end.
  \<^item> \<open>Prelude\<close>, \<open>Le_Bytes\<close>, \<open>Block_Marks\<close>: the integer types, error numbers, hint collections, words in byte
    buffers, and the lemmas on words and lists that several components use; \<open>Demo_Device\<close>: a small chip for
    the witnesses of the bad block layer.
  \<^item> \<open>Bmt_Desc\<close>: \<open>struct bmt_desc\<close> of \<^verbatim>\<open>mtk_bmt.h\<close>, the driver as a parameter (\<open>mtd_ops\<close>), and the accesses to it.
    \<open>Bmt_Core\<close>: the read, write, erase, isbad and markbad of \<^verbatim>\<open>mtk_bmt.c\<close> with their loops, over a backend
    (\<open>mtk_bmt_ops\<close>). \<open>Bmt_Bbt\<close>, \<open>Bmt_V2\<close>: the backends of \<^verbatim>\<open>mtk_bmt_bbt.c\<close> and \<^verbatim>\<open>mtk_bmt_v2.c\<close>.
  \<^item> \<open>Nmbm_State\<close>, \<open>Nmbm_Write\<close>, \<open>Nmbm_Tables\<close>, \<open>Nmbm_Attach\<close>: the third backend, \<^verbatim>\<open>mtk_bmt_nmbm.c\<close>, in the order of
    the file: the structures on the flash and the block states, the verified writes, the two copies of the
    information table, and how they are found at the start.
  \<^item> \<open>Rb_Tags\<close>, \<open>Rb_Lz77\<close>, \<open>Rb_Softconfig\<close>, \<open>Rb_Hardconfig\<close>: \<^verbatim>\<open>routerboot.c\<close>, \<^verbatim>\<open>rb_lz77.c\<close>, \<^verbatim>\<open>rb_softconfig.c\<close> and
    \<^verbatim>\<open>rb_hardconfig.c\<close>.
  \<^item> \<open>Rb_Partitions\<close>: \<^verbatim>\<open>routerbootpart.c\<close>, with the static table of the well-known partitions as its state.
  \<^item> \<open>Mtd_Parse\<close>: what the parsers see of a device (\<open>mtd_info\<close>: its size, erase size and read function), the
    loop over offsets (\<open>for_off\<close>), and \<^verbatim>\<open>mtdsplit.c\<close>, the search for the root file system.
    \<open>Mtdsplit_Fixed\<close>: the parsers with a header at the start (\<^verbatim>\<open>mtdsplit_tplink.c\<close>, \<^verbatim>\<open>_seama\<close>, \<^verbatim>\<open>_wrgg\<close>, \<^verbatim>\<open>_eva\<close>,
    \<^verbatim>\<open>_brnimage\<close>, \<^verbatim>\<open>_lzma\<close>, \<^verbatim>\<open>_minor\<close>, \<^verbatim>\<open>_cfe_bootfs\<close>, \<^verbatim>\<open>_h3c_vfs\<close>, \<^verbatim>\<open>_owrt_prolog\<close>, \<^verbatim>\<open>_squashfs\<close>).
    \<open>Mtdsplit_Scan\<close>: those that scan the erase blocks for a header (\<^verbatim>\<open>_uimage\<close>, \<^verbatim>\<open>_jimage\<close>, \<^verbatim>\<open>_trx\<close>,
    \<^verbatim>\<open>_bcm63xx\<close>). \<open>Mtdsplit_Elf\<close>, \<open>Mtdsplit_Fit\<close>, \<open>Mtdsplit_Wfi\<close>: \<^verbatim>\<open>_elf\<close>, \<^verbatim>\<open>_fit\<close>, \<^verbatim>\<open>_bcm_wfi\<close>. \<open>Mtdsplit_Boot\<close>: those
    that ask which image was booted, \<^verbatim>\<open>_seil\<close> and \<^verbatim>\<open>_mstc_boot\<close>.
  \<^item> \<open>C_Strings\<close>: the functions of the C library on zero terminated bytes that parsers and tool use.
    \<open>Nvram_Store\<close>: the handle and its hash table, the variables of \<^verbatim>\<open>nvram.c\<close> (get, set, unset, getall, free).
    \<open>Nvram_Image\<close>: \<^verbatim>\<open>crc.c\<close>, and the image: how it is found and read (\<open>nvram_open\<close>) and written
    (\<open>nvram_commit\<close>). \<open>Nvram_Cli\<close>: the staging file and the command line of \<^verbatim>\<open>cli.c\<close>.
  \<^item> \<open>Mtd_Tool\<close>: the devices of the mtd tool (\<open>mtd_dev\<close>), its input, and the commands of \<^verbatim>\<open>mtd.c\<close> (\<open>mtd_erase\<close>,
    \<open>mtd_dump\<close>, \<open>mtd_write\<close>, \<open>mtd_main\<close>) with the check of images in \<^verbatim>\<open>trx.c\<close>. \<open>Mtd_Fix\<close>: the commands that
    repair the header of an image, in \<^verbatim>\<open>trx.c\<close>, \<^verbatim>\<open>seama.c\<close>, \<^verbatim>\<open>wrg.c\<close> and \<^verbatim>\<open>wrgg.c\<close>. \<open>Mtd_Crc32\<close>, \<open>Md5\<close>: the checksums they
    use, \<^verbatim>\<open>crc32.c\<close> and \<^verbatim>\<open>md5.c\<close>.

  \<^bold>\<open>State.\<close> The record \<open>bmt_desc\<close> has the fields of the C structure that the modelled code uses, with the
  chip as one of them, so that an operation on the descriptor is also one on the chip. The tables of the
  backends are functions or byte buffers, as the code uses them. \<open>sc_state\<close> and \<open>hc_state\<close> hold the static
  variables of the two RouterBoot files. The parsers keep no state, with the exception of the table in
  \<open>Rb_Partitions\<close>. Integers that can wrap around have their width: \<open>u8\<close> to \<open>u64\<close> as words, and \<open>size_t\<close> in the
  parsers as an \<open>int\<close> taken \<open>mod\<close> the word length of the processor (\<open>szt\<close>), which is 32 or 64 bits there; an
  offset of type \<open>loff_t\<close> is an \<open>int\<close>. The handle of the NVRAM tool is \<open>nvram_handle\<close>: the mapping as bytes, the
  place of the image in it, the table of variables and the list of freed ones. The command line works on
  \<open>nvram_files\<close>, the content of the partition and of the staging file. The tool is modelled on the machines it
  is for, with 32 bits and little endian. The mtd tool keeps its variables of a write in the record \<open>wr\<close>, with the
  devices that are open, full and still to come; its devices are a map from names to the state of the kernel.

  \<^bold>\<open>What the lemmas show.\<close>
  \<^item> Bad block management: the mapping is one to one and stays so under remaps and table updates; reads
    through the layer are reads of a flat device; every loop over a failing driver ends; a table that was
    written is the one read at the next start; and the cases in which the code breaks these.
  \<^item> RouterBoot: round trips of the tag format, the run-length code and the LZ77 format, with bounds on
    what is read and written; settings reach the flash with a right checksum, and a clean buffer is what
    the flash holds, under any interleaving of stores and commits.
  \<^item> Parsers: partitions lie in the device, in order and without overlaps; the place that is found is the
    first one that the specification of the search allows (\<open>first_rootfs\<close>, \<open>first_image\<close>, \<open>no_tree_before\<close>); the
    searches end, with the conditions on the content of the device that this needs; and the inputs for
    which they do not end or give partitions that are wrong.
  \<^item> NVRAM tool: the table is a map of the variables; a commit writes an image that the next open accepts and
    reads back with the same variables, when they fit; the commands of the command line are the
    operations on that map, across the processes; and where the code departs from this: allocations that
    fail, variables without room, a mapping at a high address, a status that is lost.
  \<^item> mtd tool: an accepted image is put into the good blocks in order, whatever the pieces it is read in and
    whatever blocks are bad; one that is too large ends in an error; a refused one changes nothing; a dump reads
    back what was written; an erase clears the good blocks; and a read error that is taken for the end of the
    image. A repaired header is valid for the data on the flash and nothing else changes. The checksum by
    table is the one of the polynomial, and MD5 in pieces is MD5 of the whole.

  \<^bold>\<open>Interfaces.\<close> A locale states what a client needs and holds what follows for it:
  \<open>block_marks\<close> in \<open>Block_Marks\<close>, a table that records bad blocks, interpreted on the bitmap of the BBT
  backend and on the state table of NMBM; \<open>bmt_backend\<close> in \<open>Bmt_Core\<close>, the backend that the core calls,
  interpreted on the operations of all three backends in their theories; \<open>rootfs_search\<close> in \<open>Mtd_Parse\<close>,
  the search for a root file system that the parsers call, interpreted there on the code of \<^verbatim>\<open>mtdsplit.c\<close>;
  \<open>variable_store\<close> in \<open>Nvram_Store\<close>, the get, put and remove on which image and command line rest,
  interpreted there on the hash table; and \<open>fix_layout\<close> in \<open>Mtd_Fix\<close>, the layout of a header with a digest,
  interpreted there on those of SEAMA, WRG and WRGG.

  \<^bold>\<open>Loops, fuel and bounds.\<close> A loop whose end depends on the content of a device is a \<open>partial_function\<close>, and
  where it returns, that is a theorem of its own. Loops with a counter are structural, and where the code
  retries a bounded number of times the number is that of the code. The loops over blocks and pages of the
  bad block layer take fuel and give \<open>None\<close> without it: the read, write and erase of \<open>Bmt_Core\<close>, the scans
  of \<open>Bmt_V2\<close> that go on after a failed block, and the walk of the bitmap backend over an overflowing range.
  The theorems that state a run give the fuel that is enough: for a read eleven turns for each byte, one that
  reads and ten retries (\<open>11 * unat len + 10 < fuel\<close>), and the length of the range for the bitmap backend.
  The parsers are proved correct for devices of less than 4 GiB (\<open>searchable\<close>), because the rounding to erase
  blocks is done with 32 bits.

  \<^bold>\<open>Parameters.\<close> Code that the repository does not have is an argument with its documented behaviour as a named
  hypothesis: the NAND driver and the reads of an MTD device (\<open>mtd_sane\<close>), \<open>crc32\<close>, \<open>libfdt\<close>, the LZO decompressor,
  \<open>kstrtol\<close> and its relatives, allocation (a truth value for each), what the device tree gives, and for the NVRAM
  tool the address of the mapping and whether \<open>char\<close> is signed; the mtd tool has the kernel's operations on a
  device, with the behaviour \<open>flash_dev\<close>, which the chip \<open>ram_dev\<close> of the examples keeps. Bytes that the
  code reads outside its buffers are parameters as well (\<open>junk\<close>); a write outside a buffer is the result \<open>None\<close>.

  \<^bold>\<open>Not modelled.\<close> Concurrency other than that of the RouterBoot settings; messages, sysfs and debugfs
  registration, attach and detach of the bad block layer, and the MTD notifier of the RouterBoot driver,
  which only register and dispatch; of the NVRAM tool the search for the partition in \<^verbatim>\<open>/proc/mtd\<close> and files
  that cannot be opened; of the mtd tool the options for jffs2 data, recovery flags and FIS tables, \<open>verify\<close>, image
  tags and boot counters, and the search for a device. The other parts of the repository are drivers on hardware registers
  that it does not define, vendored code (boot loaders, LZMA, the switch library), build scripts, and user
  programs around files and sockets; of these the other firmware tools, the switch framework and the MyLoader
  parser have logic of their own and are the next candidates.
\<close>

end
